(* ===== verification/Strata_Prelude.thy ===== *)
theory Strata_Prelude
  imports Main "HOL-Library.Word" "HOL-Library.List_Lexorder"
begin

text \<open>
  Vocabulary shared by all components: byte strings and machine integers,
  big-endian byte layouts (the \<open>to_be_bytes\<close> / \<open>from_be_bytes\<close> of the Rust
  standard library), results of fallible code as a sum type with its bind, and
  facts on byte-string order, sorted lists and lookups that several components
  rely on.

  A \<open>Vec<u8>\<close> or \<open>&[u8]\<close> is a list of 8-bit words; the order of
  \<^verbatim>\<open>HOL-Library.List_Lexorder\<close> on such lists is the lexicographic order that
  Rust derives for byte slices. A \<open>usize\<close> is a natural number (memory
  exhaustion is not modelled); \<open>u16\<close>, \<open>u32\<close> and \<open>u64\<close> are words.
\<close>

section \<open>Types\<close>

type_synonym u8 = "8 word"
type_synonym u16 = "16 word"
type_synonym u32 = "32 word"
type_synonym u64 = "64 word"
type_synonym bytes = "u8 list"

named_theorems codec_simps \<open>encode/decode round trips\<close>
named_theorems len_simps \<open>lengths of encodings\<close>

section \<open>Fallible code\<close>

text \<open>Rust's \<open>Result<T, E>\<close> is \<open>'e + 'a\<close>; \<open>res_bind\<close> is the \<open>?\<close> operator.\<close>

fun res_bind :: "'e + 'a \<Rightarrow> ('a \<Rightarrow> 'e + 'b) \<Rightarrow> 'e + 'b" where
  "res_bind (Inl e) f = Inl e"
| "res_bind (Inr x) f = f x"

text \<open>\<open>Result::map_err\<close>, which the \<open>From\<close> conversions between error types use.\<close>

fun map_err :: "('e \<Rightarrow> 'f) \<Rightarrow> 'e + 'a \<Rightarrow> 'f + 'a" where
  "map_err f (Inl e) = Inl (f e)"
| "map_err f (Inr x) = Inr x"

text \<open>Collecting an iterator of results into \<open>Result<Vec<_>, _>\<close>: the first error wins.\<close>

fun collect_res :: "('e + 'a) list \<Rightarrow> 'e + 'a list" where
  "collect_res [] = Inr []"
| "collect_res (Inl e # rs) = Inl e"
| "collect_res (Inr x # rs) = res_bind (collect_res rs) (\<lambda>xs. Inr (x # xs))"

lemma res_bind_eq_Inr_iff [simp]:
  "res_bind m f = Inr y \<longleftrightarrow> (\<exists>x. m = Inr x \<and> f x = Inr y)"
  by (cases m) auto

lemma res_bind_cong [fundef_cong]:
  "m = m' \<Longrightarrow> (\<And>x. m' = Inr x \<Longrightarrow> f x = g x) \<Longrightarrow> res_bind m f = res_bind m' g"
  by (cases m') auto

lemma res_bind_assoc: "res_bind (res_bind m f) g = res_bind m (\<lambda>x. res_bind (f x) g)"
  by (cases m) auto

lemma map_err_eq_Inr_iff [simp]: "map_err f m = Inr y \<longleftrightarrow> m = Inr y"
  by (cases m) auto

lemma map_err_eq_Inl_iff [simp]: "map_err f m = Inl e \<longleftrightarrow> (\<exists>e'. m = Inl e' \<and> e = f e')"
  by (cases m) auto

lemma collect_res_map_Inr [simp]: "collect_res (map Inr xs) = Inr xs"
  by (induction xs) auto

lemma collect_res_map_Inr_comp [simp]: "collect_res (map (\<lambda>x. Inr (f x)) xs) = Inr (map f xs)"
  by (induction xs) auto

section \<open>Big-endian integers\<close>

text \<open>
  \<open>be_of_int n x\<close> is the big-endian representation of \<open>x\<close> in \<open>n\<close> bytes and
  \<open>int_of_be\<close> reads one back. Both work on integers so that they evaluate
  quickly on the large constants of the file formats.
\<close>

fun be_of_int :: "nat \<Rightarrow> int \<Rightarrow> bytes" where
  "be_of_int 0 x = []"
| "be_of_int (Suc n) x = be_of_int n (x div 256) @ [word_of_int x]"

definition int_of_be :: "bytes \<Rightarrow> int" where
  "int_of_be bs = foldl (\<lambda>a b. a * 256 + uint b) 0 bs"

text \<open>\<open>w.to_be_bytes()\<close> with its width in bytes, and \<open>from_be_bytes\<close>.\<close>

definition to_be :: "nat \<Rightarrow> 'a::len word \<Rightarrow> bytes" where
  "to_be n w = be_of_int n (uint w)"

definition from_be :: "bytes \<Rightarrow> 'a::len word" where
  "from_be bs = word_of_int (int_of_be bs)"

lemma length_be_of_int [simp, len_simps]: "length (be_of_int n x) = n"
  by (induction n x rule: be_of_int.induct) auto

lemma length_to_be [simp, len_simps]: "length (to_be n w) = n"
  by (simp add: to_be_def)

lemma int_of_be_Nil [simp]: "int_of_be [] = 0"
  by (simp add: int_of_be_def)

lemma int_of_be_snoc [simp]: "int_of_be (bs @ [b]) = int_of_be bs * 256 + uint b"
  by (simp add: int_of_be_def)

lemma int_of_be_nonneg [simp]: "0 \<le> int_of_be bs"
  by (induction bs rule: rev_induct) auto

lemma int_of_be_less: "int_of_be bs < 256 ^ length bs"
proof (induction bs rule: rev_induct)
  case (snoc b bs)
  have "uint b < 256" using uint_bounded [of b] by simp
  then show ?case using snoc by (simp add: algebra_simps)
qed simp

lemma uint_word_of_int_byte: "uint (word_of_int x :: u8) = x mod 256"
  by (simp add: uint_word_of_int)

lemma int_of_be_of_int: "0 \<le> x \<Longrightarrow> x < 256 ^ n \<Longrightarrow> int_of_be (be_of_int n x) = x"
proof (induction n x rule: be_of_int.induct)
  case (2 n x)
  then have "x div 256 < 256 ^ n"
    by (simp add: div_less_iff_less_mult mult.commute)
  then show ?case using 2 by (simp add: uint_word_of_int_byte)
qed simp

lemma be_of_int_of_be: "be_of_int (length bs) (int_of_be bs) = bs"
proof (induction bs rule: rev_induct)
  case (snoc b bs)
  have "uint b < 256" using uint_bounded [of b] by simp
  then have "(int_of_be bs * 256 + uint b) div 256 = int_of_be bs"
    by (simp add: div_pos_pos_trivial)
  moreover have "(word_of_int (int_of_be bs * 256 + uint b) :: u8) = b"
    using \<open>uint b < 256\<close>
    by (intro word_uint_eqI) (simp only: uint_word_of_int_byte, simp add: mod_pos_pos_trivial)
  ultimately show ?case using snoc by simp
qed simp

lemma uint_less_256: 
  assumes "LENGTH('a::len) \<le> 8 * n"
  shows "uint (w :: 'a word) < 256 ^ n"
proof -
  have "uint w < 2 ^ LENGTH('a)" by (rule uint_bounded)
  also have "\<dots> \<le> (2::int) ^ (8 * n)" using assms by (simp add: power_increasing)
  also have "\<dots> = 256 ^ n" by (simp add: power_mult)
  finally show ?thesis .
qed

lemma from_be_to_be [simp, codec_simps]:
  "LENGTH('a::len) \<le> 8 * n \<Longrightarrow> from_be (to_be n (w :: 'a word)) = w"
  by (simp add: from_be_def to_be_def int_of_be_of_int uint_less_256)

lemma to_be_from_be:
  "length bs = n \<Longrightarrow> LENGTH('a::len) = 8 * n \<Longrightarrow> to_be n (from_be bs :: 'a word) = bs"
  using int_of_be_less [of bs] be_of_int_of_be [of bs]
  by (simp add: from_be_def to_be_def uint_word_of_int take_bit_int_eq_self power_mult)

lemma to_be_inject:
  "LENGTH('a::len) \<le> 8 * n \<Longrightarrow> to_be n (v :: 'a word) = to_be n w \<longleftrightarrow> v = w"
  by (metis from_be_to_be)

text \<open>Lengths travel as truncating casts \<open>len as u32\<close>.\<close>

lemma unat_of_len [simp]: "n < 2 ^ LENGTH('a::len) \<Longrightarrow> unat (word_of_nat n :: 'a word) = n"
  by (simp add: unat_of_nat)

lemma unat_add_one: "w < (- 1 :: 'a::len word) \<Longrightarrow> unat (w + 1) = Suc (unat w)"
  using unatSuc [of w] by (metis add.commute add_eq_0_iff2 order_less_irrefl)

lemma less_add_one_word: "w < (- 1 :: 'a::len word) \<Longrightarrow> w < w + 1"
  by (simp add: word_less_nat_alt [of w "w + 1"] unat_add_one)

section \<open>Order of byte strings\<close>

lemma bytes_less_append_iff [simp]: "(p @ xs :: bytes) < p @ ys \<longleftrightarrow> xs < ys"
  by (induction p) auto

lemma bytes_le_append_iff [simp]: "(p @ xs :: bytes) \<le> p @ ys \<longleftrightarrow> xs \<le> ys"
  by (induction p) auto

lemma bytes_less_append_eqlen:
  "length xs = length ys \<Longrightarrow> (xs :: bytes) < ys \<Longrightarrow> xs @ us < ys @ vs"
  by (induction xs ys rule: list_induct2) auto

lemma bytes_less_eqlen_append_iff:
  "length xs = length ys \<Longrightarrow> (xs :: bytes) @ us < ys @ vs \<longleftrightarrow> xs < ys \<or> xs = ys \<and> us < vs"
  by (induction xs ys rule: list_induct2) auto

text \<open>Big-endian byte strings of one width compare as the integers do.\<close>

lemma int_of_be_order:
  "length xs = length ys \<Longrightarrow> xs < ys \<longleftrightarrow> int_of_be xs < int_of_be ys"
proof (induction xs arbitrary: ys rule: rev_induct)
  case (snoc x xs)
  then obtain zs z where ys: "ys = zs @ [z]" "length xs = length zs"
    by (metis append_butlast_last_id length_0_conv length_append_singleton length_butlast
        diff_Suc_1 nat.distinct(1))
  have "uint x < 256" "uint z < 256"
    using uint_bounded [of x] uint_bounded [of z] by simp_all
  moreover have "int_of_be xs = int_of_be zs \<longleftrightarrow> xs = zs"
    using be_of_int_of_be ys(2) by metis
  moreover have "int_of_be xs * 256 + uint x < int_of_be zs * 256 + uint z \<longleftrightarrow>
      int_of_be xs < int_of_be zs \<or> int_of_be xs = int_of_be zs \<and> uint x < uint z"
    using calculation(1,2) uint_ge_0 [of x] uint_ge_0 [of z]
    by (cases "int_of_be xs" "int_of_be zs" rule: linorder_cases; linarith)
  ultimately show ?case
    using snoc.IH [OF ys(2)] by (simp add: ys bytes_less_eqlen_append_iff word_less_def)
qed simp

lemma to_be_less_iff:
  assumes "LENGTH('a::len) \<le> 8 * n"
  shows "to_be n (v :: 'a word) < to_be n w \<longleftrightarrow> v < w"
  using assms by (simp add: to_be_def int_of_be_order int_of_be_of_int uint_less_256 word_less_def)

text \<open>An association list with strictly increasing keys is determined by its map.\<close>

lemma strict_assoc_unique:
  fixes xs ys :: "('k::linorder \<times> 'v) list"
  assumes "sorted_wrt (<) (map fst xs)" "sorted_wrt (<) (map fst ys)" "map_of xs = map_of ys"
  shows "xs = ys"
proof -
  have d: "sorted (map fst xs)" "distinct (map fst xs)" "sorted (map fst ys)" "distinct (map fst ys)"
    using assms(1,2) by (simp_all add: strict_sorted_iff)
  have "set xs = set ys" using map_of_inject_set [OF d(2,4)] assms(3) by simp
  moreover have "inj_on fst (set xs)" using d(2) by (simp add: distinct_map)
  ultimately show ?thesis by (intro map_sorted_distinct_set_unique [of fst xs ys] d) simp_all
qed

end
