(* ===== verification/Codec.thy ===== *)
theory Codec
  imports Strata_Prelude
begin

text \<open>
  The serialization vocabulary of the storage layer
  (\<^verbatim>\<open>src/crates/filesystem/src/codec.rs\<close>): readers that split a value off the
  front of a byte slice and hand back the rest, and the length-prefixed byte
  string. A Rust reader advances its \<open>&mut &[u8]\<close> argument; here it returns the
  advanced slice next to the value. \<open>decoder_law\<close> is the contract of every
  \<open>Encode\<close>/\<open>Decode\<close> pair of the code base; its lemma on repeated decoding is what
  the block, manifest and header codecs instantiate.
\<close>

section \<open>Definitions\<close>

datatype decode_error =
    UnexpectedEof
  | BadMagic (expected: u32) (got: u32)
  | UnsupportedVersion u16
  | UnknownOpType u8

type_synonym 'a decoder = "bytes \<Rightarrow> decode_error + 'a \<times> bytes"

definition codec_take :: "nat \<Rightarrow> bytes decoder" where
  "codec_take n bs =
    (if length bs < n then Inl UnexpectedEof else Inr (take n bs, drop n bs))"

definition get_u8 :: "u8 decoder" where
  "get_u8 bs = res_bind (codec_take 1 bs) (\<lambda>(h, rest). Inr (hd h, rest))"

definition get_u16 :: "u16 decoder" where
  "get_u16 bs = res_bind (codec_take 2 bs) (\<lambda>(h, rest). Inr (from_be h, rest))"

definition get_u32 :: "u32 decoder" where
  "get_u32 bs = res_bind (codec_take 4 bs) (\<lambda>(h, rest). Inr (from_be h, rest))"

definition get_u64 :: "u64 decoder" where
  "get_u64 bs = res_bind (codec_take 8 bs) (\<lambda>(h, rest). Inr (from_be h, rest))"

definition get_bytes :: "bytes decoder" where
  "get_bytes bs = res_bind (get_u32 bs) (\<lambda>(len, rest). codec_take (unat len) rest)"

definition put_bytes :: "bytes \<Rightarrow> bytes" where
  "put_bytes v = to_be 4 (word_of_nat (length v) :: u32) @ v"

section \<open>Readers\<close>

lemma codec_take_append [simp, codec_simps]: "n = length h \<Longrightarrow> codec_take n (h @ rest) = Inr (h, rest)"
  by (simp add: codec_take_def)

lemma codec_take_eq_Inr_iff:
  "codec_take n bs = Inr (h, rest) \<longleftrightarrow> length h = n \<and> bs = h @ rest"
  by (auto simp: codec_take_def min_def)

lemma codec_take_short: "length bs < n \<Longrightarrow> codec_take n bs = Inl UnexpectedEof"
  by (simp add: codec_take_def)

lemma get_u8_Cons [simp, codec_simps]: "get_u8 (b # rest) = Inr (b, rest)"
  by (simp add: get_u8_def codec_take_def)

lemma get_u8_Nil [simp]: "get_u8 [] = Inl UnexpectedEof"
  by (simp add: get_u8_def codec_take_def)

lemma get_u16_append [simp, codec_simps]: "get_u16 (to_be 2 w @ rest) = Inr (w, rest)"
  by (simp add: get_u16_def)

lemma get_u32_append [simp, codec_simps]: "get_u32 (to_be 4 w @ rest) = Inr (w, rest)"
  by (simp add: get_u32_def)

lemma get_u64_append [simp, codec_simps]: "get_u64 (to_be 8 w @ rest) = Inr (w, rest)"
  by (simp add: get_u64_def)

lemma get_u32_short: "length bs < 4 \<Longrightarrow> get_u32 bs = Inl UnexpectedEof"
  by (simp add: get_u32_def codec_take_def)

lemma length_put_bytes [simp, len_simps]: "length (put_bytes v) = 4 + length v"
  by (simp add: put_bytes_def)

lemma get_bytes_put_bytes [simp, codec_simps]:
  "length v < 2 ^ 32 \<Longrightarrow> get_bytes (put_bytes v @ rest) = Inr (v, rest)"
  by (simp add: get_bytes_def put_bytes_def)

section \<open>The contract of an encoder and its decoder\<close>

text \<open>
  \<open>dec\<close> splits exactly one encoding off the front of any input. \<open>valid\<close> carries the
  width limits of the length fields.
\<close>

locale decoder_law =
  fixes enc :: "'a \<Rightarrow> bytes"
    and dec :: "'a decoder"
    and valid :: "'a \<Rightarrow> bool"
  assumes dec_enc: "valid x \<Longrightarrow> dec (enc x @ rest) = Inr (x, rest)"
begin

lemma enc_inject: "valid x \<Longrightarrow> valid y \<Longrightarrow> enc x = enc y \<Longrightarrow> x = y"
  by (metis dec_enc Inr_inject Pair_inject)

lemma enc_prefix_free: "valid x \<Longrightarrow> valid y \<Longrightarrow> enc x @ r = enc y @ s \<Longrightarrow> x = y \<and> r = s"
  by (metis dec_enc Inr_inject Pair_inject)

end

text \<open> Repeated decoding: \<open>(0..n).map(|_| decode(bytes)).collect()\<close>.\<close>

fun decode_n :: "nat \<Rightarrow> 'a decoder \<Rightarrow> 'a list decoder" where
  "decode_n 0 dec bs = Inr ([], bs)"
| "decode_n (Suc n) dec bs =
    res_bind (dec bs) (\<lambda>(x, rest).
    res_bind (decode_n n dec rest) (\<lambda>(xs, rest'). Inr (x # xs, rest')))"

text \<open>Decoding until the slice is empty; \<open>fuel\<close> bounds the number of values.\<close>

fun decode_all :: "nat \<Rightarrow> 'a decoder \<Rightarrow> bytes \<Rightarrow> decode_error + 'a list" where
  "decode_all fuel dec [] = Inr []"
| "decode_all 0 dec (b # bs) = Inl UnexpectedEof"
| "decode_all (Suc fuel) dec (b # bs) =
    res_bind (dec (b # bs)) (\<lambda>(x, rest).
    res_bind (decode_all fuel dec rest) (\<lambda>xs. Inr (x # xs)))"

context decoder_law
begin

lemma decode_n_concat:
  "(\<And>x. x \<in> set xs \<Longrightarrow> valid x) \<Longrightarrow>
    decode_n (length xs) dec (concat (map enc xs) @ rest) = Inr (xs, rest)"
  by (induction xs) (auto simp: dec_enc)

lemma decode_all_concat:
  assumes "\<And>x. x \<in> set xs \<Longrightarrow> valid x" and "\<And>x. x \<in> set xs \<Longrightarrow> enc x \<noteq> []"
    and "length xs \<le> fuel"
  shows "decode_all fuel dec (concat (map enc xs)) = Inr xs"
  using assms
proof (induction xs arbitrary: fuel)
  case (Cons x xs)
  then obtain b bs where b: "enc x @ concat (map enc xs) = b # bs"
    by (metis append_is_Nil_conv list.exhaust list.set_intros(1))
  obtain k where k: "fuel = Suc k" "length xs \<le> k"
    using Cons.prems(3) by (cases fuel) auto
  have "dec (b # bs) = Inr (x, concat (map enc xs))"
    using dec_enc [of x "concat (map enc xs)"] Cons.prems(1) b by simp
  then show ?case using Cons k b by simp
qed simp

end

interpretation u32_codec: decoder_law "to_be 4" get_u32 "\<lambda>_. True"
  by unfold_locales simp

interpretation u64_codec: decoder_law "to_be 8" get_u64 "\<lambda>_. True"
  by unfold_locales simp

interpretation bytes_codec: decoder_law put_bytes get_bytes "\<lambda>v. length v < 2 ^ 32"
  by unfold_locales simp

end
