(* ===== verification/Journal.thy ===== *)
theory Journal
  imports Codec
begin

text \<open>
  The append-only log of \<^verbatim>\<open>src/crates/journal/src\<close>: framing
  (\<^verbatim>\<open>frame.rs\<close>), the file header, and \<open>open\<close>, \<open>append\<close>, \<open>replay\<close> and
  \<open>truncate\<close> (\<^verbatim>\<open>lib.rs\<close>). The file behind the handle is the byte list on stable
  storage next to the write cursor of the handle. The checksum
  \<open>crc32fast::hash\<close> is a parameter \<open>crc\<close>; nothing is assumed about it, because a
  torn append is always caught by the length checks. The record codec is the
  interface \<open>journal_codec\<close>. Reads of a short file fail with \<open>JournalIo\<close>; other
  operating-system failures are not modelled.
\<close>

section \<open>Definitions\<close>

text \<open>\<open>JournalDecode\<close> carries the reason a codec gives, of which the code keeps the rendering.\<close>

datatype 'm journal_error = JournalIo | BadHeader | JournalDecode 'm

definition JOURNAL_MAGIC :: u32 where "JOURNAL_MAGIC = 0x4A524E4C"
definition JOURNAL_VERSION :: u16 where "JOURNAL_VERSION = 1"
definition JOURNAL_HEADER_LEN :: nat where "JOURNAL_HEADER_LEN = 6"
definition FRAME_HEADER_LEN :: nat where "FRAME_HEADER_LEN = 8"

subsection \<open>Frames\<close>

definition write_frame :: "(bytes \<Rightarrow> u32) \<Rightarrow> bytes \<Rightarrow> bytes" where
  "write_frame crc payload =
    to_be 4 (word_of_nat (length payload) :: u32) @ to_be 4 (crc payload) @ payload"

definition read_frame :: "(bytes \<Rightarrow> u32) \<Rightarrow> bytes \<Rightarrow> nat \<Rightarrow> (bytes \<times> nat) option" where
  "read_frame crc buf pos =
    (if length buf < pos then None
     else let rest = drop pos buf in
       if length rest < FRAME_HEADER_LEN then None
       else let len = unat (from_be (take 4 rest) :: u32);
                sum = (from_be (take 4 (drop 4 rest)) :: u32) in
         if length rest < FRAME_HEADER_LEN + len then None
         else let payload = take len (drop FRAME_HEADER_LEN rest) in
           if crc payload \<noteq> sum then None
           else Some (payload, pos + FRAME_HEADER_LEN + len))"

subsection \<open>The file\<close>

record journal =
  j_file :: bytes
  j_pos :: nat

text \<open>\<open>write_all\<close> at the cursor, which overwrites and extends.\<close>

definition write_all :: "bytes \<Rightarrow> journal \<Rightarrow> journal" where
  "write_all data j =
    j\<lparr>j_file := take (j_pos j) (j_file j) @ data @ drop (j_pos j + length data) (j_file j),
      j_pos := j_pos j + length data\<rparr>"

definition write_header :: "journal \<Rightarrow> journal" where
  "write_header j = write_all (to_be 2 JOURNAL_VERSION) (write_all (to_be 4 JOURNAL_MAGIC) j)"

definition verify_header :: "bytes \<Rightarrow> 'm journal_error + unit" where
  "verify_header file =
    (if length file < JOURNAL_HEADER_LEN then Inl JournalIo
     else if (from_be (take 4 file) :: u32) \<noteq> JOURNAL_MAGIC \<or>
             (from_be (take 2 (drop 4 file)) :: u16) \<noteq> JOURNAL_VERSION then Inl BadHeader
     else Inr ())"

text \<open>\<open>with_codec\<close>: the argument is the file at the path, if there is one.\<close>

definition with_codec :: "bytes option \<Rightarrow> 'm journal_error + journal" where
  "with_codec path =
    (let file = (case path of None \<Rightarrow> [] | Some f \<Rightarrow> f);
         seek_end = (\<lambda>j. j\<lparr>j_pos := length (j_file j)\<rparr>) in
     if length file = 0 then Inr (seek_end (write_header \<lparr>j_file = file, j_pos = 0\<rparr>))
     else res_bind (verify_header file) (\<lambda>_. Inr (seek_end \<lparr>j_file = file, j_pos = 0\<rparr>)))"

definition append_rec :: "(bytes \<Rightarrow> u32) \<Rightarrow> ('r \<Rightarrow> bytes) \<Rightarrow> 'r \<Rightarrow> journal \<Rightarrow> journal" where
  "append_rec crc encode record j = write_all (write_frame crc (encode record)) j"

lemma read_frame_progress:
  "read_frame crc buf pos = Some (payload, nxt) \<Longrightarrow> pos < nxt \<and> nxt \<le> length buf"
  by (auto simp: read_frame_def Let_def FRAME_HEADER_LEN_def split: if_splits)

function replay_from ::
  "(bytes \<Rightarrow> u32) \<Rightarrow> (bytes \<Rightarrow> 'm journal_error + 'r) \<Rightarrow> bytes \<Rightarrow> nat \<Rightarrow> ('m journal_error + 'r) list"
where
  "replay_from crc decode buf pos =
    (case read_frame crc buf pos of
       None \<Rightarrow> []
     | Some (payload, nxt) \<Rightarrow> decode payload # replay_from crc decode buf nxt)"
  by pat_completeness auto

termination
  by (relation "measure (\<lambda>(crc, decode, buf, pos). length buf - pos)")
    (auto dest: read_frame_progress)

declare replay_from.simps [simp del]

definition replay ::
  "(bytes \<Rightarrow> u32) \<Rightarrow> (bytes \<Rightarrow> 'm journal_error + 'r) \<Rightarrow> journal \<Rightarrow> ('m journal_error + 'r) list"
where
  "replay crc decode j = replay_from crc decode (j_file j) JOURNAL_HEADER_LEN"

definition truncate_log :: "journal \<Rightarrow> journal" where
  "truncate_log j = j\<lparr>j_file := take JOURNAL_HEADER_LEN (j_file j), j_pos := JOURNAL_HEADER_LEN\<rparr>"

subsection \<open>The default codec\<close>

definition bytes_encode :: "bytes \<Rightarrow> bytes" where
  "bytes_encode record = record"

definition bytes_decode :: "bytes \<Rightarrow> 'm journal_error + bytes" where
  "bytes_decode bs = Inr bs"

section \<open>Frames read back\<close>

lemma length_write_frame [simp, len_simps]: "length (write_frame crc p) = 8 + length p"
  by (simp add: write_frame_def)

lemma read_frame_write_frame:
  assumes "length p < 2 ^ 32" and "length pre = pos"
  shows "read_frame crc (pre @ write_frame crc p @ rest) pos = Some (p, pos + 8 + length p)"
  using assms by (simp add: read_frame_def write_frame_def FRAME_HEADER_LEN_def)

text \<open>A frame cut short anywhere is not read, whatever the checksum.\<close>

lemma read_frame_torn:
  assumes "length p < 2 ^ 32" and "length pre = pos" and "k < 8 + length p"
  shows "read_frame crc (pre @ take k (write_frame crc p)) pos = None"
proof (cases "k < 8")
  case False
  then have "take 4 (take k (write_frame crc p)) = to_be 4 (word_of_nat (length p) :: u32)"
    by (simp add: write_frame_def min_def)
  then show ?thesis
    using assms False by (simp add: read_frame_def FRAME_HEADER_LEN_def)
qed (use assms in \<open>simp add: read_frame_def FRAME_HEADER_LEN_def\<close>)

lemma read_frame_short_payload:
  assumes "take 4 rest = to_be 4 (word_of_nat n :: u32)" and "n < 2 ^ 32" and "length rest < 8 + n"
  shows "read_frame crc (pre @ rest) (length pre) = None"
  using assms by (simp add: read_frame_def FRAME_HEADER_LEN_def)

lemma read_frame_at_end [simp]: "length buf \<le> pos \<Longrightarrow> read_frame crc buf pos = None"
  by (simp add: read_frame_def FRAME_HEADER_LEN_def)

definition frames :: "(bytes \<Rightarrow> u32) \<Rightarrow> ('r \<Rightarrow> bytes) \<Rightarrow> 'r list \<Rightarrow> bytes" where
  "frames crc encode rs = concat (map (\<lambda>r. write_frame crc (encode r)) rs)"

definition header_bytes :: bytes where
  "header_bytes = to_be 4 JOURNAL_MAGIC @ to_be 2 JOURNAL_VERSION"

lemma frames_Nil [simp]: "frames crc encode [] = []"
  by (simp add: frames_def)

lemma frames_append: "frames crc encode (rs @ ss) = frames crc encode rs @ frames crc encode ss"
  by (simp add: frames_def)

lemma frames_Cons: "frames crc encode (r # rs) = write_frame crc (encode r) @ frames crc encode rs"
  by (simp add: frames_def)

lemma length_header_bytes [simp]: "length header_bytes = 6"
  by (simp add: header_bytes_def)

lemma verify_header_bytes [simp]: "verify_header (header_bytes @ rest) = Inr ()"
  by (simp add: verify_header_def header_bytes_def JOURNAL_HEADER_LEN_def)

lemma header_bytes_not_Nil [simp]: "header_bytes \<noteq> []"
  using length_header_bytes by (metis list.size(3) zero_neq_numeral)

lemma write_all_at_end:
  "j_pos j = length (j_file j) \<Longrightarrow>
    write_all d j = j\<lparr>j_file := j_file j @ d, j_pos := length (j_file j @ d)\<rparr>"
  by (simp add: write_all_def)

section \<open>The codec interface\<close>

locale journal_codec =
  fixes encode :: "'r \<Rightarrow> bytes"
    and decode :: "bytes \<Rightarrow> 'm journal_error + 'r"
    and valid :: "'r \<Rightarrow> bool"
  assumes decode_encode: "valid r \<Longrightarrow> decode (encode r) = Inr r"
    and encode_len: "valid r \<Longrightarrow> length (encode r) < 2 ^ 32"
begin

text \<open>Whatever follows the frames of valid records is reached with the cursor on it.\<close>

lemma replay_from_frames:
  assumes "\<And>r. r \<in> set rs \<Longrightarrow> valid r" and "length pre = pos"
  shows "replay_from crc decode (pre @ frames crc encode rs @ rest) pos =
    map Inr rs @ replay_from crc decode (pre @ frames crc encode rs @ rest)
      (pos + length (frames crc encode rs))"
  using assms
proof (induction rs arbitrary: pre pos)
  case (Cons r rs)
  let ?f = "write_frame crc (encode r)"
  have r: "read_frame crc (pre @ ?f @ (frames crc encode rs @ rest)) pos =
      Some (encode r, pos + 8 + length (encode r))"
    using Cons.prems encode_len [of r] by (intro read_frame_write_frame) auto
  have "replay_from crc decode ((pre @ ?f) @ frames crc encode rs @ rest) (pos + length ?f) =
      map Inr rs @ replay_from crc decode ((pre @ ?f) @ frames crc encode rs @ rest)
        (pos + length ?f + length (frames crc encode rs))"
    using Cons.prems by (intro Cons.IH) auto
  moreover have "decode (encode r) = Inr r"
    using Cons.prems(1) [of r] by (intro decode_encode) simp
  ultimately show ?case
    using r by (subst replay_from.simps) (simp add: frames_Cons add.assoc)
qed simp

lemma replay_whole:
  assumes "\<And>r. r \<in> set rs \<Longrightarrow> valid r" and "j_file j = header_bytes @ frames crc encode rs"
  shows "replay crc decode j = map Inr rs"
  using replay_from_frames [of rs header_bytes 6 crc "[]"] assms
  by (simp add: replay_def JOURNAL_HEADER_LEN_def replay_from.simps [of _ _ _ "6 + _"])

text \<open>A tail on which no frame starts ends the replay without an error.\<close>

lemma replay_stops:
  assumes "\<And>r. r \<in> set rs \<Longrightarrow> valid r"
    and "j_file j = header_bytes @ frames crc encode rs @ tail"
    and "read_frame crc (j_file j) (6 + length (frames crc encode rs)) = None"
  shows "replay crc decode j = map Inr rs"
  using replay_from_frames [of rs header_bytes 6 crc tail] assms
  by (simp add: replay_def JOURNAL_HEADER_LEN_def replay_from.simps [of _ _ _ "6 + _"])

lemma replay_torn:
  assumes "\<And>r. r \<in> set rs \<Longrightarrow> valid r" and "valid r" and "k < length (write_frame crc (encode r))"
    and "j_file j = header_bytes @ frames crc encode rs @ take k (write_frame crc (encode r))"
  shows "replay crc decode j = map Inr rs"
proof (rule replay_stops [OF assms(1) assms(4)])
  show "read_frame crc (j_file j) (6 + length (frames crc encode rs)) = None"
    using read_frame_torn [of "encode r" "header_bytes @ frames crc encode rs" _ k crc]
      encode_len [OF assms(2)] assms(3,4) by simp
qed

end

interpretation bytes_journal: journal_codec bytes_encode bytes_decode "\<lambda>r. length r < 2 ^ 32"
  by unfold_locales (simp_all add: bytes_encode_def bytes_decode_def)

section \<open>Opening, appending and truncating\<close>

text \<open>A handle whose cursor is at the end of a file that holds exactly \<open>rs\<close>.\<close>

definition journal_of :: "(bytes \<Rightarrow> u32) \<Rightarrow> ('r \<Rightarrow> bytes) \<Rightarrow> 'r list \<Rightarrow> journal" where
  "journal_of crc encode rs =
    \<lparr>j_file = header_bytes @ frames crc encode rs,
     j_pos = length (header_bytes @ frames crc encode rs)\<rparr>"

lemma with_codec_fresh: "with_codec None = Inr (journal_of crc encode [])"
  by (simp add: with_codec_def write_header_def write_all_def journal_of_def header_bytes_def Let_def)

lemma with_codec_empty: "with_codec (Some []) = Inr (journal_of crc encode [])"
  by (simp add: with_codec_def write_header_def write_all_def journal_of_def header_bytes_def Let_def)

lemma with_codec_existing:
  "with_codec (Some (header_bytes @ rest)) =
    Inr \<lparr>j_file = header_bytes @ rest, j_pos = length (header_bytes @ rest)\<rparr>"
  by (simp add: with_codec_def Let_def)

lemma with_codec_reopen:
  "with_codec (Some (j_file (journal_of crc encode rs))) = Inr (journal_of crc encode rs)"
  by (simp add: journal_of_def with_codec_existing)

lemma append_rec_journal_of [simp]:
  "append_rec crc encode r (journal_of crc encode rs) = journal_of crc encode (rs @ [r])"
  by (simp add: append_rec_def write_all_def journal_of_def frames_append frames_Cons)

lemma truncate_journal_of [simp]: "truncate_log (journal_of crc encode rs) = journal_of crc encode []"
  by (simp add: truncate_log_def journal_of_def JOURNAL_HEADER_LEN_def)

lemma fold_append_rec:
  "fold (append_rec crc encode) rs (journal_of crc encode ss) = journal_of crc encode (ss @ rs)"
  by (induction rs arbitrary: ss) auto

context journal_codec
begin

lemma replay_journal_of:
  "(\<And>r. r \<in> set rs \<Longrightarrow> valid r) \<Longrightarrow> replay crc decode (journal_of crc encode rs) = map Inr rs"
  by (rule replay_whole) (auto simp: journal_of_def)

text \<open>
  What a crash in the middle of the next append leaves, opened again: the handle,
  and that its replay gives the records appended before.
\<close>

lemma reopen_torn:
  assumes "\<And>r. r \<in> set rs \<Longrightarrow> valid r" and "valid r" and "k < length (write_frame crc (encode r))"
  obtains j where "with_codec (Some (j_file (journal_of crc encode rs) @
      take k (write_frame crc (encode r)))) = (Inr j :: 'm journal_error + journal)"
    and "replay crc decode j = map Inr rs"
    and "j_file j = j_file (journal_of crc encode rs) @ take k (write_frame crc (encode r))"
proof -
  let ?f = "header_bytes @ frames crc encode rs @ take k (write_frame crc (encode r))"
  have "with_codec (Some ?f) = (Inr \<lparr>j_file = ?f, j_pos = length ?f\<rparr> :: 'm journal_error + journal)"
    by (simp add: with_codec_existing)
  moreover have "replay crc decode \<lparr>j_file = ?f, j_pos = length ?f\<rparr> = map Inr rs"
    by (rule replay_torn [OF assms]) auto
  ultimately show thesis using that by (simp add: journal_of_def)
qed

end


section \<open>Properties\<close>

text \<open>A record the codec can store and read back.\<close>

definition codec_ok :: "('r \<Rightarrow> bytes) \<Rightarrow> (bytes \<Rightarrow> 'm journal_error + 'r) \<Rightarrow> 'r \<Rightarrow> bool" where
  "codec_ok encode decode r \<longleftrightarrow> decode (encode r) = Inr r \<and> length (encode r) < 2 ^ 32"

lemma journal_codec_ok: "journal_codec encode decode (codec_ok encode decode)"
  by unfold_locales (auto simp: codec_ok_def)

lemmas replay_journal_of_ok = journal_codec.replay_journal_of [OF journal_codec_ok]
lemmas reopen_torn_ok = journal_codec.reopen_torn [OF journal_codec_ok]
lemmas replay_stops_ok = journal_codec.replay_stops [OF journal_codec_ok]

text \<open>C7. Everything appended to a fresh journal is replayed, in order and without an
  error, by the handle that appended it and by a handle opened on the file later;
  a checkpoint (\<open>truncate\<close>) in between drops exactly the records before it.\<close>

theorem journal_replays_appends:
  fixes decode :: "bytes \<Rightarrow> 'm journal_error + 'r"
  assumes "\<forall>r\<in>set (rs @ ss). codec_ok encode decode r"
  shows "\<exists>j. with_codec None = (Inr j :: 'm journal_error + journal) \<and>
    (let j1 = fold (append_rec crc encode) rs j;
         j2 = fold (append_rec crc encode) ss (truncate_log j1) in
     replay crc decode j1 = map Inr rs \<and> replay crc decode j2 = map Inr ss \<and>
     with_codec (Some (j_file j1)) = (Inr j1 :: 'm journal_error + journal) \<and>
     with_codec (Some (j_file j2)) = (Inr j2 :: 'm journal_error + journal))"
  using assms
  by (auto simp: with_codec_fresh [of crc encode] fold_append_rec Let_def replay_journal_of_ok
      with_codec_reopen)

theorem journal_replays_appends_witness:
  "\<exists>j. with_codec None = (Inr j :: unit journal_error + journal) \<and>
    (let j1 = fold (append_rec (\<lambda>_. 7) bytes_encode) [[1, 2], []] j;
         j2 = fold (append_rec (\<lambda>_. 7) bytes_encode) [[3]] (truncate_log j1) in
     replay (\<lambda>_. 7) (bytes_decode :: _ \<Rightarrow> unit journal_error + _) j1 = map Inr [[1, 2], []] \<and>
     replay (\<lambda>_. 7) (bytes_decode :: _ \<Rightarrow> unit journal_error + _) j2 = map Inr [[3]] \<and>
     with_codec (Some (j_file j1)) = (Inr j1 :: unit journal_error + journal) \<and>
     with_codec (Some (j_file j2)) = (Inr j2 :: unit journal_error + journal))"
  by (rule journal_replays_appends)
    (simp add: codec_ok_def bytes_encode_def bytes_decode_def)

text \<open>C8. A crash during an append leaves the old file followed by the first \<open>k\<close> bytes of
  the new frame. Opening that file succeeds, and the replay yields the records
  appended before, plus the new one exactly when its frame is complete: an append
  is atomic for recovery, for any checksum function.\<close>

theorem journal_append_atomic:
  fixes decode :: "bytes \<Rightarrow> 'm journal_error + 'r"
  assumes "\<forall>r\<in>set (rs @ [r]). codec_ok encode decode r"
    and "k \<le> length (write_frame crc (encode r))"
  shows "\<exists>j. with_codec (Some (j_file (journal_of crc encode rs) @
        take k (write_frame crc (encode r)))) = (Inr j :: 'm journal_error + journal) \<and>
    replay crc decode j =
      map Inr (if k = length (write_frame crc (encode r)) then rs @ [r] else rs)"
proof (cases "k = length (write_frame crc (encode r))")
  case True
  then have "j_file (journal_of crc encode rs) @ take k (write_frame crc (encode r)) =
      j_file (journal_of crc encode (rs @ [r]))"
    by (simp add: journal_of_def frames_append frames_Cons)
  then show ?thesis
    using assms True by (auto simp: with_codec_reopen intro: replay_journal_of_ok
        [of "rs @ [r]" encode decode crc, simplified])
next
  case False
  then have "k < length (write_frame crc (encode r))" using assms(2) by simp
  then obtain j where "with_codec (Some (j_file (journal_of crc encode rs) @
      take k (write_frame crc (encode r)))) = (Inr j :: 'm journal_error + journal)" "replay crc decode j = map Inr rs"
    using assms(1) reopen_torn_ok [of rs encode decode r k crc] by auto
  then show ?thesis using False by auto
qed

theorem journal_append_atomic_witness:
  "\<exists>j. with_codec (Some (j_file (journal_of (\<lambda>_. 7) bytes_encode [[1]]) @
        take 9 (write_frame (\<lambda>_. 7) (bytes_encode [2, 3])))) = (Inr j :: unit journal_error + journal) \<and>
    replay (\<lambda>_. 7) (bytes_decode :: _ \<Rightarrow> unit journal_error + _) j =
      map Inr (if 9 = length (write_frame (\<lambda>_. 7) (bytes_encode [2, 3])) then [[1]] @ [[2, 3]] else [[1]])"
  by (rule journal_append_atomic) (simp_all add: codec_ok_def bytes_encode_def bytes_decode_def)

text \<open>C34. Opening a journal seeks to the end of the file and leaves a torn tail in place. A
  record appended after such an open, although its append returned, is not replayed
  when the torn frame announced more bytes than follow it: the replay still stops at
  the torn frame.\<close>

theorem append_after_torn_tail_is_lost:
  fixes decode :: "bytes \<Rightarrow> 'm journal_error + 'r"
  assumes "\<forall>r\<in>set rs. codec_ok encode decode r" and "length (encode r) < 2 ^ 32"
    and "4 \<le> k" and "k + length (write_frame crc (encode s)) < length (write_frame crc (encode r))"
  shows "\<exists>j. with_codec (Some (j_file (journal_of crc encode rs) @
        take k (write_frame crc (encode r)))) = (Inr j :: 'm journal_error + journal) \<and>
    replay crc decode (append_rec crc encode s j) = map Inr rs"
proof -
  let ?torn = "take k (write_frame crc (encode r))"
  let ?pre = "header_bytes @ frames crc encode rs"
  let ?j = "\<lparr>j_file = ?pre @ ?torn, j_pos = length (?pre @ ?torn)\<rparr>"
  let ?rest = "?torn @ write_frame crc (encode s)"
  have jf: "j_file (append_rec crc encode s ?j) = ?pre @ ?rest"
    by (simp add: append_rec_def write_all_at_end)
  have "take 4 ?rest = to_be 4 (word_of_nat (length (encode r)) :: u32)"
    using assms(3,4) by (simp add: write_frame_def min_def)
  then have "read_frame crc (?pre @ ?rest) (length ?pre) = None"
    using assms(2,4) by (intro read_frame_short_payload) auto
  then have "replay crc decode (append_rec crc encode s ?j) = map Inr rs"
    using assms(1) jf by (intro replay_stops_ok [where tail = ?rest]) auto
  moreover have "with_codec (Some (j_file (journal_of crc encode rs) @ ?torn)) =
      (Inr ?j :: 'm journal_error + journal)"
    using with_codec_existing [of "frames crc encode rs @ ?torn"] by (simp add: journal_of_def)
  ultimately show ?thesis by blast
qed

theorem append_after_torn_tail_is_lost_witness:
  "\<exists>j. with_codec (Some (j_file (journal_of (\<lambda>_. 7) bytes_encode [[1]]) @
        take 9 (write_frame (\<lambda>_. 7) (bytes_encode (replicate 30 5))))) =
      (Inr j :: unit journal_error + journal) \<and>
    replay (\<lambda>_. 7) (bytes_decode :: _ \<Rightarrow> unit journal_error + _) (append_rec (\<lambda>_. 7) bytes_encode [2, 3] j) = map Inr [[1]]"
  by (rule append_after_torn_tail_is_lost) (simp_all add: codec_ok_def bytes_encode_def bytes_decode_def)

end
