(* ===== verification/Lsm_Types.thy ===== *)
theory Lsm_Types
  imports Journal
begin

text \<open>
  The atoms of the LSM tree: internal keys and their order, records, key ranges
  (\<^verbatim>\<open>src/crates/lsm/src/key.rs\<close>), the error types and their funnel
  (\<^verbatim>\<open>error.rs\<close>), the configuration (\<^verbatim>\<open>config.rs\<close>), query bounds, and the
  data-block format (\<^verbatim>\<open>storage/data.rs\<close>), with the order laws, the round trip
  of the entry codec and of whole blocks.

  An error message of the code is the rendering of another error; the model
  keeps that other error (\<open>lsm_msg\<close>) in its place.
\<close>

section \<open>Definitions\<close>

subsection \<open>Keys\<close>

text \<open>\<open>std::cmp::Ordering\<close> with \<open>then_with\<close>, and \<open>cmp\<close> of an ordered type.\<close>

datatype ordering = Less | Equal | Greater

fun then_with :: "ordering \<Rightarrow> ordering \<Rightarrow> ordering" where
  "then_with Equal o2 = o2"
| "then_with o1 o2 = o1"

definition cmp :: "'a::linorder \<Rightarrow> 'a \<Rightarrow> ordering" where
  "cmp x y = (if x < y then Less else if x = y then Equal else Greater)"

datatype op_type = Put | Delete

record internal_key =
  user_key :: bytes
  ik_seq :: u64
  ik_op :: op_type

definition ikey_cmp :: "internal_key \<Rightarrow> internal_key \<Rightarrow> ordering" where
  "ikey_cmp a b = then_with (cmp (user_key a) (user_key b)) (cmp (ik_seq b) (ik_seq a))"

record key_value =
  kv_key :: internal_key
  kv_value :: bytes

type_synonym kv_pair = "bytes \<times> bytes"

record key_range =
  kr_min :: bytes
  kr_max :: bytes

definition kr_contains :: "key_range \<Rightarrow> bytes \<Rightarrow> bool" where
  "kr_contains r key \<longleftrightarrow> kr_min r \<le> key \<and> key \<le> kr_max r"

definition kr_union :: "key_range \<Rightarrow> key_range \<Rightarrow> key_range" where
  "kr_union r s = \<lparr>kr_min = min (kr_min r) (kr_min s), kr_max = max (kr_max r) (kr_max s)\<rparr>"

text \<open>\<open>std::ops::Bound\<close>.\<close>

datatype 'a bound = Included 'a | Excluded 'a | Unbounded

subsection \<open>Errors\<close>

datatype lsm_msg =
    MsgIo
  | MsgBadHeader
  | MsgDecode decode_error
  | MsgUnknownManifestOp u8
  | MsgTruncatedEdit
  | MsgText string
  | MsgPrefixed string lsm_msg

datatype write_error = StoreFull | InvalidArgument lsm_msg | WriteInternal lsm_msg

datatype read_error = ReadInternal lsm_msg

datatype lsm_error = Write write_error | Exhausted lsm_msg | Internal lsm_msg

fun is_exhausted :: "lsm_error \<Rightarrow> bool" where
  "is_exhausted (Exhausted _) = True"
| "is_exhausted (Write StoreFull) = True"
| "is_exhausted _ = False"

fun lsm_of_write :: "write_error \<Rightarrow> lsm_error" where
  "lsm_of_write (WriteInternal msg) = Internal msg"
| "lsm_of_write other = Write other"

fun lsm_of_read :: "read_error \<Rightarrow> lsm_error" where
  "lsm_of_read (ReadInternal msg) = Internal msg"

text \<open>The messages of \<open>Display\<close>.\<close>

fun write_display :: "write_error \<Rightarrow> lsm_msg" where
  "write_display StoreFull = MsgText ''store is full''"
| "write_display (InvalidArgument msg) = MsgPrefixed ''invalid argument: '' msg"
| "write_display (WriteInternal msg) = MsgPrefixed ''internal error: '' msg"

fun lsm_display :: "lsm_error \<Rightarrow> lsm_msg" where
  "lsm_display (Write e) = write_display e"
| "lsm_display (Exhausted msg) = MsgPrefixed ''lsm exhausted: '' msg"
| "lsm_display (Internal msg) = MsgPrefixed ''internal error: '' msg"

fun journal_to_string :: "lsm_msg journal_error \<Rightarrow> lsm_msg" where
  "journal_to_string JournalIo = MsgIo"
| "journal_to_string BadHeader = MsgBadHeader"
| "journal_to_string (JournalDecode m) = m"

definition lsm_of_journal :: "lsm_msg journal_error \<Rightarrow> lsm_error" where
  "lsm_of_journal e = Internal (journal_to_string e)"

subsection \<open>Configuration\<close>

record bloom_config =
  bits_per_key :: u32

record page_config =
  page_size_bytes :: nat
  blocks_per_chunk :: nat

record run_config =
  max_size_bytes :: nat

record table_config =
  max_file_size_bytes :: nat
  tc_bloom :: bloom_config
  tc_page :: page_config

record level_config =
  max_runs :: nat
  lc_run :: run_config
  lc_table :: table_config

datatype size_config = Bytes nat | Pages nat | UnboundedSize

record page_cache_config =
  pc_size :: size_config

record lsm_config =
  lsm_levels :: "level_config list"
  lsm_page_cache :: page_cache_config

definition KIB :: nat where "KIB = 1024"
definition MIB :: nat where "MIB = 1024 * 1024"

definition default_table_config :: table_config where
  "default_table_config =
    \<lparr>max_file_size_bytes = 64 * MIB, tc_bloom = \<lparr>bits_per_key = 10\<rparr>,
     tc_page = \<lparr>page_size_bytes = 4 * KIB, blocks_per_chunk = 256\<rparr>\<rparr>"

definition default_level_config :: level_config where
  "default_level_config =
    \<lparr>max_runs = 1, lc_run = \<lparr>max_size_bytes = 64 * MIB\<rparr>, lc_table = default_table_config\<rparr>"

definition leveled :: "nat \<Rightarrow> lsm_config" where
  "leveled num_levels =
    \<lparr>lsm_levels = map (\<lambda>i. if i = 0 then default_level_config\<lparr>max_runs := 64\<rparr>
        else default_level_config\<lparr>lc_run := \<lparr>max_size_bytes = 64 * MIB * 2 ^ i\<rparr>\<rparr>) [0..<num_levels],
     lsm_page_cache = \<lparr>pc_size = Bytes (64 * MIB)\<rparr>\<rparr>"

definition num_levels :: "lsm_config \<Rightarrow> nat" where
  "num_levels c = length (lsm_levels c)"

subsection \<open>Entries and data blocks\<close>

definition OP_PUT :: u8 where "OP_PUT = 1"
definition OP_DELETE :: u8 where "OP_DELETE = 2"

definition kv_encode :: "key_value \<Rightarrow> bytes" where
  "kv_encode kv =
    put_bytes (user_key (kv_key kv)) @ to_be 8 (ik_seq (kv_key kv)) @
    [case ik_op (kv_key kv) of Put \<Rightarrow> OP_PUT | Delete \<Rightarrow> OP_DELETE] @
    put_bytes (kv_value kv)"

definition kv_decode :: "key_value decoder" where
  "kv_decode bs =
    res_bind (get_bytes bs) (\<lambda>(k, bs1).
    res_bind (get_u64 bs1) (\<lambda>(s, bs2).
    res_bind (get_u8 bs2) (\<lambda>(b, bs3).
    res_bind (if b = OP_PUT then Inr Put else if b = OP_DELETE then Inr Delete
              else Inl (UnknownOpType b)) (\<lambda>p.
    res_bind (get_bytes bs3) (\<lambda>(v, bs4).
      Inr (\<lparr>kv_key = \<lparr>user_key = k, ik_seq = s, ik_op = p\<rparr>, kv_value = v\<rparr>, bs4))))))"

definition entry_size :: "key_value \<Rightarrow> nat" where
  "entry_size kv = 4 + length (user_key (kv_key kv)) + 8 + 1 + 4 + length (kv_value kv)"

definition block_encode :: "key_value list \<Rightarrow> bytes" where
  "block_encode es = concat (map kv_encode es)"

lemma get_bytes_consumes: "get_bytes bs = Inr (v, rest) \<Longrightarrow> length rest < length bs"
  by (auto simp: get_bytes_def get_u32_def codec_take_def split: if_splits)

lemma get_u64_consumes: "get_u64 bs = Inr (v, rest) \<Longrightarrow> length rest < length bs"
  by (auto simp: get_u64_def codec_take_def split: if_splits)

lemma get_u8_consumes: "get_u8 bs = Inr (v, rest) \<Longrightarrow> length rest < length bs"
  by (auto simp: get_u8_def codec_take_def split: if_splits)

lemma kv_decode_consumes: "kv_decode bs = Inr (kv, rest) \<Longrightarrow> length rest < length bs"
  by (auto simp: kv_decode_def dest!: get_bytes_consumes get_u64_consumes get_u8_consumes)

function block_decode :: "bytes \<Rightarrow> decode_error + key_value list" where
  "block_decode bs =
    (if bs = [] then Inr []
     else case kv_decode bs of
       Inl e \<Rightarrow> Inl e
     | Inr (kv, rest) \<Rightarrow> res_bind (block_decode rest) (\<lambda>es. Inr (kv # es)))"
  by pat_completeness auto
termination
  by (relation "measure length") (auto dest: kv_decode_consumes)

declare block_decode.simps [simp del]

section \<open>Order of internal keys\<close>

text \<open>
  \<open>ikey_lt\<close> is \<open>cmp = Less\<close>: user key ascending, then sequence descending; two keys
  compare \<open>Equal\<close> exactly when both agree, whatever their operation.
\<close>

definition ikey_lt :: "internal_key \<Rightarrow> internal_key \<Rightarrow> bool" where
  "ikey_lt a b \<longleftrightarrow> user_key a < user_key b \<or> user_key a = user_key b \<and> ik_seq b < ik_seq a"

definition ikey_eq :: "internal_key \<Rightarrow> internal_key \<Rightarrow> bool" where
  "ikey_eq a b \<longleftrightarrow> user_key a = user_key b \<and> ik_seq a = ik_seq b"

lemma cmp_simps [simp]:
  "cmp x y = Less \<longleftrightarrow> x < y" "cmp x y = Equal \<longleftrightarrow> x = y" "cmp x y = Greater \<longleftrightarrow> y < x"
  by (auto simp: cmp_def)

lemma then_with_eq_iff:
  "then_with p q = Less \<longleftrightarrow> p = Less \<or> p = Equal \<and> q = Less"
  "then_with p q = Equal \<longleftrightarrow> p = Equal \<and> q = Equal"
  "then_with p q = Greater \<longleftrightarrow> p = Greater \<or> p = Equal \<and> q = Greater"
  by (cases p; simp)+

lemma ikey_cmp_simps [simp]:
  "ikey_cmp a b = Less \<longleftrightarrow> ikey_lt a b"
  "ikey_cmp a b = Equal \<longleftrightarrow> ikey_eq a b"
  "ikey_cmp a b = Greater \<longleftrightarrow> ikey_lt b a"
  by (auto simp: ikey_cmp_def then_with_eq_iff ikey_lt_def ikey_eq_def)

lemma ikey_lt_irrefl [simp]: "\<not> ikey_lt a a"
  by (simp add: ikey_lt_def)

lemma ikey_lt_trans: "ikey_lt a b \<Longrightarrow> ikey_lt b c \<Longrightarrow> ikey_lt a c"
  by (auto simp: ikey_lt_def)

lemma ikey_lt_asym: "ikey_lt a b \<Longrightarrow> \<not> ikey_lt b a"
  by (auto simp: ikey_lt_def)

lemma ikey_total: "ikey_lt a b \<or> ikey_eq a b \<or> ikey_lt b a"
  by (auto simp: ikey_lt_def ikey_eq_def)

lemma ikey_cmp_eq:
  "ikey_cmp a b = (if ikey_lt a b then Less else if ikey_eq a b then Equal else Greater)"
  by (auto simp: ikey_cmp_def cmp_def ikey_lt_def ikey_eq_def)

lemma ikey_eq_refl [simp]: "ikey_eq a a"
  by (simp add: ikey_eq_def)

lemma ikey_eq_lt: "ikey_eq a b \<Longrightarrow> ikey_lt b c \<longleftrightarrow> ikey_lt a c"
  by (auto simp: ikey_eq_def ikey_lt_def)

lemma ikey_lt_eq: "ikey_eq a b \<Longrightarrow> ikey_lt c b \<longleftrightarrow> ikey_lt c a"
  by (auto simp: ikey_eq_def ikey_lt_def)

lemma transp_ikey_lt [simp]: "transp ikey_lt"
  by (rule transpI) (rule ikey_lt_trans)

text \<open>Records in the order of their internal keys.\<close>

abbreviation kv_lt :: "key_value \<Rightarrow> key_value \<Rightarrow> bool" where
  "kv_lt x y \<equiv> ikey_lt (kv_key x) (kv_key y)"

abbreviation kv_sorted :: "key_value list \<Rightarrow> bool" where
  "kv_sorted \<equiv> sorted_wrt kv_lt"

lemma kv_sorted_user_keys: "kv_sorted es \<Longrightarrow> sorted (map (\<lambda>kv. user_key (kv_key kv)) es)"
  by (induction es) (auto simp: ikey_lt_def)

subsection \<open>User-key intervals\<close>

fun above_lo :: "'a::linorder bound \<Rightarrow> 'a \<Rightarrow> bool" where
  "above_lo (Included s) k \<longleftrightarrow> s \<le> k"
| "above_lo (Excluded s) k \<longleftrightarrow> s < k"
| "above_lo Unbounded k \<longleftrightarrow> True"

fun below_hi :: "'a::linorder bound \<Rightarrow> 'a \<Rightarrow> bool" where
  "below_hi (Included e) k \<longleftrightarrow> k \<le> e"
| "below_hi (Excluded e) k \<longleftrightarrow> k < e"
| "below_hi Unbounded k \<longleftrightarrow> True"

abbreviation within :: "'a::linorder bound \<Rightarrow> 'a bound \<Rightarrow> 'a \<Rightarrow> bool" where
  "within lo hi k \<equiv> above_lo lo k \<and> below_hi hi k"

lemma above_lo_mono: "above_lo lo k \<Longrightarrow> k \<le> k' \<Longrightarrow> above_lo lo k'"
  by (cases lo) auto

lemma below_hi_mono: "below_hi hi k \<Longrightarrow> k' \<le> k \<Longrightarrow> below_hi hi k'"
  by (cases hi) auto

section \<open>The newest visible version\<close>

text \<open>
  In a list sorted by internal key the first record of a user key at or below_hi a
  snapshot is its newest version there.
\<close>

definition visible :: "bytes \<Rightarrow> u64 \<Rightarrow> key_value list \<Rightarrow> key_value option" where
  "visible k s es = find (\<lambda>kv. user_key (kv_key kv) = k \<and> ik_seq (kv_key kv) \<le> s) es"

text \<open>Records within the bounds and at or below a snapshot.\<close>

definition kv_in :: "bytes bound \<Rightarrow> bytes bound \<Rightarrow> u64 \<Rightarrow> key_value \<Rightarrow> bool" where
  "kv_in lo hi s kv \<longleftrightarrow> within lo hi (user_key (kv_key kv)) \<and> ik_seq (kv_key kv) \<le> s"

text \<open>Apply a record's operation: a put yields its value, a tombstone nothing.\<close>

fun resolve :: "op_type \<Rightarrow> bytes \<Rightarrow> bytes option" where
  "resolve Put v = Some v"
| "resolve Delete v = None"

definition resolve_kv :: "key_value option \<Rightarrow> bytes option" where
  "resolve_kv r = (case r of None \<Rightarrow> None | Some kv \<Rightarrow> resolve (ik_op (kv_key kv)) (kv_value kv))"

lemma find_Some_in: "find P xs = Some x \<Longrightarrow> x \<in> set xs \<and> P x"
  by (induction xs) (auto split: if_splits)

lemma visible_NoneD:
  "visible k s es = None \<Longrightarrow> kv \<in> set es \<Longrightarrow> user_key (kv_key kv) = k \<Longrightarrow> s < ik_seq (kv_key kv)"
  by (auto simp: visible_def find_None_iff not_le [symmetric])

lemma visible_SomeD:
  assumes "visible k s es = Some kv"
  shows "kv \<in> set es" "user_key (kv_key kv) = k" "ik_seq (kv_key kv) \<le> s"
  using find_Some_in [OF assms [unfolded visible_def]] by auto

lemma visible_newest:
  assumes "kv_sorted es" and "visible k s es = Some kv"
    and "kv' \<in> set es" "user_key (kv_key kv') = k" "ik_seq (kv_key kv') \<le> s"
  shows "ik_seq (kv_key kv') \<le> ik_seq (kv_key kv)"
  using assms unfolding visible_def
  by (induction es) (auto simp: ikey_lt_def split: if_splits)

text \<open>The newest version of a key determines \<open>visible\<close>.\<close>

lemma visible_eqI:
  assumes "kv_sorted es" and "kv \<in> set es" and "user_key (kv_key kv) = k" "ik_seq (kv_key kv) \<le> s"
    and "\<And>kv'. kv' \<in> set es \<Longrightarrow> user_key (kv_key kv') = k \<Longrightarrow> ik_seq (kv_key kv') \<le> s \<Longrightarrow>
      ik_seq (kv_key kv') \<le> ik_seq (kv_key kv)"
  shows "visible k s es = Some kv"
  using assms
proof (induction es)
  case (Cons x es)
  show ?case
  proof (cases "x = kv")
    case True
    then show ?thesis using Cons.prems by (simp add: visible_def)
  next
    case False
    then have "kv_lt x kv" using Cons.prems by auto
    then have "(user_key (kv_key x) = k \<and> ik_seq (kv_key x) \<le> s) = False"
      using Cons.prems(3,5) by (force simp: ikey_lt_def)
    moreover have "visible k s es = Some kv"
      using Cons False by auto
    ultimately show ?thesis by (simp add: visible_def del: eq_False)
  qed
qed simp

lemma visible_append:
  "visible k s (xs @ ys) = (case visible k s xs of None \<Rightarrow> visible k s ys | Some kv \<Rightarrow> Some kv)"
  by (induction xs) (auto simp: visible_def)

lemma visible_filter:
  "(\<And>kv. kv \<in> set es \<Longrightarrow> user_key (kv_key kv) = k \<Longrightarrow> ik_seq (kv_key kv) \<le> s \<Longrightarrow> P kv) \<Longrightarrow>
    visible k s (filter P es) = visible k s es"
  by (induction es) (auto simp: visible_def)

section \<open>The entry codec\<close>

text \<open>A record whose lengths fit their 32-bit fields.\<close>

definition kv_ok :: "key_value \<Rightarrow> bool" where
  "kv_ok kv \<longleftrightarrow> length (user_key (kv_key kv)) < 2 ^ 32 \<and> length (kv_value kv) < 2 ^ 32"

lemma length_kv_encode [simp, len_simps]: "length (kv_encode kv) = entry_size kv"
  by (simp add: kv_encode_def entry_size_def)

lemma entry_size_pos [simp]: "0 < entry_size kv"
  by (simp add: entry_size_def)

lemma kv_encode_not_Nil [simp]: "kv_encode kv \<noteq> []"
  by (metis entry_size_pos length_0_conv length_kv_encode less_numeral_extra(3))

lemma kv_decode_encode:
  assumes "kv_ok kv"
  shows "kv_decode (kv_encode kv @ rest) = Inr (kv, rest)"
proof -
  obtain k s p v where kv: "kv = \<lparr>kv_key = \<lparr>user_key = k, ik_seq = s, ik_op = p\<rparr>, kv_value = v\<rparr>"
    by (metis internal_key.surjective key_value.surjective old.unit.exhaust)
  have len: "length k < 4294967296" "length v < 4294967296"
    using assms by (simp_all add: kv_ok_def kv)
  have "kv_decode (kv_encode kv @ rest) =
    kv_decode (put_bytes k @ to_be 8 s @ (case p of Put \<Rightarrow> OP_PUT | Delete \<Rightarrow> OP_DELETE) #
      put_bytes v @ rest)"
    by (simp add: kv kv_encode_def)
  also have "\<dots> = Inr (kv, rest)"
    using len by (cases p) (simp_all add: kv_decode_def kv OP_PUT_def OP_DELETE_def)
  finally show ?thesis .
qed

interpretation kv_codec: decoder_law kv_encode kv_decode kv_ok
  by unfold_locales (rule kv_decode_encode)

lemma block_encode_simps [simp]:
  "block_encode [] = []" "block_encode (kv # es) = kv_encode kv @ block_encode es"
  by (simp_all add: block_encode_def)

lemma block_encode_append [simp]: "block_encode (xs @ ys) = block_encode xs @ block_encode ys"
  by (simp add: block_encode_def)

lemma length_block_encode: "length (block_encode es) = sum_list (map entry_size es)"
  by (induction es) auto

lemma block_decode_encode:
  "(\<And>kv. kv \<in> set es \<Longrightarrow> kv_ok kv) \<Longrightarrow> block_decode (block_encode es) = Inr es"
proof (induction es)
  case (Cons kv es)
  then show ?case
    by (subst block_decode.simps) (simp add: kv_decode_encode)
qed (simp add: block_decode.simps)

end
