(* ===== verification/Memtable.thy ===== *)
theory Memtable
  imports Lsm_Types
begin

text \<open>
  The memtable (\<^verbatim>\<open>src/crates/lsm/src/memstore/btree.rs\<close>), the journaled memtable
  around it (\<^verbatim>\<open>memstore/journal.rs\<close>) and the trait both implement (\<^verbatim>\<open>store.rs\<close>), as
  the interface \<open>mem_store\<close>. A \<open>BTreeMap\<close> is a list sorted by the order of its
  keys; \<open>insert\<close> keeps the key that is there when the keys compare equal, as the
  standard library does. \<open>BTreeMap::range\<close> panics on an inverted range, which is
  \<open>None\<close> here.
\<close>

section \<open>Definitions\<close>

subsection \<open>The memtable\<close>

type_synonym btree = "(internal_key \<times> bytes) list"

record memtable =
  mt_store :: btree
  mt_capacity :: nat
  mt_size :: nat

definition DEFAULT_CAPACITY :: nat where
  "DEFAULT_CAPACITY = 4 * 1024 * 1024"

definition with_capacity :: "nat \<Rightarrow> memtable" where
  "with_capacity capacity = \<lparr>mt_store = [], mt_capacity = capacity, mt_size = 0\<rparr>"

fun btree_insert :: "internal_key \<Rightarrow> bytes \<Rightarrow> btree \<Rightarrow> btree" where
  "btree_insert k v [] = [(k, v)]"
| "btree_insert k v ((k', v') # rest) =
    (case ikey_cmp k k' of
       Less \<Rightarrow> (k, v) # (k', v') # rest
     | Equal \<Rightarrow> (k', v) # rest
     | Greater \<Rightarrow> (k', v') # btree_insert k v rest)"

definition mem_put :: "internal_key \<Rightarrow> bytes \<Rightarrow> memtable \<Rightarrow> (write_error + unit) \<times> memtable" where
  "mem_put key value m =
    (let added = length (user_key key) + length value in
     if mt_store m \<noteq> [] \<and> mt_size m + added > mt_capacity m then (Inl StoreFull, m)
     else (Inr (), m\<lparr>mt_size := mt_size m + added,
                     mt_store := btree_insert key value (mt_store m)\<rparr>))"

definition mem_size :: "memtable \<Rightarrow> nat" where
  "mem_size m = mt_size m"

definition mem_clear :: "memtable \<Rightarrow> (write_error + unit) \<times> memtable" where
  "mem_clear m = (Inr (), m\<lparr>mt_store := [], mt_size := 0\<rparr>)"

definition mem_get_at :: "bytes \<Rightarrow> u64 \<Rightarrow> memtable \<Rightarrow> read_error + bytes option" where
  "mem_get_at key max_seq m =
    (let probe = \<lparr>user_key = key, ik_seq = max_seq, ik_op = Put\<rparr> in
     case find (\<lambda>(ik, _). \<not> ikey_lt ik probe) (mt_store m) of
       Some (ik, value) \<Rightarrow>
         if user_key ik = key then Inr (case ik_op ik of Put \<Rightarrow> Some value | Delete \<Rightarrow> None)
         else Inr None
     | None \<Rightarrow> Inr None)"

fun start_key :: "bytes bound \<Rightarrow> internal_key bound" where
  "start_key (Included k) = Included \<lparr>user_key = k, ik_seq = - 1, ik_op = Put\<rparr>"
| "start_key (Excluded k) = Excluded \<lparr>user_key = k, ik_seq = 0, ik_op = Put\<rparr>"
| "start_key Unbounded = Unbounded"

fun end_key :: "bytes bound \<Rightarrow> internal_key bound" where
  "end_key (Included k) = Included \<lparr>user_key = k, ik_seq = 0, ik_op = Put\<rparr>"
| "end_key (Excluded k) = Excluded \<lparr>user_key = k, ik_seq = - 1, ik_op = Put\<rparr>"
| "end_key Unbounded = Unbounded"

text \<open>\<open>BTreeMap::range\<close>: membership in the bounds, and the ranges on which it panics.\<close>

fun ik_above :: "internal_key bound \<Rightarrow> internal_key \<Rightarrow> bool" where
  "ik_above (Included s) k \<longleftrightarrow> \<not> ikey_lt k s"
| "ik_above (Excluded s) k \<longleftrightarrow> ikey_lt s k"
| "ik_above Unbounded k \<longleftrightarrow> True"

fun ik_below :: "internal_key bound \<Rightarrow> internal_key \<Rightarrow> bool" where
  "ik_below (Included e) k \<longleftrightarrow> \<not> ikey_lt e k"
| "ik_below (Excluded e) k \<longleftrightarrow> ikey_lt k e"
| "ik_below Unbounded k \<longleftrightarrow> True"

fun range_panics :: "internal_key bound \<Rightarrow> internal_key bound \<Rightarrow> bool" where
  "range_panics (Included s) (Included e) \<longleftrightarrow> ikey_lt e s"
| "range_panics (Included s) (Excluded e) \<longleftrightarrow> ikey_lt e s"
| "range_panics (Excluded s) (Included e) \<longleftrightarrow> ikey_lt e s"
| "range_panics (Excluded s) (Excluded e) \<longleftrightarrow> \<not> ikey_lt s e"
| "range_panics _ _ \<longleftrightarrow> False"

definition btree_range :: "internal_key bound \<Rightarrow> internal_key bound \<Rightarrow> btree \<Rightarrow> btree option" where
  "btree_range lo hi t =
    (if range_panics lo hi then None
     else Some (filter (\<lambda>(ik, _). ik_above lo ik \<and> ik_below hi ik) t))"

definition mem_scan_at ::
  "bytes bound \<Rightarrow> bytes bound \<Rightarrow> u64 \<Rightarrow> memtable \<Rightarrow> (internal_key \<times> bytes) list option" where
  "mem_scan_at lo hi max_seq m =
    map_option (filter (\<lambda>(ik, _). ik_seq ik \<le> max_seq))
      (btree_range (start_key lo) (end_key hi) (mt_store m))"

subsection \<open>The journaled memtable\<close>

record journaled =
  jm_inner :: memtable
  jm_journal :: journal

definition kvj_encode :: "key_value \<Rightarrow> bytes" where
  "kvj_encode record = kv_encode record"

definition kvj_decode :: "bytes \<Rightarrow> lsm_msg journal_error + key_value" where
  "kvj_decode bs = map_err (\<lambda>e. JournalDecode (MsgDecode e))
     (res_bind (kv_decode bs) (\<lambda>(kv, _). Inr kv))"

definition into_write :: "lsm_msg journal_error \<Rightarrow> write_error" where
  "into_write e = WriteInternal (journal_to_string e)"

fun replay_puts :: "(lsm_msg journal_error + key_value) list \<Rightarrow> memtable \<Rightarrow> write_error + memtable" where
  "replay_puts [] inner = Inr inner"
| "replay_puts (Inl e # rs) inner = Inl (into_write e)"
| "replay_puts (Inr kv # rs) inner =
    (case mem_put (kv_key kv) (kv_value kv) inner of
       (Inl e, _) \<Rightarrow> Inl e
     | (Inr _, inner') \<Rightarrow> replay_puts rs inner')"

definition journaled_open ::
  "(bytes \<Rightarrow> u32) \<Rightarrow> bytes option \<Rightarrow> memtable \<Rightarrow> write_error + journaled" where
  "journaled_open crc path inner =
    res_bind (map_err into_write (with_codec path)) (\<lambda>j.
    res_bind (replay_puts (replay crc kvj_decode j) inner) (\<lambda>inner'.
    Inr \<lparr>jm_inner = inner', jm_journal = j\<rparr>))"

definition jm_get_at :: "bytes \<Rightarrow> u64 \<Rightarrow> journaled \<Rightarrow> read_error + bytes option" where
  "jm_get_at key max_seq m = mem_get_at key max_seq (jm_inner m)"

definition jm_scan_at ::
  "bytes bound \<Rightarrow> bytes bound \<Rightarrow> u64 \<Rightarrow> journaled \<Rightarrow> (internal_key \<times> bytes) list option" where
  "jm_scan_at lo hi max_seq m = mem_scan_at lo hi max_seq (jm_inner m)"

definition jm_put ::
  "(bytes \<Rightarrow> u32) \<Rightarrow> internal_key \<Rightarrow> bytes \<Rightarrow> journaled \<Rightarrow> (write_error + unit) \<times> journaled" where
  "jm_put crc key value m =
    (let m1 = m\<lparr>jm_journal :=
           append_rec crc kvj_encode \<lparr>kv_key = key, kv_value = value\<rparr> (jm_journal m)\<rparr>;
         (r, inner) = mem_put key value (jm_inner m1) in
     (r, m1\<lparr>jm_inner := inner\<rparr>))"

definition jm_size :: "journaled \<Rightarrow> nat" where
  "jm_size m = mem_size (jm_inner m)"

definition jm_clear :: "journaled \<Rightarrow> (write_error + unit) \<times> journaled" where
  "jm_clear m =
    (let (r, inner) = mem_clear (jm_inner m) in
     (r, m\<lparr>jm_journal := truncate_log (jm_journal m), jm_inner := inner\<rparr>))"

section \<open>The sorted map\<close>

abbreviation btree_sorted :: "btree \<Rightarrow> bool" where
  "btree_sorted t \<equiv> sorted_wrt ikey_lt (map fst t)"

text \<open>The records of a map.\<close>

definition kvs :: "btree \<Rightarrow> key_value list" where
  "kvs t = map (\<lambda>(k, v). \<lparr>kv_key = k, kv_value = v\<rparr>) t"

lemma kvs_simps [simp]:
  "kvs [] = []" "kvs ((k, v) # t) = \<lparr>kv_key = k, kv_value = v\<rparr> # kvs t"
  by (simp_all add: kvs_def)

lemma kvs_Nil_iff [simp]: "kvs t = [] \<longleftrightarrow> t = []"
  by (simp add: kvs_def)

lemma kv_sorted_kvs: "kv_sorted (kvs t) \<longleftrightarrow> btree_sorted t"
  by (simp add: kvs_def sorted_wrt_map case_prod_beta)

lemma btree_insert_Cons [simp]:
  "btree_insert k v ((k', v') # t) =
    (if ikey_lt k k' then (k, v) # (k', v') # t
     else if ikey_eq k k' then (k', v) # t else (k', v') # btree_insert k v t)"
  by (simp add: ikey_cmp_eq)

declare btree_insert.simps(2) [simp del]

lemma btree_insert_keys: "fst ` set (btree_insert k v t) \<subseteq> insert k (fst ` set t)"
proof (induction t)
  case (Cons a t)
  then show ?case by (cases a) (simp, blast)
qed simp

lemma btree_insert_keysD: "x \<in> set (btree_insert k v t) \<Longrightarrow> fst x = k \<or> fst x \<in> fst ` set t"
  using btree_insert_keys [of k v t] by blast

lemma btree_insert_sorted: "btree_sorted t \<Longrightarrow> btree_sorted (btree_insert k v t)"
proof (induction t)
  case (Cons a t)
  obtain k' v' where a: "a = (k', v')" by (cases a)
  have "ikey_lt k' (fst x)" if "\<not> ikey_lt k k'" "\<not> ikey_eq k k'" "x \<in> set (btree_insert k v t)" for x
    using that Cons.prems ikey_total [of k k'] btree_insert_keysD [of x k v t]
    by (auto simp: a)
  moreover have "ikey_lt k (fst x)" if "ikey_lt k k'" "x \<in> set t" for x
    using that Cons.prems ikey_lt_trans [of k k' "fst x"] by (simp add: a)
  ultimately show ?case
    using Cons by (simp add: a)
qed simp

text \<open>A key with a fresh sequence number is inserted as it is and disturbs no other record.\<close>

lemma set_btree_insert_fresh:
  "(\<And>k'. k' \<in> fst ` set t \<Longrightarrow> \<not> ikey_eq k k') \<Longrightarrow>
    set (btree_insert k v t) = insert (k, v) (set t)"
  by (induction t) (auto split: if_splits)

text \<open>\<open>get_at\<close>: the first entry not below the probe is the newest visible version, if it
  is of the key at all.\<close>

lemma find_probe:
  assumes "btree_sorted t"
  shows "(case find (\<lambda>(ik, _). \<not> ikey_lt ik \<lparr>user_key = key, ik_seq = s, ik_op = Put\<rparr>) t of
      Some (ik, v) \<Rightarrow> if user_key ik = key then Some \<lparr>kv_key = ik, kv_value = v\<rparr> else None
    | None \<Rightarrow> None) = visible key s (kvs t)"
  using assms
proof (induction t)
  case (Cons a t)
  obtain ik v where a: "a = (ik, v)" by (cases a)
  show ?case
  proof (cases "ikey_lt ik \<lparr>user_key = key, ik_seq = s, ik_op = Put\<rparr>")
    case True
    then have "\<not> (user_key ik = key \<and> ik_seq ik \<le> s)" by (auto simp: ikey_lt_def)
    then show ?thesis using Cons True by (auto simp: a visible_def)
  next
    case False
    show ?thesis
    proof (cases "user_key ik = key")
      case True
      then have "ik_seq ik \<le> s" using False by (simp add: ikey_lt_def not_less)
      then show ?thesis using False True by (simp add: a visible_def)
    next
      case ne: False
      then have "key < user_key ik" using False by (auto simp: ikey_lt_def)
      then have "\<forall>kv\<in>set (kvs t). user_key (kv_key kv) \<noteq> key"
        using Cons.prems by (auto simp: a kvs_def ikey_lt_def)
      then have "visible key s (kvs t) = None"
        by (auto simp: visible_def find_None_iff)
      then show ?thesis using False ne by (simp add: a visible_def)
    qed
  qed
qed (simp add: visible_def)

lemma mem_get_at_visible:
  assumes "btree_sorted (mt_store m)"
  shows "mem_get_at key s m = Inr (resolve_kv (visible key s (kvs (mt_store m))))"
  unfolding find_probe [OF assms, symmetric] mem_get_at_def resolve_kv_def Let_def
  by (auto split: option.splits op_type.splits)

text \<open>Bounds on user keys, widened to internal keys, select by user key alone.\<close>

lemma word_neg1_max [simp]: "\<not> (- 1 :: u64) < s" "(s :: u64) \<le> - 1"
  by simp_all

lemma ik_above_start [simp]: "ik_above (start_key lo) k \<longleftrightarrow> above_lo lo (user_key k)"
  by (cases lo) (auto simp: ikey_lt_def not_less order.order_iff_strict)

lemma ik_below_end [simp]: "ik_below (end_key hi) k \<longleftrightarrow> below_hi hi (user_key k)"
  by (cases hi) (auto simp: ikey_lt_def not_less order.order_iff_strict)

text \<open>The user-key ranges a scan panics on.\<close>

fun inverted :: "'a::linorder bound \<Rightarrow> 'a bound \<Rightarrow> bool" where
  "inverted (Included s) (Included e) \<longleftrightarrow> e < s"
| "inverted (Included s) (Excluded e) \<longleftrightarrow> e < s"
| "inverted (Excluded s) (Included e) \<longleftrightarrow> e < s"
| "inverted (Excluded s) (Excluded e) \<longleftrightarrow> e \<le> s"
| "inverted _ _ \<longleftrightarrow> False"

lemma range_panics_iff: "range_panics (start_key lo) (end_key hi) \<longleftrightarrow> inverted lo hi"
  by (cases lo; cases hi) (auto simp: ikey_lt_def not_less order.order_iff_strict)

lemma inverted_within: "inverted lo hi \<Longrightarrow> \<not> within lo hi k"
  by (cases lo; cases hi) auto

lemma mem_scan_at_eq:
  "map_option kvs (mem_scan_at lo hi s m) =
    (if inverted lo hi then None else Some (filter (kv_in lo hi s) (kvs (mt_store m))))"
proof -
  have "kvs (filter (\<lambda>(ik, _). ik_seq ik \<le> s)
          (filter (\<lambda>(ik, _). within lo hi (user_key ik)) t)) = filter (kv_in lo hi s) (kvs t)" for t
  proof (induction t)
    case (Cons a t)
    then show ?case by (cases a) (simp add: kv_in_def)
  qed simp
  then show ?thesis
    by (simp add: mem_scan_at_def btree_range_def range_panics_iff)
qed


section \<open>The store interface\<close>

text \<open>
  The contract of \<open>ReadStore + WriteStore + MemStore\<close>: \<open>store\<close> is the sorted map
  behind the implementation and \<open>adm\<close> the records it can take.
\<close>

locale mem_store =
  fixes put :: "internal_key \<Rightarrow> bytes \<Rightarrow> 'm \<Rightarrow> (write_error + unit) \<times> 'm"
    and get_at :: "bytes \<Rightarrow> u64 \<Rightarrow> 'm \<Rightarrow> read_error + bytes option"
    and scan_at :: "bytes bound \<Rightarrow> bytes bound \<Rightarrow> u64 \<Rightarrow> 'm \<Rightarrow> (internal_key \<times> bytes) list option"
    and clear :: "'m \<Rightarrow> (write_error + unit) \<times> 'm"
    and store :: "'m \<Rightarrow> btree"
    and inv :: "'m \<Rightarrow> bool"
    and adm :: "internal_key \<Rightarrow> bytes \<Rightarrow> bool"
  assumes sorted: "inv m \<Longrightarrow> btree_sorted (store m)"
    and put_ok: "inv m \<Longrightarrow> adm k v \<Longrightarrow> put k v m = (Inr u, m') \<Longrightarrow>
      inv m' \<and> store m' = btree_insert k v (store m)"
    and put_err: "inv m \<Longrightarrow> adm k v \<Longrightarrow> put k v m = (Inl e, m') \<Longrightarrow>
      inv m' \<and> store m' = store m \<and> e = StoreFull"
    and get_at: "inv m \<Longrightarrow> get_at key s m = Inr (resolve_kv (visible key s (kvs (store m))))"
    and scan_at: "inv m \<Longrightarrow> map_option kvs (scan_at lo hi s m) =
      (if inverted lo hi then None else Some (filter (kv_in lo hi s) (kvs (store m))))"
    and clear: "inv m \<Longrightarrow> clear m = (r, m') \<Longrightarrow> r = Inr () \<and> inv m' \<and> store m' = []"
begin

lemma entries_sorted: "inv m \<Longrightarrow> kv_sorted (kvs (store m))"
  by (simp add: kv_sorted_kvs sorted)

lemma put_fresh:
  assumes "inv m" "adm k v" "put k v m = (Inr u, m')"
    and "\<And>kv. kv \<in> set (kvs (store m)) \<Longrightarrow> ik_seq (kv_key kv) < ik_seq k"
  shows "set (kvs (store m')) = insert \<lparr>kv_key = k, kv_value = v\<rparr> (set (kvs (store m)))"
proof -
  have "set (btree_insert k v (store m)) = insert (k, v) (set (store m))"
    using assms(4) by (intro set_btree_insert_fresh) (fastforce simp: kvs_def ikey_eq_def)
  then show ?thesis using put_ok [OF assms(1-3)] by (simp add: kvs_def)
qed

lemma scan_everything: "inv m \<Longrightarrow> map_option kvs (scan_at Unbounded Unbounded (- 1) m) = Some (kvs (store m))"
  by (simp add: scan_at kv_in_def)

text \<open>A scan of one key starts with its newest visible version.\<close>

lemma scan_point:
  assumes "inv m"
  shows "\<exists>es. scan_at (Included k) (Included k) s m = Some es \<and>
    (case es of [] \<Rightarrow> None | (ik, v) # _ \<Rightarrow> Some \<lparr>kv_key = ik, kv_value = v\<rparr>) =
      visible k s (kvs (store m))"
proof -
  obtain es where es: "scan_at (Included k) (Included k) s m = Some es"
      "kvs es = filter (kv_in (Included k) (Included k) s) (kvs (store m))"
    using scan_at [OF assms, of "Included k" "Included k" s]
    by (cases "scan_at (Included k) (Included k) s m") auto
  have "visible k s xs = (case filter (kv_in (Included k) (Included k) s) xs of
      [] \<Rightarrow> None | kv # _ \<Rightarrow> Some kv)" for xs
    by (induction xs) (auto simp: visible_def kv_in_def)
  then show ?thesis
    using es by (auto simp flip: es(2) split: list.splits)
qed

end

interpretation bt: mem_store mem_put mem_get_at mem_scan_at mem_clear mt_store
  "\<lambda>m. btree_sorted (mt_store m)" "\<lambda>_ _. True"
proof (unfold_locales, goal_cases)
  case (2 m k v u m')
  then show ?case
    by (auto simp: mem_put_def Let_def btree_insert_sorted split: if_splits)
next
  case (3 m k v e m')
  then show ?case by (auto simp: mem_put_def Let_def split: if_splits)
next
  case (4 m key s)
  then show ?case by (rule mem_get_at_visible)
next
  case (5 m lo hi s)
  then show ?case by (simp add: mem_scan_at_eq)
next
  case (6 m r m')
  then show ?case by (auto simp: mem_clear_def)
qed auto

section \<open>The journaled memtable\<close>

text \<open>A record the journal can frame.\<close>

definition kvj_ok :: "key_value \<Rightarrow> bool" where
  "kvj_ok kv \<longleftrightarrow> kv_ok kv \<and> entry_size kv < 2 ^ 32"

interpretation kvj: journal_codec kvj_encode kvj_decode kvj_ok
proof
  fix kv assume "kvj_ok kv"
  then show "kvj_decode (kvj_encode kv) = Inr kv"
    using kv_decode_encode [of kv "[]"] by (simp add: kvj_ok_def kvj_decode_def kvj_encode_def)
qed (simp add: kvj_ok_def kvj_encode_def)

definition jm_inv :: "(bytes \<Rightarrow> u32) \<Rightarrow> journaled \<Rightarrow> bool" where
  "jm_inv crc m \<longleftrightarrow> btree_sorted (mt_store (jm_inner m)) \<and>
    (\<exists>rs. (\<forall>r\<in>set rs. kvj_ok r) \<and> jm_journal m = journal_of crc kvj_encode rs)"

abbreviation jm_store :: "journaled \<Rightarrow> btree" where
  "jm_store m \<equiv> mt_store (jm_inner m)"

lemma jm_put_journal:
  "jm_put crc k v m = (r, m') \<Longrightarrow>
    jm_journal m' = append_rec crc kvj_encode \<lparr>kv_key = k, kv_value = v\<rparr> (jm_journal m) \<and>
    mem_put k v (jm_inner m) = (r, jm_inner m')"
  by (auto simp: jm_put_def Let_def split: prod.splits)

lemma mem_put_sorted:
  "btree_sorted (mt_store m) \<Longrightarrow> mem_put k v m = (r, m') \<Longrightarrow> btree_sorted (mt_store m')"
  by (auto simp: mem_put_def Let_def btree_insert_sorted split: if_splits)

lemma jm_put_inv:
  assumes "jm_inv crc m" "kvj_ok \<lparr>kv_key = k, kv_value = v\<rparr>" "jm_put crc k v m = (r, m')"
  shows "jm_inv crc m'"
proof -
  obtain rs where "\<forall>r\<in>set rs. kvj_ok r" "jm_journal m = journal_of crc kvj_encode rs"
    using assms(1) by (auto simp: jm_inv_def)
  then have "\<forall>r\<in>set (rs @ [\<lparr>kv_key = k, kv_value = v\<rparr>]). kvj_ok r"
      "jm_journal m' = journal_of crc kvj_encode (rs @ [\<lparr>kv_key = k, kv_value = v\<rparr>])"
    using jm_put_journal [OF assms(3)] assms(2) by simp_all
  moreover have "btree_sorted (jm_store m')"
    using jm_put_journal [OF assms(3)] assms(1) mem_put_sorted [of "jm_inner m" k v r "jm_inner m'"]
    by (simp add: jm_inv_def)
  ultimately show ?thesis unfolding jm_inv_def by blast
qed

interpretation jm: mem_store "jm_put crc" jm_get_at jm_scan_at jm_clear jm_store "jm_inv crc"
  "\<lambda>k v. kvj_ok \<lparr>kv_key = k, kv_value = v\<rparr>" for crc
proof (unfold_locales, goal_cases)
  case (2 m k v u m')
  then show ?case
    using jm_put_inv [of crc m k v "Inr u" m'] jm_put_journal [of crc k v m "Inr u" m']
      bt.put_ok [of "jm_inner m" k v u "jm_inner m'"] jm_inv_def [of crc m]
    by simp
next
  case (3 m k v e m')
  then show ?case
    using jm_put_inv [of crc m k v "Inl e" m'] jm_put_journal [of crc k v m "Inl e" m']
      bt.put_err [of "jm_inner m" k v e "jm_inner m'"] jm_inv_def [of crc m]
    by simp
next
  case (4 m key s)
  then show ?case by (simp add: jm_get_at_def jm_inv_def mem_get_at_visible)
next
  case (5 m lo hi s)
  then show ?case by (simp add: jm_scan_at_def mem_scan_at_eq)
next
  case (6 m r m')
  then show ?case
    by (auto simp: jm_clear_def mem_clear_def jm_inv_def intro: exI [of _ "[]"])
qed (simp add: jm_inv_def)

text \<open>
  \<open>jm_durable\<close>: replaying the journal into an empty memtable of the same capacity
  gives the memtable.
\<close>

definition jm_durable :: "(bytes \<Rightarrow> u32) \<Rightarrow> journaled \<Rightarrow> bool" where
  "jm_durable crc m \<longleftrightarrow> (\<exists>rs. (\<forall>r\<in>set rs. kvj_ok r) \<and> jm_journal m = journal_of crc kvj_encode rs \<and>
    replay_puts (map Inr rs) (with_capacity (mt_capacity (jm_inner m))) = Inr (jm_inner m))"

lemma replay_puts_append:
  "replay_puts (rs @ ss) m = res_bind (replay_puts rs m) (replay_puts ss)"
  by (induction rs m rule: replay_puts.induct) (auto split: prod.splits sum.splits)

lemma mem_put_capacity: "mem_put k v m = (r, m') \<Longrightarrow> mt_capacity m' = mt_capacity m"
  by (auto simp: mem_put_def Let_def split: if_splits)

lemma replay_puts_sorted:
  "replay_puts rs m = Inr m' \<Longrightarrow> btree_sorted (mt_store m) \<Longrightarrow>
    btree_sorted (mt_store m') \<and> mt_capacity m' = mt_capacity m"
proof (induction rs m rule: replay_puts.induct)
  case (3 kv rs m)
  then obtain u m1 where p: "mem_put (kv_key kv) (kv_value kv) m = (Inr u, m1)"
      and r: "replay_puts rs m1 = Inr m'"
    by (auto split: prod.splits sum.splits)
  then show ?case
    using 3 bt.put_ok [OF 3(3) TrueI p] mem_put_capacity [OF p] by auto
qed auto

lemma jm_durable_inv: "jm_durable crc m \<Longrightarrow> jm_inv crc m"
  by (auto simp: jm_durable_def jm_inv_def with_capacity_def dest: replay_puts_sorted)

lemma jm_put_durable:
  assumes "jm_durable crc m" "kvj_ok \<lparr>kv_key = k, kv_value = v\<rparr>" "jm_put crc k v m = (Inr u, m')"
  shows "jm_durable crc m'"
proof -
  let ?kv = "\<lparr>kv_key = k, kv_value = v\<rparr>"
  obtain rs where rs: "\<forall>r\<in>set rs. kvj_ok r" "jm_journal m = journal_of crc kvj_encode rs"
      "replay_puts (map Inr rs) (with_capacity (mt_capacity (jm_inner m))) = Inr (jm_inner m)"
    using assms(1) by (auto simp: jm_durable_def)
  have p: "mem_put k v (jm_inner m) = (Inr u, jm_inner m')"
      "jm_journal m' = journal_of crc kvj_encode (rs @ [?kv])"
    using jm_put_journal [OF assms(3)] rs(2) by auto
  have "replay_puts (map Inr (rs @ [?kv])) (with_capacity (mt_capacity (jm_inner m'))) = Inr (jm_inner m')"
    using rs(3) p(1) mem_put_capacity [OF p(1)] by (simp add: replay_puts_append)
  moreover have "\<forall>r\<in>set (rs @ [?kv]). kvj_ok r" using rs(1) assms(2) by auto
  ultimately show ?thesis using p(2) unfolding jm_durable_def by blast
qed

lemma jm_clear_durable: "jm_inv crc m \<Longrightarrow> jm_clear m = (r, m') \<Longrightarrow> jm_durable crc m'"
  by (auto simp: jm_inv_def jm_clear_def mem_clear_def jm_durable_def with_capacity_def
      intro!: exI [of _ "[]"])

lemma jm_open_fresh:
  "journaled_open crc None (with_capacity c) =
    Inr \<lparr>jm_inner = with_capacity c, jm_journal = journal_of crc kvj_encode []\<rparr>"
  by (simp add: journaled_open_def with_codec_fresh [of crc kvj_encode]
      kvj.replay_journal_of [of "[]", simplified])

lemma jm_fresh_durable:
  "jm_durable crc \<lparr>jm_inner = with_capacity c, jm_journal = journal_of crc kvj_encode []\<rparr>"
  by (auto simp: jm_durable_def with_capacity_def intro!: exI [of _ "[]"])

text \<open>Reopening on the same file recovers the memtable and the journal.\<close>

lemma jm_reopen:
  assumes "jm_durable crc m"
  shows "journaled_open crc (Some (j_file (jm_journal m))) (with_capacity (mt_capacity (jm_inner m))) = Inr m"
proof -
  obtain rs where rs: "\<forall>r\<in>set rs. kvj_ok r" "jm_journal m = journal_of crc kvj_encode rs"
      "replay_puts (map Inr rs) (with_capacity (mt_capacity (jm_inner m))) = Inr (jm_inner m)"
    using assms by (auto simp: jm_durable_def)
  have "replay crc kvj_decode (jm_journal m) = map Inr rs"
    using rs(1,2) by (simp add: kvj.replay_journal_of)
  moreover have "with_codec (Some (j_file (jm_journal m))) =
      (Inr (jm_journal m) :: lsm_msg journal_error + journal)"
    by (simp add: rs(2) with_codec_reopen)
  ultimately show ?thesis using rs(3) by (simp add: journaled_open_def)
qed


text \<open>The states of a journaled memtable under accepted writes and clears.\<close>

inductive jm_reach :: "(bytes \<Rightarrow> u32) \<Rightarrow> nat \<Rightarrow> journaled \<Rightarrow> bool" for crc c where
  fresh: "journaled_open crc None (with_capacity c) = Inr m \<Longrightarrow> jm_reach crc c m"
| put: "jm_reach crc c m \<Longrightarrow> kvj_ok \<lparr>kv_key = k, kv_value = v\<rparr> \<Longrightarrow>
    jm_put crc k v m = (Inr u, m') \<Longrightarrow> jm_reach crc c m'"
| clear: "jm_reach crc c m \<Longrightarrow> jm_clear m = (r, m') \<Longrightarrow> jm_reach crc c m'"

lemma jm_reach_durable: "jm_reach crc c m \<Longrightarrow> jm_durable crc m \<and> mt_capacity (jm_inner m) = c"
proof (induction rule: jm_reach.induct)
  case (fresh m)
  then have "m = \<lparr>jm_inner = with_capacity c, jm_journal = journal_of crc kvj_encode []\<rparr>"
    using jm_open_fresh [of crc c] by simp
  then show ?case using jm_fresh_durable [of crc c] by (simp add: with_capacity_def)
next
  case (put m k v u m')
  then show ?case
    using jm_put_durable [of crc m k v u m'] jm_put_journal [OF put(3)] mem_put_capacity by auto
next
  case (clear m r m')
  then show ?case
    using jm_clear_durable [of crc m r m'] jm_durable_inv [of crc m]
    by (auto simp: jm_clear_def mem_clear_def)
qed

text \<open>A crash inside the journal append of a write: the next open drops the torn frame.\<close>

lemma jm_reopen_torn:
  assumes "jm_durable crc m" and "kvj_ok kv" and "n < length (write_frame crc (kvj_encode kv))"
  shows "\<exists>m'. journaled_open crc (Some (j_file (jm_journal m) @ take n (write_frame crc (kvj_encode kv))))
      (with_capacity (mt_capacity (jm_inner m))) = Inr m' \<and> jm_inner m' = jm_inner m"
proof -
  obtain rs where rs: "\<forall>r\<in>set rs. kvj_ok r" "jm_journal m = journal_of crc kvj_encode rs"
      "replay_puts (map Inr rs) (with_capacity (mt_capacity (jm_inner m))) = Inr (jm_inner m)"
    using assms(1) by (auto simp: jm_durable_def)
  obtain j where "with_codec (Some (j_file (jm_journal m) @ take n (write_frame crc (kvj_encode kv)))) =
      (Inr j :: lsm_msg journal_error + journal)" "replay crc kvj_decode j = map Inr rs"
    using kvj.reopen_torn [of rs kv n crc] rs assms(2,3) by auto
  then show ?thesis using rs(3) by (simp add: journaled_open_def)
qed

section \<open>Properties\<close>

text \<open>C11. Recovery of the memtable. In every state reached by accepted writes and clears,
  opening the journal file into an empty memtable of the same capacity gives back
  the same memtable, contents, size and capacity; so does opening it after a crash
  that cut the journal append of one more write short at any byte.\<close>

theorem journaled_recovers:
  assumes "jm_reach crc c m" and "kvj_ok kv" and "n < length (write_frame crc (kvj_encode kv))"
  shows "journaled_open crc (Some (j_file (jm_journal m))) (with_capacity c) = Inr m \<and>
    (\<exists>m'. journaled_open crc (Some (j_file (jm_journal m) @ take n (write_frame crc (kvj_encode kv))))
      (with_capacity c) = Inr m' \<and> jm_inner m' = jm_inner m)"
  using jm_reach_durable [OF assms(1)] jm_reopen [of crc m] jm_reopen_torn [of crc m kv n] assms(2,3)
  by simp

text \<open>The state after one write to a fresh journaled memtable of capacity 3.\<close>

definition sample_key :: internal_key where
  "sample_key = \<lparr>user_key = [1], ik_seq = 1, ik_op = Put\<rparr>"

lemma sample_reach:
  "jm_reach (\<lambda>_. 7) 3 (snd (jm_put (\<lambda>_. 7) sample_key [9]
    \<lparr>jm_inner = with_capacity 3, jm_journal = journal_of (\<lambda>_. 7) kvj_encode []\<rparr>))"
  by (rule jm_reach.put [OF jm_reach.fresh [OF jm_open_fresh],
        where k = sample_key and v = "[9]" and u = "()"])
    (simp_all add: jm_put_def mem_put_def with_capacity_def kvj_ok_def kv_ok_def sample_key_def entry_size_def)

theorem journaled_recovers_witness:
  "let m = snd (jm_put (\<lambda>_. 7) sample_key [9]
      \<lparr>jm_inner = with_capacity 3, jm_journal = journal_of (\<lambda>_. 7) kvj_encode []\<rparr>);
     kv = \<lparr>kv_key = sample_key, kv_value = []\<rparr> in
   journaled_open (\<lambda>_. 7) (Some (j_file (jm_journal m))) (with_capacity 3) = Inr m \<and>
    (\<exists>m'. journaled_open (\<lambda>_. 7) (Some (j_file (jm_journal m) @ take 5 (write_frame (\<lambda>_. 7) (kvj_encode kv))))
      (with_capacity 3) = Inr m' \<and> jm_inner m' = jm_inner m)"
  unfolding Let_def
  by (rule journaled_recovers [OF sample_reach])
    (simp_all add: kvj_ok_def kv_ok_def sample_key_def entry_size_def kvj_encode_def)

text \<open>C35. \<open>Journaled::put\<close> logs a record before the memtable decides whether it has room. When
  the memtable is full the write fails with \<open>StoreFull\<close>, yet its record stays in the
  journal, and opening the journal again fails with the same error: after a crash in
  this state the tree cannot be opened.\<close>

theorem rejected_write_blocks_reopen:
  assumes "jm_reach crc c m" and "kvj_ok \<lparr>kv_key = k, kv_value = v\<rparr>"
    and "jm_put crc k v m = (Inl StoreFull, m')"
  shows "journaled_open crc (Some (j_file (jm_journal m'))) (with_capacity c) = Inl StoreFull"
proof -
  let ?kv = "\<lparr>kv_key = k, kv_value = v\<rparr>"
  obtain rs where rs: "\<forall>r\<in>set rs. kvj_ok r" "jm_journal m = journal_of crc kvj_encode rs"
      "replay_puts (map Inr rs) (with_capacity c) = Inr (jm_inner m)"
    using jm_reach_durable [OF assms(1)] by (auto simp: jm_durable_def)
  have p: "mem_put k v (jm_inner m) = (Inl StoreFull, jm_inner m')"
      "jm_journal m' = journal_of crc kvj_encode (rs @ [?kv])"
    using jm_put_journal [OF assms(3)] rs(2) by auto
  have "replay crc kvj_decode (jm_journal m') = map Inr (rs @ [?kv])"
    unfolding p(2) using rs(1) assms(2) by (intro kvj.replay_journal_of) auto
  then show ?thesis
    using rs(3) p by (simp add: journaled_open_def with_codec_reopen replay_puts_append)
qed

theorem rejected_write_blocks_reopen_witness:
  "let m = snd (jm_put (\<lambda>_. 7) sample_key [9]
      \<lparr>jm_inner = with_capacity 3, jm_journal = journal_of (\<lambda>_. 7) kvj_encode []\<rparr>);
     (r, m') = jm_put (\<lambda>_. 7) (sample_key\<lparr>ik_seq := 2\<rparr>) [8] m in
   r = Inl StoreFull \<and>
   journaled_open (\<lambda>_. 7) (Some (j_file (jm_journal m'))) (with_capacity 3) = Inl StoreFull"
proof -
  let ?m = "snd (jm_put (\<lambda>_. 7) sample_key [9]
      \<lparr>jm_inner = with_capacity 3, jm_journal = journal_of (\<lambda>_. 7) kvj_encode []\<rparr>)"
  obtain r m' where p: "jm_put (\<lambda>_. 7) (sample_key\<lparr>ik_seq := 2\<rparr>) [8] ?m = (r, m')" by fastforce
  then have r: "r = Inl StoreFull"
    by (auto simp: jm_put_def mem_put_def with_capacity_def sample_key_def)
  have "journaled_open (\<lambda>_. 7) (Some (j_file (jm_journal m'))) (with_capacity 3) = Inl StoreFull"
    by (rule rejected_write_blocks_reopen [OF sample_reach _ p [unfolded r]])
      (simp add: kvj_ok_def kv_ok_def sample_key_def entry_size_def)
  then show ?thesis using p r by (simp add: Let_def)
qed

end
