(* ===== verification/Manifest.thy ===== *)
theory Manifest
  imports Lsm_Types
begin

text \<open>
  The manifest (\<^verbatim>\<open>src/crates/lsm/src/manifest\<close>): edits and the version they fold into
  (\<^verbatim>\<open>mod.rs\<close>), their journal codec (\<^verbatim>\<open>codec.rs\<close>), the manager with its directory of
  \<^verbatim>\<open>MANIFEST-*\<close> files and the \<^verbatim>\<open>CURRENT\<close> pointer (\<^verbatim>\<open>manager.rs\<close>), the compaction
  vocabulary (\<^verbatim>\<open>compaction.rs\<close>), and garbage collection of SSTable files. The
  directory is explicit: \<open>md_current\<close> is the text of \<^verbatim>\<open>CURRENT\<close>, \<open>md_tmp\<close> that of
  \<^verbatim>\<open>CURRENT.tmp\<close>, and \<open>md_files\<close> the manifest files by number.
\<close>

section \<open>Definitions\<close>

subsection \<open>Decimal text\<close>

text \<open>\<open>write!("{n}")\<close> and \<open>str::parse::<u64>\<close>, with \<open>trim\<close> on ASCII white space.\<close>

function show_nat :: "nat \<Rightarrow> string" where
  "show_nat n = (if n < 10 then [char_of (48 + n)] else show_nat (n div 10) @ [char_of (48 + n mod 10)])"
  by pat_completeness auto
termination by (relation "measure id") auto

declare show_nat.simps [simp del]

definition show_u64 :: "u64 \<Rightarrow> string" where
  "show_u64 n = show_nat (unat n)"

definition is_digit :: "char \<Rightarrow> bool" where
  "is_digit c \<longleftrightarrow> 48 \<le> (of_char c :: nat) \<and> (of_char c :: nat) \<le> 57"

definition digits_value :: "string \<Rightarrow> int" where
  "digits_value s = foldl (\<lambda>a c. a * 10 + (int (of_char c) - 48)) 0 s"

definition parse_u64 :: "string \<Rightarrow> u64 option" where
  "parse_u64 s =
    (let ds = (case s of c # cs \<Rightarrow> if c = CHR ''+'' then cs else s | [] \<Rightarrow> s) in
     if ds = [] \<or> \<not> list_all is_digit ds \<or> 2 ^ 64 \<le> digits_value ds then None
     else Some (word_of_int (digits_value ds)))"

definition is_space :: "char \<Rightarrow> bool" where
  "is_space c \<longleftrightarrow> (of_char c :: nat) \<in> {9, 10, 11, 12, 13, 32}"

definition trim_text :: "string \<Rightarrow> string" where
  "trim_text s = rev (dropWhile is_space (rev (dropWhile is_space s)))"

subsection \<open>Edits and versions\<close>

datatype sstable_id = SsTableId (sst_id: u64)

datatype run_id = RunId (run_no: u64)

record run_descriptor =
  rd_level :: u32
  rd_run :: run_id
  rd_files :: "sstable_id list"

datatype manifest_op =
    AddRun run_descriptor
  | RemoveRun run_id
  | SetNextSstId u64
  | SetLastSeq u64

type_synonym manifest_edit = "manifest_op list"

definition add_run :: "run_descriptor \<Rightarrow> manifest_edit \<Rightarrow> manifest_edit" where
  "add_run run edit = edit @ [AddRun run]"

definition remove_run :: "run_id \<Rightarrow> manifest_edit \<Rightarrow> manifest_edit" where
  "remove_run run edit = edit @ [RemoveRun run]"

definition set_next_sst_id :: "u64 \<Rightarrow> manifest_edit \<Rightarrow> manifest_edit" where
  "set_next_sst_id next edit = edit @ [SetNextSstId next]"

definition set_last_seq :: "u64 \<Rightarrow> manifest_edit \<Rightarrow> manifest_edit" where
  "set_last_seq s edit = edit @ [SetLastSeq s]"

record version =
  v_runs :: "run_descriptor list"
  v_next_sst_id :: u64
  v_last_seq :: u64

definition empty_version :: version where
  "empty_version = \<lparr>v_runs = [], v_next_sst_id = 0, v_last_seq = 0\<rparr>"

fun apply_op :: "manifest_op \<Rightarrow> version \<Rightarrow> version" where
  "apply_op (AddRun run) v = v\<lparr>v_runs := v_runs v @ [run]\<rparr>"
| "apply_op (RemoveRun i) v = v\<lparr>v_runs := filter (\<lambda>r. rd_run r \<noteq> i) (v_runs v)\<rparr>"
| "apply_op (SetNextSstId next) v = v\<lparr>v_next_sst_id := next\<rparr>"
| "apply_op (SetLastSeq s) v = v\<lparr>v_last_seq := s\<rparr>"

definition apply_edit :: "manifest_edit \<Rightarrow> version \<Rightarrow> version" where
  "apply_edit edit v = fold apply_op edit v"

definition to_snapshot :: "version \<Rightarrow> manifest_edit" where
  "to_snapshot v = map AddRun (v_runs v) @ [SetNextSstId (v_next_sst_id v)] @ [SetLastSeq (v_last_seq v)]"

definition runs_in :: "u32 \<Rightarrow> version \<Rightarrow> run_descriptor list" where
  "runs_in level v = filter (\<lambda>r. rd_level r = level) (v_runs v)"

definition live_files :: "version \<Rightarrow> sstable_id list" where
  "live_files v = concat (map rd_files (v_runs v))"

subsection \<open>Compaction jobs\<close>

datatype compaction_kind = Flush | Merge

record compaction_job =
  cj_kind :: compaction_kind
  cj_source_level :: u32
  cj_target_level :: u32
  cj_inputs :: "run_id list"

definition flush_job :: compaction_job where
  "flush_job = \<lparr>cj_kind = Flush, cj_source_level = 0, cj_target_level = 0, cj_inputs = []\<rparr>"

definition merge_job :: "u32 \<Rightarrow> u32 \<Rightarrow> run_id list \<Rightarrow> compaction_job" where
  "merge_job source target inputs =
    \<lparr>cj_kind = Merge, cj_source_level = source, cj_target_level = target, cj_inputs = inputs\<rparr>"

definition to_edit :: "compaction_job \<Rightarrow> run_descriptor \<Rightarrow> manifest_edit" where
  "to_edit job output = fold remove_run (cj_inputs job) (add_run output [])"

subsection \<open>Codec\<close>

definition OP_ADD_RUN :: u8 where "OP_ADD_RUN = 1"
definition OP_REMOVE_RUN :: u8 where "OP_REMOVE_RUN = 2"
definition OP_SET_NEXT_SST_ID :: u8 where "OP_SET_NEXT_SST_ID = 3"
definition OP_SET_LAST_SEQ :: u8 where "OP_SET_LAST_SEQ = 4"

fun op_encode :: "manifest_op \<Rightarrow> bytes" where
  "op_encode (AddRun run) =
    [OP_ADD_RUN] @ to_be 4 (rd_level run) @ to_be 8 (run_no (rd_run run)) @
    to_be 4 (word_of_nat (length (rd_files run)) :: u32) @
    concat (map (\<lambda>f. to_be 8 (sst_id f)) (rd_files run))"
| "op_encode (RemoveRun i) = [OP_REMOVE_RUN] @ to_be 8 (run_no i)"
| "op_encode (SetNextSstId next) = [OP_SET_NEXT_SST_ID] @ to_be 8 next"
| "op_encode (SetLastSeq s) = [OP_SET_LAST_SEQ] @ to_be 8 s"

definition edit_encode :: "manifest_edit \<Rightarrow> bytes" where
  "edit_encode edit = to_be 4 (word_of_nat (length edit) :: u32) @ concat (map op_encode edit)"

text \<open>The readers of this codec report a short input as \<open>truncated manifest edit\<close>.\<close>

type_synonym 'a mreader = "bytes \<Rightarrow> lsm_msg journal_error + 'a \<times> bytes"

definition m_take :: "nat \<Rightarrow> bytes mreader" where
  "m_take n bs =
    (if length bs < n then Inl (JournalDecode MsgTruncatedEdit) else Inr (take n bs, drop n bs))"

definition m_get_u8 :: "u8 mreader" where
  "m_get_u8 bs = res_bind (m_take 1 bs) (\<lambda>(h, rest). Inr (hd h, rest))"

definition m_get_u32 :: "u32 mreader" where
  "m_get_u32 bs = res_bind (m_take 4 bs) (\<lambda>(h, rest). Inr (from_be h, rest))"

definition m_get_u64 :: "u64 mreader" where
  "m_get_u64 bs = res_bind (m_take 8 bs) (\<lambda>(h, rest). Inr (from_be h, rest))"

fun m_repeat :: "nat \<Rightarrow> 'a mreader \<Rightarrow> 'a list mreader" where
  "m_repeat 0 rd bs = Inr ([], bs)"
| "m_repeat (Suc n) rd bs =
    res_bind (rd bs) (\<lambda>(x, rest).
    res_bind (m_repeat n rd rest) (\<lambda>(xs, rest'). Inr (x # xs, rest')))"

definition op_decode :: "manifest_op mreader" where
  "op_decode bs =
    res_bind (m_get_u8 bs) (\<lambda>(tag, bs1).
      if tag = OP_ADD_RUN then
        res_bind (m_get_u32 bs1) (\<lambda>(level, bs2).
        res_bind (m_get_u64 bs2) (\<lambda>(run, bs3).
        res_bind (m_get_u32 bs3) (\<lambda>(file_count, bs4).
        res_bind (m_repeat (unat file_count) m_get_u64 bs4) (\<lambda>(files, bs5).
          Inr (AddRun \<lparr>rd_level = level, rd_run = RunId run, rd_files = map SsTableId files\<rparr>, bs5)))))
      else if tag = OP_REMOVE_RUN then
        res_bind (m_get_u64 bs1) (\<lambda>(i, bs2). Inr (RemoveRun (RunId i), bs2))
      else if tag = OP_SET_NEXT_SST_ID then
        res_bind (m_get_u64 bs1) (\<lambda>(n, bs2). Inr (SetNextSstId n, bs2))
      else if tag = OP_SET_LAST_SEQ then
        res_bind (m_get_u64 bs1) (\<lambda>(s, bs2). Inr (SetLastSeq s, bs2))
      else Inl (JournalDecode (MsgUnknownManifestOp tag)))"

definition edit_decode :: "bytes \<Rightarrow> lsm_msg journal_error + manifest_edit" where
  "edit_decode bs =
    res_bind (m_get_u32 bs) (\<lambda>(count, bs1).
    res_bind (m_repeat (unat count) op_decode bs1) (\<lambda>(ops, _). Inr ops))"

subsection \<open>The manager\<close>

record manifest_dir =
  md_current :: "string option"
  md_tmp :: "string option"
  md_files :: "u64 \<Rightarrow> bytes option"

record manifest_manager =
  mm_current :: u64
  mm_journal :: journal
  mm_version :: version

definition read_current :: "string \<Rightarrow> lsm_error + u64" where
  "read_current txt =
    (case parse_u64 (trim_text txt) of
       Some n \<Rightarrow> Inr n
     | None \<Rightarrow> Inl (Internal (MsgText ''malformed CURRENT pointer'')))"

definition write_tmp :: "u64 \<Rightarrow> manifest_dir \<Rightarrow> manifest_dir" where
  "write_tmp n d = d\<lparr>md_tmp := Some (show_u64 n)\<rparr>"

definition rename_tmp :: "manifest_dir \<Rightarrow> manifest_dir" where
  "rename_tmp d = d\<lparr>md_current := md_tmp d, md_tmp := None\<rparr>"

definition write_current :: "u64 \<Rightarrow> manifest_dir \<Rightarrow> manifest_dir" where
  "write_current n d = rename_tmp (write_tmp n d)"

text \<open>Opening or extending a journal changes the file of the directory it is a handle of.\<close>

definition sync_file :: "u64 \<Rightarrow> journal \<Rightarrow> manifest_dir \<Rightarrow> manifest_dir" where
  "sync_file n j d = d\<lparr>md_files := (md_files d)(n \<mapsto> j_file j)\<rparr>"

fun fold_edits :: "(lsm_msg journal_error + manifest_edit) list \<Rightarrow> version \<Rightarrow> lsm_error + version" where
  "fold_edits [] v = Inr v"
| "fold_edits (Inl e # rs) v = Inl (lsm_of_journal e)"
| "fold_edits (Inr edit # rs) v = fold_edits rs (apply_edit edit v)"

definition manager_open ::
  "(bytes \<Rightarrow> u32) \<Rightarrow> manifest_dir \<Rightarrow> (lsm_error + manifest_manager) \<times> manifest_dir" where
  "manager_open crc d =
    (case md_current d of
       Some txt \<Rightarrow>
         (case read_current txt of
            Inl e \<Rightarrow> (Inl e, d)
          | Inr current \<Rightarrow>
              (case with_codec (md_files d current) of
                 Inl e \<Rightarrow> (Inl (lsm_of_journal e), d)
               | Inr j \<Rightarrow>
                   (res_bind (fold_edits (replay crc edit_decode j) empty_version) (\<lambda>v.
                      Inr \<lparr>mm_current = current, mm_journal = j, mm_version = v\<rparr>),
                    sync_file current j d)))
     | None \<Rightarrow>
         (case with_codec (md_files d 0) of
            Inl e \<Rightarrow> (Inl (lsm_of_journal e), d)
          | Inr j \<Rightarrow>
              (Inr \<lparr>mm_current = 0, mm_journal = j, mm_version = empty_version\<rparr>,
               write_current 0 (sync_file 0 j d))))"

definition commit ::
  "(bytes \<Rightarrow> u32) \<Rightarrow> manifest_edit \<Rightarrow> manifest_manager \<Rightarrow> manifest_dir \<Rightarrow> manifest_manager \<times> manifest_dir" where
  "commit crc edit mm d =
    (let j = append_rec crc edit_encode edit (mm_journal mm) in
     (mm\<lparr>mm_journal := j, mm_version := apply_edit edit (mm_version mm)\<rparr>,
      sync_file (mm_current mm) j d))"

definition checkpoint ::
  "(bytes \<Rightarrow> u32) \<Rightarrow> manifest_manager \<Rightarrow> manifest_dir \<Rightarrow>
    (lsm_error + unit) \<times> manifest_manager \<times> manifest_dir" where
  "checkpoint crc mm d =
    (let next = mm_current mm + 1 in
     case with_codec (md_files d next) of
       Inl e \<Rightarrow> (Inl (lsm_of_journal e), mm, d)
     | Inr j \<Rightarrow>
         let fresh = append_rec crc edit_encode (to_snapshot (mm_version mm)) j;
             d1 = sync_file next fresh (sync_file next j d);
             d2 = write_current next d1;
             old = mm_current mm in
         (Inr (), mm\<lparr>mm_current := next, mm_journal := fresh\<rparr>,
          d2\<lparr>md_files := (md_files d2)(old := None)\<rparr>))"

subsection \<open>Garbage collection\<close>

text \<open>The SSTable directory: file names with their contents, in listing order.\<close>

type_synonym sst_dir = "(string \<times> bytes) list"

text \<open>\<open>Path::extension\<close> and \<open>Path::file_stem\<close> split at the last dot of the name.\<close>

definition name_ext :: "string \<Rightarrow> (string \<times> string) option" where
  "name_ext name =
    (let r = rev name; ext = rev (takeWhile (\<lambda>c. c \<noteq> CHR ''.'') r);
         rest = dropWhile (\<lambda>c. c \<noteq> CHR ''.'') r in
     if rest = [] \<or> tl rest = [] then None else Some (rev (tl rest), ext))"

definition parse_sst_id :: "string \<Rightarrow> sstable_id option" where
  "parse_sst_id name =
    (case name_ext name of
       None \<Rightarrow> None
     | Some (stem, ext) \<Rightarrow>
         if ext \<noteq> ''sst'' then None else map_option SsTableId (parse_u64 stem))"

definition sst_name :: "sstable_id \<Rightarrow> string" where
  "sst_name i = show_u64 (sst_id i) @ ''.sst''"

definition collectable :: "version \<Rightarrow> string \<Rightarrow> bool" where
  "collectable v name =
    (case parse_sst_id name of
       None \<Rightarrow> False
     | Some i \<Rightarrow> sst_id i < v_next_sst_id v \<and> i \<notin> set (live_files v))"

definition garbage_collect :: "manifest_manager \<Rightarrow> sst_dir option \<Rightarrow> sstable_id list \<times> sst_dir option" where
  "garbage_collect mm dir =
    (case dir of
       None \<Rightarrow> ([], None)
     | Some files \<Rightarrow>
         (List.map_filter (\<lambda>(name, _). if collectable (mm_version mm) name then parse_sst_id name else None) files,
          Some (filter (\<lambda>(name, _). \<not> collectable (mm_version mm) name) files)))"


section \<open>Decimal text round trip\<close>

lemma of_char_digit [simp]: "n < 10 \<Longrightarrow> (of_char (char_of (48 + n) :: char) :: nat) = 48 + n"
  by simp

lemma digits_value_snoc [simp]: "digits_value (s @ [c]) = digits_value s * 10 + (int (of_char c) - 48)"
  by (simp add: digits_value_def)

lemma show_nat_digits: "show_nat n \<noteq> [] \<and> list_all is_digit (show_nat n) \<and> digits_value (show_nat n) = int n"
proof (induction n rule: show_nat.induct)
  case (1 n)
  show ?case
  proof (cases "n < 10")
    case True
    then show ?thesis
      by (simp add: show_nat.simps is_digit_def digits_value_def)
  next
    case False
    then show ?thesis
      using 1 by (simp add: show_nat.simps [of n] is_digit_def zdiv_int zmod_int)
  qed
qed

lemma digit_not_special: "is_digit c \<Longrightarrow> c \<noteq> CHR ''+'' \<and> c \<noteq> CHR ''.'' \<and> \<not> is_space c"
  by (auto simp: is_digit_def is_space_def)

lemma parse_show_u64 [simp]: "parse_u64 (show_u64 n) = Some n"
proof -
  have d: "show_u64 n \<noteq> []" "list_all is_digit (show_u64 n)" "digits_value (show_u64 n) = uint n"
    using show_nat_digits [of "unat n"] by (auto simp: show_u64_def)
  then have "hd (show_u64 n) \<noteq> CHR ''+''"
    using digit_not_special by (metis list.set_sel(1) list_all_iff)
  moreover have "uint n < 2 ^ 64" using unsigned_less [of n] by simp
  ultimately show ?thesis
    using d by (auto simp: parse_u64_def Let_def split: list.split)
qed

lemma show_u64_inject [simp]: "show_u64 m = show_u64 n \<longleftrightarrow> m = n"
  by (metis option.inject parse_show_u64)

lemma dropWhile_none: "list_all (\<lambda>c. \<not> P c) s \<Longrightarrow> dropWhile P s = s"
  by (cases s) auto

lemma trim_show_u64 [simp]: "trim_text (show_u64 n) = show_u64 n"
proof -
  have "list_all (\<lambda>c. \<not> is_space c) (show_u64 n)"
    using show_nat_digits [of "unat n"] digit_not_special by (auto simp: show_u64_def list_all_iff)
  then show ?thesis by (simp add: trim_text_def dropWhile_none list_all_iff)
qed

lemma read_current_show [simp]: "read_current (show_u64 n) = Inr n"
  by (simp add: read_current_def)

lemma parse_sst_name [simp]: "parse_sst_id (sst_name i) = Some i"
proof -
  have "takeWhile (\<lambda>c. c \<noteq> CHR ''.'') (rev (sst_name i)) = rev ''sst''"
    "dropWhile (\<lambda>c. c \<noteq> CHR ''.'') (rev (sst_name i)) = CHR ''.'' # rev (show_u64 (sst_id i))"
    by (simp_all add: sst_name_def)
  moreover have "show_u64 (sst_id i) \<noteq> []" using show_nat_digits by (simp add: show_u64_def)
  ultimately show ?thesis by (simp add: parse_sst_id_def name_ext_def, simp add: sst_name_def)
qed

lemma sst_name_inject [simp]: "sst_name i = sst_name j \<longleftrightarrow> i = j"
  by (metis option.inject parse_sst_name)

section \<open>Edits round trip\<close>

lemma m_get_append [simp, codec_simps]:
  "m_get_u8 (b # rest) = Inr (b, rest)"
  "m_get_u32 (to_be 4 (w :: u32) @ rest) = Inr (w, rest)"
  "m_get_u64 (to_be 8 (x :: u64) @ rest) = Inr (x, rest)"
  by (simp_all add: m_get_u8_def m_get_u32_def m_get_u64_def m_take_def)

lemma m_repeat_concat:
  "(\<And>x r. x \<in> set xs \<Longrightarrow> rd (enc x @ r) = Inr (x, r)) \<Longrightarrow>
    m_repeat (length xs) rd (concat (map enc xs) @ rest) = Inr (xs, rest)"
  by (induction xs) auto

fun op_ok :: "manifest_op \<Rightarrow> bool" where
  "op_ok (AddRun run) \<longleftrightarrow> length (rd_files run) < 2 ^ 32"
| "op_ok _ \<longleftrightarrow> True"

lemma op_decode_encode: "op_ok p \<Longrightarrow> op_decode (op_encode p @ rest) = Inr (p, rest)"
proof (cases p)
  case (AddRun run)
  have files: "m_repeat (length (rd_files run)) m_get_u64 (concat (map (\<lambda>f. to_be 8 (sst_id f)) (rd_files run)) @ rest) =
      Inr (map sst_id (rd_files run), rest)"
    using m_repeat_concat [of "map sst_id (rd_files run)" m_get_u64 "to_be 8" rest]
    by (simp add: comp_def)
  assume "op_ok p"
  then show ?thesis
    using files by (simp add: AddRun op_decode_def OP_ADD_RUN_def comp_def)
qed (simp_all add: op_decode_def OP_ADD_RUN_def OP_REMOVE_RUN_def OP_SET_NEXT_SST_ID_def OP_SET_LAST_SEQ_def)

definition edit_ok :: "manifest_edit \<Rightarrow> bool" where
  "edit_ok edit \<longleftrightarrow> list_all op_ok edit \<and> length (edit_encode edit) < 2 ^ 32"

lemma length_op_encode_pos: "0 < length (op_encode p)"
  by (cases p) auto

lemma length_edit_le: "length edit \<le> length (edit_encode edit)"
proof -
  have "length edit \<le> length (concat (map op_encode edit))"
  proof (induction edit)
    case (Cons p edit)
    then show ?case using length_op_encode_pos [of p] by (simp del: length_greater_0_conv)
  qed simp
  then show ?thesis by (simp add: edit_encode_def)
qed

lemma edit_decode_encode: "edit_ok edit \<Longrightarrow> edit_decode (edit_encode edit) = Inr edit"
proof -
  assume ok: "edit_ok edit"
  have "m_repeat (length edit) op_decode (concat (map op_encode edit) @ []) = Inr (edit, [])"
    using ok by (intro m_repeat_concat op_decode_encode) (auto simp: edit_ok_def list_all_iff)
  moreover have "length edit < 2 ^ 32"
    using ok length_edit_le [of edit] by (simp add: edit_ok_def)
  ultimately show ?thesis by (simp add: edit_decode_def edit_encode_def)
qed

interpretation mj: journal_codec edit_encode edit_decode edit_ok
  by unfold_locales (auto simp: edit_decode_encode edit_ok_def)

section \<open>Versions\<close>

lemma apply_edit_Nil [simp]: "apply_edit [] v = v"
  by (simp add: apply_edit_def)

lemma apply_edit_append: "apply_edit (e @ f) v = apply_edit f (apply_edit e v)"
  by (simp add: apply_edit_def)

lemma apply_edit_AddRuns: "apply_edit (map AddRun rs) v = v\<lparr>v_runs := v_runs v @ rs\<rparr>"
  by (induction rs arbitrary: v) (simp_all add: apply_edit_def)

lemma apply_snapshot [simp]: "apply_edit (to_snapshot v) empty_version = v"
  by (simp add: to_snapshot_def apply_edit_append apply_edit_AddRuns)
    (simp add: apply_edit_def empty_version_def)

lemma fold_edits_map_Inr [simp]: "fold_edits (map Inr es) v = Inr (fold apply_edit es v)"
  by (induction es arbitrary: v) auto

lemma fold_remove_run: "fold remove_run ids e = e @ map RemoveRun ids"
  by (induction ids arbitrary: e) (auto simp: remove_run_def)

lemma apply_edit_RemoveRuns:
  "apply_edit (map RemoveRun ids) v = v\<lparr>v_runs := filter (\<lambda>r. rd_run r \<notin> set ids) (v_runs v)\<rparr>"
  by (induction ids arbitrary: v) (auto simp: apply_edit_def intro!: filter_cong)

section \<open>The manager\<close>

text \<open>
  \<open>mm_inv\<close>: \<^verbatim>\<open>CURRENT\<close> names the manager's manifest, whose file holds edits that fold
  into the version, and no later manifest exists.
\<close>

definition mm_inv :: "(bytes \<Rightarrow> u32) \<Rightarrow> manifest_manager \<Rightarrow> manifest_dir \<Rightarrow> bool" where
  "mm_inv crc mm d \<longleftrightarrow>
    md_current d = Some (show_u64 (mm_current mm)) \<and>
    md_files d (mm_current mm) = Some (j_file (mm_journal mm)) \<and>
    (\<forall>n. mm_current mm < n \<longrightarrow> md_files d n = None) \<and>
    (\<exists>es. (\<forall>e\<in>set es. edit_ok e) \<and> mm_journal mm = journal_of crc edit_encode es \<and>
      fold apply_edit es empty_version = mm_version mm)"

lemma mm_open_fresh:
  assumes "md_current d = None" "md_files d = (\<lambda>_. None)"
  shows "\<exists>mm d'. manager_open crc d = (Inr mm, d') \<and> mm_inv crc mm d' \<and>
    mm_version mm = empty_version \<and> mm_current mm = 0"
  using assms
  by (auto simp: manager_open_def with_codec_fresh [of crc edit_encode] mm_inv_def write_current_def
      write_tmp_def rename_tmp_def sync_file_def intro!: exI [of _ "[]"])

lemma mm_reopen:
  assumes "mm_inv crc mm d"
  shows "manager_open crc d = (Inr mm, d)"
proof -
  obtain es where es: "\<forall>e\<in>set es. edit_ok e" "mm_journal mm = journal_of crc edit_encode es"
      "fold apply_edit es empty_version = mm_version mm"
    using assms by (auto simp: mm_inv_def)
  have "replay crc edit_decode (mm_journal mm) = map Inr es"
    using es by (simp add: mj.replay_journal_of)
  moreover have "with_codec (Some (j_file (mm_journal mm))) =
      (Inr (mm_journal mm) :: lsm_msg journal_error + journal)"
    by (simp add: es(2) with_codec_reopen)
  moreover have "sync_file (mm_current mm) (mm_journal mm) d = d"
    using assms by (simp add: mm_inv_def sync_file_def map_upd_triv)
  ultimately show ?thesis
    using assms es(3) by (simp add: manager_open_def mm_inv_def)
qed

lemma mm_commit:
  assumes "mm_inv crc mm d" "edit_ok edit" "commit crc edit mm d = (mm', d')"
  shows "mm_inv crc mm' d' \<and> mm_version mm' = apply_edit edit (mm_version mm) \<and>
    mm_current mm' = mm_current mm"
proof -
  obtain es where es: "\<forall>e\<in>set es. edit_ok e" "mm_journal mm = journal_of crc edit_encode es"
      "fold apply_edit es empty_version = mm_version mm"
    using assms by (auto simp: mm_inv_def)
  then show ?thesis
    using assms by (auto simp: commit_def Let_def mm_inv_def sync_file_def intro!: exI [of _ "es @ [edit]"])
qed

lemma mm_checkpoint:
  assumes "mm_inv crc mm d" "edit_ok (to_snapshot (mm_version mm))" "mm_current mm < - 1"
    and "checkpoint crc mm d = (r, mm', d')"
  shows "r = Inr () \<and> mm_inv crc mm' d' \<and> mm_version mm' = mm_version mm"
proof -
  have lt: "mm_current mm < mm_current mm + 1"
    using assms(3) by (rule less_add_one_word)
  have "md_files d (mm_current mm + 1) = None"
    using assms(1) lt by (simp add: mm_inv_def)
  then show ?thesis
    using assms lt
    by (auto simp: checkpoint_def with_codec_fresh [of crc edit_encode] Let_def mm_inv_def
        write_current_def write_tmp_def rename_tmp_def sync_file_def
        intro!: exI [of _ "[to_snapshot (mm_version mm)]"])
qed


section \<open>Crash states\<close>

text \<open>The states of the manager under commits and checkpoints.\<close>

inductive mm_reach :: "(bytes \<Rightarrow> u32) \<Rightarrow> manifest_manager \<Rightarrow> manifest_dir \<Rightarrow> bool" for crc where
  fresh: "md_current d = None \<Longrightarrow> md_files d = (\<lambda>_. None) \<Longrightarrow> manager_open crc d = (Inr mm, d') \<Longrightarrow>
    mm_reach crc mm d'"
| commit: "mm_reach crc mm d \<Longrightarrow> edit_ok edit \<Longrightarrow> commit crc edit mm d = (mm', d') \<Longrightarrow>
    mm_reach crc mm' d'"
| checkpoint: "mm_reach crc mm d \<Longrightarrow> edit_ok (to_snapshot (mm_version mm)) \<Longrightarrow> mm_current mm < - 1 \<Longrightarrow>
    checkpoint crc mm d = (r, mm', d') \<Longrightarrow> mm_reach crc mm' d'"

lemma mm_reach_inv: "mm_reach crc mm d \<Longrightarrow> mm_inv crc mm d"
proof (induction rule: mm_reach.induct)
  case (fresh d mm d')
  then show ?case using mm_open_fresh [of d crc] by auto
next
  case (commit mm d edit mm' d')
  then show ?case using mm_commit by blast
next
  case (checkpoint mm d r mm' d')
  then show ?case using mm_checkpoint by blast
qed

text \<open>
  What a crash inside \<open>checkpoint\<close> can leave behind: part of the new file's header,
  part of its snapshot record, the temporary pointer, the flipped pointer.
\<close>

inductive checkpoint_crash ::
  "(bytes \<Rightarrow> u32) \<Rightarrow> manifest_manager \<Rightarrow> manifest_dir \<Rightarrow> manifest_dir \<Rightarrow> bool"
for crc mm d where
  in_header: "checkpoint_crash crc mm d
    (d\<lparr>md_files := (md_files d)(mm_current mm + 1 \<mapsto> take k header_bytes)\<rparr>)"
| in_snapshot: "d' = d\<lparr>md_files := (md_files d)(mm_current mm + 1 \<mapsto>
      header_bytes @ take k (write_frame crc (edit_encode (to_snapshot (mm_version mm)))))\<rparr> \<Longrightarrow>
    checkpoint_crash crc mm d d'"
| in_pointer: "d' = d\<lparr>md_files := (md_files d)(mm_current mm + 1 \<mapsto>
      header_bytes @ write_frame crc (edit_encode (to_snapshot (mm_version mm)))), md_tmp := tmp\<rparr> \<Longrightarrow>
    checkpoint_crash crc mm d d'"
| flipped: "d' = write_current (mm_current mm + 1) (d\<lparr>md_files := (md_files d)(mm_current mm + 1 \<mapsto>
      header_bytes @ write_frame crc (edit_encode (to_snapshot (mm_version mm))))\<rparr>) \<Longrightarrow>
    checkpoint_crash crc mm d d'"

text \<open>A directory that agrees on \<^verbatim>\<open>CURRENT\<close> and on the file it names opens the same.\<close>

lemma manager_open_version:
  assumes "md_current d = Some (show_u64 n)" "md_files d n = Some (j_file (journal_of crc edit_encode es))"
    and "\<forall>e\<in>set es. edit_ok e"
  shows "manager_open crc d =
    (Inr \<lparr>mm_current = n, mm_journal = journal_of crc edit_encode es,
          mm_version = fold apply_edit es empty_version\<rparr>, d)"
proof -
  have "replay crc edit_decode (journal_of crc edit_encode es) = map Inr es"
    using assms(3) by (simp add: mj.replay_journal_of)
  moreover have "sync_file n (journal_of crc edit_encode es) d = d"
    using assms(2) by (simp add: sync_file_def map_upd_triv)
  ultimately show ?thesis
    using assms(1,2) by (simp add: manager_open_def with_codec_reopen)
qed

lemma checkpoint_crash_open:
  assumes "mm_inv crc mm d" "edit_ok (to_snapshot (mm_version mm))" "mm_current mm < - 1"
    and "checkpoint_crash crc mm d d'"
  shows "\<exists>mm'. manager_open crc d' = (Inr mm', d') \<and> mm_version mm' = mm_version mm"
proof -
  obtain es where es: "\<forall>e\<in>set es. edit_ok e" "mm_journal mm = journal_of crc edit_encode es"
      "fold apply_edit es empty_version = mm_version mm"
    using assms(1) by (auto simp: mm_inv_def)
  have ne: "mm_current mm \<noteq> mm_current mm + 1" by simp
  have old: ?thesis if "md_current d' = md_current d" "md_files d' (mm_current mm) = md_files d (mm_current mm)"
    using that assms(1) es manager_open_version [of d' "mm_current mm" crc es]
    by (auto simp: mm_inv_def)
  show ?thesis
    using assms(4)
  proof cases
    case flipped
    have "manager_open crc d' = (Inr \<lparr>mm_current = mm_current mm + 1,
        mm_journal = journal_of crc edit_encode [to_snapshot (mm_version mm)],
        mm_version = fold apply_edit [to_snapshot (mm_version mm)] empty_version\<rparr>, d')"
      by (rule manager_open_version)
        (use flipped assms(2) in \<open>auto simp: write_current_def write_tmp_def rename_tmp_def
          journal_of_def frames_Cons\<close>)
    then show ?thesis by simp
  next
    case (in_header k)
    show ?thesis by (rule old) (simp_all add: in_header)
  next
    case (in_snapshot k)
    show ?thesis by (rule old) (simp_all add: in_snapshot)
  next
    case (in_pointer tmp)
    show ?thesis by (rule old) (simp_all add: in_pointer)
  qed
qed

text \<open>A commit cut short at a byte of its record opens to the version before.\<close>

lemma mm_open_torn:
  assumes inv: "mm_inv crc mm d" and "edit_ok edit" and "k < length (write_frame crc (edit_encode edit))"
  shows "\<exists>mm' d'. manager_open crc (d\<lparr>md_files := (md_files d)(mm_current mm \<mapsto>
        j_file (mm_journal mm) @ take k (write_frame crc (edit_encode edit)))\<rparr>) = (Inr mm', d') \<and>
      mm_version mm' = mm_version mm"
proof -
  obtain es where es: "\<forall>e\<in>set es. edit_ok e" "mm_journal mm = journal_of crc edit_encode es"
      "fold apply_edit es empty_version = mm_version mm"
    using inv by (auto simp: mm_inv_def)
  obtain j where j: "with_codec (Some (j_file (mm_journal mm) @ take k (write_frame crc (edit_encode edit)))) =
      (Inr j :: lsm_msg journal_error + journal)" "replay crc edit_decode j = map Inr es"
    using mj.reopen_torn [of es edit k crc] es assms(2,3) by auto
  then show ?thesis using inv j es(3) by (simp add: manager_open_def mm_inv_def)
qed

section \<open>Properties\<close>

text \<open>C14. Whatever commits and checkpoints did, opening the directory again gives the same
  manager with the same version, and leaves the directory as it was. A commit cut
  short by a crash at any byte of its record opens to the version before the commit.\<close>

theorem manifest_recovers:
  assumes "mm_reach crc mm d" and "edit_ok edit" and "k < length (write_frame crc (edit_encode edit))"
  shows "manager_open crc d = (Inr mm, d) \<and>
    (\<exists>mm'. fst (manager_open crc (d\<lparr>md_files := (md_files d)(mm_current mm \<mapsto>
        j_file (mm_journal mm) @ take k (write_frame crc (edit_encode edit)))\<rparr>)) = Inr mm' \<and>
      mm_version mm' = mm_version mm)"
proof
  have inv: "mm_inv crc mm d" using assms(1) by (rule mm_reach_inv)
  then show "manager_open crc d = (Inr mm, d)" by (rule mm_reopen)
  show "\<exists>mm'. fst (manager_open crc (d\<lparr>md_files := (md_files d)(mm_current mm \<mapsto>
        j_file (mm_journal mm) @ take k (write_frame crc (edit_encode edit)))\<rparr>)) = Inr mm' \<and>
      mm_version mm' = mm_version mm"
    using mm_open_torn [OF inv assms(2,3)] by auto
qed

text \<open>A fresh manifest with one committed run.\<close>

definition sample_run :: run_descriptor where
  "sample_run = \<lparr>rd_level = 0, rd_run = RunId 1, rd_files = [SsTableId 1]\<rparr>"

definition sample_manager :: manifest_manager where
  "sample_manager = \<lparr>mm_current = 0, mm_journal = journal_of (\<lambda>_. 7) edit_encode [[AddRun sample_run]],
    mm_version = \<lparr>v_runs = [sample_run], v_next_sst_id = 0, v_last_seq = 0\<rparr>\<rparr>"

definition sample_dir :: manifest_dir where
  "sample_dir = \<lparr>md_current = Some (show_u64 0), md_tmp = None,
    md_files = [0 \<mapsto> j_file (journal_of (\<lambda>_. 7) edit_encode [[AddRun sample_run]])]\<rparr>"

lemma sample_edit_ok [simp]:
  "edit_ok [AddRun sample_run]" "edit_ok (to_snapshot (mm_version sample_manager))"
  by (simp_all add: edit_ok_def edit_encode_def sample_run_def sample_manager_def to_snapshot_def)

lemma sample_mm_reach: "mm_reach (\<lambda>_. 7) sample_manager sample_dir"
proof (rule mm_reach.commit [OF mm_reach.fresh, where edit = "[AddRun sample_run]"])
  show "manager_open (\<lambda>_. 7) \<lparr>md_current = None, md_tmp = None, md_files = (\<lambda>_. None)\<rparr> =
    (Inr \<lparr>mm_current = 0, mm_journal = journal_of (\<lambda>_. 7) edit_encode [], mm_version = empty_version\<rparr>,
     \<lparr>md_current = Some (show_u64 0), md_tmp = None, md_files = [0 \<mapsto> j_file (journal_of (\<lambda>_. 7) edit_encode [])]\<rparr>)"
    by (simp add: manager_open_def with_codec_fresh [of "\<lambda>_. 7" edit_encode] write_current_def
        write_tmp_def rename_tmp_def sync_file_def)
qed (simp_all add: commit_def Let_def sync_file_def sample_manager_def sample_dir_def apply_edit_def empty_version_def)

theorem manifest_recovers_witness:
  "manager_open (\<lambda>_. 7) sample_dir = (Inr sample_manager, sample_dir) \<and>
    (\<exists>mm'. fst (manager_open (\<lambda>_. 7) (sample_dir\<lparr>md_files := (md_files sample_dir)(mm_current sample_manager \<mapsto>
        j_file (mm_journal sample_manager) @ take 9 (write_frame (\<lambda>_. 7) (edit_encode [AddRun sample_run])))\<rparr>)) = Inr mm' \<and>
      mm_version mm' = mm_version sample_manager)"
  by (rule manifest_recovers [OF sample_mm_reach sample_edit_ok(1)])
    (simp add: edit_encode_def sample_run_def)

text \<open>C26. \<open>checkpoint\<close> is crash safe: when it ends, the version is unchanged and the directory
  opens to it; and at every point in between, with the new file partly written, the
  pointer not yet or already flipped, opening the directory gives the same version.\<close>

theorem checkpoint_crash_safe:
  assumes "mm_reach crc mm d" "edit_ok (to_snapshot (mm_version mm))" "mm_current mm < - 1"
    and "checkpoint crc mm d = (r, mm', d')"
  shows "r = Inr () \<and> mm_version mm' = mm_version mm \<and> manager_open crc d' = (Inr mm', d') \<and>
    (\<forall>dc. checkpoint_crash crc mm d dc \<longrightarrow>
      (\<exists>mc. manager_open crc dc = (Inr mc, dc) \<and> mm_version mc = mm_version mm))"
  using mm_checkpoint [OF mm_reach_inv [OF assms(1)] assms(2-4)] mm_reopen [of crc mm' d']
    checkpoint_crash_open [OF mm_reach_inv [OF assms(1)] assms(2,3)]
  by blast

theorem checkpoint_crash_safe_witness:
  "\<exists>r mm' d'. checkpoint (\<lambda>_. 7) sample_manager sample_dir = (r, mm', d') \<and>
    r = Inr () \<and> mm_version mm' = mm_version sample_manager \<and> manager_open (\<lambda>_. 7) d' = (Inr mm', d') \<and>
    (\<forall>dc. checkpoint_crash (\<lambda>_. 7) sample_manager sample_dir dc \<longrightarrow>
      (\<exists>mc. manager_open (\<lambda>_. 7) dc = (Inr mc, dc) \<and> mm_version mc = mm_version sample_manager))"
proof -
  obtain r mm' d' where c: "checkpoint (\<lambda>_. 7) sample_manager sample_dir = (r, mm', d')"
    by (metis prod.exhaust)
  have "mm_current sample_manager < - 1" by (simp add: sample_manager_def word_gt_0)
  then show ?thesis
    using checkpoint_crash_safe [OF sample_mm_reach sample_edit_ok(2) _ c] c by blast
qed


text \<open>C36. \<open>checkpoint\<close> opens the next manifest file without truncating it. If an earlier
  checkpoint crashed inside its snapshot record and that torn record does not verify
  against its checksum, the next checkpoint succeeds, flips \<^verbatim>\<open>CURRENT\<close> and drops the old
  manifest, but its own snapshot lies behind the torn record: opening the directory
  then gives the empty version, and every run is lost.\<close>

theorem checkpoint_after_torn_checkpoint_loses_runs:
  assumes "read_frame crc (header_bytes @ take k (write_frame crc (edit_encode (to_snapshot (mm_version mm)))) @
      write_frame crc (edit_encode (to_snapshot (mm_version mm)))) 6 = None"
  shows "\<exists>mm' d' mm2 d2.
    checkpoint crc mm (d\<lparr>md_files := (md_files d)(mm_current mm + 1 \<mapsto>
      header_bytes @ take k (write_frame crc (edit_encode (to_snapshot (mm_version mm)))))\<rparr>) = (Inr (), mm', d') \<and>
    mm_version mm' = mm_version mm \<and>
    manager_open crc d' = (Inr mm2, d2) \<and> mm_version mm2 = empty_version"
proof -
  let ?torn = "take k (write_frame crc (edit_encode (to_snapshot (mm_version mm))))"
  let ?new = "write_frame crc (edit_encode (to_snapshot (mm_version mm)))"
  let ?n = "mm_current mm + 1"
  let ?d = "d\<lparr>md_files := (md_files d)(?n \<mapsto> header_bytes @ ?torn)\<rparr>"
  let ?j = "\<lparr>j_file = header_bytes @ ?torn @ ?new, j_pos = length (header_bytes @ ?torn @ ?new)\<rparr>"
  have ne: "?n \<noteq> mm_current mm" by simp
  have j: "with_codec (Some (header_bytes @ ?torn)) =
      (Inr \<lparr>j_file = header_bytes @ ?torn, j_pos = length (header_bytes @ ?torn)\<rparr> :: lsm_msg journal_error + journal)"
    "with_codec (Some (header_bytes @ ?torn @ ?new)) = (Inr ?j :: lsm_msg journal_error + journal)"
    by (rule with_codec_existing)+
  have "append_rec crc edit_encode (to_snapshot (mm_version mm))
      \<lparr>j_file = header_bytes @ ?torn, j_pos = length (header_bytes @ ?torn)\<rparr> = ?j"
    by (simp add: append_rec_def write_all_at_end)
  then have c: "checkpoint crc mm ?d = (Inr (), mm\<lparr>mm_current := ?n, mm_journal := ?j\<rparr>,
      ?d\<lparr>md_files := (md_files d)(?n \<mapsto> j_file ?j, mm_current mm := None),
         md_current := Some (show_u64 ?n), md_tmp := None\<rparr>)" (is "_ = (_, ?mm', ?d')")
    using ne j(1) by (simp add: checkpoint_def Let_def sync_file_def write_current_def write_tmp_def
        rename_tmp_def fun_upd_twist)
  have "replay crc edit_decode ?j = map Inr []"
    by (rule mj.replay_stops [where tail = "?torn @ ?new"]) (use assms in auto)
  then have "fst (manager_open crc ?d') = Inr \<lparr>mm_current = ?n, mm_journal = ?j, mm_version = empty_version\<rparr>"
    using ne j(2) by (simp add: manager_open_def)
  then obtain d2 where "manager_open crc ?d' = (Inr \<lparr>mm_current = ?n, mm_journal = ?j, mm_version = empty_version\<rparr>, d2)"
    by (metis fst_conv surj_pair)
  then show ?thesis using c by fastforce
qed

text \<open>A checksum that distinguishes the bytes at hand.\<close>

definition sum_crc :: "bytes \<Rightarrow> u32" where
  "sum_crc bs = foldl (\<lambda>a b. a * 31 + ucast b + 1) 0 bs"


theorem checkpoint_after_torn_checkpoint_loses_runs_witness:
  "\<exists>mm' d' mm2 d2.
    checkpoint sum_crc sample_manager (sample_dir\<lparr>md_files := (md_files sample_dir)(mm_current sample_manager + 1 \<mapsto>
      header_bytes @ take 10 (write_frame sum_crc (edit_encode (to_snapshot (mm_version sample_manager)))))\<rparr>) =
      (Inr (), mm', d') \<and>
    mm_version mm' = mm_version sample_manager \<and>
    manager_open sum_crc d' = (Inr mm2, d2) \<and> mm_version mm2 = empty_version"
proof -
  have "read_frame sum_crc (header_bytes @
      take 10 (write_frame sum_crc (edit_encode (to_snapshot (mm_version sample_manager)))) @
      write_frame sum_crc (edit_encode (to_snapshot (mm_version sample_manager)))) 6 = None"
    by code_simp
  then show ?thesis by (rule checkpoint_after_torn_checkpoint_loses_runs)
qed

text \<open>C29. The sweep of \<open>garbage_collect\<close>: it deletes exactly the files below the id watermark
  that no run references. A file of a live run, a file at or above the watermark
  (output of an operation that has not committed), and a file whose name is not an
  SSTable's keep their contents; a dead file below the watermark is gone.\<close>

theorem garbage_collect_sweep:
  assumes "garbage_collect mm (Some files) = (removed, Some files')"
  shows "(i \<in> set (live_files (mm_version mm)) \<or> v_next_sst_id (mm_version mm) \<le> sst_id i \<longrightarrow>
      map_of files' (sst_name i) = map_of files (sst_name i)) \<and>
    (i \<notin> set (live_files (mm_version mm)) \<and> sst_id i < v_next_sst_id (mm_version mm) \<longrightarrow>
      map_of files' (sst_name i) = None) \<and>
    (parse_sst_id name = None \<longrightarrow> map_of files' name = map_of files name) \<and>
    (i \<in> set removed \<longrightarrow> i \<notin> set (live_files (mm_version mm)) \<and> sst_id i < v_next_sst_id (mm_version mm))"
proof -
  let ?c = "collectable (mm_version mm)"
  have f: "files' = filter (\<lambda>(n, _). \<not> ?c n) files"
    and r: "removed = List.map_filter (\<lambda>(n, _). if ?c n then parse_sst_id n else None) files"
    using assms by (auto simp: garbage_collect_def)
  have m: "map_of files' n = (if ?c n then None else map_of files n)" for n
    unfolding f by (induction files) auto
  have "i \<in> set removed \<Longrightarrow> \<exists>n. ?c n \<and> parse_sst_id n = Some i"
    by (auto simp: r map_filter_def split: if_splits)
  then show ?thesis
    by (auto simp: m collectable_def not_le split: option.splits)
qed

theorem garbage_collect_sweep_witness:
  "let mm = sample_manager\<lparr>mm_version := \<lparr>v_runs = [sample_run], v_next_sst_id = 3, v_last_seq = 0\<rparr>\<rparr>;
      files = [(''1.sst'', [1]), (''2.sst'', [2]), (''5.sst'', [3]), (''x.tmp'', [4])] in
   fst (garbage_collect mm (Some files)) = [SsTableId 2] \<and>
   (\<exists>files'. snd (garbage_collect mm (Some files)) = Some files' \<and>
     (SsTableId 1 \<in> set (live_files (mm_version mm)) \<or> v_next_sst_id (mm_version mm) \<le> sst_id (SsTableId 1) \<longrightarrow>
      map_of files' (sst_name (SsTableId 1)) = map_of files (sst_name (SsTableId 1))))"
proof -
  let ?mm = "sample_manager\<lparr>mm_version := \<lparr>v_runs = [sample_run], v_next_sst_id = 3, v_last_seq = 0\<rparr>\<rparr>"
  let ?files = "[(''1.sst'', [1]), (''2.sst'', [2]), (''5.sst'', [3]), (''x.tmp'', [4])]"
  obtain rm files' where g: "garbage_collect ?mm (Some ?files) = (rm, Some files')"
    by (simp add: garbage_collect_def)
  have "fst (garbage_collect ?mm (Some ?files)) = [SsTableId 2]" by code_simp
  then show ?thesis using g garbage_collect_sweep [OF g, of "SsTableId 1"] by (simp add: Let_def)
qed



end
