(* ===== verification/Sst_Header.thy ===== *)
theory Sst_Header
  imports Manifest
begin

text \<open>
  Bloom filters (\<^verbatim>\<open>src/crates/lsm/src/storage/bloom.rs\<close>), page identities
  (\<^verbatim>\<open>storage/page.rs\<close>) and the SSTable header with its codec (\<^verbatim>\<open>storage/header.rs\<close>).

  The crate \<open>fastbloom\<close> is a parameter: the record \<open>fastbloom\<close> holds its three
  operations, on a filter given by its bit blocks and hash count, which is the
  state the header stores (the seed is fixed). What the code relies on is
  \<open>no_false_negatives\<close>, the documented guarantee of the crate.
\<close>

section \<open>Definitions\<close>

subsection \<open>Bloom filters\<close>

record bloom_filter =
  bf_blocks :: "u64 list"
  bf_num_hashes :: u32

record fastbloom =
  fb_with_num_bits :: "nat \<Rightarrow> nat \<Rightarrow> bloom_filter"
  fb_insert :: "bytes \<Rightarrow> bloom_filter \<Rightarrow> bloom_filter"
  fb_contains :: "bytes \<Rightarrow> bloom_filter \<Rightarrow> bool"

definition bloom_build :: "fastbloom \<Rightarrow> bloom_config \<Rightarrow> nat \<Rightarrow> bytes list \<Rightarrow> bloom_filter" where
  "bloom_build fb config n_keys keys =
    (let bits = max (unat (bits_per_key config) * n_keys) 1;
         inner = fb_with_num_bits fb bits (max n_keys 1) in
     fold (fb_insert fb) keys inner)"

definition bloom_contains :: "fastbloom \<Rightarrow> bloom_filter \<Rightarrow> bytes \<Rightarrow> bool" where
  "bloom_contains fb b key = fb_contains fb key b"

definition from_blocks :: "u64 list \<Rightarrow> u32 \<Rightarrow> bloom_filter" where
  "from_blocks blocks num_hashes = \<lparr>bf_blocks = blocks, bf_num_hashes = num_hashes\<rparr>"

definition no_false_negatives :: "fastbloom \<Rightarrow> bool" where
  "no_false_negatives fb \<longleftrightarrow> (\<forall>bits n keys k. k \<in> set keys \<longrightarrow>
    fb_contains fb k (fold (fb_insert fb) keys (fb_with_num_bits fb bits n)))"

subsection \<open>Pages\<close>

text \<open>A loaded page is its bytes.\<close>

datatype page_id = PageId (pg_table: sstable_id) (pg_offset: u64)

datatype header_id = RootId sstable_id | ChildId sstable_id u64

subsection \<open>Headers\<close>

definition SST_MAGIC :: u32 where "SST_MAGIC = 0x53535431"
definition SST_VERSION :: u16 where "SST_VERSION = 2"
definition ROLE_ROOT :: u8 where "ROLE_ROOT = 0"
definition ROLE_CHILD :: u8 where "ROLE_CHILD = 1"
definition INDEX_INLINE :: u8 where "INDEX_INLINE = 0"
definition INDEX_SHARDED :: u8 where "INDEX_SHARDED = 1"

record block_meta =
  min_key :: bytes
  max_key :: bytes
  bm_offset :: u64
  bm_len :: u32

datatype index = Inline "block_meta list" | Sharded "block_meta list"

datatype header =
    Root (h_sst_id: sstable_id) (h_range: key_range) (h_bloom: bloom_filter) (h_size_bytes: u64) (h_index: index)
  | Child (h_sst_id: sstable_id) (h_blocks: "block_meta list")

definition put_meta :: "block_meta \<Rightarrow> bytes" where
  "put_meta m = put_bytes (min_key m) @ put_bytes (max_key m) @ to_be 8 (bm_offset m) @ to_be 4 (bm_len m)"

definition put_metas :: "block_meta list \<Rightarrow> bytes" where
  "put_metas ms = to_be 4 (word_of_nat (length ms) :: u32) @ concat (map put_meta ms)"

definition get_meta :: "block_meta decoder" where
  "get_meta bs =
    res_bind (get_bytes bs) (\<lambda>(mn, bs1).
    res_bind (get_bytes bs1) (\<lambda>(mx, bs2).
    res_bind (get_u64 bs2) (\<lambda>(off, bs3).
    res_bind (get_u32 bs3) (\<lambda>(len, bs4).
      Inr (\<lparr>min_key = mn, max_key = mx, bm_offset = off, bm_len = len\<rparr>, bs4)))))"

definition get_metas :: "block_meta list decoder" where
  "get_metas bs = res_bind (get_u32 bs) (\<lambda>(count, bs1). decode_n (unat count) get_meta bs1)"

definition encode_bloom :: "bloom_filter \<Rightarrow> bytes" where
  "encode_bloom b =
    to_be 4 (bf_num_hashes b) @ to_be 4 (word_of_nat (length (bf_blocks b)) :: u32) @
    concat (map (to_be 8) (bf_blocks b))"

definition decode_bloom :: "bloom_filter decoder" where
  "decode_bloom bs =
    res_bind (get_u32 bs) (\<lambda>(num_hashes, bs1).
    res_bind (get_u32 bs1) (\<lambda>(count, bs2).
    res_bind (decode_n (unat count) get_u64 bs2) (\<lambda>(blocks, bs3).
      Inr (from_blocks blocks num_hashes, bs3))))"

fun header_encode :: "header \<Rightarrow> bytes" where
  "header_encode (Root i rng bloom size_bytes index) =
    to_be 4 SST_MAGIC @ to_be 2 SST_VERSION @ [ROLE_ROOT] @ to_be 8 (sst_id i) @
    put_bytes (kr_min rng) @ put_bytes (kr_max rng) @ to_be 8 size_bytes @ encode_bloom bloom @
    (case index of
       Inline blocks \<Rightarrow> [INDEX_INLINE] @ put_metas blocks
     | Sharded chunks \<Rightarrow> [INDEX_SHARDED] @ put_metas chunks)"
| "header_encode (Child i blocks) =
    to_be 4 SST_MAGIC @ to_be 2 SST_VERSION @ [ROLE_CHILD] @ to_be 8 (sst_id i) @ put_metas blocks"

definition index_decode :: "index decoder" where
  "index_decode bs =
    res_bind (get_u8 bs) (\<lambda>(tag, bs1).
      if tag = INDEX_INLINE then res_bind (get_metas bs1) (\<lambda>(ms, bs2). Inr (Inline ms, bs2))
      else if tag = INDEX_SHARDED then res_bind (get_metas bs1) (\<lambda>(ms, bs2). Inr (Sharded ms, bs2))
      else Inl (UnknownOpType tag))"

definition header_decode :: "header decoder" where
  "header_decode bs =
    res_bind (get_u32 bs) (\<lambda>(magic, bs1).
    if magic \<noteq> SST_MAGIC then Inl (BadMagic SST_MAGIC magic)
    else res_bind (get_u16 bs1) (\<lambda>(version, bs2).
    if version \<noteq> SST_VERSION then Inl (UnsupportedVersion version)
    else res_bind (get_u8 bs2) (\<lambda>(role, bs3).
    res_bind (get_u64 bs3) (\<lambda>(i, bs4).
      if role = ROLE_ROOT then
        res_bind (get_bytes bs4) (\<lambda>(mn, bs5).
        res_bind (get_bytes bs5) (\<lambda>(mx, bs6).
        res_bind (get_u64 bs6) (\<lambda>(size_bytes, bs7).
        res_bind (decode_bloom bs7) (\<lambda>(bloom, bs8).
        res_bind (index_decode bs8) (\<lambda>(index, bs9).
          Inr (Root (SsTableId i) \<lparr>kr_min = mn, kr_max = mx\<rparr> bloom size_bytes index, bs9))))))
      else if role = ROLE_CHILD then
        res_bind (get_metas bs4) (\<lambda>(blocks, bs5). Inr (Child (SsTableId i) blocks, bs5))
      else Inl (UnknownOpType role)))))"

section \<open>Round trips\<close>

definition meta_ok :: "block_meta \<Rightarrow> bool" where
  "meta_ok m \<longleftrightarrow> length (min_key m) < 2 ^ 32 \<and> length (max_key m) < 2 ^ 32"

definition metas_ok :: "block_meta list \<Rightarrow> bool" where
  "metas_ok ms \<longleftrightarrow> length ms < 2 ^ 32 \<and> list_all meta_ok ms"

interpretation meta_codec: decoder_law put_meta get_meta meta_ok
  by unfold_locales (simp add: put_meta_def get_meta_def meta_ok_def)

lemma get_put_metas [simp]: "metas_ok ms \<Longrightarrow> get_metas (put_metas ms @ rest) = Inr (ms, rest)"
  using meta_codec.decode_n_concat [of ms rest]
  by (simp add: metas_ok_def put_metas_def get_metas_def list_all_iff)

definition bloom_ok :: "bloom_filter \<Rightarrow> bool" where
  "bloom_ok b \<longleftrightarrow> length (bf_blocks b) < 2 ^ 32"

lemma decode_encode_bloom [simp]: "bloom_ok b \<Longrightarrow> decode_bloom (encode_bloom b @ rest) = Inr (b, rest)"
  using u64_codec.decode_n_concat [of "bf_blocks b" rest]
  by (simp add: bloom_ok_def encode_bloom_def decode_bloom_def from_blocks_def)

fun header_ok :: "header \<Rightarrow> bool" where
  "header_ok (Root i rng bloom size_bytes index) \<longleftrightarrow>
    length (kr_min rng) < 2 ^ 32 \<and> length (kr_max rng) < 2 ^ 32 \<and> bloom_ok bloom \<and>
    (case index of Inline ms \<Rightarrow> metas_ok ms | Sharded ms \<Rightarrow> metas_ok ms)"
| "header_ok (Child i blocks) \<longleftrightarrow> metas_ok blocks"

lemma index_decode_encode:
  "metas_ok ms \<Longrightarrow> index_decode (INDEX_INLINE # put_metas ms @ rest) = Inr (Inline ms, rest)"
  "metas_ok ms \<Longrightarrow> index_decode (INDEX_SHARDED # put_metas ms @ rest) = Inr (Sharded ms, rest)"
  by (simp_all add: index_decode_def INDEX_INLINE_def INDEX_SHARDED_def)

lemma header_decode_encode: "header_ok h \<Longrightarrow> header_decode (header_encode h @ rest) = Inr (h, rest)"
proof (cases h)
  case (Root i rng bloom size_bytes index)
  assume "header_ok h"
  then show ?thesis
    by (cases index) (simp_all add: Root header_decode_def ROLE_ROOT_def index_decode_encode)
next
  case (Child i blocks)
  assume "header_ok h"
  then show ?thesis by (simp add: Child header_decode_def ROLE_ROOT_def ROLE_CHILD_def)
qed

interpretation header_codec: decoder_law header_encode header_decode header_ok
  by unfold_locales (rule header_decode_encode)

lemma length_put_metas_ge: "length ms \<le> length (put_metas ms) \<and> (\<forall>m\<in>set ms. length (min_key m) \<le> length (put_metas ms) \<and> length (max_key m) \<le> length (put_metas ms))"
proof -
  have "length ms \<le> length (concat (map put_meta ms)) \<and>
    (\<forall>m\<in>set ms. length (min_key m) \<le> length (concat (map put_meta ms)) \<and> length (max_key m) \<le> length (concat (map put_meta ms)))"
    by (induction ms) (auto simp: put_meta_def)
  then show ?thesis by (auto simp: put_metas_def)
qed

lemma metas_ok_of_length: "length (put_metas ms) < 2 ^ 32 \<Longrightarrow> metas_ok ms"
  using length_put_metas_ge [of ms] by (auto simp: metas_ok_def meta_ok_def list_all_iff)

text \<open>A header shorter than 4 GiB has no field that overflows its length prefix.\<close>

lemma header_ok_of_length: "length (header_encode h) < 2 ^ 32 \<Longrightarrow> header_ok h"
proof (cases h)
  case (Root i rng bloom size_bytes index)
  assume l: "length (header_encode h) < 2 ^ 32"
  have "length xs \<le> length (concat (map (to_be 8) xs))" for xs :: "u64 list"
    by (induction xs) auto
  from this [of "bf_blocks bloom"] have "length (bf_blocks bloom) \<le> length (encode_bloom bloom)"
    by (simp add: encode_bloom_def)
  then show ?thesis
    using l metas_ok_of_length by (cases index) (auto simp: Root bloom_ok_def)
next
  case (Child i blocks)
  assume "length (header_encode h) < 2 ^ 32"
  then show ?thesis using metas_ok_of_length by (auto simp: Child)
qed

end
