(* ===== verification/Policies.thy ===== *)
theory Policies
  imports Main "HOL-Library.AList"
begin

text \<open>
  The eviction policies of \<^verbatim>\<open>src/crates/filesystem/src/cache/policies.rs\<close>: LRU, LRU-K,
  CLOCK and LFU, and their trait as the interface \<open>eviction_policy\<close>. A \<open>HashMap\<close> is an
  association list updated by key; its iteration order does not matter because
  the ranks are distinct. The clocks count accesses and are natural numbers: the
  64-bit counters of the code would need \<open>2^64\<close> accesses to wrap. \<open>Clock\<close> rotates its
  ring inside \<open>evict_candidate\<close>, so every policy returns its state there.
\<close>

section \<open>Definitions\<close>

text \<open>\<open>Iterator::min_by_key\<close>: the first element of minimal key.\<close>

fun min_by_key :: "('a \<Rightarrow> 'b::linorder) \<Rightarrow> 'a list \<Rightarrow> 'a option" where
  "min_by_key f [] = None"
| "min_by_key f (x # xs) = Some (foldl (\<lambda>a b. if f b < f a then b else a) x xs)"

subsection \<open>LRU\<close>

record 'k lru =
  lru_clock :: nat
  lru_last :: "('k \<times> nat) list"

definition lru_new :: "'k lru" where
  "lru_new = \<lparr>lru_clock = 0, lru_last = []\<rparr>"

definition lru_record_access :: "'k \<Rightarrow> 'k lru \<Rightarrow> 'k lru" where
  "lru_record_access i p =
    p\<lparr>lru_clock := lru_clock p + 1, lru_last := AList.update i (lru_clock p + 1) (lru_last p)\<rparr>"

definition lru_evict_candidate :: "('k \<Rightarrow> bool) \<Rightarrow> 'k lru \<Rightarrow> 'k option \<times> 'k lru" where
  "lru_evict_candidate evictable p =
    (map_option fst (min_by_key snd (filter (\<lambda>(i, _). evictable i) (lru_last p))), p)"

definition lru_remove :: "'k \<Rightarrow> 'k lru \<Rightarrow> 'k lru" where
  "lru_remove i p = p\<lparr>lru_last := AList.delete i (lru_last p)\<rparr>"

subsection \<open>LRU-K\<close>

record 'k lruk =
  lk_k :: nat
  lk_clock :: nat
  lk_hist :: "('k \<times> nat list) list"

text \<open>\<open>assert!(k >= 1)\<close>: the constructor panics on zero.\<close>

definition lruk_new :: "nat \<Rightarrow> 'k lruk option" where
  "lruk_new k = (if k \<ge> 1 then Some \<lparr>lk_k = k, lk_clock = 0, lk_hist = []\<rparr> else None)"

definition lruk_record_access :: "'k \<Rightarrow> 'k lruk \<Rightarrow> 'k lruk" where
  "lruk_record_access i p =
    (let clock = lk_clock p + 1;
         ticks = (case map_of (lk_hist p) i of None \<Rightarrow> [] | Some ts \<Rightarrow> ts) in
     p\<lparr>lk_clock := clock, lk_hist := AList.update i (take (lk_k p) (clock # ticks)) (lk_hist p)\<rparr>)"

text \<open>The K-th latest tick, zero when there are fewer than K accesses.\<close>

definition lruk_kth :: "nat \<Rightarrow> nat list \<Rightarrow> nat" where
  "lruk_kth k ticks = (if length ticks < k then 0 else ticks ! (k - 1))"

text \<open>Minimum by a pair of keys in lexicographic order.\<close>

fun min_by_key2 :: "('a \<Rightarrow> nat \<times> nat) \<Rightarrow> 'a list \<Rightarrow> 'a option" where
  "min_by_key2 f [] = None"
| "min_by_key2 f (x # xs) =
    Some (foldl (\<lambda>a b. if fst (f b) < fst (f a) \<or> fst (f b) = fst (f a) \<and> snd (f b) < snd (f a)
                       then b else a) x xs)"

definition lruk_evict_candidate :: "('k \<Rightarrow> bool) \<Rightarrow> 'k lruk \<Rightarrow> 'k option \<times> 'k lruk" where
  "lruk_evict_candidate evictable p =
    (map_option fst (min_by_key2 (\<lambda>(_, ticks). (lruk_kth (lk_k p) ticks, hd ticks))
      (filter (\<lambda>(i, _). evictable i) (lk_hist p))), p)"

definition lruk_remove :: "'k \<Rightarrow> 'k lruk \<Rightarrow> 'k lruk" where
  "lruk_remove i p = p\<lparr>lk_hist := AList.delete i (lk_hist p)\<rparr>"

subsection \<open>CLOCK\<close>

record 'k clock =
  ck_ring :: "'k list"
  ck_referenced :: "('k \<times> bool) list"

definition clock_new :: "'k clock" where
  "clock_new = \<lparr>ck_ring = [], ck_referenced = []\<rparr>"

definition clock_record_access :: "'k \<Rightarrow> 'k clock \<Rightarrow> 'k clock" where
  "clock_record_access i p =
    (let p1 = (if map_of (ck_referenced p) i = None then p\<lparr>ck_ring := ck_ring p @ [i]\<rparr> else p) in
     p1\<lparr>ck_referenced := AList.update i True (ck_referenced p1)\<rparr>)"

fun clock_sweep ::
  "nat \<Rightarrow> ('k \<Rightarrow> bool) \<Rightarrow> 'k list \<Rightarrow> ('k \<times> bool) list \<Rightarrow> 'k option \<times> 'k list \<times> ('k \<times> bool) list" where
  "clock_sweep 0 evictable ring refd = (None, ring, refd)"
| "clock_sweep (Suc n) evictable [] refd = (None, [], refd)"
| "clock_sweep (Suc n) evictable (i # ring) refd =
    (if \<not> evictable i then clock_sweep n evictable (ring @ [i]) refd
     else if map_of refd i = Some True
       then clock_sweep n evictable (ring @ [i]) (AList.update i False refd)
     else (Some i, ring @ [i], refd))"

definition clock_evict_candidate :: "('k \<Rightarrow> bool) \<Rightarrow> 'k clock \<Rightarrow> 'k option \<times> 'k clock" where
  "clock_evict_candidate evictable p =
    (let (r, ring, refd) = clock_sweep (length (ck_ring p) * 2 + 1) evictable (ck_ring p) (ck_referenced p) in
     (r, p\<lparr>ck_ring := ring, ck_referenced := refd\<rparr>))"

definition clock_remove :: "'k \<Rightarrow> 'k clock \<Rightarrow> 'k clock" where
  "clock_remove i p =
    p\<lparr>ck_referenced := AList.delete i (ck_referenced p), ck_ring := filter (\<lambda>x. x \<noteq> i) (ck_ring p)\<rparr>"

subsection \<open>LFU\<close>

record 'k lfu =
  lf_clock :: nat
  lf_freq :: "('k \<times> (nat \<times> nat)) list"

definition lfu_new :: "'k lfu" where
  "lfu_new = \<lparr>lf_clock = 0, lf_freq = []\<rparr>"

definition lfu_record_access :: "'k \<Rightarrow> 'k lfu \<Rightarrow> 'k lfu" where
  "lfu_record_access i p =
    (let clock = lf_clock p + 1;
         cnt = (case map_of (lf_freq p) i of None \<Rightarrow> 0 | Some e \<Rightarrow> fst e) in
     p\<lparr>lf_clock := clock, lf_freq := AList.update i (cnt + 1, clock) (lf_freq p)\<rparr>)"

definition lfu_evict_candidate :: "('k \<Rightarrow> bool) \<Rightarrow> 'k lfu \<Rightarrow> 'k option \<times> 'k lfu" where
  "lfu_evict_candidate evictable p =
    (map_option fst (min_by_key2 snd (filter (\<lambda>(i, _). evictable i) (lf_freq p))), p)"

definition lfu_remove :: "'k \<Rightarrow> 'k lfu \<Rightarrow> 'k lfu" where
  "lfu_remove i p = p\<lparr>lf_freq := AList.delete i (lf_freq p)\<rparr>"

section \<open>Minima\<close>

lemma foldl_pick: "foldl (\<lambda>a b. if c a b then b else a) x xs \<in> insert x (set xs)"
  by (induction xs arbitrary: x) auto

lemma min_by_key_None [simp]: "min_by_key f xs = None \<longleftrightarrow> xs = []"
  by (cases xs) auto

lemma min_by_key2_None [simp]: "min_by_key2 f xs = None \<longleftrightarrow> xs = []"
  by (cases xs) auto

lemma min_by_key_in: "min_by_key f xs = Some x \<Longrightarrow> x \<in> set xs"
  using foldl_pick by (cases xs) fastforce+

lemma min_by_key2_in: "min_by_key2 f xs = Some x \<Longrightarrow> x \<in> set xs"
  using foldl_pick by (cases xs) fastforce+

lemma foldl_min:
  "\<forall>y\<in>insert x (set xs). f (foldl (\<lambda>a b. if f b < f a then b else a) x xs) \<le> (f y :: 'b::linorder)"
proof (induction xs arbitrary: x)
  case (Cons z xs)
  show ?case
    using Cons.IH [of x] Cons.IH [of z]
    by (cases "f z < f x") (auto simp: not_less intro: order_trans dest: order_less_imp_le)
qed simp

lemma min_by_key_least: "min_by_key f xs = Some x \<Longrightarrow> y \<in> set xs \<Longrightarrow> f x \<le> f y"
  using foldl_min [of _ _ f] by (cases xs) auto

section \<open>The policy interface\<close>

text \<open>
  \<open>tracked\<close> are the ids the policy knows. A victim is a tracked evictable id, and
  there is one whenever some tracked id is evictable.
\<close>

locale eviction_policy =
  fixes record_access :: "'k \<Rightarrow> 'p \<Rightarrow> 'p"
    and evict_candidate :: "('k \<Rightarrow> bool) \<Rightarrow> 'p \<Rightarrow> 'k option \<times> 'p"
    and remove :: "'k \<Rightarrow> 'p \<Rightarrow> 'p"
    and tracked :: "'p \<Rightarrow> 'k set"
    and inv :: "'p \<Rightarrow> bool"
  assumes tracked_access: "inv p \<Longrightarrow> inv (record_access i p) \<and> tracked (record_access i p) = insert i (tracked p)"
    and tracked_remove: "inv p \<Longrightarrow> inv (remove i p) \<and> tracked (remove i p) = tracked p - {i}"
    and candidate: "inv p \<Longrightarrow> evict_candidate ev p = (r, p') \<Longrightarrow>
      inv p' \<and> tracked p' = tracked p \<and>
      (case r of Some i \<Rightarrow> i \<in> tracked p \<and> ev i | None \<Rightarrow> \<forall>i\<in>tracked p. \<not> ev i)"
begin

lemma candidate_Some: "inv p \<Longrightarrow> evict_candidate ev p = (Some i, p') \<Longrightarrow> i \<in> tracked p \<and> ev i"
  using candidate by fastforce

text \<open>Evicting a victim and dropping its history leaves one tracked id fewer.\<close>

lemma evict_shrinks:
  assumes "inv p" "evict_candidate ev p = (Some i, p')"
  shows "inv (remove i p') \<and> tracked (remove i p') = tracked p - {i} \<and> i \<in> tracked p"
  using candidate [OF assms] tracked_remove [of p' i] by auto

end

lemma dom_update_fst: "fst ` set (AList.update i v xs) = insert i (fst ` set xs)"
proof -
  have "set (map fst (AList.update i v xs)) = insert i (set (map fst xs))"
    by (simp only: update_keys) auto
  then show ?thesis by simp
qed

lemma dom_delete_fst: "fst ` set (AList.delete i xs) = fst ` set xs - {i}"
  using delete_keys [of i xs] by (metis set_map set_removeAll)

lemma candidate_alist:
  assumes "\<And>ys. pick ys = None \<longleftrightarrow> ys = []" "\<And>ys y. pick ys = Some y \<Longrightarrow> y \<in> set ys"
  shows "case map_option fst (pick (filter (\<lambda>(i, _). ev i) xs)) of
    Some i \<Rightarrow> i \<in> fst ` set xs \<and> ev i | None \<Rightarrow> \<forall>i\<in>fst ` set xs. \<not> ev i"
proof (cases "pick (filter (\<lambda>(i, _). ev i) xs)")
  case None
  then have "filter (\<lambda>(i, _). ev i) xs = []" using assms(1) by blast
  then show ?thesis using None by (auto simp: filter_empty_conv)
next
  case (Some y)
  then have "y \<in> set (filter (\<lambda>(i, _). ev i) xs)" by (rule assms(2))
  then have "fst y \<in> fst ` set xs \<and> ev (fst y)" by (auto simp: case_prod_beta intro: imageI)
  then show ?thesis using Some by simp
qed

lemma candidate_min:
  "case map_option fst (min_by_key f (filter (\<lambda>(i, _). ev i) xs)) of
    Some i \<Rightarrow> i \<in> fst ` set xs \<and> ev i | None \<Rightarrow> \<forall>i\<in>fst ` set xs. \<not> ev i"
  by (rule candidate_alist) (simp, rule min_by_key_in)

lemma candidate_min2:
  "case map_option fst (min_by_key2 f (filter (\<lambda>(i, _). ev i) xs)) of
    Some i \<Rightarrow> i \<in> fst ` set xs \<and> ev i | None \<Rightarrow> \<forall>i\<in>fst ` set xs. \<not> ev i"
  by (rule candidate_alist) (simp, rule min_by_key2_in)

interpretation lru: eviction_policy lru_record_access lru_evict_candidate lru_remove
  "\<lambda>p. fst ` set (lru_last p)" "\<lambda>_. True"
proof (unfold_locales, goal_cases)
  case (3 p ev r p')
  then show ?case
    using candidate_min [where f = snd and ev = ev and xs = "lru_last p"]
    unfolding lru_evict_candidate_def by blast
qed (simp_all add: lru_record_access_def lru_remove_def dom_update_fst dom_delete_fst)

interpretation lruk: eviction_policy lruk_record_access lruk_evict_candidate lruk_remove
  "\<lambda>p. fst ` set (lk_hist p)" "\<lambda>_. True"
proof (unfold_locales, goal_cases)
  case (3 p ev r p')
  then show ?case
    using candidate_min2 [where f = "\<lambda>(_, ticks). (lruk_kth (lk_k p) ticks, hd ticks)"
        and ev = ev and xs = "lk_hist p"]
    unfolding lruk_evict_candidate_def by blast
qed (simp_all add: lruk_record_access_def lruk_remove_def dom_update_fst dom_delete_fst Let_def)

interpretation lfu: eviction_policy lfu_record_access lfu_evict_candidate lfu_remove
  "\<lambda>p. fst ` set (lf_freq p)" "\<lambda>_. True"
proof (unfold_locales, goal_cases)
  case (3 p ev r p')
  then show ?case
    using candidate_min2 [where f = snd and ev = ev and xs = "lf_freq p"]
    unfolding lfu_evict_candidate_def by blast
qed (simp_all add: lfu_record_access_def lfu_remove_def dom_update_fst dom_delete_fst Let_def)

section \<open>CLOCK\<close>

definition clock_inv :: "'k clock \<Rightarrow> bool" where
  "clock_inv p \<longleftrightarrow> distinct (ck_ring p) \<and> set (ck_ring p) = fst ` set (ck_referenced p)"

lemma clock_sweep_ring:
  "clock_sweep n ev ring refd = (r, ring', refd') \<Longrightarrow> set ring \<subseteq> fst ` set refd \<Longrightarrow> distinct ring \<Longrightarrow>
    set ring' = set ring \<and> distinct ring' \<and> fst ` set refd' = fst ` set refd \<and>
    (\<forall>i. r = Some i \<longrightarrow> i \<in> set ring \<and> ev i)"
proof (induction n ev ring refd arbitrary: ring' refd' rule: clock_sweep.induct)
  case (3 n ev i ring refd)
  have sub: "set (ring @ [i]) \<subseteq> fst ` set refd" "set (ring @ [i]) \<subseteq> fst ` set (AList.update i False refd)"
    "fst ` set (AList.update i False refd) = fst ` set refd" "distinct (ring @ [i])"
    using 3(4,5) by (auto simp: dom_update_fst)
  consider "\<not> ev i" | "ev i" "map_of refd i = Some True" | "ev i" "map_of refd i \<noteq> Some True"
    by blast
  then show ?case
  proof cases
    case 1
    then show ?thesis using 3(1) [OF 1, of ring' refd'] 3(3) sub by simp
  next
    case 2
    then show ?thesis using 3(2) [of ring' refd'] 3(3) sub by simp
  next
    case 3
    then show ?thesis using \<open>clock_sweep (Suc n) ev (i # ring) refd = (r, ring', refd')\<close> sub by auto
  qed
qed auto

text \<open>
  Two sweeps suffice: an evictable id whose bit is clear is reached within its
  position, one whose bit is set within its position plus one turn of the ring.
\<close>

lemma clock_sweep_finds:
  assumes "distinct ring" "p < length ring" "ev (ring ! p)"
    and "n > p + (if map_of refd (ring ! p) = Some True then length ring else 0)"
  shows "\<exists>i ring' refd'. clock_sweep n ev ring refd = (Some i, ring', refd')"
  using assms
proof (induction n arbitrary: ring p refd)
  case (Suc n)
  obtain i rest where ring: "ring = i # rest" using Suc.prems(2) by (cases ring) auto
  have d: "distinct (rest @ [i])" using Suc.prems(1) ring by auto
  show ?case
  proof (cases "ev i \<and> map_of refd i \<noteq> Some True")
    case True
    then show ?thesis by (simp add: ring)
  next
    case False
    let ?refd = "if ev i then AList.update i False refd else refd"
    have step: "clock_sweep (Suc n) ev ring refd = clock_sweep n ev (rest @ [i]) ?refd"
      using False by (auto simp: ring)
    show ?thesis
    proof (cases p)
      case 0
      then have i: "ev i" "map_of refd i = Some True" using False Suc.prems(3) ring by auto
      have "\<exists>j ring' refd'. clock_sweep n ev (rest @ [i]) ?refd = (Some j, ring', refd')"
        by (rule Suc.IH [of _ "length rest"])
          (use i d Suc.prems(4) 0 ring in \<open>auto simp: nth_append update_conv'\<close>)
      then show ?thesis using step by simp
    next
      case (Suc q)
      then have q: "(rest @ [i]) ! q = ring ! p" "q < length rest" "ring ! p \<noteq> i"
        using Suc.prems(1,2) ring by (auto simp: nth_append)
      have m: "map_of ?refd (ring ! p) = map_of refd (ring ! p)"
        using q(3) by (auto simp: update_conv')
      have "\<exists>j ring' refd'. clock_sweep n ev (rest @ [i]) ?refd = (Some j, ring', refd')"
        by (rule Suc.IH [of _ q])
          (use d q m Suc.prems(3,4) Suc ring in \<open>auto split: if_splits\<close>)
      then show ?thesis using step by simp
    qed
  qed
qed simp

interpretation clk: eviction_policy clock_record_access clock_evict_candidate clock_remove
  "\<lambda>p. set (ck_ring p)" clock_inv
proof (unfold_locales, goal_cases)
  case (1 p i)
  then show ?case
    by (auto simp: clock_inv_def clock_record_access_def dom_update_fst Let_def map_of_eq_None_iff)
next
  case (2 p i)
  then show ?case by (auto simp: clock_inv_def clock_remove_def dom_delete_fst)
next
  case (3 p ev r p')
  obtain ring refd where s: "clock_sweep (length (ck_ring p) * 2 + 1) ev (ck_ring p) (ck_referenced p) = (r, ring, refd)"
      "p' = p\<lparr>ck_ring := ring, ck_referenced := refd\<rparr>"
    using 3(2) by (auto simp: clock_evict_candidate_def split: prod.splits)
  have r: "set ring = set (ck_ring p) \<and> distinct ring \<and> fst ` set refd = fst ` set (ck_referenced p) \<and>
      (\<forall>i. r = Some i \<longrightarrow> i \<in> set (ck_ring p) \<and> ev i)"
    using clock_sweep_ring [OF s(1)] 3(1) by (auto simp: clock_inv_def)
  moreover have "\<forall>i\<in>set (ck_ring p). \<not> ev i" if "r = None"
  proof (rule ccontr)
    assume "\<not> ?thesis"
    then obtain q where "q < length (ck_ring p)" "ev (ck_ring p ! q)" by (auto simp: in_set_conv_nth)
    then show False
      using clock_sweep_finds [of "ck_ring p" q ev "ck_referenced p" "length (ck_ring p) * 2 + 1"] s(1) that 3(1)
      by (cases "map_of (ck_referenced p) (ck_ring p ! q) = Some True") (simp_all add: clock_inv_def)
  qed
  ultimately show ?case using 3(1) s(2) by (auto simp: clock_inv_def split: option.splits)
qed


section \<open>Least recently used\<close>

text \<open>
  \<open>last_access i ks\<close> is the position of the latest access to \<open>i\<close> in a history,
  newest access last.
\<close>

fun last_access :: "'k \<Rightarrow> 'k list \<Rightarrow> nat" where
  "last_access i [] = 0"
| "last_access i (k # rev_ks) = (if i = k then Suc (length rev_ks) else last_access i rev_ks)"

text \<open>The policy after the accesses \<open>ks\<close>, latest first.\<close>

abbreviation lru_after :: "'k list \<Rightarrow> 'k lru" where
  "lru_after ks \<equiv> foldr lru_record_access ks lru_new"

lemma lru_access_fields:
  "lru_clock (lru_record_access i p) = Suc (lru_clock p)"
  "lru_last (lru_record_access i p) = AList.update i (Suc (lru_clock p)) (lru_last p)"
  by (simp_all add: lru_record_access_def)

lemma lru_after_inv:
  "lru_clock (lru_after ks) = length ks \<and> distinct (map fst (lru_last (lru_after ks))) \<and>
    (\<forall>i t. (i, t) \<in> set (lru_last (lru_after ks)) \<longleftrightarrow> i \<in> set ks \<and> t = last_access i ks)"
proof (induction ks)
  case (Cons k ks)
  have d: "distinct (map fst (lru_last (lru_after (k # ks))))"
    using Cons by (simp add: lru_access_fields distinct_update)
  have "map_of (lru_last (lru_after (k # ks))) i = Some t \<longleftrightarrow> i \<in> set (k # ks) \<and> t = last_access i (k # ks)" for i t
    using Cons map_of_eq_Some_iff [of "lru_last (lru_after ks)" i t]
    by (auto simp: lru_access_fields update_conv')
  then show ?case
    using d Cons map_of_eq_Some_iff [OF d] by (simp add: lru_access_fields)
qed (simp add: lru_new_def)

section \<open>Properties\<close>





end
