(* ===== verification/Memo_Cache.thy ===== *)
theory Memo_Cache
  imports Policies
begin

text \<open>
  The read-through memo cache of \<^verbatim>\<open>src/crates/filesystem/src/cache/memo.rs\<close> over the LRU
  policy it is used with. Entries are an association list with distinct keys.
  The loader of \<open>get_or_load\<close> is passed as the result it would return; it is looked
  at only on a miss. The lemmas show that the cache is transparent (it returns
  what the loader returns as long as the source does not change) and keeps its
  budget.
\<close>

section \<open>Definitions\<close>

datatype budget = UnboundedBudget | Entries nat | BudgetBytes nat

record ('k, 'v) cache =
  c_entries :: "('k \<times> 'v) list"
  c_policy :: "'k lru"
  c_bytes :: nat
  c_budget :: budget

definition cache_new :: "budget \<Rightarrow> ('k, 'v) cache" where
  "cache_new b = \<lparr>c_entries = [], c_policy = lru_new, c_bytes = 0, c_budget = b\<rparr>"

definition cache_len :: "('k, 'v) cache \<Rightarrow> nat" where
  "cache_len c = length (c_entries c)"

definition over_budget :: "('k, 'v) cache \<Rightarrow> bool" where
  "over_budget c =
    (case c_budget c of
       UnboundedBudget \<Rightarrow> False
     | Entries mx \<Rightarrow> cache_len c > mx
     | BudgetBytes mx \<Rightarrow> c_bytes c > mx)"

text \<open>One round of the eviction loop, given its victim.\<close>

definition evict_one :: "('v \<Rightarrow> nat) \<Rightarrow> 'k \<Rightarrow> ('k, 'v) cache \<Rightarrow> ('k, 'v) cache" where
  "evict_one weight key c =
    (case map_of (c_entries c) key of
       Some v \<Rightarrow> c\<lparr>c_entries := AList.delete key (c_entries c), c_bytes := c_bytes c - weight v,
                   c_policy := lru_remove key (c_policy c)\<rparr>
     | None \<Rightarrow> c\<lparr>c_policy := lru_remove key (c_policy c)\<rparr>)"

lemma lru_remove_length:
  "i \<in> fst ` set (lru_last p) \<Longrightarrow> length (lru_last (lru_remove i p)) < length (lru_last p)"
proof -
  assume "i \<in> fst ` set (lru_last p)"
  then have "length (removeAll i (map fst (lru_last p))) < length (map fst (lru_last p))"
    by (intro length_removeAll_less) simp
  then show ?thesis using delete_keys [of i "lru_last p"] by (metis length_map lru_remove_def lru.select_convs(2) lru.update_convs(2) lru.surjective)
qed

function evict_to_budget :: "('v \<Rightarrow> nat) \<Rightarrow> ('k, 'v) cache \<Rightarrow> ('k, 'v) cache" where
  "evict_to_budget weight c =
    (if over_budget c then
       (case lru_evict_candidate (\<lambda>_. True) (c_policy c) of
          (None, _) \<Rightarrow> c
        | (Some key, _) \<Rightarrow> evict_to_budget weight (evict_one weight key c))
     else c)"
  by pat_completeness auto
termination
proof (relation "measure (\<lambda>(_, c). length (lru_last (c_policy c)))", goal_cases)
  case (2 weight c r p key)
  then have "key \<in> fst ` set (lru_last (c_policy c))"
    by (metis lru.candidate_Some [OF TrueI])
  then show ?case by (auto simp: evict_one_def lru_remove_length split: option.splits)
qed simp

declare evict_to_budget.simps [simp del]

definition get_or_load :: "('v \<Rightarrow> nat) \<Rightarrow> 'k \<Rightarrow> 'e + 'v \<Rightarrow> ('k, 'v) cache \<Rightarrow> ('e + 'v) \<times> ('k, 'v) cache" where
  "get_or_load weight key load c =
    (case map_of (c_entries c) key of
       Some v \<Rightarrow> (Inr v, c\<lparr>c_policy := lru_record_access key (c_policy c)\<rparr>)
     | None \<Rightarrow>
         (case load of
            Inl e \<Rightarrow> (Inl e, c)
          | Inr v \<Rightarrow>
              (Inr v, evict_to_budget weight
                 (c\<lparr>c_bytes := c_bytes c + weight v, c_entries := AList.update key v (c_entries c),
                    c_policy := lru_record_access key (c_policy c)\<rparr>))))"

definition cache_get :: "'k \<Rightarrow> ('k, 'v) cache \<Rightarrow> 'v option \<times> ('k, 'v) cache" where
  "cache_get key c =
    (case map_of (c_entries c) key of
       Some v \<Rightarrow> (Some v, c\<lparr>c_policy := lru_record_access key (c_policy c)\<rparr>)
     | None \<Rightarrow> (None, c))"

definition cache_clear :: "('k, 'v) cache \<Rightarrow> ('k, 'v) cache" where
  "cache_clear c = c\<lparr>c_entries := [], c_bytes := 0\<rparr>"

section \<open>Transparency\<close>

text \<open>Every cached value satisfies \<open>ok\<close>.\<close>

definition coherent :: "('k \<Rightarrow> 'v \<Rightarrow> bool) \<Rightarrow> ('k, 'v) cache \<Rightarrow> bool" where
  "coherent ok c \<longleftrightarrow> (\<forall>k v. map_of (c_entries c) k = Some v \<longrightarrow> ok k v)"

lemma coherent_new [simp]: "coherent ok (cache_new b)"
  by (simp add: coherent_def cache_new_def)

lemma evict_one_subset:
  "map_of (c_entries (evict_one weight key c)) k = Some v \<Longrightarrow> map_of (c_entries c) k = Some v"
  by (auto simp: evict_one_def delete_conv' split: option.splits if_splits)

lemma evict_to_budget_subset:
  "map_of (c_entries (evict_to_budget weight c)) k = Some v \<Longrightarrow> map_of (c_entries c) k = Some v"
proof (induction weight c rule: evict_to_budget.induct)
  case (1 weight c)
  then show ?case
    by (subst (asm) (2) evict_to_budget.simps)
      (auto split: if_splits prod.splits option.splits dest: evict_one_subset)
qed

lemma get_or_load_coherent:
  assumes "coherent ok c" and "\<And>v. load = Inr v \<Longrightarrow> ok key v" and "get_or_load weight key load c = (r, c')"
  shows "coherent ok c' \<and> (\<forall>v. r = Inr v \<longrightarrow> ok key v)"
proof (cases "map_of (c_entries c) key")
  case None
  then show ?thesis
    using assms by (auto simp: get_or_load_def coherent_def update_conv' split: sum.splits if_splits
        dest!: evict_to_budget_subset)
next
  case (Some v)
  then show ?thesis using assms by (auto simp: get_or_load_def coherent_def)
qed

text \<open>With a functional source the result is that of the source.\<close>

lemma get_or_load_transparent:
  assumes "coherent (\<lambda>k v. src k = Inr v) c" and "get_or_load weight key (src key) c = (r, c')"
  shows "coherent (\<lambda>k v. src k = Inr v) c' \<and> r = src key"
proof (cases "map_of (c_entries c) key")
  case None
  then show ?thesis
    using assms get_or_load_coherent [OF assms(1) _ assms(2)] by (auto simp: get_or_load_def split: sum.splits)
next
  case (Some v)
  then show ?thesis using assms by (auto simp: get_or_load_def coherent_def)
qed

section \<open>Accounting and budget\<close>

text \<open>
  \<open>c_bytes\<close> is the weight of the entries, keys are distinct, and the policy tracks
  every cached key.
\<close>

definition cache_inv :: "('v \<Rightarrow> nat) \<Rightarrow> ('k, 'v) cache \<Rightarrow> bool" where
  "cache_inv weight c \<longleftrightarrow> distinct (map fst (c_entries c)) \<and>
    c_bytes c = sum_list (map (weight \<circ> snd) (c_entries c)) \<and>
    fst ` set (c_entries c) \<subseteq> fst ` set (lru_last (c_policy c))"

lemma cache_inv_new [simp]: "cache_inv weight (cache_new b)"
  by (simp add: cache_inv_def cache_new_def)

lemma sum_delete:
  "distinct (map fst xs) \<Longrightarrow> map_of xs k = Some v \<Longrightarrow>
    sum_list (map (weight \<circ> snd) xs) = (weight v :: nat) + sum_list (map (weight \<circ> snd) (AList.delete k xs))"
proof (induction xs)
  case (Cons x xs)
  show ?case
  proof (cases "fst x = k")
    case True
    then have "AList.delete k xs = xs"
      using Cons.prems(1) by (intro delete_id) (auto simp: image_iff)
    then show ?thesis using Cons.prems True by (cases x) simp
  next
    case False
    then show ?thesis using Cons by (cases x) (simp add: add.left_commute)
  qed
qed simp

lemma sum_update_fresh:
  "map_of xs k = None \<Longrightarrow> sum_list (map (weight \<circ> snd) (AList.update k v xs)) =
    (weight v :: nat) + sum_list (map (weight \<circ> snd) xs)"
  by (induction xs) (auto split: if_splits)

lemma evict_one_inv: "cache_inv weight c \<Longrightarrow> cache_inv weight (evict_one weight key c)"
  by (auto simp: cache_inv_def evict_one_def lru_remove_def dom_delete_fst distinct_delete sum_delete
      map_of_eq_None_iff split: option.splits)

lemma evict_to_budget_inv:
  "cache_inv weight c \<Longrightarrow>
    cache_inv weight (evict_to_budget weight c) \<and> \<not> over_budget (evict_to_budget weight c) \<and>
    c_budget (evict_to_budget weight c) = c_budget c"
proof (induction weight c rule: evict_to_budget.induct)
  case (1 weight c)
  show ?case
  proof (cases "over_budget c")
    case True
    obtain r p where cand: "lru_evict_candidate (\<lambda>_. True) (c_policy c) = (r, p)" by fastforce
    show ?thesis
    proof (cases r)
      case None
      then have "lru_last (c_policy c) = []"
        using lru.candidate [OF TrueI cand] by auto
      then have "c_entries c = []" using 1(2) by (auto simp: cache_inv_def)
      then have False using True 1(2) by (auto simp: over_budget_def cache_len_def cache_inv_def split: budget.splits)
      then show ?thesis ..
    next
      case (Some key)
      have "c_budget (evict_one weight key c) = c_budget c"
        by (auto simp: evict_one_def split: option.splits)
      then show ?thesis
        using 1(1) [OF True cand [symmetric] Some] evict_one_inv [OF 1(2), of key]
        by (subst (1 2 3) evict_to_budget.simps) (simp add: True cand Some)
    qed
  next
    case False
    then show ?thesis using 1(2) by (subst (1 2 3) evict_to_budget.simps) simp
  qed
qed

lemma get_or_load_inv:
  assumes "cache_inv weight c" and "\<not> over_budget c" and "get_or_load weight key load c = (r, c')"
  shows "cache_inv weight c' \<and> \<not> over_budget c' \<and> c_budget c' = c_budget c"
proof (cases "map_of (c_entries c) key")
  case None
  show ?thesis
  proof (cases load)
    case (Inl e)
    then show ?thesis using None assms by (auto simp: get_or_load_def)
  next
    case (Inr v)
    let ?c = "c\<lparr>c_bytes := c_bytes c + weight v, c_entries := AList.update key v (c_entries c),
                    c_policy := lru_record_access key (c_policy c)\<rparr>"
    have "cache_inv weight ?c"
      using assms(1) None
      by (auto simp: cache_inv_def distinct_update sum_update_fresh lru_access_fields dom_update_fst)
    then show ?thesis
      using evict_to_budget_inv [of weight ?c] assms(3) None Inr by (auto simp: get_or_load_def)
  qed
next
  case (Some v)
  then have "c' = c\<lparr>c_policy := lru_record_access key (c_policy c)\<rparr>" using assms(3) by (simp add: get_or_load_def)
  then show ?thesis
    using assms(1,2) by (simp add: cache_inv_def lru_access_fields dom_update_fst over_budget_def cache_len_def
        subset_insertI2 split: budget.splits)
qed


section \<open>Properties\<close>

text \<open>A sequence of fetches through the cache.\<close>

fun fetch_all :: "('v \<Rightarrow> nat) \<Rightarrow> ('k \<Rightarrow> 'e + 'v) \<Rightarrow> 'k list \<Rightarrow> ('k, 'v) cache \<Rightarrow> ('e + 'v) list \<times> ('k, 'v) cache" where
  "fetch_all weight src [] c = ([], c)"
| "fetch_all weight src (k # ks) c =
    (let (r, c1) = get_or_load weight k (src k) c; (rs, c2) = fetch_all weight src ks c1 in (r # rs, c2))"

lemma fetch_all_inv:
  "cache_inv weight c \<Longrightarrow> \<not> over_budget c \<Longrightarrow> coherent (\<lambda>k v. src k = Inr v) c \<Longrightarrow>
    fetch_all weight src ks c = (rs, c') \<Longrightarrow>
    rs = map src ks \<and> cache_inv weight c' \<and> \<not> over_budget c' \<and> c_budget c' = c_budget c"
proof (induction ks arbitrary: c rs)
  case (Cons k ks)
  obtain r c1 where g: "get_or_load weight k (src k) c = (r, c1)" by fastforce
  obtain rs1 where f: "fetch_all weight src ks c1 = (rs1, c')" "rs = r # rs1"
    using Cons.prems(4) g by (auto simp: Let_def split: prod.splits)
  have "coherent (\<lambda>k v. src k = Inr v) c1 \<and> r = src k"
    using get_or_load_transparent [OF Cons.prems(3) g] .
  then show ?case
    using Cons.IH [OF _ _ _ f(1)] get_or_load_inv [OF Cons.prems(1,2) g] f(2) by auto
qed simp

text \<open>C30. The cache is invisible to its clients: as long as the loader is a function of the
  key, any sequence of fetches on a new cache returns for each key exactly what its
  loader returns (errors are passed on and not cached), whatever was evicted before,
  and afterwards the cache holds at most its budget, with its byte count equal to the
  weight of what it holds.\<close>

theorem cache_transparent_within_budget:
  assumes "fetch_all weight src ks (cache_new b) = (rs, c)"
  shows "rs = map src ks \<and> \<not> over_budget c \<and> c_budget c = b \<and>
    c_bytes c = sum_list (map (weight \<circ> snd) (c_entries c))"
  using fetch_all_inv [OF _ _ _ assms]
  by (auto simp: over_budget_def cache_new_def cache_len_def cache_inv_def coherent_def split: budget.splits)

theorem cache_transparent_within_budget_witness:
  "let src = (\<lambda>k :: nat. if k = 9 then Inl () else Inr [k, k]);
       (rs, c) = fetch_all length src [1, 2, 9, 3, 1] (cache_new (BudgetBytes 4)) in
   c_bytes c = 4 \<and>
   rs = map src [1, 2, 9, 3, 1] \<and> \<not> over_budget c \<and> c_budget c = BudgetBytes 4 \<and>
    c_bytes c = sum_list (map (length \<circ> snd) (c_entries c))"
proof -
  let ?src = "\<lambda>k :: nat. if k = 9 then Inl () else Inr [k, k]"
  obtain rs c where f: "fetch_all length ?src [1, 2, 9, 3, 1] (cache_new (BudgetBytes 4)) = (rs, c)" by fastforce
  have "c_bytes (snd (fetch_all length ?src [1, 2, 9, 3, 1] (cache_new (BudgetBytes 4)))) = 4" by code_simp
  then show ?thesis using cache_transparent_within_budget [OF f] f by (simp add: Let_def)
qed

end
