(* ===== verification/Sstable.thy ===== *)
theory Sstable
  imports Sst_Header Memo_Cache
begin

text \<open>
  The SSTable file (\<^verbatim>\<open>src/crates/lsm/src/storage/sstable.rs\<close>) and the page cache in
  front of it (\<^verbatim>\<open>storage/cache.rs\<close>): building and writing a table, opening it, the
  point lookup and the block stream behind a scan, all on the bytes of the files.
  The directory is the list of its file names and contents, \<open>None\<close> before it is
  created. The page cache is passed through every read. An I/O error is kept as its
  message; \<open>MsgIo\<close> stands for the operating-system errors (missing file, short read).
\<close>

section \<open>Definitions\<close>

subsection \<open>The page cache\<close>

record sst_cache =
  sc_headers :: "(header_id, bytes) cache"
  sc_blocks :: "(page_id, bytes) cache"
  sc_config :: page_cache_config

fun cache_budget :: "size_config \<Rightarrow> budget" where
  "cache_budget UnboundedSize = UnboundedBudget"
| "cache_budget (Pages n) = Entries n"
| "cache_budget (Bytes n) = BudgetBytes n"

definition sst_cache_new :: "page_cache_config \<Rightarrow> sst_cache" where
  "sst_cache_new config =
    \<lparr>sc_headers = cache_new (cache_budget (pc_size config)),
     sc_blocks = cache_new (cache_budget (pc_size config)), sc_config = config\<rparr>"

definition fetch_header :: "header_id \<Rightarrow> lsm_msg + bytes \<Rightarrow> sst_cache \<Rightarrow> (lsm_msg + bytes) \<times> sst_cache" where
  "fetch_header i load c =
    (let (r, h) = get_or_load length i load (sc_headers c) in (r, c\<lparr>sc_headers := h\<rparr>))"

definition fetch_block :: "page_id \<Rightarrow> lsm_msg + bytes \<Rightarrow> sst_cache \<Rightarrow> (lsm_msg + bytes) \<times> sst_cache" where
  "fetch_block i load c =
    (let (r, b) = get_or_load length i load (sc_blocks c) in (r, c\<lparr>sc_blocks := b\<rparr>))"

subsection \<open>Building\<close>

record built =
  b_buf :: bytes
  b_blocks :: "block_meta list"
  b_bloom :: bloom_filter
  b_range :: key_range
  b_size_bytes :: u64

text \<open>The inner loop of \<open>build\<close>: append entries until the next would pass the target.\<close>

fun fill_block :: "nat \<Rightarrow> bytes \<Rightarrow> bytes \<Rightarrow> nat \<Rightarrow> key_value list \<Rightarrow> bytes \<times> bytes \<times> key_value list" where
  "fill_block target data mx block_size [] = (data, mx, [])"
| "fill_block target data mx block_size (e # es) =
    (if block_size > 0 \<and> block_size + entry_size e > target then (data, mx, e # es)
     else fill_block target (data @ kv_encode e) (user_key (kv_key e)) (block_size + entry_size e) es)"

definition pad_block :: "nat \<Rightarrow> bytes \<Rightarrow> bytes" where
  "pad_block target data =
    (let rem = length data mod target in
     if rem \<noteq> 0 then data @ replicate (target - rem) 0 else data)"

lemma fill_block_length:
  "fill_block target data mx sz es = (data', mx', rest) \<Longrightarrow> length rest \<le> length es"
  by (induction target data mx sz es rule: fill_block.induct) (auto split: if_splits)

function build_blocks :: "nat \<Rightarrow> bytes \<Rightarrow> key_value list \<Rightarrow> bytes \<times> block_meta list" where
  "build_blocks target data [] = (data, [])"
| "build_blocks target data (e # es) =
    (let mn = user_key (kv_key e) in
     case fill_block target data mn 0 (e # es) of (data1, mx, rest) \<Rightarrow>
       let meta = \<lparr>min_key = mn, max_key = mx, bm_offset = word_of_nat (length data),
                   bm_len = ucast (word_of_nat (length data1) - word_of_nat (length data) :: u64)\<rparr>;
           (data2, metas) = build_blocks target (pad_block target data1) rest in
       (data2, meta # metas))"
  by pat_completeness auto
termination
  by (relation "measure (\<lambda>(_, _, es). length es)")
    (auto dest: fill_block_length [OF sym] simp: less_Suc_eq_le)

definition build :: "fastbloom \<Rightarrow> table_config \<Rightarrow> key_value list \<Rightarrow> built" where
  "build fb config entries =
    (let target = max (page_size_bytes (tc_page config)) 1;
         (data, blocks) = build_blocks target [] entries;
         bloom = bloom_build fb (tc_bloom config) (length entries) (map (\<lambda>e. user_key (kv_key e)) entries);
         rng = (if blocks \<noteq> [] then \<lparr>kr_min = min_key (hd blocks), kr_max = max_key (last blocks)\<rparr>
                else \<lparr>kr_min = [], kr_max = []\<rparr>) in
     \<lparr>b_buf = data, b_blocks = blocks, b_bloom = bloom, b_range = rng, b_size_bytes = word_of_nat (length data)\<rparr>)"

text \<open>\<open>slice::chunks\<close>.\<close>

function chunks :: "nat \<Rightarrow> 'a list \<Rightarrow> 'a list list" where
  "chunks n xs = (if xs = [] \<or> n = 0 then [] else take n xs # chunks n (drop n xs))"
  by pat_completeness auto
termination by (relation "measure (\<lambda>(_, xs). length xs)") auto

declare chunks.simps [simp del]

fun append_shards :: "bytes \<Rightarrow> sstable_id \<Rightarrow> block_meta list list \<Rightarrow> bytes \<times> block_meta list" where
  "append_shards buf i [] = (buf, [])"
| "append_shards buf i (grp # groups) =
    (let bs = header_encode (Child i grp);
         cref = \<lparr>min_key = min_key (hd grp), max_key = max_key (last grp),
                 bm_offset = word_of_nat (length buf), bm_len = word_of_nat (length bs)\<rparr>;
         (buf', crefs) = append_shards (buf @ bs) i groups in
     (buf', cref # crefs))"

definition table_index :: "fastbloom \<Rightarrow> sstable_id \<Rightarrow> table_config \<Rightarrow> key_value list \<Rightarrow> bytes \<times> index" where
  "table_index fb i config entries =
    (let b = build fb config entries;
         per_chunk = max (blocks_per_chunk (tc_page config)) 1 in
     if length (b_blocks b) \<le> per_chunk then (b_buf b, Inline (b_blocks b))
     else let (buf, crefs) = append_shards (b_buf b) i (chunks per_chunk (b_blocks b)) in
       (buf, Sharded crefs))"

definition table_root :: "fastbloom \<Rightarrow> sstable_id \<Rightarrow> table_config \<Rightarrow> key_value list \<Rightarrow> header" where
  "table_root fb i config entries =
    (let b = build fb config entries in
     Root i (b_range b) (b_bloom b) (b_size_bytes b) (snd (table_index fb i config entries)))"

definition table_file :: "fastbloom \<Rightarrow> sstable_id \<Rightarrow> table_config \<Rightarrow> key_value list \<Rightarrow> bytes" where
  "table_file fb i config entries =
    (let root_bytes = header_encode (table_root fb i config entries) in
     fst (table_index fb i config entries) @ root_bytes @ to_be 4 (word_of_nat (length root_bytes) :: u32))"

definition sst_write ::
  "fastbloom \<Rightarrow> sstable_id \<Rightarrow> table_config \<Rightarrow> key_value list \<Rightarrow> sst_dir option \<Rightarrow> sst_dir option" where
  "sst_write fb i config entries dir =
    (let files = (case dir of None \<Rightarrow> [] | Some fs \<Rightarrow> fs) in
     Some (AList.update (sst_name i) (table_file fb i config entries) files))"

subsection \<open>Reading\<close>

definition sst_file :: "sst_dir option \<Rightarrow> sstable_id \<Rightarrow> bytes option" where
  "sst_file dir i = (case dir of None \<Rightarrow> None | Some fs \<Rightarrow> map_of fs (sst_name i))"

definition read_header_page :: "sst_dir option \<Rightarrow> sstable_id \<Rightarrow> lsm_msg + bytes" where
  "read_header_page dir i =
    (case sst_file dir i of
       None \<Rightarrow> Inl MsgIo
     | Some f \<Rightarrow>
         if length f < 4 then Inl (MsgText ''sstable file too small'')
         else let header_len = unat (from_be (drop (length f - 4) f) :: u32) in
           if header_len + 4 > length f then Inl (MsgText ''header_len exceeds file size'')
           else Inr (take header_len (drop (length f - (4 + header_len)) f)))"

definition read_range :: "sst_dir option \<Rightarrow> sstable_id \<Rightarrow> u64 \<Rightarrow> u32 \<Rightarrow> lsm_msg + bytes" where
  "read_range dir i offset len =
    (case sst_file dir i of
       None \<Rightarrow> Inl MsgIo
     | Some f \<Rightarrow>
         if unat len = 0 then Inr []
         else if unat offset + unat len > length f then Inl MsgIo
         else Inr (take (unat len) (drop (unat offset) f)))"

record sstable =
  st_id :: sstable_id
  st_range :: key_range
  st_bloom :: bloom_filter
  st_size_bytes :: u64
  st_index :: index

definition sst_open :: "sstable_id \<Rightarrow> sst_dir option \<Rightarrow> sst_cache \<Rightarrow> (lsm_error + sstable) \<times> sst_cache" where
  "sst_open i dir c =
    (let (r, c1) = fetch_header (RootId i) (read_header_page dir i) c in
     (res_bind (map_err Internal r) (\<lambda>page.
      res_bind (map_err (\<lambda>e. Internal (MsgDecode e)) (header_decode page)) (\<lambda>(h, _).
        case h of
          Root i' rng bloom size_bytes index \<Rightarrow>
            Inr \<lparr>st_id = i', st_range = rng, st_bloom = bloom, st_size_bytes = size_bytes, st_index = index\<rparr>
        | Child _ _ \<Rightarrow> Inl (Internal (MsgText ''sstable tail is not a root header'')))), c1))"

definition covering :: "block_meta list \<Rightarrow> bytes \<Rightarrow> block_meta option" where
  "covering ms key = find (\<lambda>m. min_key m \<le> key \<and> key \<le> max_key m) ms"

text \<open>The body shared by \<open>load_child\<close> and \<open>next_block\<close>: decode a page as a child header.\<close>

definition child_blocks :: "bytes \<Rightarrow> lsm_msg + block_meta list" where
  "child_blocks page =
    res_bind (map_err MsgDecode (header_decode page)) (\<lambda>(h, _).
      case h of
        Child _ blocks \<Rightarrow> Inr blocks
      | Root _ _ _ _ _ \<Rightarrow> Inl (MsgText ''expected child header, got root''))"

definition load_child :: "sst_dir option \<Rightarrow> sstable \<Rightarrow> block_meta \<Rightarrow> sst_cache \<Rightarrow> (lsm_error + block_meta list) \<times> sst_cache" where
  "load_child dir t cref c =
    (let (r, c1) = fetch_header (ChildId (st_id t) (bm_offset cref))
           (read_range dir (st_id t) (bm_offset cref) (bm_len cref)) c in
     (map_err Internal (res_bind r child_blocks), c1))"

definition locate_block :: "sst_dir option \<Rightarrow> sstable \<Rightarrow> bytes \<Rightarrow> sst_cache \<Rightarrow> (lsm_error + block_meta option) \<times> sst_cache" where
  "locate_block dir t key c =
    (case st_index t of
       Inline blocks \<Rightarrow> (Inr (covering blocks key), c)
     | Sharded crefs \<Rightarrow>
         (case covering crefs key of
            None \<Rightarrow> (Inr None, c)
          | Some cref \<Rightarrow>
              (let (r, c1) = load_child dir t cref c in
               (res_bind r (\<lambda>blocks. Inr (covering blocks key)), c1))))"

definition sst_get ::
  "fastbloom \<Rightarrow> sst_dir option \<Rightarrow> sstable \<Rightarrow> bytes \<Rightarrow> u64 \<Rightarrow> sst_cache \<Rightarrow> (lsm_error + key_value option) \<times> sst_cache" where
  "sst_get fb dir t key max_seq c =
    (if \<not> kr_contains (st_range t) key \<or> \<not> bloom_contains fb (st_bloom t) key then (Inr None, c)
     else case locate_block dir t key c of
       (Inl e, c1) \<Rightarrow> (Inl e, c1)
     | (Inr None, c1) \<Rightarrow> (Inr None, c1)
     | (Inr (Some block), c1) \<Rightarrow>
         (let (r, c2) = fetch_block (PageId (st_id t) (bm_offset block))
                (read_range dir (st_id t) (bm_offset block) (bm_len block)) c1 in
          (res_bind (map_err Internal r) (\<lambda>page.
           res_bind (map_err (\<lambda>e. Internal (MsgDecode e)) (block_decode page)) (\<lambda>data.
             Inr (find (\<lambda>kv. user_key (kv_key kv) = key \<and> ik_seq (kv_key kv) \<le> max_seq) data))), c2)))"

subsection \<open>Scanning\<close>

fun in_bounds :: "bytes \<Rightarrow> bytes bound \<Rightarrow> bytes bound \<Rightarrow> bool" where
  "in_bounds key start stop =
    ((case start of Included s \<Rightarrow> s \<le> key | Excluded s \<Rightarrow> s < key | Unbounded \<Rightarrow> True) \<and>
     (case stop of Included e \<Rightarrow> key \<le> e | Excluded e \<Rightarrow> key < e | Unbounded \<Rightarrow> True))"

fun block_overlaps :: "block_meta \<Rightarrow> bytes bound \<Rightarrow> bytes bound \<Rightarrow> bool" where
  "block_overlaps b start stop =
    (let entirely_below = (case start of Included s \<Rightarrow> max_key b < s | Excluded s \<Rightarrow> max_key b \<le> s | Unbounded \<Rightarrow> False);
         entirely_above = (case stop of Included e \<Rightarrow> e < min_key b | Excluded e \<Rightarrow> e \<le> min_key b | Unbounded \<Rightarrow> False) in
     \<not> (entirely_below \<or> entirely_above))"

datatype cursor =
    CInline (next_block_no: nat)
  | CSharded (next_chunk: nat) (loaded: "block_meta list") (next_in_child: nat)

record block_stream =
  bs_table :: sstable
  bs_start :: "bytes bound"
  bs_end :: "bytes bound"
  bs_max_seq :: u64
  bs_cursor :: cursor
  bs_current :: "key_value list"
  bs_done :: bool

definition sst_scan :: "sstable \<Rightarrow> bytes bound \<Rightarrow> bytes bound \<Rightarrow> u64 \<Rightarrow> block_stream" where
  "sst_scan t start stop max_seq =
    \<lparr>bs_table = t, bs_start = start, bs_end = stop, bs_max_seq = max_seq,
     bs_cursor = (case st_index t of Inline _ \<Rightarrow> CInline 0 | Sharded _ \<Rightarrow> CSharded 0 [] 0),
     bs_current = [], bs_done = False\<rparr>"

text \<open>The loops \<open>while *next < metas.len()\<close>: the next overlapping meta and the new position.\<close>

function next_overlap :: "bytes bound \<Rightarrow> bytes bound \<Rightarrow> block_meta list \<Rightarrow> nat \<Rightarrow> block_meta option \<times> nat" where
  "next_overlap start stop ms n =
    (if n < length ms then
       (if block_overlaps (ms ! n) start stop then (Some (ms ! n), n + 1)
        else next_overlap start stop ms (n + 1))
     else (None, n))"
  by pat_completeness auto
termination by (relation "measure (\<lambda>(_, _, ms, n). length ms - n)") auto

declare next_overlap.simps [simp del]

lemma next_overlap_progress:
  "next_overlap s e ms n = (Some b, n') \<Longrightarrow> n < n' \<and> n' \<le> length ms"
proof (induction s e ms n rule: next_overlap.induct)
  case (1 s e ms n)
  then show ?case
    by (subst (asm) (2) next_overlap.simps) (fastforce split: if_splits)
qed

text \<open>The sharded branch of \<open>next_block\<close>: drain the loaded shard, else load the next one.\<close>

function sharded_next ::
  "sst_dir option \<Rightarrow> sstable_id \<Rightarrow> bytes bound \<Rightarrow> bytes bound \<Rightarrow> block_meta list \<Rightarrow> nat \<Rightarrow> block_meta list \<Rightarrow> nat \<Rightarrow>
    sst_cache \<Rightarrow> (read_error + block_meta) option \<times> cursor \<times> sst_cache" where
  "sharded_next dir i start stop crefs nc child nic c =
    (case next_overlap start stop child nic of
       (Some b, nic') \<Rightarrow> (Some (Inr b), CSharded nc child nic', c)
     | (None, nic') \<Rightarrow>
         (case next_overlap start stop crefs nc of
            (None, nc') \<Rightarrow> (None, CSharded nc' child nic', c)
          | (Some cref, nc') \<Rightarrow>
              (case fetch_header (ChildId i (bm_offset cref)) (read_range dir i (bm_offset cref) (bm_len cref)) c of
                 (r, c1) \<Rightarrow>
                   (case res_bind r child_blocks of
                      Inl e \<Rightarrow> (Some (Inl (ReadInternal e)), CSharded nc' child nic', c1)
                    | Inr blocks \<Rightarrow> sharded_next dir i start stop crefs nc' blocks 0 c1))))"
  by pat_completeness auto
termination
  by (relation "measure (\<lambda>(_, _, _, _, crefs, nc, _). length crefs - nc)")
    (auto dest: next_overlap_progress [OF sym])

declare sharded_next.simps [simp del]

text \<open>\<open>unreachable!\<close> arms are a panic; the cursor always fits the index it was made for.\<close>

definition next_block ::
  "sst_dir option \<Rightarrow> block_stream \<Rightarrow> sst_cache \<Rightarrow> (read_error + block_meta) option \<times> block_stream \<times> sst_cache" where
  "next_block dir s c =
    (case (bs_cursor s, st_index (bs_table s)) of
       (CInline n, Inline blocks) \<Rightarrow>
         (case next_overlap (bs_start s) (bs_end s) blocks n of
            (r, n') \<Rightarrow> (map_option Inr r, s\<lparr>bs_cursor := CInline n'\<rparr>, c))
     | (CSharded nc child nic, Sharded crefs) \<Rightarrow>
         (case sharded_next dir (st_id (bs_table s)) (bs_start s) (bs_end s) crefs nc child nic c of
            (r, cur, c1) \<Rightarrow> (r, s\<lparr>bs_cursor := cur\<rparr>, c1))
     | _ \<Rightarrow> (Some (Inl (ReadInternal (MsgText ''unreachable''))), s, c))"

definition load_entries ::
  "sst_dir option \<Rightarrow> block_stream \<Rightarrow> block_meta \<Rightarrow> sst_cache \<Rightarrow> (read_error + key_value list) \<times> sst_cache" where
  "load_entries dir s block c =
    (let i = st_id (bs_table s);
         (r, c1) = fetch_block (PageId i (bm_offset block)) (read_range dir i (bm_offset block) (bm_len block)) c in
     (map_err ReadInternal (res_bind r (\<lambda>page.
        res_bind (map_err MsgDecode (block_decode page)) (\<lambda>data.
          Inr (filter (\<lambda>kv. ik_seq (kv_key kv) \<le> bs_max_seq s \<and>
            in_bounds (user_key (kv_key kv)) (bs_start s) (bs_end s)) data)))), c1))"

text \<open>How far a stream still has to go: shards to load, blocks of the loaded one.\<close>

definition shards_left :: "block_stream \<Rightarrow> nat" where
  "shards_left s =
    (case (bs_cursor s, st_index (bs_table s)) of
       (CSharded nc _ _, Sharded crefs) \<Rightarrow> length crefs - nc | _ \<Rightarrow> 0)"

definition blocks_left :: "block_stream \<Rightarrow> nat" where
  "blocks_left s =
    (case (bs_cursor s, st_index (bs_table s)) of
       (CInline n, Inline blocks) \<Rightarrow> length blocks - n
     | (CSharded _ child nic, Sharded _) \<Rightarrow> length child - nic
     | _ \<Rightarrow> 0)"

lemma next_overlap_mono: "next_overlap s e ms n = (r, n') \<Longrightarrow> n \<le> n'"
proof (induction s e ms n rule: next_overlap.induct)
  case (1 s e ms n)
  then show ?case
    by (subst (asm) (2) next_overlap.simps) (fastforce split: if_splits)
qed

text \<open>The cursor only moves forward: to a later shard, or further in the loaded one.\<close>

fun cursor_step :: "nat \<Rightarrow> bool \<Rightarrow> cursor \<Rightarrow> cursor \<Rightarrow> bool" where
  "cursor_step k strict (CInline n) (CInline n') = (n \<le> n' \<and> (strict \<longrightarrow> n < n' \<and> n' \<le> k))"
| "cursor_step k strict (CSharded nc child nic) (CSharded nc' child' nic') =
    (nc < nc' \<and> nc < k \<or>
     nc \<le> nc' \<and> child' = child \<and> nic \<le> nic' \<and> (strict \<longrightarrow> nc' = nc \<and> nic < nic' \<and> nic' \<le> length child))"
| "cursor_step k strict _ _ = False"

lemma cursor_step_later_shard:
  "nc < nc' \<Longrightarrow> nc < k \<Longrightarrow> cursor_step k b (CSharded nc' child' nic') cur \<Longrightarrow>
    cursor_step k b (CSharded nc child nic) cur"
  by (cases cur) auto

lemma sharded_next_cursor:
  "sharded_next dir i st en crefs nc child nic c = (r, cur, c') \<Longrightarrow>
    cursor_step (length crefs) (\<exists>b. r = Some (Inr b)) (CSharded nc child nic) cur"
proof (induction dir i st en crefs nc child nic c rule: sharded_next.induct)
  case (1 dir i st en crefs nc child nic c)
  obtain b nic' where child: "next_overlap st en child nic = (b, nic')" by (cases "next_overlap st en child nic")
  obtain cref nc' where shard: "next_overlap st en crefs nc = (cref, nc')" by (cases "next_overlap st en crefs nc")
  note sn = 1(2) [unfolded sharded_next.simps [of dir i st en crefs nc child nic c] child shard]
  show ?case
  proof (cases b)
    case (Some bl)
    then show ?thesis using sn child by (auto dest: next_overlap_progress)
  next
    case b: None
    show ?thesis
    proof (cases cref)
      case None
      then show ?thesis using sn b child shard by (auto dest: next_overlap_mono)
    next
      case (Some cr)
      obtain r1 c1 where fetch:
        "fetch_header (ChildId i (bm_offset cr)) (read_range dir i (bm_offset cr) (bm_len cr)) c = (r1, c1)"
        by (cases "fetch_header (ChildId i (bm_offset cr)) (read_range dir i (bm_offset cr) (bm_len cr)) c")
      have adv: "nc < nc'" "nc < length crefs" using next_overlap_progress shard Some by fastforce+
      show ?thesis
      proof (cases "res_bind r1 child_blocks")
        case (Inl e)
        then show ?thesis using sn b Some fetch adv by auto
      next
        case (Inr blocks)
        have "sharded_next dir i st en crefs nc' blocks 0 c1 = (r, cur, c')"
          using sn b Some fetch Inr by simp
        from 1(1) [OF child [symmetric] b shard [symmetric] Some fetch [symmetric] Inr this] adv
        show ?thesis by (blast intro: cursor_step_later_shard)
      qed
    qed
  qed
qed

lemma left_update [simp]:
  "shards_left (s\<lparr>bs_current := es\<rparr>) = shards_left s" "blocks_left (s\<lparr>bs_current := es\<rparr>) = blocks_left s"
  "shards_left (s\<lparr>bs_done := b\<rparr>) = shards_left s" "blocks_left (s\<lparr>bs_done := b\<rparr>) = blocks_left s"
  by (simp_all add: shards_left_def blocks_left_def)

lemma next_block_frame:
  assumes "next_block dir s c = (r, s', c')"
  shows "bs_table s' = bs_table s" "bs_start s' = bs_start s" "bs_end s' = bs_end s"
    "bs_max_seq s' = bs_max_seq s" "bs_current s' = bs_current s" "bs_done s' = bs_done s"
  using assms by (auto simp: next_block_def split: cursor.splits index.splits prod.splits)

definition bs_order :: "(block_stream \<times> block_stream) set" where
  "bs_order = measures [shards_left, blocks_left, \<lambda>s. length (bs_current s), \<lambda>s. if bs_done s then 0 else 1]"

lemma wf_bs_order [simp]: "wf bs_order"
  by (simp add: bs_order_def)

lemma next_block_progress:
  assumes "next_block dir s c = (r, s', c')"
  shows "shards_left s' < shards_left s \<or> shards_left s' \<le> shards_left s \<and> blocks_left s' \<le> blocks_left s"
    and "r = Some (Inr b) \<Longrightarrow>
      shards_left s' < shards_left s \<or> shards_left s' = shards_left s \<and> blocks_left s' < blocks_left s"
  using assms
  by (auto simp: next_block_def shards_left_def blocks_left_def
    split: cursor.splits index.splits prod.splits
    dest!: sharded_next_cursor dest: next_overlap_mono next_overlap_progress
    elim!: cursor_step.elims)

function bs_next :: "sst_dir option \<Rightarrow> block_stream \<Rightarrow> sst_cache \<Rightarrow>
    (read_error + key_value) option \<times> block_stream \<times> sst_cache" where
  "bs_next dir s c =
    (case bs_current s of
       kv # rest \<Rightarrow> (Some (Inr kv), s\<lparr>bs_current := rest\<rparr>, c)
     | [] \<Rightarrow>
         if bs_done s then (None, s, c)
         else (case next_block dir s c of
            (Some (Inr block), s1, c1) \<Rightarrow>
              (case load_entries dir s1 block c1 of
                 (Inr entries, c2) \<Rightarrow> bs_next dir (s1\<lparr>bs_current := entries\<rparr>) c2
               | (Inl e, c2) \<Rightarrow> (Some (Inl e), s1\<lparr>bs_done := True\<rparr>, c2))
          | (Some (Inl e), s1, c1) \<Rightarrow> (Some (Inl e), s1\<lparr>bs_done := True\<rparr>, c1)
          | (None, s1, c1) \<Rightarrow> (None, s1\<lparr>bs_done := True\<rparr>, c1)))"
  by pat_completeness auto
termination
  by (relation "measures [\<lambda>(_, s, _). shards_left s, \<lambda>(_, s, _). blocks_left s]")
    (auto dest!: next_block_progress(2) [OF sym refl])

declare bs_next.simps [simp del]

lemma bs_next_progress:
  "bs_next dir s c = (Some it, s', c') \<Longrightarrow>
    (s', s) \<in> bs_order"
proof (induction dir s c rule: bs_next.induct)
  case (1 dir s c)
  show ?case
  proof (cases "bs_current s")
    case (Cons kv rest)
    then show ?thesis using 1(2) by (auto simp: bs_next.simps [of dir s c] bs_order_def)
  next
    case cur: Nil
    have nd: "\<not> bs_done s" using 1(2) cur by (auto simp: bs_next.simps [of dir s c])
    obtain r s1 c1 where nb: "next_block dir s c = (r, s1, c1)" by (cases "next_block dir s c")
    note step = 1(2) [unfolded bs_next.simps [of dir s c] nb]
    have fr: "bs_current s1 = []" "\<not> bs_done s1" using next_block_frame [OF nb] cur nd by simp_all
    show ?thesis
    proof (cases "\<exists>block entries c2. r = Some (Inr block) \<and> load_entries dir s1 block c1 = (Inr entries, c2)")
      case True
      then obtain block entries c2 where r: "r = Some (Inr block)"
        and le: "load_entries dir s1 block c1 = (Inr entries, c2)" by blast
      have "bs_next dir (s1\<lparr>bs_current := entries\<rparr>) c2 = (Some it, s', c')"
        using step cur nd r le by simp
      from 1(1) [OF cur nd nb [symmetric] r refl refl le [symmetric] refl this]
        next_block_progress(2) [OF nb r]
      show ?thesis by (auto simp: bs_order_def)
    next
      case False
      then have "s' = s1\<lparr>bs_done := True\<rparr>"
        using step cur nd by (auto split: option.splits sum.splits prod.splits)
      then show ?thesis using next_block_progress(1) [OF nb] cur nd fr by (auto simp: bs_order_def)
    qed
  qed
qed

text \<open>Everything a stream yields, in order, and the cache it leaves.\<close>

function bs_drain :: "sst_dir option \<Rightarrow> block_stream \<Rightarrow> sst_cache \<Rightarrow> (read_error + key_value) list \<times> sst_cache" where
  "bs_drain dir s c =
    (case bs_next dir s c of
       (None, _, c1) \<Rightarrow> ([], c1)
     | (Some it, s1, c1) \<Rightarrow> (case bs_drain dir s1 c1 of (its, c2) \<Rightarrow> (it # its, c2)))"
  by pat_completeness auto
termination
  by (relation "inv_image bs_order (\<lambda>(_, s, _). s)") (auto dest: bs_next_progress [OF sym] intro: wf_inv_image)

declare bs_drain.simps [simp del]

end
