(* ===== verification/Sst_Layout.thy ===== *)
theory Sst_Layout
  imports Sstable
begin

text \<open>
  What an SSTable file holds and what its readers return. A file written from a
  sorted list of records is laid out as blocks, shards and a root header; every
  meta of the index points at the bytes it describes. Opening, the point lookup and
  the block stream then return the records themselves, with any page cache whose
  contents agree with the files.
\<close>

section \<open>The layout of a table\<close>

abbreviation ukey :: "key_value \<Rightarrow> bytes" where
  "ukey kv \<equiv> user_key (kv_key kv)"

text \<open>A meta spans the records whose first and last user keys it holds.\<close>

definition spans :: "block_meta \<Rightarrow> key_value list \<Rightarrow> bool" where
  "spans m es \<longleftrightarrow> es \<noteq> [] \<and> min_key m = ukey (hd es) \<and> max_key m = ukey (last es)"

definition bytes_at :: "bytes \<Rightarrow> block_meta \<Rightarrow> bytes" where
  "bytes_at f m = take (unat (bm_len m)) (drop (unat (bm_offset m)) f)"

definition fits :: "bytes \<Rightarrow> block_meta \<Rightarrow> bool" where
  "fits f m \<longleftrightarrow> unat (bm_offset m) + unat (bm_len m) \<le> length f"

definition block_in :: "bytes \<Rightarrow> block_meta \<Rightarrow> key_value list \<Rightarrow> bool" where
  "block_in f m es \<longleftrightarrow> spans m es \<and> fits f m \<and> bytes_at f m = block_encode es"

definition shard_in :: "bytes \<Rightarrow> sstable_id \<Rightarrow> block_meta \<Rightarrow> block_meta list \<Rightarrow> bool" where
  "shard_in f i m ms \<longleftrightarrow> fits f m \<and> bytes_at f m = header_encode (Child i ms) \<and>
    min_key m = min_key (hd ms) \<and> max_key m = max_key (last ms)"

definition offsets_up :: "nat \<Rightarrow> block_meta list \<Rightarrow> bool" where
  "offsets_up n ms \<longleftrightarrow> sorted_wrt (\<lambda>a b. bm_offset a < bm_offset b) ms \<and> (\<forall>m\<in>set ms. n \<le> unat (bm_offset m))"

lemma offsets_up_Cons:
  assumes "unat (bm_offset m) = n" "offsets_up n' ms" "n < n'"
  shows "offsets_up n (m # ms)"
proof -
  have "n < unat (bm_offset m')" if "m' \<in> set ms" for m'
    using assms that by (force simp: offsets_up_def)
  then show ?thesis using assms by (auto simp: offsets_up_def word_less_nat_alt less_imp_le)
qed

lemma bytes_at_append: "fits f m \<Longrightarrow> fits (f @ g) m \<and> bytes_at (f @ g) m = bytes_at f m"
  by (simp add: fits_def bytes_at_def)

lemma block_in_append: "block_in f m es \<Longrightarrow> block_in (f @ g) m es"
  by (simp add: block_in_def bytes_at_append)

lemma shard_in_append: "shard_in f i m ms \<Longrightarrow> shard_in (f @ g) i m ms"
  by (simp add: shard_in_def bytes_at_append)

lemma unat_small: "n < 2 ^ 32 \<Longrightarrow> unat (word_of_nat n :: u64) = n" "n < 2 ^ 32 \<Longrightarrow> unat (word_of_nat n :: u32) = n"
  by (simp_all add: unat_of_len)

lemma ucast_word_of_nat [simp]: "ucast (word_of_nat n :: u64) = (word_of_nat n :: u32)"
  by transfer simp

lemma header_encode_pos [simp]: "0 < length (header_encode h)"
  by (cases h rule: header_encode.cases) simp_all

declare header_encode.simps [simp del]

lemma meta_at_end:
  assumes "length (data @ bs) < 2 ^ 32"
    and "m = \<lparr>min_key = mn, max_key = mx, bm_offset = word_of_nat (length data), bm_len = word_of_nat (length bs)\<rparr>"
  shows "fits (data @ bs) m \<and> bytes_at (data @ bs) m = bs \<and> unat (bm_offset m) = length data"
  using assms by (simp add: fits_def bytes_at_def unat_small)

lemma fill_block_spec:
  "fill_block target data mx sz es = (data', mx', rest) \<Longrightarrow>
    \<exists>ch. es = ch @ rest \<and> data' = data @ block_encode ch \<and> mx' = (if ch = [] then mx else ukey (last ch)) \<and>
      (sz = 0 \<longrightarrow> es \<noteq> [] \<longrightarrow> ch \<noteq> [])"
proof (induction target data mx sz es arbitrary: data' mx' rest rule: fill_block.induct)
  case (2 target data mx sz e es)
  show ?case
  proof (cases "sz > 0 \<and> sz + entry_size e > target")
    case True
    then show ?thesis using 2(2) by auto
  next
    case False
    then obtain ch where "es = ch @ rest" "data' = (data @ kv_encode e) @ block_encode ch"
        "mx' = (if ch = [] then ukey e else ukey (last ch))"
      using 2(1) [OF False] 2(2) by (auto simp: entry_size_def)
    then show ?thesis by (intro exI [of _ "e # ch"]) auto
  qed
qed simp

lemma pad_block_extends: "\<exists>ext. pad_block target data = data @ ext"
  by (simp add: pad_block_def Let_def)

lemma build_blocks_extends: "build_blocks target data es = (data', ms) \<Longrightarrow> \<exists>ext. data' = data @ ext"
proof (induction target data es arbitrary: data' ms rule: build_blocks.induct)
  case (2 target data e es)
  obtain data1 mx rest where f: "fill_block target data (ukey e) 0 (e # es) = (data1, mx, rest)"
    by (cases "fill_block target data (ukey e) 0 (e # es)")
  obtain data2 ms2 where b: "build_blocks target (pad_block target data1) rest = (data2, ms2)"
    by (cases "build_blocks target (pad_block target data1) rest")
  have "data' = data2" using 2(2) f b by (simp add: Let_def)
  moreover obtain e1 where "data2 = pad_block target data1 @ e1"
    using 2(1) [OF refl f [symmetric] refl refl b] by blast
  moreover obtain e2 where "pad_block target data1 = data1 @ e2" using pad_block_extends by blast
  moreover obtain e3 where "data1 = data @ e3" using fill_block_spec [OF f] by blast
  ultimately show ?case by auto
qed simp

lemma build_blocks_layout:
  "build_blocks target data es = (data', ms) \<Longrightarrow> length data' < 2 ^ 32 \<Longrightarrow>
    \<exists>ess. concat ess = es \<and> list_all2 (block_in data') ms ess \<and> offsets_up (length data) ms"
proof (induction target data es arbitrary: data' ms rule: build_blocks.induct)
  case (2 target data e es)
  obtain data1 mx rest where f: "fill_block target data (ukey e) 0 (e # es) = (data1, mx, rest)"
    by (cases "fill_block target data (ukey e) 0 (e # es)")
  obtain data2 ms2 where b: "build_blocks target (pad_block target data1) rest = (data2, ms2)"
    by (cases "build_blocks target (pad_block target data1) rest")
  obtain ch where ch: "e # es = ch @ rest" "data1 = data @ block_encode ch" "ch \<noteq> []" "mx = ukey (last ch)"
    using fill_block_spec [OF f] by auto
  define m where "m = \<lparr>min_key = ukey e, max_key = mx, bm_offset = word_of_nat (length data),
    bm_len = word_of_nat (length (block_encode ch)) :: u32\<rparr>"
  have res: "data' = data2" "ms = m # ms2"
    using 2(2) f b ch(2) by (simp_all add: Let_def m_def)
  obtain e1 where e1: "pad_block target data1 = data1 @ e1" using pad_block_extends by blast
  obtain e2 where e2: "data2 = data1 @ e1 @ e2"
    using build_blocks_extends [OF b] e1 by auto
  obtain ess where ess: "concat ess = rest" "list_all2 (block_in data2) ms2 ess"
      "offsets_up (length (pad_block target data1)) ms2"
    using 2(1) [OF refl f [symmetric] refl refl b] 2(3) res by blast
  have len: "length (data @ block_encode ch) < 2 ^ 32" using 2(3) res e2 ch(2) by simp
  note m_end = meta_at_end [OF len m_def]
  have hd: "hd ch = e" using ch(1,3) by (cases ch) auto
  have "block_in data1 m ch"
    using m_end ch hd by (simp add: block_in_def spans_def, simp add: m_def)
  then have "block_in data2 m ch" using e2 block_in_append by simp
  moreover have "length data < length data1" using ch(2,3) by (cases ch) auto
  then have "offsets_up (length data) ms"
    unfolding res using m_end e1 by (intro offsets_up_Cons [OF _ ess(3)]) auto
  ultimately show ?case
    using ess ch(1) res by (intro exI [of _ "ch # ess"]) auto
qed (simp add: offsets_up_def)

lemma append_shards_extends: "append_shards buf i gs = (buf', crs) \<Longrightarrow> \<exists>ext. buf' = buf @ ext"
  by (induction buf i gs arbitrary: crs rule: append_shards.induct)
    (fastforce simp: Let_def split: prod.splits)+

lemma append_shards_layout:
  "append_shards buf i gs = (buf', crs) \<Longrightarrow> length buf' < 2 ^ 32 \<Longrightarrow>
    list_all2 (shard_in buf' i) crs gs \<and> offsets_up (length buf) crs"
proof (induction buf i gs arbitrary: crs rule: append_shards.induct)
  case (2 buf i g gs)
  let ?bs = "header_encode (Child i g)"
  obtain crs2 where b: "append_shards (buf @ ?bs) i gs = (buf', crs2)"
    using 2(2) by (auto simp: Let_def split: prod.splits)
  define m where "m = \<lparr>min_key = min_key (hd g), max_key = max_key (last g), bm_offset = word_of_nat (length buf),
    bm_len = word_of_nat (length ?bs) :: u32\<rparr>"
  have res: "crs = m # crs2" using 2(2) b by (simp add: Let_def m_def)
  obtain e1 where e1: "buf' = (buf @ ?bs) @ e1" using append_shards_extends [OF b] by blast
  have len: "length (buf @ ?bs) < 2 ^ 32" using 2(3) e1 by simp
  note m_end = meta_at_end [OF len m_def]
  have "shard_in buf' i m g"
    unfolding e1 using m_end by (intro shard_in_append [of "buf @ header_encode (Child i g)"])
      (simp add: shard_in_def, simp add: m_def)
  moreover have ih: "list_all2 (shard_in buf' i) crs2 gs \<and> offsets_up (length (buf @ ?bs)) crs2"
    using 2(1) [OF refl refl] b 2(3) by simp
  moreover have "offsets_up (length buf) crs"
    unfolding res using m_end ih header_encode_pos [of "Child i g"] by (intro offsets_up_Cons) auto
  ultimately show ?case using res by simp
qed (simp add: offsets_up_def)

lemma chunks_concat: "0 < n \<Longrightarrow> concat (chunks n xs) = xs"
  by (induction n xs rule: chunks.induct) (subst chunks.simps, simp)

lemma chunks_nonempty: "g \<in> set (chunks n xs) \<Longrightarrow> g \<noteq> []"
  by (induction n xs rule: chunks.induct) (subst (asm) (2) chunks.simps, auto split: if_splits)

text \<open>Lists related blockwise to a concatenation split the same way.\<close>

lemma list_all2_concat_split:
  "list_all2 P (concat gs) ys \<Longrightarrow> \<exists>yss. concat yss = ys \<and> list_all2 (list_all2 P) gs yss"
proof (induction gs arbitrary: ys)
  case (Cons g gs)
  then obtain us vs where "ys = us @ vs" "list_all2 P g us" "list_all2 P (concat gs) vs"
    by (auto simp: list_all2_append1)
  with Cons.IH [of vs] show ?case by (metis concat.simps(2) list_all2_Cons)
qed simp

definition table_blocks :: "fastbloom \<Rightarrow> table_config \<Rightarrow> key_value list \<Rightarrow> block_meta list" where
  "table_blocks fb cfg es = b_blocks (build fb cfg es)"

lemma build_fields:
  assumes "build_blocks (max (page_size_bytes (tc_page cfg)) 1) [] es = (data, ms)"
  shows "b_buf (build fb cfg es) = data" "b_blocks (build fb cfg es) = ms"
  using assms by (simp_all add: build_def Let_def)

lemma table_index_layout:
  assumes "length (table_file fb i cfg es) < 2 ^ 32"
  shows "\<exists>ess. concat ess = es \<and> list_all2 (block_in (table_file fb i cfg es)) (table_blocks fb cfg es) ess \<and>
      offsets_up 0 (table_blocks fb cfg es) \<and>
      (case snd (table_index fb i cfg es) of
         Inline ms \<Rightarrow> ms = table_blocks fb cfg es
       | Sharded crs \<Rightarrow> \<exists>gs. concat gs = table_blocks fb cfg es \<and> [] \<notin> set gs \<and>
           list_all2 (shard_in (table_file fb i cfg es) i) crs gs \<and> offsets_up 0 crs)"
proof -
  let ?f = "table_file fb i cfg es" and ?pc = "max (blocks_per_chunk (tc_page cfg)) 1"
  obtain data ms where b: "build_blocks (max (page_size_bytes (tc_page cfg)) 1) [] es = (data, ms)"
    by fastforce
  note bf = build_fields [OF b]
  obtain tail where tail: "?f = fst (table_index fb i cfg es) @ tail"
    by (simp add: table_file_def Let_def)
  show ?thesis
  proof (cases "length ms \<le> ?pc")
    case True
    then have ti: "table_index fb i cfg es = (data, Inline ms)" using bf by (simp add: table_index_def)
    then have "length data < 2 ^ 32" using tail assms by simp
    from build_blocks_layout [OF b this] obtain ess where
      "concat ess = es" "list_all2 (block_in data) ms ess" "offsets_up 0 ms" by auto
    then show ?thesis
      using ti bf tail by (auto simp: table_blocks_def intro!: exI [of _ ess] elim!: list_all2_mono block_in_append)
  next
    case False
    obtain buf crs where sh: "append_shards data i (chunks ?pc ms) = (buf, crs)" by fastforce
    have ti: "table_index fb i cfg es = (buf, Sharded crs)" using bf sh False by (simp add: table_index_def)
    then have lb: "length buf < 2 ^ 32" using tail assms by simp
    obtain ext where ext: "buf = data @ ext" using append_shards_extends [OF sh] by blast
    from build_blocks_layout [OF b] lb ext obtain ess where
      ess: "concat ess = es" "list_all2 (block_in data) ms ess" "offsets_up 0 ms" by auto
    have f: "?f = data @ ext @ tail" "?f = buf @ tail" using tail ti ext by auto
    have "list_all2 (block_in ?f) ms ess"
      using ess(2) unfolding f(1) by (rule list_all2_mono) (rule block_in_append)
    moreover have "list_all2 (shard_in ?f i) crs (chunks ?pc ms)" "offsets_up 0 crs"
      using append_shards_layout [OF sh lb] unfolding f(2)
      by (auto simp: offsets_up_def elim: list_all2_mono intro: shard_in_append)
    moreover have "concat (chunks ?pc ms) = ms" "[] \<notin> set (chunks ?pc ms)"
      using chunks_concat [of ?pc ms] chunks_nonempty [of _ ?pc ms] by auto
    ultimately show ?thesis
      using ti bf ess by (auto simp: table_blocks_def)
  qed
qed

section \<open>Files and caches that agree with the tables\<close>

text \<open>\<open>tabs\<close> maps each table to the configuration and the records it was written with.\<close>

type_synonym tables = "sstable_id \<rightharpoonup> table_config \<times> key_value list"

definition table_ok :: "fastbloom \<Rightarrow> sstable_id \<Rightarrow> table_config \<Rightarrow> key_value list \<Rightarrow> bool" where
  "table_ok fb i cfg es \<longleftrightarrow> length (table_file fb i cfg es) < 2 ^ 32 \<and> kv_sorted es"

definition store_ok :: "fastbloom \<Rightarrow> sst_dir option \<Rightarrow> tables \<Rightarrow> bool" where
  "store_ok fb dir tabs \<longleftrightarrow> (\<forall>i cfg es. tabs i = Some (cfg, es) \<longrightarrow>
    sst_file dir i = Some (table_file fb i cfg es) \<and> table_ok fb i cfg es)"

fun header_truth :: "fastbloom \<Rightarrow> tables \<Rightarrow> header_id \<Rightarrow> bytes \<Rightarrow> bool" where
  "header_truth fb tabs (RootId i) b \<longleftrightarrow>
    (\<exists>cfg es. tabs i = Some (cfg, es) \<and> b = header_encode (table_root fb i cfg es))"
| "header_truth fb tabs (ChildId i off) b \<longleftrightarrow>
    (\<exists>cfg es crs m. tabs i = Some (cfg, es) \<and> snd (table_index fb i cfg es) = Sharded crs \<and>
      m \<in> set crs \<and> bm_offset m = off \<and> b = bytes_at (table_file fb i cfg es) m)"

fun block_truth :: "fastbloom \<Rightarrow> tables \<Rightarrow> page_id \<Rightarrow> bytes \<Rightarrow> bool" where
  "block_truth fb tabs (PageId i off) b \<longleftrightarrow>
    (\<exists>cfg es m. tabs i = Some (cfg, es) \<and> m \<in> set (table_blocks fb cfg es) \<and>
      bm_offset m = off \<and> b = bytes_at (table_file fb i cfg es) m)"

definition cache_ok :: "fastbloom \<Rightarrow> tables \<Rightarrow> sst_cache \<Rightarrow> bool" where
  "cache_ok fb tabs c \<longleftrightarrow>
    coherent (header_truth fb tabs) (sc_headers c) \<and> coherent (block_truth fb tabs) (sc_blocks c)"

lemma cache_ok_new [simp]: "cache_ok fb tabs (sst_cache_new config)"
  by (simp add: cache_ok_def sst_cache_new_def)

text \<open>Adding tables keeps a cache that agrees with the old ones.\<close>

lemma cache_ok_extend:
  assumes "cache_ok fb tabs c" and "tabs \<subseteq>\<^sub>m tabs'"
  shows "cache_ok fb tabs' c"
proof -
  have sub: "tabs i = Some x \<Longrightarrow> tabs' i = Some x" for i x using assms(2) by (auto simp: map_le_def dom_def)
  have "header_truth fb tabs k b \<Longrightarrow> header_truth fb tabs' k b" for k b
    by (cases k) (simp, blast dest: sub)+
  moreover have "block_truth fb tabs k b \<Longrightarrow> block_truth fb tabs' k b" for k b
    by (cases k) (simp, blast dest: sub)
  ultimately show ?thesis using assms(1) by (auto simp: cache_ok_def coherent_def)
qed

lemma get_or_load_unique:
  assumes "coherent ok c" and "ok key v" and "\<And>v'. ok key v' \<Longrightarrow> v' = v"
    and "get_or_load weight key (Inr v) c = (r, c')"
  shows "r = Inr v \<and> coherent ok c'"
proof -
  have "coherent ok c' \<and> (\<forall>v'. r = Inr v' \<longrightarrow> ok key v')"
    using get_or_load_coherent [OF assms(1) _ assms(4)] assms(2) by auto
  moreover have "\<exists>v'. r = Inr v'" using assms(4) by (auto simp: get_or_load_def split: option.splits)
  ultimately show ?thesis using assms(3) by auto
qed

lemma fetch_header_ok:
  assumes "cache_ok fb tabs c" and "header_truth fb tabs k v"
    and "\<And>v'. header_truth fb tabs k v' \<Longrightarrow> v' = v"
  shows "\<exists>c'. fetch_header k (Inr v) c = (Inr v, c') \<and> cache_ok fb tabs c'"
proof -
  obtain r h where g: "get_or_load length k (Inr v :: lsm_msg + bytes) (sc_headers c) = (r, h)" by fastforce
  have coh: "coherent (header_truth fb tabs) (sc_headers c)" using assms(1) by (simp add: cache_ok_def)
  have "r = Inr v \<and> coherent (header_truth fb tabs) h"
    by (rule get_or_load_unique [OF coh assms(2,3) g])
  then show ?thesis using g assms(1) by (auto simp: fetch_header_def cache_ok_def)
qed

lemma fetch_block_ok:
  assumes "cache_ok fb tabs c" and "block_truth fb tabs k v"
    and "\<And>v'. block_truth fb tabs k v' \<Longrightarrow> v' = v"
  shows "\<exists>c'. fetch_block k (Inr v) c = (Inr v, c') \<and> cache_ok fb tabs c'"
proof -
  obtain r h where g: "get_or_load length k (Inr v :: lsm_msg + bytes) (sc_blocks c) = (r, h)" by fastforce
  have coh: "coherent (block_truth fb tabs) (sc_blocks c)" using assms(1) by (simp add: cache_ok_def)
  have "r = Inr v \<and> coherent (block_truth fb tabs) h"
    by (rule get_or_load_unique [OF coh assms(2,3) g])
  then show ?thesis using g assms(1) by (auto simp: fetch_block_def cache_ok_def)
qed

lemma offsets_up_unique:
  assumes "offsets_up n ms" "m \<in> set ms" "m' \<in> set ms" "bm_offset m = bm_offset m'"
  shows "m = m'"
proof -
  have "sorted_wrt (\<lambda>a b. bm_offset a < bm_offset b) ms" using assms(1) by (simp add: offsets_up_def)
  then show ?thesis using assms(2-) by (induction ms) auto
qed

lemma read_range_fits:
  assumes "sst_file dir i = Some f" "fits f m"
  shows "read_range dir i (bm_offset m) (bm_len m) = Inr (bytes_at f m)"
  using assms by (auto simp: read_range_def fits_def bytes_at_def)

lemma read_header_page_ok:
  assumes "sst_file dir i = Some (table_file fb i cfg es)" "length (table_file fb i cfg es) < 2 ^ 32"
  shows "read_header_page dir i = Inr (header_encode (table_root fb i cfg es))"
proof -
  let ?r = "header_encode (table_root fb i cfg es)" and ?b = "fst (table_index fb i cfg es)"
  have f: "table_file fb i cfg es = ?b @ ?r @ to_be 4 (word_of_nat (length ?r) :: u32)"
    by (simp add: table_file_def Let_def)
  then have "length ?r < 2 ^ 32" using assms(2) by simp
  then have u: "unat (word_of_nat (length ?r) :: u32) = length ?r" by (rule unat_small)
  have l: "length (table_file fb i cfg es) = length ?b + length ?r + 4" by (simp add: f)
  have "drop (length ?b + length ?r) (table_file fb i cfg es) = to_be 4 (word_of_nat (length ?r) :: u32)"
    "take (length ?r) (drop (length ?b) (table_file fb i cfg es)) = ?r"
    by (simp_all add: f)
  then show ?thesis
    by (simp add: read_header_page_def assms(1) l Let_def u)
qed

section \<open>Opening a table\<close>

text \<open>The handle of a table.\<close>

definition table_of :: "fastbloom \<Rightarrow> sstable_id \<Rightarrow> table_config \<Rightarrow> key_value list \<Rightarrow> sstable" where
  "table_of fb i cfg es =
    (let b = build fb cfg es in
     \<lparr>st_id = i, st_range = b_range b, st_bloom = b_bloom b, st_size_bytes = b_size_bytes b,
      st_index = snd (table_index fb i cfg es)\<rparr>)"

lemma table_of_sel [simp]:
  "st_id (table_of fb i cfg es) = i" "st_range (table_of fb i cfg es) = b_range (build fb cfg es)"
  "st_bloom (table_of fb i cfg es) = b_bloom (build fb cfg es)"
  "st_index (table_of fb i cfg es) = snd (table_index fb i cfg es)"
  by (simp_all add: table_of_def Let_def)

lemma store_okD:
  assumes "store_ok fb dir tabs" and "tabs i = Some (cfg, es)"
  shows "sst_file dir i = Some (table_file fb i cfg es)" "length (table_file fb i cfg es) < 2 ^ 32" "kv_sorted es"
  using assms by (simp_all add: store_ok_def table_ok_def)

lemma sst_open_ok:
  assumes "store_ok fb dir tabs" "cache_ok fb tabs c" "tabs i = Some (cfg, es)"
  shows "\<exists>c'. sst_open i dir c = (Inr (table_of fb i cfg es), c') \<and> cache_ok fb tabs c'"
proof -
  let ?r = "header_encode (table_root fb i cfg es)"
  have "length ?r \<le> length (table_file fb i cfg es)" by (simp add: table_file_def Let_def)
  then have "header_ok (table_root fb i cfg es)"
    using store_okD(2) [OF assms(1,3)] by (intro header_ok_of_length) simp
  from header_decode_encode [OF this, of "[]"]
  have dec: "header_decode ?r = Inr (table_root fb i cfg es, [])" by simp
  have "header_truth fb tabs (RootId i) ?r" "\<And>v'. header_truth fb tabs (RootId i) v' \<Longrightarrow> v' = ?r"
    using assms(3) by auto
  from fetch_header_ok [OF assms(2) this] obtain c' where
    c': "fetch_header (RootId i) (Inr ?r) c = (Inr ?r, c')" "cache_ok fb tabs c'" by blast
  have "read_header_page dir i = Inr ?r"
    by (rule read_header_page_ok) (use store_okD [OF assms(1,3)] in simp_all)
  then show ?thesis
    using c' dec by (simp add: sst_open_def table_root_def table_of_def Let_def)
qed

section \<open>The point lookup\<close>

lemma kv_ok_of_length: "length (block_encode es) < 2 ^ 32 \<Longrightarrow> kv \<in> set es \<Longrightarrow> kv_ok kv"
  by (induction es) (auto simp: kv_ok_def entry_size_def)

lemma spans_bounds:
  assumes "spans m es" "kv_sorted es" "kv \<in> set es"
  shows "min_key m \<le> ukey kv" "ukey kv \<le> max_key m"
proof -
  have s: "sorted (map ukey es)" using assms(2) by (rule kv_sorted_user_keys)
  obtain x xs where es: "es = x # xs" using assms(1) by (cases es) (auto simp: spans_def)
  show "min_key m \<le> ukey kv" using s assms(1,3) es by (auto simp: spans_def)
  obtain ys y where es': "es = ys @ [y]" using assms(1) by (cases es rule: rev_cases) (auto simp: spans_def)
  show "ukey kv \<le> max_key m" using s assms(1,3) es' by (auto simp: spans_def sorted_append)
qed

lemma visible_None_iff:
  "(\<And>kv. kv \<in> set es \<Longrightarrow> ukey kv = k \<Longrightarrow> ik_seq (kv_key kv) \<le> s) \<Longrightarrow>
    visible k s es = None \<longleftrightarrow> k \<notin> ukey ` set es"
  by (auto simp: visible_def find_None_iff)

text \<open>
  When no record of the key is newer than the snapshot, the first covering meta
  leads to its newest version.
\<close>

lemma covering_visible:
  assumes "list_all2 spans ms ess" "kv_sorted (concat ess)"
    and "\<And>kv. kv \<in> set (concat ess) \<Longrightarrow> ukey kv = k \<Longrightarrow> ik_seq (kv_key kv) \<le> s"
  shows "case covering ms k of
      None \<Rightarrow> visible k s (concat ess) = None
    | Some m \<Rightarrow> \<exists>n < length ms. m = ms ! n \<and> visible k s (ess ! n) = visible k s (concat ess)"
  using assms
proof (induction ms ess rule: list_all2_induct)
  case (Cons m ms es ess)
  have srt: "kv_sorted es" "kv_sorted (concat ess)" "\<And>x y. x \<in> set es \<Longrightarrow> y \<in> set (concat ess) \<Longrightarrow> kv_lt x y"
    using Cons.prems(1) by (auto simp: sorted_wrt_append)
  have low: "\<And>kv. kv \<in> set es \<Longrightarrow> ukey kv = k \<Longrightarrow> ik_seq (kv_key kv) \<le> s"
    "\<And>kv. kv \<in> set (concat ess) \<Longrightarrow> ukey kv = k \<Longrightarrow> ik_seq (kv_key kv) \<le> s"
    using Cons.prems(2) by auto
  show ?case
  proof (cases "min_key m \<le> k \<and> k \<le> max_key m")
    case True
    have "visible k s es = visible k s (concat (es # ess))"
    proof (cases "visible k s es")
      case None
      have last: "last es \<in> set es" "ukey (last es) = max_key m" using Cons.hyps(1) by (auto simp: spans_def)
      have "k \<notin> ukey ` set es" using None visible_None_iff low(1) by blast
      then have "k < ukey (last es)" using True last by (metis imageI order.not_eq_order_implies_strict)
      then have "k \<notin> ukey ` set (concat ess)" using srt(3) [OF last(1)] by (force simp: ikey_lt_def)
      then have "visible k s (concat ess) = None" using visible_None_iff low(2) by blast
      then show ?thesis using None by (simp add: visible_append)
    qed (simp add: visible_append)
    then show ?thesis using True by (auto simp: covering_def intro!: exI [of _ 0])
  next
    case False
    then have "k \<notin> ukey ` set es" using spans_bounds [OF Cons.hyps(1) srt(1)] by auto
    then have "visible k s es = None" using visible_None_iff low(1) by blast
    then have eq: "visible k s (concat (es # ess)) = visible k s (concat ess)" by (simp add: visible_append)
    have cov: "covering (m # ms) k = covering ms k" using False by (auto simp: covering_def)
    show ?thesis
    proof (cases "covering ms k")
      case None
      then show ?thesis using Cons.IH [OF srt(2) low(2)] unfolding cov eq by simp
    next
      case (Some m')
      then obtain n where "n < length ms" "m' = ms ! n" "visible k s (ess ! n) = visible k s (concat ess)"
        using Cons.IH [OF srt(2) low(2)] by auto
      then show ?thesis unfolding cov eq using Some by (auto intro!: exI [of _ "Suc n"])
    qed
  qed
qed (simp add: covering_def visible_def)

lemma concat_hd_last:
  "ess \<noteq> [] \<Longrightarrow> [] \<notin> set ess \<Longrightarrow> concat ess \<noteq> [] \<and> hd (concat ess) = hd (hd ess) \<and> last (concat ess) = last (last ess)"
proof (induction ess)
  case (Cons es ess)
  then show ?case by (cases "ess = []") (auto simp: hd_append last_append)
qed simp

lemma blocks_span:
  assumes "ms \<noteq> []" and "list_all2 (block_in f) ms ess"
    and "min_key m = min_key (hd ms)" "max_key m = max_key (last ms)"
  shows "spans m (concat ess)"
proof -
  have ne: "ess \<noteq> []" and len: "length ms = length ess" using assms(1,2) by (auto dest: list_all2_lengthD)
  have nth: "block_in f (ms ! n) (ess ! n)" if "n < length ess" for n
    using that assms(2) len by (simp add: list_all2_conv_all_nth)
  have "block_in f (hd ms) (hd ess)" "block_in f (last ms) (last ess)"
    using ne len assms(1) nth by (simp_all add: hd_conv_nth last_conv_nth)
  moreover have "[] \<notin> set ess" using nth by (fastforce simp: in_set_conv_nth block_in_def spans_def)
  ultimately show ?thesis
    using concat_hd_last [of ess] ne assms(3,4) by (simp add: spans_def block_in_def)
qed

lemma shard_spans:
  "shard_in f i m ms \<Longrightarrow> ms \<noteq> [] \<Longrightarrow> list_all2 (block_in f) ms ess \<Longrightarrow> spans m (concat ess)"
  by (rule blocks_span) (simp_all add: shard_in_def)

lemma fetch_child_ok:
  assumes st: "store_ok fb dir tabs" and c: "cache_ok fb tabs c" and t: "tabs i = Some (cfg, es)"
    and idx: "snd (table_index fb i cfg es) = Sharded crs" and up: "offsets_up 0 crs"
    and m: "m \<in> set crs" and sh: "shard_in (table_file fb i cfg es) i m g"
  shows "\<exists>c' page. fetch_header (ChildId i (bm_offset m)) (read_range dir i (bm_offset m) (bm_len m)) c =
      (Inr page, c') \<and> child_blocks page = Inr g \<and> cache_ok fb tabs c'"
proof -
  let ?f = "table_file fb i cfg es" and ?p = "header_encode (Child i g)"
  note f = store_okD [OF st t]
  have p: "bytes_at ?f m = ?p" "fits ?f m" using sh by (simp_all add: shard_in_def)
  have "length ?p \<le> length ?f" unfolding p(1) [symmetric] by (simp add: bytes_at_def)
  then have "header_ok (Child i g)" using f(2) by (intro header_ok_of_length) simp
  from header_decode_encode [OF this, of "[]"] have dec: "child_blocks ?p = Inr g" by (simp add: child_blocks_def)
  have "header_truth fb tabs (ChildId i (bm_offset m)) ?p"
    using t idx m p(1) by auto
  moreover have "v' = ?p" if "header_truth fb tabs (ChildId i (bm_offset m)) v'" for v'
    using that t idx p(1) offsets_up_unique [OF up _ m] by auto
  ultimately obtain c' where "fetch_header (ChildId i (bm_offset m)) (Inr ?p) c = (Inr ?p, c')" "cache_ok fb tabs c'"
    using fetch_header_ok [OF c] by blast
  then show ?thesis using read_range_fits [OF f(1) p(2)] p(1) dec by auto
qed

lemma fetch_data_ok:
  assumes st: "store_ok fb dir tabs" and c: "cache_ok fb tabs c" and t: "tabs i = Some (cfg, es)"
    and m: "m \<in> set (table_blocks fb cfg es)" and b: "block_in (table_file fb i cfg es) m bs"
  shows "\<exists>c' page. fetch_block (PageId i (bm_offset m)) (read_range dir i (bm_offset m) (bm_len m)) c =
      (Inr page, c') \<and> block_decode page = Inr bs \<and> cache_ok fb tabs c'"
proof -
  let ?f = "table_file fb i cfg es" and ?p = "block_encode bs"
  note f = store_okD [OF st t]
  have p: "bytes_at ?f m = ?p" "fits ?f m" using b by (simp_all add: block_in_def)
  have "length ?p \<le> length ?f" unfolding p(1) [symmetric] by (simp add: bytes_at_def)
  then have "length ?p < 2 ^ 32" using f(2) by simp
  then have dec: "block_decode ?p = Inr bs" by (rule block_decode_encode [OF kv_ok_of_length])
  obtain ess where up: "offsets_up 0 (table_blocks fb cfg es)" using table_index_layout [OF f(2)] by blast
  have "block_truth fb tabs (PageId i (bm_offset m)) ?p"
    using t m p(1) by auto
  moreover have "v' = ?p" if "block_truth fb tabs (PageId i (bm_offset m)) v'" for v'
    using that t p(1) offsets_up_unique [OF up _ m] by auto
  ultimately obtain c' where "fetch_block (PageId i (bm_offset m)) (Inr ?p) c = (Inr ?p, c')" "cache_ok fb tabs c'"
    using fetch_block_ok [OF c] by blast
  then show ?thesis using read_range_fits [OF f(1) p(2)] p(1) dec by auto
qed

lemma concat_concat_map: "concat (concat xss) = concat (map concat xss)"
  by (induction xss) auto

lemma set_concat_part: "xs \<in> set xss \<Longrightarrow> set xs \<subseteq> set (concat xss)"
  by auto

text \<open>One shard of a table: its blocks and their records.\<close>

fun shard_of :: "bytes \<Rightarrow> sstable_id \<Rightarrow> block_meta \<Rightarrow> block_meta list \<times> key_value list list \<Rightarrow> bool" where
  "shard_of f i cr (g, bss) \<longleftrightarrow> shard_in f i cr g \<and> list_all2 (block_in f) g bss \<and> spans cr (concat bss)"

definition shard_recs :: "block_meta list \<times> key_value list list \<Rightarrow> key_value list" where
  "shard_recs p = concat (snd p)"

lemma shard_recs_eq [simp]: "shard_recs (g, bss) = concat bss"
  by (simp add: shard_recs_def)

lemma map_shard_recs: "map shard_recs ps = map concat (map snd ps)"
  by (simp add: shard_recs_def)

lemma list_all2_shards:
  "list_all2 (shard_in f i) crs gs \<Longrightarrow> list_all2 (list_all2 (block_in f)) gs esss \<Longrightarrow> [] \<notin> set gs \<Longrightarrow>
    list_all2 (shard_of f i) crs (zip gs esss) \<and> map fst (zip gs esss) = gs \<and> map snd (zip gs esss) = esss"
proof (induction crs gs arbitrary: esss rule: list_all2_induct)
  case (Cons cr crs g gs)
  then obtain bss esss' where "esss = bss # esss'" "list_all2 (block_in f) g bss"
      "list_all2 (list_all2 (block_in f)) gs esss'"
    by (auto simp: list_all2_Cons1)
  then show ?case using Cons shard_spans [of f i cr g bss] by auto
qed simp

lemma table_shards:
  assumes "length (table_file fb i cfg es) < 2 ^ 32" and "snd (table_index fb i cfg es) = Sharded crs"
  shows "\<exists>ps. concat (map fst ps) = table_blocks fb cfg es \<and> concat (map shard_recs ps) = es \<and>
    list_all2 (shard_of (table_file fb i cfg es) i) crs ps \<and> offsets_up 0 crs"
proof -
  let ?f = "table_file fb i cfg es"
  obtain ess gs where ess: "concat ess = es" "list_all2 (block_in ?f) (concat gs) ess"
    and gs: "concat gs = table_blocks fb cfg es" "[] \<notin> set gs" "list_all2 (shard_in ?f i) crs gs" "offsets_up 0 crs"
    using table_index_layout [OF assms(1)] assms(2) by auto
  obtain esss where "concat esss = ess" "list_all2 (list_all2 (block_in ?f)) gs esss"
    using list_all2_concat_split [OF ess(2)] by blast
  with list_all2_shards [OF gs(3) this(2) gs(2)] show ?thesis
    using gs ess(1) concat_concat_map [of esss] by (intro exI [of _ "zip gs esss"]) (simp only: map_shard_recs simp_thms)
qed

lemma table_inline:
  assumes "length (table_file fb i cfg es) < 2 ^ 32" and "snd (table_index fb i cfg es) = Inline ms"
  shows "\<exists>ess. concat ess = es \<and> list_all2 (block_in (table_file fb i cfg es)) ms ess \<and> ms = table_blocks fb cfg es"
  using table_index_layout [OF assms(1)] assms(2) by auto

lemma kv_sorted_part: "kv_sorted (concat xss) \<Longrightarrow> xs \<in> set xss \<Longrightarrow> kv_sorted xs"
  by (induction xss) (auto simp: sorted_wrt_append)

text \<open>Within one list of blocks: the block the index leads to decides the lookup.\<close>

definition decides :: "bytes \<Rightarrow> bytes \<Rightarrow> u64 \<Rightarrow> key_value list \<Rightarrow> block_meta list \<Rightarrow> block_meta option \<Rightarrow> bool" where
  "decides f k s es ms r \<longleftrightarrow>
    (case r of None \<Rightarrow> visible k s es = None
     | Some m \<Rightarrow> m \<in> set ms \<and> (\<exists>bs. block_in f m bs \<and> visible k s bs = visible k s es))"

lemma covering_decides:
  assumes "list_all2 (block_in f) ms bss" "kv_sorted (concat bss)"
    and "\<And>kv. kv \<in> set (concat bss) \<Longrightarrow> ukey kv = k \<Longrightarrow> ik_seq (kv_key kv) \<le> s"
  shows "decides f k s (concat bss) ms (covering ms k)"
proof -
  have "list_all2 spans ms bss" using assms(1) by (rule list_all2_mono) (simp add: block_in_def)
  then have cv: "case covering ms k of
      None \<Rightarrow> visible k s (concat bss) = None
    | Some m \<Rightarrow> \<exists>n < length ms. m = ms ! n \<and> visible k s (bss ! n) = visible k s (concat bss)"
    using assms(2,3) by (rule covering_visible)
  show ?thesis
  proof (cases "covering ms k")
    case (Some m)
    then obtain n where "n < length ms" "m = ms ! n" "visible k s (bss ! n) = visible k s (concat bss)"
      using cv by auto
    then show ?thesis
      using list_all2_nthD [OF assms(1)] Some by (auto simp: decides_def intro!: exI [of _ "bss ! n"])
  qed (use cv in \<open>simp add: decides_def\<close>)
qed

lemma locate_block_ok:
  assumes st: "store_ok fb dir tabs" and c: "cache_ok fb tabs c" and t: "tabs i = Some (cfg, es)"
    and new: "\<And>kv. kv \<in> set es \<Longrightarrow> ukey kv = k \<Longrightarrow> ik_seq (kv_key kv) \<le> s"
  shows "\<exists>r c'. locate_block dir (table_of fb i cfg es) k c = (Inr r, c') \<and> cache_ok fb tabs c' \<and>
    decides (table_file fb i cfg es) k s es (table_blocks fb cfg es) r"
proof (cases "snd (table_index fb i cfg es)")
  case (Inline ms)
  then obtain ess where "concat ess = es" "list_all2 (block_in (table_file fb i cfg es)) ms ess" "ms = table_blocks fb cfg es"
    using table_inline store_okD(2) [OF st t] by blast
  then show ?thesis
    using covering_decides [of _ ms ess k s] store_okD(3) [OF st t] new c Inline by (auto simp: locate_block_def)
next
  case (Sharded crs)
  let ?f = "table_file fb i cfg es"
  note f = store_okD [OF st t]
  obtain ps where ps: "concat (map fst ps) = table_blocks fb cfg es" "concat (map shard_recs ps) = es"
      "list_all2 (shard_of ?f i) crs ps" "offsets_up 0 crs"
    using table_shards [OF f(2) Sharded] by blast
  have "list_all2 spans crs (map shard_recs ps)"
    unfolding list_all2_map2 using ps(3) by (rule list_all2_mono) auto
  from covering_visible [OF this, of k s] have cv: "case covering crs k of
      None \<Rightarrow> visible k s es = None
    | Some m \<Rightarrow> \<exists>n < length crs. m = crs ! n \<and> visible k s (map shard_recs ps ! n) = visible k s es"
    unfolding ps(2) using f(3) new by blast
  show ?thesis
  proof (cases "covering crs k")
    case None
    then show ?thesis using cv c Sharded by (auto simp: locate_block_def decides_def)
  next
    case (Some cr)
    then obtain n where n: "n < length crs" "cr = crs ! n" "visible k s (map shard_recs ps ! n) = visible k s es"
      using cv by auto
    obtain g bss where p: "ps ! n = (g, bss)" by fastforce
    have np: "n < length ps" using n(1) ps(3) by (simp add: list_all2_lengthD)
    have g: "shard_in ?f i cr g" "list_all2 (block_in ?f) g bss" "visible k s (concat bss) = visible k s es"
      using list_all2_nthD [OF ps(3) n(1)] p n(2,3) np by auto
    have part: "shard_recs (g, bss) \<in> set (map shard_recs ps)" "g \<in> set (map fst ps)"
      using np p nth_mem by (metis image_eqI list.set_map fst_conv)+
    have srt: "kv_sorted (concat bss)" using kv_sorted_part [OF _ part(1)] ps(2) f(3) by simp
    have sub: "set (concat bss) \<subseteq> set es" using set_concat_part [OF part(1)] ps(2) by simp
    have ms: "set g \<subseteq> set (table_blocks fb cfg es)" using set_concat_part [OF part(2)] ps(1) by simp
    obtain c' page where "fetch_header (ChildId i (bm_offset cr)) (read_range dir i (bm_offset cr) (bm_len cr)) c =
        (Inr page, c')" "child_blocks page = Inr g" "cache_ok fb tabs c'"
      using fetch_child_ok [OF st c t Sharded ps(4) _ g(1)] n(1,2) by auto
    moreover have "decides ?f k s (concat bss) g (covering g k)"
      using g(2) srt by (rule covering_decides) (use sub new in auto)
    then have "decides ?f k s es (table_blocks fb cfg es) (covering g k)"
      using ms g(3) by (auto simp: decides_def split: option.splits)
    ultimately show ?thesis
      using Some Sharded by (auto simp: locate_block_def load_child_def)
  qed
qed

lemma build_range_bloom:
  assumes "kv \<in> set es" "no_false_negatives fb"
  shows "bloom_contains fb (b_bloom (build fb cfg es)) (ukey kv)"
  using assms by (auto simp: build_def bloom_build_def bloom_contains_def no_false_negatives_def Let_def
      split: prod.splits)

lemma build_range_contains:
  assumes st: "store_ok fb dir tabs" and t: "tabs i = Some (cfg, es)" and kv: "kv \<in> set es"
  shows "kr_contains (b_range (build fb cfg es)) (ukey kv)"
proof -
  note f = store_okD [OF st t]
  obtain ess where ess: "concat ess = es" "list_all2 (block_in (table_file fb i cfg es)) (table_blocks fb cfg es) ess"
    using table_index_layout [OF f(2)] by blast
  let ?ms = "table_blocks fb cfg es"
  define m where "m = \<lparr>min_key = min_key (hd ?ms), max_key = max_key (last ?ms), bm_offset = 0, bm_len = 0\<rparr>"
  have ne: "?ms \<noteq> []" using ess kv by auto
  have "spans m es" using blocks_span [OF ne ess(2), of m] ess(1) by (simp add: m_def)
  from spans_bounds [OF this f(3) kv] ne show ?thesis
    by (simp add: m_def kr_contains_def build_def table_blocks_def Let_def split: prod.splits)
qed

text \<open>
  A lookup at a snapshot at least as new as every version of the key finds the
  newest version, through the range check, the filter, the index and the block.
\<close>

lemma sst_get_ok:
  assumes st: "store_ok fb dir tabs" and c: "cache_ok fb tabs c" and t: "tabs i = Some (cfg, es)"
    and fb: "no_false_negatives fb"
    and new: "\<And>kv. kv \<in> set es \<Longrightarrow> ukey kv = k \<Longrightarrow> ik_seq (kv_key kv) \<le> s"
  shows "\<exists>c'. sst_get fb dir (table_of fb i cfg es) k s c = (Inr (visible k s es), c') \<and> cache_ok fb tabs c'"
proof (cases "kr_contains (b_range (build fb cfg es)) k \<and> bloom_contains fb (b_bloom (build fb cfg es)) k")
  case False
  then have "k \<notin> ukey ` set es"
    using build_range_contains [OF st t] build_range_bloom [OF _ fb] by auto
  then have "visible k s es = None" using visible_None_iff [OF new] by simp
  then show ?thesis using False c by (auto simp: sst_get_def)
next
  case True
  obtain r c1 where loc: "locate_block dir (table_of fb i cfg es) k c = (Inr r, c1)" "cache_ok fb tabs c1"
      "decides (table_file fb i cfg es) k s es (table_blocks fb cfg es) r"
    using locate_block_ok [OF st c t new] by blast
  show ?thesis
  proof (cases r)
    case None
    then show ?thesis using loc True by (simp add: sst_get_def decides_def)
  next
    case (Some m)
    then obtain bs where m: "m \<in> set (table_blocks fb cfg es)" "block_in (table_file fb i cfg es) m bs"
        "visible k s bs = visible k s es"
      using loc(3) by (auto simp: decides_def)
    then obtain c2 page where "fetch_block (PageId i (bm_offset m)) (read_range dir i (bm_offset m) (bm_len m)) c1 =
        (Inr page, c2)" "block_decode page = Inr bs" "cache_ok fb tabs c2"
      using fetch_data_ok [OF st loc(2) t] by blast
    then show ?thesis using loc True Some m(3) by (simp add: sst_get_def visible_def)
  qed
qed

end
