(* ===== verification/Sst_Scan.thy ===== *)
theory Sst_Scan
  imports Sst_Layout
begin

text \<open>
  The block stream of a table (\<^verbatim>\<open>BlockStream\<close> in \<^verbatim>\<open>storage/sstable.rs\<close>): what it yields,
  record by record, is the table's records within the bounds and the snapshot, in
  order and without an error, whatever the page cache holds of the table.
\<close>

section \<open>The remaining records of a stream\<close>

lemma in_bounds_within [simp]: "in_bounds k lo hi \<longleftrightarrow> within lo hi k"
  by (cases lo; cases hi) auto

declare in_bounds.simps [simp del] block_overlaps.simps [simp del]

lemma not_overlaps:
  assumes "spans m es" "kv_sorted es" "\<not> block_overlaps m lo hi"
  shows "filter (kv_in lo hi s) es = []"
proof -
  have "\<not> within lo hi k" if "min_key m \<le> k" "k \<le> max_key m" for k
    using assms(3) that by (cases lo; cases hi) (auto simp: block_overlaps.simps)
  then show ?thesis
    using spans_bounds [OF assms(1,2)] by (auto simp: filter_empty_conv kv_in_def)
qed

lemma next_overlap_records:
  "list_all2 spans ms ess \<Longrightarrow> (\<And>es. es \<in> set ess \<Longrightarrow> kv_sorted es) \<Longrightarrow> next_overlap lo hi ms n = (r, n') \<Longrightarrow>
    (case r of
       None \<Rightarrow> filter (kv_in lo hi s) (concat (drop n ess)) = []
     | Some m \<Rightarrow> \<exists>j < length ms. n' = Suc j \<and> m = ms ! j \<and>
         filter (kv_in lo hi s) (concat (drop n ess)) =
           filter (kv_in lo hi s) (ess ! j) @ filter (kv_in lo hi s) (concat (drop n' ess)))"
proof (induction lo hi ms n rule: next_overlap.induct)
  case (1 lo hi ms n)
  have len: "length ess = length ms" using 1(2) by (simp add: list_all2_lengthD)
  show ?case
  proof (cases "n < length ms")
    case True
    have dr: "concat (drop n ess) = ess ! n @ concat (drop (Suc n) ess)"
      using True len by (simp flip: Cons_nth_drop_Suc)
    show ?thesis
    proof (cases "block_overlaps (ms ! n) lo hi")
      case ov: True
      then show ?thesis using 1(4) True dr by (auto simp: next_overlap.simps [of lo hi ms n])
    next
      case False
      have "filter (kv_in lo hi s) (ess ! n) = []"
        using not_overlaps [OF _ _ False] list_all2_nthD [OF 1(2) True] 1(3) [of "ess ! n"] True len by simp
      moreover have "next_overlap lo hi ms (n + 1) = (r, n')"
        using 1(4) True False by (simp add: next_overlap.simps [of lo hi ms n])
      note 1(1) [OF True False 1(2) 1(3) this]
      ultimately show ?thesis using dr by (simp split: option.splits)
    qed
  next
    case False
    then show ?thesis using 1(4) len by (auto simp: next_overlap.simps [of lo hi ms n])
  qed
qed

text \<open>\<open>cursor_rem\<close>: the records of the table a cursor has not passed yet.\<close>

definition blocks_ok :: "fastbloom \<Rightarrow> sstable_id \<Rightarrow> table_config \<Rightarrow> key_value list \<Rightarrow> block_meta list \<Rightarrow> key_value list list \<Rightarrow> bool" where
  "blocks_ok fb i cfg es ms bss \<longleftrightarrow> list_all2 (block_in (table_file fb i cfg es)) ms bss \<and>
    kv_sorted (concat bss) \<and> set ms \<subseteq> set (table_blocks fb cfg es)"

definition shards_ok :: "fastbloom \<Rightarrow> sstable_id \<Rightarrow> table_config \<Rightarrow> key_value list \<Rightarrow> block_meta list \<Rightarrow>
    (block_meta list \<times> key_value list list) list \<Rightarrow> bool" where
  "shards_ok fb i cfg es crs ps \<longleftrightarrow> snd (table_index fb i cfg es) = Sharded crs \<and> offsets_up 0 crs \<and>
    list_all2 (shard_of (table_file fb i cfg es) i) crs ps \<and> (\<forall>(g, bss) \<in> set ps. blocks_ok fb i cfg es g bss)"

fun cursor_rem :: "fastbloom \<Rightarrow> sstable_id \<Rightarrow> table_config \<Rightarrow> key_value list \<Rightarrow> cursor \<Rightarrow> key_value list \<Rightarrow> bool" where
  "cursor_rem fb i cfg es (CInline n) rem \<longleftrightarrow>
    (\<exists>ms bss. snd (table_index fb i cfg es) = Inline ms \<and> blocks_ok fb i cfg es ms bss \<and> rem = concat (drop n bss))"
| "cursor_rem fb i cfg es (CSharded nc child nic) rem \<longleftrightarrow>
    (\<exists>crs ps bss. shards_ok fb i cfg es crs ps \<and> blocks_ok fb i cfg es child bss \<and>
      rem = concat (drop nic bss) @ concat (drop nc (map shard_recs ps)))"

lemma blocks_okD:
  assumes "blocks_ok fb i cfg es ms bss"
  shows "list_all2 spans ms bss" "\<And>bs. bs \<in> set bss \<Longrightarrow> kv_sorted bs"
    "n < length ms \<Longrightarrow> ms ! n \<in> set (table_blocks fb cfg es) \<and> block_in (table_file fb i cfg es) (ms ! n) (bss ! n)"
proof -
  have l: "list_all2 (block_in (table_file fb i cfg es)) ms bss" using assms by (simp add: blocks_ok_def)
  show "list_all2 spans ms bss" using l by (rule list_all2_mono) (simp add: block_in_def)
  show "\<And>bs. bs \<in> set bss \<Longrightarrow> kv_sorted bs" using assms kv_sorted_part by (auto simp: blocks_ok_def)
  show "n < length ms \<Longrightarrow> ms ! n \<in> set (table_blocks fb cfg es) \<and> block_in (table_file fb i cfg es) (ms ! n) (bss ! n)"
    using assms list_all2_nthD [OF l] by (auto simp: blocks_ok_def)
qed

lemma table_shards_ok:
  assumes "store_ok fb dir tabs" "tabs i = Some (cfg, es)" "snd (table_index fb i cfg es) = Sharded crs"
  shows "\<exists>ps. shards_ok fb i cfg es crs ps \<and> concat (map shard_recs ps) = es"
proof -
  note f = store_okD [OF assms(1,2)]
  obtain ps where ps: "concat (map fst ps) = table_blocks fb cfg es" "concat (map shard_recs ps) = es"
    "list_all2 (shard_of (table_file fb i cfg es) i) crs ps" "offsets_up 0 crs"
    using table_shards [OF f(2) assms(3)] by blast
  have "blocks_ok fb i cfg es g bss" if "(g, bss) \<in> set ps" for g bss
  proof -
    have "g \<in> set (map fst ps)" "concat bss \<in> set (map shard_recs ps)" using that by force+
    moreover have "list_all2 (block_in (table_file fb i cfg es)) g bss"
    proof -
      obtain n where "n < length ps" "ps ! n = (g, bss)" using \<open>(g, bss) \<in> set ps\<close> by (auto simp: in_set_conv_nth)
      with list_all2_nthD2 [OF ps(3), of n] show ?thesis by simp
    qed
    moreover have "kv_sorted (concat bss)" using kv_sorted_part [OF _ calculation(2)] ps(2) f(3) by simp
    moreover have "set g \<subseteq> set (table_blocks fb cfg es)" using set_concat_part [OF calculation(1)] ps(1) by simp
    ultimately show ?thesis unfolding blocks_ok_def by blast
  qed
  then show ?thesis using ps assms(3) by (auto simp: shards_ok_def)
qed

lemma cursor_rem_start:
  assumes "store_ok fb dir tabs" "tabs i = Some (cfg, es)"
  shows "cursor_rem fb i cfg es (bs_cursor (sst_scan (table_of fb i cfg es) lo hi s)) es"
proof (cases "snd (table_index fb i cfg es)")
  case (Inline ms)
  then show ?thesis
    using table_inline [OF store_okD(2) [OF assms] Inline] store_okD(3) [OF assms]
    by (auto simp: sst_scan_def blocks_ok_def)
next
  case (Sharded crs)
  have "blocks_ok fb i cfg es [] []" by (simp add: blocks_ok_def)
  moreover obtain ps where "shards_ok fb i cfg es crs ps" "concat (map shard_recs ps) = es"
    using table_shards_ok [OF assms Sharded] by blast
  ultimately have "cursor_rem fb i cfg es (CSharded 0 [] 0) es"
    unfolding cursor_rem.simps by (intro exI [of _ crs] exI [of _ ps] exI [of _ "[]"]) simp
  then show ?thesis using Sharded by (simp add: sst_scan_def)
qed

section \<open>Stepping\<close>

text \<open>
  A step to the next block either finds no record left in range, or leads to a block
  that holds the next ones.
\<close>

definition step_ok :: "fastbloom \<Rightarrow> sstable_id \<Rightarrow> table_config \<Rightarrow> key_value list \<Rightarrow> (key_value \<Rightarrow> bool) \<Rightarrow>
    key_value list \<Rightarrow> (read_error + block_meta) option \<Rightarrow> cursor \<Rightarrow> bool" where
  "step_ok fb i cfg es P rem r cur \<longleftrightarrow>
    r = None \<and> filter P rem = [] \<or>
    (\<exists>m bs rem'. r = Some (Inr m) \<and> m \<in> set (table_blocks fb cfg es) \<and>
      block_in (table_file fb i cfg es) m bs \<and> cursor_rem fb i cfg es cur rem' \<and>
      filter P rem = filter P bs @ filter P rem')"

lemma step_okI:
  "m \<in> set (table_blocks fb cfg es) \<Longrightarrow> block_in (table_file fb i cfg es) m bs \<Longrightarrow> cursor_rem fb i cfg es cur rem' \<Longrightarrow>
    filter P rem = filter P bs @ filter P rem' \<Longrightarrow> step_ok fb i cfg es P rem (Some (Inr m)) cur"
  by (auto simp: step_ok_def)

lemma step_ok_cong: "filter P rem = filter P rem' \<Longrightarrow> step_ok fb i cfg es P rem r cur = step_ok fb i cfg es P rem' r cur"
  by (simp add: step_ok_def)

lemma shards_okD:
  assumes "shards_ok fb i cfg es crs ps"
  shows "list_all2 spans crs (map shard_recs ps)"
    "\<And>bs. bs \<in> set (map shard_recs ps) \<Longrightarrow> kv_sorted bs"
    "n < length crs \<Longrightarrow> n < length ps \<and> shard_in (table_file fb i cfg es) i (crs ! n) (fst (ps ! n)) \<and>
      blocks_ok fb i cfg es (fst (ps ! n)) (snd (ps ! n))"
proof -
  have l: "list_all2 (shard_of (table_file fb i cfg es) i) crs ps" using assms by (simp add: shards_ok_def)
  show "list_all2 spans crs (map shard_recs ps)"
    unfolding list_all2_map2 using l by (rule list_all2_mono) auto
  show "\<And>bs. bs \<in> set (map shard_recs ps) \<Longrightarrow> kv_sorted bs"
    using assms by (auto simp: shards_ok_def blocks_ok_def)
  show "n < length crs \<Longrightarrow> n < length ps \<and> shard_in (table_file fb i cfg es) i (crs ! n) (fst (ps ! n)) \<and>
      blocks_ok fb i cfg es (fst (ps ! n)) (snd (ps ! n))"
    using assms list_all2_nthD [OF l, of n] list_all2_lengthD [OF l] nth_mem [of n ps]
    by (cases "ps ! n") (auto simp: shards_ok_def)
qed

lemma sharded_next_ok:
  "store_ok fb dir tabs \<Longrightarrow> cache_ok fb tabs c \<Longrightarrow> tabs i = Some (cfg, es) \<Longrightarrow>
    shards_ok fb i cfg es crs ps \<Longrightarrow> blocks_ok fb i cfg es child bss \<Longrightarrow>
    \<exists>r cur c'. sharded_next dir i lo hi crs nc child nic c = (r, cur, c') \<and> cache_ok fb tabs c' \<and>
      step_ok fb i cfg es (kv_in lo hi s) (concat (drop nic bss) @ concat (drop nc (map shard_recs ps))) r cur"
proof (induction dir i lo hi crs nc child nic c arbitrary: bss rule: sharded_next.induct)
  case (1 dir i lo hi crs nc child nic c)
  let ?P = "kv_in lo hi s"
  obtain b nic' where child: "next_overlap lo hi child nic = (b, nic')" by (cases "next_overlap lo hi child nic")
  obtain cr nc' where shard: "next_overlap lo hi crs nc = (cr, nc')" by (cases "next_overlap lo hi crs nc")
  note sn = sharded_next.simps [of dir i lo hi crs nc child nic c, unfolded child shard]
  note nb = next_overlap_records [OF blocks_okD(1,2) [OF 1(6)] child, of s]
  note ns = next_overlap_records [OF shards_okD(1,2) [OF 1(5)] shard, of s]
  show ?case
  proof (cases b)
    case (Some m)
    then obtain j where "j < length child" "nic' = Suc j" "m = child ! j"
        "filter ?P (concat (drop nic bss)) = filter ?P (bss ! j) @ filter ?P (concat (drop nic' bss))"
      using nb by auto
    then have "step_ok fb i cfg es ?P (concat (drop nic bss) @ concat (drop nc (map shard_recs ps)))
        (Some (Inr m)) (CSharded nc child nic')"
      using blocks_okD(3) [OF 1(6), of j] 1(5,6)
      by (intro step_okI [where bs = "bss ! j" and rem' = "concat (drop nic' bss) @ concat (drop nc (map shard_recs ps))"])
        (simp_all, blast)
    then show ?thesis using sn Some 1(3) by simp
  next
    case b: None
    then have drained: "filter ?P (concat (drop nic bss)) = []" using nb by simp
    show ?thesis
    proof (cases cr)
      case None
      then show ?thesis using sn b ns drained 1(3) by (simp add: step_ok_def)
    next
      case (Some m)
      then obtain j where j: "j < length crs" "nc' = Suc j" "m = crs ! j"
          "filter ?P (concat (drop nc (map shard_recs ps))) =
            filter ?P (map shard_recs ps ! j) @ filter ?P (concat (drop nc' (map shard_recs ps)))"
        using ns by auto
      note sj = shards_okD(3) [OF 1(5) j(1)]
      obtain c1 page where fetch: "fetch_header (ChildId i (bm_offset m)) (read_range dir i (bm_offset m) (bm_len m)) c =
          (Inr page, c1)" "child_blocks page = Inr (fst (ps ! j))" "cache_ok fb tabs c1"
        using fetch_child_ok [OF 1(2-4), of crs m "fst (ps ! j)"] 1(5) sj j(1,3) by (auto simp: shards_ok_def)
      have "filter ?P (concat (drop nic bss) @ concat (drop nc (map shard_recs ps))) =
          filter ?P (concat (drop 0 (snd (ps ! j))) @ concat (drop nc' (map shard_recs ps)))"
        using drained j(4) sj by (simp add: shard_recs_def)
      note cong = step_ok_cong [OF this]
      have dec: "res_bind (Inr page) child_blocks = Inr (fst (ps ! j))" using fetch(2) by simp
      have "sharded_next dir i lo hi crs nc child nic c = sharded_next dir i lo hi crs nc' (fst (ps ! j)) 0 c1"
        using sn b Some fetch by simp
      then show ?thesis
        using 1(1) [OF child [symmetric] b shard [symmetric] Some fetch(1) [symmetric] dec 1(2) fetch(3) 1(4,5), of "snd (ps ! j)"] sj
        unfolding cong by simp
    qed
  qed
qed

lemma next_block_ok:
  assumes "store_ok fb dir tabs" "cache_ok fb tabs c" "tabs i = Some (cfg, es)"
    and "bs_table s = table_of fb i cfg es" and "cursor_rem fb i cfg es (bs_cursor s) rem"
  shows "\<exists>r s' c'. next_block dir s c = (r, s', c') \<and> cache_ok fb tabs c' \<and>
    step_ok fb i cfg es (kv_in (bs_start s) (bs_end s) (bs_max_seq s)) rem r (bs_cursor s')"
proof (cases "bs_cursor s")
  case (CInline n)
  then obtain ms bss where ms: "snd (table_index fb i cfg es) = Inline ms" "blocks_ok fb i cfg es ms bss"
      "rem = concat (drop n bss)"
    using assms(5) by auto
  obtain r n' where no: "next_overlap (bs_start s) (bs_end s) ms n = (r, n')" by fastforce
  have "step_ok fb i cfg es (kv_in (bs_start s) (bs_end s) (bs_max_seq s)) rem (map_option Inr r) (CInline n')"
  proof (cases r)
    case None
    then show ?thesis
      using next_overlap_records [OF blocks_okD(1,2) [OF ms(2)] no, of "bs_max_seq s"] ms(3) by (simp add: step_ok_def)
  next
    case (Some m)
    then obtain j where "j < length ms" "m = ms ! j" "filter (kv_in (bs_start s) (bs_end s) (bs_max_seq s)) rem =
        filter (kv_in (bs_start s) (bs_end s) (bs_max_seq s)) (bss ! j) @
        filter (kv_in (bs_start s) (bs_end s) (bs_max_seq s)) (concat (drop n' bss))"
      using next_overlap_records [OF blocks_okD(1,2) [OF ms(2)] no, of "bs_max_seq s"] ms(3) by auto
    then show ?thesis
      using blocks_okD(3) [OF ms(2), of j] ms Some
      by (simp, intro step_okI [where bs = "bss ! j" and rem' = "concat (drop n' bss)"]) (simp_all, blast)
  qed
  then show ?thesis using CInline ms(1) assms(2,4) no by (simp add: next_block_def)
next
  case (CSharded nc child nic)
  then obtain crs ps bss where sh: "shards_ok fb i cfg es crs ps" "blocks_ok fb i cfg es child bss"
      "rem = concat (drop nic bss) @ concat (drop nc (map shard_recs ps))"
    using assms(5) by auto
  from sharded_next_ok [OF assms(1-3) sh(1,2), of "bs_start s" "bs_end s" nc nic "bs_max_seq s"]
  show ?thesis using CSharded sh(1,3) assms(4) by (fastforce simp: next_block_def shards_ok_def)
qed

text \<open>What a stream has left to yield.\<close>

definition stream_out :: "fastbloom \<Rightarrow> tables \<Rightarrow> block_stream \<Rightarrow> key_value list \<Rightarrow> bool" where
  "stream_out fb tabs s out \<longleftrightarrow> (\<exists>i cfg es rem. tabs i = Some (cfg, es) \<and> bs_table s = table_of fb i cfg es \<and>
    (bs_done s \<and> out = bs_current s \<or>
     \<not> bs_done s \<and> cursor_rem fb i cfg es (bs_cursor s) rem \<and>
       out = bs_current s @ filter (kv_in (bs_start s) (bs_end s) (bs_max_seq s)) rem))"

lemma stream_out_start:
  assumes "store_ok fb dir tabs" "tabs i = Some (cfg, es)"
  shows "stream_out fb tabs (sst_scan (table_of fb i cfg es) lo hi s) (filter (kv_in lo hi s) es)"
  unfolding stream_out_def using cursor_rem_start [OF assms] assms(2)
  by (intro exI [of _ i] exI [of _ cfg] exI [of _ es]) (simp add: sst_scan_def)

lemma load_entries_ok:
  assumes "store_ok fb dir tabs" "cache_ok fb tabs c" "tabs i = Some (cfg, es)"
    and "bs_table s = table_of fb i cfg es" and "m \<in> set (table_blocks fb cfg es)"
    and "block_in (table_file fb i cfg es) m bs"
  shows "\<exists>c'. load_entries dir s m c =
      (Inr (filter (kv_in (bs_start s) (bs_end s) (bs_max_seq s)) bs), c') \<and> cache_ok fb tabs c'"
proof -
  obtain c' page where "fetch_block (PageId i (bm_offset m)) (read_range dir i (bm_offset m) (bm_len m)) c =
      (Inr page, c')" "block_decode page = Inr bs" "cache_ok fb tabs c'"
    using fetch_data_ok [OF assms(1-3,5,6)] by blast
  moreover have "filter (\<lambda>kv. ik_seq (kv_key kv) \<le> bs_max_seq s \<and> within (bs_start s) (bs_end s) (ukey kv)) bs =
      filter (kv_in (bs_start s) (bs_end s) (bs_max_seq s)) bs"
    by (rule filter_cong) (auto simp: kv_in_def)
  ultimately show ?thesis using assms(4) by (simp add: load_entries_def)
qed

lemma bs_next_ok:
  "store_ok fb dir tabs \<Longrightarrow> cache_ok fb tabs c \<Longrightarrow> stream_out fb tabs s out \<Longrightarrow>
    \<exists>s' c'. bs_next dir s c = ((case out of [] \<Rightarrow> None | kv # _ \<Rightarrow> Some (Inr kv)), s', c') \<and>
      cache_ok fb tabs c' \<and> stream_out fb tabs s' (tl out)"
proof (induction dir s c arbitrary: out rule: bs_next.induct)
  case (1 dir s c)
  obtain i cfg es rem where t: "tabs i = Some (cfg, es)" "bs_table s = table_of fb i cfg es"
    and out: "bs_done s \<and> out = bs_current s \<or> \<not> bs_done s \<and> cursor_rem fb i cfg es (bs_cursor s) rem \<and>
       out = bs_current s @ filter (kv_in (bs_start s) (bs_end s) (bs_max_seq s)) rem"
    using 1(4) by (auto simp: stream_out_def)
  show ?case
  proof (cases "bs_current s")
    case (Cons kv rest)
    have "stream_out fb tabs (s\<lparr>bs_current := rest\<rparr>) (tl out)"
      unfolding stream_out_def using t out Cons
      by (intro exI [of _ i] exI [of _ cfg] exI [of _ es] exI [of _ rem]) auto
    then show ?thesis using 1(3) out Cons by (auto simp: bs_next.simps [of dir s c])
  next
    case cur: Nil
    show ?thesis
    proof (cases "bs_done s")
      case True
      then show ?thesis using cur out 1(3,4) by (auto simp: bs_next.simps [of dir s c])
    next
      case nd: False
      then have rem: "cursor_rem fb i cfg es (bs_cursor s) rem"
          "out = filter (kv_in (bs_start s) (bs_end s) (bs_max_seq s)) rem" using out cur by auto
      obtain r s1 c1 where nb: "next_block dir s c = (r, s1, c1)" "cache_ok fb tabs c1"
          "step_ok fb i cfg es (kv_in (bs_start s) (bs_end s) (bs_max_seq s)) rem r (bs_cursor s1)"
        using next_block_ok [OF 1(2,3) t rem(1)] by blast
      note fr = next_block_frame [OF nb(1)]
      show ?thesis
      proof (cases r)
        case None
        then have "out = []" using nb(3) rem(2) by (auto simp: step_ok_def)
        moreover have "stream_out fb tabs (s1\<lparr>bs_done := True\<rparr>) []"
          unfolding stream_out_def using t fr cur by (intro exI [of _ i] exI [of _ cfg] exI [of _ es]) simp
        ultimately show ?thesis using cur nd nb None by (simp add: bs_next.simps [of dir s c])
      next
        case (Some x)
        then obtain m bs rem' where r: "r = Some (Inr m)" and m: "m \<in> set (table_blocks fb cfg es)"
            "block_in (table_file fb i cfg es) m bs" "cursor_rem fb i cfg es (bs_cursor s1) rem'"
            "out = filter (kv_in (bs_start s) (bs_end s) (bs_max_seq s)) bs @
              filter (kv_in (bs_start s) (bs_end s) (bs_max_seq s)) rem'"
          using nb(3) rem(2) by (auto simp: step_ok_def)
        obtain c2 where le: "load_entries dir s1 m c1 =
            (Inr (filter (kv_in (bs_start s) (bs_end s) (bs_max_seq s)) bs), c2)" "cache_ok fb tabs c2"
          using load_entries_ok [OF 1(2) nb(2) t(1) _ m(1,2), of s1] fr t(2) by auto
        let ?s = "s1\<lparr>bs_current := filter (kv_in (bs_start s) (bs_end s) (bs_max_seq s)) bs\<rparr>"
        have "stream_out fb tabs ?s out"
          unfolding stream_out_def using t fr m(3,4) nd
          by (intro exI [of _ i] exI [of _ cfg] exI [of _ es] exI [of _ rem']) simp
        from 1(1) [OF cur nd nb(1) [symmetric] r refl refl le(1) [symmetric] refl 1(2) le(2) this]
        show ?thesis using cur nd nb(1) r le(1) by (simp add: bs_next.simps [of dir s c])
      qed
    qed
  qed
qed

lemma bs_drain_ok:
  "store_ok fb dir tabs \<Longrightarrow> cache_ok fb tabs c \<Longrightarrow> stream_out fb tabs s out \<Longrightarrow>
    \<exists>c'. bs_drain dir s c = (map Inr out, c') \<and> cache_ok fb tabs c'"
proof (induction out arbitrary: s c)
  case Nil
  then show ?case using bs_next_ok [OF Nil] by (auto simp: bs_drain.simps [of dir s c])
next
  case (Cons kv out)
  obtain s' c' where n: "bs_next dir s c = (Some (Inr kv), s', c')" "cache_ok fb tabs c'" "stream_out fb tabs s' out"
    using bs_next_ok [OF Cons.prems] by auto
  from Cons.IH [OF Cons.prems(1) n(2,3)] show ?case using n(1) by (auto simp: bs_drain.simps [of dir s c])
qed

section \<open>Properties\<close>

lemma sst_file_write: "sst_file (sst_write fb i cfg es dir) j = (if j = i then Some (table_file fb i cfg es) else sst_file dir j)"
  by (auto simp: sst_file_def sst_write_def Let_def update_conv' split: option.splits)

lemma store_ok_write:
  "store_ok fb dir tabs \<Longrightarrow> table_ok fb i cfg es \<Longrightarrow> store_ok fb (sst_write fb i cfg es dir) (tabs(i \<mapsto> (cfg, es)))"
  by (auto simp: store_ok_def sst_file_write)

text \<open>C9. A table reads back what it was written with. After writing sorted records to a
  table smaller than 4 GiB, whatever the block size, the shard size and the filter,
  opening it succeeds; the lookup of a key returns its newest version, if no version
  is newer than the snapshot, and nothing for a key without records; and a scan
  yields exactly the records within its bounds and its snapshot, in order and
  without an error, with a page cache of any size.\<close>

theorem sstable_reads_back:
  assumes "kv_sorted es" and "length (table_file fb i cfg es) < 2 ^ 32" and "no_false_negatives fb"
  shows "\<exists>t c. sst_open i (sst_write fb i cfg es dir) (sst_cache_new pc) = (Inr t, c) \<and>
    ((\<forall>kv\<in>set es. ukey kv = k \<longrightarrow> ik_seq (kv_key kv) \<le> s) \<longrightarrow>
      fst (sst_get fb (sst_write fb i cfg es dir) t k s c) = Inr (visible k s es)) \<and>
    fst (bs_drain (sst_write fb i cfg es dir) (sst_scan t lo hi s) c) = map Inr (filter (kv_in lo hi s) es)"
proof -
  let ?dir = "sst_write fb i cfg es dir" and ?tabs = "[i \<mapsto> (cfg, es)]"
  have st: "store_ok fb ?dir ?tabs"
    using store_ok_write [of fb dir Map.empty i cfg es] assms(1,2) by (simp add: store_ok_def table_ok_def)
  have t: "?tabs i = Some (cfg, es)" by simp
  obtain c where c: "sst_open i ?dir (sst_cache_new pc) = (Inr (table_of fb i cfg es), c)" "cache_ok fb ?tabs c"
    using sst_open_ok [OF st cache_ok_new t] by blast
  have "fst (sst_get fb ?dir (table_of fb i cfg es) k s c) = Inr (visible k s es)"
    if "\<forall>kv\<in>set es. ukey kv = k \<longrightarrow> ik_seq (kv_key kv) \<le> s"
    using sst_get_ok [OF st c(2) t assms(3), of k s] that by auto
  moreover have "fst (bs_drain ?dir (sst_scan (table_of fb i cfg es) lo hi s) c) = map Inr (filter (kv_in lo hi s) es)"
    using bs_drain_ok [OF st c(2) stream_out_start [OF st t, of lo hi s]] by auto
  ultimately show ?thesis using c(1) by blast
qed

text \<open>A filter of one word, with the bit of a key chosen by its length.\<close>

unbundle bit_operations_syntax

definition sample_bloom :: fastbloom where
  "sample_bloom = \<lparr>fb_with_num_bits = (\<lambda>_ _. \<lparr>bf_blocks = [0], bf_num_hashes = 1\<rparr>),
     fb_insert = (\<lambda>k b. b\<lparr>bf_blocks := map (\<lambda>w. w OR push_bit (length k mod 64) 1) (bf_blocks b)\<rparr>),
     fb_contains = (\<lambda>k b. \<forall>w\<in>set (bf_blocks b). bit w (length k mod 64))\<rparr>"

lemma sample_bloom_insert: "fb_contains sample_bloom k b \<Longrightarrow> fb_contains sample_bloom k (fb_insert sample_bloom k' b)"
  by (simp add: sample_bloom_def bit_or_iff)

lemma sample_bloom_keeps:
  "fb_contains sample_bloom k b \<Longrightarrow> fb_contains sample_bloom k (fold (fb_insert sample_bloom) keys b)"
  by (induction keys arbitrary: b) (simp_all add: sample_bloom_insert)

lemma sample_bloom_contains: "fb_contains sample_bloom k (fb_insert sample_bloom k b)"
  by (simp add: sample_bloom_def bit_or_iff bit_exp_iff)

lemma sample_bloom_ok: "no_false_negatives sample_bloom"
proof -
  have "k \<in> set keys \<Longrightarrow> fb_contains sample_bloom k (fold (fb_insert sample_bloom) keys b)" for k keys b
    by (induction keys arbitrary: b) (auto intro: sample_bloom_keeps sample_bloom_contains)
  then show ?thesis by (simp add: no_false_negatives_def)
qed

definition sample_table :: "key_value list" where
  "sample_table = [\<lparr>kv_key = \<lparr>user_key = [1], ik_seq = 2, ik_op = Put\<rparr>, kv_value = [7]\<rparr>,
    \<lparr>kv_key = \<lparr>user_key = [1], ik_seq = 1, ik_op = Delete\<rparr>, kv_value = []\<rparr>,
    \<lparr>kv_key = \<lparr>user_key = [3], ik_seq = 3, ik_op = Put\<rparr>, kv_value = [8]\<rparr>]"

definition sample_cfg :: table_config where
  "sample_cfg = \<lparr>max_file_size_bytes = 100, tc_bloom = \<lparr>bits_per_key = 10\<rparr>,
     tc_page = \<lparr>page_size_bytes = 16, blocks_per_chunk = 1\<rparr>\<rparr>"

lemma sample_table_small: "length (table_file sample_bloom (SsTableId 5) sample_cfg sample_table) < 2 ^ 32"
proof -
  have "length (table_file sample_bloom (SsTableId 5) sample_cfg sample_table) < 1000" by code_simp
  then show ?thesis by simp
qed

theorem sstable_reads_back_witness:
  "\<exists>t c. sst_open (SsTableId 5) (sst_write sample_bloom (SsTableId 5) sample_cfg sample_table None)
      (sst_cache_new \<lparr>pc_size = Pages 1\<rparr>) = (Inr t, c) \<and>
    ((\<forall>kv\<in>set sample_table. ukey kv = [1] \<longrightarrow> ik_seq (kv_key kv) \<le> 3) \<longrightarrow>
      fst (sst_get sample_bloom (sst_write sample_bloom (SsTableId 5) sample_cfg sample_table None) t [1] 3 c) =
        Inr (visible [1] 3 sample_table)) \<and>
    fst (bs_drain (sst_write sample_bloom (SsTableId 5) sample_cfg sample_table None)
        (sst_scan t (Excluded [0]) (Included [2]) 3) c) =
      map Inr (filter (kv_in (Excluded [0]) (Included [2]) 3) sample_table)"
  by (rule sstable_reads_back [OF _ sample_table_small sample_bloom_ok])
    (simp add: sample_table_def ikey_lt_def)


end
