(* ===== verification/Merge_Iterator.thy ===== *)
theory Merge_Iterator
  imports Lsm_Types "HOL-Library.Multiset"
begin

text \<open>
  The read-path iterators of \<^verbatim>\<open>src/crates/lsm/src/iterator.rs\<close>: the k-way \<open>MergeIterator\<close>
  and the \<open>VersionResolver\<close>. An iterator is its state and a function \<open>nxt\<close> that pulls
  one item; pulling also threads what the iterators share (the page cache). The
  locale \<open>source\<close> is the contract of an iterator that will yield a known list;
  merging keeps that contract with the merge of the lists, and the resolver turns
  such a source into the newest version of every key.
\<close>

section \<open>Definitions\<close>

type_synonym ('s, 'c, 'a) nxt = "'s \<Rightarrow> 'c \<Rightarrow> 'a option \<times> 's \<times> 'c"

fun merge_new :: "('s, 'c, 'a) nxt \<Rightarrow> 's list \<Rightarrow> 'c \<Rightarrow> ('a option \<times> 's) list \<times> 'c" where
  "merge_new nxt [] c = ([], c)"
| "merge_new nxt (s # ss) c =
    (case nxt s c of (h, s', c1) \<Rightarrow>
     case merge_new nxt ss c1 of (ms, c2) \<Rightarrow> ((h, s') # ms, c2))"

text \<open>One step of the loop over the sources: \<open>i\<close> replaces the best index on a strictly smaller head.\<close>

definition min_step :: "('a \<Rightarrow> 'a \<Rightarrow> ordering) \<Rightarrow> 'a option list \<Rightarrow> nat \<Rightarrow> nat option \<Rightarrow> nat option" where
  "min_step cf hs i m =
    (case hs ! i of
       None \<Rightarrow> m
     | Some a \<Rightarrow>
         (case m of
            None \<Rightarrow> Some i
          | Some j \<Rightarrow> (case hs ! j of Some b \<Rightarrow> if cf a b = Less then Some i else m | None \<Rightarrow> m)))"

definition min_idx :: "('a \<Rightarrow> 'a \<Rightarrow> ordering) \<Rightarrow> 'a option list \<Rightarrow> nat option" where
  "min_idx cf hs = fold (min_step cf hs) [0..<length hs] None"

definition merge_next :: "('s, 'c, 'a) nxt \<Rightarrow> ('a \<Rightarrow> 'a \<Rightarrow> ordering) \<Rightarrow> (('a option \<times> 's) list, 'c, 'a) nxt" where
  "merge_next nxt cf ms c =
    (case min_idx cf (map fst ms) of
       None \<Rightarrow> (None, ms, c)
     | Some i \<Rightarrow>
         (case nxt (snd (ms ! i)) c of (h, s', c') \<Rightarrow> (fst (ms ! i), ms[i := (h, s')], c')))"

text \<open>
  \<open>VersionResolver::next\<close> pulls until it has something to return; the result is \<open>None\<close>
  only if that never happens.
\<close>

partial_function (option) resolver_next ::
  "('s, 'c, read_error + key_value) nxt \<Rightarrow> 's \<Rightarrow> bytes option \<Rightarrow> 'c \<Rightarrow>
    ((read_error + kv_pair) option \<times> ('s \<times> bytes option) \<times> 'c) option" where
  "resolver_next nxt s last_key c =
    (case nxt s c of
       (None, s', c') \<Rightarrow> Some (None, (s', last_key), c')
     | (Some r, s', c') \<Rightarrow>
         (case r of
            Inl e \<Rightarrow> Some (Some (Inl e), (s', last_key), c')
          | Inr kv \<Rightarrow>
              if last_key = Some (user_key (kv_key kv)) then resolver_next nxt s' last_key c'
              else
                (case ik_op (kv_key kv) of
                   Put \<Rightarrow> Some (Some (Inr (user_key (kv_key kv), kv_value kv)), (s', Some (user_key (kv_key kv))), c')
                 | Delete \<Rightarrow> resolver_next nxt s' (Some (user_key (kv_key kv))) c')))"

text \<open>All items of the resolved stream, in order.\<close>

partial_function (option) resolver_collect ::
  "('s, 'c, read_error + key_value) nxt \<Rightarrow> 's \<Rightarrow> bytes option \<Rightarrow> 'c \<Rightarrow> ((read_error + kv_pair) list \<times> 'c) option" where
  "resolver_collect nxt s last_key c =
    Option.bind (resolver_next nxt s last_key c) (\<lambda>(r, (s', last'), c').
      case r of
        None \<Rightarrow> Some ([], c')
      | Some it \<Rightarrow> Option.bind (resolver_collect nxt s' last' c') (\<lambda>(its, c2). Some (it # its, c2)))"

section \<open>The smallest head\<close>

definition heads_min :: "('a \<Rightarrow> 'a \<Rightarrow> ordering) \<Rightarrow> 'a option list \<Rightarrow> nat \<Rightarrow> nat option \<Rightarrow> bool" where
  "heads_min cf hs n m \<longleftrightarrow>
    (case m of
       None \<Rightarrow> \<forall>j < n. hs ! j = None
     | Some i \<Rightarrow> i < n \<and> (\<exists>a. hs ! i = Some a \<and> (\<forall>j b. j < n \<longrightarrow> hs ! j = Some b \<longrightarrow> cf b a \<noteq> Less)))"

text \<open>A comparison for which "not less" is a total preorder.\<close>

definition cmp_order :: "('a \<Rightarrow> 'a \<Rightarrow> ordering) \<Rightarrow> bool" where
  "cmp_order cf \<longleftrightarrow> (\<forall>a. cf a a \<noteq> Less) \<and> (\<forall>a b. cf a b = Less \<longrightarrow> cf b a \<noteq> Less) \<and>
    (\<forall>a b c. cf b a \<noteq> Less \<longrightarrow> cf c b \<noteq> Less \<longrightarrow> cf c a \<noteq> Less)"

lemma cmp_orderD:
  assumes "cmp_order cf"
  shows "cf a a \<noteq> Less" "cf a b = Less \<Longrightarrow> cf b a \<noteq> Less" "cf b a \<noteq> Less \<Longrightarrow> cf c b \<noteq> Less \<Longrightarrow> cf c a \<noteq> Less"
  using assms unfolding cmp_order_def by blast+

definition heads_def :: "'a option list \<Rightarrow> nat \<Rightarrow> nat option \<Rightarrow> bool" where
  "heads_def hs n m \<longleftrightarrow>
    (case m of None \<Rightarrow> \<forall>j < n. hs ! j = None | Some i \<Rightarrow> i < n \<and> hs ! i \<noteq> None)"

lemma min_step_defined: "heads_def hs n m \<Longrightarrow> heads_def hs (Suc n) (min_step cf hs n m)"
  by (auto simp: heads_def_def min_step_def less_Suc_eq split: option.splits)

lemma min_idx_defined: "heads_def hs n (fold (min_step cf hs) [0..<n] None)"
proof (induction n)
  case (Suc n)
  then show ?case using min_step_defined by simp
qed (simp add: heads_def_def)

lemma min_idx_SomeD: "min_idx cf hs = Some i \<Longrightarrow> i < length hs \<and> (\<exists>a. hs ! i = Some a)"
  using min_idx_defined [of hs "length hs" cf] by (auto simp: min_idx_def heads_def_def)

lemma min_idx_NoneD: "min_idx cf hs = None \<Longrightarrow> h \<in> set hs \<Longrightarrow> h = None"
  using min_idx_defined [of hs "length hs" cf] by (auto simp: min_idx_def heads_def_def in_set_conv_nth)

lemma min_step_min:
  assumes "cmp_order cf" "heads_min cf hs n m"
  shows "heads_min cf hs (Suc n) (min_step cf hs n m)"
proof (cases "hs ! n")
  case None
  then show ?thesis
    using assms(2) by (auto simp: heads_min_def min_step_def less_Suc_eq split: option.splits)
next
  case (Some a)
  have refl: "cf a a \<noteq> Less" using assms(1) by (simp add: cmp_order_def)
  show ?thesis
  proof (cases m)
    case None
    then show ?thesis
      using assms(2) Some refl by (auto simp: heads_min_def min_step_def less_Suc_eq)
  next
    case m: (Some j)
    then obtain b where b: "j < n" "hs ! j = Some b" "\<And>k c. k < n \<Longrightarrow> hs ! k = Some c \<Longrightarrow> cf c b \<noteq> Less"
      using assms(2) by (auto simp: heads_min_def)
    have "cf c a \<noteq> Less" if "cf a b = Less" "k < n" "hs ! k = Some c" for k c
      using cmp_orderD(2,3) [OF assms(1)] that b(3) by blast
    then show ?thesis
      using m Some b refl by (auto simp: heads_min_def min_step_def less_Suc_eq)
  qed
qed

lemma min_idx_min:
  assumes "cmp_order cf"
  shows "heads_min cf hs (length hs) (min_idx cf hs)"
proof -
  have "heads_min cf hs n (fold (min_step cf hs) [0..<n] None)" for n
    by (induction n) (simp_all add: heads_min_def min_step_min [OF assms, unfolded heads_min_def])
  then show ?thesis by (simp add: min_idx_def)
qed

section \<open>Merging lists\<close>

definition head :: "'a list \<Rightarrow> 'a option" where
  "head xs = (case xs of [] \<Rightarrow> None | x # _ \<Rightarrow> Some x)"

lemma head_simps [simp]: "head [] = None" "head (x # xs) = Some x"
  by (simp_all add: head_def)

lemma head_None_iff [simp]: "head xs = None \<longleftrightarrow> xs = []"
  by (cases xs) simp_all

lemma sum_list_update_tl:
  "i < length xss \<Longrightarrow> xss ! i = x # xs \<Longrightarrow> sum_list (map length (xss[i := xs])) < sum_list (map length xss)"
  by (induction xss arbitrary: i) (auto split: nat.splits)

lemma min_idx_heads:
  assumes "min_idx cf (map head xss) = Some i"
  obtains x xs where "i < length xss" "xss ! i = x # xs"
proof -
  have "i < length xss" "head (xss ! i) \<noteq> None" using min_idx_SomeD [OF assms] by auto
  then show thesis using that by (cases "xss ! i") auto
qed

function kmerge :: "('a \<Rightarrow> 'a \<Rightarrow> ordering) \<Rightarrow> 'a list list \<Rightarrow> 'a list" where
  "kmerge cf xss =
    (case min_idx cf (map head xss) of
       None \<Rightarrow> []
     | Some i \<Rightarrow> hd (xss ! i) # kmerge cf (xss[i := tl (xss ! i)]))"
  by pat_completeness auto
termination
  by (relation "measure (\<lambda>(_, xss). sum_list (map length xss))")
    (auto elim!: min_idx_heads intro: sum_list_update_tl)

declare kmerge.simps [simp del]

lemma sum_list_map_update:
  "i < length xss \<Longrightarrow> mset (concat xss) = mset (xss ! i) + mset (concat (xss[i := []]))"
  by (induction xss arbitrary: i) (auto split: nat.splits)

lemma mset_concat_pop:
  assumes "i < length xss" "xss ! i = x # xs"
  shows "mset (concat xss) = add_mset x (mset (concat (xss[i := xs])))"
  using sum_list_map_update [OF assms(1)] sum_list_map_update [of i "xss[i := xs]"] assms by simp

lemma mset_kmerge: "mset (kmerge cf xss) = mset (concat xss)"
proof (induction cf xss rule: kmerge.induct)
  case (1 cf xss)
  show ?case
  proof (cases "min_idx cf (map head xss)")
    case None
    then have "\<forall>xs\<in>set xss. xs = []" using min_idx_NoneD [OF None] by fastforce
    then show ?thesis using None by (simp add: kmerge.simps [of cf xss])
  next
    case (Some i)
    then obtain x xs where "i < length xss" "xss ! i = x # xs" by (rule min_idx_heads)
    then show ?thesis
      using 1 [OF Some] Some mset_concat_pop [of i xss x xs] by (simp add: kmerge.simps [of cf xss])
  qed
qed

abbreviation cmp_sorted :: "('a \<Rightarrow> 'a \<Rightarrow> ordering) \<Rightarrow> 'a list \<Rightarrow> bool" where
  "cmp_sorted cf \<equiv> sorted_wrt (\<lambda>a b. cf b a \<noteq> Less)"

lemma kmerge_sorted:
  assumes "cmp_order cf"
  shows "(\<And>xs. xs \<in> set xss \<Longrightarrow> cmp_sorted cf xs) \<Longrightarrow> cmp_sorted cf (kmerge cf xss)"
proof (induction "sum_list (map length xss)" arbitrary: xss rule: less_induct)
  case less
  show ?case
  proof (cases "min_idx cf (map head xss)")
    case None
    then show ?thesis by (simp add: kmerge.simps [of cf xss])
  next
    case (Some i)
    then obtain x xs where i: "i < length xss" "xss ! i = x # xs" by (rule min_idx_heads)
    let ?rest = "xss[i := xs]"
    have min: "cf y x \<noteq> Less" if yss: "ys \<in> set xss" and y: "y \<in> set ys" for ys y
    proof -
      obtain z zs where ys: "ys = z # zs" using y by (cases ys) auto
      obtain j where j: "j < length xss" "xss ! j = z # zs" using yss ys by (auto simp: in_set_conv_nth)
      have "cf z x \<noteq> Less"
        using min_idx_min [OF assms, of "map head xss"] Some i j by (auto simp: heads_min_def)
      moreover have "cf y z \<noteq> Less"
        using less.prems [OF yss] y ys cmp_orderD(1) [OF assms, of z] by auto
      ultimately show ?thesis by (rule cmp_orderD(3) [OF assms])
    qed
    have mem: "xs' = xs \<or> xs' \<in> set xss" if "xs' \<in> set ?rest" for xs'
      using set_update_subset_insert [of xss i xs] that by auto
    have xxs: "x # xs \<in> set xss" using nth_mem [OF i(1)] i(2) by simp
    have "cmp_sorted cf xs" using less.prems [OF xxs] by simp
    then have "cmp_sorted cf xs'" if "xs' \<in> set ?rest" for xs'
      using mem [OF that] less.prems by blast
    then have "cmp_sorted cf (kmerge cf ?rest)"
      by (rule less.hyps [OF sum_list_update_tl [OF i]])
    moreover have "cf y x \<noteq> Less" if y: "y \<in> set (kmerge cf ?rest)" for y
    proof -
      obtain ys where "ys \<in> set ?rest" "y \<in> set ys"
        using y mset_eq_setD [OF mset_kmerge [of cf ?rest]] by auto
      then show ?thesis using mem [of ys] min [of ys y] min [OF xxs, of y] by auto
    qed
    ultimately show ?thesis using Some i by (simp add: kmerge.simps [of cf xss])
  qed
qed

section \<open>Iterators that yield a list\<close>

text \<open>
  \<open>out s xs\<close>: pulling from \<open>s\<close> yields exactly the items \<open>xs\<close>, as long as the shared state
  satisfies \<open>ok\<close>, which pulling keeps.
\<close>

locale source =
  fixes nxt :: "('s, 'c, 'a) nxt"
    and ok :: "'c \<Rightarrow> bool"
    and out :: "'s \<Rightarrow> 'a list \<Rightarrow> bool"
  assumes step: "ok c \<Longrightarrow> out s xs \<Longrightarrow> \<exists>s' c'. nxt s c = (head xs, s', c') \<and> ok c' \<and> out s' (tl xs)"
begin

definition head_out :: "'a option \<times> 's \<Rightarrow> 'a list \<Rightarrow> bool" where
  "head_out p xs \<longleftrightarrow> fst p = head xs \<and> out (snd p) (tl xs)"

lemma merge_new_out:
  assumes "list_all2 out ss xss"
  shows "ok c \<Longrightarrow> \<exists>ms c'. merge_new nxt ss c = (ms, c') \<and> ok c' \<and> list_all2 head_out ms xss"
  using assms
proof (induction ss xss arbitrary: c rule: list_all2_induct)
  case (Cons s ss xs xss)
  obtain s' c1 where n: "nxt s c = (head xs, s', c1)" "ok c1" "out s' (tl xs)"
    using step [OF Cons.prems Cons.hyps(1)] by blast
  obtain ms c2 where "merge_new nxt ss c1 = (ms, c2)" "ok c2" "list_all2 head_out ms xss"
    using Cons.IH [OF n(2)] by blast
  then show ?case using n by (simp add: head_out_def [of "(head xs, s')" xs])
qed simp

lemma heads_eq: "list_all2 head_out ms xss \<Longrightarrow> map fst ms = map head xss"
  by (induction rule: list_all2_induct) (simp_all add: head_out_def)

lemma merge_next_out:
  assumes "ok c" and "list_all2 head_out ms xss"
  shows "\<exists>ms' c' xss'. merge_next nxt cf ms c = (head (kmerge cf xss), ms', c') \<and> ok c' \<and>
    list_all2 head_out ms' xss' \<and> kmerge cf xss' = tl (kmerge cf xss)"
proof (cases "min_idx cf (map head xss)")
  case None
  then show ?thesis using assms heads_eq [OF assms(2)] by (auto simp: merge_next_def kmerge.simps [of cf xss])
next
  case (Some i)
  obtain x xs where i: "i < length xss" "xss ! i = x # xs" using Some by (rule min_idx_heads)
  have len: "length ms = length xss" using assms(2) by (rule list_all2_lengthD)
  have hi: "fst (ms ! i) = Some x" "out (snd (ms ! i)) xs"
    using list_all2_nthD2 [OF assms(2) i(1)] i(2) by (simp_all add: head_out_def)
  obtain s' c' where n: "nxt (snd (ms ! i)) c = (head xs, s', c')" "ok c'" "out s' (tl xs)"
    using step [OF assms(1) hi(2)] by blast
  have "list_all2 head_out (ms[i := (head xs, s')]) (xss[i := xs])"
    using assms(2) by (rule list_all2_update_cong) (simp add: head_out_def n(3))
  then show ?thesis
    using Some heads_eq [OF assms(2)] i hi n
    by (auto simp: merge_next_def kmerge.simps [of cf xss] intro!: exI [of _ "xss[i := xs]"])
qed

end

text \<open>Merging sources gives a source of the merged lists.\<close>

locale merge_source = source nxt ok out for nxt :: "('s, 'c, 'a) nxt" and ok out +
  fixes cf :: "'a \<Rightarrow> 'a \<Rightarrow> ordering"
begin

definition merge_out :: "('a option \<times> 's) list \<Rightarrow> 'a list \<Rightarrow> bool" where
  "merge_out ms zs \<longleftrightarrow> (\<exists>xss. list_all2 head_out ms xss \<and> zs = kmerge cf xss)"

end

sublocale merge_source \<subseteq> merged: source "merge_next nxt cf" ok merge_out
proof
  fix c ms zs
  assume "ok c" "merge_out ms zs"
  then show "\<exists>ms' c'. merge_next nxt cf ms c = (head zs, ms', c') \<and> ok c' \<and> merge_out ms' (tl zs)"
    using merge_next_out unfolding merge_out_def by metis
qed

section \<open>Resolving versions\<close>

text \<open>The reference: keep the first record of every run of equal keys, drop tombstones.\<close>

fun resolve_versions :: "bytes option \<Rightarrow> key_value list \<Rightarrow> kv_pair list" where
  "resolve_versions last_key [] = []"
| "resolve_versions last_key (kv # kvs) =
    (if last_key = Some (user_key (kv_key kv)) then resolve_versions last_key kvs
     else case ik_op (kv_key kv) of
       Put \<Rightarrow> (user_key (kv_key kv), kv_value kv) # resolve_versions (Some (user_key (kv_key kv))) kvs
     | Delete \<Rightarrow> resolve_versions (Some (user_key (kv_key kv))) kvs)"

locale kv_source = source nxt ok out for nxt :: "('s, 'c, read_error + key_value) nxt" and ok out
begin

lemma resolver_collect_out:
  "ok c \<Longrightarrow> out s (map Inr kvs) \<Longrightarrow>
    \<exists>c'. resolver_collect nxt s last_key c = Some (map Inr (resolve_versions last_key kvs), c') \<and> ok c'"
proof (induction kvs arbitrary: s last_key c)
  case Nil
  obtain s' c' where "nxt s c = (None, s', c')" "ok c'" using step [OF Nil] by auto
  then show ?case by (simp add: resolver_collect.simps [of nxt s] resolver_next.simps [of nxt s])
next
  case (Cons kv kvs)
  obtain s' c' where n: "nxt s c = (Some (Inr kv), s', c')" "ok c'" "out s' (map Inr kvs)"
    using step [OF Cons.prems] by auto
  note IH = Cons.IH [OF n(2,3)]
  show ?case
  proof (cases "last_key = Some (user_key (kv_key kv)) \<or> ik_op (kv_key kv) = Delete")
    case True
    define l where "l = (if last_key = Some (user_key (kv_key kv)) then last_key else Some (user_key (kv_key kv)))"
    have "resolver_next nxt s last_key c = resolver_next nxt s' l c'"
      using n(1) True by (auto simp: resolver_next.simps [of nxt s] l_def)
    then have "resolver_collect nxt s last_key c = resolver_collect nxt s' l c'"
      by (simp add: resolver_collect.simps [of nxt s] resolver_collect.simps [of nxt s'])
    moreover have "resolve_versions last_key (kv # kvs) = resolve_versions l kvs" using True by (auto simp: l_def)
    ultimately show ?thesis using IH [of l] by simp
  next
    case False
    then have op: "ik_op (kv_key kv) = Put" by (cases "ik_op (kv_key kv)") auto
    then show ?thesis
      using False n(1) IH [of "Some (user_key (kv_key kv))"]
      by (auto simp: resolver_collect.simps [of nxt s] resolver_next.simps [of nxt s])
  qed
qed

end

text \<open>Records in merge order: user key ascending, newest first, equal keys allowed.\<close>

abbreviation kv_merged :: "key_value list \<Rightarrow> bool" where
  "kv_merged \<equiv> sorted_wrt (\<lambda>a b. \<not> kv_lt b a)"

lemma kv_merged_user_keys: "kv_merged (kv # kvs) \<Longrightarrow> kv' \<in> set kvs \<Longrightarrow> user_key (kv_key kv) \<le> user_key (kv_key kv')"
  by (force simp: ikey_lt_def)

lemma resolve_versions_keys:
  assumes "kv_merged kvs" and "\<forall>l kv. last_key = Some l \<longrightarrow> kv \<in> set kvs \<longrightarrow> l \<le> user_key (kv_key kv)"
  shows "sorted_wrt (<) (map fst (resolve_versions last_key kvs)) \<and>
    (\<forall>p \<in> set (resolve_versions last_key kvs). fst p \<in> (\<lambda>kv. user_key (kv_key kv)) ` set kvs \<and> (\<forall>l. last_key = Some l \<longrightarrow> l < fst p))"
  using assms
proof (induction last_key kvs rule: resolve_versions.induct)
  case (2 last_key kv kvs)
  let ?k = "user_key (kv_key kv)"
  have up: "\<And>kv'. kv' \<in> set kvs \<Longrightarrow> ?k \<le> user_key (kv_key kv')" using 2(4) kv_merged_user_keys by blast
  have srt: "kv_merged kvs" using 2(4) by simp
  have ge: "\<forall>l kv'. Some ?k = Some l \<longrightarrow> kv' \<in> set kvs \<longrightarrow> l \<le> user_key (kv_key kv')" using up by auto
  have l: "l < ?k" if "last_key = Some l" "last_key \<noteq> Some ?k" for l
  proof -
    have "l \<le> ?k" using 2(5) that(1) by auto
    then show ?thesis using that by (auto simp: order.order_iff_strict)
  qed
  show ?case
  proof (cases "last_key = Some ?k")
    case True
    then show ?thesis using 2(1) [OF True srt] ge by auto
  next
    case new: False
    show ?thesis
    proof (cases "ik_op (kv_key kv)")
      case Put
      from 2(2) [OF new Put srt ge] show ?thesis using new Put l by force
    next
      case Delete
      from 2(3) [OF new Delete srt ge] show ?thesis using new Delete l by force
    qed
  qed
qed simp

lemma resolve_versions_lookup:
  assumes "kv_merged kvs" and "\<forall>l kv. last_key = Some l \<longrightarrow> kv \<in> set kvs \<longrightarrow> l \<le> user_key (kv_key kv)"
  shows "map_of (resolve_versions last_key kvs) k =
    (if last_key = Some k then None else resolve_kv (find (\<lambda>kv. user_key (kv_key kv) = k) kvs))"
  using assms
proof (induction last_key kvs rule: resolve_versions.induct)
  case (2 last_key kv kvs)
  let ?k = "user_key (kv_key kv)"
  have up: "\<And>kv'. kv' \<in> set kvs \<Longrightarrow> ?k \<le> user_key (kv_key kv')" using 2(4) kv_merged_user_keys by blast
  have srt: "kv_merged kvs" using 2(4) by simp
  have ge: "\<forall>l kv'. Some ?k = Some l \<longrightarrow> kv' \<in> set kvs \<longrightarrow> l \<le> user_key (kv_key kv')" using up by auto
  show ?case
  proof (cases "last_key = Some ?k")
    case True
    then show ?thesis using 2(1) [OF True srt] ge by auto
  next
    case new: False
    have absent: "resolve_kv (find (\<lambda>kv. user_key (kv_key kv) = k) kvs) = None" "k \<noteq> ?k" if "last_key = Some k"
    proof -
      have "k < ?k" using 2(5) that new by (force simp: order.order_iff_strict)
      then have "find (\<lambda>kv. user_key (kv_key kv) = k) kvs = None" using up by (fastforce simp: find_None_iff)
      then show "resolve_kv (find (\<lambda>kv. user_key (kv_key kv) = k) kvs) = None" "k \<noteq> ?k" using \<open>k < ?k\<close> by (auto simp: resolve_kv_def)
    qed
    show ?thesis
    proof (cases "ik_op (kv_key kv)")
      case Put
      from 2(2) [OF new Put srt ge] show ?thesis using new Put absent by (auto simp: resolve_kv_def)
    next
      case Delete
      from 2(3) [OF new Delete srt ge] show ?thesis using new Delete absent by (auto simp: resolve_kv_def)
    qed
  qed
qed (simp add: resolve_kv_def)

end
