(* ===== verification/Lsm.thy ===== *)
theory Lsm
  imports Memtable Sst_Scan Merge_Iterator
begin

text \<open>
  The tree itself (\<^verbatim>\<open>src/crates/lsm/src/lib.rs\<close>): opening, writing, flushing, point
  lookups and scans, composed from the memtable, the manifest, the SSTables and the
  iterators. The directories of the layout are part of the state: the manifest
  directory, the SSTable directory and the journal file of the memtable.
\<close>

section \<open>Definitions\<close>

record lsm_disk =
  dk_manifest :: manifest_dir
  dk_sst :: "sst_dir option"
  dk_wal :: "bytes option"

record lsm =
  l_config :: lsm_config
  l_dir :: manifest_dir
  l_sst :: "sst_dir option"
  l_cache :: sst_cache
  l_mem :: journaled
  l_manifest :: manifest_manager
  l_seq :: u64

text \<open>What is on disk while the tree is open.\<close>

definition lsm_on_disk :: "lsm \<Rightarrow> lsm_disk" where
  "lsm_on_disk L = \<lparr>dk_manifest = l_dir L, dk_sst = l_sst L, dk_wal = Some (j_file (jm_journal (l_mem L)))\<rparr>"

definition mem_max_seq :: "journaled \<Rightarrow> u64" where
  "mem_max_seq m =
    (case jm_scan_at Unbounded Unbounded (- 1) m of
       None \<Rightarrow> 0
     | Some es \<Rightarrow> fold max (map (\<lambda>(k, _). ik_seq k) es) 0)"

definition lsm_open ::
  "(bytes \<Rightarrow> u32) \<Rightarrow> lsm_config \<Rightarrow> memtable \<Rightarrow> lsm_disk \<Rightarrow> (lsm_error + lsm) \<times> lsm_disk" where
  "lsm_open crc config mem dk =
    (let cache = sst_cache_new (lsm_page_cache config) in
     case manager_open crc (dk_manifest dk) of
       (Inl e, d) \<Rightarrow> (Inl e, dk\<lparr>dk_manifest := d\<rparr>)
     | (Inr manifest, d) \<Rightarrow>
         (case journaled_open crc (dk_wal dk) mem of
            Inl e \<Rightarrow> (Inl (lsm_of_write e), dk\<lparr>dk_manifest := d\<rparr>)
          | Inr m \<Rightarrow>
              let seq = max (v_last_seq (mm_version manifest)) (mem_max_seq m);
                  sst = snd (garbage_collect manifest (dk_sst dk));
                  L = \<lparr>l_config = config, l_dir = d, l_sst = sst, l_cache = cache, l_mem = m,
                       l_manifest = manifest, l_seq = seq\<rparr> in
              (Inr L, lsm_on_disk L)))"

definition lsm_write :: "(bytes \<Rightarrow> u32) \<Rightarrow> bytes \<Rightarrow> bytes \<Rightarrow> op_type \<Rightarrow> lsm \<Rightarrow> (lsm_error + unit) \<times> lsm" where
  "lsm_write crc key value op L =
    (let ikey = \<lparr>user_key = key, ik_seq = l_seq L + 1, ik_op = op\<rparr> in
     case jm_put crc ikey value (l_mem L) of
       (Inl e, m) \<Rightarrow> (Inl (lsm_of_write e), L\<lparr>l_mem := m\<rparr>)
     | (Inr _, m) \<Rightarrow> (Inr (), L\<lparr>l_mem := m, l_seq := l_seq L + 1\<rparr>))"

definition lsm_put :: "(bytes \<Rightarrow> u32) \<Rightarrow> bytes \<Rightarrow> bytes \<Rightarrow> lsm \<Rightarrow> (lsm_error + unit) \<times> lsm" where
  "lsm_put crc key value L = lsm_write crc key value Put L"

definition lsm_delete :: "(bytes \<Rightarrow> u32) \<Rightarrow> bytes \<Rightarrow> lsm \<Rightarrow> (lsm_error + unit) \<times> lsm" where
  "lsm_delete crc key L = lsm_write crc key [] Delete L"

text \<open>The entries of the memtable, the identifier, the configuration and the edit of a flush.\<close>

definition mem_entries :: "journaled \<Rightarrow> key_value list" where
  "mem_entries m = (case jm_scan_at Unbounded Unbounded (- 1) m of None \<Rightarrow> [] | Some es \<Rightarrow> kvs es)"

definition flush_config :: "lsm_config \<Rightarrow> table_config" where
  "flush_config config = (case lsm_levels config of [] \<Rightarrow> default_table_config | l # _ \<Rightarrow> lc_table l)"

definition flush_id :: "lsm \<Rightarrow> sstable_id" where
  "flush_id L = SsTableId (v_next_sst_id (mm_version (l_manifest L)))"

definition flush_edit :: "lsm \<Rightarrow> manifest_edit" where
  "flush_edit L =
    set_last_seq (l_seq L) (set_next_sst_id (sst_id (flush_id L) + 1)
      (add_run \<lparr>rd_level = 0, rd_run = RunId (sst_id (flush_id L)), rd_files = [flush_id L]\<rparr> []))"

text \<open>The three steps of a flush: write the table, commit the edit, clear the memtable.\<close>

definition flush_table :: "fastbloom \<Rightarrow> lsm \<Rightarrow> lsm" where
  "flush_table fb L = L\<lparr>l_sst := sst_write fb (flush_id L) (flush_config (l_config L)) (mem_entries (l_mem L)) (l_sst L)\<rparr>"

definition flush_commit :: "(bytes \<Rightarrow> u32) \<Rightarrow> lsm \<Rightarrow> lsm" where
  "flush_commit crc L =
    (let (manifest, d) = commit crc (flush_edit L) (l_manifest L) (l_dir L) in
     L\<lparr>l_manifest := manifest, l_dir := d\<rparr>)"

definition flush_clear :: "lsm \<Rightarrow> (lsm_error + unit) \<times> lsm" where
  "flush_clear L = (let (r, m) = jm_clear (l_mem L) in (map_err lsm_of_write r, L\<lparr>l_mem := m\<rparr>))"

definition lsm_flush :: "(bytes \<Rightarrow> u32) \<Rightarrow> fastbloom \<Rightarrow> lsm \<Rightarrow> (lsm_error + unit) \<times> lsm" where
  "lsm_flush crc fb L =
    (if mem_entries (l_mem L) = [] then (Inr (), L)
     else flush_clear (flush_commit crc (flush_table fb L)))"

definition lsm_checkpoint :: "(bytes \<Rightarrow> u32) \<Rightarrow> lsm \<Rightarrow> (lsm_error + unit) \<times> lsm" where
  "lsm_checkpoint crc L =
    (let (r, manifest, d) = checkpoint crc (l_manifest L) (l_dir L) in
     (r, L\<lparr>l_manifest := manifest, l_dir := d\<rparr>))"

subsection \<open>Reading\<close>

definition level_numbers :: "lsm_config \<Rightarrow> u32 list" where
  "level_numbers config = map word_of_nat [0..<unat (word_of_nat (num_levels config) :: u32)]"

text \<open>The files a lookup visits: level by level, newest run first.\<close>

definition lookup_files :: "lsm \<Rightarrow> sstable_id list" where
  "lookup_files L =
    concat (map (\<lambda>level. concat (map rd_files (rev (runs_in level (mm_version (l_manifest L))))))
      (level_numbers (l_config L)))"

fun get_files :: "fastbloom \<Rightarrow> sst_dir option \<Rightarrow> bytes \<Rightarrow> u64 \<Rightarrow> sstable_id list \<Rightarrow> sst_cache \<Rightarrow>
    (lsm_error + bytes option) \<times> sst_cache" where
  "get_files fb dir key max_seq [] c = (Inr None, c)"
| "get_files fb dir key max_seq (i # is) c =
    (case sst_open i dir c of
       (Inl e, c1) \<Rightarrow> (Inl e, c1)
     | (Inr t, c1) \<Rightarrow>
         (case sst_get fb dir t key max_seq c1 of
            (Inl e, c2) \<Rightarrow> (Inl e, c2)
          | (Inr (Some kv), c2) \<Rightarrow> (Inr (resolve (ik_op (kv_key kv)) (kv_value kv)), c2)
          | (Inr None, c2) \<Rightarrow> get_files fb dir key max_seq is c2))"

definition lsm_get_at :: "fastbloom \<Rightarrow> bytes \<Rightarrow> u64 \<Rightarrow> lsm \<Rightarrow> (lsm_error + bytes option) \<times> lsm" where
  "lsm_get_at fb key max_seq L =
    (case jm_scan_at (Included key) (Included key) max_seq (l_mem L) of
       Some ((ikey, value) # _) \<Rightarrow> (Inr (resolve (ik_op ikey) value), L)
     | _ \<Rightarrow>
         (let (r, c) = get_files fb (l_sst L) key max_seq (lookup_files L) (l_cache L) in
          (r, L\<lparr>l_cache := c\<rparr>)))"

definition lsm_get :: "fastbloom \<Rightarrow> bytes \<Rightarrow> lsm \<Rightarrow> (lsm_error + bytes option) \<times> lsm" where
  "lsm_get fb key L = lsm_get_at fb key (l_seq L) L"

text \<open>The streams merged by a scan: the memtable's entries, a file's blocks, a single error.\<close>

datatype kv_stream =
    MemStream "key_value list"
  | FileStream block_stream
  | ErrStream "read_error option"

fun stream_next :: "sst_dir option \<Rightarrow> (kv_stream, sst_cache, read_error + key_value) nxt" where
  "stream_next dir (MemStream []) c = (None, MemStream [], c)"
| "stream_next dir (MemStream (kv # es)) c = (Some (Inr kv), MemStream es, c)"
| "stream_next dir (FileStream s) c = (case bs_next dir s c of (r, s', c') \<Rightarrow> (r, FileStream s', c'))"
| "stream_next dir (ErrStream e) c = (map_option Inl e, ErrStream None, c)"

definition overlaps :: "key_range \<Rightarrow> bytes bound \<Rightarrow> bytes bound \<Rightarrow> bool" where
  "overlaps r start stop =
    (let below = (case stop of Included e \<Rightarrow> e < kr_min r | Excluded e \<Rightarrow> e \<le> kr_min r | Unbounded \<Rightarrow> False);
         over = (case start of Included s \<Rightarrow> kr_max r < s | Excluded s \<Rightarrow> kr_max r \<le> s | Unbounded \<Rightarrow> False) in
     \<not> (below \<or> over))"

definition read_err :: "lsm_error \<Rightarrow> read_error" where
  "read_err e = ReadInternal (lsm_display e)"

text \<open>The files a scan visits: level by level, in the order of the runs.\<close>

definition scan_files :: "lsm \<Rightarrow> sstable_id list" where
  "scan_files L =
    concat (map (\<lambda>level. concat (map rd_files (runs_in level (mm_version (l_manifest L)))))
      (level_numbers (l_config L)))"

fun file_streams :: "sst_dir option \<Rightarrow> bytes bound \<Rightarrow> bytes bound \<Rightarrow> u64 \<Rightarrow> sstable_id list \<Rightarrow> sst_cache \<Rightarrow>
    kv_stream list \<times> sst_cache" where
  "file_streams dir start stop max_seq [] c = ([], c)"
| "file_streams dir start stop max_seq (i # is) c =
    (case sst_open i dir c of
       (Inl e, c1) \<Rightarrow>
         (let (ss, c2) = file_streams dir start stop max_seq is c1 in (ErrStream (Some (read_err e)) # ss, c2))
     | (Inr t, c1) \<Rightarrow>
         (let (ss, c2) = file_streams dir start stop max_seq is c1 in
          (if \<not> overlaps (st_range t) start stop then ss
           else FileStream (sst_scan t start stop max_seq) # ss, c2)))"

fun item_cmp :: "read_error + key_value \<Rightarrow> read_error + key_value \<Rightarrow> ordering" where
  "item_cmp (Inr x) (Inr y) = ikey_cmp (kv_key x) (kv_key y)"
| "item_cmp (Inl _) (Inr _) = Less"
| "item_cmp (Inr _) (Inl _) = Greater"
| "item_cmp (Inl _) (Inl _) = Equal"

text \<open>
  A scan, consumed to its end. \<open>None\<close>: the memtable's range panics (the bounds are
  inverted) or the iteration does not end.
\<close>

definition lsm_scan_at :: "bytes bound \<Rightarrow> bytes bound \<Rightarrow> u64 \<Rightarrow> lsm \<Rightarrow> ((lsm_error + kv_pair) list \<times> lsm) option" where
  "lsm_scan_at start stop max_seq L =
    Option.bind (jm_scan_at start stop max_seq (l_mem L)) (\<lambda>es.
      let (ss, c1) = file_streams (l_sst L) start stop max_seq (scan_files L) (l_cache L);
          (merged, c2) = merge_new (stream_next (l_sst L)) (MemStream (kvs es) # ss) c1 in
      Option.bind (resolver_collect (merge_next (stream_next (l_sst L)) item_cmp) merged None c2) (\<lambda>(its, c3).
        Some (map (map_err lsm_of_read) its, L\<lparr>l_cache := c3\<rparr>)))"

definition lsm_scan :: "bytes bound \<Rightarrow> bytes bound \<Rightarrow> lsm \<Rightarrow> ((lsm_error + kv_pair) list \<times> lsm) option" where
  "lsm_scan start stop L = lsm_scan_at start stop (l_seq L) L"

end
