(* ===== verification/Lsm_View.thy ===== *)
theory Lsm_View
  imports Lsm
begin

text \<open>
  What the tree holds, as a map from keys to values at a snapshot, and that lookups
  and scans read this map. The records of a tree lie in layers, newest first: the
  memtable and the tables of the live runs. Within a layer the newest version of a
  key comes first; across layers an older layer never hides a newer version.
\<close>

section \<open>The newest version\<close>

fun newest :: "bytes \<Rightarrow> u64 \<Rightarrow> key_value list \<Rightarrow> key_value option" where
  "newest k s [] = None"
| "newest k s (kv # es) =
    (if ukey kv = k \<and> ik_seq (kv_key kv) \<le> s then
       (case newest k s es of
          None \<Rightarrow> Some kv
        | Some kv' \<Rightarrow> if ik_seq (kv_key kv') \<le> ik_seq (kv_key kv) then Some kv else Some kv')
     else newest k s es)"

definition versions_unique :: "key_value list \<Rightarrow> bool" where
  "versions_unique es \<longleftrightarrow> (\<forall>e\<in>set es. \<forall>f\<in>set es. ukey e = ukey f \<longrightarrow> ik_seq (kv_key e) = ik_seq (kv_key f) \<longrightarrow> e = f)"

definition is_newest :: "bytes \<Rightarrow> u64 \<Rightarrow> key_value set \<Rightarrow> key_value \<Rightarrow> bool" where
  "is_newest k s E kv \<longleftrightarrow> kv \<in> E \<and> ukey kv = k \<and> ik_seq (kv_key kv) \<le> s \<and>
    (\<forall>e\<in>E. ukey e = k \<longrightarrow> ik_seq (kv_key e) \<le> s \<longrightarrow> ik_seq (kv_key e) \<le> ik_seq (kv_key kv))"

lemma newest_None: "newest k s es = None \<longleftrightarrow> (\<forall>e\<in>set es. ukey e = k \<longrightarrow> \<not> ik_seq (kv_key e) \<le> s)"
  by (induction es) (auto split: option.splits)

lemma newest_Some: "newest k s es = Some kv \<Longrightarrow> is_newest k s (set es) kv"
proof (induction es arbitrary: kv)
  case (Cons e es)
  show ?case
  proof (cases "newest k s es")
    case None
    then show ?thesis
      using Cons.prems newest_None [THEN iffD1, OF None] by (auto simp: is_newest_def split: if_splits)
  next
    case (Some kv')
    then show ?thesis using Cons.prems Cons.IH [OF Some] by (auto simp: is_newest_def split: if_splits)
  qed
qed simp

lemma newest_eqI:
  assumes "versions_unique es" and "is_newest k s (set es) kv"
  shows "newest k s es = Some kv"
proof (cases "newest k s es")
  case None
  then show ?thesis using assms(2) by (auto simp: newest_None is_newest_def)
next
  case (Some kv')
  have n': "is_newest k s (set es) kv'" using Some by (rule newest_Some)
  then have "ik_seq (kv_key kv') = ik_seq (kv_key kv)"
    using assms(2) by (intro order.antisym) (simp_all add: is_newest_def)
  then show ?thesis using Some assms n' by (auto simp: versions_unique_def is_newest_def)
qed

lemma newest_cong:
  assumes "versions_unique es"
    and "\<And>e. ukey e = k \<Longrightarrow> e \<in> set es' \<and> ik_seq (kv_key e) \<le> s' \<longleftrightarrow> e \<in> set es \<and> ik_seq (kv_key e) \<le> s"
  shows "newest k s' es' = newest k s es"
proof (cases "newest k s' es'")
  case None
  then have "newest k s es = None" using assms(2) by (auto simp: newest_None)
  then show ?thesis using None by simp
next
  case (Some kv)
  then have "is_newest k s' (set es') kv" by (rule newest_Some)
  then have "is_newest k s (set es) kv" using assms(2) by (auto simp: is_newest_def)
  then show ?thesis using newest_eqI [OF assms(1)] Some by simp
qed

lemma versions_unique_Cons:
  "versions_unique es \<Longrightarrow> (\<And>f. f \<in> set es \<Longrightarrow> ukey e = ukey f \<Longrightarrow> ik_seq (kv_key e) \<noteq> ik_seq (kv_key f)) \<Longrightarrow>
    versions_unique (e # es)"
  unfolding versions_unique_def by (metis set_ConsD)

lemma kv_sorted_unique: "kv_sorted es \<Longrightarrow> versions_unique es"
proof (induction es)
  case (Cons e es)
  have "ukey e = ukey f \<Longrightarrow> ik_seq (kv_key e) \<noteq> ik_seq (kv_key f)" if "f \<in> set es" for f
    using Cons.prems that by (fastforce simp: ikey_lt_def)
  then show ?case using Cons by (intro versions_unique_Cons) simp_all
qed (simp add: versions_unique_def)

lemma visible_is_newest:
  assumes "kv_sorted es" "visible k s es = Some kv"
  shows "is_newest k s (set es) kv"
  using visible_SomeD [OF assms(2)] visible_newest [OF assms] by (auto simp: is_newest_def)

section \<open>Layers\<close>

text \<open>A version newer than one in a newer layer is in that layer too.\<close>

definition shadows :: "key_value list \<Rightarrow> key_value list \<Rightarrow> bool" where
  "shadows new old \<longleftrightarrow> (\<forall>f\<in>set new. \<forall>e\<in>set old.
    ukey f = ukey e \<longrightarrow> ik_seq (kv_key f) < ik_seq (kv_key e) \<longrightarrow> e \<in> set new)"

definition layers_ok :: "key_value list list \<Rightarrow> bool" where
  "layers_ok ls \<longleftrightarrow> sorted_wrt shadows ls \<and> (\<forall>es\<in>set ls. kv_sorted es) \<and> versions_unique (concat ls)"

lemma visible_layers:
  assumes "sorted_wrt shadows ls" "\<forall>es\<in>set ls. kv_sorted es"
    and "\<And>e. e \<in> set (concat ls) \<Longrightarrow> ukey e = k \<Longrightarrow> ik_seq (kv_key e) \<le> s"
    and "visible k s (concat ls) = Some kv"
  shows "is_newest k s (set (concat ls)) kv"
  using assms
proof (induction ls)
  case (Cons es ls)
  show ?case
  proof (cases "visible k s es")
    case None
    then have "visible k s (concat ls) = Some kv" using Cons.prems(4) by (simp add: visible_append)
    then have "is_newest k s (set (concat ls)) kv"
      using Cons.IH Cons.prems(1,2,3) by auto
    moreover have "\<And>e. e \<in> set es \<Longrightarrow> ukey e = k \<Longrightarrow> \<not> ik_seq (kv_key e) \<le> s"
      using visible_NoneD [OF None] by (simp add: not_le)
    ultimately show ?thesis by (auto simp: is_newest_def)
  next
    case (Some kv')
    then have kv: "kv' = kv" using Cons.prems(4) by (simp add: visible_append)
    have n: "is_newest k s (set es) kv" using visible_is_newest Some kv Cons.prems(2) by auto
    have "ik_seq (kv_key e) \<le> ik_seq (kv_key kv)"
      if e: "e \<in> set (concat ls)" "ukey e = k" "ik_seq (kv_key e) \<le> s" for e
    proof (rule ccontr)
      assume neg: "\<not> ik_seq (kv_key e) \<le> ik_seq (kv_key kv)"
      moreover obtain old where "old \<in> set ls" "e \<in> set old" using e(1) by auto
      ultimately have "e \<in> set es" using Cons.prems(1) n e(2) by (auto simp: shadows_def is_newest_def)
      then show False using n e neg by (auto simp: is_newest_def)
    qed
    then show ?thesis using n by (auto simp: is_newest_def)
  qed
qed (simp add: visible_def)

lemma visible_newest_layers:
  assumes "layers_ok ls" and "\<And>e. e \<in> set (concat ls) \<Longrightarrow> ukey e = k \<Longrightarrow> ik_seq (kv_key e) \<le> s"
  shows "visible k s (concat ls) = newest k s (concat ls)"
proof (cases "visible k s (concat ls)")
  case None
  then have "newest k s (concat ls) = None" using visible_NoneD [OF None] by (auto simp: newest_None not_le)
  then show ?thesis using None by simp
next
  case (Some kv)
  then have "is_newest k s (set (concat ls)) kv"
    using visible_layers [of ls k s kv] assms by (auto simp: layers_ok_def)
  then show ?thesis using newest_eqI assms(1) Some by (auto simp: layers_ok_def)
qed

section \<open>The records of a tree\<close>

definition table_records :: "tables \<Rightarrow> sstable_id \<Rightarrow> key_value list" where
  "table_records tabs i = (case tabs i of Some (_, es) \<Rightarrow> es | None \<Rightarrow> [])"

abbreviation mem_records :: "lsm \<Rightarrow> key_value list" where
  "mem_records L \<equiv> kvs (jm_store (l_mem L))"

abbreviation lsm_version :: "lsm \<Rightarrow> version" where
  "lsm_version L \<equiv> mm_version (l_manifest L)"

definition table_layers :: "tables \<Rightarrow> version \<Rightarrow> key_value list list" where
  "table_layers tabs v = map (table_records tabs) (concat (map rd_files (rev (v_runs v))))"

definition lsm_layers :: "tables \<Rightarrow> lsm \<Rightarrow> key_value list list" where
  "lsm_layers tabs L = mem_records L # table_layers tabs (lsm_version L)"

definition lsm_view :: "tables \<Rightarrow> lsm \<Rightarrow> u64 \<Rightarrow> bytes \<Rightarrow> bytes option" where
  "lsm_view tabs L s k = resolve_kv (newest k s (concat (lsm_layers tabs L)))"

text \<open>
  What reading relies on: the files of the live runs hold their tables, the cache
  agrees with them, every run is on a level the configuration has (flushing only
  makes runs on level 0), and the layers are ordered.
\<close>

definition runs_ok :: "tables \<Rightarrow> version \<Rightarrow> bool" where
  "runs_ok tabs v \<longleftrightarrow> (\<forall>r\<in>set (v_runs v). rd_level r = 0 \<and> set (rd_files r) \<subseteq> dom tabs)"

definition read_inv :: "fastbloom \<Rightarrow> tables \<Rightarrow> lsm \<Rightarrow> bool" where
  "read_inv fb tabs L \<longleftrightarrow> btree_sorted (jm_store (l_mem L)) \<and> store_ok fb (l_sst L) tabs \<and>
    cache_ok fb tabs (l_cache L) \<and> runs_ok tabs (lsm_version L) \<and> level_numbers (l_config L) \<noteq> [] \<and>
    layers_ok (lsm_layers tabs L) \<and> (\<forall>e\<in>set (concat (lsm_layers tabs L)). ik_seq (kv_key e) \<le> l_seq L)"

lemma level_numbers_Cons:
  assumes "level_numbers c \<noteq> []"
  shows "\<exists>ls. level_numbers c = 0 # ls \<and> 0 \<notin> set ls"
proof -
  let ?n = "unat (word_of_nat (num_levels c) :: u32)"
  have pos: "0 < ?n" using assms by (auto simp: level_numbers_def)
  have lt: "?n < 2 ^ 32" using unsigned_less [of "word_of_nat (num_levels c) :: u32"] by simp
  have "[0..<?n] = 0 # [1..<?n]" using pos by (simp add: upt_conv_Cons)
  moreover have "(word_of_nat m :: u32) \<noteq> 0" if "m \<in> set [1..<?n]" for m
  proof
    assume "(word_of_nat m :: u32) = 0"
    then have "unat (word_of_nat m :: u32) = 0" by simp
    moreover have "m < 2 ^ 32" "m \<noteq> 0" using that lt by auto
    ultimately show False by (simp add: unat_small)
  qed
  ultimately show ?thesis unfolding level_numbers_def by auto
qed

lemma runs_in_zero:
  assumes "runs_ok tabs v"
  shows "runs_in 0 v = v_runs v" "l \<noteq> 0 \<Longrightarrow> runs_in l v = []"
  using assms by (auto simp: runs_ok_def runs_in_def filter_empty_conv intro!: filter_True)

lemma lookup_files_eq:
  assumes "runs_ok tabs (lsm_version L)" "level_numbers (l_config L) \<noteq> []"
  shows "lookup_files L = concat (map rd_files (rev (v_runs (lsm_version L))))"
    "scan_files L = live_files (lsm_version L)"
proof -
  obtain ls where ls: "level_numbers (l_config L) = 0 # ls" "0 \<notin> set ls"
    using level_numbers_Cons [OF assms(2)] by blast
  have "\<forall>l\<in>set ls. runs_in l (lsm_version L) = []"
    using ls(2) runs_in_zero(2) [OF assms(1)] by metis
  then have rest: "concat (map (\<lambda>l. concat (map rd_files (rev (runs_in l (lsm_version L))))) ls) = []"
    "concat (map (\<lambda>l. concat (map rd_files (runs_in l (lsm_version L)))) ls) = []"
    by (auto simp: concat_eq_Nil_conv)
  show "lookup_files L = concat (map rd_files (rev (v_runs (lsm_version L))))"
    "scan_files L = live_files (lsm_version L)"
    unfolding lookup_files_def scan_files_def ls(1) list.map concat.simps rest
    by (simp_all add: runs_in_zero(1) [OF assms(1)] live_files_def)
qed

lemma live_files_dom: "runs_ok tabs v \<Longrightarrow> set (live_files v) \<subseteq> dom tabs"
  "runs_ok tabs v \<Longrightarrow> set (concat (map rd_files (rev (v_runs v)))) \<subseteq> dom tabs"
  by (auto simp: runs_ok_def live_files_def)

section \<open>Lookups\<close>

lemma get_files_ok:
  assumes "store_ok fb dir tabs" and "no_false_negatives fb"
  shows "cache_ok fb tabs c \<Longrightarrow> set is \<subseteq> dom tabs \<Longrightarrow>
    (\<And>e. e \<in> set (concat (map (table_records tabs) is)) \<Longrightarrow> ukey e = k \<Longrightarrow> ik_seq (kv_key e) \<le> s) \<Longrightarrow>
    \<exists>c'. get_files fb dir k s is c =
      (Inr (resolve_kv (visible k s (concat (map (table_records tabs) is)))), c') \<and> cache_ok fb tabs c'"
proof (induction "is" arbitrary: c)
  case (Cons i "is")
  obtain cfg es where t: "tabs i = Some (cfg, es)" using Cons.prems(2) by auto
  have es: "table_records tabs i = es" using t by (simp add: table_records_def)
  obtain c1 where c1: "sst_open i dir c = (Inr (table_of fb i cfg es), c1)" "cache_ok fb tabs c1"
    using sst_open_ok [OF assms(1) Cons.prems(1) t] by blast
  obtain c2 where c2: "sst_get fb dir (table_of fb i cfg es) k s c1 = (Inr (visible k s es), c2)" "cache_ok fb tabs c2"
    using sst_get_ok [OF assms(1) c1(2) t assms(2), of k s] Cons.prems(3) es by auto
  show ?case
  proof (cases "visible k s es")
    case None
    obtain c3 where "get_files fb dir k s is c2 =
        (Inr (resolve_kv (visible k s (concat (map (table_records tabs) is)))), c3)" "cache_ok fb tabs c3"
      using Cons.IH [OF c2(2)] Cons.prems(2,3) by auto
    then show ?thesis using c1 c2 None es by (simp add: visible_append)
  next
    case (Some kv)
    then show ?thesis using c1 c2 es by (simp add: visible_append resolve_kv_def)
  qed
qed (simp add: visible_def resolve_kv_def)

lemma lsm_get_view:
  assumes inv: "read_inv fb tabs L" and fb: "no_false_negatives fb"
  shows "\<exists>c. lsm_get fb k L = (Inr (lsm_view tabs L (l_seq L) k), L\<lparr>l_cache := c\<rparr>) \<and> cache_ok fb tabs c"
proof -
  let ?s = "l_seq L" and ?T = "table_layers tabs (lsm_version L)"
  have srt: "btree_sorted (mt_store (jm_inner (l_mem L)))" and st: "store_ok fb (l_sst L) tabs" and c: "cache_ok fb tabs (l_cache L)"
    and runs: "runs_ok tabs (lsm_version L)" "level_numbers (l_config L) \<noteq> []"
    and lay: "layers_ok (lsm_layers tabs L)" "\<And>e. e \<in> set (concat (lsm_layers tabs L)) \<Longrightarrow> ik_seq (kv_key e) \<le> ?s"
    using inv by (auto simp: read_inv_def)
  obtain es where es: "jm_scan_at (Included k) (Included k) ?s (l_mem L) = Some es"
      "(case es of [] \<Rightarrow> None | (ik, v) # _ \<Rightarrow> Some \<lparr>kv_key = ik, kv_value = v\<rparr>) = visible k ?s (mem_records L)"
    using bt.scan_point [OF srt, of k ?s] by (auto simp: jm_scan_at_def)
  have view: "lsm_view tabs L ?s k = resolve_kv (visible k ?s (concat (lsm_layers tabs L)))"
    using visible_newest_layers [OF lay(1), of k ?s] lay(2) by (simp add: lsm_view_def)
  show ?thesis
  proof (cases es)
    case Nil
    obtain c' where "get_files fb (l_sst L) k ?s (lookup_files L) (l_cache L) =
        (Inr (resolve_kv (visible k ?s (concat ?T))), c')" "cache_ok fb tabs c'"
      using get_files_ok [OF st fb c live_files_dom(2) [OF runs(1)], of k ?s] lay(2) lookup_files_eq(1) [OF runs]
      by (auto simp: lsm_layers_def table_layers_def)
    then show ?thesis
      using es Nil view by (auto simp: lsm_get_def lsm_get_at_def lsm_layers_def visible_append)
  next
    case (Cons p ps)
    then show ?thesis
      using es view c by (cases p) (auto simp: lsm_get_def lsm_get_at_def lsm_layers_def visible_append resolve_kv_def
          split: option.splits intro!: exI [of _ "l_cache L"])
  qed
qed

section \<open>Scans\<close>

text \<open>What the streams of a scan yield.\<close>

fun stream_yields :: "fastbloom \<Rightarrow> tables \<Rightarrow> kv_stream \<Rightarrow> (read_error + key_value) list \<Rightarrow> bool" where
  "stream_yields fb tabs (MemStream es) xs \<longleftrightarrow> xs = map Inr es"
| "stream_yields fb tabs (FileStream s) xs \<longleftrightarrow> (\<exists>out. stream_out fb tabs s out \<and> xs = map Inr out)"
| "stream_yields fb tabs (ErrStream e) xs \<longleftrightarrow> xs = (case e of None \<Rightarrow> [] | Some e \<Rightarrow> [Inl e])"

lemma ikey_cmp_not_less: "ikey_cmp b a \<noteq> Less \<longleftrightarrow> \<not> ikey_lt b a"
  by simp

lemma ikey_not_lt_trans: "\<not> ikey_lt b a \<Longrightarrow> \<not> ikey_lt c b \<Longrightarrow> \<not> ikey_lt c a"
  by (auto simp: ikey_lt_def not_less order.order_iff_strict)

lemma item_cmp_order: "cmp_order item_cmp"
  unfolding cmp_order_def
proof (intro conjI allI impI)
  fix a b c :: "read_error + key_value"
  show "item_cmp a a \<noteq> Less" by (cases a) auto
  show "item_cmp b a \<noteq> Less" if "item_cmp a b = Less"
    using that by (cases a; cases b) (auto dest: ikey_lt_asym)
  show "item_cmp c a \<noteq> Less" if "item_cmp b a \<noteq> Less" "item_cmp c b \<noteq> Less"
    using that by (cases a; cases b; cases c) (auto dest: ikey_not_lt_trans)
qed

interpretation streams: merge_source "stream_next dir" "\<lambda>c. store_ok fb dir tabs \<and> cache_ok fb tabs c"
  "stream_yields fb tabs" item_cmp for fb dir tabs
proof
  fix c s xs
  assume ok: "store_ok fb dir tabs \<and> cache_ok fb tabs c" and y: "stream_yields fb tabs s xs"
  show "\<exists>s' c'. stream_next dir s c = (head xs, s', c') \<and> (store_ok fb dir tabs \<and> cache_ok fb tabs c') \<and>
      stream_yields fb tabs s' (tl xs)"
  proof (cases s)
    case (MemStream es)
    then show ?thesis using ok y by (cases es) auto
  next
    case (ErrStream e)
    then show ?thesis using ok y by (cases e) auto
  next
    case (FileStream b)
    then obtain out where out: "stream_out fb tabs b out" "xs = map Inr out" using y by auto
    obtain b' c' where "bs_next dir b c = ((case out of [] \<Rightarrow> None | kv # _ \<Rightarrow> Some (Inr kv)), b', c')"
        "cache_ok fb tabs c'" "stream_out fb tabs b' (tl out)"
      using bs_next_ok [of fb dir tabs c b out] ok out(1) by blast
    then show ?thesis using FileStream out(2) ok by (cases out) (auto intro!: exI [of _ "tl out"])
  qed
qed

interpretation scans: kv_source "merge_next (stream_next dir) item_cmp"
  "\<lambda>c. store_ok fb dir tabs \<and> cache_ok fb tabs c"
  "merge_source.merge_out (stream_yields fb tabs) item_cmp" for fb dir tabs
  by unfold_locales (rule streams.merged.step)

lemma not_overlaps_range:
  assumes "store_ok fb dir tabs" "tabs i = Some (cfg, es)" "\<not> overlaps (b_range (build fb cfg es)) lo hi"
  shows "filter (kv_in lo hi s) es = []"
proof -
  have "\<not> within lo hi (ukey kv)" if "kv \<in> set es" for kv
    using build_range_contains [OF assms(1,2) that] assms(3)
    by (cases lo; cases hi) (auto simp: overlaps_def kr_contains_def)
  then show ?thesis by (auto simp: filter_empty_conv kv_in_def)
qed

lemma file_streams_ok:
  assumes "store_ok fb dir tabs"
  shows "cache_ok fb tabs c \<Longrightarrow> set is \<subseteq> dom tabs \<Longrightarrow>
    \<exists>ss c' xss. file_streams dir lo hi s is c = (ss, c') \<and> cache_ok fb tabs c' \<and>
      list_all2 (stream_yields fb tabs) ss (map (map Inr) xss) \<and>
      concat xss = filter (kv_in lo hi s) (concat (map (table_records tabs) is)) \<and> (\<forall>xs\<in>set xss. kv_sorted xs)"
proof (induction "is" arbitrary: c)
  case (Cons i "is")
  obtain cfg es where t: "tabs i = Some (cfg, es)" using Cons.prems(2) by auto
  have es: "table_records tabs i = es" using t by (simp add: table_records_def)
  obtain c1 where c1: "sst_open i dir c = (Inr (table_of fb i cfg es), c1)" "cache_ok fb tabs c1"
    using sst_open_ok [OF assms Cons.prems(1) t] by blast
  obtain ss c2 xss where IH: "file_streams dir lo hi s is c1 = (ss, c2)" "cache_ok fb tabs c2"
      "list_all2 (stream_yields fb tabs) ss (map (map Inr) xss)"
      "concat xss = filter (kv_in lo hi s) (concat (map (table_records tabs) is))" "\<forall>xs\<in>set xss. kv_sorted xs"
    using Cons.IH [OF c1(2)] Cons.prems(2) by auto
  show ?case
  proof (cases "overlaps (b_range (build fb cfg es)) lo hi")
    case True
    have "stream_yields fb tabs (FileStream (sst_scan (table_of fb i cfg es) lo hi s)) (map Inr (filter (kv_in lo hi s) es))"
      using stream_out_start [OF assms t] by auto
    moreover have "kv_sorted (filter (kv_in lo hi s) es)"
      using store_okD(3) [OF assms t] by (rule sorted_wrt_filter)
    ultimately show ?thesis
      using c1 IH True es by (auto intro!: exI [of _ "filter (kv_in lo hi s) es # xss"])
  next
    case False
    then show ?thesis
      using c1 IH es not_overlaps_range [OF assms t False, of s] by (auto intro!: exI [of _ xss])
  qed
qed (auto intro!: exI [of _ "[]"])

lemma find_merged_newest:
  assumes "kv_merged rs" and "find (\<lambda>kv. ukey kv = k) rs = Some kv" and "e \<in> set rs" "ukey e = k"
  shows "ik_seq (kv_key e) \<le> ik_seq (kv_key kv)"
  using assms by (induction rs) (auto simp: ikey_lt_def split: if_splits)

lemma find_merged_eq:
  assumes "kv_merged rs" and rs: "set rs = {e \<in> set es. kv_in lo hi s e}" and "versions_unique es"
  shows "find (\<lambda>kv. ukey kv = k) rs = (if within lo hi k then newest k s es else None)"
proof (cases "find (\<lambda>kv. ukey kv = k) rs")
  case None
  then have "\<forall>e\<in>set es. kv_in lo hi s e \<longrightarrow> ukey e \<noteq> k" using rs by (auto simp: find_None_iff)
  then have "within lo hi k \<Longrightarrow> newest k s es = None" by (auto simp: newest_None kv_in_def)
  then show ?thesis using None by simp
next
  case (Some kv)
  have kv: "kv \<in> set es" "kv_in lo hi s kv" "ukey kv = k" using find_Some_in [OF Some] rs by auto
  have "ik_seq (kv_key e) \<le> ik_seq (kv_key kv)" if "e \<in> set es" "ukey e = k" "ik_seq (kv_key e) \<le> s" for e
    using find_merged_newest [OF assms(1) Some, of e] that kv rs by (auto simp: kv_in_def)
  then have "is_newest k s (set es) kv" using kv by (auto simp: is_newest_def kv_in_def)
  then show ?thesis using newest_eqI [OF assms(3)] Some kv by (simp add: kv_in_def)
qed

text \<open>A scan reads the view: the pairs within the bounds, each key once, in order.\<close>

lemma merged_items:
  fixes xss :: "key_value list list"
  assumes "\<forall>xs\<in>set xss. kv_sorted xs"
  shows "\<exists>rs. kmerge item_cmp (map (map Inr) xss) = map Inr rs \<and> set rs = set (concat xss) \<and> kv_merged rs"
proof -
  let ?z = "kmerge item_cmp (map (map Inr) xss)"
  have set: "set ?z = Inr ` set (concat xss)"
    using mset_eq_setD [OF mset_kmerge [of item_cmp "map (map Inr) xss"]] by auto
  define rs where "rs = map projr ?z"
  have z: "?z = map Inr rs"
    unfolding rs_def map_map by (rule map_idI [symmetric]) (use set in auto)
  have "kv_sorted xs \<Longrightarrow> cmp_sorted item_cmp (map Inr xs)" for xs
    unfolding sorted_wrt_map by (rule sorted_wrt_mono_rel) (auto dest: ikey_lt_asym)
  then have "cmp_sorted item_cmp ?z"
    using assms by (intro kmerge_sorted [OF item_cmp_order]) auto
  then have "kv_merged rs" unfolding z sorted_wrt_map by simp
  moreover have "set rs = set (concat xss)" using set by (auto simp: rs_def image_image)
  ultimately show ?thesis using z by blast
qed

lemma lsm_scan_view:
  assumes inv: "read_inv fb tabs L" and ninv: "\<not> inverted lo hi"
  shows "\<exists>ps c. lsm_scan_at lo hi s L = Some (map Inr ps, L\<lparr>l_cache := c\<rparr>) \<and> cache_ok fb tabs c \<and>
    sorted_wrt (<) (map fst ps) \<and>
    map_of ps = (\<lambda>k. if within lo hi k then lsm_view tabs L s k else None)"
proof -
  have srt: "btree_sorted (mt_store (jm_inner (l_mem L)))" and st: "store_ok fb (l_sst L) tabs" and c: "cache_ok fb tabs (l_cache L)"
    and runs: "runs_ok tabs (lsm_version L)" "level_numbers (l_config L) \<noteq> []" and lay: "layers_ok (lsm_layers tabs L)"
    using inv by (auto simp: read_inv_def)
  let ?R = "concat (lsm_layers tabs L)"
  obtain es where es: "jm_scan_at lo hi s (l_mem L) = Some es" "kvs es = filter (kv_in lo hi s) (mem_records L)"
    using bt.scan_at [OF srt, of lo hi s] ninv by (auto simp: jm_scan_at_def)
  obtain ss c1 xss where fs: "file_streams (l_sst L) lo hi s (scan_files L) (l_cache L) = (ss, c1)" "cache_ok fb tabs c1"
      "list_all2 (stream_yields fb tabs) ss (map (map Inr) xss)"
      "concat xss = filter (kv_in lo hi s) (concat (map (table_records tabs) (scan_files L)))" "\<forall>xs\<in>set xss. kv_sorted xs"
    using file_streams_ok [OF st c, of "scan_files L" lo hi s] live_files_dom(1) [OF runs(1)]
    unfolding lookup_files_eq(2) [OF runs] by blast
  let ?xss = "kvs es # xss"
  have ok: "store_ok fb (l_sst L) tabs \<and> cache_ok fb tabs c1" using st fs(2) by simp
  have "list_all2 (stream_yields fb tabs) (MemStream (kvs es) # ss) (map (map Inr) ?xss)" using fs(3) by simp
  from streams.merge_new_out [OF this ok] obtain ms c2 where ms: "merge_new (stream_next (l_sst L)) (MemStream (kvs es) # ss) c1 = (ms, c2)"
      "store_ok fb (l_sst L) tabs \<and> cache_ok fb tabs c2" "list_all2 (source.head_out (stream_yields fb tabs)) ms (map (map Inr) ?xss)"
    by blast
  have "kv_sorted (kvs es)" unfolding es(2) using srt by (intro sorted_wrt_filter) (simp add: kv_sorted_kvs)
  then obtain rs where rs: "kmerge item_cmp (map (map Inr) ?xss) = map Inr rs" "set rs = set (concat ?xss)" "kv_merged rs"
    using merged_items [of ?xss] fs(5) by auto
  have "merge_source.merge_out (stream_yields fb tabs) item_cmp ms (map Inr rs)"
    unfolding streams.merge_out_def using ms(3) rs(1) by metis
  from scans.resolver_collect_out [OF ms(2) this, of None] obtain c3 where
    c3: "resolver_collect (merge_next (stream_next (l_sst L)) item_cmp) ms None c2 = Some (map Inr (resolve_versions None rs), c3)"
      "cache_ok fb tabs c3" by blast
  let ?ps = "resolve_versions None rs"
  have scan: "lsm_scan_at lo hi s L = Some (map Inr ?ps, L\<lparr>l_cache := c3\<rparr>)"
    using es(1) fs(1) ms(1) c3(1) by (simp add: lsm_scan_at_def comp_def)
  have set_rs: "set rs = {e \<in> set ?R. kv_in lo hi s e}"
    unfolding rs(2) using fs(4) es(2)
    by (auto simp: lsm_layers_def table_layers_def lookup_files_eq(2) [OF runs] live_files_def)
  have "map_of ?ps k = (if within lo hi k then lsm_view tabs L s k else None)" for k
  proof -
    have "find (\<lambda>kv. ukey kv = k) rs = (if within lo hi k then newest k s ?R else None)"
      using find_merged_eq [OF rs(3) set_rs] lay by (simp add: layers_ok_def)
    then show ?thesis using resolve_versions_lookup [OF rs(3), of None k] by (simp add: lsm_view_def resolve_kv_def)
  qed
  then show ?thesis
    using scan c3(2) resolve_versions_keys [OF rs(3), of None] by auto
qed

end
