(* ===== verification/Lsm_Refinement.thy ===== *)
theory Lsm_Refinement
  imports Lsm_View
begin

text \<open>
  The tree refines a map. Every operation keeps the invariant \<open>lsm_inv\<close> and acts on the
  contents as the operation of a map: a put updates one key, a delete removes it, and
  flushing, checkpointing, reading and reopening leave the contents as they are. A
  crash inside a write, a flush or a checkpoint leaves a disk that opens to the
  contents before the operation.
\<close>

section \<open>The invariant\<close>

definition lsm_inv :: "(bytes \<Rightarrow> u32) \<Rightarrow> fastbloom \<Rightarrow> tables \<Rightarrow> lsm \<Rightarrow> bool" where
  "lsm_inv crc fb tabs L \<longleftrightarrow> read_inv fb tabs L \<and> jm_inv crc (l_mem L) \<and> mm_inv crc (l_manifest L) (l_dir L) \<and>
    (\<forall>i\<in>dom tabs. sst_id i < v_next_sst_id (lsm_version L)) \<and>
    (\<forall>e\<in>set (concat (table_layers tabs (lsm_version L))). ik_seq (kv_key e) \<le> v_last_seq (lsm_version L)) \<and>
    v_last_seq (lsm_version L) \<le> l_seq L"

text \<open>The contents of a tree, and when two states hold the same.\<close>

abbreviation contents :: "tables \<Rightarrow> lsm \<Rightarrow> bytes \<Rightarrow> bytes option" where
  "contents tabs L \<equiv> lsm_view tabs L (l_seq L)"

abbreviation seqs_le :: "key_value list \<Rightarrow> u64 \<Rightarrow> bool" where
  "seqs_le es s \<equiv> \<forall>e\<in>set es. ik_seq (kv_key e) \<le> s"

lemma contents_eqI:
  assumes "versions_unique (concat (lsm_layers tabs L))"
    and "set (concat (lsm_layers tabs' L')) = set (concat (lsm_layers tabs L))"
    and "seqs_le (concat (lsm_layers tabs L)) (l_seq L)" "seqs_le (concat (lsm_layers tabs L)) (l_seq L')"
  shows "contents tabs' L' = contents tabs L"
proof
  fix k
  have "newest k (l_seq L') (concat (lsm_layers tabs' L')) = newest k (l_seq L) (concat (lsm_layers tabs L))"
    using assms by (intro newest_cong) (auto simp: assms(2))
  then show "contents tabs' L' k = contents tabs L k" by (simp add: lsm_view_def)
qed

lemma read_invD:
  assumes "read_inv fb tabs L"
  shows "layers_ok (lsm_layers tabs L)" "versions_unique (concat (lsm_layers tabs L))"
    "seqs_le (concat (lsm_layers tabs L)) (l_seq L)" "runs_ok tabs (lsm_version L)"
    "store_ok fb (l_sst L) tabs" "cache_ok fb tabs (l_cache L)" "btree_sorted (jm_store (l_mem L))"
    "level_numbers (l_config L) \<noteq> []"
  using assms by (auto simp: read_inv_def layers_ok_def)

section \<open>Writes\<close>

lemma layers_ok_insert:
  assumes "layers_ok (es # ls)" and "kv_sorted es'" and "set es' = insert kv (set es)"
    and "\<And>e. e \<in> set (concat (es # ls)) \<Longrightarrow> ik_seq (kv_key e) < ik_seq (kv_key kv)"
  shows "layers_ok (es' # ls)"
proof -
  have "shadows es' old" if "old \<in> set ls" for old
  proof -
    have "shadows es old" using assms(1) that by (simp add: layers_ok_def)
    moreover have "\<not> ik_seq (kv_key kv) < ik_seq (kv_key e)" if "e \<in> set old" for e
    proof -
      have "e \<in> set (concat (es # ls))" using \<open>e \<in> set old\<close> \<open>old \<in> set ls\<close> by auto
      from assms(4) [OF this] show ?thesis by simp
    qed
    ultimately show ?thesis using assms(3) by (auto simp: shadows_def)
  qed
  moreover have "versions_unique (concat (es' # ls))"
  proof -
    have u: "versions_unique (kv # concat (es # ls))"
    proof (rule versions_unique_Cons)
      show "versions_unique (concat (es # ls))" using assms(1) by (simp add: layers_ok_def)
      show "ik_seq (kv_key kv) \<noteq> ik_seq (kv_key f)" if "f \<in> set (concat (es # ls))" for f
        using assms(4) [OF that] by simp
    qed
    have "set (concat (es' # ls)) = set (kv # concat (es # ls))" using assms(3) by auto
    then show ?thesis using u unfolding versions_unique_def by simp
  qed
  ultimately show ?thesis using assms(1,2) by (auto simp: layers_ok_def)
qed

lemma lsm_write_ok:
  assumes inv: "lsm_inv crc fb tabs L" and seq: "l_seq L < - 1"
    and rec: "kvj_ok \<lparr>kv_key = \<lparr>user_key = k, ik_seq = l_seq L + 1, ik_op = op\<rparr>, kv_value = v\<rparr>"
    and w: "lsm_write crc k v op L = (Inr u, L')"
  shows "lsm_inv crc fb tabs L' \<and> contents tabs L' = (contents tabs L)(k := resolve op v) \<and>
    l_seq L' = l_seq L + 1 \<and> (\<forall>s \<le> l_seq L. lsm_view tabs L' s = lsm_view tabs L s) \<and>
    l_config L' = l_config L \<and> l_manifest L' = l_manifest L"
proof -
  let ?ik = "\<lparr>user_key = k, ik_seq = l_seq L + 1, ik_op = op\<rparr>" and ?T = "table_layers tabs (lsm_version L)"
  let ?kv = "\<lparr>kv_key = ?ik, kv_value = v\<rparr>" and ?R = "concat (lsm_layers tabs L)" and ?R' = "concat (lsm_layers tabs L')"
  have rd: "read_inv fb tabs L" and jm: "jm_inv crc (l_mem L)" using inv by (simp_all add: lsm_inv_def)
  note D = read_invD [OF rd]
  obtain m u' where p: "jm_put crc ?ik v (l_mem L) = (Inr u', m)" "L' = L\<lparr>l_mem := m, l_seq := l_seq L + 1\<rparr>"
    using w by (auto simp: lsm_write_def Let_def split: prod.splits sum.splits)
  have lt: "l_seq L < l_seq L + 1" using seq by (rule less_add_one_word)
  have fresh: "ik_seq (kv_key e) < l_seq L + 1" if "e \<in> set ?R" for e
    using D(3) that lt by (auto intro: order.strict_trans1)
  have mem: "set (kvs (jm_store m)) = insert ?kv (set (mem_records L))"
    using jm.put_fresh [OF jm rec p(1)] fresh by (auto simp: lsm_layers_def)
  have jm': "jm_inv crc m" using jm.put_ok [OF jm rec p(1)] by simp
  have R': "set ?R' = insert ?kv (set ?R)" using mem p(2) by (simp add: lsm_layers_def)
  have lay: "layers_ok (lsm_layers tabs L')"
    using layers_ok_insert [of "mem_records L" ?T "kvs (jm_store m)" ?kv] D(1) jm.entries_sorted [OF jm'] mem fresh p(2)
    by (simp add: lsm_layers_def)
  have seqs: "seqs_le ?R' (l_seq L')"
  proof
    fix e assume "e \<in> set ?R'"
    then have "e = ?kv \<or> e \<in> set ?R" using R' by auto
    then show "ik_seq (kv_key e) \<le> l_seq L'" using fresh [of e] p(2) by (auto intro: less_imp_le)
  qed
  have "read_inv fb tabs L'"
    using D lay seqs p(2) jm.sorted [OF jm'] unfolding read_inv_def by simp
  moreover have "lsm_inv crc fb tabs L' \<longleftrightarrow> read_inv fb tabs L' \<and> jm_inv crc m \<and> v_last_seq (lsm_version L) \<le> l_seq L + 1"
    using inv p(2) by (simp add: lsm_inv_def)
  moreover have "v_last_seq (lsm_version L) \<le> l_seq L + 1"
    using inv lt by (simp add: lsm_inv_def) (meson less_imp_le order.trans)
  moreover have "contents tabs L' k' = ((contents tabs L)(k := resolve op v)) k'" for k'
  proof (cases "k' = k")
    case True
    have "is_newest k (l_seq L + 1) (set ?R') ?kv"
      using R' fresh by (auto simp: is_newest_def intro: less_imp_le)
    then show ?thesis
      using True newest_eqI lay p(2) by (auto simp: lsm_view_def layers_ok_def resolve_kv_def)
  next
    case False
    have "newest k' (l_seq L + 1) ?R' = newest k' (l_seq L) ?R"
      using False R' fresh D(2,3) by (intro newest_cong) (auto intro: less_imp_le)
    then show ?thesis using False p(2) by (simp add: lsm_view_def)
  qed
  moreover have "lsm_view tabs L' s = lsm_view tabs L s" if "s \<le> l_seq L" for s
  proof
    fix k'
    have "\<not> l_seq L + 1 \<le> s" using that lt by (meson leD order.trans)
    then have "newest k' s ?R' = newest k' s ?R"
      using R' D(2) by (intro newest_cong) auto
    then show "lsm_view tabs L' s k' = lsm_view tabs L s k'" by (simp add: lsm_view_def)
  qed
  ultimately show ?thesis using p(2) jm' by auto
qed

lemma lsm_write_full:
  assumes inv: "lsm_inv crc fb tabs L"
    and rec: "kvj_ok \<lparr>kv_key = \<lparr>user_key = k, ik_seq = l_seq L + 1, ik_op = op\<rparr>, kv_value = v\<rparr>"
    and w: "lsm_write crc k v op L = (Inl e, L')"
  shows "lsm_inv crc fb tabs L' \<and> contents tabs L' = contents tabs L \<and> l_config L' = l_config L \<and>
    l_seq L' = l_seq L \<and> e = Write StoreFull"
proof -
  let ?ik = "\<lparr>user_key = k, ik_seq = l_seq L + 1, ik_op = op\<rparr>"
  have jm: "jm_inv crc (l_mem L)" using inv by (simp add: lsm_inv_def)
  obtain m e' where p: "jm_put crc ?ik v (l_mem L) = (Inl e', m)" "L' = L\<lparr>l_mem := m\<rparr>" "e = lsm_of_write e'"
    using w by (auto simp: lsm_write_def Let_def split: prod.splits sum.splits)
  have "jm_inv crc m" "jm_store m = jm_store (l_mem L)" "e' = StoreFull"
    using jm.put_err [OF jm rec p(1)] by simp_all
  moreover from this have "lsm_layers tabs L' = lsm_layers tabs L" using p(2) by (simp add: lsm_layers_def)
  ultimately show ?thesis
    using inv p(2,3) by (auto simp: lsm_inv_def read_inv_def lsm_view_def)
qed

section \<open>Flushing\<close>

lemma mem_entries_eq: "btree_sorted (jm_store (l_mem L)) \<Longrightarrow> mem_entries (l_mem L) = mem_records L"
  using bt.scan_everything [of "jm_inner (l_mem L)"] by (auto simp: mem_entries_def jm_scan_at_def)

lemma table_layers_cong:
  assumes "runs_ok tabs v" and "\<And>i. i \<in> dom tabs \<Longrightarrow> tabs' i = tabs i"
  shows "table_layers tabs' v = table_layers tabs v"
  unfolding table_layers_def
proof (rule map_cong [OF refl])
  fix i assume "i \<in> set (concat (map rd_files (rev (v_runs v))))"
  then have "tabs' i = tabs i" using assms(2) live_files_dom(2) [OF assms(1)] by blast
  then show "table_records tabs' i = table_records tabs i" by (simp add: table_records_def)
qed

definition flushed_tables :: "tables \<Rightarrow> lsm \<Rightarrow> tables" where
  "flushed_tables tabs L = tabs(flush_id L \<mapsto> (flush_config (l_config L), mem_records L))"

lemma flush_id_fresh: "lsm_inv crc fb tabs L \<Longrightarrow> flush_id L \<notin> dom tabs"
  by (force simp: lsm_inv_def flush_id_def)

lemma flushed_tables_old:
  "lsm_inv crc fb tabs L \<Longrightarrow> i \<in> dom tabs \<Longrightarrow> flushed_tables tabs L i = tabs i"
  using flush_id_fresh [of crc fb tabs L] by (auto simp: flushed_tables_def)

lemma flush_table_inv:
  assumes inv: "lsm_inv crc fb tabs L"
    and small: "length (table_file fb (flush_id L) (flush_config (l_config L)) (mem_records L)) < 2 ^ 32"
  shows "read_inv fb (flushed_tables tabs L) (flush_table fb L) \<and>
    lsm_layers (flushed_tables tabs L) (flush_table fb L) = lsm_layers tabs L"
proof -
  note D = read_invD [OF inv [unfolded lsm_inv_def, THEN conjunct1]]
  note ent = mem_entries_eq [OF D(7)]
  have tl: "table_layers (flushed_tables tabs L) (lsm_version L) = table_layers tabs (lsm_version L)"
    using D(4) flushed_tables_old [OF inv] by (rule table_layers_cong)
  have sub: "tabs \<subseteq>\<^sub>m flushed_tables tabs L" using flushed_tables_old [OF inv] by (auto simp: map_le_def)
  have "table_ok fb (flush_id L) (flush_config (l_config L)) (mem_records L)"
    using small D(7) by (simp add: table_ok_def kv_sorted_kvs)
  then have "store_ok fb (l_sst (flush_table fb L)) (flushed_tables tabs L)"
    using store_ok_write [OF D(5)] ent by (simp add: flush_table_def flushed_tables_def)
  moreover have "cache_ok fb (flushed_tables tabs L) (l_cache L)" using cache_ok_extend [OF D(6) sub] .
  moreover have "runs_ok (flushed_tables tabs L) (lsm_version L)"
    using D(4) by (auto simp: runs_ok_def flushed_tables_def)
  ultimately show ?thesis
    using D tl by (simp add: read_inv_def flush_table_def lsm_layers_def)
qed

lemma apply_flush_edit:
  "apply_edit (flush_edit L) v =
    v\<lparr>v_runs := v_runs v @ [\<lparr>rd_level = 0, rd_run = RunId (sst_id (flush_id L)), rd_files = [flush_id L]\<rparr>],
      v_next_sst_id := sst_id (flush_id L) + 1, v_last_seq := l_seq L\<rparr>"
  by (simp add: flush_edit_def set_last_seq_def set_next_sst_id_def add_run_def apply_edit_def)

lemma flush_edit_ok: "edit_ok (flush_edit L)"
  by (simp add: flush_edit_def set_last_seq_def set_next_sst_id_def add_run_def edit_ok_def edit_encode_def)

lemma flush_commit_version:
  assumes "mm_inv crc (l_manifest L) (l_dir L)"
  shows "mm_inv crc (l_manifest (flush_commit crc L)) (l_dir (flush_commit crc L)) \<and>
    lsm_version (flush_commit crc L) = apply_edit (flush_edit L) (lsm_version L)"
proof -
  obtain mm d where c: "commit crc (flush_edit L) (l_manifest L) (l_dir L) = (mm, d)" by fastforce
  then show ?thesis
    using mm_commit [OF assms flush_edit_ok c] by (simp add: flush_commit_def)
qed

lemma layers_ok_Nil: "layers_ok ls \<Longrightarrow> layers_ok ([] # ls)"
  by (simp add: layers_ok_def shadows_def)

lemma layers_ok_dup: "layers_ok (es # ls) \<Longrightarrow> layers_ok (es # es # ls)"
  by (auto simp: layers_ok_def shadows_def versions_unique_def)

text \<open>After the commit the flushed records are in the memtable and in the newest table.\<close>

lemma flush_commit_inv:
  assumes inv: "lsm_inv crc fb tabs L" and room: "sst_id (flush_id L) < - 1"
    and small: "length (table_file fb (flush_id L) (flush_config (l_config L)) (mem_records L)) < 2 ^ 32"
  defines "L' \<equiv> flush_commit crc (flush_table fb L)"
  shows "lsm_inv crc fb (flushed_tables tabs L) L' \<and>
    lsm_layers (flushed_tables tabs L) L' = mem_records L # mem_records L # table_layers tabs (lsm_version L) \<and>
    l_mem L' = l_mem L \<and> l_seq L' = l_seq L \<and> l_config L' = l_config L"
proof -
  let ?tabs = "flushed_tables tabs L" and ?L1 = "flush_table fb L"
  have rd: "read_inv fb ?tabs ?L1" "lsm_layers ?tabs ?L1 = lsm_layers tabs L"
    using flush_table_inv [OF inv small] by simp_all
  note D = read_invD [OF rd(1)]
  have same: "l_manifest ?L1 = l_manifest L" "l_dir ?L1 = l_dir L" "l_mem ?L1 = l_mem L" "l_seq ?L1 = l_seq L"
      "l_config ?L1 = l_config L" "flush_id ?L1 = flush_id L" "flush_edit ?L1 = flush_edit L"
    by (simp_all add: flush_table_def flush_id_def flush_edit_def)
  have mm: "mm_inv crc (l_manifest L') (l_dir L')" "lsm_version L' = apply_edit (flush_edit L) (lsm_version L)"
    using flush_commit_version [of crc ?L1] inv same by (simp_all add: lsm_inv_def L'_def)
  have fields: "l_mem L' = l_mem L" "l_seq L' = l_seq L" "l_config L' = l_config L" "l_sst L' = l_sst ?L1" "l_cache L' = l_cache ?L1"
    using same by (simp_all add: L'_def flush_commit_def split: prod.splits)
  have tl: "table_layers ?tabs (lsm_version L') = mem_records L # table_layers tabs (lsm_version L)"
  proof -
    have "table_layers ?tabs (lsm_version L) = table_layers tabs (lsm_version L)"
      using rd(2) same by (simp add: lsm_layers_def)
    then show ?thesis
      by (simp add: table_layers_def mm(2) apply_flush_edit) (simp add: table_records_def flushed_tables_def)
  qed
  have lay: "layers_ok (lsm_layers ?tabs L')" "set (concat (lsm_layers ?tabs L')) = set (concat (lsm_layers tabs L))"
    using D(1) rd(2) tl fields layers_ok_dup by (auto simp: lsm_layers_def)
  have runs: "runs_ok ?tabs (lsm_version L')"
    using D(4) same by (auto simp: runs_ok_def mm(2) apply_flush_edit flushed_tables_def)
  have seqs: "seqs_le (concat (lsm_layers ?tabs L')) (l_seq L')"
    using D(3) lay(2) rd(2) fields same by simp
  have "read_inv fb ?tabs L'"
    using D lay runs seqs fields same by (simp add: read_inv_def)
  moreover have "sst_id i < v_next_sst_id (lsm_version L')" if "i \<in> dom ?tabs" for i
  proof -
    have lt: "sst_id (flush_id L) < sst_id (flush_id L) + 1" using room by (rule less_add_one_word)
    have "i = flush_id L \<or> i \<in> dom tabs" using that by (auto simp: flushed_tables_def split: if_splits)
    then show ?thesis
      using inv lt by (auto simp: mm(2) apply_flush_edit lsm_inv_def flush_id_def intro: order.strict_trans)
  qed
  moreover have "v_last_seq (lsm_version L') = l_seq L" by (simp add: mm(2) apply_flush_edit)
  moreover have "seqs_le (concat (table_layers ?tabs (lsm_version L'))) (l_seq L)"
    using seqs fields by (simp add: lsm_layers_def)
  ultimately have "lsm_inv crc fb ?tabs L'"
    using inv mm(1) fields by (simp add: lsm_inv_def)
  then show ?thesis using tl fields by (simp add: lsm_layers_def)
qed

lemma lsm_inv_read: "lsm_inv crc fb tabs L \<Longrightarrow> read_inv fb tabs L"
  by (simp add: lsm_inv_def)

lemma flush_clear_ok:
  assumes inv: "lsm_inv crc fb tabs L" and lay: "lsm_layers tabs L = es # es # ls" and c: "flush_clear L = (r, L')"
  shows "r = Inr () \<and> lsm_inv crc fb tabs L' \<and> contents tabs L' = contents tabs L \<and> jm_durable crc (l_mem L') \<and>
    mt_capacity (jm_inner (l_mem L')) = mt_capacity (jm_inner (l_mem L)) \<and> l_config L' = l_config L"
proof -
  note D = read_invD [OF lsm_inv_read [OF inv]]
  have jm: "jm_inv crc (l_mem L)" using inv by (simp add: lsm_inv_def)
  obtain r' m where p: "jm_clear (l_mem L) = (r', m)" "L' = L\<lparr>l_mem := m\<rparr>" "r = map_err lsm_of_write r'"
    using c by (auto simp: flush_clear_def split: prod.splits)
  have m: "r' = Inr ()" "jm_inv crc m" "jm_store m = []" using jm.clear [OF jm p(1)] by simp_all
  have lay': "lsm_layers tabs L' = [] # es # ls" using lay m(3) p(2) by (simp add: lsm_layers_def)
  have "layers_ok (lsm_layers tabs L')"
    unfolding lay' using D(1) lay by (intro layers_ok_Nil) (auto simp: layers_ok_def versions_unique_def)
  moreover have set: "set (concat (lsm_layers tabs L')) = set (concat (lsm_layers tabs L))" by (simp add: lay lay')
  ultimately have "read_inv fb tabs L'"
    using D m p(2) by (simp add: read_inv_def)
  moreover have "contents tabs L' = contents tabs L"
    by (rule contents_eqI) (use D set p(2) in auto)
  moreover have "mt_capacity (jm_inner m) = mt_capacity (jm_inner (l_mem L))"
    using p(1) by (auto simp: jm_clear_def mem_clear_def)
  ultimately show ?thesis
    using inv m p jm_clear_durable [OF jm p(1)] by (simp add: lsm_inv_def)
qed

lemma lsm_flush_ok:
  assumes inv: "lsm_inv crc fb tabs L" and room: "sst_id (flush_id L) < - 1"
    and small: "length (table_file fb (flush_id L) (flush_config (l_config L)) (mem_entries (l_mem L))) < 2 ^ 32"
    and f: "lsm_flush crc fb L = (r, L')"
  shows "r = Inr () \<and> (\<exists>tabs'. lsm_inv crc fb tabs' L' \<and> contents tabs' L' = contents tabs L) \<and>
    (mem_entries (l_mem L) \<noteq> [] \<longrightarrow> jm_durable crc (l_mem L')) \<and> (mem_entries (l_mem L) = [] \<longrightarrow> L' = L) \<and>
    mt_capacity (jm_inner (l_mem L')) = mt_capacity (jm_inner (l_mem L)) \<and> l_config L' = l_config L"
proof (cases "mem_entries (l_mem L) = []")
  case True
  then show ?thesis using f inv by (auto simp: lsm_flush_def)
next
  case False
  let ?L = "flush_commit crc (flush_table fb L)" and ?tabs = "flushed_tables tabs L"
  note D = read_invD [OF lsm_inv_read [OF inv]]
  note ent = mem_entries_eq [OF D(7)]
  have c: "lsm_inv crc fb ?tabs ?L" "lsm_layers ?tabs ?L = mem_records L # mem_records L # table_layers tabs (lsm_version L)"
      "l_mem ?L = l_mem L" "l_seq ?L = l_seq L" "l_config ?L = l_config L"
    using flush_commit_inv [OF inv room] small ent by simp_all
  have fc: "flush_clear ?L = (r, L')" using f False by (simp add: lsm_flush_def)
  have "contents ?tabs ?L = contents tabs L"
    by (rule contents_eqI) (use D c in \<open>auto simp: lsm_layers_def\<close>)
  then show ?thesis
    using flush_clear_ok [OF c(1,2) fc] c(3,5) False by (intro conjI exI [of _ ?tabs]) simp_all
qed

section \<open>Checkpoints and reads\<close>

lemma lsm_checkpoint_ok:
  assumes inv: "lsm_inv crc fb tabs L" and "edit_ok (to_snapshot (lsm_version L))" "mm_current (l_manifest L) < - 1"
    and c: "lsm_checkpoint crc L = (r, L')"
  shows "r = Inr () \<and> lsm_inv crc fb tabs L' \<and> contents tabs L' = contents tabs L \<and>
    l_mem L' = l_mem L \<and> l_config L' = l_config L"
proof -
  obtain mm d where k: "checkpoint crc (l_manifest L) (l_dir L) = (r, mm, d)" "L' = L\<lparr>l_manifest := mm, l_dir := d\<rparr>"
    using c by (auto simp: lsm_checkpoint_def split: prod.splits)
  have "mm_inv crc (l_manifest L) (l_dir L)" using inv by (simp add: lsm_inv_def)
  from mm_checkpoint [OF this assms(2,3) k(1)] have "r = Inr ()" "mm_inv crc mm d" "mm_version mm = lsm_version L" by simp_all
  then show ?thesis
    using inv k(2) by (auto simp: lsm_inv_def read_inv_def lsm_layers_def lsm_view_def)
qed

lemma cache_update_ok:
  assumes "lsm_inv crc fb tabs L" "cache_ok fb tabs c"
  shows "lsm_inv crc fb tabs (L\<lparr>l_cache := c\<rparr>) \<and> contents tabs (L\<lparr>l_cache := c\<rparr>) = contents tabs L"
  using assms by (auto simp: lsm_inv_def read_inv_def lsm_layers_def lsm_view_def)

section \<open>Opening\<close>

lemma gc_keeps_live:
  assumes "i \<in> set (live_files (mm_version mm))"
  shows "sst_file (snd (garbage_collect mm dir)) i = sst_file dir i"
proof -
  have "map_of (filter (\<lambda>(n, _). \<not> collectable (mm_version mm) n) fs) (sst_name i) = map_of fs (sst_name i)" for fs :: sst_dir
  proof (induction fs)
    case (Cons f fs)
    have "\<not> collectable (mm_version mm) (sst_name i)" using assms by (simp add: collectable_def)
    then show ?case using Cons by (cases f) auto
  qed simp
  then show ?thesis by (simp add: sst_file_def garbage_collect_def split: option.splits)
qed

lemma fold_max_ge: "(x :: u64) \<in> set xs \<or> x \<le> a \<Longrightarrow> x \<le> fold max xs a"
proof (induction xs arbitrary: a)
  case (Cons y xs)
  have "x \<in> set xs \<or> x \<le> max y a" using Cons.prems by (auto simp: le_max_iff_disj)
  then show ?case using Cons.IH [of "max y a"] by simp
qed simp

lemma mem_max_seq_ge:
  assumes "btree_sorted (jm_store m)" "e \<in> set (kvs (jm_store m))"
  shows "ik_seq (kv_key e) \<le> mem_max_seq m"
proof -
  obtain es where es: "jm_scan_at Unbounded Unbounded (- 1) m = Some es" "kvs es = kvs (jm_store m)"
    using bt.scan_everything [OF assms(1)] by (auto simp: jm_scan_at_def)
  have "map (\<lambda>(k, _). ik_seq k) es = map (\<lambda>e. ik_seq (kv_key e)) (kvs es)"
    by (simp add: kvs_def case_prod_beta)
  then have "ik_seq (kv_key e) \<in> set (map (\<lambda>(k, _). ik_seq k) es)" using assms(2) es(2) by simp
  then show ?thesis using es(1) by (simp add: mem_max_seq_def fold_max_ge)
qed

text \<open>
  Opening a disk whose manifest, tables and journal hold ordered layers gives a tree
  with these layers.
\<close>

lemma open_recovers:
  assumes mo: "manager_open crc (dk_manifest dk) = (Inr mm, d)" and jo: "journaled_open crc (dk_wal dk) mem = Inr m"
    and st: "store_ok fb (dk_sst dk) tabs" and runs: "runs_ok tabs (mm_version mm)" and lv: "level_numbers config \<noteq> []"
    and srt: "btree_sorted (jm_store m)"
    and lay: "layers_ok (kvs (jm_store m) # table_layers tabs (mm_version mm))"
    and seqs: "seqs_le (concat (table_layers tabs (mm_version mm))) (v_last_seq (mm_version mm))"
  shows "\<exists>L tabs'. lsm_open crc config mem dk = (Inr L, lsm_on_disk L) \<and> read_inv fb tabs' L \<and>
    tabs' = tabs |` set (live_files (mm_version mm)) \<and>
    lsm_layers tabs' L = kvs (jm_store m) # table_layers tabs (mm_version mm) \<and>
    l_mem L = m \<and> l_manifest L = mm \<and> l_dir L = d \<and> l_config L = config \<and> v_last_seq (mm_version mm) \<le> l_seq L"
proof -
  let ?live = "set (live_files (mm_version mm))" and ?v = "mm_version mm"
  let ?tabs = "tabs |` ?live" and ?seq = "max (v_last_seq ?v) (mem_max_seq m)"
  define L where "L = \<lparr>l_config = config, l_dir = d, l_sst = snd (garbage_collect mm (dk_sst dk)),
    l_cache = sst_cache_new (lsm_page_cache config), l_mem = m, l_manifest = mm, l_seq = ?seq\<rparr>"
  have op: "lsm_open crc config mem dk = (Inr L, lsm_on_disk L)"
    using mo jo by (simp add: lsm_open_def L_def Let_def)
  have "i \<in> set (concat (map rd_files (rev (v_runs ?v)))) \<Longrightarrow> table_records ?tabs i = table_records tabs i" for i
    by (auto simp: table_records_def restrict_map_def live_files_def)
  then have tl: "table_layers ?tabs ?v = table_layers tabs ?v"
    unfolding table_layers_def by (intro map_cong [OF refl]) blast
  have ll: "lsm_layers ?tabs L = kvs (jm_store m) # table_layers tabs ?v" using tl by (simp add: lsm_layers_def L_def)
  have "store_ok fb (l_sst L) ?tabs"
    using st gc_keeps_live by (auto simp: store_ok_def L_def restrict_map_def split: if_splits)
  moreover have "runs_ok ?tabs ?v" using runs live_files_dom(1) [OF runs] by (auto simp: runs_ok_def live_files_def)
  moreover have "seqs_le (concat (lsm_layers ?tabs L)) (l_seq L)"
  proof
    fix e assume "e \<in> set (concat (lsm_layers ?tabs L))"
    then consider "e \<in> set (kvs (jm_store m))" | "e \<in> set (concat (table_layers tabs ?v))" by (auto simp: ll)
    then have "ik_seq (kv_key e) \<le> mem_max_seq m \<or> ik_seq (kv_key e) \<le> v_last_seq ?v"
    proof cases
      case 1
      then show ?thesis using mem_max_seq_ge [OF srt] by blast
    next
      case 2
      then show ?thesis using seqs by blast
    qed
    then show "ik_seq (kv_key e) \<le> l_seq L" by (simp add: L_def le_max_iff_disj) blast
  qed
  ultimately have "read_inv fb ?tabs L" using srt lay lv ll by (simp add: read_inv_def) (simp add: L_def)
  then show ?thesis using op ll by (intro exI [of _ L]) (auto simp: L_def)
qed

end
