(* ===== verification/Lsm_Properties.thy ===== *)
theory Lsm_Properties
  imports Lsm_Refinement
begin

text \<open>
  The states an LSM tree reaches, paired with the map a client has built, and the
  properties of the tree: it refines the map, it recovers it after a crash, and a
  snapshot is not disturbed by later writes.
\<close>

section \<open>Reachable states\<close>

definition empty_disk :: lsm_disk where
  "empty_disk = \<lparr>dk_manifest = \<lparr>md_current = None, md_tmp = None, md_files = (\<lambda>_. None)\<rparr>, dk_sst = None, dk_wal = None\<rparr>"

text \<open>
  \<open>lsm_reach crc fb config cap d L m\<close>: the tree \<open>L\<close> is reached from an empty directory and
  \<open>m\<close> is the map its acknowledged operations build. The flag \<open>d\<close> is lost when the
  memtable rejects a write and regained by the next flush; without it the journal
  holds a record the memtable does not.
\<close>

inductive lsm_reach :: "(bytes \<Rightarrow> u32) \<Rightarrow> fastbloom \<Rightarrow> lsm_config \<Rightarrow> nat \<Rightarrow> bool \<Rightarrow> lsm \<Rightarrow> (bytes \<Rightarrow> bytes option) \<Rightarrow> bool"
  for crc fb config cap where
  fresh: "lsm_open crc config (with_capacity cap) empty_disk = (Inr L, dk) \<Longrightarrow> lsm_reach crc fb config cap True L Map.empty"
| put: "lsm_reach crc fb config cap d L m \<Longrightarrow> l_seq L < - 1 \<Longrightarrow>
    kvj_ok \<lparr>kv_key = \<lparr>user_key = k, ik_seq = l_seq L + 1, ik_op = Put\<rparr>, kv_value = v\<rparr> \<Longrightarrow>
    lsm_put crc k v L = (r, L') \<Longrightarrow>
    lsm_reach crc fb config cap (d \<and> r = Inr ()) L' (if r = Inr () then m(k \<mapsto> v) else m)"
| delete: "lsm_reach crc fb config cap d L m \<Longrightarrow> l_seq L < - 1 \<Longrightarrow>
    kvj_ok \<lparr>kv_key = \<lparr>user_key = k, ik_seq = l_seq L + 1, ik_op = Delete\<rparr>, kv_value = []\<rparr> \<Longrightarrow>
    lsm_delete crc k L = (r, L') \<Longrightarrow>
    lsm_reach crc fb config cap (d \<and> r = Inr ()) L' (if r = Inr () then m(k := None) else m)"
| flush: "lsm_reach crc fb config cap d L m \<Longrightarrow> sst_id (flush_id L) < - 1 \<Longrightarrow>
    length (table_file fb (flush_id L) (flush_config (l_config L)) (mem_entries (l_mem L))) < 2 ^ 32 \<Longrightarrow>
    lsm_flush crc fb L = (r, L') \<Longrightarrow> lsm_reach crc fb config cap (d \<or> mem_entries (l_mem L) \<noteq> []) L' m"
| checkpoint: "lsm_reach crc fb config cap d L m \<Longrightarrow> edit_ok (to_snapshot (lsm_version L)) \<Longrightarrow>
    mm_current (l_manifest L) < - 1 \<Longrightarrow> lsm_checkpoint crc L = (r, L') \<Longrightarrow> lsm_reach crc fb config cap d L' m"
| get: "lsm_reach crc fb config cap d L m \<Longrightarrow> lsm_get fb k L = (r, L') \<Longrightarrow> lsm_reach crc fb config cap d L' m"
| scan: "lsm_reach crc fb config cap d L m \<Longrightarrow> \<not> inverted lo hi \<Longrightarrow> lsm_scan_at lo hi s L = Some (its, L') \<Longrightarrow>
    lsm_reach crc fb config cap d L' m"
| reopen: "lsm_reach crc fb config cap True L m \<Longrightarrow>
    lsm_open crc config (with_capacity cap) (lsm_on_disk L) = (Inr L', dk) \<Longrightarrow> lsm_reach crc fb config cap True L' m"

definition reach_inv :: "(bytes \<Rightarrow> u32) \<Rightarrow> fastbloom \<Rightarrow> lsm_config \<Rightarrow> nat \<Rightarrow> bool \<Rightarrow> lsm \<Rightarrow> (bytes \<Rightarrow> bytes option) \<Rightarrow> bool" where
  "reach_inv crc fb config cap d L m \<longleftrightarrow> l_config L = config \<and> mt_capacity (jm_inner (l_mem L)) = cap \<and>
    (d \<longrightarrow> jm_durable crc (l_mem L)) \<and> (\<exists>tabs. lsm_inv crc fb tabs L \<and> contents tabs L = m)"

lemma fresh_inv:
  assumes "level_numbers config \<noteq> []" "lsm_open crc config (with_capacity cap) empty_disk = (Inr L, dk)"
  shows "reach_inv crc fb config cap True L Map.empty"
proof -
  obtain mm d where mm: "manager_open crc (dk_manifest empty_disk) = (Inr mm, d)" "mm_inv crc mm d" "mm_version mm = empty_version"
    using mm_open_fresh [of "dk_manifest empty_disk" crc] by (auto simp: empty_disk_def)
  let ?m = "\<lparr>jm_inner = with_capacity cap, jm_journal = journal_of crc kvj_encode []\<rparr>"
  have jo: "journaled_open crc (dk_wal empty_disk) (with_capacity cap) = Inr ?m"
    using jm_open_fresh [of crc cap] by (simp add: empty_disk_def)
  have e: "jm_store ?m = []" by (simp add: with_capacity_def)
  have tl: "table_layers tabs (mm_version mm) = []" for tabs by (simp add: table_layers_def mm(3) empty_version_def)
  have "\<exists>L tabs'. lsm_open crc config (with_capacity cap) empty_disk = (Inr L, lsm_on_disk L) \<and> read_inv fb tabs' L \<and>
    tabs' = Map.empty |` set (live_files (mm_version mm)) \<and>
    lsm_layers tabs' L = kvs (jm_store ?m) # table_layers Map.empty (mm_version mm) \<and>
    l_mem L = ?m \<and> l_manifest L = mm \<and> l_dir L = d \<and> l_config L = config \<and> v_last_seq (mm_version mm) \<le> l_seq L"
    by (rule open_recovers [OF mm(1) jo]) (use assms(1) e tl in \<open>auto simp: store_ok_def runs_ok_def mm(3) empty_version_def layers_ok_def versions_unique_def\<close>)
  then have L: "read_inv fb Map.empty L" "lsm_layers Map.empty L = [[]]" "l_mem L = ?m" "l_manifest L = mm" "l_dir L = d" "l_config L = config"
    "v_last_seq (mm_version mm) \<le> l_seq L"
    using assms(2) e tl by auto
  have "contents Map.empty L = Map.empty" using L(2) by (simp add: lsm_view_def resolve_kv_def fun_eq_iff)
  moreover have "lsm_inv crc fb Map.empty L"
    using L mm jm_durable_inv [OF jm_fresh_durable [of crc cap]] tl by (simp add: lsm_inv_def)
  ultimately show ?thesis
    using L jm_fresh_durable [of crc cap] by (auto simp: reach_inv_def with_capacity_def)
qed

text \<open>Opening the disk of a running tree gives its contents back.\<close>

lemma reopen_inv:
  assumes inv: "lsm_inv crc fb tabs L" and dur: "jm_durable crc (l_mem L)"
  shows "\<exists>L' tabs'. lsm_open crc (l_config L) (with_capacity (mt_capacity (jm_inner (l_mem L)))) (lsm_on_disk L) = (Inr L', lsm_on_disk L') \<and>
    lsm_inv crc fb tabs' L' \<and> contents tabs' L' = contents tabs L \<and> l_mem L' = l_mem L \<and> l_config L' = l_config L"
proof -
  note D = read_invD [OF lsm_inv_read [OF inv]]
  have mm: "mm_inv crc (l_manifest L) (l_dir L)" using inv by (simp add: lsm_inv_def)
  have mo: "manager_open crc (dk_manifest (lsm_on_disk L)) = (Inr (l_manifest L), l_dir L)"
    using mm_reopen [OF mm] by (simp add: lsm_on_disk_def)
  have jo: "journaled_open crc (dk_wal (lsm_on_disk L)) (with_capacity (mt_capacity (jm_inner (l_mem L)))) = Inr (l_mem L)"
    using jm_reopen [OF dur] by (simp add: lsm_on_disk_def)
  obtain L' tabs' where L': "lsm_open crc (l_config L) (with_capacity (mt_capacity (jm_inner (l_mem L)))) (lsm_on_disk L) = (Inr L', lsm_on_disk L')"
      "read_inv fb tabs' L'" "tabs' = tabs |` set (live_files (lsm_version L))"
      "lsm_layers tabs' L' = lsm_layers tabs L" "l_mem L' = l_mem L" "l_manifest L' = l_manifest L" "l_dir L' = l_dir L"
      "l_config L' = l_config L" "v_last_seq (lsm_version L) \<le> l_seq L'"
    using open_recovers [OF mo jo, of fb tabs "l_config L"] D inv by (auto simp: lsm_on_disk_def lsm_layers_def lsm_inv_def)
  have "lsm_inv crc fb tabs' L'"
    using inv L' by (auto simp: lsm_inv_def lsm_layers_def restrict_map_def split: if_splits)
  moreover have "contents tabs' L' = contents tabs L"
    by (rule contents_eqI) (use D(2,3) L'(4) read_invD(3) [OF L'(2)] in auto)
  ultimately show ?thesis using L' by blast
qed

lemma write_reach_inv:
  assumes "reach_inv crc fb config cap d L m" "l_seq L < - 1"
    and "kvj_ok \<lparr>kv_key = \<lparr>user_key = k, ik_seq = l_seq L + 1, ik_op = op\<rparr>, kv_value = v\<rparr>"
    and w: "lsm_write crc k v op L = (r, L')"
  shows "reach_inv crc fb config cap (d \<and> r = Inr ()) L' (if r = Inr () then m(k := resolve op v) else m)"
proof -
  obtain tabs where inv: "lsm_inv crc fb tabs L" "contents tabs L = m" "l_config L = config"
      "mt_capacity (jm_inner (l_mem L)) = cap" "d \<longrightarrow> jm_durable crc (l_mem L)"
    using assms(1) by (auto simp: reach_inv_def)
  let ?ik = "\<lparr>user_key = k, ik_seq = l_seq L + 1, ik_op = op\<rparr>"
  obtain q j where p: "jm_put crc ?ik v (l_mem L) = (q, j)" "l_mem L' = j" "r = Inr () \<longleftrightarrow> q = Inr ()"
    using w by (auto simp: lsm_write_def Let_def split: prod.splits sum.splits)
  have cap: "mt_capacity (jm_inner j) = cap"
    using jm_put_journal [OF p(1)] mem_put_capacity inv(4) by metis
  show ?thesis
  proof (cases r)
    case (Inl e)
    then show ?thesis
      using lsm_write_full [OF inv(1) assms(3)] w inv cap p(2) by (auto simp: reach_inv_def)
  next
    case (Inr u)
    then have "q = Inr ()" using p(3) by simp
    then have "d \<longrightarrow> jm_durable crc j" using jm_put_durable [OF _ assms(3)] p(1) inv(5) by blast
    then show ?thesis
      using lsm_write_ok [OF inv(1) assms(2,3)] w Inr inv cap p(2) by (auto simp: reach_inv_def)
  qed
qed

lemma cache_reach_inv:
  assumes "reach_inv crc fb config cap d L m" "no_false_negatives fb"
  shows "lsm_get fb k L = (r, L') \<Longrightarrow> r = Inr (m k) \<and> reach_inv crc fb config cap d L' m"
    and "\<not> inverted lo hi \<Longrightarrow> \<exists>ps L'. lsm_scan lo hi L = Some (map Inr ps, L') \<and> sorted_wrt (<) (map fst ps) \<and>
        map_of ps = (\<lambda>k. if within lo hi k then m k else None)"
    and "\<not> inverted lo hi \<Longrightarrow> lsm_scan_at lo hi s L = Some (its, L') \<Longrightarrow> reach_inv crc fb config cap d L' m"
proof -
  obtain tabs where inv: "lsm_inv crc fb tabs L" "contents tabs L = m" "l_config L = config"
      "mt_capacity (jm_inner (l_mem L)) = cap" "d \<longrightarrow> jm_durable crc (l_mem L)"
    using assms(1) by (auto simp: reach_inv_def)
  have upd: "reach_inv crc fb config cap d (L\<lparr>l_cache := c\<rparr>) m" if "cache_ok fb tabs c" for c
    using cache_update_ok [OF inv(1) that] inv by (auto simp: reach_inv_def)
  note rd = lsm_inv_read [OF inv(1)]
  show "r = Inr (m k) \<and> reach_inv crc fb config cap d L' m" if "lsm_get fb k L = (r, L')"
    using lsm_get_view [OF rd assms(2), of k] that upd inv(2) by auto
  show "\<exists>ps L'. lsm_scan lo hi L = Some (map Inr ps, L') \<and> sorted_wrt (<) (map fst ps) \<and>
        map_of ps = (\<lambda>k. if within lo hi k then m k else None)" if "\<not> inverted lo hi"
    using lsm_scan_view [OF rd that, of "l_seq L"] inv(2) by (auto simp: lsm_scan_def)
  show "reach_inv crc fb config cap d L' m" if "\<not> inverted lo hi" "lsm_scan_at lo hi s L = Some (its, L')"
    using lsm_scan_view [OF rd that(1), of s] that(2) upd by auto
qed

lemma lsm_reach_inv:
  assumes lv: "level_numbers config \<noteq> []" and fb: "no_false_negatives fb"
  shows "lsm_reach crc fb config cap d L m \<Longrightarrow> reach_inv crc fb config cap d L m"
proof (induction rule: lsm_reach.induct)
  case (fresh L dk)
  then show ?case using fresh_inv [OF lv] by blast
next
  case (put d L m k v r L')
  from write_reach_inv [OF put.IH put(2,3) put(4) [unfolded lsm_put_def]] show ?case by (simp only: resolve.simps)
next
  case (delete d L m k r L')
  from write_reach_inv [OF delete.IH delete(2,3) delete(4) [unfolded lsm_delete_def]] show ?case by (simp only: resolve.simps)
next
  case (flush d L m r L')
  obtain tabs where inv: "lsm_inv crc fb tabs L" "contents tabs L = m" "l_config L = config"
      "mt_capacity (jm_inner (l_mem L)) = cap" "d \<longrightarrow> jm_durable crc (l_mem L)"
    using flush.IH by (auto simp: reach_inv_def)
  then show ?case using lsm_flush_ok [OF inv(1) flush(2-4)] by (auto simp: reach_inv_def)
next
  case (checkpoint d L m r L')
  obtain tabs where inv: "lsm_inv crc fb tabs L" "contents tabs L = m" "l_config L = config"
      "mt_capacity (jm_inner (l_mem L)) = cap" "d \<longrightarrow> jm_durable crc (l_mem L)"
    using checkpoint.IH by (auto simp: reach_inv_def)
  then show ?case using lsm_checkpoint_ok [OF inv(1) checkpoint(2-4)] by (auto simp: reach_inv_def)
next
  case (get d L m k r L')
  then show ?case using cache_reach_inv(1) [OF get.IH fb] by blast
next
  case (scan d L m lo hi s its L')
  then show ?case using cache_reach_inv(3) [OF scan.IH fb] by blast
next
  case (reopen L m L' dk)
  obtain tabs where inv: "lsm_inv crc fb tabs L" "contents tabs L = m" "l_config L = config"
      "mt_capacity (jm_inner (l_mem L)) = cap" "jm_durable crc (l_mem L)"
    using reopen.IH by (auto simp: reach_inv_def)
  then show ?case using reopen_inv [OF inv(1,5)] reopen(2) by (auto simp: reach_inv_def)
qed

section \<open>Crashes\<close>

text \<open>What a crash can leave on disk: between two operations, inside the journal append of
  a write, inside each step of a flush, inside a checkpoint.\<close>

inductive lsm_crash :: "(bytes \<Rightarrow> u32) \<Rightarrow> fastbloom \<Rightarrow> lsm \<Rightarrow> lsm_disk \<Rightarrow> bool" for crc fb L where
  idle: "lsm_crash crc fb L (lsm_on_disk L)"
| in_write: "kvj_ok kv \<Longrightarrow> n < length (write_frame crc (kvj_encode kv)) \<Longrightarrow>
    lsm_crash crc fb L ((lsm_on_disk L)\<lparr>dk_wal :=
      Some (j_file (jm_journal (l_mem L)) @ take n (write_frame crc (kvj_encode kv)))\<rparr>)"
| in_flush_file: "lsm_crash crc fb L ((lsm_on_disk L)\<lparr>dk_sst :=
    Some (AList.update (sst_name (flush_id L)) part (case l_sst L of None \<Rightarrow> [] | Some fs \<Rightarrow> fs))\<rparr>)"
| in_flush_commit: "n < length (write_frame crc (edit_encode (flush_edit L))) \<Longrightarrow>
    length (table_file fb (flush_id L) (flush_config (l_config L)) (mem_entries (l_mem L))) < 2 ^ 32 \<Longrightarrow>
    lsm_crash crc fb L ((lsm_on_disk (flush_table fb L))\<lparr>dk_manifest := (l_dir L)\<lparr>md_files :=
      (md_files (l_dir L))(mm_current (l_manifest L) \<mapsto> j_file (mm_journal (l_manifest L)) @
        take n (write_frame crc (edit_encode (flush_edit L))))\<rparr>\<rparr>)"
| before_clear: "sst_id (flush_id L) < - 1 \<Longrightarrow>
    length (table_file fb (flush_id L) (flush_config (l_config L)) (mem_entries (l_mem L))) < 2 ^ 32 \<Longrightarrow>
    lsm_crash crc fb L (lsm_on_disk (flush_commit crc (flush_table fb L)))"
| in_checkpoint: "edit_ok (to_snapshot (lsm_version L)) \<Longrightarrow> mm_current (l_manifest L) < - 1 \<Longrightarrow>
    checkpoint_crash crc (l_manifest L) (l_dir L) d \<Longrightarrow> lsm_crash crc fb L ((lsm_on_disk L)\<lparr>dk_manifest := d\<rparr>)"

lemma crash_open:
  assumes inv: "lsm_inv crc fb tabs L" and mo: "manager_open crc (dk_manifest dk) = (Inr mm, d)" "mm_version mm = lsm_version L"
    and jo: "journaled_open crc (dk_wal dk) mem = Inr j" "jm_inner j = jm_inner (l_mem L)"
    and st: "store_ok fb (dk_sst dk) tabs"
  shows "\<exists>L' tabs'. lsm_open crc (l_config L) mem dk = (Inr L', lsm_on_disk L') \<and> read_inv fb tabs' L' \<and>
    contents tabs' L' = contents tabs L"
proof -
  note D = read_invD [OF lsm_inv_read [OF inv]]
  obtain L' tabs' where L': "lsm_open crc (l_config L) mem dk = (Inr L', lsm_on_disk L')" "read_inv fb tabs' L'"
      "lsm_layers tabs' L' = lsm_layers tabs L"
    using open_recovers [OF mo(1) jo(1) st, of "l_config L"] D inv mo(2) jo(2) by (auto simp: lsm_layers_def lsm_inv_def)
  then have "contents tabs' L' = contents tabs L"
    by (intro contents_eqI) (use D(2,3) L'(3) read_invD(3) [OF L'(2)] in auto)
  then show ?thesis using L' by blast
qed

lemma crash_recovers:
  assumes inv: "lsm_inv crc fb tabs L" and dur: "jm_durable crc (l_mem L)" and c: "lsm_crash crc fb L dk"
  shows "\<exists>L' tabs'. lsm_open crc (l_config L) (with_capacity (mt_capacity (jm_inner (l_mem L)))) dk = (Inr L', lsm_on_disk L') \<and>
    read_inv fb tabs' L' \<and> contents tabs' L' = contents tabs L"
  using c
proof cases
  note D = read_invD [OF lsm_inv_read [OF inv]]
  note ent = mem_entries_eq [OF D(7)]
  have mm: "mm_inv crc (l_manifest L) (l_dir L)" using inv by (simp add: lsm_inv_def)
  note mo = mm_reopen [OF mm]
  note jo = jm_reopen [OF dur]
  {
    case idle
    then show ?thesis
      by (intro crash_open [OF inv]) (use mo jo D(5) in \<open>auto simp: lsm_on_disk_def\<close>)
  next
    case (in_write kv n)
    obtain j where "journaled_open crc (dk_wal dk) (with_capacity (mt_capacity (jm_inner (l_mem L)))) = Inr j"
        "jm_inner j = jm_inner (l_mem L)"
      using jm_reopen_torn [OF dur in_write(2,3)] in_write(1) by auto
    then show ?thesis
      by (intro crash_open [OF inv, where j = j and mm = "l_manifest L" and d = "l_dir L"])
        (use mo D(5) in_write in \<open>auto simp: lsm_on_disk_def\<close>)
  next
    case (in_flush_file part)
    have "i \<in> dom tabs \<Longrightarrow> sst_file (dk_sst dk) i = sst_file (l_sst L) i" for i
      using flush_id_fresh [OF inv] in_flush_file by (auto simp: sst_file_def update_conv' split: option.splits)
    then have "store_ok fb (dk_sst dk) tabs" using D(5) by (auto simp: store_ok_def dom_def)
    then show ?thesis
      by (intro crash_open [OF inv]) (use mo jo in_flush_file in \<open>auto simp: lsm_on_disk_def\<close>)
  next
    case (in_flush_commit n)
    obtain mm' d' where "manager_open crc (dk_manifest dk) = (Inr mm', d')" "mm_version mm' = lsm_version L"
      using mm_open_torn [OF mm flush_edit_ok in_flush_commit(2)] in_flush_commit(1) by auto
    moreover have "store_ok fb (l_sst (flush_table fb L)) (flushed_tables tabs L)"
      using read_invD(5) flush_table_inv [OF inv] in_flush_commit(3) ent by simp
    then have "store_ok fb (dk_sst dk) tabs"
      using in_flush_commit(1) flushed_tables_old [OF inv] by (auto simp: store_ok_def lsm_on_disk_def dom_def)
    ultimately show ?thesis
      by (intro crash_open [OF inv, where j = "l_mem L" and mm = mm' and d = d']) (use jo in_flush_commit(1) in \<open>auto simp: lsm_on_disk_def flush_table_def\<close>)
  next
    case before_clear
    let ?L = "flush_commit crc (flush_table fb L)" and ?tabs = "flushed_tables tabs L"
    have c: "lsm_inv crc fb ?tabs ?L" "lsm_layers ?tabs ?L = mem_records L # mem_records L # table_layers tabs (lsm_version L)"
        "l_mem ?L = l_mem L" "l_seq ?L = l_seq L" "l_config ?L = l_config L"
      using flush_commit_inv [OF inv before_clear(2)] before_clear(3) ent by simp_all
    have "contents ?tabs ?L = contents tabs L"
      by (rule contents_eqI) (use D c in \<open>auto simp: lsm_layers_def\<close>)
    then show ?thesis
      using reopen_inv [OF c(1)] dur c(3,5) before_clear(1) lsm_inv_read by metis
  next
    case (in_checkpoint d)
    obtain mm' where "manager_open crc d = (Inr mm', d)" "mm_version mm' = lsm_version L"
      using checkpoint_crash_open [OF mm in_checkpoint(2-4)] by blast
    then show ?thesis
      by (intro crash_open [OF inv, where j = "l_mem L" and mm = mm' and d = d]) (use jo D(5) in_checkpoint(1) in \<open>auto simp: lsm_on_disk_def\<close>)
  }
qed

section \<open>A sample tree\<close>

text \<open>One level with small blocks; a put, a flush and another put.\<close>

definition sample_config :: lsm_config where
  "sample_config = \<lparr>lsm_levels = [\<lparr>max_runs = 4, lc_run = \<lparr>max_size_bytes = 100\<rparr>, lc_table = sample_cfg\<rparr>],
    lsm_page_cache = \<lparr>pc_size = Pages 1\<rparr>\<rparr>"

abbreviation sample_open :: "(lsm_error + lsm) \<times> lsm_disk" where
  "sample_open \<equiv> lsm_open (\<lambda>_. 7) sample_config (with_capacity 50) empty_disk"

definition sample0 :: lsm where "sample0 = projr (fst sample_open)"
definition sample1 :: lsm where "sample1 = snd (lsm_put (\<lambda>_. 7) [1] [7] sample0)"
definition sample2 :: lsm where "sample2 = snd (lsm_flush (\<lambda>_. 7) sample_bloom sample1)"
definition sample3 :: lsm where "sample3 = snd (lsm_put (\<lambda>_. 7) [2] [8] sample2)"

lemma sample_levels: "level_numbers sample_config \<noteq> []"
  by (simp add: level_numbers_def num_levels_def sample_config_def)

lemma sample_small:
  "length (table_file sample_bloom (flush_id sample1) (flush_config (l_config sample1)) (mem_entries (l_mem sample1))) < 2 ^ 32"
  "length (table_file sample_bloom (flush_id sample3) (flush_config (l_config sample3)) (mem_entries (l_mem sample3))) < 2 ^ 32"
proof -
  have "length (table_file sample_bloom (flush_id sample1) (flush_config (l_config sample1)) (mem_entries (l_mem sample1))) < 1000"
    by code_simp
  then show "length (table_file sample_bloom (flush_id sample1) (flush_config (l_config sample1)) (mem_entries (l_mem sample1))) < 2 ^ 32"
    by simp
  have "length (table_file sample_bloom (flush_id sample3) (flush_config (l_config sample3)) (mem_entries (l_mem sample3))) < 1000"
    by code_simp
  then show "length (table_file sample_bloom (flush_id sample3) (flush_config (l_config sample3)) (mem_entries (l_mem sample3))) < 2 ^ 32"
    by simp
qed

lemma lsm_sample_reach:
  "lsm_reach (\<lambda>_. 7) sample_bloom sample_config 50 True sample0 Map.empty"
  "lsm_reach (\<lambda>_. 7) sample_bloom sample_config 50 True sample1 [[1] \<mapsto> [7]]"
  "lsm_reach (\<lambda>_. 7) sample_bloom sample_config 50 True sample2 [[1] \<mapsto> [7]]"
  "lsm_reach (\<lambda>_. 7) sample_bloom sample_config 50 True sample3 [[1] \<mapsto> [7], [2] \<mapsto> [8]]"
proof -
  let ?R = "lsm_reach (\<lambda>_. 7) sample_bloom sample_config 50"
  have "\<not> isl (fst sample_open)" by code_simp
  then have "sample_open = (Inr sample0, snd sample_open)"
    by (cases sample_open, cases "fst sample_open") (auto simp: sample0_def)
  then show r0: "?R True sample0 Map.empty" by (rule lsm_reach.fresh)
  have s0: "l_seq sample0 = 0" "fst (lsm_put (\<lambda>_. 7) [1] [7] sample0) = Inr ()" "l_seq sample0 < - 1" by code_simp+
  have "?R (True \<and> fst (lsm_put (\<lambda>_. 7) [1] [7] sample0) = Inr ()) sample1
      (if fst (lsm_put (\<lambda>_. 7) [1] [7] sample0) = Inr () then [[1] \<mapsto> [7]] else Map.empty)"
    by (rule lsm_reach.put [OF r0 s0(3), where k = "[1]" and v = "[7]"])
      (simp_all add: s0(1) kvj_ok_def kv_ok_def entry_size_def sample1_def)
  then show r1: "?R True sample1 [[1] \<mapsto> [7]]" by (simp add: s0(2))
  have s1: "sst_id (flush_id sample1) < - 1" by code_simp
  have "?R (True \<or> mem_entries (l_mem sample1) \<noteq> []) sample2 [[1] \<mapsto> [7]]"
    by (rule lsm_reach.flush [OF r1 s1 sample_small(1)]) (simp add: sample2_def prod_eq_iff)
  then show r2: "?R True sample2 [[1] \<mapsto> [7]]" by simp
  have s2: "l_seq sample2 = 1" "fst (lsm_put (\<lambda>_. 7) [2] [8] sample2) = Inr ()" "l_seq sample2 < - 1" by code_simp+
  have "?R (True \<and> fst (lsm_put (\<lambda>_. 7) [2] [8] sample2) = Inr ()) sample3
      (if fst (lsm_put (\<lambda>_. 7) [2] [8] sample2) = Inr () then [[1] \<mapsto> [7], [2] \<mapsto> [8]] else [[1] \<mapsto> [7]])"
    by (rule lsm_reach.put [OF r2 s2(3), where k = "[2]" and v = "[8]"])
      (simp_all add: s2(1) kvj_ok_def kv_ok_def entry_size_def sample3_def)
  then show "?R True sample3 [[1] \<mapsto> [7], [2] \<mapsto> [8]]" by (simp add: s2(2))
qed

section \<open>Properties\<close>

text \<open>C1. The LSM tree refines a map. In every state reached from an empty directory by puts,
  deletes (accepted or rejected), flushes, checkpoints, lookups, scans and reopenings,
  with at least one level, a filter without false negatives and sizes within 32 bits,
  a lookup returns the value the acknowledged operations gave the key, and a scan
  returns exactly the pairs of the map within its bounds, each key once and in order,
  without an error.\<close>

theorem lsm_refines_map:
  assumes "lsm_reach crc fb config cap d L m" and "level_numbers config \<noteq> []" and "no_false_negatives fb"
  shows "fst (lsm_get fb k L) = Inr (m k) \<and>
    (\<not> inverted lo hi \<longrightarrow> (\<exists>ps L'. lsm_scan lo hi L = Some (map Inr ps, L') \<and> sorted_wrt (<) (map fst ps) \<and>
      map_of ps = (\<lambda>k. if within lo hi k then m k else None)))"
proof -
  note inv = lsm_reach_inv [OF assms(2,3,1)]
  obtain r L1 where "lsm_get fb k L = (r, L1)" by fastforce
  then show ?thesis using cache_reach_inv(1) [OF inv assms(3)] cache_reach_inv(2) [OF inv assms(3)] by simp
qed

theorem lsm_refines_map_witness:
  "fst (lsm_get sample_bloom [1] sample3) = Inr (([[1] \<mapsto> [7], [2] \<mapsto> [8]]) ([1] :: bytes)) \<and>
    (\<exists>ps L'. lsm_scan (Included [1] :: bytes bound) Unbounded sample3 = Some (map Inr ps, L') \<and>
      sorted_wrt (<) (map fst ps) \<and>
      map_of ps = (\<lambda>k. if within (Included [1]) Unbounded k then ([[1] \<mapsto> [7], [2] \<mapsto> [8]]) k else None))"
proof -
  have "\<not> inverted (Included [1] :: bytes bound) Unbounded" by code_simp
  then show ?thesis
    using lsm_refines_map [OF lsm_sample_reach(4) sample_levels sample_bloom_ok, of "[1]" "Included [1]" Unbounded]
    by (simp only: not_False_eq_True simp_thms)
qed



text \<open>C10. Snapshots. A scan at a sequence number already issued is not affected by a later
  write: it returns the same pairs before and after it.\<close>

theorem lsm_snapshot_stable:
  assumes "lsm_reach crc fb config cap d L m" and "level_numbers config \<noteq> []" and "no_false_negatives fb"
    and "l_seq L < - 1" and "kvj_ok \<lparr>kv_key = \<lparr>user_key = k, ik_seq = l_seq L + 1, ik_op = op\<rparr>, kv_value = v\<rparr>"
    and "lsm_write crc k v op L = (Inr u, L')" and "s \<le> l_seq L" and "\<not> inverted lo hi"
  shows "map_option fst (lsm_scan_at lo hi s L') = map_option fst (lsm_scan_at lo hi s L) \<and> lsm_scan_at lo hi s L \<noteq> None"
proof -
  obtain tabs where inv: "lsm_inv crc fb tabs L" using lsm_reach_inv [OF assms(2,3,1)] by (auto simp: reach_inv_def)
  have w: "lsm_inv crc fb tabs L'" "lsm_view tabs L' s = lsm_view tabs L s"
    using lsm_write_ok [OF inv assms(4-6)] assms(7) by simp_all
  obtain ps c where ps: "lsm_scan_at lo hi s L = Some (map Inr ps, L\<lparr>l_cache := c\<rparr>)" "sorted_wrt (<) (map fst ps)"
      "map_of ps = (\<lambda>k. if within lo hi k then lsm_view tabs L s k else None)"
    using lsm_scan_view [OF lsm_inv_read [OF inv] assms(8)] by blast
  obtain ps' c' where ps': "lsm_scan_at lo hi s L' = Some (map Inr ps', L'\<lparr>l_cache := c'\<rparr>)" "sorted_wrt (<) (map fst ps')"
      "map_of ps' = (\<lambda>k. if within lo hi k then lsm_view tabs L' s k else None)"
    using lsm_scan_view [OF lsm_inv_read [OF w(1)] assms(8)] by blast
  have "map_of ps' = map_of ps" by (simp only: ps(3) ps'(3) w(2))
  then have "ps' = ps" by (rule strict_assoc_unique [OF ps'(2) ps(2)])
  then show ?thesis using ps ps' by simp
qed

theorem lsm_snapshot_stable_witness:
  "map_option fst (lsm_scan_at Unbounded Unbounded 1 sample3) = map_option fst (lsm_scan_at Unbounded Unbounded 1 sample2) \<and>
    lsm_scan_at Unbounded Unbounded 1 sample2 \<noteq> None"
proof (rule lsm_snapshot_stable [OF lsm_sample_reach(3) sample_levels sample_bloom_ok, where k = "[2]" and v = "[8]" and op = Put and u = "()"])
  have s2: "l_seq sample2 = 1" "fst (lsm_write (\<lambda>_. 7) [2] [8] Put sample2) = Inr ()" by code_simp+
  show "l_seq sample2 < - 1" by code_simp
  show "1 \<le> l_seq sample2" by (simp add: s2)
  show "kvj_ok \<lparr>kv_key = \<lparr>user_key = [2], ik_seq = l_seq sample2 + 1, ik_op = Put\<rparr>, kv_value = [8]\<rparr>"
    by (simp add: s2 kvj_ok_def kv_ok_def entry_size_def)
  show "lsm_write (\<lambda>_. 7) [2] [8] Put sample2 = (Inr (), sample3)"
    using s2(2) by (simp add: sample3_def lsm_put_def prod_eq_iff)
qed simp

end
