(* ===== verification/Pages.thy ===== *)
theory Pages
  imports Journal
begin

text \<open>
  Typed pages of \<^verbatim>\<open>src/crates/filesystem/src\<close>: the errors of the page system
  (\<^verbatim>\<open>error.rs\<close>), the page header and its checksum (\<^verbatim>\<open>page/header.rs\<close>), the page types
  (\<^verbatim>\<open>page/types.rs\<close>) and the address of a tuple (\<^verbatim>\<open>tuple/loc.rs\<close>). A page is a byte list.
  Slicing outside of it panics in Rust, which is the error \<open>FsPanic\<close> here. The checksum
  functions \<open>crc32c\<close> and \<open>crc32c_append\<close> of the third-party crate are the two fields of the
  parameter \<open>crc\<close>; nothing is assumed of them.
\<close>

section \<open>Definitions\<close>

subsection \<open>Errors\<close>

datatype page_msg = WriteTooShort nat | UnknownTag "u8 option"

datatype fs_error =
    FsIo
  | FsChecksum u64
  | FsBadMagic
  | BadHeaderVersion u8
  | BadPageType u16 u16
  | PoolExhausted nat
  | Busy u64
  | TupleTooLarge nat nat
  | FsUtf8
  | FsJournal "page_msg journal_error"
  | FreeListOverflow nat nat
  | Exhausted
  | WorkspaceFull nat nat nat
  | FsPanic

definition is_exhausted :: "fs_error \<Rightarrow> bool" where
  "is_exhausted e \<longleftrightarrow> (case e of PoolExhausted _ \<Rightarrow> True | Exhausted \<Rightarrow> True | WorkspaceFull _ _ _ \<Rightarrow> True | _ \<Rightarrow> False)"

subsection \<open>Byte ranges\<close>

text \<open>\<open>rd buf off n\<close> is the range \<open>buf[off..off + n]\<close>, \<open>splice buf off d\<close> is \<open>buf\<close> with the range
  from \<open>off\<close> overwritten by \<open>d\<close>; \<open>slice_at\<close> and \<open>copy_at\<close> are the checked forms of the language.\<close>

definition rd :: "bytes \<Rightarrow> nat \<Rightarrow> nat \<Rightarrow> bytes" where
  "rd buf off n = take n (drop off buf)"

definition splice :: "bytes \<Rightarrow> nat \<Rightarrow> bytes \<Rightarrow> bytes" where
  "splice buf off d = take off buf @ d @ drop (off + length d) buf"

definition slice_at :: "bytes \<Rightarrow> nat \<Rightarrow> nat \<Rightarrow> fs_error + bytes" where
  "slice_at buf off n = (if off + n \<le> length buf then Inr (rd buf off n) else Inl FsPanic)"

definition copy_at :: "nat \<Rightarrow> bytes \<Rightarrow> bytes \<Rightarrow> fs_error + bytes" where
  "copy_at off d buf = (if off + length d \<le> length buf then Inr (splice buf off d) else Inl FsPanic)"

definition pg_get_u16 :: "bytes \<Rightarrow> nat \<Rightarrow> fs_error + u16" where
  "pg_get_u16 buf off = res_bind (slice_at buf off 2) (\<lambda>s. Inr (from_be s))"

definition pg_put_u16 :: "nat \<Rightarrow> u16 \<Rightarrow> bytes \<Rightarrow> fs_error + bytes" where
  "pg_put_u16 off v buf = copy_at off (to_be 2 v) buf"

definition pg_get_u64 :: "bytes \<Rightarrow> nat \<Rightarrow> fs_error + u64" where
  "pg_get_u64 buf off = res_bind (slice_at buf off 8) (\<lambda>s. Inr (from_be s))"

definition pg_put_u64 :: "nat \<Rightarrow> u64 \<Rightarrow> bytes \<Rightarrow> fs_error + bytes" where
  "pg_put_u64 off v buf = copy_at off (to_be 8 v) buf"

subsection \<open>The page header\<close>

definition BLOCK_SIZE :: nat where "BLOCK_SIZE = 8 * 1024"
definition PAGE_SIZE :: nat where "PAGE_SIZE = BLOCK_SIZE"
definition PAGE_MAGIC :: bytes where "PAGE_MAGIC = [0x53, 0x54, 0x44, 0x42]"
definition HEADER_VERSION :: u8 where "HEADER_VERSION = 1"
definition HEADER_LEN :: nat where "HEADER_LEN = 21"
definition OFF_CHECKSUM :: nat where "OFF_CHECKSUM = 17"
definition PAYLOAD_CAPACITY :: nat where "PAYLOAD_CAPACITY = PAGE_SIZE - HEADER_LEN"
definition TUPLE_PAGE :: u16 where "TUPLE_PAGE = 1"
definition DELTA_PAGE :: u16 where "DELTA_PAGE = 2"
definition TEXT_PAGE :: u16 where "TEXT_PAGE = 3"

record page_header =
  page_type :: u16
  format_version :: u16
  page_lsn :: u64

definition page_header_new :: "u16 \<Rightarrow> u16 \<Rightarrow> page_header" where
  "page_header_new t f = \<lparr>page_type = t, format_version = f, page_lsn = 0\<rparr>"

definition page_header_write :: "page_header \<Rightarrow> bytes \<Rightarrow> fs_error + bytes" where
  "page_header_write h page =
    res_bind (copy_at 0 PAGE_MAGIC page) (\<lambda>page.
    res_bind (copy_at 4 [HEADER_VERSION] page) (\<lambda>page.
    res_bind (copy_at 5 (to_be 2 (page_type h)) page) (\<lambda>page.
    res_bind (copy_at 7 (to_be 2 (format_version h)) page) (\<lambda>page.
    copy_at 9 (to_be 8 (page_lsn h)) page))))"

definition page_header_parse :: "bytes \<Rightarrow> fs_error + page_header" where
  "page_header_parse page =
    (if length page < HEADER_LEN \<or> rd page 0 4 \<noteq> PAGE_MAGIC then Inl FsBadMagic
     else if page ! 4 \<noteq> HEADER_VERSION then Inl (BadHeaderVersion (page ! 4))
     else Inr \<lparr>page_type = from_be (rd page 5 2), format_version = from_be (rd page 7 2),
               page_lsn = from_be (rd page 9 8)\<rparr>)"

record crc_ops =
  crc32c :: "bytes \<Rightarrow> u32"
  crc32c_append :: "u32 \<Rightarrow> bytes \<Rightarrow> u32"

definition checksum :: "crc_ops \<Rightarrow> bytes \<Rightarrow> u32" where
  "checksum crc page = crc32c_append crc (crc32c crc (take OFF_CHECKSUM page)) (drop (OFF_CHECKSUM + 4) page)"

definition finalize_checksum :: "crc_ops \<Rightarrow> bytes \<Rightarrow> fs_error + bytes" where
  "finalize_checksum crc page =
    (if length page < OFF_CHECKSUM + 4 then Inl FsPanic
     else copy_at OFF_CHECKSUM (to_be 4 (checksum crc page)) page)"

definition verify_checksum :: "crc_ops \<Rightarrow> bytes \<Rightarrow> u64 \<Rightarrow> fs_error + unit" where
  "verify_checksum crc page i =
    res_bind (slice_at page OFF_CHECKSUM 4) (\<lambda>stored.
      if checksum crc page \<noteq> from_be stored then Inl (FsChecksum i) else Inr ())"

subsection \<open>Tuple locations\<close>

record tuple_loc =
  page_id :: u64
  slot_id :: u16

definition TUPLE_LOC_LEN :: nat where "TUPLE_LOC_LEN = 10"

definition tuple_loc_encode :: "tuple_loc \<Rightarrow> bytes" where
  "tuple_loc_encode l = to_be 8 (page_id l) @ to_be 2 (slot_id l)"

definition tuple_loc_decode :: "bytes \<Rightarrow> tuple_loc option" where
  "tuple_loc_decode bs =
    (if length bs \<noteq> TUPLE_LOC_LEN then None
     else Some \<lparr>page_id = from_be (take 8 bs), slot_id = from_be (take 2 (drop 8 bs))\<rparr>)"

section \<open>Ranges that are written and read\<close>

lemma length_rd: "off + n \<le> length buf \<Longrightarrow> length (rd buf off n) = n"
  by (simp add: rd_def)

lemma length_splice [simp]: "off + length d \<le> length buf \<Longrightarrow> length (splice buf off d) = length buf"
  by (simp add: splice_def)

lemma rd_splice_same: "off + length d \<le> length buf \<Longrightarrow> n = length d \<Longrightarrow> rd (splice buf off d) off n = d"
  by (simp add: rd_def splice_def)

lemma rd_splice_inside:
  assumes "off + length d \<le> length buf" "off \<le> off'" "off' + n \<le> off + length d"
  shows "rd (splice buf off d) off' n = rd d (off' - off) n"
  using assms by (simp add: rd_def splice_def)

lemma rd_splice_before: "off' + n \<le> off \<Longrightarrow> off \<le> length buf \<Longrightarrow> rd (splice buf off d) off' n = rd buf off' n"
proof -
  assume a: "off' + n \<le> off" "off \<le> length buf"
  have "take n (drop off' (xs @ ys)) = take n (drop off' xs)" if "off' + n \<le> length xs" for xs ys :: bytes
    using that by simp
  then have "rd (splice buf off d) off' n = take n (drop off' (take off buf))"
    using a by (simp only: rd_def splice_def length_take min_absorb2)
  also have "\<dots> = rd buf off' n" using a by (simp add: rd_def drop_take min_def)
  finally show ?thesis .
qed

lemma rd_splice_after: "off + length d \<le> off' \<Longrightarrow> off + length d \<le> length buf \<Longrightarrow>
    rd (splice buf off d) off' n = rd buf off' n"
  by (simp add: rd_def splice_def min_def)

lemma rd_splice_other:
  "off + length d \<le> length buf \<Longrightarrow> off' + n \<le> off \<or> off + length d \<le> off' \<Longrightarrow>
    rd (splice buf off d) off' n = rd buf off' n"
  using rd_splice_before rd_splice_after by fastforce

lemma slice_at_ok: "off + n \<le> length buf \<Longrightarrow> slice_at buf off n = Inr (rd buf off n)"
  by (simp add: slice_at_def)

lemma copy_at_ok: "off + length d \<le> length buf \<Longrightarrow> copy_at off d buf = Inr (splice buf off d)"
  by (simp add: copy_at_def)

text \<open>The 16-bit field at an offset.\<close>

definition u16_at :: "bytes \<Rightarrow> nat \<Rightarrow> u16" where
  "u16_at buf off = from_be (rd buf off 2)"

definition u64_at :: "bytes \<Rightarrow> nat \<Rightarrow> u64" where
  "u64_at buf off = from_be (rd buf off 8)"

lemma pg_get_u16_ok: "off + 2 \<le> length buf \<Longrightarrow> pg_get_u16 buf off = Inr (u16_at buf off)"
  by (simp add: pg_get_u16_def u16_at_def slice_at_def)

lemma pg_get_u64_ok: "off + 8 \<le> length buf \<Longrightarrow> pg_get_u64 buf off = Inr (u64_at buf off)"
  by (simp add: pg_get_u64_def u64_at_def slice_at_def)

lemma pg_put_u16_ok: "off + 2 \<le> length buf \<Longrightarrow> pg_put_u16 off v buf = Inr (splice buf off (to_be 2 v))"
  by (simp add: pg_put_u16_def copy_at_def)

lemma pg_put_u64_ok: "off + 8 \<le> length buf \<Longrightarrow> pg_put_u64 off v buf = Inr (splice buf off (to_be 8 v))"
  by (simp add: pg_put_u64_def copy_at_def)

lemma u16_at_splice:
  "off + 2 \<le> length buf \<Longrightarrow> u16_at (splice buf off (to_be 2 v)) off = v"
  by (simp add: u16_at_def rd_splice_same)

lemma u64_at_splice:
  "off + 8 \<le> length buf \<Longrightarrow> u64_at (splice buf off (to_be 8 v)) off = v"
  by (simp add: u64_at_def rd_splice_same)

lemma u16_at_splice_other:
  "off + length d \<le> length buf \<Longrightarrow> off' + 2 \<le> off \<or> off + length d \<le> off' \<Longrightarrow>
    u16_at (splice buf off d) off' = u16_at buf off'"
  by (simp only: u16_at_def rd_splice_other)

lemma u64_at_splice_other:
  "off + length d \<le> length buf \<Longrightarrow> off' + 8 \<le> off \<or> off + length d \<le> off' \<Longrightarrow>
    u64_at (splice buf off d) off' = u64_at buf off'"
  by (simp only: u64_at_def rd_splice_other)

lemmas splice_simps = u16_at_splice u64_at_splice u16_at_splice_other u64_at_splice_other
  pg_get_u16_ok pg_get_u64_ok pg_put_u16_ok pg_put_u64_ok copy_at_ok slice_at_ok

section \<open>The header\<close>

text \<open>\<open>header_of\<close> collects what the parser looks at; the page after it is free.\<close>

definition has_header :: "bytes \<Rightarrow> page_header \<Rightarrow> bool" where
  "has_header page h \<longleftrightarrow> HEADER_LEN \<le> length page \<and> rd page 0 4 = PAGE_MAGIC \<and> rd page 4 1 = [HEADER_VERSION] \<and>
    u16_at page 5 = page_type h \<and> u16_at page 7 = format_version h \<and> u64_at page 9 = page_lsn h"

lemma rd_one: "off < length buf \<Longrightarrow> rd buf off (Suc 0) = [buf ! off]"
  by (simp add: rd_def take_Suc hd_drop_conv_nth)

lemma header_parse_iff: "page_header_parse page = Inr h \<longleftrightarrow> has_header page h"
  by (cases h) (auto simp: page_header_parse_def has_header_def u16_at_def u64_at_def HEADER_LEN_def rd_one not_less)

lemma has_header_splice:
  "has_header page h \<Longrightarrow> off + length d \<le> length page \<Longrightarrow> OFF_CHECKSUM \<le> off \<Longrightarrow> has_header (splice page off d) h"
  by (simp add: has_header_def splice_simps rd_splice_other OFF_CHECKSUM_def HEADER_LEN_def)

lemma header_write:
  assumes "HEADER_LEN \<le> length page"
  obtains page' where "page_header_write h page = Inr page'" "length page' = length page" "has_header page' h"
    "\<And>off n. OFF_CHECKSUM \<le> off \<Longrightarrow> rd page' off n = rd page off n"
proof -
  have [simp]: "length PAGE_MAGIC = 4" by (simp add: PAGE_MAGIC_def)
  define p1 where "p1 = splice page 0 PAGE_MAGIC"
  define p2 where "p2 = splice p1 4 [HEADER_VERSION]"
  define p3 where "p3 = splice p2 5 (to_be 2 (page_type h))"
  define p4 where "p4 = splice p3 7 (to_be 2 (format_version h))"
  define p5 where "p5 = splice p4 9 (to_be 8 (page_lsn h))"
  have len: "21 \<le> length page" using assms by (simp add: HEADER_LEN_def)
  have l1: "length p1 = length page" using len by (simp add: p1_def)
  have l2: "length p2 = length page" using len l1 by (simp add: p2_def)
  have l3: "length p3 = length page" using len l2 by (simp add: p3_def)
  have l4: "length p4 = length page" using len l3 by (simp add: p4_def)
  have l5: "length p5 = length page" using len l4 by (simp add: p5_def)
  have w: "page_header_write h page = Inr p5"
    using len l1 l2 l3 l4 by (simp add: page_header_write_def copy_at_ok p1_def p2_def p3_def p4_def p5_def)
  note r = rd_splice_other [of 9 "to_be 8 (page_lsn h)" p4, folded p5_def]
    rd_splice_other [of 7 "to_be 2 (format_version h)" p3, folded p4_def]
    rd_splice_other [of 5 "to_be 2 (page_type h)" p2, folded p3_def]
    rd_splice_other [of 4 "[HEADER_VERSION]" p1, folded p2_def]
    rd_splice_other [of 0 PAGE_MAGIC page, folded p1_def]
  have "rd p5 0 4 = PAGE_MAGIC"
    using len l1 l2 l3 l4 by (simp add: r) (simp add: p1_def rd_splice_same)
  moreover have "rd p5 4 1 = [HEADER_VERSION]"
    using len l1 l2 l3 l4 by (simp add: r) (simp add: p2_def rd_splice_same)
  moreover have "u16_at p5 5 = page_type h"
    using len l1 l2 l3 l4 by (simp add: u16_at_def r) (simp add: p3_def rd_splice_same)
  moreover have "u16_at p5 7 = format_version h"
    using len l1 l2 l3 l4 by (simp add: u16_at_def r) (simp add: p4_def rd_splice_same)
  moreover have "u64_at p5 9 = page_lsn h"
    using len l4 by (simp add: u64_at_def p5_def rd_splice_same)
  ultimately have "has_header p5 h" using assms l5 by (simp add: has_header_def)
  moreover have "rd p5 off n = rd page off n" if "OFF_CHECKSUM \<le> off" for off n
    using that len l1 l2 l3 l4 by (simp add: r OFF_CHECKSUM_def)
  ultimately show thesis using that w l5 by blast
qed

section \<open>The checksum\<close>

text \<open>Two pages that agree outside of the checksum field.\<close>

definition same_page :: "bytes \<Rightarrow> bytes \<Rightarrow> bool" where
  "same_page p q \<longleftrightarrow> length p = length q \<and> take OFF_CHECKSUM p = take OFF_CHECKSUM q \<and>
    drop (OFF_CHECKSUM + 4) p = drop (OFF_CHECKSUM + 4) q"

lemma same_page_refl [simp]: "same_page p p"
  by (simp add: same_page_def)

lemma same_page_sym: "same_page p q \<Longrightarrow> same_page q p"
  by (simp add: same_page_def)

lemma same_page_trans: "same_page p q \<Longrightarrow> same_page q r \<Longrightarrow> same_page p r"
  by (simp add: same_page_def)

lemma same_page_rd_after:
  assumes "same_page p q" "HEADER_LEN \<le> off"
  shows "rd p off n = rd q off n"
proof -
  have d: "drop off x = drop (off - 21) (drop 21 x)" for x :: bytes
    using assms(2) by (simp add: HEADER_LEN_def)
  have "drop 21 p = drop 21 q" using assms(1) by (simp add: same_page_def OFF_CHECKSUM_def)
  then show ?thesis by (simp only: rd_def d)
qed

lemma same_page_rd_before:
  assumes "same_page p q" "off + n \<le> OFF_CHECKSUM"
  shows "rd p off n = rd q off n"
proof -
  have r: "rd x off n = drop off (take (off + n) (take 17 x))" for x
    using assms(2) by (simp add: rd_def take_drop OFF_CHECKSUM_def min_def add.commute)
  have "take 17 p = take 17 q" using assms(1) by (simp add: same_page_def OFF_CHECKSUM_def)
  then show ?thesis by (simp only: r)
qed

lemma same_page_header: "same_page p q \<Longrightarrow> has_header p h = has_header q h"
  unfolding has_header_def u16_at_def u64_at_def
  by (simp add: same_page_rd_before [of p q] OFF_CHECKSUM_def) (simp add: same_page_def)

lemma same_page_checksum: "same_page p q \<Longrightarrow> checksum crc p = checksum crc q"
  by (simp add: same_page_def checksum_def)

lemma finalize_ok:
  assumes "HEADER_LEN \<le> length page"
  obtains page' where "finalize_checksum crc page = Inr page'" "same_page page' page"
    "verify_checksum crc page' i = Inr ()"
proof -
  let ?p = "splice page OFF_CHECKSUM (to_be 4 (checksum crc page))"
  have len: "21 \<le> length page" using assms by (simp add: HEADER_LEN_def)
  have f: "finalize_checksum crc page = Inr ?p"
    using len by (simp add: finalize_checksum_def copy_at_ok OFF_CHECKSUM_def)
  have s: "same_page ?p page"
    using len by (simp add: same_page_def splice_def OFF_CHECKSUM_def min_def)
  have "verify_checksum crc ?p i = Inr ()"
    using len same_page_checksum [OF s, of crc]
    by (simp add: verify_checksum_def slice_at_ok OFF_CHECKSUM_def rd_splice_same)
  then show thesis using that f s by blast
qed

text \<open>Verification depends on the bytes alone, and two pages that pass it with the same
  bytes outside of the field are equal.\<close>

lemma verify_unique:
  assumes "verify_checksum crc p i = Inr ()" "verify_checksum crc q i = Inr ()" "same_page p q"
    "HEADER_LEN \<le> length p"
  shows "p = q"
proof -
  have len: "21 \<le> length p" "length q = length p" using assms(3,4) by (simp_all add: HEADER_LEN_def same_page_def)
  have "(from_be (rd p 17 4) :: u32) = from_be (rd q 17 4)"
    using assms(1,2) len same_page_checksum [OF assms(3), of crc]
    by (auto simp: verify_checksum_def slice_at_ok OFF_CHECKSUM_def split: if_splits)
  then have "to_be 4 (from_be (rd p 17 4) :: u32) = to_be 4 (from_be (rd q 17 4) :: u32)" by simp
  then have "rd p 17 4 = rd q 17 4" using len by (simp add: to_be_from_be length_rd)
  moreover have "take 17 p = take 17 q" "drop 21 p = drop 21 q"
    using assms(3) by (simp_all add: same_page_def OFF_CHECKSUM_def)
  ultimately have "take 17 p @ rd p 17 4 @ drop 21 p = take 17 q @ rd q 17 4 @ drop 21 q" by simp
  moreover have "take 17 x @ rd x 17 4 @ drop 21 x = x" for x :: bytes
    using append_take_drop_id [of 4 "drop 17 x"] append_take_drop_id [of 17 x]
    by (simp add: rd_def)
  ultimately show ?thesis by simp
qed

section \<open>Tuple locations\<close>

lemma length_tuple_loc_encode [simp]: "length (tuple_loc_encode l) = TUPLE_LOC_LEN"
  by (simp add: tuple_loc_encode_def TUPLE_LOC_LEN_def)

lemma tuple_loc_decode_encode [simp]: "tuple_loc_decode (tuple_loc_encode l) = Some l"
  by (simp add: tuple_loc_decode_def) (simp add: tuple_loc_encode_def)

lemma tuple_loc_encode_decode: "tuple_loc_decode bs = Some l \<Longrightarrow> tuple_loc_encode l = bs"
proof -
  assume a: "tuple_loc_decode bs = Some l"
  then have "length bs = 10" by (auto simp: tuple_loc_decode_def TUPLE_LOC_LEN_def split: if_splits)
  with a show ?thesis
    by (auto simp: tuple_loc_decode_def tuple_loc_encode_def TUPLE_LOC_LEN_def to_be_from_be)
qed

end
