(* ===== verification/Block_Store.thy ===== *)
theory Block_Store
  imports Pages
begin

text \<open>
  Block storage of \<^verbatim>\<open>src/crates/filesystem/src\<close>: the file handle (\<^verbatim>\<open>file.rs\<close>), the trait
  \<open>BlockStore\<close> (\<^verbatim>\<open>block/mod.rs\<close>) as a record of operations, the in-memory store
  (\<^verbatim>\<open>block/mem.rs\<close>) and the file-backed store with its superblock (\<^verbatim>\<open>block/disk.rs\<close>). The locale
  \<open>block_store\<close> is the contract the page cache relies on; both stores are shown to keep it.
  A file has a bound on its size, so that a full disk is an error of the model; direct
  I/O, which changes no contents, is left out. Block ids are 64-bit words.
\<close>

section \<open>Definitions\<close>

subsection \<open>Stateful fallible code\<close>

text \<open>An operation returns its result and the state it leaves, on the error paths too.\<close>

type_synonym ('s, 'e, 'a) op = "'s \<Rightarrow> ('e + 'a) \<times> 's"

definition st_bind :: "('s, 'e, 'a) op \<Rightarrow> ('a \<Rightarrow> ('s, 'e, 'b) op) \<Rightarrow> ('s, 'e, 'b) op" where
  "st_bind m f s = (case m s of (Inl e, s') \<Rightarrow> (Inl e, s') | (Inr x, s') \<Rightarrow> f x s')"

definition st_return :: "'a \<Rightarrow> ('s, 'e, 'a) op" where
  "st_return x s = (Inr x, s)"

definition st_res :: "'e + 'a \<Rightarrow> ('s, 'e, 'a) op" where
  "st_res r s = (r, s)"

fun st_iter :: "('x \<Rightarrow> ('s, 'e, unit) op) \<Rightarrow> 'x list \<Rightarrow> ('s, 'e, unit) op" where
  "st_iter f [] s = (Inr (), s)"
| "st_iter f (x # xs) s = st_bind (f x) (\<lambda>_. st_iter f xs) s"

subsection \<open>Files\<close>

datatype io_error = IoNoSpace | IoUnexpectedEof

record os_file =
  of_data :: bytes
  of_space :: nat

definition file_size :: "os_file \<Rightarrow> nat" where
  "file_size f = length (of_data f)"

definition file_read_exact_at :: "nat \<Rightarrow> nat \<Rightarrow> os_file \<Rightarrow> io_error + bytes" where
  "file_read_exact_at n off f =
    (if off + n \<le> length (of_data f) then Inr (rd (of_data f) off n) else Inl IoUnexpectedEof)"

definition file_write_all_at :: "bytes \<Rightarrow> nat \<Rightarrow> (os_file, io_error, unit) op" where
  "file_write_all_at d off f =
    (if off + length d \<le> max (of_space f) (length (of_data f))
     then (Inr (), f\<lparr>of_data := splice (of_data f @ replicate (off + length d - length (of_data f)) 0) off d\<rparr>)
     else (Inl IoNoSpace, f))"

definition file_set_len :: "nat \<Rightarrow> (os_file, io_error, unit) op" where
  "file_set_len n f =
    (if n \<le> max (of_space f) (length (of_data f))
     then (Inr (), f\<lparr>of_data := take n (of_data f) @ replicate (n - length (of_data f)) 0\<rparr>)
     else (Inl IoNoSpace, f))"

subsection \<open>The trait\<close>

record 'v store_ops =
  bs_allocate :: "('v, fs_error, u64) op"
  bs_free :: "u64 \<Rightarrow> 'v \<Rightarrow> 'v"
  bs_ensure_allocated :: "u64 \<Rightarrow> ('v, fs_error, unit) op"
  bs_read :: "u64 \<Rightarrow> 'v \<Rightarrow> fs_error + bytes"
  bs_write :: "u64 \<Rightarrow> bytes \<Rightarrow> ('v, fs_error, unit) op"
  bs_sync :: "('v, fs_error, unit) op"
  bs_block_count :: "'v \<Rightarrow> u64"

definition block_zeroed :: bytes where
  "block_zeroed = replicate BLOCK_SIZE 0"

subsection \<open>The store in memory\<close>

record mem_store =
  ms_blocks :: "bytes list"
  ms_next :: u64
  ms_free :: "u64 list"

definition mem_new :: mem_store where
  "mem_new = \<lparr>ms_blocks = [block_zeroed], ms_next = 1, ms_free = []\<rparr>"

text \<open>\<open>Vec::pop\<close> takes the last element.\<close>

definition mem_allocate :: "(mem_store, fs_error, u64) op" where
  "mem_allocate v =
    (if ms_free v \<noteq> [] then (Inr (last (ms_free v)), v\<lparr>ms_free := butlast (ms_free v)\<rparr>)
     else (Inr (ms_next v), v\<lparr>ms_next := ms_next v + 1, ms_blocks := ms_blocks v @ [block_zeroed]\<rparr>))"

definition mem_free :: "u64 \<Rightarrow> mem_store \<Rightarrow> mem_store" where
  "mem_free i v = v\<lparr>ms_free := ms_free v @ [i]\<rparr>"

definition mem_ensure_allocated :: "u64 \<Rightarrow> (mem_store, fs_error, unit) op" where
  "mem_ensure_allocated i v =
    (Inr (), v\<lparr>ms_blocks := ms_blocks v @ replicate (Suc (unat i) - length (ms_blocks v)) block_zeroed,
               ms_next := max (ms_next v) (i + 1)\<rparr>)"

definition mem_read :: "u64 \<Rightarrow> mem_store \<Rightarrow> fs_error + bytes" where
  "mem_read i v = (if unat i < length (ms_blocks v) then Inr (ms_blocks v ! unat i) else Inl (FsChecksum i))"

definition mem_write :: "u64 \<Rightarrow> bytes \<Rightarrow> (mem_store, fs_error, unit) op" where
  "mem_write i b v =
    (if unat i < length (ms_blocks v) then (Inr (), v\<lparr>ms_blocks := (ms_blocks v)[unat i := b]\<rparr>)
     else (Inl (FsChecksum i), v))"

definition mem_sync :: "(mem_store, fs_error, unit) op" where
  "mem_sync v = (Inr (), v)"

definition mem_block_count :: "mem_store \<Rightarrow> u64" where
  "mem_block_count v = ms_next v"

definition mem_ops :: "mem_store store_ops" where
  "mem_ops = \<lparr>bs_allocate = mem_allocate, bs_free = mem_free, bs_ensure_allocated = mem_ensure_allocated,
    bs_read = mem_read, bs_write = mem_write, bs_sync = mem_sync, bs_block_count = mem_block_count\<rparr>"

subsection \<open>The store in a file\<close>

definition SUPER_MAGIC :: bytes where "SUPER_MAGIC = [0x53, 0x56, 0x46, 0x53]"
definition GROWTH_CHUNK_BLOCKS :: u64 where "GROWTH_CHUNK_BLOCKS = 16"

record disk_store =
  ds_file :: os_file
  ds_next :: u64
  ds_capacity :: u64
  ds_free :: "u64 list"

fun grow_error :: "io_error \<Rightarrow> fs_error" where
  "grow_error IoNoSpace = Exhausted"
| "grow_error IoUnexpectedEof = FsIo"

text \<open>An operation of the file inside the store; other failures are \<open>Error::Io\<close>.\<close>

definition on_file :: "(io_error \<Rightarrow> fs_error) \<Rightarrow> (os_file, io_error, 'a) op \<Rightarrow> (disk_store, fs_error, 'a) op" where
  "on_file err m v = (let (r, f) = m (ds_file v) in (map_err err r, v\<lparr>ds_file := f\<rparr>))"

definition set_capacity :: "u64 \<Rightarrow> (disk_store, fs_error, unit) op" where
  "set_capacity blocks =
    st_bind (on_file grow_error (file_set_len (unat (blocks * word_of_nat BLOCK_SIZE)))) (\<lambda>_ v.
      (Inr (), v\<lparr>ds_capacity := blocks\<rparr>))"

definition next_multiple_of :: "u64 \<Rightarrow> u64 \<Rightarrow> u64" where
  "next_multiple_of m n = (let r = n mod m in if r = 0 then n else n + (m - r))"

definition ensure_capacity :: "u64 \<Rightarrow> (disk_store, fs_error, unit) op" where
  "ensure_capacity blocks v =
    (if blocks > ds_capacity v then set_capacity (next_multiple_of GROWTH_CHUNK_BLOCKS blocks) v else (Inr (), v))"

definition super_block :: "u64 \<Rightarrow> u64 list \<Rightarrow> bytes" where
  "super_block next_id free_list =
    SUPER_MAGIC @ to_be 8 next_id @ to_be 8 (word_of_nat (length free_list) :: u64) @
    concat (map (to_be 8) free_list) @ replicate (BLOCK_SIZE - (20 + 8 * length free_list)) 0"

definition write_superblock :: "(disk_store, fs_error, unit) op" where
  "write_superblock v =
    (let max_free = (BLOCK_SIZE - 20) div 8 in
     if length (ds_free v) > max_free then (Inl (FreeListOverflow (length (ds_free v)) max_free), v)
     else on_file (\<lambda>_. FsIo) (file_write_all_at (super_block (ds_next v) (ds_free v)) 0) v)"

definition read_superblock :: "os_file \<Rightarrow> fs_error + (u64 \<times> u64 list)" where
  "read_superblock f =
    res_bind (map_err (\<lambda>_. FsIo) (file_read_exact_at BLOCK_SIZE 0 f)) (\<lambda>block.
      if rd block 0 4 \<noteq> SUPER_MAGIC then Inl FsBadMagic
      else let free_count = unat (from_be (rd block 12 8) :: u64) in
        if 20 + 8 * free_count > BLOCK_SIZE then Inl FsPanic
        else Inr (from_be (rd block 4 8), map (\<lambda>i. from_be (rd block (20 + 8 * i) 8)) [0..<free_count]))"

text \<open>\<open>open\<close>: the argument is the file at the path, empty when there is none.\<close>

definition disk_open :: "os_file \<Rightarrow> fs_error + disk_store" where
  "disk_open f =
    (if file_size f = 0
     then let v = \<lparr>ds_file = f, ds_next = 1, ds_capacity = 0, ds_free = []\<rparr> in
       (case st_bind (set_capacity 1) (\<lambda>_. write_superblock) v of (Inl e, _) \<Rightarrow> Inl e | (Inr _, v') \<Rightarrow> Inr v')
     else res_bind (read_superblock f) (\<lambda>(next_id, free_list).
       Inr \<lparr>ds_file = f, ds_next = next_id, ds_capacity = word_of_nat (file_size f) div word_of_nat BLOCK_SIZE,
            ds_free = free_list\<rparr>))"

definition disk_offset :: "u64 \<Rightarrow> nat" where
  "disk_offset i = unat (i * word_of_nat BLOCK_SIZE)"

definition disk_allocate :: "(disk_store, fs_error, u64) op" where
  "disk_allocate v =
    (if ds_free v \<noteq> [] then (Inr (last (ds_free v)), v\<lparr>ds_free := butlast (ds_free v)\<rparr>)
     else st_bind (ensure_capacity (ds_next v + 1)) (\<lambda>_ v'. (Inr (ds_next v), v')) (v\<lparr>ds_next := ds_next v + 1\<rparr>))"

definition disk_free :: "u64 \<Rightarrow> disk_store \<Rightarrow> disk_store" where
  "disk_free i v = v\<lparr>ds_free := ds_free v @ [i]\<rparr>"

definition disk_ensure_allocated :: "u64 \<Rightarrow> (disk_store, fs_error, unit) op" where
  "disk_ensure_allocated i v =
    (if i \<ge> ds_next v then ensure_capacity (i + 1) (v\<lparr>ds_next := i + 1\<rparr>) else (Inr (), v))"

definition disk_read :: "u64 \<Rightarrow> disk_store \<Rightarrow> fs_error + bytes" where
  "disk_read i v = map_err (\<lambda>_. FsIo) (file_read_exact_at BLOCK_SIZE (disk_offset i) (ds_file v))"

definition disk_write :: "u64 \<Rightarrow> bytes \<Rightarrow> (disk_store, fs_error, unit) op" where
  "disk_write i b = on_file (\<lambda>_. FsIo) (file_write_all_at b (disk_offset i))"

definition disk_sync :: "(disk_store, fs_error, unit) op" where
  "disk_sync = write_superblock"

definition disk_block_count :: "disk_store \<Rightarrow> u64" where
  "disk_block_count v = ds_next v"

definition disk_ops :: "disk_store store_ops" where
  "disk_ops = \<lparr>bs_allocate = disk_allocate, bs_free = disk_free, bs_ensure_allocated = disk_ensure_allocated,
    bs_read = disk_read, bs_write = disk_write, bs_sync = disk_sync, bs_block_count = disk_block_count\<rparr>"

section \<open>Stateful code\<close>

lemma st_bind_simps [simp]:
  "m s = (Inl e, s') \<Longrightarrow> st_bind m f s = (Inl e, s')"
  "m s = (Inr x, s') \<Longrightarrow> st_bind m f s = f x s'"
  by (simp_all add: st_bind_def)

lemma st_res_simps [simp]: "st_res r s = (r, s)"
  by (simp add: st_res_def)

lemma st_return_simps [simp]: "st_return x s = (Inr x, s)"
  by (simp add: st_return_def)

lemma st_bind_Inr_iff:
  "st_bind m f s = (Inr y, s'') \<longleftrightarrow> (\<exists>x s'. m s = (Inr x, s') \<and> f x s' = (Inr y, s''))"
  by (auto simp: st_bind_def split: prod.splits sum.splits)

lemma st_iter_append: "st_iter f (xs @ ys) s = st_bind (st_iter f xs) (\<lambda>_. st_iter f ys) s"
  by (induction xs arbitrary: s) (auto simp: st_bind_def split: prod.splits sum.splits)

section \<open>The contract\<close>

text \<open>
  \<open>live\<close> are the ids in use, \<open>data\<close> what their blocks hold. \<open>room\<close> says that an
  allocation can be served, \<open>fits\<close> that an id is one recovery may claim; \<open>dur\<close> are the ids
  that are in use when the store is opened again.
\<close>

locale block_store =
  fixes ops :: "'v store_ops"
    and inv :: "'v \<Rightarrow> bool"
    and live :: "'v \<Rightarrow> u64 set"
    and data :: "'v \<Rightarrow> u64 \<Rightarrow> bytes"
    and room :: "'v \<Rightarrow> bool"
    and fits :: "'v \<Rightarrow> u64 \<Rightarrow> bool"
    and dur :: "'v \<Rightarrow> u64 set"
  assumes store_allocate: "inv v \<Longrightarrow> room v \<Longrightarrow> \<exists>i v'. bs_allocate ops v = (Inr i, v') \<and> inv v' \<and> i \<noteq> 0 \<and> i \<notin> live v \<and>
      live v' = insert i (live v) \<and> (\<forall>j\<in>live v. data v' j = data v j) \<and> dur v \<subseteq> dur v'"
    and store_read: "inv v \<Longrightarrow> i \<in> live v \<Longrightarrow> bs_read ops i v = Inr (data v i) \<and> length (data v i) = BLOCK_SIZE"
    and store_write: "inv v \<Longrightarrow> i \<in> live v \<Longrightarrow> length b = BLOCK_SIZE \<Longrightarrow> \<exists>v'. bs_write ops i b v = (Inr (), v') \<and> inv v' \<and>
      live v' = live v \<and> (\<forall>j\<in>live v. data v' j = (if j = i then b else data v j)) \<and> room v' = room v \<and> fits v' = fits v \<and> dur v \<subseteq> dur v'"
    and store_sync: "inv v \<Longrightarrow> \<exists>v'. bs_sync ops v = (Inr (), v') \<and> inv v' \<and>
      live v' = live v \<and> (\<forall>j\<in>live v. data v' j = data v j) \<and> room v' = room v \<and> fits v' = fits v \<and> live v \<subseteq> dur v'"
    and store_ensure: "inv v \<Longrightarrow> fits v i \<Longrightarrow> \<exists>v'. bs_ensure_allocated ops i v = (Inr (), v') \<and> inv v' \<and>
      insert i (live v) \<subseteq> live v' \<and> (\<forall>j\<in>live v. data v' j = data v j) \<and> fits v' = fits v \<and> dur v \<subseteq> dur v'"
    and live_fits: "inv v \<Longrightarrow> i \<in> live v \<Longrightarrow> fits v i"
begin

text \<open>Writing a batch of pages in turn.\<close>

lemma write_all_pages:
  assumes "inv v" "\<forall>(i, b)\<in>set ps. i \<in> live v \<and> length b = BLOCK_SIZE"
  shows "\<exists>v'. st_iter (\<lambda>(i, b). bs_write ops i b) ps v = (Inr (), v') \<and> inv v' \<and> live v' = live v \<and>
    (\<forall>j\<in>live v. data v' j = (case map_of (rev ps) j of Some b \<Rightarrow> b | None \<Rightarrow> data v j)) \<and> room v' = room v \<and> fits v' = fits v"
  using assms
proof (induction ps arbitrary: v)
  case (Cons p ps)
  obtain i b where p: "p = (i, b)" by fastforce
  obtain v1 where v1: "bs_write ops i b v = (Inr (), v1)" "inv v1" "live v1 = live v"
      "\<forall>j\<in>live v. data v1 j = (if j = i then b else data v j)" "room v1 = room v" "fits v1 = fits v"
    using store_write [of v i b] Cons.prems p by auto
  obtain v2 where v2: "st_iter (\<lambda>(i, b). bs_write ops i b) ps v1 = (Inr (), v2)" "inv v2" "live v2 = live v1"
      "\<forall>j\<in>live v1. data v2 j = (case map_of (rev ps) j of Some b \<Rightarrow> b | None \<Rightarrow> data v1 j)" "room v2 = room v1" "fits v2 = fits v1"
    using Cons.IH [of v1] v1 Cons.prems by auto
  have "data v2 j = (case map_of (rev (p # ps)) j of Some b \<Rightarrow> b | None \<Rightarrow> data v j)" if "j \<in> live v" for j
    using that v1 v2 p by (auto simp: map_add_def split: option.splits)
  then show ?case using v1 v2 p by (intro exI [of _ v2]) simp
qed simp

end

section \<open>The store in memory keeps it\<close>

definition mem_inv :: "mem_store \<Rightarrow> bool" where
  "mem_inv v \<longleftrightarrow> length (ms_blocks v) = unat (ms_next v) \<and> 0 < ms_next v \<and> (\<forall>b\<in>set (ms_blocks v). length b = BLOCK_SIZE) \<and>
    distinct (ms_free v) \<and> (\<forall>i\<in>set (ms_free v). 0 < i \<and> i < ms_next v)"

definition mem_live :: "mem_store \<Rightarrow> u64 set" where
  "mem_live v = {i. 0 < i \<and> i < ms_next v} - set (ms_free v)"

definition mem_data :: "mem_store \<Rightarrow> u64 \<Rightarrow> bytes" where
  "mem_data v i = ms_blocks v ! unat i"

definition mem_room :: "mem_store \<Rightarrow> bool" where
  "mem_room v \<longleftrightarrow> ms_free v \<noteq> [] \<or> ms_next v < - 1"

definition mem_fits :: "mem_store \<Rightarrow> u64 \<Rightarrow> bool" where
  "mem_fits v i \<longleftrightarrow> 0 < i \<and> i < - 1 \<and> i \<notin> set (ms_free v)"

lemma length_block_zeroed [simp]: "length block_zeroed = BLOCK_SIZE"
  by (simp add: block_zeroed_def)

lemma mem_inv_new [simp]: "mem_inv mem_new"
  by (simp add: mem_inv_def mem_new_def)

lemma pop_last: "xs \<noteq> [] \<Longrightarrow> distinct xs \<Longrightarrow> set (butlast xs) = set xs - {last xs} \<and> distinct (butlast xs)"
  by (cases xs rule: rev_cases) auto

lemma mem_allocate_law:
  assumes v: "mem_inv v" "mem_room v"
  shows "\<exists>i v'. mem_allocate v = (Inr i, v') \<and> mem_inv v' \<and> i \<noteq> 0 \<and> i \<notin> mem_live v \<and>
    mem_live v' = insert i (mem_live v) \<and> (\<forall>j\<in>mem_live v. mem_data v' j = mem_data v j)"
proof (cases "ms_free v = []")
  case False
  let ?v = "v\<lparr>ms_free := butlast (ms_free v)\<rparr>"
  have p: "set (butlast (ms_free v)) = set (ms_free v) - {last (ms_free v)}" "distinct (butlast (ms_free v))"
    using pop_last [OF False] v by (simp_all add: mem_inv_def)
  have l: "last (ms_free v) \<in> set (ms_free v)" using False by simp
  then have "0 < last (ms_free v)" "last (ms_free v) < ms_next v" using v(1) by (simp_all add: mem_inv_def)
  moreover have "mem_inv ?v" using v(1) p by (auto simp: mem_inv_def)
  moreover have "mem_live ?v = insert (last (ms_free v)) (mem_live v)"
    using p l calculation by (auto simp: mem_live_def)
  ultimately show ?thesis using False l by (auto simp: mem_allocate_def mem_live_def mem_data_def)
next
  case True
  let ?v = "v\<lparr>ms_next := ms_next v + 1, ms_blocks := ms_blocks v @ [block_zeroed]\<rparr>"
  have n: "ms_next v < - 1" using v(2) True by (simp add: mem_room_def)
  have u: "unat (ms_next v + 1) = Suc (unat (ms_next v))" by (rule unat_add_one [OF n])
  have "mem_inv ?v" using v(1) u True by (auto simp: mem_inv_def word_less_nat_alt)
  moreover have "mem_live ?v = insert (ms_next v) (mem_live v)"
    using True u v(1) by (auto simp: mem_live_def mem_inv_def word_less_nat_alt unat_eq_zero less_Suc_eq word_unat_eq_iff)
  moreover have "mem_data ?v j = mem_data v j" if "j \<in> mem_live v" for j
    using that v(1) by (auto simp: mem_data_def mem_live_def mem_inv_def nth_append word_less_nat_alt)
  moreover have "ms_next v \<noteq> 0" using v(1) by (simp add: mem_inv_def word_neq_0_conv)
  ultimately show ?thesis using True by (auto simp: mem_allocate_def mem_live_def)
qed

lemma mem_ensure_law:
  assumes v: "mem_inv v" "mem_fits v i"
  shows "\<exists>v'. mem_ensure_allocated i v = (Inr (), v') \<and> mem_inv v' \<and> insert i (mem_live v) \<subseteq> mem_live v' \<and>
    (\<forall>j\<in>mem_live v. mem_data v' j = mem_data v j) \<and> mem_fits v' = mem_fits v \<and> mem_live v \<subseteq> mem_live v'"
proof -
  let ?v = "v\<lparr>ms_blocks := ms_blocks v @ replicate (Suc (unat i) - length (ms_blocks v)) block_zeroed,
      ms_next := max (ms_next v) (i + 1)\<rparr>"
  have u: "unat (i + 1) = Suc (unat i)" using v(2) by (intro unat_add_one) (simp add: mem_fits_def)
  have m: "unat (max (ms_next v) (i + 1)) = max (unat (ms_next v)) (Suc (unat i))"
    by (simp add: max_def word_le_nat_alt u)
  have inv: "length (ms_blocks v) = unat (ms_next v)" "0 < ms_next v" using v(1) by (simp_all add: mem_inv_def)
  have "mem_inv ?v" using v(1) m by (auto simp: mem_inv_def word_less_nat_alt)
  moreover have "insert i (mem_live v) \<subseteq> mem_live ?v"
    using v(2) m u by (auto simp: mem_live_def mem_fits_def word_less_nat_alt)
  moreover have "mem_data ?v j = mem_data v j" if "j \<in> mem_live v" for j
    using that inv by (simp add: mem_data_def mem_live_def nth_append word_less_nat_alt)
  ultimately show ?thesis by (auto simp: mem_ensure_allocated_def mem_fits_def fun_eq_iff)
qed

lemma mem_write_law:
  assumes "mem_inv v" "i \<in> mem_live v" "length b = BLOCK_SIZE"
  shows "\<exists>v'. mem_write i b v = (Inr (), v') \<and> mem_inv v' \<and> mem_live v' = mem_live v \<and>
    (\<forall>j\<in>mem_live v. mem_data v' j = (if j = i then b else mem_data v j)) \<and> mem_room v' = mem_room v \<and> mem_fits v' = mem_fits v \<and>
    mem_live v \<subseteq> mem_live v'"
proof -
  let ?v = "v\<lparr>ms_blocks := (ms_blocks v)[unat i := b]\<rparr>"
  have i: "unat i < length (ms_blocks v)" using assms(1,2) by (simp add: mem_inv_def mem_live_def word_less_nat_alt)
  have "mem_inv ?v"
    using assms(1,3) set_update_subset_insert [of "ms_blocks v" "unat i" b] by (auto simp: mem_inv_def)
  moreover have "mem_data ?v j = (if j = i then b else mem_data v j)" for j
    using i by (simp add: mem_data_def nth_list_update word_unat_eq_iff)
  ultimately show ?thesis using i by (auto simp: mem_write_def mem_live_def mem_room_def mem_fits_def fun_eq_iff)
qed

interpretation mem: block_store mem_ops mem_inv mem_live mem_data mem_room mem_fits mem_live
proof unfold_locales
  fix v i
  assume "mem_inv v" "i \<in> mem_live v"
  then show "bs_read mem_ops i v = Inr (mem_data v i) \<and> length (mem_data v i) = BLOCK_SIZE"
    by (auto simp: mem_ops_def mem_read_def mem_data_def mem_inv_def mem_live_def word_less_nat_alt)
next
  fix v i
  assume "mem_inv v" "i \<in> mem_live v"
  moreover have "ms_next v \<le> - 1" by (rule word_order.extremum)
  ultimately show "mem_fits v i"
    using order_less_le_trans [of i "ms_next v" "- 1"] by (simp add: mem_fits_def mem_live_def)
next
  fix v
  assume "mem_inv v" "mem_room v"
  then obtain i v' where "mem_allocate v = (Inr i, v')" "mem_inv v'" "i \<noteq> 0" "i \<notin> mem_live v" "mem_live v' = insert i (mem_live v)"
      "\<forall>j\<in>mem_live v. mem_data v' j = mem_data v j"
    using mem_allocate_law by blast
  then show "\<exists>i v'. bs_allocate mem_ops v = (Inr i, v') \<and> mem_inv v' \<and> i \<noteq> 0 \<and> i \<notin> mem_live v \<and>
      mem_live v' = insert i (mem_live v) \<and> (\<forall>j\<in>mem_live v. mem_data v' j = mem_data v j) \<and> mem_live v \<subseteq> mem_live v'"
    by (simp add: mem_ops_def subset_insertI)
qed (use mem_write_law mem_ensure_law in \<open>simp_all add: mem_ops_def mem_sync_def\<close>)

section \<open>The store in a file keeps it\<close>

text \<open>The size up to which the file may grow, and the size it grows to for an id.\<close>

definition file_limit :: "os_file \<Rightarrow> nat" where
  "file_limit f = max (of_space f) (length (of_data f))"

definition chunk_end :: "nat \<Rightarrow> nat" where
  "chunk_end n = (n + 15) div 16 * 16"

definition disk_inv :: "disk_store \<Rightarrow> bool" where
  "disk_inv v \<longleftrightarrow> length (of_data (ds_file v)) = BLOCK_SIZE * unat (ds_capacity v) \<and> unat (ds_capacity v) \<le> 2 ^ 50 \<and>
    (ds_capacity v = 1 \<or> 16 dvd unat (ds_capacity v)) \<and> 0 < ds_next v \<and> ds_next v \<le> ds_capacity v \<and>
    distinct (ds_free v) \<and> (\<forall>i\<in>set (ds_free v). 0 < i \<and> i < ds_next v) \<and> length (ds_free v) \<le> 1021"

definition disk_live :: "disk_store \<Rightarrow> u64 set" where
  "disk_live v = {i. 0 < i \<and> i < ds_next v} - set (ds_free v)"

definition disk_data :: "disk_store \<Rightarrow> u64 \<Rightarrow> bytes" where
  "disk_data v i = rd (of_data (ds_file v)) (BLOCK_SIZE * unat i) BLOCK_SIZE"

definition disk_fits :: "disk_store \<Rightarrow> u64 \<Rightarrow> bool" where
  "disk_fits v i \<longleftrightarrow> 0 < i \<and> unat i < 2 ^ 50 \<and> i \<notin> set (ds_free v) \<and>
    BLOCK_SIZE * chunk_end (Suc (unat i)) \<le> file_limit (ds_file v)"

definition disk_room :: "disk_store \<Rightarrow> bool" where
  "disk_room v \<longleftrightarrow> ds_free v \<noteq> [] \<or> disk_fits v (ds_next v)"

lemma chunk_end_bounds: "n \<le> chunk_end n" "16 dvd chunk_end n"
proof -
  show "n \<le> chunk_end n" using mod_less_divisor [of 16 "n + 15"] div_mult_mod_eq [of "n + 15" 16]
    unfolding chunk_end_def by linarith
qed (simp add: chunk_end_def)

lemma chunk_end_least:
  assumes "n \<le> m" "16 dvd m"
  shows "chunk_end n \<le> m"
proof -
  obtain k where m: "m = 16 * k" using assms(2) by auto
  have "(n + 15) div 16 \<le> k" using assms(1) m by (simp add: less_Suc_eq_le [symmetric] div_less_iff_less_mult)
  then show ?thesis by (simp add: chunk_end_def m)
qed

lemma chunk_end_mod: "chunk_end n = (if n mod 16 = 0 then n else n + (16 - n mod 16))"
proof -
  define q r where "q = n div 16" and "r = n mod 16"
  have n: "n = 16 * q + r" "r < 16" by (simp_all add: q_def r_def)
  have "(n + 15) div 16 = (if r = 0 then q else Suc q)"
    using n(2) by (auto simp: n(1) intro!: div_nat_eqI)
  then show ?thesis using n by (simp add: chunk_end_def flip: r_def)
qed

lemma unat_next_multiple_of:
  assumes "unat n < 2 ^ 60"
  shows "unat (next_multiple_of GROWTH_CHUNK_BLOCKS n) = chunk_end (unat n)"
proof -
  have m: "unat (n mod 16) = unat n mod 16" by (simp add: unat_mod)
  have z: "n mod 16 = 0 \<longleftrightarrow> unat n mod 16 = 0" by (simp add: unat_eq_0 flip: m)
  have le: "n mod 16 \<le> 16" by (simp add: word_le_nat_alt m)
  have s: "unat (16 - n mod 16) = 16 - unat n mod 16" using le by (simp add: unat_sub m)
  have "unat (n + (16 - n mod 16)) = unat n + (16 - unat n mod 16)"
    using assms by (subst unat_add_lem [THEN iffD1]) (simp_all add: s)
  then show ?thesis
    by (simp add: next_multiple_of_def GROWTH_CHUNK_BLOCKS_def chunk_end_mod Let_def z)
qed

lemma unat_offset:
  assumes "unat (n :: u64) \<le> 2 ^ 50"
  shows "unat (n * word_of_nat BLOCK_SIZE) = BLOCK_SIZE * unat n"
  using assms by (subst unat_mult_lem [THEN iffD1]) (simp_all add: BLOCK_SIZE_def)

lemma set_capacity_ok:
  assumes "unat n \<le> 2 ^ 50" "BLOCK_SIZE * unat n \<le> file_limit (ds_file v)" "length (of_data (ds_file v)) \<le> BLOCK_SIZE * unat n"
  shows "set_capacity n v = (Inr (), v\<lparr>ds_file := (ds_file v)\<lparr>of_data := of_data (ds_file v) @
      replicate (BLOCK_SIZE * unat n - length (of_data (ds_file v))) 0\<rparr>, ds_capacity := n\<rparr>)"
  using assms by (simp add: set_capacity_def on_file_def file_set_len_def unat_offset file_limit_def st_bind_def Let_def)

text \<open>Growing keeps the invariant and what is stored.\<close>

lemma ensure_capacity_ok:
  assumes len: "length (of_data (ds_file v)) = BLOCK_SIZE * unat (ds_capacity v)" "unat (ds_capacity v) \<le> 2 ^ 50"
      "ds_capacity v = 1 \<or> 16 dvd unat (ds_capacity v)"
    and n: "unat n \<le> 2 ^ 50" "BLOCK_SIZE * chunk_end (unat n) \<le> file_limit (ds_file v)"
  obtains v' where "ensure_capacity n v = (Inr (), v')" "length (of_data (ds_file v')) = BLOCK_SIZE * unat (ds_capacity v')"
    "unat (ds_capacity v') \<le> 2 ^ 50" "ds_capacity v' = 1 \<or> 16 dvd unat (ds_capacity v')" "n \<le> ds_capacity v'"
    "ds_next v' = ds_next v" "ds_free v' = ds_free v" "file_limit (ds_file v') = file_limit (ds_file v)"
    "\<And>off k. off + k \<le> length (of_data (ds_file v)) \<Longrightarrow> rd (of_data (ds_file v')) off k = rd (of_data (ds_file v)) off k"
proof (cases "n \<le> ds_capacity v")
  case True
  then have "ensure_capacity n v = (Inr (), v)" by (simp add: ensure_capacity_def linorder_not_less [THEN iffD2])
  then show thesis using that len True by blast
next
  case False
  let ?n = "next_multiple_of GROWTH_CHUNK_BLOCKS n"
  have u: "unat ?n = chunk_end (unat n)" using n(1) by (intro unat_next_multiple_of) simp
  have small: "chunk_end (unat n) \<le> 2 ^ 50" using n(1) by (intro chunk_end_least) simp_all
  have cap: "unat (ds_capacity v) \<le> chunk_end (unat n)"
    using False chunk_end_bounds(1) [of "unat n"] by (simp add: word_le_nat_alt)
  have s: "set_capacity ?n v = (Inr (), v\<lparr>ds_file := (ds_file v)\<lparr>of_data := of_data (ds_file v) @
      replicate (BLOCK_SIZE * unat ?n - length (of_data (ds_file v))) 0\<rparr>, ds_capacity := ?n\<rparr>)"
    using n(2) len(1) small cap by (intro set_capacity_ok) (simp_all add: u)
  let ?v = "snd (set_capacity ?n v)"
  have e: "ensure_capacity n v = (Inr (), ?v)" using False s by (simp add: ensure_capacity_def)
  have v': "ds_capacity ?v = ?n" "ds_next ?v = ds_next v" "ds_free ?v = ds_free v"
      "of_data (ds_file ?v) = of_data (ds_file v) @ replicate (BLOCK_SIZE * unat ?n - length (of_data (ds_file v))) 0"
      "of_space (ds_file ?v) = of_space (ds_file v)"
    by (simp_all add: s)
  have le: "length (of_data (ds_file v)) \<le> BLOCK_SIZE * unat ?n" using cap len(1) by (simp add: u)
  show thesis
  proof (rule that [OF e])
    show "length (of_data (ds_file ?v)) = BLOCK_SIZE * unat (ds_capacity ?v)" using le by (simp add: v')
    show "unat (ds_capacity ?v) \<le> 2 ^ 50" "ds_capacity ?v = 1 \<or> 16 dvd unat (ds_capacity ?v)"
      using small chunk_end_bounds(2) by (simp_all add: v' u)
    show "n \<le> ds_capacity ?v" using chunk_end_bounds(1) [of "unat n"] by (simp add: v' u word_le_nat_alt)
    show "file_limit (ds_file ?v) = file_limit (ds_file v)" using le n(2) by (auto simp: file_limit_def v' u max_def split: if_splits)
    show "rd (of_data (ds_file ?v)) off k = rd (of_data (ds_file v)) off k" if "off + k \<le> length (of_data (ds_file v))" for off k
      using that by (simp add: v' rd_def)
  qed (simp_all add: v')
qed

lemma disk_offset_ok: "disk_inv v \<Longrightarrow> i < ds_next v \<Longrightarrow> disk_offset i = BLOCK_SIZE * unat i \<and>
    disk_offset i + BLOCK_SIZE \<le> length (of_data (ds_file v))"
proof -
  assume v: "disk_inv v" "i < ds_next v"
  then have i: "unat i < unat (ds_capacity v)" "unat (ds_capacity v) \<le> 2 ^ 50"
    by (simp_all add: disk_inv_def word_less_nat_alt word_le_nat_alt)
  then have o: "disk_offset i = BLOCK_SIZE * unat i" by (simp add: disk_offset_def unat_offset)
  have "BLOCK_SIZE * Suc (unat i) \<le> BLOCK_SIZE * unat (ds_capacity v)" using i(1) by (intro mult_le_mono2) simp
  then show ?thesis using o v(1) by (simp add: disk_inv_def)
qed

lemma blocks_disjoint: "unat i \<noteq> unat j \<Longrightarrow> BLOCK_SIZE * unat i + BLOCK_SIZE \<le> BLOCK_SIZE * unat j \<or>
    BLOCK_SIZE * unat j + BLOCK_SIZE \<le> BLOCK_SIZE * unat i"
  by (cases "unat i < unat j") (auto simp: BLOCK_SIZE_def)

text \<open>The superblock on the file may be behind the handle; both describe the same blocks.\<close>

definition super_ok :: "disk_store \<Rightarrow> bool" where
  "super_ok v \<longleftrightarrow> (\<exists>n fl. read_superblock (ds_file v) = Inr (n, fl) \<and> 0 < n \<and> n \<le> ds_next v \<and> distinct fl \<and>
    (\<forall>i\<in>set fl. 0 < i \<and> i < n) \<and> length fl \<le> 1021)"

definition disk_dur :: "disk_store \<Rightarrow> u64 set" where
  "disk_dur v = (case read_superblock (ds_file v) of Inr (n, fl) \<Rightarrow> {i. 0 < i \<and> i < n} - set fl | Inl _ \<Rightarrow> {})"

definition disk_ok :: "disk_store \<Rightarrow> bool" where
  "disk_ok v \<longleftrightarrow> disk_inv v \<and> super_ok v"

definition keeps_super :: "disk_store \<Rightarrow> disk_store \<Rightarrow> bool" where
  "keeps_super v v' \<longleftrightarrow> disk_data v' 0 = disk_data v 0 \<and> ds_next v \<le> ds_next v'"

lemma disk_size:
  assumes "disk_inv v"
  shows "BLOCK_SIZE \<le> length (of_data (ds_file v))"
proof -
  have "0 < ds_next v" using assms by (simp add: disk_inv_def)
  from disk_offset_ok [OF assms this] show ?thesis by (simp add: disk_offset_def)
qed

lemma read_superblock_data:
  "disk_inv v \<Longrightarrow> disk_inv v' \<Longrightarrow> disk_data v' 0 = disk_data v 0 \<Longrightarrow> read_superblock (ds_file v') = read_superblock (ds_file v)"
  using disk_size [of v] disk_size [of v'] by (simp add: read_superblock_def file_read_exact_at_def disk_data_def)

lemma keeps_superD:
  assumes "disk_ok v" "disk_inv v'" "keeps_super v v'"
  shows "disk_ok v'" "disk_dur v \<subseteq> disk_dur v'"
proof -
  have r: "read_superblock (ds_file v') = read_superblock (ds_file v)"
    using assms by (intro read_superblock_data) (simp_all add: disk_ok_def keeps_super_def)
  show "disk_dur v \<subseteq> disk_dur v'" by (simp add: disk_dur_def r)
  have "ds_next v \<le> ds_next v'" using assms(3) by (simp add: keeps_super_def)
  then show "disk_ok v'" using assms(1,2) unfolding disk_ok_def super_ok_def r by (meson order_trans)
qed

text \<open>Claiming an id past the high-water mark.\<close>

lemma disk_grow:
  assumes v: "disk_inv v" "disk_fits v i" "ds_next v \<le> i"
  obtains v' where "ensure_capacity (i + 1) (v\<lparr>ds_next := i + 1\<rparr>) = (Inr (), v')" "disk_inv v'" "ds_next v' = i + 1"
    "unat (i + 1) = Suc (unat i)" "ds_free v' = ds_free v" "disk_fits v' = disk_fits v"
    "\<And>j. j < ds_next v \<Longrightarrow> disk_data v' j = disk_data v j"
proof -
  let ?v = "v\<lparr>ds_next := i + 1\<rparr>"
  have "unat i < 2 ^ 50" using v(2) by (simp add: disk_fits_def)
  then have n: "i < - 1" by (simp add: word_less_nat_alt unsigned_minus_1_eq_mask mask_eq_exp_minus_1)
  have u: "unat (i + 1) = Suc (unat i)" by (rule unat_add_one [OF n])
  have len: "length (of_data (ds_file ?v)) = BLOCK_SIZE * unat (ds_capacity ?v)" "unat (ds_capacity ?v) \<le> 2 ^ 50"
      "ds_capacity ?v = 1 \<or> 16 dvd unat (ds_capacity ?v)"
    using v(1) by (simp_all add: disk_inv_def)
  have b: "unat (i + 1) \<le> 2 ^ 50" "BLOCK_SIZE * chunk_end (unat (i + 1)) \<le> file_limit (ds_file ?v)"
    using v(2) by (simp_all add: u disk_fits_def)
  obtain v' where v': "ensure_capacity (i + 1) ?v = (Inr (), v')"
      "length (of_data (ds_file v')) = BLOCK_SIZE * unat (ds_capacity v')"
      "unat (ds_capacity v') \<le> 2 ^ 50" "ds_capacity v' = 1 \<or> 16 dvd unat (ds_capacity v')" "i + 1 \<le> ds_capacity v'"
      "ds_next v' = ds_next ?v" "ds_free v' = ds_free ?v" "file_limit (ds_file v') = file_limit (ds_file ?v)"
      "\<And>off k. off + k \<le> length (of_data (ds_file ?v)) \<Longrightarrow> rd (of_data (ds_file v')) off k = rd (of_data (ds_file ?v)) off k"
    using ensure_capacity_ok [OF len b] by blast
  have pos: "0 < i + 1" "\<And>j. j < ds_next v \<Longrightarrow> j < i + 1"
    using u v(3) by (simp_all add: word_less_nat_alt word_le_nat_alt)
  have inv: "disk_inv v'" using v(1) v'(2-7) pos by (auto simp: disk_inv_def)
  have "disk_data v' j = disk_data v j" if "j < ds_next v" for j
    using v'(9) [of "BLOCK_SIZE * unat j" BLOCK_SIZE] disk_offset_ok [OF v(1) that] by (simp add: disk_data_def)
  moreover have "disk_fits v' = disk_fits v" using v'(7,8) by (simp add: fun_eq_iff disk_fits_def)
  ultimately show thesis using that v'(1,6,7) inv u by simp
qed

lemma live_grow: "unat (i + 1) = Suc (unat (i :: u64)) \<Longrightarrow> n \<le> i \<Longrightarrow> 0 < i \<Longrightarrow> i \<notin> F \<Longrightarrow>
    insert i ({j. 0 < j \<and> j < n} - F) \<subseteq> {j. 0 < j \<and> j < i + 1} - F"
  by (auto simp: word_less_nat_alt word_le_nat_alt)

lemma live_next: "unat (n + 1) = Suc (unat (n :: u64)) \<Longrightarrow> 0 < n \<Longrightarrow> n \<notin> F \<Longrightarrow>
    {j. 0 < j \<and> j < n + 1} - F = insert n ({j. 0 < j \<and> j < n} - F)"
  by (auto simp: word_less_nat_alt less_Suc_eq word_unat_eq_iff)

lemma disk_allocate_law:
  assumes v: "disk_inv v" "disk_room v"
  shows "\<exists>i v'. disk_allocate v = (Inr i, v') \<and> disk_inv v' \<and> i \<noteq> 0 \<and> i \<notin> disk_live v \<and>
    disk_live v' = insert i (disk_live v) \<and> (\<forall>j\<in>disk_live v. disk_data v' j = disk_data v j) \<and> keeps_super v v'"
proof (cases "ds_free v = []")
  case False
  let ?v = "v\<lparr>ds_free := butlast (ds_free v)\<rparr>"
  have p: "set (butlast (ds_free v)) = set (ds_free v) - {last (ds_free v)}" "distinct (butlast (ds_free v))"
    using pop_last [OF False] v by (simp_all add: disk_inv_def)
  have l: "last (ds_free v) \<in> set (ds_free v)" using False by simp
  then have "0 < last (ds_free v)" "last (ds_free v) < ds_next v" using v(1) by (simp_all add: disk_inv_def)
  moreover have "disk_inv ?v" using v(1) p by (auto simp: disk_inv_def)
  moreover have "disk_live ?v = insert (last (ds_free v)) (disk_live v)"
    using p l calculation by (auto simp: disk_live_def)
  ultimately show ?thesis using False l by (auto simp: disk_allocate_def disk_live_def disk_data_def keeps_super_def)
next
  case True
  have f: "disk_fits v (ds_next v)" using v(2) True by (simp add: disk_room_def)
  have pos: "0 < ds_next v" using v(1) by (simp add: disk_inv_def)
  obtain v' where v': "ensure_capacity (ds_next v + 1) (v\<lparr>ds_next := ds_next v + 1\<rparr>) = (Inr (), v')" "disk_inv v'"
      "ds_next v' = ds_next v + 1" "unat (ds_next v + 1) = Suc (unat (ds_next v))" "ds_free v' = ds_free v"
      "\<And>j. j < ds_next v \<Longrightarrow> disk_data v' j = disk_data v j"
    using disk_grow [OF v(1) f] by blast
  have "disk_allocate v = (Inr (ds_next v), v')" using True v'(1) by (simp add: disk_allocate_def)
  moreover have "disk_live v' = insert (ds_next v) (disk_live v)"
    unfolding disk_live_def v'(3,5) using True by (intro live_next v'(4) pos) simp
  moreover have "keeps_super v v'"
    using v'(6) [OF pos] v'(3,4) by (simp add: keeps_super_def word_le_nat_alt)
  ultimately show ?thesis using v'(2,6) pos by (auto simp: disk_live_def)
qed

lemma disk_ensure_law:
  assumes v: "disk_inv v" "disk_fits v i"
  shows "\<exists>v'. disk_ensure_allocated i v = (Inr (), v') \<and> disk_inv v' \<and> insert i (disk_live v) \<subseteq> disk_live v' \<and>
    (\<forall>j\<in>disk_live v. disk_data v' j = disk_data v j) \<and> disk_fits v' = disk_fits v \<and> keeps_super v v'"
proof (cases "ds_next v \<le> i")
  case True
  obtain v' where v': "ensure_capacity (i + 1) (v\<lparr>ds_next := i + 1\<rparr>) = (Inr (), v')" "disk_inv v'"
      "ds_next v' = i + 1" "unat (i + 1) = Suc (unat i)" "ds_free v' = ds_free v" "disk_fits v' = disk_fits v"
      "\<And>j. j < ds_next v \<Longrightarrow> disk_data v' j = disk_data v j"
    using disk_grow [OF v True] by blast
  have "insert i (disk_live v) \<subseteq> disk_live v'"
    unfolding disk_live_def v'(3,5) using v(2) by (intro live_grow v'(4) True) (simp_all add: disk_fits_def)
  moreover have "keeps_super v v'"
  proof -
    have "0 < ds_next v" using v(1) by (simp add: disk_inv_def)
    from v'(7) [OF this] show ?thesis using v'(3,4) True by (simp add: keeps_super_def word_le_nat_alt)
  qed
  ultimately show ?thesis using True v' by (auto simp: disk_ensure_allocated_def disk_live_def)
next
  case False
  then have "disk_ensure_allocated i v = (Inr (), v)" "i \<in> disk_live v"
    using v(2) by (simp_all add: disk_ensure_allocated_def disk_live_def disk_fits_def)
  then show ?thesis using v(1) by (auto simp: keeps_super_def)
qed

text \<open>An aligned write inside the file.\<close>

lemma on_file_write:
  assumes "off + length b \<le> length (of_data (ds_file v))"
  shows "on_file err (file_write_all_at b off) v = (Inr (), v\<lparr>ds_file := (ds_file v)\<lparr>of_data := splice (of_data (ds_file v)) off b\<rparr>\<rparr>)"
  using assms by (simp add: on_file_def file_write_all_at_def)

lemma disk_frame:
  assumes "disk_inv v" "off + length b \<le> length (of_data (ds_file v))"
    and "v' = v\<lparr>ds_file := (ds_file v)\<lparr>of_data := splice (of_data (ds_file v)) off b\<rparr>\<rparr>"
  shows "disk_inv v'" "disk_live v' = disk_live v" "disk_fits v' = disk_fits v" "disk_room v' = disk_room v"
  using assms by (simp_all add: disk_inv_def disk_live_def disk_fits_def disk_room_def file_limit_def fun_eq_iff)

lemma disk_write_law:
  assumes v: "disk_inv v" "i \<in> disk_live v" "length b = BLOCK_SIZE"
  shows "\<exists>v'. disk_write i b v = (Inr (), v') \<and> disk_inv v' \<and> disk_live v' = disk_live v \<and>
    (\<forall>j\<in>disk_live v. disk_data v' j = (if j = i then b else disk_data v j)) \<and> disk_room v' = disk_room v \<and> disk_fits v' = disk_fits v \<and> keeps_super v v'"
proof -
  have i: "disk_offset i = BLOCK_SIZE * unat i" "disk_offset i + BLOCK_SIZE \<le> length (of_data (ds_file v))"
    using disk_offset_ok [OF v(1), of i] v(2) by (simp_all add: disk_live_def)
  let ?v = "v\<lparr>ds_file := (ds_file v)\<lparr>of_data := splice (of_data (ds_file v)) (disk_offset i) b\<rparr>\<rparr>"
  have w: "disk_write i b v = (Inr (), ?v)" using i v(3) by (simp add: disk_write_def on_file_write)
  have d: "disk_data ?v j = (if j = i then b else disk_data v j)" for j
    using i v(3) blocks_disjoint [of i j] rd_splice_other [of "disk_offset i" b "of_data (ds_file v)" "BLOCK_SIZE * unat j" BLOCK_SIZE]
      rd_splice_same [of "disk_offset i" b "of_data (ds_file v)" BLOCK_SIZE]
    by (auto simp: disk_data_def word_unat_eq_iff)
  moreover have "keeps_super v ?v" using d [of 0] v(2) by (auto simp: keeps_super_def disk_live_def)
  ultimately show ?thesis using disk_frame [OF v(1) _ refl, of "disk_offset i" b] i v(3) w by auto
qed

lemma length_super_block: "length fl \<le> 1021 \<Longrightarrow> length (super_block n fl) = BLOCK_SIZE"
  by (simp add: super_block_def SUPER_MAGIC_def BLOCK_SIZE_def length_concat comp_def sum_list_triv)

lemma disk_sync_eq:
  assumes "disk_inv v"
  shows "disk_sync v = (Inr (), v\<lparr>ds_file := (ds_file v)\<lparr>of_data := splice (of_data (ds_file v)) 0 (super_block (ds_next v) (ds_free v))\<rparr>\<rparr>)"
proof -
  have "0 < ds_capacity v" using assms by (auto simp: disk_inv_def)
  then have "1 \<le> unat (ds_capacity v)" by (simp add: word_less_nat_alt Suc_leI)
  then have "BLOCK_SIZE \<le> length (of_data (ds_file v))" using assms by (simp add: disk_inv_def)
  moreover have "length (ds_free v) \<le> 1021" using assms by (simp add: disk_inv_def)
  ultimately show ?thesis
    using length_super_block [of "ds_free v" "ds_next v"]
    by (simp add: disk_sync_def write_superblock_def on_file_write Let_def) (simp add: BLOCK_SIZE_def)
qed

lemma disk_sync_law:
  assumes v: "disk_inv v"
  shows "\<exists>v'. disk_sync v = (Inr (), v') \<and> disk_inv v' \<and> disk_live v' = disk_live v \<and>
    (\<forall>j\<in>disk_live v. disk_data v' j = disk_data v j) \<and> disk_room v' = disk_room v \<and> disk_fits v' = disk_fits v"
proof -
  let ?b = "super_block (ds_next v) (ds_free v)"
  let ?v = "v\<lparr>ds_file := (ds_file v)\<lparr>of_data := splice (of_data (ds_file v)) 0 ?b\<rparr>\<rparr>"
  have b: "length ?b = BLOCK_SIZE" using v by (intro length_super_block) (simp add: disk_inv_def)
  have le: "0 + length ?b \<le> length (of_data (ds_file v))"
    using disk_offset_ok [OF v, of 0] v by (simp add: b disk_inv_def disk_offset_def)
  have "disk_data ?v j = disk_data v j" if "j \<in> disk_live v" for j
  proof -
    have "BLOCK_SIZE \<le> BLOCK_SIZE * unat j" using that by (simp add: disk_live_def word_less_nat_alt)
    then show ?thesis using le b by (simp add: disk_data_def rd_splice_other)
  qed
  then show ?thesis using disk_frame [OF v le refl] by (simp add: disk_sync_eq [OF v])
qed

lemma disk_live_fits:
  assumes v: "disk_inv v" "i \<in> disk_live v"
  shows "disk_fits v i"
proof -
  have i: "0 < i" "unat i < unat (ds_capacity v)" "unat (ds_capacity v) \<le> 2 ^ 50" "i \<notin> set (ds_free v)"
    using v by (auto simp: disk_inv_def disk_live_def word_less_nat_alt word_le_nat_alt)
  have "ds_capacity v \<noteq> 1" using i(1,2) by (auto simp: word_less_nat_alt)
  then have "16 dvd unat (ds_capacity v)" using v(1) by (simp add: disk_inv_def)
  then have "chunk_end (Suc (unat i)) \<le> unat (ds_capacity v)" using i(2) by (intro chunk_end_least) simp_all
  then have "BLOCK_SIZE * chunk_end (Suc (unat i)) \<le> BLOCK_SIZE * unat (ds_capacity v)" by (rule mult_le_mono2)
  then show ?thesis using i v(1) by (simp add: disk_fits_def disk_inv_def file_limit_def le_max_iff_disj)
qed

text \<open>What a superblock reads back.\<close>

lemma drop_concat_be: "drop (8 * i) (concat (map (to_be 8) fl)) = concat (map (to_be 8) (drop i fl))"
proof (induction fl arbitrary: i)
  case (Cons x fl)
  then show ?case by (cases i) simp_all
qed simp

lemma super_block_fields:
  assumes "length fl \<le> 1021"
  shows "rd (super_block n fl) 0 4 = SUPER_MAGIC" "rd (super_block n fl) 4 8 = to_be 8 n"
    "rd (super_block n fl) 12 8 = to_be 8 (word_of_nat (length fl) :: u64)"
    "\<And>i. i < length fl \<Longrightarrow> rd (super_block n fl) (20 + 8 * i) 8 = to_be 8 (fl ! i)"
proof -
  have m: "length SUPER_MAGIC = 4" by (simp add: SUPER_MAGIC_def)
  show "rd (super_block n fl) 0 4 = SUPER_MAGIC" "rd (super_block n fl) 4 8 = to_be 8 n"
    "rd (super_block n fl) 12 8 = to_be 8 (word_of_nat (length fl) :: u64)"
    using m by (simp_all add: rd_def super_block_def)
  show "rd (super_block n fl) (20 + 8 * i) 8 = to_be 8 (fl ! i)" if i: "i < length fl" for i
  proof -
    have "drop (20 + 8 * i) (super_block n fl) = drop (8 * i) (concat (map (to_be 8) fl) @
        replicate (BLOCK_SIZE - (20 + 8 * length fl)) 0)"
      using m by (simp add: super_block_def)
    also have "\<dots> = to_be 8 (fl ! i) @ concat (map (to_be 8) (drop (Suc i) fl)) @ replicate (BLOCK_SIZE - (20 + 8 * length fl)) 0"
      using i by (simp add: drop_concat_be length_concat comp_def sum_list_triv flip: Cons_nth_drop_Suc)
    finally show ?thesis by (simp add: rd_def)
  qed
qed

lemma read_superblock_ok:
  assumes "length fl \<le> 1021" "rd (of_data f) 0 BLOCK_SIZE = super_block n fl" "BLOCK_SIZE \<le> length (of_data f)"
  shows "read_superblock f = Inr (n, fl)"
proof -
  have "map (\<lambda>i. from_be (rd (super_block n fl) (20 + 8 * i) 8)) [0..<length fl] = fl"
    using super_block_fields(4) [OF assms(1)] by (intro nth_equalityI) simp_all
  moreover have "file_read_exact_at BLOCK_SIZE 0 f = Inr (super_block n fl)"
    using assms(2,3) by (simp add: file_read_exact_at_def)
  moreover have "20 + 8 * length fl \<le> BLOCK_SIZE" "length fl < 2 ^ 64" using assms(1) by (simp_all add: BLOCK_SIZE_def)
  ultimately show ?thesis
    using super_block_fields(1-3) [OF assms(1), of n] by (simp add: read_superblock_def Let_def)
qed

lemma sync_super:
  assumes v: "disk_inv v" "disk_sync v = (Inr (), v')"
  shows "read_superblock (ds_file v') = Inr (ds_next v, ds_free v)"
proof -
  have fl: "length (ds_free v) \<le> 1021" using v(1) by (simp add: disk_inv_def)
  then have b: "length (super_block (ds_next v) (ds_free v)) = BLOCK_SIZE" by (rule length_super_block)
  have "v' = v\<lparr>ds_file := (ds_file v)\<lparr>of_data := splice (of_data (ds_file v)) 0 (super_block (ds_next v) (ds_free v))\<rparr>\<rparr>"
    using v(2) disk_sync_eq [OF v(1)] by simp
  then show ?thesis using disk_size [OF v(1)] b by (intro read_superblock_ok fl) (simp_all add: rd_splice_same)
qed

lemma disk_read_data:
  "disk_inv v \<Longrightarrow> i \<in> disk_live v \<Longrightarrow> disk_read i v = Inr (disk_data v i) \<and> length (disk_data v i) = BLOCK_SIZE"
  using disk_offset_ok [of v i]
  by (simp add: disk_read_def disk_data_def file_read_exact_at_def disk_live_def length_rd)

lemma disk_sync_ok:
  assumes v: "disk_ok v"
  shows "\<exists>v'. disk_sync v = (Inr (), v') \<and> disk_ok v' \<and> disk_live v' = disk_live v \<and>
    (\<forall>j\<in>disk_live v. disk_data v' j = disk_data v j) \<and> disk_room v' = disk_room v \<and> disk_fits v' = disk_fits v \<and> disk_live v \<subseteq> disk_dur v'"
proof -
  have inv: "disk_inv v" using v by (simp add: disk_ok_def)
  obtain v' where v': "disk_sync v = (Inr (), v')" "disk_inv v'" "disk_live v' = disk_live v"
    "\<forall>j\<in>disk_live v. disk_data v' j = disk_data v j" "disk_room v' = disk_room v" "disk_fits v' = disk_fits v"
    using disk_sync_law [OF inv] by blast
  note r = sync_super [OF inv v'(1)]
  have "ds_next v' = ds_next v" using v'(1) by (auto simp: disk_sync_eq [OF inv])
  then have "super_ok v'" using inv by (auto simp: super_ok_def r disk_inv_def)
  moreover have "disk_dur v' = disk_live v" by (simp add: disk_dur_def r disk_live_def)
  ultimately show ?thesis using v' by (auto simp: disk_ok_def)
qed

interpretation disk: block_store disk_ops disk_ok disk_live disk_data disk_room disk_fits disk_dur
proof unfold_locales
  fix v
  assume v: "disk_ok v" "disk_room v"
  then show "\<exists>i v'. bs_allocate disk_ops v = (Inr i, v') \<and> disk_ok v' \<and> i \<noteq> 0 \<and> i \<notin> disk_live v \<and>
      disk_live v' = insert i (disk_live v) \<and> (\<forall>j\<in>disk_live v. disk_data v' j = disk_data v j) \<and> disk_dur v \<subseteq> disk_dur v'"
    using disk_allocate_law [of v] keeps_superD [OF v(1)] by (auto simp: disk_ops_def disk_ok_def)
next
  fix v i and b :: bytes
  assume v: "disk_ok v" "i \<in> disk_live v" "length b = BLOCK_SIZE"
  then show "\<exists>v'. bs_write disk_ops i b v = (Inr (), v') \<and> disk_ok v' \<and> disk_live v' = disk_live v \<and>
      (\<forall>j\<in>disk_live v. disk_data v' j = (if j = i then b else disk_data v j)) \<and> disk_room v' = disk_room v \<and>
      disk_fits v' = disk_fits v \<and> disk_dur v \<subseteq> disk_dur v'"
    using disk_write_law [of v i b] keeps_superD [OF v(1)] by (auto simp: disk_ops_def disk_ok_def)
next
  fix v i
  assume v: "disk_ok v" "disk_fits v i"
  then show "\<exists>v'. bs_ensure_allocated disk_ops i v = (Inr (), v') \<and> disk_ok v' \<and> insert i (disk_live v) \<subseteq> disk_live v' \<and>
      (\<forall>j\<in>disk_live v. disk_data v' j = disk_data v j) \<and> disk_fits v' = disk_fits v \<and> disk_dur v \<subseteq> disk_dur v'"
    using disk_ensure_law [of v i] keeps_superD [OF v(1)] by (auto simp: disk_ops_def disk_ok_def)
next
  fix v i
  assume "disk_ok v" "i \<in> disk_live v"
  then have v: "disk_inv v" "i \<in> disk_live v" by (simp_all add: disk_ok_def)
  then show "bs_read disk_ops i v = Inr (disk_data v i) \<and> length (disk_data v i) = BLOCK_SIZE"
    using disk_read_data [OF v] by (simp add: disk_ops_def)
qed (use disk_sync_ok disk_live_fits in \<open>simp_all add: disk_ops_def disk_ok_def\<close>)

section \<open>Opening a file store\<close>

lemma disk_open_fresh:
  assumes "BLOCK_SIZE \<le> n"
  obtains v where "disk_open \<lparr>of_data = [], of_space = n\<rparr> = Inr v" "disk_inv v" "disk_live v = {}" "ds_free v = []"
    "file_limit (ds_file v) = n" "ds_next v = 1" "read_superblock (ds_file v) = Inr (1, [])"
proof -
  let ?v0 = "\<lparr>ds_file = \<lparr>of_data = [], of_space = n\<rparr>, ds_next = 1, ds_capacity = 0, ds_free = []\<rparr>"
  let ?v1 = "\<lparr>ds_file = \<lparr>of_data = replicate BLOCK_SIZE 0, of_space = n\<rparr>, ds_next = 1, ds_capacity = 1, ds_free = []\<rparr>"
  have s: "set_capacity 1 ?v0 = (Inr (), ?v1)"
    using set_capacity_ok [of 1 ?v0] assms by (simp add: file_limit_def)
  have inv: "disk_inv ?v1" by (simp add: disk_inv_def)
  obtain v where v: "disk_sync ?v1 = (Inr (), v)" "disk_inv v" "disk_live v = disk_live ?v1"
      "ds_free v = []" "file_limit (ds_file v) = file_limit (ds_file ?v1)" "ds_next v = 1"
    using disk_sync_eq [OF inv] disk_frame(1,2) [OF inv _ refl, of 0 "super_block 1 []"] length_super_block [of "[]" 1]
    by (simp add: file_limit_def)
  have "disk_live ?v1 = {}" by (auto simp: disk_live_def word_less_nat_alt)
  then show thesis
    using that [of v] v s assms sync_super [OF inv v(1)] by (simp add: disk_open_def file_size_def disk_sync_def file_limit_def)
qed

lemma disk_reopen:
  assumes v: "disk_inv v"
  obtains v' where "disk_sync v = (Inr (), v')" "disk_open (ds_file v') = Inr v'" "disk_inv v'" "disk_live v' = disk_live v"
    "\<forall>j\<in>disk_live v. disk_data v' j = disk_data v j"
proof -
  let ?b = "super_block (ds_next v) (ds_free v)"
  let ?v = "v\<lparr>ds_file := (ds_file v)\<lparr>of_data := splice (of_data (ds_file v)) 0 ?b\<rparr>\<rparr>"
  have fl: "length (ds_free v) \<le> 1021" using v by (simp add: disk_inv_def)
  have b: "length ?b = BLOCK_SIZE" by (rule length_super_block [OF fl])
  have le: "length ?b \<le> length (of_data (ds_file v))"
    using disk_offset_ok [OF v, of 0] v by (simp add: b disk_inv_def disk_offset_def)
  have len: "length (of_data (ds_file ?v)) = BLOCK_SIZE * unat (ds_capacity v)"
    using le v by (simp add: disk_inv_def)
  have "read_superblock (ds_file ?v) = Inr (ds_next v, ds_free v)"
    using le b by (intro read_superblock_ok fl) (simp_all add: rd_splice_same)
  moreover have "word_of_nat (length (of_data (ds_file ?v))) div word_of_nat BLOCK_SIZE = ds_capacity v"
  proof -
    have c: "unat (ds_capacity v) \<le> 2 ^ 50" using v by (simp add: disk_inv_def)
    have "unat (word_of_nat (length (of_data (ds_file ?v))) :: u64) = BLOCK_SIZE * unat (ds_capacity v)"
      unfolding len by (rule unat_of_len) (use c in \<open>simp add: BLOCK_SIZE_def\<close>)
    then show ?thesis by (simp add: word_unat_eq_iff unat_div BLOCK_SIZE_def)
  qed
  moreover have "length (of_data (ds_file ?v)) \<noteq> 0" using le b len by (simp add: BLOCK_SIZE_def)
  ultimately have "disk_open (ds_file ?v) = Inr ?v" by (simp add: disk_open_def file_size_def)
  moreover obtain v' where "disk_sync v = (Inr (), v')" "disk_inv v'" "disk_live v' = disk_live v"
      "\<forall>j\<in>disk_live v. disk_data v' j = disk_data v j"
    using disk_sync_law [OF v] by blast
  moreover from this have "v' = ?v" using disk_sync_eq [OF v] by simp
  ultimately show thesis using that by simp
qed

section \<open>Stores from which nothing is freed\<close>

text \<open>The heap never frees a page, so its store has an empty free list, in memory and in the
  superblock. Recovery depends on it: claiming an id does not take it off a free list.\<close>

definition disk_plain :: "disk_store \<Rightarrow> bool" where
  "disk_plain v \<longleftrightarrow> disk_ok v \<and> ds_free v = [] \<and> (\<exists>n. read_superblock (ds_file v) = Inr (n, []))"

lemma plain_keeps:
  assumes "disk_plain v" "disk_inv v'" "keeps_super v v'" "ds_free v' = []"
  shows "disk_plain v'" "disk_dur v \<subseteq> disk_dur v'"
proof -
  have v: "disk_ok v" using assms(1) by (simp add: disk_plain_def)
  have "read_superblock (ds_file v') = read_superblock (ds_file v)"
    using v assms(2,3) by (intro read_superblock_data) (simp_all add: disk_ok_def keeps_super_def)
  then show "disk_plain v'" "disk_dur v \<subseteq> disk_dur v'"
    using keeps_superD [OF v assms(2,3)] assms(1,4) by (simp_all add: disk_plain_def)
qed

lemma on_file_free: "on_file err m v = (r, v') \<Longrightarrow> ds_free v' = ds_free v"
  by (auto simp: on_file_def split: prod.splits)

lemma ensure_capacity_free: "ensure_capacity n v = (r, v') \<Longrightarrow> ds_free v' = ds_free v"
  by (auto simp: ensure_capacity_def set_capacity_def st_bind_def split: if_splits prod.splits sum.splits dest: on_file_free)

lemma plain_free:
  "disk_plain v \<Longrightarrow> disk_allocate v = (r, v') \<Longrightarrow> ds_free v' = []"
  "disk_plain v \<Longrightarrow> disk_ensure_allocated i v = (q, v') \<Longrightarrow> ds_free v' = []"
  "disk_plain v \<Longrightarrow> disk_write i b v = (q, v') \<Longrightarrow> ds_free v' = []"
  by (auto simp: disk_plain_def disk_allocate_def disk_ensure_allocated_def disk_write_def st_bind_def
      split: prod.splits sum.splits if_splits dest: ensure_capacity_free on_file_free)

lemma plain_sync:
  assumes "disk_plain v" "disk_sync v = (Inr (), v')" "disk_ok v'"
  shows "disk_plain v'"
proof -
  have v: "disk_inv v" "ds_free v = []" using assms(1) by (simp_all add: disk_plain_def disk_ok_def)
  have "ds_free v' = ds_free v" using assms(2) by (auto simp: disk_sync_eq [OF v(1)])
  then show ?thesis using sync_super [OF v(1) assms(2)] v(2) assms(3) by (simp add: disk_plain_def)
qed

interpretation plain: block_store disk_ops disk_plain disk_live disk_data disk_room disk_fits disk_dur
proof unfold_locales
  fix v
  assume v: "disk_plain v" "disk_room v"
  then have inv: "disk_inv v" by (simp add: disk_plain_def disk_ok_def)
  obtain i v' where w: "disk_allocate v = (Inr i, v')" "disk_inv v'" "i \<noteq> 0" "i \<notin> disk_live v"
      "disk_live v' = insert i (disk_live v)" "\<forall>j\<in>disk_live v. disk_data v' j = disk_data v j" "keeps_super v v'"
    using disk_allocate_law [OF inv v(2)] by (elim exE conjE) (rule that; assumption)
  show "\<exists>i v'. bs_allocate disk_ops v = (Inr i, v') \<and> disk_plain v' \<and> i \<noteq> 0 \<and> i \<notin> disk_live v \<and>
      disk_live v' = insert i (disk_live v) \<and> (\<forall>j\<in>disk_live v. disk_data v' j = disk_data v j) \<and> disk_dur v \<subseteq> disk_dur v'"
    using w plain_keeps [OF v(1) w(2,7) plain_free(1) [OF v(1) w(1)]] by (intro exI [of _ i] exI [of _ v']) (simp add: disk_ops_def)
next
  fix v i and b :: bytes
  assume v: "disk_plain v" "i \<in> disk_live v" "length b = BLOCK_SIZE"
  then have inv: "disk_inv v" by (simp add: disk_plain_def disk_ok_def)
  obtain v' where w: "disk_write i b v = (Inr (), v')" "disk_inv v'" "disk_live v' = disk_live v"
      "\<forall>j\<in>disk_live v. disk_data v' j = (if j = i then b else disk_data v j)" "disk_room v' = disk_room v"
      "disk_fits v' = disk_fits v" "keeps_super v v'"
    using disk_write_law [OF inv v(2,3)] by (elim exE conjE) (rule that; assumption)
  show "\<exists>v'. bs_write disk_ops i b v = (Inr (), v') \<and> disk_plain v' \<and> disk_live v' = disk_live v \<and>
      (\<forall>j\<in>disk_live v. disk_data v' j = (if j = i then b else disk_data v j)) \<and> disk_room v' = disk_room v \<and>
      disk_fits v' = disk_fits v \<and> disk_dur v \<subseteq> disk_dur v'"
    using w plain_keeps [OF v(1) w(2,7) plain_free(3) [OF v(1) w(1)]] by (intro exI [of _ v']) (simp add: disk_ops_def)
next
  fix v i
  assume v: "disk_plain v" "disk_fits v i"
  then have inv: "disk_inv v" by (simp add: disk_plain_def disk_ok_def)
  obtain v' where w: "disk_ensure_allocated i v = (Inr (), v')" "disk_inv v'" "insert i (disk_live v) \<subseteq> disk_live v'"
      "\<forall>j\<in>disk_live v. disk_data v' j = disk_data v j" "disk_fits v' = disk_fits v" "keeps_super v v'"
    using disk_ensure_law [OF inv v(2)] by (elim exE conjE) (rule that; assumption)
  show "\<exists>v'. bs_ensure_allocated disk_ops i v = (Inr (), v') \<and> disk_plain v' \<and> insert i (disk_live v) \<subseteq> disk_live v' \<and>
      (\<forall>j\<in>disk_live v. disk_data v' j = disk_data v j) \<and> disk_fits v' = disk_fits v \<and> disk_dur v \<subseteq> disk_dur v'"
    using w plain_keeps [OF v(1) w(2,6) plain_free(2) [OF v(1) w(1)]] by (intro exI [of _ v']) (simp add: disk_ops_def)
next
  fix v
  assume v: "disk_plain v"
  then have ok: "disk_ok v" by (simp add: disk_plain_def)
  obtain v' where w: "disk_sync v = (Inr (), v')" "disk_ok v'" "disk_live v' = disk_live v"
      "\<forall>j\<in>disk_live v. disk_data v' j = disk_data v j" "disk_room v' = disk_room v" "disk_fits v' = disk_fits v" "disk_live v \<subseteq> disk_dur v'"
    using disk_sync_ok [OF ok] by (elim exE conjE) (rule that; assumption)
  show "\<exists>v'. bs_sync disk_ops v = (Inr (), v') \<and> disk_plain v' \<and> disk_live v' = disk_live v \<and>
      (\<forall>j\<in>disk_live v. disk_data v' j = disk_data v j) \<and> disk_room v' = disk_room v \<and> disk_fits v' = disk_fits v \<and> disk_live v \<subseteq> disk_dur v'"
    using w plain_sync [OF v w(1,2)] by (intro exI [of _ v']) (simp add: disk_ops_def)
next
  fix v i
  assume "disk_plain v" "i \<in> disk_live v"
  then have v: "disk_inv v" "i \<in> disk_live v" by (simp_all add: disk_plain_def disk_ok_def)
  then show "bs_read disk_ops i v = Inr (disk_data v i) \<and> length (disk_data v i) = BLOCK_SIZE" "disk_fits v i"
    using disk_read_data [OF v] disk_live_fits [OF v] by (simp_all add: disk_ops_def)
qed

text \<open>The file a crash leaves while the blocks of \<open>D\<close> and the superblock are being written: the
  blocks of \<open>D\<close> hold anything, the superblock is the old or the new one.\<close>

definition torn_file :: "u64 set \<Rightarrow> disk_store \<Rightarrow> os_file \<Rightarrow> bool" where
  "torn_file D v f \<longleftrightarrow> of_space f = of_space (ds_file v) \<and> length (of_data f) = length (of_data (ds_file v)) \<and>
    rd (of_data f) 0 BLOCK_SIZE \<in> {disk_data v 0, super_block (ds_next v) (ds_free v)} \<and>
    (\<forall>i. 0 < i \<and> i < ds_next v \<and> i \<notin> D \<longrightarrow> rd (of_data f) (BLOCK_SIZE * unat i) BLOCK_SIZE = disk_data v i)"

lemma torn_file_refl: "torn_file D v (ds_file v)"
  by (simp add: torn_file_def disk_data_def)

lemma torn_open:
  assumes v: "disk_plain v" and f: "torn_file D v f"
  obtains v' where "disk_open f = Inr v'" "disk_plain v'" "disk_dur v \<subseteq> disk_live v'" "disk_live v' = disk_dur v'"
    "disk_live v \<subseteq> {i. disk_fits v' i}" "disk_live v' \<subseteq> disk_live v" "ds_file v' = f"
    "\<And>i. i \<in> disk_live v' \<Longrightarrow> i \<notin> D \<Longrightarrow> disk_data v' i = disk_data v i"
proof -
  have inv: "disk_inv v" and fr: "ds_free v = []" and sup: "super_ok v" using v by (simp_all add: disk_plain_def disk_ok_def)
  obtain n0 where n0: "read_superblock (ds_file v) = Inr (n0, [])" using v by (auto simp: disk_plain_def)
  then have n0': "0 < n0" "n0 \<le> ds_next v" using sup by (simp_all add: super_ok_def)
  have len: "length (of_data f) = length (of_data (ds_file v))" using f by (simp add: torn_file_def)
  have sz: "BLOCK_SIZE \<le> length (of_data f)" using disk_size [OF inv] len by simp
  obtain n where n: "read_superblock f = Inr (n, [])" "n0 \<le> n" "n \<le> ds_next v"
  proof (cases "rd (of_data f) 0 BLOCK_SIZE = disk_data v 0")
    case True
    then have "read_superblock f = read_superblock (ds_file v)"
      using sz disk_size [OF inv] by (simp add: read_superblock_def file_read_exact_at_def disk_data_def)
    then show thesis using that n0 n0' by simp
  next
    case False
    then have "rd (of_data f) 0 BLOCK_SIZE = super_block (ds_next v) []" using f fr by (simp add: torn_file_def)
    then show thesis using that [of "ds_next v"] read_superblock_ok [of "[]" f "ds_next v"] sz n0' by simp
  qed
  define v' where "v' = \<lparr>ds_file = f, ds_next = n, ds_capacity = ds_capacity v, ds_free = []\<rparr>"
  have pos: "0 < n" using n(2) n0'(1) by (rule order.strict_trans2 [rotated])
  have c: "unat (ds_capacity v) \<le> 2 ^ 50" "length (of_data f) = BLOCK_SIZE * unat (ds_capacity v)"
    using inv len by (simp_all add: disk_inv_def)
  have "unat (word_of_nat (length (of_data f)) :: u64) = BLOCK_SIZE * unat (ds_capacity v)"
    unfolding c(2) by (rule unat_of_len) (use c(1) in \<open>simp add: BLOCK_SIZE_def\<close>)
  then have cap: "word_of_nat (length (of_data f)) div word_of_nat BLOCK_SIZE = ds_capacity v"
    by (simp add: word_unat_eq_iff unat_div BLOCK_SIZE_def)
  have "of_data f \<noteq> []" using sz by (auto simp: BLOCK_SIZE_def)
  then have op: "disk_open f = Inr v'" using n(1) cap by (simp add: disk_open_def file_size_def v'_def)
  have inv': "disk_inv v'" using inv pos n(3) c(2) by (auto simp: disk_inv_def v'_def)
  have "super_ok v'" using n(1) pos by (simp add: super_ok_def v'_def)
  then have pl: "disk_plain v'" using inv' n(1) by (simp add: disk_plain_def disk_ok_def v'_def)
  have lim: "file_limit f = file_limit (ds_file v)" using f by (simp add: torn_file_def file_limit_def)
  show thesis
  proof (rule that [OF op pl])
    show "disk_dur v \<subseteq> disk_live v'" using n(2) by (auto simp: disk_dur_def n0 disk_live_def v'_def)
    show "disk_live v' = disk_dur v'" by (simp add: disk_dur_def disk_live_def v'_def n(1))
    show "disk_live v \<subseteq> {i. disk_fits v' i}" using disk_live_fits [OF inv] lim by (auto simp: disk_fits_def v'_def)
    show "disk_live v' \<subseteq> disk_live v" using n(3) fr by (auto simp: disk_live_def v'_def)
    then show "disk_data v' i = disk_data v i" if "i \<in> disk_live v'" "i \<notin> D" for i
      using that f by (auto simp: torn_file_def disk_data_def v'_def disk_live_def)
  qed (simp add: v'_def)
qed

section \<open>Properties\<close>

text \<open>The states of a store in a file of at most \<open>n\<close> bytes.\<close>

inductive disk_reach :: "nat \<Rightarrow> disk_store \<Rightarrow> bool" for n where
  fresh: "BLOCK_SIZE \<le> n \<Longrightarrow> disk_open \<lparr>of_data = [], of_space = n\<rparr> = Inr v \<Longrightarrow> disk_reach n v"
| alloc: "disk_reach n v \<Longrightarrow> disk_room v \<Longrightarrow> disk_allocate v = (r, v') \<Longrightarrow> disk_reach n v'"
| free: "disk_reach n v \<Longrightarrow> i \<in> disk_live v \<Longrightarrow> length (ds_free v) < 1021 \<Longrightarrow> disk_reach n (disk_free i v)"
| claim: "disk_reach n v \<Longrightarrow> disk_fits v i \<Longrightarrow> disk_ensure_allocated i v = (r, v') \<Longrightarrow> disk_reach n v'"
| put: "disk_reach n v \<Longrightarrow> i \<in> disk_live v \<Longrightarrow> length b = BLOCK_SIZE \<Longrightarrow> disk_write i b v = (r, v') \<Longrightarrow> disk_reach n v'"
| sync: "disk_reach n v \<Longrightarrow> disk_sync v = (r, v') \<Longrightarrow> disk_reach n v'"

lemma disk_reach_inv: "disk_reach n v \<Longrightarrow> disk_inv v"
proof (induction rule: disk_reach.induct)
  case (fresh v)
  then show ?case by (metis disk_open_fresh sum.inject(2))
next
  case (free v i)
  then show ?case by (auto simp: disk_inv_def disk_free_def disk_live_def)
next
  case (alloc v r v')
  then show ?case using disk_allocate_law [of v] by auto
next
  case (claim v i r v')
  then show ?case using disk_ensure_law [of v i] by auto
next
  case (put v i b r v')
  then show ?case using disk_write_law [of v i b] by auto
next
  case (sync v r v')
  then show ?case using disk_sync_law [of v] by auto
qed

text \<open>C27. The file-backed block store. In every state reached from an empty file by
  allocating, freeing, writing and syncing blocks, an allocation hands out an id that
  is not in use and leaves the blocks in use as they are; and a sync leaves a file
  that opens to exactly the same store, high-water mark and free list included, with
  the contents of every block in use.\<close>

theorem disk_store_durable:
  assumes "disk_reach n v"
  shows "(disk_room v \<longrightarrow> (\<exists>i v'. disk_allocate v = (Inr i, v') \<and> i \<noteq> 0 \<and> i \<notin> disk_live v \<and>
      disk_live v' = insert i (disk_live v) \<and> (\<forall>j\<in>disk_live v. disk_read j v' = disk_read j v))) \<and>
    (\<exists>v'. disk_sync v = (Inr (), v') \<and> disk_open (ds_file v') = Inr v' \<and> disk_live v' = disk_live v \<and>
      (\<forall>j\<in>disk_live v. disk_read j v' = disk_read j v))"
proof -
  note inv = disk_reach_inv [OF assms]
  have rd: "disk_read j u = Inr (disk_data u j)" if "disk_inv u" "j \<in> disk_live u" for j u
    using disk_read_data that by blast
  have "disk_read j v' = disk_read j v"
    if "disk_inv v'" "disk_live v \<subseteq> disk_live v'" "\<forall>j\<in>disk_live v. disk_data v' j = disk_data v j" "j \<in> disk_live v" for j v'
    using rd [OF inv] rd [OF that(1)] that by auto
  note keep = this
  have "\<exists>i v'. disk_allocate v = (Inr i, v') \<and> i \<noteq> 0 \<and> i \<notin> disk_live v \<and>
      disk_live v' = insert i (disk_live v) \<and> (\<forall>j\<in>disk_live v. disk_read j v' = disk_read j v)" if rm: "disk_room v"
  proof -
    obtain i v' where v': "disk_allocate v = (Inr i, v')" "disk_inv v'" "i \<noteq> 0" "i \<notin> disk_live v" "disk_live v' = insert i (disk_live v)"
        "\<forall>j\<in>disk_live v. disk_data v' j = disk_data v j"
      using disk_allocate_law [OF inv rm] by blast
    have "disk_read j v' = disk_read j v" if "j \<in> disk_live v" for j
      by (rule keep [OF v'(2) _ v'(6) that]) (simp add: v'(5) subset_insertI)
    then show ?thesis using v' by blast
  qed
  moreover obtain v' where "disk_sync v = (Inr (), v')" "disk_open (ds_file v') = Inr v'" "disk_inv v'" "disk_live v' = disk_live v"
    "\<forall>j\<in>disk_live v. disk_data v' j = disk_data v j"
    using disk_reopen [OF inv] by blast
  ultimately show ?thesis using keep [of v'] by blast
qed

theorem disk_store_durable_witness:
  "\<exists>v. disk_open \<lparr>of_data = [], of_space = 131072\<rparr> = Inr v \<and>
    (\<exists>i v'. disk_allocate v = (Inr i, v') \<and> i \<noteq> 0 \<and> i \<notin> disk_live v \<and> disk_live v' = insert i (disk_live v)) \<and>
    (\<exists>v'. disk_sync v = (Inr (), v') \<and> disk_open (ds_file v') = Inr v' \<and> disk_live v' = disk_live v)"
proof -
  have n: "BLOCK_SIZE \<le> 131072" by (simp add: BLOCK_SIZE_def)
  obtain v where v: "disk_open \<lparr>of_data = [], of_space = 131072\<rparr> = Inr v" "ds_free v = []"
      "file_limit (ds_file v) = 131072" "ds_next v = 1"
    using disk_open_fresh [OF n] by blast
  have "disk_room v" using v(2-4) by (simp add: disk_room_def disk_fits_def chunk_end_def BLOCK_SIZE_def)
  then show ?thesis
    using disk_store_durable [OF disk_reach.fresh [OF n v(1)]] v(1) by blast
qed

end
