(* ===== verification/Page_Cache.thy ===== *)
theory Page_Cache
  imports Block_Store Policies
begin

text \<open>
  The page cache of \<^verbatim>\<open>src/crates/filesystem/src/cache/mod.rs\<close> and its redo journal
  (\<^verbatim>\<open>block/journal.rs\<close>): a pool of frames over a block store, with pins, latches, eviction of
  clean frames only, and a flush that logs the images of all dirty pages and a commit
  marker before it writes them. The store, the eviction policy and the two checksum
  functions are the fields of \<open>env\<close>, as the type parameters and trait objects of the
  code. A handle (\<open>ReadPage\<close>, \<open>WritePage\<close>) is the number of its frame: a frame is not
  reused while it is pinned, so the handle's shared buffer is the frame's. Dropping a
  handle is \<open>release_read\<close> or \<open>release_write\<close>. A failing journal append is fail-stop in the
  code and does not occur here.
\<close>

section \<open>Definitions\<close>

subsection \<open>The page journal\<close>

datatype journal_op = JWrite u64 bytes | JCommit

definition TAG_WRITE :: u8 where "TAG_WRITE = 1"
definition TAG_COMMIT :: u8 where "TAG_COMMIT = 2"

fun page_op_encode :: "journal_op \<Rightarrow> bytes" where
  "page_op_encode (JWrite i img) = TAG_WRITE # to_be 8 i @ img"
| "page_op_encode JCommit = [TAG_COMMIT]"

definition page_op_decode :: "bytes \<Rightarrow> page_msg journal_error + journal_op" where
  "page_op_decode bs =
    (case bs of
       [] \<Rightarrow> Inl (JournalDecode (UnknownTag None))
     | t # rest \<Rightarrow>
         if t = TAG_WRITE then
           (if length bs < 9 then Inl (JournalDecode (WriteTooShort (length bs)))
            else Inr (JWrite (from_be (take 8 rest)) (drop 8 rest)))
         else if t = TAG_COMMIT then Inr JCommit
         else Inl (JournalDecode (UnknownTag (Some t))))"

definition block_journal_open :: "bytes option \<Rightarrow> fs_error + journal" where
  "block_journal_open path = map_err FsJournal (with_codec path)"

definition block_journal_append :: "(bytes \<Rightarrow> u32) \<Rightarrow> journal_op \<Rightarrow> journal \<Rightarrow> journal" where
  "block_journal_append jcrc op j = append_rec jcrc page_op_encode op j"

definition block_journal_replay :: "(bytes \<Rightarrow> u32) \<Rightarrow> journal \<Rightarrow> fs_error + journal_op list" where
  "block_journal_replay jcrc j = map_err FsJournal (collect_res (replay jcrc page_op_decode j))"

subsection \<open>The pool\<close>

record frame =
  fr_page :: "u64 option"
  fr_buf :: bytes
  fr_readers :: nat
  fr_writer :: bool
  fr_dirty :: bool

definition frame_new :: frame where
  "frame_new = \<lparr>fr_page = None, fr_buf = block_zeroed, fr_readers = 0, fr_writer = False, fr_dirty = False\<rparr>"

record 'p policy_ops =
  ep_access :: "nat \<Rightarrow> 'p \<Rightarrow> 'p"
  ep_candidate :: "(nat \<Rightarrow> bool) \<Rightarrow> 'p \<Rightarrow> nat option \<times> 'p"
  ep_remove :: "nat \<Rightarrow> 'p \<Rightarrow> 'p"

record ('v, 'p) cache_env =
  env_store :: "'v store_ops"
  env_policy :: "'p policy_ops"
  env_crc :: crc_ops
  env_jcrc :: "bytes \<Rightarrow> u32"

record ('v, 'p) pool =
  pc_block :: 'v
  pc_frames :: "frame list"
  pc_table :: "u64 \<rightharpoonup> nat"
  pc_free :: "nat list"
  pc_policy :: 'p
  pc_journal :: "journal option"

definition upd_frame :: "nat \<Rightarrow> (frame \<Rightarrow> frame) \<Rightarrow> ('v, 'p) pool \<Rightarrow> ('v, 'p) pool" where
  "upd_frame f g c = c\<lparr>pc_frames := (pc_frames c)[f := g (pc_frames c ! f)]\<rparr>"

text \<open>An operation of the store inside the pool.\<close>

definition on_block :: "('v, fs_error, 'a) op \<Rightarrow> (('v, 'p) pool, fs_error, 'a) op" where
  "on_block m c = (let (r, v) = m (pc_block c) in (r, c\<lparr>pc_block := v\<rparr>))"

subsection \<open>Flushing\<close>

definition dirty_frames :: "('v, 'p) pool \<Rightarrow> nat list" where
  "dirty_frames c = filter (\<lambda>f. fr_dirty (pc_frames c ! f) \<and> fr_page (pc_frames c ! f) \<noteq> None) [0..<length (pc_frames c)]"

definition finalize_frame :: "('v, 'p) cache_env \<Rightarrow> nat \<Rightarrow> (('v, 'p) pool, fs_error, unit) op" where
  "finalize_frame env f c =
    (case finalize_checksum (env_crc env) (fr_buf (pc_frames c ! f)) of
       Inl e \<Rightarrow> (Inl e, c)
     | Inr b \<Rightarrow> (Inr (), upd_frame f (\<lambda>fr. fr\<lparr>fr_buf := b\<rparr>) c))"

definition images :: "nat list \<Rightarrow> ('v, 'p) pool \<Rightarrow> (u64 \<times> bytes) list" where
  "images dirty c = map (\<lambda>f. (the (fr_page (pc_frames c ! f)), fr_buf (pc_frames c ! f))) dirty"

definition log_images :: "('v, 'p) cache_env \<Rightarrow> nat list \<Rightarrow> ('v, 'p) pool \<Rightarrow> ('v, 'p) pool" where
  "log_images env dirty c =
    c\<lparr>pc_journal := map_option (\<lambda>j. block_journal_append (env_jcrc env) JCommit
        (fold (\<lambda>(i, img). block_journal_append (env_jcrc env) (JWrite i img)) (images dirty c) j)) (pc_journal c)\<rparr>"

definition write_back :: "('v, 'p) cache_env \<Rightarrow> nat \<Rightarrow> (('v, 'p) pool, fs_error, unit) op" where
  "write_back env f c =
    st_bind (on_block (bs_write (env_store env) (the (fr_page (pc_frames c ! f))) (fr_buf (pc_frames c ! f)))) (\<lambda>_ c.
      (Inr (), upd_frame f (\<lambda>fr. fr\<lparr>fr_dirty := False\<rparr>) c)) c"

definition pc_flush :: "('v, 'p) cache_env \<Rightarrow> (('v, 'p) pool, fs_error, unit) op" where
  "pc_flush env c =
    (let dirty = dirty_frames c in
     if dirty = [] then (Inr (), c)
     else st_bind (st_iter (finalize_frame env) dirty) (\<lambda>_ c.
       st_bind (st_iter (write_back env) dirty) (\<lambda>_.
       st_bind (on_block (bs_sync (env_store env))) (\<lambda>_ c.
         (Inr (), c\<lparr>pc_journal := map_option truncate_log (pc_journal c)\<rparr>)))
       (log_images env dirty c)) c)"

subsection \<open>Frames\<close>

definition unpinned :: "frame \<Rightarrow> bool" where
  "unpinned fr \<longleftrightarrow> fr_readers fr = 0 \<and> \<not> fr_writer fr"

definition pick_evictable :: "('v, 'p) cache_env \<Rightarrow> bool \<Rightarrow> ('v, 'p) pool \<Rightarrow> nat option \<times> ('v, 'p) pool" where
  "pick_evictable env clean_only c =
    (let (r, p) = ep_candidate (env_policy env)
       (\<lambda>f. unpinned (pc_frames c ! f) \<and> (\<not> clean_only \<or> \<not> fr_dirty (pc_frames c ! f))) (pc_policy c) in
     (r, c\<lparr>pc_policy := p\<rparr>))"

definition reclaim :: "('v, 'p) cache_env \<Rightarrow> nat \<Rightarrow> ('v, 'p) pool \<Rightarrow> ('v, 'p) pool" where
  "reclaim env f c =
    upd_frame f (\<lambda>fr. fr\<lparr>fr_page := None, fr_readers := 0, fr_writer := False, fr_dirty := False\<rparr>)
      (c\<lparr>pc_table := (case fr_page (pc_frames c ! f) of None \<Rightarrow> pc_table c | Some old \<Rightarrow> (pc_table c)(old := None)),
         pc_policy := ep_remove (env_policy env) f (pc_policy c)\<rparr>)"

definition victim_frame :: "('v, 'p) cache_env \<Rightarrow> (('v, 'p) pool, fs_error, nat) op" where
  "victim_frame env c =
    (if pc_free c \<noteq> [] then (Inr (last (pc_free c)), c\<lparr>pc_free := butlast (pc_free c)\<rparr>)
     else case pick_evictable env True c of
       (Some f, c) \<Rightarrow> (Inr f, reclaim env f c)
     | (None, c) \<Rightarrow>
         if \<not> (\<exists>fr\<in>set (pc_frames c). unpinned fr \<and> fr_dirty fr)
         then (Inl (PoolExhausted (length (pc_frames c))), c)
         else st_bind (pc_flush env) (\<lambda>_ c.
           case pick_evictable env False c of
             (Some f, c) \<Rightarrow> (Inr f, reclaim env f c)
           | (None, c) \<Rightarrow> (Inl (PoolExhausted (length (pc_frames c))), c)) c)"

definition load_page :: "('v, 'p) cache_env \<Rightarrow> nat \<Rightarrow> u64 \<Rightarrow> (('v, 'p) pool, fs_error, unit) op" where
  "load_page env f i c =
    (case bs_read (env_store env) i (pc_block c) of
       Inl e \<Rightarrow> (Inl e, c)
     | Inr b \<Rightarrow> (verify_checksum (env_crc env) b i, upd_frame f (\<lambda>fr. fr\<lparr>fr_buf := b\<rparr>) c))"

text \<open>A frame with a page in it enters the table.\<close>

definition install :: "('v, 'p) cache_env \<Rightarrow> nat \<Rightarrow> u64 \<Rightarrow> (frame \<Rightarrow> frame) \<Rightarrow> ('v, 'p) pool \<Rightarrow> ('v, 'p) pool" where
  "install env f i g c =
    (let c = upd_frame f (\<lambda>fr. g (fr\<lparr>fr_page := Some i\<rparr>)) c in
     c\<lparr>pc_table := (pc_table c)(i \<mapsto> f), pc_policy := ep_access (env_policy env) f (pc_policy c)\<rparr>)"

text \<open>The miss path shared by the two acquires: a frame is claimed and loaded; when the load
  fails, the frame goes back to the free list.\<close>

definition fault_in :: "('v, 'p) cache_env \<Rightarrow> u64 \<Rightarrow> (frame \<Rightarrow> frame) \<Rightarrow> (('v, 'p) pool, fs_error, nat) op" where
  "fault_in env i g =
    st_bind (victim_frame env) (\<lambda>f c.
      case load_page env f i c of
        (Inl e, c) \<Rightarrow> (Inl e, c\<lparr>pc_free := pc_free c @ [f]\<rparr>)
      | (Inr _, c) \<Rightarrow> (Inr f, install env f i g c))"

definition acquire_read :: "('v, 'p) cache_env \<Rightarrow> u64 \<Rightarrow> (('v, 'p) pool, fs_error, nat) op" where
  "acquire_read env i c =
    (case pc_table c i of
       Some f \<Rightarrow>
         if fr_writer (pc_frames c ! f) then (Inl (Busy i), c)
         else (Inr f, (upd_frame f (\<lambda>fr. fr\<lparr>fr_readers := fr_readers fr + 1\<rparr>) c)
           \<lparr>pc_policy := ep_access (env_policy env) f (pc_policy c)\<rparr>)
     | None \<Rightarrow> fault_in env i (\<lambda>fr. fr\<lparr>fr_readers := 1\<rparr>) c)"

definition acquire_write :: "('v, 'p) cache_env \<Rightarrow> u64 \<Rightarrow> (('v, 'p) pool, fs_error, nat) op" where
  "acquire_write env i c =
    (case pc_table c i of
       Some f \<Rightarrow>
         if fr_writer (pc_frames c ! f) \<or> fr_readers (pc_frames c ! f) > 0 then (Inl (Busy i), c)
         else (Inr f, (upd_frame f (\<lambda>fr. fr\<lparr>fr_writer := True\<rparr>) c)
           \<lparr>pc_policy := ep_access (env_policy env) f (pc_policy c)\<rparr>)
     | None \<Rightarrow> fault_in env i (\<lambda>fr. fr\<lparr>fr_writer := True\<rparr>) c)"

definition pc_allocate :: "('v, 'p) cache_env \<Rightarrow> (('v, 'p) pool, fs_error, u64 \<times> nat) op" where
  "pc_allocate env =
    st_bind (on_block (bs_allocate (env_store env))) (\<lambda>i.
    st_bind (victim_frame env) (\<lambda>f c.
      (Inr (i, f), install env f i (\<lambda>fr. fr\<lparr>fr_writer := True, fr_dirty := True\<rparr>)
        (upd_frame f (\<lambda>fr. fr\<lparr>fr_buf := block_zeroed\<rparr>) c))))"

definition release_read :: "nat \<Rightarrow> ('v, 'p) pool \<Rightarrow> ('v, 'p) pool" where
  "release_read f = upd_frame f (\<lambda>fr. fr\<lparr>fr_readers := fr_readers fr - 1\<rparr>)"

definition release_write :: "nat \<Rightarrow> ('v, 'p) pool \<Rightarrow> ('v, 'p) pool" where
  "release_write f = upd_frame f (\<lambda>fr. fr\<lparr>fr_writer := False, fr_dirty := True\<rparr>)"

definition page_bytes :: "nat \<Rightarrow> ('v, 'p) pool \<Rightarrow> bytes" where
  "page_bytes f c = fr_buf (pc_frames c ! f)"

definition set_page_bytes :: "nat \<Rightarrow> bytes \<Rightarrow> ('v, 'p) pool \<Rightarrow> ('v, 'p) pool" where
  "set_page_bytes f b = upd_frame f (\<lambda>fr. fr\<lparr>fr_buf := b\<rparr>)"

subsection \<open>Building and recovering\<close>

definition pc_build :: "'v \<Rightarrow> nat \<Rightarrow> 'p \<Rightarrow> journal option \<Rightarrow> fs_error + ('v, 'p) pool" where
  "pc_build block nframes policy journal =
    (if nframes \<ge> 1
     then Inr \<lparr>pc_block = block, pc_frames = replicate nframes frame_new, pc_table = Map.empty,
               pc_free = rev [0..<nframes], pc_policy = policy, pc_journal = journal\<rparr>
     else Inl FsPanic)"

text \<open>The records before the last commit marker.\<close>

fun committed :: "journal_op list \<Rightarrow> journal_op list option" where
  "committed [] = None"
| "committed (op # ops) =
    (case committed ops of
       Some rs \<Rightarrow> Some (op # rs)
     | None \<Rightarrow> if op = JCommit then Some [] else None)"

definition redo :: "('v, 'p) cache_env \<Rightarrow> journal_op \<Rightarrow> ('v, fs_error, unit) op" where
  "redo env op v =
    (case op of
       JWrite i img \<Rightarrow>
         st_bind (bs_ensure_allocated (env_store env) i) (\<lambda>_ v.
           if length img \<noteq> BLOCK_SIZE then (Inl FsPanic, v) else bs_write (env_store env) i img v) v
     | JCommit \<Rightarrow> (Inr (), v))"

definition recover :: "('v, 'p) cache_env \<Rightarrow> journal \<Rightarrow> ('v, fs_error, unit) op" where
  "recover env j v =
    (case block_journal_replay (env_jcrc env) j of
       Inl e \<Rightarrow> (Inl e, v)
     | Inr records \<Rightarrow>
         (case committed records of
            None \<Rightarrow> (Inr (), v)
          | Some ops \<Rightarrow> st_bind (st_iter (redo env) ops) (\<lambda>_. bs_sync (env_store env)) v))"

definition pc_with_journal ::
  "('v, 'p) cache_env \<Rightarrow> 'p \<Rightarrow> 'v \<Rightarrow> nat \<Rightarrow> bytes option \<Rightarrow> fs_error + ('v, 'p) pool" where
  "pc_with_journal env policy block nframes path =
    res_bind (block_journal_open path) (\<lambda>j.
      case recover env j block of
        (Inl e, _) \<Rightarrow> Inl e
      | (Inr _, v) \<Rightarrow> pc_build v nframes policy (Some (truncate_log j)))"

definition pc_resident :: "('v, 'p) pool \<Rightarrow> nat" where
  "pc_resident c = card (dom (pc_table c))"

definition pc_frame_count :: "('v, 'p) pool \<Rightarrow> nat" where
  "pc_frame_count c = length (pc_frames c)"

end
