(* ===== verification/Page_Pool.thy ===== *)
theory Page_Pool
  imports Page_Cache
begin

text \<open>
  What the page cache promises. \<open>pool_inv\<close> is its invariant: the page table and the frames
  name each other, a clean frame holds what the store holds, a page that is not dirty
  in the pool passes its checksum in the store, the free list and the policy cover the
  frames without and with a page, and the journal is empty. \<open>pview\<close> is the page an id
  stands for, wherever it is. The locale \<open>page_pool\<close> composes the contracts of the store
  and of the eviction policy; its lemmas say what every operation does to the view.
\<close>

section \<open>The invariant\<close>

text \<open>What is known of the store and of the policy.\<close>

record ('v, 'p) pool_spec =
  ps_inv :: "'v \<Rightarrow> bool"
  ps_live :: "'v \<Rightarrow> u64 set"
  ps_data :: "'v \<Rightarrow> u64 \<Rightarrow> bytes"
  ps_room :: "'v \<Rightarrow> bool"
  ps_fits :: "'v \<Rightarrow> u64 \<Rightarrow> bool"
  ps_dur :: "'v \<Rightarrow> u64 set"
  ps_tracked :: "'p \<Rightarrow> nat set"
  ps_pinv :: "'p \<Rightarrow> bool"
  ps_journaled :: bool

definition frame_ok :: "frame \<Rightarrow> bool" where
  "frame_ok fr \<longleftrightarrow> length (fr_buf fr) = BLOCK_SIZE \<and> (fr_page fr = None \<longrightarrow> unpinned fr \<and> \<not> fr_dirty fr)"

definition frames_with :: "(frame \<Rightarrow> bool) \<Rightarrow> ('v, 'p) pool \<Rightarrow> nat set" where
  "frames_with P c = {f. f < length (pc_frames c) \<and> P (pc_frames c ! f)}"

definition table_ok :: "('v, 'p) pool \<Rightarrow> bool" where
  "table_ok c \<longleftrightarrow> (\<forall>i f. pc_table c i = Some f \<longleftrightarrow> f \<in> frames_with (\<lambda>fr. fr_page fr = Some i) c)"

definition clean_ok :: "('v, 'p) pool_spec \<Rightarrow> ('v, 'p) pool \<Rightarrow> bool" where
  "clean_ok sp c \<longleftrightarrow> (\<forall>i. \<forall>f\<in>frames_with (\<lambda>fr. fr_page fr = Some i \<and> \<not> fr_dirty fr \<and> \<not> fr_writer fr) c.
    fr_buf (pc_frames c ! f) = ps_data sp (pc_block c) i)"

text \<open>A page that a later run of the program finds: in use when the store is opened again, and intact.\<close>

definition stored :: "('v, 'p) cache_env \<Rightarrow> ('v, 'p) pool_spec \<Rightarrow> 'v \<Rightarrow> u64 \<Rightarrow> bool" where
  "stored env sp v i \<longleftrightarrow> verify_checksum (env_crc env) (ps_data sp v i) i = Inr () \<and> i \<in> ps_dur sp v"

definition stored_ok :: "('v, 'p) cache_env \<Rightarrow> ('v, 'p) pool_spec \<Rightarrow> u64 set \<Rightarrow> ('v, 'p) pool \<Rightarrow> bool" where
  "stored_ok env sp K c \<longleftrightarrow> (\<forall>i\<in>K. frames_with (\<lambda>fr. fr_page fr = Some i \<and> fr_dirty fr) c = {} \<longrightarrow>
    stored env sp (pc_block c) i)"

text \<open>\<open>K\<close> are the pages that were handed out, \<open>L\<close> the frames claimed by an operation under way.\<close>

definition pool_inv :: "('v, 'p) cache_env \<Rightarrow> ('v, 'p) pool_spec \<Rightarrow> u64 set \<Rightarrow> nat set \<Rightarrow> ('v, 'p) pool \<Rightarrow> bool" where
  "pool_inv env sp K L c \<longleftrightarrow>
    ps_inv sp (pc_block c) \<and> K \<subseteq> ps_live sp (pc_block c) \<and> (\<forall>fr\<in>set (pc_frames c). frame_ok fr) \<and>
    table_ok c \<and> dom (pc_table c) \<subseteq> K \<and> distinct (pc_free c) \<and> set (pc_free c) \<inter> L = {} \<and>
    set (pc_free c) \<union> L = frames_with (\<lambda>fr. fr_page fr = None) c \<and>
    ps_pinv sp (pc_policy c) \<and> ps_tracked sp (pc_policy c) = frames_with (\<lambda>fr. fr_page fr \<noteq> None) c \<and>
    clean_ok sp c \<and> stored_ok env sp K c \<and>
    pc_journal c = (if ps_journaled sp then Some (journal_of (env_jcrc env) page_op_encode []) else None)"

definition pview :: "('v, 'p) pool_spec \<Rightarrow> ('v, 'p) pool \<Rightarrow> u64 \<Rightarrow> bytes" where
  "pview sp c i = (case pc_table c i of Some f \<Rightarrow> fr_buf (pc_frames c ! f) | None \<Rightarrow> ps_data sp (pc_block c) i)"

lemma pview_bookkeeping [simp]:
  "pview sp (c\<lparr>pc_policy := p\<rparr>) = pview sp c" "pview sp (c\<lparr>pc_free := fs\<rparr>) = pview sp c"
  "pview sp (c\<lparr>pc_journal := j\<rparr>) = pview sp c"
  by (auto simp: pview_def fun_eq_iff split: option.splits)

text \<open>Two pools with the same pages, up to checksum fields.\<close>

definition same_view :: "('v, 'p) pool_spec \<Rightarrow> u64 set \<Rightarrow> ('v, 'p) pool \<Rightarrow> ('v, 'p) pool \<Rightarrow> bool" where
  "same_view sp K c c' \<longleftrightarrow> (\<forall>i\<in>K. same_page (pview sp c' i) (pview sp c i))"

lemma same_view_refl [simp]: "same_view sp K c c"
  by (simp add: same_view_def)

lemma same_view_trans: "same_view sp K a b \<Longrightarrow> same_view sp K b c \<Longrightarrow> same_view sp K a c"
  unfolding same_view_def using same_page_trans by blast

text \<open>What an operation leaves on the disk. Either the pages stored before are untouched, or
  everything was written back: then every page that nobody was writing is stored with the
  bytes the pool showed for it.\<close>

definition kept :: "('v, 'p) cache_env \<Rightarrow> ('v, 'p) pool_spec \<Rightarrow> u64 set \<Rightarrow> 'v \<Rightarrow> 'v \<Rightarrow> bool" where
  "kept env sp K v v' \<longleftrightarrow> (\<forall>i\<in>K. stored env sp v i \<longrightarrow> stored env sp v' i \<and> ps_data sp v' i = ps_data sp v i)"

definition saved :: "('v, 'p) cache_env \<Rightarrow> ('v, 'p) pool_spec \<Rightarrow> u64 set \<Rightarrow> ('v, 'p) pool \<Rightarrow> 'v \<Rightarrow> bool" where
  "saved env sp K c v \<longleftrightarrow> (\<forall>i\<in>K. stored env sp v i \<and>
    ((\<forall>f. pc_table c i = Some f \<longrightarrow> \<not> fr_writer (pc_frames c ! f)) \<longrightarrow> same_page (ps_data sp v i) (pview sp c i)))"

definition settles :: "('v, 'p) cache_env \<Rightarrow> ('v, 'p) pool_spec \<Rightarrow> u64 set \<Rightarrow> ('v, 'p) pool \<Rightarrow> 'v \<Rightarrow> bool" where
  "settles env sp K c v \<longleftrightarrow> kept env sp K (pc_block c) v \<or> saved env sp K c v"

lemma settles_refl [simp]: "settles env sp K c (pc_block c)"
  by (simp add: settles_def kept_def)

section \<open>Frames\<close>

lemma upd_frame_sel [simp]:
  "pc_block (upd_frame f g c) = pc_block c" "pc_table (upd_frame f g c) = pc_table c"
  "pc_free (upd_frame f g c) = pc_free c" "pc_policy (upd_frame f g c) = pc_policy c"
  "pc_journal (upd_frame f g c) = pc_journal c" "length (pc_frames (upd_frame f g c)) = length (pc_frames c)"
  by (simp_all add: upd_frame_def)

lemma upd_frame_nth:
  "f < length (pc_frames c) \<Longrightarrow> pc_frames (upd_frame f g c) ! h = (if h = f then g (pc_frames c ! f) else pc_frames c ! h)"
  by (simp add: upd_frame_def nth_list_update)

text \<open>The same update of several frames.\<close>

definition upd_frames :: "nat list \<Rightarrow> (frame \<Rightarrow> frame) \<Rightarrow> ('v, 'p) pool \<Rightarrow> ('v, 'p) pool" where
  "upd_frames fs g = fold (\<lambda>f. upd_frame f g) fs"

lemma upd_frames_Cons: "upd_frames (f # fs) g c = upd_frames fs g (upd_frame f g c)"
  by (simp add: upd_frames_def)

lemma upd_frames_sel [simp]:
  "pc_block (upd_frames fs g c) = pc_block c" "pc_table (upd_frames fs g c) = pc_table c"
  "pc_free (upd_frames fs g c) = pc_free c" "pc_policy (upd_frames fs g c) = pc_policy c"
  "pc_journal (upd_frames fs g c) = pc_journal c" "length (pc_frames (upd_frames fs g c)) = length (pc_frames c)"
  by (induction fs arbitrary: c) (simp_all add: upd_frames_def)

lemma upd_frames_nth:
  "distinct fs \<Longrightarrow> set fs \<subseteq> {..<length (pc_frames c)} \<Longrightarrow>
    pc_frames (upd_frames fs g c) ! h = (if h \<in> set fs then g (pc_frames c ! h) else pc_frames c ! h)"
  by (induction fs arbitrary: c) (auto simp: upd_frames_Cons upd_frame_nth, simp add: upd_frames_def)

lemma upd_frame_block: "upd_frame f g (c\<lparr>pc_block := v\<rparr>) = (upd_frame f g c)\<lparr>pc_block := v\<rparr>"
  by (simp add: upd_frame_def)

lemma upd_frames_block: "upd_frames fs g (c\<lparr>pc_block := v\<rparr>) = (upd_frames fs g c)\<lparr>pc_block := v\<rparr>"
  by (induction fs arbitrary: c) (simp_all add: upd_frames_def upd_frame_block)

section \<open>Finalizing and writing back\<close>

definition finalized :: "('v, 'p) cache_env \<Rightarrow> frame \<Rightarrow> frame" where
  "finalized env fr = (case finalize_checksum (env_crc env) (fr_buf fr) of Inr b \<Rightarrow> fr\<lparr>fr_buf := b\<rparr> | Inl _ \<Rightarrow> fr)"

lemma finalized_ok:
  assumes "length (fr_buf fr) = BLOCK_SIZE"
  shows "finalize_checksum (env_crc env) (fr_buf fr) = Inr (fr_buf (finalized env fr))"
    "same_page (fr_buf (finalized env fr)) (fr_buf fr)" "verify_checksum (env_crc env) (fr_buf (finalized env fr)) i = Inr ()"
    "length (fr_buf (finalized env fr)) = BLOCK_SIZE" "finalized env fr = fr\<lparr>fr_buf := fr_buf (finalized env fr)\<rparr>"
    "fr_page (finalized env fr) = fr_page fr" "fr_dirty (finalized env fr) = fr_dirty fr"
    "fr_writer (finalized env fr) = fr_writer fr" "fr_readers (finalized env fr) = fr_readers fr"
proof -
  have "HEADER_LEN \<le> length (fr_buf fr)" using assms by (simp add: HEADER_LEN_def BLOCK_SIZE_def)
  then obtain b where b: "finalize_checksum (env_crc env) (fr_buf fr) = Inr b" "same_page b (fr_buf fr)"
      "verify_checksum (env_crc env) b i = Inr ()"
    by (rule finalize_ok)
  then have f: "finalized env fr = fr\<lparr>fr_buf := b\<rparr>" by (simp add: finalized_def)
  show "finalize_checksum (env_crc env) (fr_buf fr) = Inr (fr_buf (finalized env fr))"
    "same_page (fr_buf (finalized env fr)) (fr_buf fr)" "verify_checksum (env_crc env) (fr_buf (finalized env fr)) i = Inr ()"
    using b by (simp_all add: f)
  show "length (fr_buf (finalized env fr)) = BLOCK_SIZE" using b(2) assms by (simp add: f same_page_def)
qed (simp_all add: finalized_def split: sum.splits)

lemma finalize_frames:
  assumes "distinct fs" "set fs \<subseteq> {..<length (pc_frames c)}" "\<forall>f\<in>set fs. length (fr_buf (pc_frames c ! f)) = BLOCK_SIZE"
  shows "st_iter (finalize_frame env) fs c = (Inr (), upd_frames fs (finalized env) c)"
  using assms
proof (induction fs arbitrary: c)
  case (Cons f fs)
  have b: "length (fr_buf (pc_frames c ! f)) = BLOCK_SIZE" using Cons.prems(3) by simp
  obtain d where "finalize_checksum (env_crc env) (fr_buf (pc_frames c ! f)) = Inr d"
    using finalized_ok(1) [OF b, of env] by blast
  then have "finalize_frame env f c = (Inr (), upd_frame f (finalized env) c)"
    by (simp add: finalize_frame_def upd_frame_def finalized_def)
  moreover have "st_iter (finalize_frame env) fs (upd_frame f (finalized env) c) =
      (Inr (), upd_frames fs (finalized env) (upd_frame f (finalized env) c))"
    using Cons.prems by (intro Cons.IH) (auto simp: upd_frame_nth)
  ultimately show ?case by (simp add: upd_frames_Cons)
qed (simp add: upd_frames_def)

lemma images_upd_frame:
  "f \<notin> set fs \<Longrightarrow> f < length (pc_frames c) \<Longrightarrow> images fs (upd_frame f g c) = images fs c"
  by (auto simp: images_def upd_frame_nth)

lemma images_Cons: "images (f # fs) c = (the (fr_page (pc_frames c ! f)), fr_buf (pc_frames c ! f)) # images fs c"
  by (simp add: images_def)

lemma write_back_frames:
  assumes "distinct fs" "set fs \<subseteq> {..<length (pc_frames c)}"
    and "st_iter (\<lambda>(i, b). bs_write (env_store env) i b) (images fs c) (pc_block c) = (Inr (), v)"
  shows "st_iter (write_back env) fs c = (Inr (), (upd_frames fs (\<lambda>fr. fr\<lparr>fr_dirty := False\<rparr>) c)\<lparr>pc_block := v\<rparr>)"
  using assms
proof (induction fs arbitrary: c)
  case Nil
  then show ?case by (simp add: upd_frames_def images_def)
next
  case (Cons f fs)
  obtain u v1 where v1: "bs_write (env_store env) (the (fr_page (pc_frames c ! f))) (fr_buf (pc_frames c ! f)) (pc_block c) = (Inr u, v1)"
      "st_iter (\<lambda>(i, b). bs_write (env_store env) i b) (images fs c) v1 = (Inr (), v)"
    using Cons.prems(3) by (auto simp: images_Cons st_bind_Inr_iff)
  let ?g = "\<lambda>fr. fr\<lparr>fr_dirty := False\<rparr>"
  let ?c = "upd_frame f ?g (c\<lparr>pc_block := v1\<rparr>)"
  have "write_back env f c = (Inr (), ?c)" using v1(1) by (simp add: write_back_def on_block_def st_bind_def)
  moreover have "images fs ?c = images fs c"
    using Cons.prems images_upd_frame [of f fs "c\<lparr>pc_block := v1\<rparr>" ?g] by (simp add: images_def)
  then have "st_iter (write_back env) fs ?c = (Inr (), (upd_frames fs ?g ?c)\<lparr>pc_block := v\<rparr>)"
    using Cons.prems v1(2) by (intro Cons.IH) (auto simp: upd_frame_block)
  ultimately show ?case by (simp add: upd_frames_Cons upd_frame_block upd_frames_block)
qed

text \<open>The journal between the log and the truncation.\<close>

definition writes :: "(u64 \<times> bytes) list \<Rightarrow> journal_op list" where
  "writes ps = map (\<lambda>(i, b). JWrite i b) ps"

lemma log_images_journal:
  assumes "pc_journal c = Some (journal_of (env_jcrc env) page_op_encode rs)"
  shows "pc_journal (log_images env D c) = Some (journal_of (env_jcrc env) page_op_encode (rs @ writes (images D c) @ [JCommit]))"
proof -
  have a: "block_journal_append jcrc = append_rec jcrc page_op_encode" for jcrc
    by (intro ext) (simp add: block_journal_append_def)
  have "fold (\<lambda>(i, img). block_journal_append (env_jcrc env) (JWrite i img)) ps j =
      fold (append_rec (env_jcrc env) page_op_encode) (writes ps) j" for ps j
    by (simp add: writes_def fold_map comp_def case_prod_beta' a)
  then show ?thesis using assms by (simp add: log_images_def fold_append_rec a)
qed

section \<open>Consequences of the invariant\<close>

lemma pool_invD:
  assumes "pool_inv env sp K L c"
  shows "ps_inv sp (pc_block c)" "K \<subseteq> ps_live sp (pc_block c)" "\<And>f. f < length (pc_frames c) \<Longrightarrow> frame_ok (pc_frames c ! f)"
    "\<And>i f. pc_table c i = Some f \<longleftrightarrow> f < length (pc_frames c) \<and> fr_page (pc_frames c ! f) = Some i"
    "\<And>f i. f < length (pc_frames c) \<Longrightarrow> fr_page (pc_frames c ! f) = Some i \<Longrightarrow> i \<in> K"
    "distinct (pc_free c)" "set (pc_free c) \<inter> L = {}" "set (pc_free c) \<union> L = frames_with (\<lambda>fr. fr_page fr = None) c"
    "ps_pinv sp (pc_policy c)" "ps_tracked sp (pc_policy c) = frames_with (\<lambda>fr. fr_page fr \<noteq> None) c"
    "\<And>i f. f < length (pc_frames c) \<Longrightarrow> fr_page (pc_frames c ! f) = Some i \<Longrightarrow> \<not> fr_dirty (pc_frames c ! f) \<Longrightarrow>
      \<not> fr_writer (pc_frames c ! f) \<Longrightarrow> fr_buf (pc_frames c ! f) = ps_data sp (pc_block c) i"
    "\<And>i. i \<in> K \<Longrightarrow> (\<And>f. f < length (pc_frames c) \<Longrightarrow> fr_page (pc_frames c ! f) = Some i \<Longrightarrow> \<not> fr_dirty (pc_frames c ! f)) \<Longrightarrow>
      stored env sp (pc_block c) i"
    "pc_journal c = (if ps_journaled sp then Some (journal_of (env_jcrc env) page_op_encode []) else None)"
proof -
  show t: "pc_table c i = Some f \<longleftrightarrow> f < length (pc_frames c) \<and> fr_page (pc_frames c ! f) = Some i" for i f
    using assms by (simp add: pool_inv_def table_ok_def frames_with_def)
  show "i \<in> K" if "f < length (pc_frames c)" "fr_page (pc_frames c ! f) = Some i" for f i
  proof -
    have "pc_table c i = Some f" using that by (simp add: t)
    then show ?thesis using assms by (auto simp: pool_inv_def)
  qed
  show "stored env sp (pc_block c) i"
    if "i \<in> K" "\<And>f. f < length (pc_frames c) \<Longrightarrow> fr_page (pc_frames c ! f) = Some i \<Longrightarrow> \<not> fr_dirty (pc_frames c ! f)" for i
    using assms that by (auto simp: pool_inv_def stored_ok_def frames_with_def)
qed (use assms in \<open>simp_all add: pool_inv_def clean_ok_def frames_with_def\<close>)

lemma pool_invI:
  assumes "ps_inv sp (pc_block c)" "K \<subseteq> ps_live sp (pc_block c)" "\<And>f. f < length (pc_frames c) \<Longrightarrow> frame_ok (pc_frames c ! f)"
    "\<And>i f. pc_table c i = Some f \<longleftrightarrow> f < length (pc_frames c) \<and> fr_page (pc_frames c ! f) = Some i"
    "\<And>f i. f < length (pc_frames c) \<Longrightarrow> fr_page (pc_frames c ! f) = Some i \<Longrightarrow> i \<in> K"
    "distinct (pc_free c)" "set (pc_free c) \<inter> L = {}" "set (pc_free c) \<union> L = frames_with (\<lambda>fr. fr_page fr = None) c"
    "ps_pinv sp (pc_policy c)" "ps_tracked sp (pc_policy c) = frames_with (\<lambda>fr. fr_page fr \<noteq> None) c"
    "\<And>i f. f < length (pc_frames c) \<Longrightarrow> fr_page (pc_frames c ! f) = Some i \<Longrightarrow> \<not> fr_dirty (pc_frames c ! f) \<Longrightarrow>
      \<not> fr_writer (pc_frames c ! f) \<Longrightarrow> fr_buf (pc_frames c ! f) = ps_data sp (pc_block c) i"
    "\<And>i. i \<in> K \<Longrightarrow> (\<And>f. f < length (pc_frames c) \<Longrightarrow> fr_page (pc_frames c ! f) = Some i \<Longrightarrow> \<not> fr_dirty (pc_frames c ! f)) \<Longrightarrow>
      stored env sp (pc_block c) i"
    "pc_journal c = (if ps_journaled sp then Some (journal_of (env_jcrc env) page_op_encode []) else None)"
  shows "pool_inv env sp K L c"
  unfolding pool_inv_def
proof (intro conjI)
  show "\<forall>fr\<in>set (pc_frames c). frame_ok fr" using assms(3) by (auto simp: in_set_conv_nth)
  show "table_ok c" using assms(4) by (simp add: table_ok_def frames_with_def)
  show "dom (pc_table c) \<subseteq> K" using assms(4,5) by blast
  show "clean_ok sp c" using assms(11) by (auto simp: clean_ok_def frames_with_def)
  show "stored_ok env sp K c" using assms(12) by (auto simp: stored_ok_def frames_with_def)
qed (use assms in auto)

lemma pview_resident: "pc_table c i = Some f \<Longrightarrow> pview sp c i = fr_buf (pc_frames c ! f)"
  by (simp add: pview_def)

lemma pview_absent: "pc_table c i = None \<Longrightarrow> pview sp c i = ps_data sp (pc_block c) i"
  by (simp add: pview_def)

text \<open>What an operation on other pages may do to a frame: refresh its checksum and clean it.\<close>

definition frame_like :: "frame \<Rightarrow> frame \<Rightarrow> bool" where
  "frame_like fr fr' \<longleftrightarrow> fr_page fr' = fr_page fr \<and> fr_readers fr' = fr_readers fr \<and> fr_writer fr' = fr_writer fr \<and>
    same_page (fr_buf fr') (fr_buf fr)"

lemma frame_like_refl [simp]: "frame_like fr fr"
  by (simp add: frame_like_def)

lemma frame_like_trans: "frame_like a b \<Longrightarrow> frame_like b c \<Longrightarrow> frame_like a c"
  unfolding frame_like_def using same_page_trans by auto

lemma frame_like_unpinned: "frame_like a b \<Longrightarrow> unpinned b = unpinned a"
  by (simp add: frame_like_def unpinned_def)

section \<open>The contract of the pool\<close>

locale page_pool =
  block_store "env_store env" "ps_inv sp" "ps_live sp" "ps_data sp" "ps_room sp" "ps_fits sp" "ps_dur sp" +
  eviction_policy "ep_access (env_policy env)" "ep_candidate (env_policy env)" "ep_remove (env_policy env)"
    "ps_tracked sp" "ps_pinv sp"
  for env :: "('v, 'p) cache_env" and sp :: "('v, 'p) pool_spec"
begin

lemma pview_length:
  assumes "pool_inv env sp K L c" "i \<in> K"
  shows "length (pview sp c i) = BLOCK_SIZE"
proof (cases "pc_table c i")
  case None
  then show ?thesis
    using store_read [OF pool_invD(1) [OF assms(1)]] pool_invD(2) [OF assms(1)] assms(2) by (auto simp: pview_absent)
next
  case (Some f)
  then show ?thesis using pool_invD(3,4) [OF assms(1)] by (auto simp: pview_resident frame_ok_def)
qed

text \<open>The state a flush leaves.\<close>

lemma flush_state:
  assumes c: "pool_inv env sp K L c"
  obtains c' where "pc_flush env c = (Inr (), c')" "length (pc_frames c') = length (pc_frames c)"
    "\<And>f. f < length (pc_frames c) \<Longrightarrow> pc_frames c' ! f = (if fr_dirty (pc_frames c ! f)
      then (finalized env (pc_frames c ! f))\<lparr>fr_dirty := False\<rparr> else pc_frames c ! f)"
    "pc_table c' = pc_table c" "pc_free c' = pc_free c" "pc_policy c' = pc_policy c" "pc_journal c' = pc_journal c"
    "ps_inv sp (pc_block c')" "ps_live sp (pc_block c') = ps_live sp (pc_block c)"
    "ps_room sp (pc_block c') = ps_room sp (pc_block c)" 
    "\<And>i. i \<in> K \<Longrightarrow> stored env sp (pc_block c) i \<or> (\<exists>f<length (pc_frames c). fr_dirty (pc_frames c ! f)) \<Longrightarrow> i \<in> ps_dur sp (pc_block c')"
    "\<And>f i. f < length (pc_frames c) \<Longrightarrow> fr_page (pc_frames c ! f) = Some i \<Longrightarrow> fr_dirty (pc_frames c ! f) \<Longrightarrow>
      ps_data sp (pc_block c') i = fr_buf (finalized env (pc_frames c ! f))"
    "\<And>i. i \<in> K \<Longrightarrow> (\<And>f. f < length (pc_frames c) \<Longrightarrow> fr_page (pc_frames c ! f) = Some i \<Longrightarrow> \<not> fr_dirty (pc_frames c ! f)) \<Longrightarrow>
      ps_data sp (pc_block c') i = ps_data sp (pc_block c) i"
proof (cases "dirty_frames c = []")
  case True
  have "\<not> fr_dirty (pc_frames c ! f)" if "f < length (pc_frames c)" for f
    using True pool_invD(3) [OF c that] that by (auto simp: dirty_frames_def filter_empty_conv frame_ok_def)
  then show thesis
    using True pool_invD(1) [OF c] by (intro that [of c]) (auto simp: pc_flush_def stored_def)
next
  case False
  define D where "D = dirty_frames c"
  have D: "distinct D" "set D \<subseteq> {..<length (pc_frames c)}" by (auto simp: D_def dirty_frames_def)
  have inD: "f \<in> set D \<longleftrightarrow> fr_dirty (pc_frames c ! f)" if "f < length (pc_frames c)" for f
    using pool_invD(3) [OF c that] that by (auto simp: D_def dirty_frames_def frame_ok_def)
  have pg: "fr_page (pc_frames c ! f) \<noteq> None" if "f \<in> set D" for f using that by (auto simp: D_def dirty_frames_def)
  have len: "\<forall>f\<in>set D. length (fr_buf (pc_frames c ! f)) = BLOCK_SIZE"
    using D(2) pool_invD(3) [OF c] by (auto simp: frame_ok_def)
  define c1 where "c1 = upd_frames D (finalized env) c"
  have fin: "st_iter (finalize_frame env) D c = (Inr (), c1)"
    unfolding c1_def by (rule finalize_frames [OF D len])
  have c1: "pc_frames c1 ! f = (if f \<in> set D then finalized env (pc_frames c ! f) else pc_frames c ! f)" for f
    by (simp add: c1_def upd_frames_nth [OF D])
  define c2 where "c2 = log_images env D c1"
  have im: "images D c2 = map (\<lambda>f. (the (fr_page (pc_frames c ! f)), fr_buf (finalized env (pc_frames c ! f)))) D"
    using len by (auto simp: images_def c2_def log_images_def c1 finalized_ok(6))
  have mem: "\<forall>(i, b)\<in>set (images D c2). i \<in> ps_live sp (pc_block c) \<and> length b = BLOCK_SIZE"
    using D(2) pg pool_invD(2,5) [OF c] len by (fastforce simp: im finalized_ok(4))
  obtain v1 where v1: "st_iter (\<lambda>(i, b). bs_write (env_store env) i b) (images D c2) (pc_block c) = (Inr (), v1)"
      "ps_inv sp v1" "ps_live sp v1 = ps_live sp (pc_block c)"
      "\<forall>j\<in>ps_live sp (pc_block c). ps_data sp v1 j = (case map_of (rev (images D c2)) j of Some b \<Rightarrow> b | None \<Rightarrow> ps_data sp (pc_block c) j)"
      "ps_room sp v1 = ps_room sp (pc_block c)"
    using write_all_pages [OF pool_invD(1) [OF c] mem] by blast
  define c3 where "c3 = (upd_frames D (\<lambda>fr. fr\<lparr>fr_dirty := False\<rparr>) c2)\<lparr>pc_block := v1\<rparr>"
  have blk: "pc_block c2 = pc_block c" "pc_frames c2 = pc_frames c1" by (simp_all add: c2_def log_images_def c1_def)
  have wb: "st_iter (write_back env) D c2 = (Inr (), c3)"
    unfolding c3_def using D v1(1) by (intro write_back_frames) (simp_all add: blk c1_def)
  have c3: "pc_frames c3 ! f = (if f \<in> set D then (finalized env (pc_frames c ! f))\<lparr>fr_dirty := False\<rparr> else pc_frames c ! f)" for f
    using D by (simp add: c3_def upd_frames_nth blk c1 c1_def)
  obtain v2 where v2: "bs_sync (env_store env) v1 = (Inr (), v2)" "ps_inv sp v2" "ps_live sp v2 = ps_live sp v1"
      "\<forall>j\<in>ps_live sp v1. ps_data sp v2 j = ps_data sp v1 j" "ps_room sp v2 = ps_room sp v1" "ps_live sp v1 \<subseteq> ps_dur sp v2"
    using store_sync [OF v1(2)] by blast
  define c4 where "c4 = c3\<lparr>pc_block := v2, pc_journal := map_option truncate_log (pc_journal c3)\<rparr>"
  have fl: "pc_flush env c = (Inr (), c4)"
    using False fin wb v2(1)
    by (simp add: pc_flush_def Let_def c4_def c3_def on_block_def flip: D_def c2_def)
  have jn: "pc_journal c4 = pc_journal c"
  proof (cases "pc_journal c")
    case (Some j)
    then have "pc_journal c1 = Some (journal_of (env_jcrc env) page_op_encode [])" using pool_invD(13) [OF c] by (simp add: c1_def split: if_splits)
    from log_images_journal [OF this] show ?thesis
      using Some pool_invD(13) [OF c] by (simp add: c4_def c3_def c2_def split: if_splits)
  qed (simp add: c4_def c3_def c2_def log_images_def c1_def)
  have "f = g" if fg: "f \<in> set D" "g \<in> set D" "the (fr_page (pc_frames c ! f)) = the (fr_page (pc_frames c ! g))" for f g
  proof -
    obtain i where i: "fr_page (pc_frames c ! f) = Some i" "fr_page (pc_frames c ! g) = Some i"
      using pg [OF fg(1)] pg [OF fg(2)] fg(3) by auto
    then have "pc_table c i = Some f" "pc_table c i = Some g" using fg D(2) by (auto simp: pool_invD(4) [OF c])
    then show ?thesis by simp
  qed
  then have ids: "distinct (map fst (images D c2))"
    using D(1) by (auto simp: im comp_def distinct_map inj_on_def)
  have m: "map_of (rev (images D c2)) = map_of (images D c2)"
    using ids map_of_inject_set [of "rev (images D c2)" "images D c2"] by (simp add: rev_map [symmetric])
  have data: "ps_data sp v2 j = (case map_of (images D c2) j of Some b \<Rightarrow> b | None \<Rightarrow> ps_data sp (pc_block c) j)"
    if "j \<in> K" for j
    using that v1(3,4) v2(4) pool_invD(2) [OF c] m by auto
  show thesis
  proof (rule that [OF fl])
    show "length (pc_frames c4) = length (pc_frames c)" by (simp add: c4_def c3_def blk c1_def)
    show "pc_frames c4 ! f = (if fr_dirty (pc_frames c ! f) then (finalized env (pc_frames c ! f))\<lparr>fr_dirty := False\<rparr> else pc_frames c ! f)"
      if "f < length (pc_frames c)" for f
      using c3 [of f] inD [OF that] by (simp add: c4_def)
    show "pc_table c4 = pc_table c" "pc_free c4 = pc_free c" "pc_policy c4 = pc_policy c"
      by (simp_all add: c4_def c3_def c2_def log_images_def c1_def)
    show "ps_data sp (pc_block c4) i = fr_buf (finalized env (pc_frames c ! f))"
      if f: "f < length (pc_frames c)" "fr_page (pc_frames c ! f) = Some i" "fr_dirty (pc_frames c ! f)" for f i
    proof -
      have "f \<in> set D" using f inD by simp
      then have "(i, fr_buf (finalized env (pc_frames c ! f))) \<in> set (images D c2)" using f(2) by (force simp: im)
      then have "map_of (images D c2) i = Some (fr_buf (finalized env (pc_frames c ! f)))" by (rule map_of_is_SomeI [OF ids])
      then show ?thesis using data [OF pool_invD(5) [OF c f(1,2)]] by (simp add: c4_def)
    qed
    show "ps_data sp (pc_block c4) i = ps_data sp (pc_block c) i"
      if i: "i \<in> K" "\<And>f. f < length (pc_frames c) \<Longrightarrow> fr_page (pc_frames c ! f) = Some i \<Longrightarrow> \<not> fr_dirty (pc_frames c ! f)" for i
    proof -
      have "i \<notin> fst ` set (images D c2)"
      proof
        assume "i \<in> fst ` set (images D c2)"
        then obtain f where f: "f \<in> set D" "i = the (fr_page (pc_frames c ! f))" by (auto simp: im)
        then have "fr_page (pc_frames c ! f) = Some i" "f < length (pc_frames c)" using pg D(2) by auto
        then show False using i(2) inD f(1) by blast
      qed
      then have "map_of (images D c2) i = None" by (simp add: map_of_eq_None_iff)
      then show ?thesis using data [OF i(1)] by (simp add: c4_def)
    qed
    show "i \<in> ps_dur sp (pc_block c4)" if "i \<in> K" for i
      using that pool_invD(2) [OF c] v1(3) v2(6) by (auto simp: c4_def)
  qed (use jn v1 v2 in \<open>simp_all add: c4_def\<close>)
qed

lemma flush_ok:
  assumes c: "pool_inv env sp K L c"
  obtains c' where "pc_flush env c = (Inr (), c')" "pool_inv env sp K L c'" "same_view sp K c c'"
    "length (pc_frames c') = length (pc_frames c)" "\<And>f. f < length (pc_frames c) \<Longrightarrow> \<not> fr_dirty (pc_frames c' ! f)"
    "\<And>f. f < length (pc_frames c) \<Longrightarrow> frame_like (pc_frames c ! f) (pc_frames c' ! f)" "pc_table c' = pc_table c"
    "ps_live sp (pc_block c') = ps_live sp (pc_block c)" "ps_room sp (pc_block c') = ps_room sp (pc_block c)"
    "saved env sp K c (pc_block c')"
proof -
  obtain c' where fl: "pc_flush env c = (Inr (), c')" and len: "length (pc_frames c') = length (pc_frames c)"
    and fr: "\<And>f. f < length (pc_frames c) \<Longrightarrow> pc_frames c' ! f = (if fr_dirty (pc_frames c ! f)
      then (finalized env (pc_frames c ! f))\<lparr>fr_dirty := False\<rparr> else pc_frames c ! f)"
    and sel: "pc_table c' = pc_table c" "pc_free c' = pc_free c" "pc_policy c' = pc_policy c" "pc_journal c' = pc_journal c"
    and v: "ps_inv sp (pc_block c')" "ps_live sp (pc_block c') = ps_live sp (pc_block c)"
      "ps_room sp (pc_block c') = ps_room sp (pc_block c)"
    and dur: "\<And>i. i \<in> K \<Longrightarrow> stored env sp (pc_block c) i \<or> (\<exists>f<length (pc_frames c). fr_dirty (pc_frames c ! f)) \<Longrightarrow> i \<in> ps_dur sp (pc_block c')"
    and dirty: "\<And>f i. f < length (pc_frames c) \<Longrightarrow> fr_page (pc_frames c ! f) = Some i \<Longrightarrow> fr_dirty (pc_frames c ! f) \<Longrightarrow>
      ps_data sp (pc_block c') i = fr_buf (finalized env (pc_frames c ! f))"
    and clean: "\<And>i. i \<in> K \<Longrightarrow> (\<And>f. f < length (pc_frames c) \<Longrightarrow> fr_page (pc_frames c ! f) = Some i \<Longrightarrow> \<not> fr_dirty (pc_frames c ! f)) \<Longrightarrow>
      ps_data sp (pc_block c') i = ps_data sp (pc_block c) i"
    using flush_state [OF c] by blast
  note I = pool_invD [OF c]
  have bl: "length (fr_buf (pc_frames c ! f)) = BLOCK_SIZE" if "f < length (pc_frames c)" for f
    using I(3) [OF that] by (simp add: frame_ok_def)
  have one: "fr_page (pc_frames c' ! f) = fr_page (pc_frames c ! f)" "fr_readers (pc_frames c' ! f) = fr_readers (pc_frames c ! f)"
      "fr_writer (pc_frames c' ! f) = fr_writer (pc_frames c ! f)" "\<not> fr_dirty (pc_frames c' ! f)"
      "same_page (fr_buf (pc_frames c' ! f)) (fr_buf (pc_frames c ! f))" "frame_ok (pc_frames c' ! f)"
    if "f < length (pc_frames c)" for f
    using I(3) [OF that] finalized_ok [OF bl [OF that], of env] by (simp_all add: fr [OF that] frame_ok_def unpinned_def)
  have same: "f = g" if "f < length (pc_frames c)" "g < length (pc_frames c)" "fr_page (pc_frames c ! f) = Some i"
      "fr_page (pc_frames c ! g) = Some i" for f g i
  proof -
    have "pc_table c i = Some f" "pc_table c i = Some g" using that by (simp_all add: I(4))
    then show ?thesis by simp
  qed
  have view: "same_page (pview sp c' i) (pview sp c i)" if "i \<in> K" for i
  proof (cases "pc_table c i")
    case None
    then have "\<not> fr_dirty (pc_frames c ! f)" if "f < length (pc_frames c)" "fr_page (pc_frames c ! f) = Some i" for f
      using that I(4) [of i f] by simp
    then show ?thesis using None clean [OF that] by (simp add: pview_absent sel)
  next
    case (Some f)
    then show ?thesis using I(4) one(5) by (auto simp: pview_resident sel)
  qed
  have inv: "pool_inv env sp K L c'"
  proof (rule pool_invI)
    show "K \<subseteq> ps_live sp (pc_block c')" "distinct (pc_free c')" "set (pc_free c') \<inter> L = {}" "ps_pinv sp (pc_policy c')"
      using I(2,6,7,9) by (simp_all add: v(2) sel)
    show "frame_ok (pc_frames c' ! f)" if "f < length (pc_frames c')" for f using that one(6) by (simp add: len)
    show "pc_table c' i = Some f \<longleftrightarrow> f < length (pc_frames c') \<and> fr_page (pc_frames c' ! f) = Some i" for i f
      using I(4) [of i f] one(1) by (auto simp: sel len)
    show "i \<in> K" if "f < length (pc_frames c')" "fr_page (pc_frames c' ! f) = Some i" for f i
      using that I(5) one(1) by (simp add: len)
    have "frames_with (\<lambda>fr. fr_page fr = None) c' = frames_with (\<lambda>fr. fr_page fr = None) c"
      "frames_with (\<lambda>fr. fr_page fr \<noteq> None) c' = frames_with (\<lambda>fr. fr_page fr \<noteq> None) c"
      using one(1) by (auto simp: frames_with_def len)
    then show "set (pc_free c') \<union> L = frames_with (\<lambda>fr. fr_page fr = None) c'"
      "ps_tracked sp (pc_policy c') = frames_with (\<lambda>fr. fr_page fr \<noteq> None) c'"
      using I(8,10) by (simp_all add: sel)
    show "fr_buf (pc_frames c' ! f) = ps_data sp (pc_block c') i"
      if f: "f < length (pc_frames c')" "fr_page (pc_frames c' ! f) = Some i" "\<not> fr_writer (pc_frames c' ! f)" for i f
    proof (cases "fr_dirty (pc_frames c ! f)")
      case True
      then show ?thesis using f one(1) [of f] dirty [of f i] fr [of f] by (simp add: len)
    next
      case False
      then have "ps_data sp (pc_block c') i = ps_data sp (pc_block c) i"
        using f one(1) same I(5) by (intro clean) (auto simp: len)
      then show ?thesis using False f I(11) [of f i] fr [of f] by (simp add: len)
    qed
    show "stored env sp (pc_block c') i" if "i \<in> K" for i
    proof (cases "\<exists>f<length (pc_frames c). fr_page (pc_frames c ! f) = Some i \<and> fr_dirty (pc_frames c ! f)")
      case True
      then obtain f where f: "f < length (pc_frames c)" "fr_page (pc_frames c ! f) = Some i" "fr_dirty (pc_frames c ! f)" by blast
      then show ?thesis
        using dirty [OF f] finalized_ok(3) [OF bl [OF f(1)]] dur [OF that] by (auto simp: stored_def)
    next
      case False
      then have "ps_data sp (pc_block c') i = ps_data sp (pc_block c) i" "stored env sp (pc_block c) i"
        using clean [OF that] I(12) [OF that] by blast+
      then show ?thesis using dur [OF that] by (simp add: stored_def)
    qed
  qed (use v I(13) sel in auto)
  note I' = pool_invD [OF inv]
  have "stored env sp (pc_block c') i" if "i \<in> K" for i using I'(12) [OF that] one(4) by (simp add: len)
  moreover have "same_page (ps_data sp (pc_block c') i) (pview sp c i)"
    if i: "i \<in> K" "\<forall>f. pc_table c i = Some f \<longrightarrow> \<not> fr_writer (pc_frames c ! f)" for i
  proof (cases "pc_table c i")
    case None
    then show ?thesis using view [OF i(1)] by (simp add: pview_absent sel)
  next
    case (Some f)
    then have f: "f < length (pc_frames c)" "fr_page (pc_frames c ! f) = Some i" "\<not> fr_writer (pc_frames c ! f)"
      using i(2) I(4) by auto
    then have "fr_buf (pc_frames c' ! f) = ps_data sp (pc_block c') i"
      using one(1,3,4) [OF f(1)] by (intro I'(11)) (simp_all add: len)
    then show ?thesis using view [OF i(1)] Some by (simp add: pview_resident sel)
  qed
  ultimately have sv: "saved env sp K c (pc_block c')" by (simp add: saved_def)
  show thesis
    by (rule that [OF fl inv _ len]) (use view one v sel sv in \<open>simp_all add: same_view_def frame_like_def\<close>)
qed

lemma pick_ok:
  assumes c: "pool_inv env sp K L c"
  obtains r p where "pick_evictable env b c = (r, c\<lparr>pc_policy := p\<rparr>)" "pool_inv env sp K L (c\<lparr>pc_policy := p\<rparr>)"
    "case r of Some f \<Rightarrow> f < length (pc_frames c) \<and> fr_page (pc_frames c ! f) \<noteq> None \<and> unpinned (pc_frames c ! f) \<and>
        (b \<longrightarrow> \<not> fr_dirty (pc_frames c ! f))
      | None \<Rightarrow> \<forall>f<length (pc_frames c). fr_page (pc_frames c ! f) \<noteq> None \<longrightarrow>
          \<not> (unpinned (pc_frames c ! f) \<and> (b \<longrightarrow> \<not> fr_dirty (pc_frames c ! f)))"
proof -
  let ?ev = "\<lambda>f. unpinned (pc_frames c ! f) \<and> (\<not> b \<or> \<not> fr_dirty (pc_frames c ! f))"
  obtain r p where p: "ep_candidate (env_policy env) ?ev (pc_policy c) = (r, p)" by fastforce
  have k: "ps_pinv sp p" "ps_tracked sp p = ps_tracked sp (pc_policy c)"
      "case r of Some i \<Rightarrow> i \<in> ps_tracked sp (pc_policy c) \<and> ?ev i | None \<Rightarrow> \<forall>i\<in>ps_tracked sp (pc_policy c). \<not> ?ev i"
    using candidate [OF pool_invD(9) [OF c] p] by simp_all
  have "pool_inv env sp K L (c\<lparr>pc_policy := p\<rparr>)"
    using c k(1,2) by (simp add: pool_inv_def table_ok_def frames_with_def clean_ok_def stored_ok_def)
  then show thesis
    using that [of r p] p k(3) pool_invD(10) [OF c] by (simp add: pick_evictable_def frames_with_def split: option.splits)
qed

lemma reclaim_ok:
  assumes c: "pool_inv env sp K {} c" and f: "f < length (pc_frames c)" "fr_page (pc_frames c ! f) = Some i"
    and u: "unpinned (pc_frames c ! f)" "\<not> fr_dirty (pc_frames c ! f)" and c': "c' = reclaim env f c"
  shows "pool_inv env sp K {f} c'" "same_view sp K c c'" "pc_table c' = (pc_table c)(i := None)"
    "\<And>g. g \<noteq> f \<Longrightarrow> pc_frames c' ! g = pc_frames c ! g" "length (pc_frames c') = length (pc_frames c)" "pc_block c' = pc_block c"
proof -
  note I = pool_invD [OF c]
  show sel: "pc_table c' = (pc_table c)(i := None)" "length (pc_frames c') = length (pc_frames c)" "pc_block c' = pc_block c"
    using f by (simp_all add: c' reclaim_def)
  have sel': "pc_free c' = pc_free c" "pc_policy c' = ep_remove (env_policy env) f (pc_policy c)" "pc_journal c' = pc_journal c"
    by (simp_all add: c' reclaim_def)
  show fr: "pc_frames c' ! g = pc_frames c ! g" if "g \<noteq> f" for g
    using that by (simp add: c' reclaim_def upd_frame_def)
  have frf: "fr_page (pc_frames c' ! f) = None" "frame_ok (pc_frames c' ! f)"
    using f I(3) [OF f(1)] by (simp_all add: c' reclaim_def upd_frame_def frame_ok_def unpinned_def)
  have T: "ps_pinv sp (pc_policy c')" "ps_tracked sp (pc_policy c') = ps_tracked sp (pc_policy c) - {f}"
    using tracked_remove [OF I(9)] by (simp_all add: sel')
  have tf: "pc_table c i = Some f" using f by (simp add: I(4))
  have t: "pc_table c' k = Some g \<longleftrightarrow> g \<noteq> f \<and> pc_table c k = Some g" for k g
    using tf I(4) [of k f] f(2) by (auto simp: sel)
  have pg: "fr_page (pc_frames c' ! g) = Some k \<longleftrightarrow> g \<noteq> f \<and> fr_page (pc_frames c ! g) = Some k" for g k
    using frf(1) fr by (cases "g = f") simp_all
  have pgN: "fr_page (pc_frames c' ! g) = None \<longleftrightarrow> g = f \<or> fr_page (pc_frames c ! g) = None" for g
    using frf(1) fr by (cases "g = f") simp_all
  have fw: "frames_with (\<lambda>fr. fr_page fr = None) c' = insert f (frames_with (\<lambda>fr. fr_page fr = None) c)"
    "frames_with (\<lambda>fr. fr_page fr \<noteq> None) c' = frames_with (\<lambda>fr. fr_page fr \<noteq> None) c - {f}"
    using f(1) by (auto simp: frames_with_def sel(2) pgN pg)
  show "pool_inv env sp K {f} c'"
  proof (rule pool_invI)
    show "frame_ok (pc_frames c' ! g)" if "g < length (pc_frames c')" for g
      using I(3) [of g] frf(2) fr [of g] that by (cases "g = f") (simp_all add: sel)
    show "pc_table c' k = Some g \<longleftrightarrow> g < length (pc_frames c') \<and> fr_page (pc_frames c' ! g) = Some k" for k g
      unfolding t pg sel(2) using I(4) [of k g] by blast
    show "k \<in> K" if "g < length (pc_frames c')" "fr_page (pc_frames c' ! g) = Some k" for g k
      using that I(5) [of g k] by (simp add: sel pg)
    have "f \<notin> set (pc_free c)" using I(8) f(2) by (simp add: frames_with_def)
    then show "set (pc_free c') \<inter> {f} = {}" by (simp add: sel')
    show "set (pc_free c') \<union> {f} = frames_with (\<lambda>fr. fr_page fr = None) c'" using I(8) by (simp add: fw(1) sel')
    show "ps_tracked sp (pc_policy c') = frames_with (\<lambda>fr. fr_page fr \<noteq> None) c'" by (simp only: T I(10) fw(2))
    show "fr_buf (pc_frames c' ! g) = ps_data sp (pc_block c') k"
      if "g < length (pc_frames c')" "fr_page (pc_frames c' ! g) = Some k" "\<not> fr_dirty (pc_frames c' ! g)" "\<not> fr_writer (pc_frames c' ! g)" for k g
      using that I(11) [of g k] fr [of g] by (simp add: sel pg)
    show "stored env sp (pc_block c') k"
      if k: "k \<in> K" "\<And>g. g < length (pc_frames c') \<Longrightarrow> fr_page (pc_frames c' ! g) = Some k \<Longrightarrow> \<not> fr_dirty (pc_frames c' ! g)" for k
      unfolding sel
    proof (rule I(12) [OF k(1)])
      fix g assume g: "g < length (pc_frames c)" "fr_page (pc_frames c ! g) = Some k"
      then show "\<not> fr_dirty (pc_frames c ! g)" using k(2) [of g] u(2) fr [of g] by (cases "g = f") (simp_all add: sel)
    qed
    show "pc_journal c' = (if ps_journaled sp then Some (journal_of (env_jcrc env) page_op_encode []) else None)"
      using I(13) by (simp add: sel')
  qed (use I(1,2,6) T in \<open>simp_all add: sel sel'\<close>)
  have "pview sp c' k = pview sp c k" for k
  proof (cases "k = i")
    case True
    then show ?thesis using I(11) [OF f u(2)] u(1) tf by (simp add: pview_def sel unpinned_def)
  next
    case False
    then have "pc_table c k \<noteq> Some f" using I(4) [of k f] f(2) by simp
    then show ?thesis using fr False by (cases "pc_table c k") (auto simp: pview_def sel)
  qed
  then show "same_view sp K c c'" by (simp add: same_view_def)
qed

text \<open>Frame \<open>f\<close> was claimed, and nothing else happened to the pages and the pins.\<close>

definition frame_claimed :: "u64 set \<Rightarrow> ('v, 'p) pool \<Rightarrow> nat \<Rightarrow> ('v, 'p) pool \<Rightarrow> bool" where
  "frame_claimed K c f c' \<longleftrightarrow> pool_inv env sp K {f} c' \<and> same_view sp K c c' \<and> length (pc_frames c') = length (pc_frames c) \<and>
    f < length (pc_frames c) \<and> unpinned (pc_frames c ! f) \<and>
    (\<forall>g<length (pc_frames c). g \<noteq> f \<longrightarrow> frame_like (pc_frames c ! g) (pc_frames c' ! g)) \<and>
    (\<forall>i. pc_table c i = None \<longrightarrow> pc_table c' i = None) \<and> ps_live sp (pc_block c') = ps_live sp (pc_block c) \<and>
    ps_room sp (pc_block c') = ps_room sp (pc_block c) \<and> settles env sp K c (pc_block c')"

lemma claim_free:
  assumes c: "pool_inv env sp K {} c" and ne: "pc_free c \<noteq> []"
  shows "frame_claimed K c (last (pc_free c)) (c\<lparr>pc_free := butlast (pc_free c)\<rparr>)"
proof -
  define f c' where "f = last (pc_free c)" and "c' = c\<lparr>pc_free := butlast (pc_free c)\<rparr>"
  note I = pool_invD [OF c]
  have p: "set (butlast (pc_free c)) = set (pc_free c) - {f}" "distinct (butlast (pc_free c))"
    using pop_last [OF ne I(6)] by (simp_all add: f_def)
  have m: "f \<in> set (pc_free c)" using ne by (simp add: f_def)
  have u: "set (pc_free c) = frames_with (\<lambda>fr. fr_page fr = None) c" using I(8) by simp
  have f: "f < length (pc_frames c)" "fr_page (pc_frames c ! f) = None" using m by (simp_all add: u frames_with_def)
  have sel: "pc_block c' = pc_block c" "pc_frames c' = pc_frames c" "pc_table c' = pc_table c" "pc_policy c' = pc_policy c"
      "pc_journal c' = pc_journal c" "pc_free c' = butlast (pc_free c)" "pview sp c' = pview sp c"
    by (simp_all add: c'_def)
  have fw: "frames_with P c' = frames_with P c" for P by (simp add: frames_with_def sel)
  have "set (pc_free c') \<union> {f} = set (pc_free c)" using p(1) m by (auto simp: sel)
  then have un: "set (pc_free c') \<union> {f} = frames_with (\<lambda>fr. fr_page fr = None) c'" by (simp only: u fw)
  have "pool_inv env sp K {f} c'"
    using c un p unfolding pool_inv_def table_ok_def clean_ok_def stored_ok_def by (simp only: fw sel) blast
  moreover have "same_view sp K c c'" by (simp add: same_view_def sel)
  moreover have "unpinned (pc_frames c ! f)" using I(3) [OF f(1)] f(2) by (simp add: frame_ok_def)
  ultimately have "frame_claimed K c f c'" using f(1) by (simp add: frame_claimed_def sel)
  then show ?thesis by (simp only: f_def c'_def)
qed

lemma claim_clean:
  assumes c: "pool_inv env sp K {} c" and f: "f < length (pc_frames c)" "fr_page (pc_frames c ! f) \<noteq> None"
    and u: "unpinned (pc_frames c ! f)" "\<not> fr_dirty (pc_frames c ! f)"
  shows "frame_claimed K c f (reclaim env f c)"
proof -
  obtain i where i: "fr_page (pc_frames c ! f) = Some i" using f(2) by blast
  note R = reclaim_ok [OF c f(1) i u refl]
  show ?thesis using R f(1) u(1) by (simp add: frame_claimed_def)
qed

lemma claim_policy: "frame_claimed K (c\<lparr>pc_policy := p\<rparr>) f c' = frame_claimed K c f c'"
  by (simp add: frame_claimed_def same_view_def settles_def saved_def)

lemma claim_after:
  assumes v: "same_view sp K c d" "length (pc_frames d) = length (pc_frames c)" "pc_table d = pc_table c"
      "\<forall>f<length (pc_frames c). frame_like (pc_frames c ! f) (pc_frames d ! f)"
      "ps_live sp (pc_block d) = ps_live sp (pc_block c)" "ps_room sp (pc_block d) = ps_room sp (pc_block c)" "saved env sp K c (pc_block c')"
    and cl: "frame_claimed K d f c'"
  shows "frame_claimed K c f c'"
  unfolding frame_claimed_def
proof (intro conjI allI impI)
  note C = cl [unfolded frame_claimed_def]
  show "pool_inv env sp K {f} c'" using C by blast
  show "same_view sp K c c'" using same_view_trans [OF v(1)] C by blast
  show "length (pc_frames c') = length (pc_frames c)" "f < length (pc_frames c)" using C v(2) by auto
  then show "unpinned (pc_frames c ! f)" using C v(4) frame_like_unpinned by blast
  show "frame_like (pc_frames c ! g) (pc_frames c' ! g)" if "g < length (pc_frames c)" "g \<noteq> f" for g
  proof -
    have "frame_like (pc_frames c ! g) (pc_frames d ! g)" "frame_like (pc_frames d ! g) (pc_frames c' ! g)"
      using C v(2,4) that by simp_all
    then show ?thesis by (rule frame_like_trans)
  qed
  show "pc_table c' i = None" if "pc_table c i = None" for i using C v(3) that by simp
  show "ps_live sp (pc_block c') = ps_live sp (pc_block c)" "ps_room sp (pc_block c') = ps_room sp (pc_block c)"
    using C v(5,6) by simp_all
  show "settles env sp K c (pc_block c')" using v(7) by (simp add: settles_def)
qed

lemma claim_flushed:
  assumes c: "pool_inv env sp K {} c" and pg: "\<forall>f<length (pc_frames c). fr_page (pc_frames c ! f) \<noteq> None"
    and h: "h < length (pc_frames c)" "unpinned (pc_frames c ! h)"
  obtains c2 f c3 where "pc_flush env c = (Inr (), c2)" "pick_evictable env False c2 = (Some f, c3)"
    "frame_claimed K c f (reclaim env f c3)"
proof -
  obtain c2 where c2: "pc_flush env c = (Inr (), c2)" "pool_inv env sp K {} c2" "same_view sp K c c2"
    "length (pc_frames c2) = length (pc_frames c)" "\<And>f. f < length (pc_frames c) \<Longrightarrow> \<not> fr_dirty (pc_frames c2 ! f)"
    "\<And>f. f < length (pc_frames c) \<Longrightarrow> frame_like (pc_frames c ! f) (pc_frames c2 ! f)" "pc_table c2 = pc_table c"
    "ps_live sp (pc_block c2) = ps_live sp (pc_block c)" "ps_room sp (pc_block c2) = ps_room sp (pc_block c)"
    "saved env sp K c (pc_block c2)"
    by (rule flush_ok [OF c]) (rule that; assumption)
  obtain q p where q: "pick_evictable env False c2 = (q, c2\<lparr>pc_policy := p\<rparr>)" "pool_inv env sp K {} (c2\<lparr>pc_policy := p\<rparr>)"
      "case q of Some f \<Rightarrow> f < length (pc_frames c2) \<and> fr_page (pc_frames c2 ! f) \<noteq> None \<and> unpinned (pc_frames c2 ! f) \<and>
          (False \<longrightarrow> \<not> fr_dirty (pc_frames c2 ! f))
        | None \<Rightarrow> \<forall>f<length (pc_frames c2). fr_page (pc_frames c2 ! f) \<noteq> None \<longrightarrow>
            \<not> (unpinned (pc_frames c2 ! f) \<and> (False \<longrightarrow> \<not> fr_dirty (pc_frames c2 ! f)))"
    by (rule pick_ok [OF c2(2)]) (rule that; assumption)
  have "fr_page (pc_frames c2 ! h) \<noteq> None" "unpinned (pc_frames c2 ! h)"
    using c2(6) [OF h(1)] pg h by (simp_all add: frame_like_def unpinned_def)
  then obtain f where f: "q = Some f" using q(3) h(1) c2(4) by (cases q) auto
  have "f < length (pc_frames c2)" "fr_page (pc_frames c2 ! f) \<noteq> None" "unpinned (pc_frames c2 ! f)" using q(3) f by simp_all
  moreover from this have "\<not> fr_dirty (pc_frames c2 ! f)" using c2(4,5) by simp
  ultimately have "frame_claimed K (c2\<lparr>pc_policy := p\<rparr>) f (reclaim env f (c2\<lparr>pc_policy := p\<rparr>))"
    by (intro claim_clean [OF q(2)]) simp_all
  then have "frame_claimed K c2 f (reclaim env f (c2\<lparr>pc_policy := p\<rparr>))" by (simp only: claim_policy)
  then have cl: "frame_claimed K c f (reclaim env f (c2\<lparr>pc_policy := p\<rparr>))"
    using c2(6,10) by (intro claim_after [OF c2(3,4,7) _ c2(8,9)]) (simp_all add: reclaim_def)
  have "pick_evictable env False c2 = (Some f, c2\<lparr>pc_policy := p\<rparr>)" using q(1) f by simp
  from c2(1) this cl show thesis by (rule that)
qed

lemma victim_ok:
  assumes c: "pool_inv env sp K {} c" and e: "\<exists>f<length (pc_frames c). unpinned (pc_frames c ! f)"
  obtains f c' where "victim_frame env c = (Inr f, c')" "frame_claimed K c f c'"
proof (cases "pc_free c = []")
  case False
  then have "victim_frame env c = (Inr (last (pc_free c)), c\<lparr>pc_free := butlast (pc_free c)\<rparr>)"
    by (simp add: victim_frame_def)
  then show thesis by (rule that) (rule claim_free [OF c False])
next
  case True
  have pg: "fr_page (pc_frames c ! f) \<noteq> None" if "f < length (pc_frames c)" for f
    using pool_invD(8) [OF c] that True by (auto simp: frames_with_def)
  obtain r p where r: "pick_evictable env True c = (r, c\<lparr>pc_policy := p\<rparr>)" "pool_inv env sp K {} (c\<lparr>pc_policy := p\<rparr>)"
      "case r of Some f \<Rightarrow> f < length (pc_frames c) \<and> fr_page (pc_frames c ! f) \<noteq> None \<and> unpinned (pc_frames c ! f) \<and>
          (True \<longrightarrow> \<not> fr_dirty (pc_frames c ! f))
        | None \<Rightarrow> \<forall>f<length (pc_frames c). fr_page (pc_frames c ! f) \<noteq> None \<longrightarrow>
            \<not> (unpinned (pc_frames c ! f) \<and> (True \<longrightarrow> \<not> fr_dirty (pc_frames c ! f)))"
    by (rule pick_ok [OF c]) (rule that; assumption)
  let ?c1 = "c\<lparr>pc_policy := p\<rparr>"
  show thesis
  proof (cases r)
    case (Some f)
    then have "frame_claimed K ?c1 f (reclaim env f ?c1)" using r(3) by (intro claim_clean [OF r(2)]) simp_all
    then have cl: "frame_claimed K c f (reclaim env f ?c1)" by (simp only: claim_policy)
    have "victim_frame env c = (Inr f, reclaim env f ?c1)" using True r(1) Some by (simp add: victim_frame_def)
    from this cl show thesis by (rule that)
  next
    case None
    obtain h where h: "h < length (pc_frames ?c1)" "unpinned (pc_frames ?c1 ! h)" using e by auto
    have pg1: "\<forall>f<length (pc_frames ?c1). fr_page (pc_frames ?c1 ! f) \<noteq> None" using pg by simp
    have "fr_dirty (pc_frames c ! h)" using r(3) None pg h by simp
    then have ex: "\<exists>fr\<in>set (pc_frames ?c1). unpinned fr \<and> fr_dirty fr" using h nth_mem [of h "pc_frames c"] by auto
    obtain c2 f c3 where f: "pc_flush env ?c1 = (Inr (), c2)" "pick_evictable env False c2 = (Some f, c3)"
        "frame_claimed K ?c1 f (reclaim env f c3)"
      by (rule claim_flushed [OF r(2) pg1 h]) (rule that; assumption)
    show thesis
    proof (rule that)
      show "victim_frame env c = (Inr f, reclaim env f c3)"
        using True r(1) None ex f(1,2) by (simp add: victim_frame_def)
      show "frame_claimed K c f (reclaim env f c3)" using f(3) by (simp only: claim_policy)
    qed
  qed
qed

lemma victim_exhausted:
  assumes c: "pool_inv env sp K {} c" and e: "\<forall>f<length (pc_frames c). \<not> unpinned (pc_frames c ! f)"
  obtains p where "victim_frame env c = (Inl (PoolExhausted (length (pc_frames c))), c\<lparr>pc_policy := p\<rparr>)"
    "pool_inv env sp K {} (c\<lparr>pc_policy := p\<rparr>)"
proof -
  have "pc_free c = []"
  proof (rule ccontr)
    assume "pc_free c \<noteq> []"
    then have "frame_claimed K c (last (pc_free c)) (c\<lparr>pc_free := butlast (pc_free c)\<rparr>)" by (rule claim_free [OF c])
    then show False using e unfolding frame_claimed_def by blast
  qed
  moreover obtain r p where r: "pick_evictable env True c = (r, c\<lparr>pc_policy := p\<rparr>)" "pool_inv env sp K {} (c\<lparr>pc_policy := p\<rparr>)"
      "case r of Some f \<Rightarrow> f < length (pc_frames c) \<and> fr_page (pc_frames c ! f) \<noteq> None \<and> unpinned (pc_frames c ! f) \<and>
          (True \<longrightarrow> \<not> fr_dirty (pc_frames c ! f))
        | None \<Rightarrow> \<forall>f<length (pc_frames c). fr_page (pc_frames c ! f) \<noteq> None \<longrightarrow>
            \<not> (unpinned (pc_frames c ! f) \<and> (True \<longrightarrow> \<not> fr_dirty (pc_frames c ! f)))"
    by (rule pick_ok [OF c]) (rule that; assumption)
  moreover have "r = None" using r(3) e by (cases r) auto
  moreover have "\<not> (\<exists>fr\<in>set (pc_frames c). unpinned fr \<and> fr_dirty fr)" using e by (auto simp: in_set_conv_nth)
  ultimately have "victim_frame env c = (Inl (PoolExhausted (length (pc_frames c))), c\<lparr>pc_policy := p\<rparr>)"
    by (simp add: victim_frame_def)
  from this r(2) show thesis by (rule that)
qed

text \<open>A page enters the claimed frame: loaded from the store, or fresh and dirty.\<close>

lemma install_ok:
  assumes c: "pool_inv env sp K {f} c" and i: "i \<in> ps_live sp (pc_block c)" "pc_table c i = None"
    and nf: "fr_page nf = Some i" "length (fr_buf nf) = BLOCK_SIZE"
      "fr_dirty nf \<or> fr_buf nf = ps_data sp (pc_block c) i \<and> stored env sp (pc_block c) i"
    and c': "c' = c\<lparr>pc_frames := (pc_frames c)[f := nf], pc_table := (pc_table c)(i \<mapsto> f),
      pc_policy := ep_access (env_policy env) f (pc_policy c)\<rparr>"
  shows "pool_inv env sp (insert i K) {} c'" "pview sp c' i = fr_buf nf" "\<And>k. k \<noteq> i \<Longrightarrow> pview sp c' k = pview sp c k"
proof -
  note I = pool_invD [OF c]
  have f: "f < length (pc_frames c)" "fr_page (pc_frames c ! f) = None" using I(8) by (auto simp: frames_with_def)
  have sel: "pc_block c' = pc_block c" "pc_table c' = (pc_table c)(i \<mapsto> f)" "pc_free c' = pc_free c"
      "pc_policy c' = ep_access (env_policy env) f (pc_policy c)" "pc_journal c' = pc_journal c" "length (pc_frames c') = length (pc_frames c)"
    by (simp_all add: c')
  have fr: "pc_frames c' ! g = pc_frames c ! g" if "g \<noteq> f" for g using that by (simp add: c')
  have frf: "pc_frames c' ! f = nf" using f(1) by (simp add: c')
  have pg: "fr_page (pc_frames c' ! g) = Some k \<longleftrightarrow> (if g = f then k = i else fr_page (pc_frames c ! g) = Some k)" for g k
    using frf fr nf(1) by auto
  have pgN: "fr_page (pc_frames c' ! g) = None \<longleftrightarrow> g \<noteq> f \<and> fr_page (pc_frames c ! g) = None" for g
    using frf fr nf(1) by (cases "g = f") simp_all
  have T: "ps_pinv sp (pc_policy c')" "ps_tracked sp (pc_policy c') = insert f (ps_tracked sp (pc_policy c))"
    using tracked_access [OF I(9)] by (simp_all add: sel)
  have ni: "fr_page (pc_frames c ! g) \<noteq> Some i" if "g < length (pc_frames c)" for g using I(4) [of i g] i(2) that by simp
  have nt: "pc_table c k \<noteq> Some f" for k using I(4) [of k f] f(2) by simp
  show "pool_inv env sp (insert i K) {} c'"
  proof (rule pool_invI)
    show "frame_ok (pc_frames c' ! g)" if "g < length (pc_frames c')" for g
      using I(3) [of g] fr [of g] frf nf that by (cases "g = f") (simp_all add: sel frame_ok_def)
    show "pc_table c' k = Some g \<longleftrightarrow> g < length (pc_frames c') \<and> fr_page (pc_frames c' ! g) = Some k" for k g
      using I(4) [of k g] f ni [of g] nt [of k] by (cases "g = f"; cases "k = i") (simp_all add: sel pg)
    show "k \<in> insert i K" if "g < length (pc_frames c')" "fr_page (pc_frames c' ! g) = Some k" for g k
      using that I(5) [of g k] by (cases "g = f") (simp_all add: sel pg)
    show "set (pc_free c') \<union> {} = frames_with (\<lambda>fr. fr_page fr = None) c'"
      using I(7,8) by (auto simp: frames_with_def sel pgN)
    show "ps_tracked sp (pc_policy c') = frames_with (\<lambda>fr. fr_page fr \<noteq> None) c'"
      using f(1) unfolding T I(10) by (auto simp: frames_with_def sel(6) pg)
    show "fr_buf (pc_frames c' ! g) = ps_data sp (pc_block c') k"
      if "g < length (pc_frames c')" "fr_page (pc_frames c' ! g) = Some k" "\<not> fr_dirty (pc_frames c' ! g)" "\<not> fr_writer (pc_frames c' ! g)" for k g
      using that I(11) [of g k] fr [of g] frf nf by (cases "g = f") (simp_all add: sel)
    show "stored env sp (pc_block c') k"
      if k: "k \<in> insert i K" "\<And>g. g < length (pc_frames c') \<Longrightarrow> fr_page (pc_frames c' ! g) = Some k \<Longrightarrow> \<not> fr_dirty (pc_frames c' ! g)" for k
    proof (cases "k = i")
      case True
      then have "\<not> fr_dirty nf" using k(2) [of f] f(1) frf nf(1) by (simp add: sel)
      then show ?thesis using nf(3) by (simp add: True sel)
    next
      case False
      have "stored env sp (pc_block c) k"
      proof (rule I(12))
        show "k \<in> K" using k(1) False by simp
        fix g assume g: "g < length (pc_frames c)" "fr_page (pc_frames c ! g) = Some k"
        then show "\<not> fr_dirty (pc_frames c ! g)" using k(2) [of g] fr [of g] f(2) by (cases "g = f") (simp_all add: sel)
      qed
      then show ?thesis by (simp add: sel)
    qed
    show "pc_journal c' = (if ps_journaled sp then Some (journal_of (env_jcrc env) page_op_encode []) else None)"
      using I(13) by (simp add: sel)
  qed (use I(1,2,6) T i(1) in \<open>simp_all add: sel\<close>)
  show "pview sp c' i = fr_buf nf" by (simp add: pview_def sel frf)
  show "pview sp c' k = pview sp c k" if "k \<noteq> i" for k
    using that nt [of k] fr by (cases "pc_table c k") (auto simp: pview_def sel)
qed

text \<open>An operation pinned frame \<open>f\<close> on page \<open>i\<close>; every other frame that was pinned stays as it was.\<close>

definition page_pinned :: "u64 set \<Rightarrow> ('v, 'p) pool \<Rightarrow> u64 \<Rightarrow> nat \<Rightarrow> ('v, 'p) pool \<Rightarrow> bool" where
  "page_pinned K c i f c' \<longleftrightarrow> pool_inv env sp K {} c' \<and> pc_table c' i = Some f \<and> length (pc_frames c') = length (pc_frames c) \<and>
    f < length (pc_frames c) \<and> ps_live sp (pc_block c') = ps_live sp (pc_block c) \<and> ps_room sp (pc_block c') = ps_room sp (pc_block c) \<and>
    (\<forall>k\<in>K - {i}. same_page (pview sp c' k) (pview sp c k)) \<and>
    (\<forall>g<length (pc_frames c). g \<noteq> f \<longrightarrow> frame_like (pc_frames c ! g) (pc_frames c' ! g)) \<and>
    settles env sp K c (pc_block c')"

lemma fault_in_ok:
  assumes c: "pool_inv env sp K {} c" and i: "i \<in> K" "pc_table c i = None"
    and e: "\<exists>f<length (pc_frames c). unpinned (pc_frames c ! f)"
    and g: "\<And>fr. fr_page (g fr) = fr_page fr" "\<And>fr. fr_buf (g fr) = fr_buf fr" "\<And>fr. fr_dirty (g fr) = fr_dirty fr"
  obtains f c' where "fault_in env i g c = (Inr f, c')" "page_pinned K c i f c'" "same_page (page_bytes f c') (pview sp c i)"
    "unpinned (pc_frames c ! f)" "pc_frames c' ! f = g \<lparr>fr_page = Some i, fr_buf = page_bytes f c', fr_readers = 0, fr_writer = False, fr_dirty = False\<rparr>"
proof -
  obtain f c1 where v: "victim_frame env c = (Inr f, c1)" "frame_claimed K c f c1" by (rule victim_ok [OF c e])
  have c1: "pool_inv env sp K {f} c1" "same_view sp K c c1" "length (pc_frames c1) = length (pc_frames c)" "f < length (pc_frames c)"
      "unpinned (pc_frames c ! f)" "\<forall>g<length (pc_frames c). g \<noteq> f \<longrightarrow> frame_like (pc_frames c ! g) (pc_frames c1 ! g)"
      "pc_table c1 i = None" "ps_live sp (pc_block c1) = ps_live sp (pc_block c)" "ps_room sp (pc_block c1) = ps_room sp (pc_block c)"
      "settles env sp K c (pc_block c1)"
    using v(2) i(2) unfolding frame_claimed_def by blast+
  note I = pool_invD [OF c1(1)]
  have live: "i \<in> ps_live sp (pc_block c1)" using I(2) i(1) by blast
  let ?b = "ps_data sp (pc_block c1) i"
  have rd: "bs_read (env_store env) i (pc_block c1) = Inr ?b" "length ?b = BLOCK_SIZE"
    using store_read [OF I(1) live] by simp_all
  have st: "stored env sp (pc_block c1) i" using I(4) [of i] c1(7) by (intro I(12) [OF i(1)]) simp
  then have vf: "verify_checksum (env_crc env) ?b i = Inr ()" by (simp add: stored_def)
  have fN: "fr_page (pc_frames c1 ! f) = None" using I(8) by (auto simp: frames_with_def)
  then have lim: "fr_readers (pc_frames c1 ! f) = 0" "\<not> fr_writer (pc_frames c1 ! f)" "\<not> fr_dirty (pc_frames c1 ! f)"
    using I(3) [of f] c1(3,4) by (simp_all add: frame_ok_def unpinned_def)
  define nf where "nf = g ((pc_frames c1 ! f)\<lparr>fr_buf := ?b, fr_page := Some i\<rparr>)"
  define c' where "c' = c1\<lparr>pc_frames := (pc_frames c1)[f := nf], pc_table := (pc_table c1)(i \<mapsto> f),
      pc_policy := ep_access (env_policy env) f (pc_policy c1)\<rparr>"
  have nf: "fr_page nf = Some i" "fr_buf nf = ?b" "\<not> fr_dirty nf" by (simp_all add: nf_def g lim)
  note P = install_ok [OF c1(1) live c1(7) nf(1) _ _ c'_def]
  have "load_page env f i c1 = (Inr (), upd_frame f (\<lambda>fr. fr\<lparr>fr_buf := ?b\<rparr>) c1)" by (simp add: load_page_def rd vf)
  moreover have "install env f i g (upd_frame f (\<lambda>fr. fr\<lparr>fr_buf := ?b\<rparr>) c1) = c'"
    using c1(3,4) by (simp add: install_def upd_frame_def c'_def nf_def Let_def)
  ultimately have fi: "fault_in env i g c = (Inr f, c')" using v(1) by (simp add: fault_in_def)
  have nth: "pc_frames c' ! f = nf" "\<And>h. h \<noteq> f \<Longrightarrow> pc_frames c' ! h = pc_frames c1 ! h" using c1(3,4) by (simp_all add: c'_def)
  have "pool_inv env sp K {} c'" using P(1) nf rd(2) st i(1) by (simp add: insert_absorb)
  moreover have "same_page (pview sp c' k) (pview sp c k)" if "k \<in> K - {i}" for k
    using P(3) [of k] nf rd(2) st c1(2) that by (simp add: same_view_def)
  moreover have "pc_table c' i = Some f" "length (pc_frames c') = length (pc_frames c)" "pc_block c' = pc_block c1"
    using c1(3) by (simp_all add: c'_def)
  ultimately have pin: "page_pinned K c i f c'"
    unfolding page_pinned_def using c1(4,6,8,9,10) nth(2) by simp
  have pb: "page_bytes f c' = ?b" by (simp add: page_bytes_def nth nf)
  have "same_page (page_bytes f c') (pview sp c i)"
    using c1(2) i(1) c1(7) unfolding same_view_def pb by (metis pview_absent)
  moreover have "pc_frames c' ! f = g \<lparr>fr_page = Some i, fr_buf = page_bytes f c', fr_readers = 0, fr_writer = False, fr_dirty = False\<rparr>"
    unfolding nth pb nf_def using lim by (intro arg_cong [of _ _ g]) (simp add: frame.equality)
  ultimately show thesis using fi pin c1(5) by (intro that)
qed

text \<open>The frame of a resident page changes its pins, its bytes or its dirty flag.\<close>

lemma update_ok:
  assumes c: "pool_inv env sp K {} c" and f: "f < length (pc_frames c)" "fr_page (pc_frames c ! f) = Some i"
    and nf: "fr_page nf = Some i" "length (fr_buf nf) = BLOCK_SIZE"
      "fr_dirty nf \<or> fr_writer nf \<or> fr_buf nf = ps_data sp (pc_block c) i" "fr_dirty nf \<or> \<not> fr_dirty (pc_frames c ! f)"
    and p: "ps_pinv sp p" "ps_tracked sp p = ps_tracked sp (pc_policy c)"
    and c': "c' = c\<lparr>pc_frames := (pc_frames c)[f := nf], pc_policy := p\<rparr>"
  shows "pool_inv env sp K {} c'" "pview sp c' i = fr_buf nf" "\<And>k. k \<noteq> i \<Longrightarrow> pview sp c' k = pview sp c k" "pc_table c' i = Some f"
proof -
  note I = pool_invD [OF c]
  have sel: "pc_block c' = pc_block c" "pc_table c' = pc_table c" "pc_free c' = pc_free c" "pc_policy c' = p"
      "pc_journal c' = pc_journal c" "length (pc_frames c') = length (pc_frames c)"
    by (simp_all add: c')
  have fr: "pc_frames c' ! g = (if g = f then nf else pc_frames c ! g)" for g using f(1) by (simp add: c' nth_list_update)
  have pg: "fr_page (pc_frames c' ! g) = fr_page (pc_frames c ! g)" for g using f(2) nf(1) by (simp add: fr)
  have fw: "frames_with (\<lambda>fr. fr_page fr = None) c' = frames_with (\<lambda>fr. fr_page fr = None) c"
    "frames_with (\<lambda>fr. fr_page fr \<noteq> None) c' = frames_with (\<lambda>fr. fr_page fr \<noteq> None) c"
    by (simp_all add: frames_with_def sel pg)
  have tf: "pc_table c i = Some f" using f by (simp add: I(4))
  have nt: "pc_table c k \<noteq> Some f" if "k \<noteq> i" for k using I(4) [of k f] f(2) that by simp
  show "pool_inv env sp K {} c'"
  proof (rule pool_invI)
    show "frame_ok (pc_frames c' ! g)" if "g < length (pc_frames c')" for g
      using I(3) [of g] nf that by (cases "g = f") (simp_all add: fr sel frame_ok_def)
    show "pc_table c' k = Some g \<longleftrightarrow> g < length (pc_frames c') \<and> fr_page (pc_frames c' ! g) = Some k" for k g
      unfolding pg sel by (rule I(4))
    show "k \<in> K" if "g < length (pc_frames c')" "fr_page (pc_frames c' ! g) = Some k" for g k
      using that I(5) [of g k] by (simp add: sel pg)
    show "set (pc_free c') \<union> {} = frames_with (\<lambda>fr. fr_page fr = None) c'" unfolding sel fw by (rule I(8))
    show "ps_tracked sp (pc_policy c') = frames_with (\<lambda>fr. fr_page fr \<noteq> None) c'" unfolding sel fw p(2) by (rule I(10))
    show "fr_buf (pc_frames c' ! g) = ps_data sp (pc_block c') k"
      if "g < length (pc_frames c')" "fr_page (pc_frames c' ! g) = Some k" "\<not> fr_dirty (pc_frames c' ! g)" "\<not> fr_writer (pc_frames c' ! g)" for k g
      using that I(11) [of g k] nf by (cases "g = f") (simp_all add: fr sel)
    show "stored env sp (pc_block c') k"
      if k: "k \<in> K" "\<And>g. g < length (pc_frames c') \<Longrightarrow> fr_page (pc_frames c' ! g) = Some k \<Longrightarrow> \<not> fr_dirty (pc_frames c' ! g)" for k
      unfolding sel
    proof (rule I(12) [OF k(1)])
      fix g assume g: "g < length (pc_frames c)" "fr_page (pc_frames c ! g) = Some k"
      then have "\<not> fr_dirty (pc_frames c' ! g)" using k(2) [of g] by (simp add: sel pg)
      then show "\<not> fr_dirty (pc_frames c ! g)" using nf(4) by (simp add: fr split: if_splits)
    qed
    show "pc_journal c' = (if ps_journaled sp then Some (journal_of (env_jcrc env) page_op_encode []) else None)"
      using I(13) by (simp add: sel)
  qed (use I(1,2,6) p in \<open>simp_all add: sel\<close>)
  show "pview sp c' i = fr_buf nf" "pc_table c' i = Some f" using tf by (simp_all add: pview_def sel fr)
  show "pview sp c' k = pview sp c k" if "k \<noteq> i" for k
    using that nt [of k] by (cases "pc_table c k") (auto simp: pview_def sel fr)
qed

lemma access_tracked:
  assumes c: "pool_inv env sp K {} c" and f: "f < length (pc_frames c)" "fr_page (pc_frames c ! f) = Some i"
  shows "ps_pinv sp (ep_access (env_policy env) f (pc_policy c))"
    "ps_tracked sp (ep_access (env_policy env) f (pc_policy c)) = ps_tracked sp (pc_policy c)"
  using tracked_access [OF pool_invD(9) [OF c], of f] pool_invD(10) [OF c] f
  by (auto simp: frames_with_def insert_absorb)

text \<open>A resident page is pinned in its frame.\<close>

lemma pin_resident:
  assumes c: "pool_inv env sp K {} c" and t: "pc_table c i = Some f"
    and g: "\<And>fr. fr_page (g fr) = fr_page fr" "\<And>fr. fr_buf (g fr) = fr_buf fr" "\<And>fr. fr_dirty (g fr) = fr_dirty fr"
      "fr_writer (g (pc_frames c ! f)) \<or> \<not> fr_writer (pc_frames c ! f)"
    and c': "c' = (upd_frame f g c)\<lparr>pc_policy := ep_access (env_policy env) f (pc_policy c)\<rparr>"
  shows "page_pinned K c i f c'" "page_bytes f c' = pview sp c i" "pc_frames c' ! f = g (pc_frames c ! f)"
proof -
  note I = pool_invD [OF c]
  have f: "f < length (pc_frames c)" "fr_page (pc_frames c ! f) = Some i" using t by (simp_all add: I(4))
  let ?nf = "g (pc_frames c ! f)"
  have nf: "fr_page ?nf = Some i" "length (fr_buf ?nf) = BLOCK_SIZE"
      "fr_dirty ?nf \<or> fr_writer ?nf \<or> fr_buf ?nf = ps_data sp (pc_block c) i" "fr_dirty ?nf \<or> \<not> fr_dirty (pc_frames c ! f)"
    using f I(3) [OF f(1)] I(11) [OF f] g by (auto simp: frame_ok_def)
  have e: "c' = c\<lparr>pc_frames := (pc_frames c)[f := ?nf], pc_policy := ep_access (env_policy env) f (pc_policy c)\<rparr>"
    by (simp add: c' upd_frame_def)
  note U = update_ok [OF c f nf access_tracked [OF c f] e]
  have nth: "pc_frames c' ! h = (if h = f then ?nf else pc_frames c ! h)" for h using f(1) by (simp add: e nth_list_update)
  show "page_pinned K c i f c'"
    unfolding page_pinned_def using U f(1) by (simp add: nth) (simp add: e)
  show "page_bytes f c' = pview sp c i" "pc_frames c' ! f = ?nf" using t by (simp_all add: page_bytes_def nth g pview_def)
qed

lemma acquire_read_ok:
  assumes c: "pool_inv env sp K {} c" and i: "i \<in> K"
    and free: "case pc_table c i of Some f \<Rightarrow> \<not> fr_writer (pc_frames c ! f) | None \<Rightarrow> \<exists>f<length (pc_frames c). unpinned (pc_frames c ! f)"
  obtains f c' where "acquire_read env i c = (Inr f, c')" "page_pinned K c i f c'" "same_page (page_bytes f c') (pview sp c i)"
    "\<not> fr_writer (pc_frames c' ! f)" "fr_readers (pc_frames c' ! f) = (if pc_table c i = Some f then fr_readers (pc_frames c ! f) else 0) + 1"
    "pc_table c i = None \<Longrightarrow> unpinned (pc_frames c ! f)"
proof (cases "pc_table c i")
  case (Some f)
  define c' where "c' = (upd_frame f (\<lambda>fr. fr\<lparr>fr_readers := fr_readers fr + 1\<rparr>) c)\<lparr>pc_policy := ep_access (env_policy env) f (pc_policy c)\<rparr>"
  have w: "\<not> fr_writer (pc_frames c ! f)" using free Some by simp
  have r: "acquire_read env i c = (Inr f, c')" using Some w by (simp add: acquire_read_def c'_def)
  note R = pin_resident [OF c Some _ _ _ _ c'_def, simplified]
  show thesis using Some w R by (intro that [OF r]) simp_all
next
  case None
  have e: "\<exists>f<length (pc_frames c). unpinned (pc_frames c ! f)" using free None by simp
  let ?g = "\<lambda>fr. fr\<lparr>fr_readers := 1\<rparr>"
  have g: "\<And>fr. fr_page (?g fr) = fr_page fr" "\<And>fr. fr_buf (?g fr) = fr_buf fr" "\<And>fr. fr_dirty (?g fr) = fr_dirty fr" by simp_all
  obtain f c' where f: "fault_in env i ?g c = (Inr f, c')" "page_pinned K c i f c'" "same_page (page_bytes f c') (pview sp c i)"
      "unpinned (pc_frames c ! f)" "pc_frames c' ! f = ?g \<lparr>fr_page = Some i, fr_buf = page_bytes f c', fr_readers = 0, fr_writer = False, fr_dirty = False\<rparr>"
    using fault_in_ok [OF c i None e g] by blast
  have r: "acquire_read env i c = (Inr f, c')" using f(1) None by (simp add: acquire_read_def)
  show thesis by (rule that [OF r f(2,3)]) (use f(4,5) None in simp_all)
qed

lemma acquire_write_ok:
  assumes c: "pool_inv env sp K {} c" and i: "i \<in> K"
    and free: "case pc_table c i of Some f \<Rightarrow> unpinned (pc_frames c ! f) | None \<Rightarrow> \<exists>f<length (pc_frames c). unpinned (pc_frames c ! f)"
  obtains f c' where "acquire_write env i c = (Inr f, c')" "page_pinned K c i f c'" "same_page (page_bytes f c') (pview sp c i)"
    "fr_writer (pc_frames c' ! f)" "fr_readers (pc_frames c' ! f) = 0" "unpinned (pc_frames c ! f)"
proof (cases "pc_table c i")
  case (Some f)
  define c' where "c' = (upd_frame f (\<lambda>fr. fr\<lparr>fr_writer := True\<rparr>) c)\<lparr>pc_policy := ep_access (env_policy env) f (pc_policy c)\<rparr>"
  have w: "unpinned (pc_frames c ! f)" using free Some by simp
  have r: "acquire_write env i c = (Inr f, c')" using Some w by (simp add: acquire_write_def c'_def unpinned_def)
  note R = pin_resident [OF c Some _ _ _ _ c'_def, simplified]
  show thesis by (rule that [OF r]) (use w R in \<open>simp_all add: unpinned_def\<close>)
next
  case None
  have e: "\<exists>f<length (pc_frames c). unpinned (pc_frames c ! f)" using free None by simp
  let ?g = "\<lambda>fr. fr\<lparr>fr_writer := True\<rparr>"
  have g: "\<And>fr. fr_page (?g fr) = fr_page fr" "\<And>fr. fr_buf (?g fr) = fr_buf fr" "\<And>fr. fr_dirty (?g fr) = fr_dirty fr" by simp_all
  obtain f c' where f: "fault_in env i ?g c = (Inr f, c')" "page_pinned K c i f c'" "same_page (page_bytes f c') (pview sp c i)"
      "unpinned (pc_frames c ! f)" "pc_frames c' ! f = ?g \<lparr>fr_page = Some i, fr_buf = page_bytes f c', fr_readers = 0, fr_writer = False, fr_dirty = False\<rparr>"
    using fault_in_ok [OF c i None e g] by blast
  have r: "acquire_write env i c = (Inr f, c')" using f(1) None by (simp add: acquire_write_def)
  show thesis by (rule that [OF r f(2,3)]) (use f(4,5) None in simp_all)
qed

lemma allocate_ok:
  assumes c: "pool_inv env sp K {} c" and room: "ps_room sp (pc_block c)" and e: "\<exists>f<length (pc_frames c). unpinned (pc_frames c ! f)"
  obtains i f c' where "pc_allocate env c = (Inr (i, f), c')" "i \<notin> K" "i \<noteq> 0" "pool_inv env sp (insert i K) {} c'" "pc_table c' i = Some f"
    "length (pc_frames c') = length (pc_frames c)" "f < length (pc_frames c)" "unpinned (pc_frames c ! f)"
    "pc_frames c' ! f = \<lparr>fr_page = Some i, fr_buf = block_zeroed, fr_readers = 0, fr_writer = True, fr_dirty = True\<rparr>"
    "\<forall>k\<in>K. same_page (pview sp c' k) (pview sp c k)"
    "\<forall>g<length (pc_frames c). g \<noteq> f \<longrightarrow> frame_like (pc_frames c ! g) (pc_frames c' ! g)" "settles env sp K c (pc_block c')"
proof -
  note I = pool_invD [OF c]
  obtain i v where v: "bs_allocate (env_store env) (pc_block c) = (Inr i, v)" "ps_inv sp v" "i \<noteq> 0" "i \<notin> ps_live sp (pc_block c)"
      "ps_live sp v = insert i (ps_live sp (pc_block c))" "\<forall>j\<in>ps_live sp (pc_block c). ps_data sp v j = ps_data sp (pc_block c) j"
      "ps_dur sp (pc_block c) \<subseteq> ps_dur sp v"
    using store_allocate [OF I(1) room] by blast
  define d where "d = c\<lparr>pc_block := v\<rparr>"
  have dat: "ps_data sp v k = ps_data sp (pc_block c) k" if "k \<in> K" for k using v(6) I(2) that by blast
  have fw: "frames_with P d = frames_with P c" for P by (simp add: frames_with_def d_def)
  have d: "pool_inv env sp K {} d"
  proof (rule pool_invI)
    show "fr_buf (pc_frames d ! f) = ps_data sp (pc_block d) k"
      if "f < length (pc_frames d)" "fr_page (pc_frames d ! f) = Some k" "\<not> fr_dirty (pc_frames d ! f)" "\<not> fr_writer (pc_frames d ! f)" for f k
      using that I(11) [of f k] dat [OF I(5) [of f k]] by (simp add: d_def)
    show "stored env sp (pc_block d) k"
      if "k \<in> K" "\<And>f. f < length (pc_frames d) \<Longrightarrow> fr_page (pc_frames d ! f) = Some k \<Longrightarrow> \<not> fr_dirty (pc_frames d ! f)" for k
      using that(2) I(12) [OF that(1)] dat [OF that(1)] v(7) by (auto simp: d_def stored_def)
    show "pc_table d k = Some f \<longleftrightarrow> f < length (pc_frames d) \<and> fr_page (pc_frames d ! f) = Some k" for k f
      using I(4) [of k f] by (simp add: d_def)
    show "set (pc_free d) \<union> {} = frames_with (\<lambda>fr. fr_page fr = None) d" "ps_tracked sp (pc_policy d) = frames_with (\<lambda>fr. fr_page fr \<noteq> None) d"
      unfolding fw using I(8,10) by (simp_all add: d_def)
  qed (use I(1-3,5-7,9,13) v(2,5) in \<open>auto simp: d_def\<close>)
  have e': "\<exists>f<length (pc_frames d). unpinned (pc_frames d ! f)" using e by (simp add: d_def)
  obtain f c1 where vf: "victim_frame env d = (Inr f, c1)" "frame_claimed K d f c1" by (rule victim_ok [OF d e'])
  have c1: "pool_inv env sp K {f} c1" "same_view sp K d c1" "length (pc_frames c1) = length (pc_frames d)" "f < length (pc_frames d)"
      "unpinned (pc_frames d ! f)" "\<forall>g<length (pc_frames d). g \<noteq> f \<longrightarrow> frame_like (pc_frames d ! g) (pc_frames c1 ! g)"
      "\<forall>k. pc_table d k = None \<longrightarrow> pc_table c1 k = None" "ps_live sp (pc_block c1) = ps_live sp (pc_block d)"
      "settles env sp K d (pc_block c1)"
    using vf(2) unfolding frame_claimed_def by blast+
  have iK: "i \<notin> K" using v(4) I(2) by blast
  have "pc_table c i \<noteq> Some g" for g using I(4) [of i g] I(5) [of g i] iK by blast
  then have ti: "pc_table c1 i = None" using c1(7) by (cases "pc_table c i") (auto simp: d_def)
  have live: "i \<in> ps_live sp (pc_block c1)" using c1(8) v(5) by (simp add: d_def)
  have fN: "fr_page (pc_frames c1 ! f) = None" using pool_invD(8) [OF c1(1)] by (auto simp: frames_with_def)
  then have lim: "fr_readers (pc_frames c1 ! f) = 0"
    using pool_invD(3) [OF c1(1), of f] c1(3,4) by (simp add: frame_ok_def unpinned_def)
  define nf where "nf = \<lparr>fr_page = Some i, fr_buf = block_zeroed, fr_readers = 0, fr_writer = True, fr_dirty = True\<rparr>"
  define c' where "c' = c1\<lparr>pc_frames := (pc_frames c1)[f := nf], pc_table := (pc_table c1)(i \<mapsto> f),
      pc_policy := ep_access (env_policy env) f (pc_policy c1)\<rparr>"
  note P = install_ok [OF c1(1) live ti _ _ _ c'_def]
  have nf: "fr_page nf = Some i" "length (fr_buf nf) = BLOCK_SIZE" "fr_dirty nf" by (simp_all add: nf_def)
  have nfe: "(pc_frames c1 ! f)\<lparr>fr_buf := block_zeroed, fr_page := Some i, fr_writer := True, fr_dirty := True\<rparr> = nf"
    using lim by (cases "pc_frames c1 ! f") (simp add: nf_def)
  have "install env f i (\<lambda>fr. fr\<lparr>fr_writer := True, fr_dirty := True\<rparr>) (upd_frame f (\<lambda>fr. fr\<lparr>fr_buf := block_zeroed\<rparr>) c1) = c'"
    using c1(3,4) nfe by (simp add: install_def upd_frame_def c'_def Let_def)
  then have al: "pc_allocate env c = (Inr (i, f), c')"
    using v(1) vf(1) by (simp add: pc_allocate_def on_block_def st_bind_def flip: d_def)
  have nth: "pc_frames c' ! f = nf" "\<And>h. h \<noteq> f \<Longrightarrow> pc_frames c' ! h = pc_frames c1 ! h" using c1(3,4) by (simp_all add: c'_def)
  have pd: "pview sp d k = pview sp c k" if "k \<in> K" for k
    using dat [OF that] by (cases "pc_table c k") (simp_all add: pview_def d_def)
  have "kept env sp K (pc_block c) v" using dat v(7) by (auto simp: kept_def stored_def)
  then have "kept env sp K v w \<Longrightarrow> kept env sp K (pc_block c) w" for w by (auto simp: kept_def)
  moreover have "saved env sp K d w = saved env sp K c w" for w using pd by (simp add: saved_def) (simp add: d_def)
  ultimately have st: "settles env sp K c (pc_block c1)" using c1(9) by (auto simp: settles_def d_def)
  have "same_page (pview sp c' k) (pview sp c k)" if "k \<in> K" for k
  proof -
    have "pview sp c' k = pview sp c1 k" using P(3) [of k] nf that iK by auto
    moreover note pd [OF that]
    moreover have "same_page (pview sp c1 k) (pview sp d k)" using c1(2) that by (simp add: same_view_def)
    ultimately show ?thesis by simp
  qed
  moreover have "pool_inv env sp (insert i K) {} c'" using P(1) nf by simp
  ultimately show thesis
    using that [OF al iK v(3)] c1(1-8) nth st by (simp add: nf_def d_def) (simp add: c'_def d_def)
qed

text \<open>Releasing pins and editing through a write handle.\<close>

lemma release_read_ok:
  assumes c: "pool_inv env sp K {} c" and t: "pc_table c i = Some f"
  shows "pool_inv env sp K {} (release_read f c)" "pview sp (release_read f c) = pview sp c"
proof -
  note I = pool_invD [OF c]
  have f: "f < length (pc_frames c)" "fr_page (pc_frames c ! f) = Some i" using t by (simp_all add: I(4))
  let ?nf = "(pc_frames c ! f)\<lparr>fr_readers := fr_readers (pc_frames c ! f) - 1\<rparr>"
  have nf: "fr_page ?nf = Some i" "length (fr_buf ?nf) = BLOCK_SIZE"
      "fr_dirty ?nf \<or> fr_writer ?nf \<or> fr_buf ?nf = ps_data sp (pc_block c) i" "fr_dirty ?nf \<or> \<not> fr_dirty (pc_frames c ! f)"
    using f I(3) [OF f(1)] I(11) [OF f] by (auto simp: frame_ok_def)
  have e: "release_read f c = c\<lparr>pc_frames := (pc_frames c)[f := ?nf], pc_policy := pc_policy c\<rparr>"
    by (simp add: release_read_def upd_frame_def)
  note U = update_ok [OF c f nf I(9) refl e]
  show "pool_inv env sp K {} (release_read f c)" by (rule U(1))
  have "pview sp (release_read f c) k = pview sp c k" for k
    using U(2,3) pview_resident [OF t, of sp] by (cases "k = i") simp_all
  then show "pview sp (release_read f c) = pview sp c" by blast
qed

lemma release_write_ok:
  assumes c: "pool_inv env sp K {} c" and t: "pc_table c i = Some f" and b: "length b = BLOCK_SIZE"
  defines "c' \<equiv> release_write f (set_page_bytes f b c)"
  shows "pool_inv env sp K {} c'" "pview sp c' i = b" "\<And>k. k \<noteq> i \<Longrightarrow> pview sp c' k = pview sp c k"
proof -
  note I = pool_invD [OF c]
  have f: "f < length (pc_frames c)" "fr_page (pc_frames c ! f) = Some i" using t by (simp_all add: I(4))
  let ?nf = "(pc_frames c ! f)\<lparr>fr_buf := b, fr_writer := False, fr_dirty := True\<rparr>"
  have e: "c' = c\<lparr>pc_frames := (pc_frames c)[f := ?nf], pc_policy := pc_policy c\<rparr>"
    using f(1) by (simp add: c'_def release_write_def set_page_bytes_def upd_frame_def)
  have nf: "fr_page ?nf = Some i" "length (fr_buf ?nf) = BLOCK_SIZE"
      "fr_dirty ?nf \<or> fr_writer ?nf \<or> fr_buf ?nf = ps_data sp (pc_block c) i" "fr_dirty ?nf \<or> \<not> fr_dirty (pc_frames c ! f)"
    using f b by simp_all
  note U = update_ok [OF c f nf I(9) refl e]
  show "pool_inv env sp K {} c'" "pview sp c' i = b" "\<And>k. k \<noteq> i \<Longrightarrow> pview sp c' k = pview sp c k" using U by simp_all
qed

end

end
