(* ===== verification/Tuple_Page.thy ===== *)
theory Tuple_Page
  imports Pages
begin

text \<open>
  The slotted page of \<^verbatim>\<open>src/crates/filesystem/src/tuple/page.rs\<close>: a slot array that grows
  from the header, tuple bytes packed from the end of the page, and the free space
  between them. The 16-bit offsets are words. \<open>tp_ok\<close> is the invariant of the layout and
  \<open>tp_view\<close> what a page means: a list of slots, each a live tuple or a deleted one. Every
  operation keeps the invariant and acts on the view as on that list.
\<close>

unbundle bit_operations_syntax

section \<open>Definitions\<close>

definition TUPLE_FORMAT_VERSION :: u16 where "TUPLE_FORMAT_VERSION = 1"
definition OFF_SLOT_COUNT :: nat where "OFF_SLOT_COUNT = HEADER_LEN"
definition OFF_FREE_START :: nat where "OFF_FREE_START = HEADER_LEN + 2"
definition OFF_FREE_END :: nat where "OFF_FREE_END = HEADER_LEN + 4"
definition SLOT_ARRAY_OFFSET :: nat where "SLOT_ARRAY_OFFSET = HEADER_LEN + 6"
definition SLOT_SIZE :: nat where "SLOT_SIZE = 8"
definition FLAG_DELETED :: u16 where "FLAG_DELETED = 0x0001"

definition tp_open :: "bytes \<Rightarrow> fs_error + bytes" where
  "tp_open buf =
    res_bind (page_header_parse buf) (\<lambda>header.
      if page_type header \<noteq> TUPLE_PAGE then Inl (BadPageType TUPLE_PAGE (page_type header)) else Inr buf)"

definition slot_count :: "bytes \<Rightarrow> fs_error + u16" where
  "slot_count buf = pg_get_u16 buf OFF_SLOT_COUNT"

definition slot_range :: "bytes \<Rightarrow> u16 \<Rightarrow> fs_error + (nat \<times> nat) option" where
  "slot_range buf slot =
    res_bind (pg_get_u16 buf OFF_SLOT_COUNT) (\<lambda>count.
      if slot \<ge> count then Inr None
      else let pos = SLOT_ARRAY_OFFSET + unat slot * SLOT_SIZE in
        res_bind (pg_get_u16 buf (pos + 4)) (\<lambda>flags.
          if flags AND FLAG_DELETED \<noteq> 0 then Inr None
          else res_bind (pg_get_u16 buf pos) (\<lambda>off.
            res_bind (pg_get_u16 buf (pos + 2)) (\<lambda>len.
              Inr (Some (unat off, unat len))))))"

definition slot_bytes :: "bytes \<Rightarrow> u16 \<Rightarrow> fs_error + bytes option" where
  "slot_bytes buf slot =
    res_bind (slot_range buf slot) (\<lambda>r. case r of
        None \<Rightarrow> Inr None
      | Some (off, len) \<Rightarrow> res_bind (slice_at buf off len) (\<lambda>b. Inr (Some b)))"

definition tp_get :: "bytes \<Rightarrow> u16 \<Rightarrow> fs_error + bytes option" where
  "tp_get buf slot = slot_bytes buf slot"

definition tp_iter :: "bytes \<Rightarrow> fs_error + (u16 \<times> bytes) list" where
  "tp_iter buf =
    res_bind (slot_count buf) (\<lambda>count.
    res_bind (collect_res (map (\<lambda>i. res_bind (slot_bytes buf (word_of_nat i)) (\<lambda>b.
        Inr (map_option (Pair (word_of_nat i)) b))) [0..<unat count])) (\<lambda>xs.
      Inr (List.map_filter id xs)))"

definition tp_init :: "bytes \<Rightarrow> fs_error + bytes" where
  "tp_init buf =
    res_bind (page_header_write (page_header_new TUPLE_PAGE TUPLE_FORMAT_VERSION) buf) (\<lambda>buf.
    res_bind (pg_put_u16 OFF_SLOT_COUNT 0 buf) (\<lambda>buf.
    res_bind (pg_put_u16 OFF_FREE_START (word_of_nat SLOT_ARRAY_OFFSET) buf) (\<lambda>buf.
    pg_put_u16 OFF_FREE_END (word_of_nat PAGE_SIZE) buf)))"

definition free_space :: "bytes \<Rightarrow> fs_error + nat" where
  "free_space buf =
    res_bind (pg_get_u16 buf OFF_FREE_END) (\<lambda>free_end.
    res_bind (pg_get_u16 buf OFF_FREE_START) (\<lambda>free_start.
      Inr (unat (free_end - free_start) - SLOT_SIZE)))"

definition tp_insert :: "bytes \<Rightarrow> bytes \<Rightarrow> fs_error + (u16 option \<times> bytes)" where
  "tp_insert tuple buf =
    res_bind (pg_get_u16 buf OFF_SLOT_COUNT) (\<lambda>slot_count.
    res_bind (pg_get_u16 buf OFF_FREE_START) (\<lambda>free_start.
    res_bind (pg_get_u16 buf OFF_FREE_END) (\<lambda>free_end.
      if length tuple + SLOT_SIZE > unat (free_end - free_start) then Inr (None, buf)
      else let tuple_off = free_end - word_of_nat (length tuple);
               slot_pos = unat free_start in
        res_bind (copy_at (unat tuple_off) tuple buf) (\<lambda>buf.
        res_bind (pg_put_u16 slot_pos tuple_off buf) (\<lambda>buf.
        res_bind (pg_put_u16 (slot_pos + 2) (word_of_nat (length tuple)) buf) (\<lambda>buf.
        res_bind (pg_put_u16 (slot_pos + 4) 0 buf) (\<lambda>buf.
        res_bind (pg_put_u16 (slot_pos + 6) 0 buf) (\<lambda>buf.
        res_bind (pg_put_u16 OFF_SLOT_COUNT (slot_count + 1) buf) (\<lambda>buf.
        res_bind (pg_put_u16 OFF_FREE_START (free_start + word_of_nat SLOT_SIZE) buf) (\<lambda>buf.
        res_bind (pg_put_u16 OFF_FREE_END tuple_off buf) (\<lambda>buf.
          Inr (Some slot_count, buf)))))))))))) "

definition tp_delete :: "u16 \<Rightarrow> bytes \<Rightarrow> fs_error + (bool \<times> bytes)" where
  "tp_delete slot buf =
    res_bind (pg_get_u16 buf OFF_SLOT_COUNT) (\<lambda>count.
      if slot \<ge> count then Inr (False, buf)
      else let flags_pos = SLOT_ARRAY_OFFSET + unat slot * SLOT_SIZE + 4 in
        res_bind (pg_get_u16 buf flags_pos) (\<lambda>flags.
        res_bind (pg_put_u16 flags_pos (flags OR FLAG_DELETED) buf) (\<lambda>buf.
          Inr (True, buf))))"

text \<open>\<open>into_slot_bytes_mut\<close> lends the live tuple's bytes for an edit of the same length; the
  edit is the function \<open>f\<close>.\<close>

definition tp_edit :: "u16 \<Rightarrow> (bytes \<Rightarrow> bytes) \<Rightarrow> bytes \<Rightarrow> fs_error + (bool \<times> bytes)" where
  "tp_edit slot f buf =
    res_bind (slot_range buf slot) (\<lambda>r. case r of
        None \<Rightarrow> Inr (False, buf)
      | Some (off, len) \<Rightarrow>
          res_bind (slice_at buf off len) (\<lambda>b.
          res_bind (copy_at off (f b) buf) (\<lambda>buf. Inr (True, buf))))"

section \<open>The layout\<close>

text \<open>The three header fields and the three fields of a slot, as numbers.\<close>

definition tp_count :: "bytes \<Rightarrow> nat" where "tp_count p = unat (u16_at p OFF_SLOT_COUNT)"
definition tp_start :: "bytes \<Rightarrow> nat" where "tp_start p = unat (u16_at p OFF_FREE_START)"
definition tp_end :: "bytes \<Rightarrow> nat" where "tp_end p = unat (u16_at p OFF_FREE_END)"
definition slot_pos :: "nat \<Rightarrow> nat" where "slot_pos i = SLOT_ARRAY_OFFSET + i * SLOT_SIZE"
definition slot_off :: "bytes \<Rightarrow> nat \<Rightarrow> nat" where "slot_off p i = unat (u16_at p (slot_pos i))"
definition slot_len :: "bytes \<Rightarrow> nat \<Rightarrow> nat" where "slot_len p i = unat (u16_at p (slot_pos i + 2))"
definition slot_flags :: "bytes \<Rightarrow> nat \<Rightarrow> u16" where "slot_flags p i = u16_at p (slot_pos i + 4)"

definition slot_view :: "bytes \<Rightarrow> nat \<Rightarrow> bytes option" where
  "slot_view p i = (if slot_flags p i AND FLAG_DELETED \<noteq> 0 then None else Some (rd p (slot_off p i) (slot_len p i)))"

definition tp_view :: "bytes \<Rightarrow> bytes option list" where
  "tp_view p = map (slot_view p) [0..<tp_count p]"

definition tp_header :: "bytes \<Rightarrow> bool" where
  "tp_header p \<longleftrightarrow> (\<exists>h. has_header p h \<and> page_type h = TUPLE_PAGE)"

text \<open>Slots lie below the free space, tuples above it, and the tuples do not overlap.\<close>

definition tp_ok :: "bytes \<Rightarrow> bool" where
  "tp_ok p \<longleftrightarrow> length p = PAGE_SIZE \<and> tp_header p \<and> tp_start p = slot_pos (tp_count p) \<and>
    tp_start p \<le> tp_end p \<and> tp_end p \<le> PAGE_SIZE \<and>
    (\<forall>i<tp_count p. tp_end p \<le> slot_off p i \<and> slot_off p i + slot_len p i \<le> PAGE_SIZE) \<and>
    (\<forall>j<tp_count p. \<forall>i<j. slot_off p j + slot_len p j \<le> slot_off p i)"

text \<open>Room for one more tuple of \<open>n\<close> bytes.\<close>

definition tp_fits :: "bytes \<Rightarrow> nat \<Rightarrow> bool" where
  "tp_fits p n \<longleftrightarrow> n + SLOT_SIZE \<le> tp_end p - tp_start p"

lemmas tp_consts = OFF_SLOT_COUNT_def OFF_FREE_START_def OFF_FREE_END_def SLOT_ARRAY_OFFSET_def
  SLOT_SIZE_def HEADER_LEN_def PAGE_SIZE_def BLOCK_SIZE_def OFF_CHECKSUM_def slot_pos_def

lemmas tp_fields = tp_count_def tp_start_def tp_end_def slot_off_def slot_len_def slot_flags_def

lemma length_tp_view [simp]: "length (tp_view p) = tp_count p"
  by (simp add: tp_view_def)

lemma tp_view_nth: "i < tp_count p \<Longrightarrow> tp_view p ! i = slot_view p i"
  by (simp add: tp_view_def)

lemma tp_open_iff: "tp_open p = Inr q \<longleftrightarrow> tp_header p \<and> q = p"
  by (auto simp: tp_open_def tp_header_def header_parse_iff split: if_splits)

lemma tp_open_ok: "tp_ok p \<Longrightarrow> tp_open p = Inr p"
  by (simp add: tp_open_iff tp_ok_def)

lemma tp_slots_bound:
  assumes "tp_ok p" "i < tp_count p"
  shows "slot_pos i + 8 \<le> tp_start p" "tp_start p \<le> tp_end p" "tp_end p \<le> slot_off p i"
    "slot_off p i + slot_len p i \<le> PAGE_SIZE" "tp_end p \<le> PAGE_SIZE"
  using assms by (auto simp: tp_ok_def tp_consts)

lemma slot_range_ok:
  assumes "tp_ok p"
  shows "slot_range p s = Inr (if unat s < tp_count p \<and> slot_flags p (unat s) AND FLAG_DELETED = 0
    then Some (slot_off p (unat s), slot_len p (unat s)) else None)"
proof (cases "unat s < tp_count p")
  case True
  have len: "length p = 8192" using assms by (simp add: tp_ok_def tp_consts)
  have "slot_pos (unat s) + 8 \<le> 8192" using tp_slots_bound [OF assms True] by (simp add: PAGE_SIZE_def BLOCK_SIZE_def)
  then show ?thesis
    using len True by (simp add: slot_range_def pg_get_u16_ok word_le_nat_alt tp_fields tp_consts Let_def)
next
  case False
  have len: "length p = 8192" using assms by (simp add: tp_ok_def tp_consts)
  then show ?thesis
    using False by (simp add: slot_range_def pg_get_u16_ok word_le_nat_alt tp_fields tp_consts)
qed

lemma slot_bytes_ok:
  assumes "tp_ok p"
  shows "slot_bytes p s = Inr (if unat s < tp_count p then tp_view p ! unat s else None)"
proof -
  have "length p = PAGE_SIZE" using assms by (simp add: tp_ok_def)
  then show ?thesis
    using tp_slots_bound [OF assms, of "unat s"]
    by (auto simp: slot_bytes_def slot_range_ok [OF assms] slice_at_def tp_view_nth slot_view_def)
qed

lemma tp_get_ok:
  "tp_ok p \<Longrightarrow> tp_get p s = Inr (if unat s < length (tp_view p) then tp_view p ! unat s else None)"
  by (simp add: tp_get_def slot_bytes_ok)

lemma tp_iter_ok:
  assumes "tp_ok p"
  shows "tp_iter p = Inr (List.map_filter id
    (map (\<lambda>(i, b). map_option (Pair (word_of_nat i)) b) (enumerate 0 (tp_view p))))"
proof -
  have len: "length p = 8192" using assms by (simp add: tp_ok_def tp_consts)
  have small: "unat (word_of_nat i :: u16) = i" if "i < tp_count p" for i
    using that unsigned_less [of "u16_at p OFF_SLOT_COUNT", where 'a = nat] by (simp add: tp_count_def)
  have b: "res_bind (slot_bytes p (word_of_nat i)) (\<lambda>b. Inr (map_option (Pair (word_of_nat i)) b)) =
      (Inr (map_option (Pair (word_of_nat i)) (tp_view p ! i)) :: fs_error + (u16 \<times> bytes) option)"
    if "i < tp_count p" for i
    by (simp only: slot_bytes_ok [OF assms] small [OF that] that if_True res_bind.simps)
  have "map (\<lambda>i. res_bind (slot_bytes p (word_of_nat i)) (\<lambda>b. Inr (map_option (Pair (word_of_nat i)) b)))
      [0..<tp_count p] =
    map (\<lambda>i. Inr (map_option (Pair (word_of_nat i)) (tp_view p ! i)) :: fs_error + (u16 \<times> bytes) option)
      [0..<tp_count p]"
    by (rule map_cong [OF refl]) (use b in auto)
  moreover have "slot_count p = Inr (u16_at p OFF_SLOT_COUNT)"
    using len by (simp add: slot_count_def pg_get_u16_ok tp_consts)
  ultimately have "tp_iter p = Inr (List.map_filter id
      (map (\<lambda>i. map_option (Pair (word_of_nat i)) (tp_view p ! i)) [0..<tp_count p]))"
    by (simp only: tp_iter_def res_bind.simps collect_res_map_Inr_comp flip: tp_count_def)
  also have "map (\<lambda>i. map_option (Pair (word_of_nat i :: u16)) (tp_view p ! i)) [0..<tp_count p] =
      map (\<lambda>(i, b). map_option (Pair (word_of_nat i)) b) (enumerate 0 (tp_view p))"
    by (rule nth_equalityI) (simp_all add: nth_enumerate_eq)
  finally show ?thesis .
qed

section \<open>Operations\<close>

lemma tp_header_splice:
  assumes "tp_header p" "off + length d \<le> length p" "HEADER_LEN \<le> off"
  shows "tp_header (splice p off d)"
proof -
  obtain h where h: "has_header p h" "page_type h = TUPLE_PAGE" using assms(1) by (auto simp: tp_header_def)
  have "has_header (splice p off d) h"
    using assms(3) by (intro has_header_splice h(1) assms(2)) (simp add: OFF_CHECKSUM_def HEADER_LEN_def)
  then show ?thesis using h(2) by (auto simp: tp_header_def)
qed

lemma tp_init_ok:
  assumes "length p = PAGE_SIZE"
  obtains q where "tp_init p = Inr q" "tp_ok q" "tp_view q = []" "tp_start q = 27" "tp_end q = 8192"
proof -
  have len: "HEADER_LEN \<le> length p" using assms by (simp add: tp_consts)
  obtain p1 where p1: "page_header_write (page_header_new TUPLE_PAGE TUPLE_FORMAT_VERSION) p = Inr p1"
      "length p1 = length p" "has_header p1 (page_header_new TUPLE_PAGE TUPLE_FORMAT_VERSION)"
    using header_write [OF len] by blast
  let ?a = "splice p1 21 (to_be 2 (0 :: u16))"
  let ?b = "splice ?a 23 (to_be 2 (27 :: u16))"
  let ?c = "splice ?b 25 (to_be 2 (8192 :: u16))"
  have l: "length p1 = 8192" using p1(2) assms by (simp add: tp_consts)
  have h: "tp_header p1" using p1(3) by (auto simp: tp_header_def page_header_new_def)
  have i: "tp_init p = Inr ?c"
    using l by (simp add: tp_init_def p1(1) pg_put_u16_ok tp_consts)
  have f: "u16_at ?c 21 = 0" "u16_at ?c 23 = 27" "u16_at ?c 25 = 8192"
    using l by (simp_all add: u16_at_splice u16_at_splice_other)
  have "tp_header ?c" using l h by (intro tp_header_splice) (simp_all add: HEADER_LEN_def)
  then have "tp_ok ?c" using l f by (simp add: tp_ok_def tp_fields tp_consts)
  then show thesis using that i f by (simp add: tp_view_def tp_fields tp_consts)
qed

lemma tp_full:
  assumes "tp_ok p" "\<not> tp_fits p (length t)"
  shows "tp_insert t p = Inr (None, p)"
proof -
  have len: "length p = 8192" and le: "u16_at p 23 \<le> u16_at p 25"
    using assms(1) by (simp_all add: tp_ok_def tp_consts tp_fields word_le_nat_alt)
  then show ?thesis
    using assms(2) by (simp add: tp_insert_def tp_fits_def pg_get_u16_ok tp_fields tp_consts unat_sub)
qed

text \<open>The page after an insertion that fits, field by field.\<close>

lemma tp_insert_fields:
  assumes ok: "tp_ok p" and fits: "tp_fits p (length t)"
  obtains q where "tp_insert t p = Inr (Some (u16_at p OFF_SLOT_COUNT), q)" "length q = PAGE_SIZE" "tp_header q"
    "tp_count q = Suc (tp_count p)" "tp_start q = tp_start p + 8" "tp_end q = tp_end p - length t"
    "slot_off q (tp_count p) = tp_end p - length t" "slot_len q (tp_count p) = length t" "slot_flags q (tp_count p) = 0"
    "rd q (tp_end p - length t) (length t) = t"
    "\<And>off n. OFF_FREE_END + 2 \<le> off \<Longrightarrow> off + n \<le> tp_start p \<or> tp_end p \<le> off \<Longrightarrow> rd q off n = rd p off n"
proof -
  define s e where "s = tp_start p" and "e = tp_end p"
  define b where "b = e - length t"
  have len: "length p = 8192" and hd: "tp_header p" and s27: "s = 27 + tp_count p * 8"
    and se: "27 \<le> s" "s \<le> e" "e \<le> 8192"
    using ok by (simp_all add: tp_ok_def tp_consts s_def e_def)
  have fit: "s + 8 \<le> b" "b + length t = e" "length t \<le> e"
    using fits se by (simp_all add: tp_fits_def s_def e_def b_def SLOT_SIZE_def)
  have u: "unat (u16_at p 23) = s" "unat (u16_at p 25) = e" "unat (u16_at p 21) = tp_count p"
    by (simp_all add: s_def e_def tp_fields tp_consts)
  have sub: "unat (u16_at p 25 - u16_at p 23) = e - s"
    using u se by (simp add: unat_sub word_le_nat_alt)
  have tl: "unat (word_of_nat (length t) :: u16) = length t" using fit se by simp
  have off: "unat (u16_at p 25 - word_of_nat (length t)) = b"
    using u tl fit by (subst unat_sub) (simp_all add: word_le_nat_alt b_def)
  have cnt: "unat (u16_at p 21 + 1) = Suc (tp_count p)"
    using u s27 se by (subst unat_add_lem [THEN iffD1]) simp_all
  have st: "unat (u16_at p 23 + 8) = s + 8"
    using u se fit by (subst unat_add_lem [THEN iffD1]) simp_all
  let ?o = "u16_at p 25 - word_of_nat (length t)"
  define p1 where "p1 = splice p b t"
  define p2 where "p2 = splice p1 s (to_be 2 ?o)"
  define p3 where "p3 = splice p2 (s + 2) (to_be 2 (word_of_nat (length t) :: u16))"
  define p4 where "p4 = splice p3 (s + 4) (to_be 2 (0 :: u16))"
  define p5 where "p5 = splice p4 (s + 6) (to_be 2 (0 :: u16))"
  define p6 where "p6 = splice p5 21 (to_be 2 (u16_at p 21 + 1))"
  define p7 where "p7 = splice p6 23 (to_be 2 (u16_at p 23 + 8))"
  define q where "q = splice p7 25 (to_be 2 ?o)"
  have L1: "length p1 = 8192" using len fit se by (simp add: p1_def)
  have L2: "length p2 = 8192" using L1 fit se by (simp add: p2_def)
  have L3: "length p3 = 8192" using L2 fit se by (simp add: p3_def)
  have L4: "length p4 = 8192" using L3 fit se by (simp add: p4_def)
  have L5: "length p5 = 8192" using L4 fit se by (simp add: p5_def)
  have L6: "length p6 = 8192" using L5 by (simp add: p6_def)
  have L7: "length p7 = 8192" using L6 by (simp add: p7_def)
  have L: "length q = 8192" using L7 by (simp add: q_def)
  have ins: "tp_insert t p = Inr (Some (u16_at p 21), q)"
    using len L1 L2 L3 L4 L5 L6 L7 fit se
    by (simp add: tp_insert_def pg_get_u16_ok copy_at_ok pg_put_u16_ok tp_consts sub off u Let_def del: add_2_eq_Suc'
        flip: p1_def p2_def p3_def p4_def p5_def p6_def p7_def q_def)
  note r = rd_splice_other [of 25 "to_be 2 ?o" p7, folded q_def] rd_splice_other [of 23 "to_be 2 (u16_at p 23 + 8)" p6, folded p7_def]
    rd_splice_other [of 21 "to_be 2 (u16_at p 21 + 1)" p5, folded p6_def] rd_splice_other [of "s + 6" "to_be 2 (0 :: u16)" p4, folded p5_def]
    rd_splice_other [of "s + 4" "to_be 2 (0 :: u16)" p3, folded p4_def]
    rd_splice_other [of "s + 2" "to_be 2 (word_of_nat (length t) :: u16)" p2, folded p3_def]
    rd_splice_other [of s "to_be 2 ?o" p1, folded p2_def] rd_splice_other [of b t p, folded p1_def]
  have w: "rd p2 s 2 = to_be 2 ?o" "rd p3 (s + 2) 2 = to_be 2 (word_of_nat (length t) :: u16)"
      "rd p4 (s + 4) 2 = to_be 2 (0 :: u16)" "rd p6 21 2 = to_be 2 (u16_at p 21 + 1)"
      "rd p7 23 2 = to_be 2 (u16_at p 23 + 8)" "rd q 25 2 = to_be 2 ?o" "rd p1 b (length t) = t"
    unfolding p2_def p3_def p4_def p6_def p7_def q_def p1_def
    by (rule rd_splice_same; use len L1 L2 L3 L5 L6 L7 se fit in simp)+
  note L_all = len L1 L2 L3 L4 L5 L6 L7 L se fit
  have f: "u16_at q 21 = u16_at p 21 + 1" "u16_at q 23 = u16_at p 23 + 8" "u16_at q 25 = ?o"
    unfolding u16_at_def [of q] using L_all by (simp_all add: r w)
  have g: "u16_at q s = ?o" "u16_at q (s + 2) = word_of_nat (length t)" "u16_at q (s + 4) = 0" "rd q b (length t) = t"
    unfolding u16_at_def [of q] using L_all by (simp_all add: r w del: add_2_eq_Suc')
  have hq: "tp_header q"
    unfolding q_def p7_def p6_def p5_def p4_def p3_def p2_def p1_def
    using L_all hd by (intro tp_header_splice) (simp_all add: HEADER_LEN_def)
  have fr: "rd q x n = rd p x n" if "OFF_FREE_END + 2 \<le> x" "x + n \<le> tp_start p \<or> tp_end p \<le> x" for x n
  proof -
    have x: "27 \<le> x" using that(1) by (simp add: tp_consts)
    from that(2) show ?thesis
    proof
      assume "x + n \<le> tp_start p"
      then have "x + n \<le> s" by (simp add: s_def)
      then show ?thesis using x L_all by (simp add: r)
    next
      assume "tp_end p \<le> x"
      then have "e \<le> x" by (simp add: e_def)
      then show ?thesis using x L_all by (simp add: r)
    qed
  qed
  have sp: "slot_pos (tp_count p) = s" using s27 by (simp add: tp_consts)
  show thesis
  proof (rule that [of q])
    show "tp_insert t p = Inr (Some (u16_at p OFF_SLOT_COUNT), q)" using ins by (simp add: tp_consts)
    show "length q = PAGE_SIZE" using L by (simp add: tp_consts)
    show "tp_count q = Suc (tp_count p)" using f(1) cnt by (simp add: tp_count_def tp_consts)
    show "tp_start q = tp_start p + 8" using f(2) st s_def by (simp add: tp_start_def tp_consts)
    show "tp_end q = tp_end p - length t" using f(3) off b_def e_def by (simp add: tp_end_def tp_consts)
    show "slot_off q (tp_count p) = tp_end p - length t" using g(1) off b_def e_def by (simp add: slot_off_def sp)
    show "slot_len q (tp_count p) = length t" using g(2) tl by (simp add: slot_len_def sp)
    show "slot_flags q (tp_count p) = 0" using g(3) by (simp add: slot_flags_def sp)
    show "rd q (tp_end p - length t) (length t) = t" using g(4) by (simp add: b_def e_def)
  qed (use hq fr in auto)
qed

lemma slot_fields_cong:
  assumes "\<And>off. slot_pos i \<le> off \<Longrightarrow> off + 2 \<le> slot_pos i + 8 \<Longrightarrow> rd q off 2 = rd p off 2"
  shows "slot_off q i = slot_off p i" "slot_len q i = slot_len p i" "slot_flags q i = slot_flags p i"
  using assms by (simp_all add: slot_off_def slot_len_def slot_flags_def u16_at_def)

lemma tp_insert_ok:
  assumes ok: "tp_ok p" and fits: "tp_fits p (length t)"
  obtains q where "tp_insert t p = Inr (Some (word_of_nat (length (tp_view p))), q)" "tp_ok q"
    "tp_view q = tp_view p @ [Some t]" "tp_end q - tp_start q = tp_end p - tp_start p - (length t + 8)"
proof -
  obtain q where q: "tp_insert t p = Inr (Some (u16_at p OFF_SLOT_COUNT), q)" "length q = PAGE_SIZE" "tp_header q"
    and cnt: "tp_count q = Suc (tp_count p)" and st: "tp_start q = tp_start p + 8" and en: "tp_end q = tp_end p - length t"
    and new: "slot_off q (tp_count p) = tp_end p - length t" "slot_len q (tp_count p) = length t"
      "slot_flags q (tp_count p) = 0" "rd q (tp_end p - length t) (length t) = t"
    and fr: "\<And>off n. OFF_FREE_END + 2 \<le> off \<Longrightarrow> off + n \<le> tp_start p \<or> tp_end p \<le> off \<Longrightarrow> rd q off n = rd p off n"
    using tp_insert_fields [OF ok fits] by blast
  have ft: "length t + 8 \<le> tp_end p - tp_start p" using fits by (simp add: tp_fits_def SLOT_SIZE_def)
  have old: "slot_off q i = slot_off p i" "slot_len q i = slot_len p i" "slot_flags q i = slot_flags p i"
      "slot_view q i = slot_view p i" if i: "i < tp_count p" for i
  proof -
    note b = tp_slots_bound [OF ok i]
    have "rd q off 2 = rd p off 2" if "slot_pos i \<le> off" "off + 2 \<le> slot_pos i + 8" for off
      using that b by (intro fr) (auto simp: tp_consts)
    then show f: "slot_off q i = slot_off p i" "slot_len q i = slot_len p i" "slot_flags q i = slot_flags p i"
      using slot_fields_cong [of i q p] by simp_all
    have "OFF_FREE_END + 2 \<le> slot_off p i" using b by (simp add: tp_consts)
    then show "slot_view q i = slot_view p i" using b by (simp add: slot_view_def f fr)
  qed
  have "tp_ok q"
    unfolding tp_ok_def
  proof (intro conjI allI impI)
    show "tp_start q = slot_pos (tp_count q)" using ok by (simp add: st cnt tp_ok_def tp_consts)
    have "tp_end p \<le> PAGE_SIZE" using ok by (simp add: tp_ok_def)
    then show "tp_start q \<le> tp_end q" "tp_end q \<le> PAGE_SIZE" using ft by (simp_all add: st en)
    fix i assume "i < tp_count q"
    then consider "i < tp_count p" | "i = tp_count p" using cnt by linarith
    then have i: "tp_end q \<le> slot_off q i \<and> slot_off q i + slot_len q i \<le> PAGE_SIZE \<and>
        (\<forall>k<i. slot_off q i + slot_len q i \<le> slot_off q k)"
    proof cases
      case 1
      have "slot_off q i + slot_len q i \<le> slot_off q k" if "k < i" for k
        using old(1,2) [OF 1] old(1) [of k] 1 that ok by (simp add: tp_ok_def)
      then show ?thesis using tp_slots_bound(3,4) [OF ok 1] old(1,2) [OF 1] en by simp
    next
      case 2
      have "slot_off q i + slot_len q i \<le> slot_off q k" if "k < i" for k
        using tp_slots_bound(3) [OF ok, of k] old(1) [of k] that new(1,2) ft by (simp add: 2)
      then show ?thesis using new(1,2) en ft \<open>tp_end p \<le> PAGE_SIZE\<close> by (simp add: 2)
    qed
    then show "tp_end q \<le> slot_off q i" "slot_off q i + slot_len q i \<le> PAGE_SIZE" by simp_all
    show "slot_off q i + slot_len q i \<le> slot_off q k" if "k < i" for k using i that by simp
  qed (use q in auto)
  moreover have "tp_view q = tp_view p @ [Some t]"
    by (simp add: tp_view_def cnt old(4)) (simp add: slot_view_def new)
  moreover have "u16_at p OFF_SLOT_COUNT = word_of_nat (length (tp_view p))" by (simp add: tp_count_def)
  ultimately show thesis using that q(1) ft by (simp add: st en)
qed

lemma tp_delete_ok:
  assumes ok: "tp_ok p"
  obtains q where "tp_delete s p = Inr (unat s < length (tp_view p), q)" "tp_ok q"
    "tp_view q = (tp_view p)[unat s := None]" "tp_end q = tp_end p" "tp_start q = tp_start p"
proof (cases "unat s < tp_count p")
  case False
  have "length p = 8192" using ok by (simp add: tp_ok_def tp_consts)
  then have "tp_delete s p = Inr (False, p)"
    using False by (simp add: tp_delete_def pg_get_u16_ok word_le_nat_alt tp_fields tp_consts)
  then show thesis using that ok False by (simp add: list_update_beyond)
next
  case True
  define i where "i = unat s"
  note b = tp_slots_bound [OF ok True, folded i_def]
  have len: "length p = 8192" using ok by (simp add: tp_ok_def tp_consts)
  have b8: "slot_pos i + 8 \<le> 8192" "slot_pos i = 27 + i * 8" using b by (simp_all add: tp_consts)
  define g where "g = slot_flags p i OR FLAG_DELETED"
  define q where "q = splice p (slot_pos i + 4) (to_be 2 g)"
  have d: "tp_delete s p = Inr (True, q)"
    using True len b8(1)
    by (simp add: tp_delete_def pg_get_u16_ok pg_put_u16_ok word_le_nat_alt tp_fields tp_consts i_def Let_def g_def q_def)
  have r: "rd q off n = rd p off n" if "off + n \<le> slot_pos i + 4 \<or> slot_pos i + 6 \<le> off" for off n
    unfolding q_def using that len b8 by (intro rd_splice_other) auto
  have lq: "length q = PAGE_SIZE" using len b8 by (simp add: q_def tp_consts)
  have hq: "tp_header q"
    unfolding q_def using ok len b8 by (intro tp_header_splice) (simp_all add: HEADER_LEN_def tp_ok_def)
  have h: "tp_count q = tp_count p" "tp_start q = tp_start p" "tp_end q = tp_end p"
    using b8(2) by (simp_all add: tp_fields u16_at_def r tp_consts)
  have sl: "slot_off q j = slot_off p j" "slot_len q j = slot_len p j" for j
  proof -
    have "slot_pos j + 4 \<le> slot_pos i + 4 \<or> slot_pos i + 6 \<le> slot_pos j" by (auto simp: tp_consts)
    then show "slot_off q j = slot_off p j" "slot_len q j = slot_len p j"
      by (auto simp: slot_off_def slot_len_def u16_at_def r)
  qed
  have fl: "slot_flags q j = (if j = i then g else slot_flags p j)" for j
  proof (cases "j = i")
    case True
    then show ?thesis using len b8 by (simp add: slot_flags_def u16_at_splice q_def)
  next
    case False
    then have "slot_pos j + 4 + 2 \<le> slot_pos i + 4 \<or> slot_pos i + 6 \<le> slot_pos j + 4" by (auto simp: tp_consts)
    then show ?thesis using False by (simp only: slot_flags_def u16_at_def r if_False)
  qed
  have "bit (g AND FLAG_DELETED) 0" by (simp add: g_def FLAG_DELETED_def bit_simps)
  then have "g AND FLAG_DELETED \<noteq> 0" by auto
  moreover have "rd q (slot_off p j) (slot_len p j) = rd p (slot_off p j) (slot_len p j)" if "j < tp_count p" for j
    using tp_slots_bound [OF ok that] b by (intro r) auto
  ultimately have "slot_view q j = (if j = i then None else slot_view p j)" if "j < tp_count p" for j
    using that by (simp add: slot_view_def sl fl)
  then have "tp_view q = (tp_view p)[unat s := None]"
    by (intro nth_equalityI) (auto simp: h tp_view_nth nth_list_update simp flip: i_def)
  moreover have "tp_ok q" using ok by (simp add: tp_ok_def h sl lq hq)
  ultimately show thesis using that d True h by simp
qed

text \<open>An edit in place changes one live tuple and nothing else.\<close>

lemma tp_edit_ok:
  assumes ok: "tp_ok p" and f: "\<And>b. length (f b) = length b"
  obtains q where "tp_edit s f p = Inr (unat s < length (tp_view p) \<and> tp_view p ! unat s \<noteq> None, q)" "tp_ok q"
    "tp_view q = (if unat s < length (tp_view p) then (tp_view p)[unat s := map_option f (tp_view p ! unat s)] else tp_view p)"
    "tp_end q = tp_end p" "tp_start q = tp_start p"
proof (cases "unat s < tp_count p \<and> slot_flags p (unat s) AND FLAG_DELETED = 0")
  case False
  then have "tp_edit s f p = Inr (False, p)"
    by (simp only: tp_edit_def slot_range_ok [OF ok] if_False res_bind.simps option.case)
  moreover have none: "tp_view p ! unat s = None" if "unat s < tp_count p"
    using that False by (simp add: tp_view_nth slot_view_def)
  moreover have "(tp_view p)[unat s := map_option f (tp_view p ! unat s)] = tp_view p" if "unat s < tp_count p"
    using none [OF that] list_update_id [of "tp_view p" "unat s"] by simp
  ultimately show thesis using that [of p] ok by auto
next
  case True
  define i where "i = unat s"
  have i: "i < tp_count p" using True by (simp add: i_def)
  note b = tp_slots_bound [OF ok i]
  let ?b = "rd p (slot_off p i) (slot_len p i)"
  define q where "q = splice p (slot_off p i) (f ?b)"
  have len: "length p = PAGE_SIZE" using ok by (simp add: tp_ok_def)
  have lb: "length ?b = slot_len p i" "length (f ?b) = slot_len p i" using b len by (simp_all add: length_rd f)
  have e: "tp_edit s f p = Inr (True, q)"
    using True len b lb by (simp add: tp_edit_def slot_range_ok [OF ok] slice_at_ok copy_at_ok q_def flip: i_def)
  have r: "rd q off n = rd p off n" if "off + n \<le> slot_off p i \<or> slot_off p i + slot_len p i \<le> off" for off n
    unfolding q_def using that len b lb by (intro rd_splice_other) auto
  have lo: "rd q off n = rd p off n" if "off + n \<le> tp_start p" for off n
    using that b by (intro r) auto
  have h: "tp_count q = tp_count p" "tp_start q = tp_start p" "tp_end q = tp_end p"
    using b by (simp_all add: tp_fields u16_at_def lo tp_consts)
  have sl: "slot_off q j = slot_off p j" "slot_len q j = slot_len p j" "slot_flags q j = slot_flags p j"
    if "j < tp_count p" for j
    using tp_slots_bound [OF ok that] by (simp_all add: slot_off_def slot_len_def slot_flags_def u16_at_def lo)
  have "rd q (slot_off p j) (slot_len p j) = rd p (slot_off p j) (slot_len p j)" if j: "j < tp_count p" "j \<noteq> i" for j
  proof -
    have "slot_off p j + slot_len p j \<le> slot_off p i \<or> slot_off p i + slot_len p i \<le> slot_off p j"
      using ok i j by (cases "j < i") (auto simp: tp_ok_def)
    then show ?thesis by (rule r)
  qed
  moreover have "rd q (slot_off p i) (slot_len p i) = f ?b" using len b lb by (simp add: rd_splice_same q_def)
  ultimately have "slot_view q j = (if j = i then map_option f (slot_view p i) else slot_view p j)" if "j < tp_count p" for j
    using that by (auto simp: slot_view_def sl)
  then have "tp_view q = (tp_view p)[i := map_option f (tp_view p ! i)]"
    using i by (intro nth_equalityI) (auto simp: h tp_view_nth nth_list_update)
  moreover have "tp_ok q"
  proof -
    have "HEADER_LEN \<le> slot_off p i" using b by (simp add: tp_consts)
    then have "tp_header q" unfolding q_def using ok b len lb by (intro tp_header_splice) (simp_all add: tp_ok_def)
    moreover have "length q = PAGE_SIZE" using b len lb by (simp add: q_def)
    ultimately show ?thesis using ok by (simp add: tp_ok_def h sl)
  qed
  moreover have "tp_view p ! i \<noteq> None" using True i by (simp add: tp_view_nth slot_view_def i_def)
  ultimately show thesis using that e i h by (simp flip: i_def)
qed

text \<open>The checksum field is no part of the layout.\<close>

lemma same_page_tp:
  assumes "same_page p q"
  shows "tp_ok p = tp_ok q" "tp_ok q \<Longrightarrow> tp_view p = tp_view q" "tp_end p = tp_end q" "tp_start p = tp_start q"
    "tp_header p = tp_header q"
proof -
  have r: "rd p off n = rd q off n" if "21 \<le> off" for off n
    using same_page_rd_after [OF assms] that by (simp add: HEADER_LEN_def)
  have f: "tp_count p = tp_count q" "tp_start p = tp_start q" "tp_end p = tp_end q"
      "slot_off p = slot_off q" "slot_len p = slot_len q" "slot_flags p = slot_flags q"
    by (simp_all add: tp_fields u16_at_def r tp_consts fun_eq_iff)
  show "tp_end p = tp_end q" "tp_start p = tp_start q" using f by simp_all
  show h: "tp_header p = tp_header q" by (simp add: tp_header_def same_page_header [OF assms])
  have l: "length p = length q" using assms by (simp add: same_page_def)
  show ok: "tp_ok p = tp_ok q" by (simp add: tp_ok_def f h l)
  have "rd p (slot_off q i) n = rd q (slot_off q i) n" if "tp_ok q" "i < tp_count q" for i n
    using tp_slots_bound [OF that] by (intro r) (simp add: tp_consts)
  then show "tp_ok q \<Longrightarrow> tp_view p = tp_view q" by (simp add: tp_view_def slot_view_def f)
qed

end
