(* ===== verification/Tuple_Heap.thy ===== *)
theory Tuple_Heap
  imports Page_Pool Tuple_Page
begin

text \<open>
  The tuple heap of \<^verbatim>\<open>src/crates/filesystem/src/tuple/heap.rs\<close>: tuples in slotted pages behind the
  page cache, addressed by page and slot. The views that own a pin (\<open>TupleRef\<close>, \<open>TupleMut\<close>,
  \<open>PageTuples\<close>) are the number of the frame they pin; dropping one releases it. The heap is
  shown to refine a map from locations to tuples, over any block store and eviction
  policy, and then over the file-backed store with LRU-K that \<open>Heap::open\<close> builds.
\<close>

section \<open>Definitions\<close>

record ('v, 'p) heap =
  hp_cache :: "('v, 'p) pool"
  hp_current :: "u64 option"

text \<open>The pattern of the write paths: acquire the page, work on its bytes, drop the handle, also
  when the work fails.\<close>

definition with_write_page ::
  "('v, 'p) cache_env \<Rightarrow> u64 \<Rightarrow> (bytes \<Rightarrow> fs_error + 'a \<times> bytes) \<Rightarrow> (('v, 'p) pool, fs_error, 'a) op" where
  "with_write_page env i k =
    st_bind (acquire_write env i) (\<lambda>f c.
      case k (page_bytes f c) of
        Inl e \<Rightarrow> (Inl e, release_write f c)
      | Inr (x, b) \<Rightarrow> (Inr x, release_write f (set_page_bytes f b c)))"

definition try_append :: "('v, 'p) cache_env \<Rightarrow> u64 \<Rightarrow> bytes \<Rightarrow> (('v, 'p) pool, fs_error, u16 option) op" where
  "try_append env i tuple = with_write_page env i (\<lambda>buf. res_bind (tp_open buf) (tp_insert tuple))"

definition append_to_new_page :: "('v, 'p) cache_env \<Rightarrow> bytes \<Rightarrow> (('v, 'p) pool, fs_error, u64 \<times> u16) op" where
  "append_to_new_page env tuple =
    st_bind (pc_allocate env) (\<lambda>(i, f) c.
      case res_bind (tp_init (page_bytes f c)) (\<lambda>p.
           res_bind (free_space p) (\<lambda>max_len.
           res_bind (tp_insert tuple p) (\<lambda>(s, p). Inr (max_len, s, p)))) of
        Inl e \<Rightarrow> (Inl e, release_write f c)
      | Inr (max_len, s, p) \<Rightarrow>
          (case s of None \<Rightarrow> Inl (TupleTooLarge (length tuple) max_len) | Some s \<Rightarrow> Inr (i, s),
           release_write f (set_page_bytes f p c)))"

definition on_cache :: "(('v, 'p) pool, fs_error, 'a) op \<Rightarrow> (('v, 'p) heap, fs_error, 'a) op" where
  "on_cache m h = (let (r, c) = m (hp_cache h) in (r, h\<lparr>hp_cache := c\<rparr>))"

definition heap_append_new :: "('v, 'p) cache_env \<Rightarrow> bytes \<Rightarrow> (('v, 'p) heap, fs_error, tuple_loc) op" where
  "heap_append_new env tuple =
    st_bind (on_cache (append_to_new_page env tuple)) (\<lambda>(i, s) h.
      (Inr \<lparr>page_id = i, slot_id = s\<rparr>, h\<lparr>hp_current := Some i\<rparr>))"

definition heap_insert :: "('v, 'p) cache_env \<Rightarrow> bytes \<Rightarrow> (('v, 'p) heap, fs_error, tuple_loc) op" where
  "heap_insert env tuple h =
    (case hp_current h of
       None \<Rightarrow> heap_append_new env tuple h
     | Some i \<Rightarrow>
         st_bind (on_cache (try_append env i tuple)) (\<lambda>slot.
           case slot of
             Some s \<Rightarrow> st_return \<lparr>page_id = i, slot_id = s\<rparr>
           | None \<Rightarrow> heap_append_new env tuple) h)"

definition heap_get :: "('v, 'p) cache_env \<Rightarrow> tuple_loc \<Rightarrow> (('v, 'p) heap, fs_error, nat) op" where
  "heap_get env loc = on_cache (acquire_read env (page_id loc))"

definition heap_get_mut :: "('v, 'p) cache_env \<Rightarrow> tuple_loc \<Rightarrow> (('v, 'p) heap, fs_error, nat) op" where
  "heap_get_mut env loc = on_cache (acquire_write env (page_id loc))"

text \<open>\<open>bytes()\<close> of the three views: nothing when the page is no tuple page or the slot is not live.\<close>

definition tuple_bytes :: "u16 \<Rightarrow> bytes \<Rightarrow> fs_error + bytes option" where
  "tuple_bytes slot page = (case tp_open page of Inl _ \<Rightarrow> Inr None | Inr p \<Rightarrow> tp_get p slot)"

definition tuple_ref_bytes :: "nat \<Rightarrow> u16 \<Rightarrow> ('v, 'p) heap \<Rightarrow> fs_error + bytes option" where
  "tuple_ref_bytes f slot h = tuple_bytes slot (page_bytes f (hp_cache h))"

text \<open>\<open>bytes_mut()\<close> with the edit \<open>g\<close> of the borrowed slice.\<close>

definition tuple_mut_edit :: "nat \<Rightarrow> u16 \<Rightarrow> (bytes \<Rightarrow> bytes) \<Rightarrow> (('v, 'p) heap, fs_error, bool) op" where
  "tuple_mut_edit f slot g h =
    (case tp_open (page_bytes f (hp_cache h)) of
       Inl _ \<Rightarrow> (Inr False, h)
     | Inr p \<Rightarrow>
         (case tp_edit slot g p of
            Inl e \<Rightarrow> (Inl e, h)
          | Inr (ok, p) \<Rightarrow> (Inr ok, h\<lparr>hp_cache := set_page_bytes f p (hp_cache h)\<rparr>)))"

definition drop_ref :: "nat \<Rightarrow> ('v, 'p) heap \<Rightarrow> ('v, 'p) heap" where
  "drop_ref f h = h\<lparr>hp_cache := release_read f (hp_cache h)\<rparr>"

definition drop_mut :: "nat \<Rightarrow> ('v, 'p) heap \<Rightarrow> ('v, 'p) heap" where
  "drop_mut f h = h\<lparr>hp_cache := release_write f (hp_cache h)\<rparr>"

definition page_tuples_iter :: "bytes \<Rightarrow> fs_error + bytes option list" where
  "page_tuples_iter page =
    (case res_bind (tp_open page) slot_count of
       Inl FsPanic \<Rightarrow> Inl FsPanic
     | Inl _ \<Rightarrow> Inr []
     | Inr count \<Rightarrow> collect_res (map (\<lambda>s. tuple_bytes (word_of_nat s) page) [0..<unat count]))"

definition heap_delete :: "('v, 'p) cache_env \<Rightarrow> tuple_loc \<Rightarrow> (('v, 'p) heap, fs_error, bool) op" where
  "heap_delete env loc =
    on_cache (with_write_page env (page_id loc) (\<lambda>buf. res_bind (tp_open buf) (tp_delete (slot_id loc))))"

definition heap_flush :: "('v, 'p) cache_env \<Rightarrow> (('v, 'p) heap, fs_error, unit) op" where
  "heap_flush env = on_cache (pc_flush env)"

definition heap_new :: "('v, 'p) pool \<Rightarrow> ('v, 'p) heap" where
  "heap_new c = \<lparr>hp_cache = c, hp_current = None\<rparr>"

text \<open>\<open>PageCache::new\<close> and \<open>with_journal\<close> use LRU-K with two accesses.\<close>

definition lruk_ops :: "nat lruk policy_ops" where
  "lruk_ops = \<lparr>ep_access = lruk_record_access, ep_candidate = lruk_evict_candidate, ep_remove = lruk_remove\<rparr>"

definition lruk_default :: "nat lruk" where
  "lruk_default = the (lruk_new 2)"

definition disk_env :: "crc_ops \<Rightarrow> (bytes \<Rightarrow> u32) \<Rightarrow> (disk_store, nat lruk) cache_env" where
  "disk_env crc jcrc = \<lparr>env_store = disk_ops, env_policy = lruk_ops, env_crc = crc, env_jcrc = jcrc\<rparr>"

definition mem_env :: "crc_ops \<Rightarrow> (bytes \<Rightarrow> u32) \<Rightarrow> (mem_store, nat lruk) cache_env" where
  "mem_env crc jcrc = \<lparr>env_store = mem_ops, env_policy = lruk_ops, env_crc = crc, env_jcrc = jcrc\<rparr>"

text \<open>\<open>Heap::open\<close> on the two files of its directory.\<close>

definition heap_open ::
  "crc_ops \<Rightarrow> (bytes \<Rightarrow> u32) \<Rightarrow> os_file \<Rightarrow> bytes option \<Rightarrow> nat \<Rightarrow> fs_error + (disk_store, nat lruk) heap" where
  "heap_open crc jcrc tuples_db tuples_journal nframes =
    res_bind (disk_open tuples_db) (\<lambda>v.
    res_bind (pc_with_journal (disk_env crc jcrc) lruk_default v nframes tuples_journal) (\<lambda>c.
      Inr (heap_new c)))"

section \<open>Pool operations that leave no pin\<close>

declare length_tp_view [simp del]

definition idle :: "('v, 'p) pool \<Rightarrow> bool" where
  "idle c \<longleftrightarrow> (\<forall>f<length (pc_frames c). unpinned (pc_frames c ! f))"

lemma idle_release_write:
  assumes "f < length (pc_frames c)" "\<forall>g<length (pc_frames c). g \<noteq> f \<longrightarrow> unpinned (pc_frames c ! g)" "fr_readers (pc_frames c ! f) = 0"
  shows "idle (release_write f (set_page_bytes f b c))"
  using assms by (auto simp: idle_def release_write_def set_page_bytes_def upd_frame_nth unpinned_def)

lemma release_write_sel [simp]:
  "pc_block (release_write f (set_page_bytes f b c)) = pc_block c"
  "length (pc_frames (release_write f (set_page_bytes f b c))) = length (pc_frames c)"
  by (simp_all add: release_write_def set_page_bytes_def)

text \<open>What a completed operation leaves besides the pages it changed.\<close>

definition pool_after :: "('v, 'p) cache_env \<Rightarrow> ('v, 'p) pool_spec \<Rightarrow> u64 set \<Rightarrow> ('v, 'p) pool \<Rightarrow> ('v, 'p) pool \<Rightarrow> bool" where
  "pool_after env sp K c c' \<longleftrightarrow> pool_inv env sp K {} c' \<and> idle c' \<and> length (pc_frames c') = length (pc_frames c)"

lemma settles_trans:
  assumes "settles env sp K c (pc_block c1)" "same_view sp K c c1" "pool_inv env sp K {} c1" "idle c1" "settles env sp K c1 v"
  shows "settles env sp K c v"
proof -
  have "\<not> fr_writer (pc_frames c1 ! f)" if "pc_table c1 i = Some f" for i f
    using that pool_invD(4) [OF assms(3)] assms(4) by (auto simp: idle_def unpinned_def)
  then have "same_page (ps_data sp v i) (pview sp c i)" if "saved env sp K c1 v" "i \<in> K" for i
    using that assms(2) same_page_trans unfolding saved_def same_view_def by blast
  then have s: "saved env sp K c v" if "saved env sp K c1 v" using that by (simp add: saved_def)
  show ?thesis
    using assms(1,5) s unfolding settles_def by (auto simp: kept_def saved_def)
qed

context page_pool
begin

lemma write_page_ok:
  assumes c: "pool_inv env sp K {} c" "idle c" "0 < length (pc_frames c)" and i: "i \<in> K"
    and k: "\<forall>b. same_page b (pview sp c i) \<longrightarrow> (\<exists>x b'. k b = Inr (x, b') \<and> length b' = BLOCK_SIZE)"
  obtains b x b' c' where "same_page b (pview sp c i)" "k b = Inr (x, b')" "with_write_page env i k c = (Inr x, c')"
    "pool_after env sp K c c'" "pview sp c' i = b'" "\<And>j. j \<in> K \<Longrightarrow> j \<noteq> i \<Longrightarrow> same_page (pview sp c' j) (pview sp c j)"
    "ps_room sp (pc_block c') = ps_room sp (pc_block c)" "settles env sp K c (pc_block c')"
proof -
  have e: "\<exists>f<length (pc_frames c). unpinned (pc_frames c ! f)" using c(2,3) by (auto simp: idle_def)
  have "case pc_table c i of Some f \<Rightarrow> unpinned (pc_frames c ! f) | None \<Rightarrow> \<exists>f<length (pc_frames c). unpinned (pc_frames c ! f)"
    using e c(2) pool_invD(4) [OF c(1), of i] by (auto simp: idle_def split: option.split)
  then obtain f c1 where a: "acquire_write env i c = (Inr f, c1)" "page_pinned K c i f c1" "same_page (page_bytes f c1) (pview sp c i)"
      "fr_writer (pc_frames c1 ! f)" "fr_readers (pc_frames c1 ! f) = 0"
    using acquire_write_ok [OF c(1) i] by blast
  have p: "pool_inv env sp K {} c1" "pc_table c1 i = Some f" "length (pc_frames c1) = length (pc_frames c)" "f < length (pc_frames c)"
      "ps_room sp (pc_block c1) = ps_room sp (pc_block c)" "\<forall>k\<in>K - {i}. same_page (pview sp c1 k) (pview sp c k)"
      "\<forall>g<length (pc_frames c). g \<noteq> f \<longrightarrow> frame_like (pc_frames c ! g) (pc_frames c1 ! g)" "settles env sp K c (pc_block c1)"
    using a(2) unfolding page_pinned_def by blast+
  obtain x b' where b: "k (page_bytes f c1) = Inr (x, b')" "length b' = BLOCK_SIZE" using k a(3) by blast
  define c' where "c' = release_write f (set_page_bytes f b' c1)"
  note R = release_write_ok [OF p(1,2) b(2), folded c'_def]
  have w: "with_write_page env i k c = (Inr x, c')" using a(1) b(1) by (simp add: with_write_page_def c'_def)
  have "unpinned (pc_frames c1 ! g)" if "g < length (pc_frames c)" "g \<noteq> f" for g
    using p(7) that frame_like_unpinned c(2) unfolding idle_def by blast
  then have "idle c'" unfolding c'_def using p(3,4) a(5) by (intro idle_release_write) simp_all
  then have "pool_after env sp K c c'" using R(1) p(3) by (simp add: pool_after_def c'_def)
  then show thesis
    by (rule that [OF a(3) b(1) w]) (use R p(5,6,8) in \<open>auto simp: c'_def\<close>)
qed

lemma read_page_ok:
  assumes c: "pool_inv env sp K {} c" "idle c" "0 < length (pc_frames c)" and i: "i \<in> K"
  obtains f c1 where "acquire_read env i c = (Inr f, c1)" "same_page (page_bytes f c1) (pview sp c i)"
    "pool_after env sp K c (release_read f c1)" "same_view sp K c (release_read f c1)"
    "ps_room sp (pc_block (release_read f c1)) = ps_room sp (pc_block c)" "settles env sp K c (pc_block (release_read f c1))"
proof -
  have e: "\<exists>f<length (pc_frames c). unpinned (pc_frames c ! f)" using c(2,3) by (auto simp: idle_def)
  have "case pc_table c i of Some f \<Rightarrow> \<not> fr_writer (pc_frames c ! f) | None \<Rightarrow> \<exists>f<length (pc_frames c). unpinned (pc_frames c ! f)"
    using e c(2) pool_invD(4) [OF c(1), of i] by (auto simp: idle_def unpinned_def split: option.split)
  then obtain f c1 where a: "acquire_read env i c = (Inr f, c1)" "page_pinned K c i f c1" "same_page (page_bytes f c1) (pview sp c i)"
      "\<not> fr_writer (pc_frames c1 ! f)" "fr_readers (pc_frames c1 ! f) = (if pc_table c i = Some f then fr_readers (pc_frames c ! f) else 0) + 1"
    using acquire_read_ok [OF c(1) i] by blast
  have p: "pool_inv env sp K {} c1" "pc_table c1 i = Some f" "length (pc_frames c1) = length (pc_frames c)" "f < length (pc_frames c)"
      "ps_room sp (pc_block c1) = ps_room sp (pc_block c)" "\<forall>k\<in>K - {i}. same_page (pview sp c1 k) (pview sp c k)"
      "\<forall>g<length (pc_frames c). g \<noteq> f \<longrightarrow> frame_like (pc_frames c ! g) (pc_frames c1 ! g)" "settles env sp K c (pc_block c1)"
    using a(2) unfolding page_pinned_def by blast+
  note R = release_read_ok [OF p(1,2)]
  have "fr_readers (pc_frames c ! f) = 0" using c(2) p(4) by (simp add: idle_def unpinned_def)
  then have rd: "fr_readers (pc_frames c1 ! f) = 1" using a(5) by simp
  have "unpinned (pc_frames c1 ! g)" if "g < length (pc_frames c)" "g \<noteq> f" for g
    using p(7) that frame_like_unpinned c(2) unfolding idle_def by blast
  then have "idle (release_read f c1)"
    using p(3,4) rd a(4) by (auto simp: idle_def release_read_def upd_frame_nth unpinned_def)
  then have pa: "pool_after env sp K c (release_read f c1)" using R(1) p(3) by (simp add: pool_after_def release_read_def)
  have "same_page (pview sp c1 j) (pview sp c j)" if "j \<in> K" for j
    using that p(6) a(3) pview_resident [OF p(2), of sp] by (cases "j = i") (auto simp: page_bytes_def)
  then have "same_view sp K c (release_read f c1)" by (simp add: same_view_def R(2))
  then show thesis by (rule that [OF a(1,3) pa]) (simp_all add: release_read_def p(5,8))
qed

lemma allocate_page_ok:
  assumes c: "pool_inv env sp K {} c" "idle c" "0 < length (pc_frames c)" and room: "ps_room sp (pc_block c)"
  obtains i f c1 where "pc_allocate env c = (Inr (i, f), c1)" "i \<notin> K" "page_bytes f c1 = block_zeroed"
    "\<And>b c'. length b = BLOCK_SIZE \<Longrightarrow> c' = release_write f (set_page_bytes f b c1) \<Longrightarrow>
      pool_after env sp (insert i K) c c' \<and> pview sp c' i = b \<and> (\<forall>j\<in>K. same_page (pview sp c' j) (pview sp c j))"
    "settles env sp K c (pc_block c1)"
proof -
  have e: "\<exists>f<length (pc_frames c). unpinned (pc_frames c ! f)" using c(2,3) by (auto simp: idle_def)
  obtain i f c1 where a: "pc_allocate env c = (Inr (i, f), c1)" "i \<notin> K" "i \<noteq> 0" "pool_inv env sp (insert i K) {} c1" "pc_table c1 i = Some f"
    "length (pc_frames c1) = length (pc_frames c)" "f < length (pc_frames c)" "unpinned (pc_frames c ! f)"
    "pc_frames c1 ! f = \<lparr>fr_page = Some i, fr_buf = block_zeroed, fr_readers = 0, fr_writer = True, fr_dirty = True\<rparr>"
    "\<forall>k\<in>K. same_page (pview sp c1 k) (pview sp c k)"
    "\<forall>g<length (pc_frames c). g \<noteq> f \<longrightarrow> frame_like (pc_frames c ! g) (pc_frames c1 ! g)" "settles env sp K c (pc_block c1)"
    by (rule allocate_ok [OF c(1) room e]) (rule that; assumption)
  show thesis
  proof (rule that [OF a(1,2) _ _ a(12)])
    show "page_bytes f c1 = block_zeroed" by (simp add: page_bytes_def a(9))
    fix b :: bytes and c'
    assume b: "length b = BLOCK_SIZE" and c': "c' = release_write f (set_page_bytes f b c1)"
    note R = release_write_ok [OF a(4,5) b, folded c']
    have "unpinned (pc_frames c1 ! g)" if "g < length (pc_frames c)" "g \<noteq> f" for g
      using a(11) that frame_like_unpinned c(2) unfolding idle_def by blast
    then have "idle c'" unfolding c' using a(6,7,9) by (intro idle_release_write) simp_all
    moreover have "same_page (pview sp c' j) (pview sp c j)" if "j \<in> K" for j
      using R(3) [of j] a(2,10) that by (cases "j = i") auto
    ultimately show "pool_after env sp (insert i K) c c' \<and> pview sp c' i = b \<and> (\<forall>j\<in>K. same_page (pview sp c' j) (pview sp c j))"
      using R(1,2) a(6) by (simp add: pool_after_def c')
  qed
qed

end

section \<open>The heap as a map\<close>

text \<open>Every location handed out so far, with its tuple, or with nothing once it is deleted.\<close>

definition heap_map :: "('v, 'p) pool_spec \<Rightarrow> u64 set \<Rightarrow> ('v, 'p) pool \<Rightarrow> tuple_loc \<rightharpoonup> bytes option" where
  "heap_map sp K c l =
    (if page_id l \<in> K \<and> unat (slot_id l) < length (tp_view (pview sp c (page_id l)))
     then Some (tp_view (pview sp c (page_id l)) ! unat (slot_id l)) else None)"

definition heap_ok :: "('v, 'p) cache_env \<Rightarrow> ('v, 'p) pool_spec \<Rightarrow> u64 set \<Rightarrow> ('v, 'p) heap \<Rightarrow> bool" where
  "heap_ok env sp K h \<longleftrightarrow> pool_inv env sp K {} (hp_cache h) \<and> idle (hp_cache h) \<and> 0 < length (pc_frames (hp_cache h)) \<and>
    (\<forall>i\<in>K. tp_ok (pview sp (hp_cache h) i)) \<and> (\<forall>i. hp_current h = Some i \<longrightarrow> i \<in> K)"

lemma heap_map_same:
  assumes "\<And>i. i \<in> K \<Longrightarrow> same_page (pview sp c' i) (pview sp c i)" "\<And>i. i \<in> K \<Longrightarrow> tp_ok (pview sp c i)"
  shows "heap_map sp K c' = heap_map sp K c"
proof
  fix l :: tuple_loc
  have "tp_view (pview sp c' (page_id l)) = tp_view (pview sp c (page_id l))" if "page_id l \<in> K"
    using same_page_tp(2) [OF assms(1) [OF that] assms(2) [OF that]] .
  then show "heap_map sp K c' l = heap_map sp K c l" by (auto simp: heap_map_def)
qed

lemma loc_eq_iff: "l = \<lparr>page_id = i, slot_id = s\<rparr> \<longleftrightarrow> page_id l = i \<and> slot_id l = s"
  by (cases l) simp

lemma heap_map_update:
  assumes same: "\<And>j. j \<in> K \<Longrightarrow> j \<noteq> page_id l \<Longrightarrow> same_page (pview sp c' j) (pview sp c j)" and ok: "\<And>j. j \<in> K \<Longrightarrow> tp_ok (pview sp c j)"
    and i: "page_id l \<in> K" "unat (slot_id l) < length (tp_view (pview sp c (page_id l)))"
    and v: "tp_view (pview sp c' (page_id l)) = (tp_view (pview sp c (page_id l)))[unat (slot_id l) := x]"
  shows "heap_map sp K c' = (heap_map sp K c)(l \<mapsto> x)"
proof
  fix k
  show "heap_map sp K c' k = ((heap_map sp K c)(l \<mapsto> x)) k"
  proof (cases "page_id k = page_id l")
    case True
    then have "k = l \<longleftrightarrow> unat (slot_id k) = unat (slot_id l)" by (cases k; cases l) (auto simp: word_unat_eq_iff)
    then show ?thesis using True i v by (auto simp: heap_map_def)
  next
    case False
    have "tp_view (pview sp c' (page_id k)) = tp_view (pview sp c (page_id k))" if "page_id k \<in> K"
      using same_page_tp(2) [OF same [OF that False] ok [OF that]] .
    then show ?thesis using False by (auto simp: heap_map_def)
  qed
qed

lemma heap_map_append:
  assumes same: "\<And>j. j \<in> K \<Longrightarrow> j \<noteq> i \<Longrightarrow> same_page (pview sp c' j) (pview sp c j)" and ok: "\<And>j. j \<in> K \<Longrightarrow> tp_ok (pview sp c j)"
    and old: "i \<in> K \<and> xs = tp_view (pview sp c i) \<or> i \<notin> K \<and> xs = []" and len: "length xs < 2 ^ 16"
    and v: "tp_view (pview sp c' i) = xs @ [t]" and K': "K' = insert i K"
  shows "heap_map sp K' c' = (heap_map sp K c)(\<lparr>page_id = i, slot_id = word_of_nat (length xs)\<rparr> \<mapsto> t)"
    "\<lparr>page_id = i, slot_id = word_of_nat (length xs)\<rparr> \<notin> dom (heap_map sp K c)"
proof -
  have u: "unat (word_of_nat (length xs) :: u16) = length xs" using len by (simp add: unat_of_nat)
  show "\<lparr>page_id = i, slot_id = word_of_nat (length xs)\<rparr> \<notin> dom (heap_map sp K c)"
    using old u by (auto simp: heap_map_def split: if_splits)
  have s: "unat s = length xs \<longleftrightarrow> s = word_of_nat (length xs)" for s :: u16
    using u by (metis unsigned_word_eqI)
  show "heap_map sp K' c' = (heap_map sp K c)(\<lparr>page_id = i, slot_id = word_of_nat (length xs)\<rparr> \<mapsto> t)"
  proof
    fix k
    show "heap_map sp K' c' k = ((heap_map sp K c)(\<lparr>page_id = i, slot_id = word_of_nat (length xs)\<rparr> \<mapsto> t)) k"
    proof (cases "page_id k = i")
      case True
      then show ?thesis using old s [of "slot_id k"] v K' by (auto simp: heap_map_def loc_eq_iff nth_append less_Suc_eq)
    next
      case False
      have "tp_view (pview sp c' (page_id k)) = tp_view (pview sp c (page_id k))" if "page_id k \<in> K"
        using same_page_tp(2) [OF same [OF that False] ok [OF that]] .
      then show ?thesis using False K' by (auto simp: heap_map_def loc_eq_iff)
    qed
  qed
qed

lemma tp_view_short: "tp_ok p \<Longrightarrow> length (tp_view p) < 2 ^ 16"
  using unsigned_less [of "u16_at p OFF_SLOT_COUNT", where 'a = nat] by (simp add: tp_view_def tp_count_def)

lemma on_cache_eq: "m (hp_cache h) = (r, c) \<Longrightarrow> on_cache m h = (r, h\<lparr>hp_cache := c\<rparr>)"
  by (simp add: on_cache_def)

text \<open>The largest tuple an empty page holds.\<close>

definition max_tuple :: nat where "max_tuple = 8157"

context page_pool
begin

lemma heap_okD:
  assumes "heap_ok env sp K h"
  shows "pool_inv env sp K {} (hp_cache h)" "idle (hp_cache h)" "0 < length (pc_frames (hp_cache h))"
    "\<And>i. i \<in> K \<Longrightarrow> tp_ok (pview sp (hp_cache h) i)" "\<And>i. hp_current h = Some i \<Longrightarrow> i \<in> K"
  using assms by (simp_all add: heap_ok_def)

lemma heap_okI:
  assumes "pool_after env sp K c c'" "0 < length (pc_frames c)" "\<And>i. i \<in> K \<Longrightarrow> tp_ok (pview sp c' i)" "\<And>i. cur = Some i \<Longrightarrow> i \<in> K"
  shows "heap_ok env sp K \<lparr>hp_cache = c', hp_current = cur\<rparr>"
  using assms by (simp add: heap_ok_def pool_after_def)

text \<open>An edit of one page through a write handle: \<open>R\<close> is what the edit does to the slots, and the
  results in \<open>N\<close> tell that it did not change the page.\<close>

lemma edit_page_ok:
  assumes h: "heap_ok env sp K h" and i: "i \<in> K"
    and k: "\<forall>b. tp_ok b \<longrightarrow> (\<exists>x b'. k b = Inr (x, b') \<and> tp_ok b' \<and> R (tp_view b) (tp_end b - tp_start b) x (tp_view b') \<and> (x \<in> N \<longrightarrow> b' = b))"
  obtains x c' where "with_write_page env i k (hp_cache h) = (Inr x, c')" "heap_ok env sp K (h\<lparr>hp_cache := c'\<rparr>)"
    "R (tp_view (pview sp (hp_cache h) i)) (tp_end (pview sp (hp_cache h) i) - tp_start (pview sp (hp_cache h) i)) x (tp_view (pview sp c' i))"
    "\<And>j. j \<in> K \<Longrightarrow> j \<noteq> i \<Longrightarrow> same_page (pview sp c' j) (pview sp (hp_cache h) j)"
    "ps_room sp (pc_block c') = ps_room sp (pc_block (hp_cache h))" "settles env sp K (hp_cache h) (pc_block c')"
    "x \<in> N \<Longrightarrow> same_view sp K (hp_cache h) c'"
proof -
  let ?c = "hp_cache h"
  note H = heap_okD [OF h]
  have ok: "tp_ok b" if "same_page b (pview sp ?c i)" for b using same_page_tp(1) [OF that] H(4) [OF i] by simp
  have "length b = BLOCK_SIZE" if "tp_ok b" for b using that by (simp add: tp_ok_def PAGE_SIZE_def)
  then have kk: "\<forall>b. same_page b (pview sp ?c i) \<longrightarrow> (\<exists>x b'. k b = Inr (x, b') \<and> length b' = BLOCK_SIZE)"
    using k ok by meson
  obtain b x b' c' where w: "same_page b (pview sp ?c i)" "k b = Inr (x, b')" "with_write_page env i k ?c = (Inr x, c')"
    "pool_after env sp K ?c c'" "pview sp c' i = b'" "\<And>j. j \<in> K \<Longrightarrow> j \<noteq> i \<Longrightarrow> same_page (pview sp c' j) (pview sp ?c j)"
    "ps_room sp (pc_block c') = ps_room sp (pc_block ?c)" "settles env sp K ?c (pc_block c')"
    by (rule write_page_ok [OF H(1-3) i kk]) (rule that; assumption)
  have r: "tp_ok b'" "R (tp_view b) (tp_end b - tp_start b) x (tp_view b')" "x \<in> N \<longrightarrow> b' = b" using k ok [OF w(1)] w(2) by (metis Inr_inject prod.inject)+
  have "tp_ok (pview sp c' j)" if "j \<in> K" for j
    using that w(5) r(1) same_page_tp(1) [OF w(6)] H(4) by (cases "j = i") auto
  then have "heap_ok env sp K (h\<lparr>hp_cache := c'\<rparr>)" using w(4) H(3,5) by (simp add: heap_ok_def pool_after_def)
  moreover have "same_view sp K ?c c'" if "x \<in> N"
    using that r(3) w(1,5,6) unfolding same_view_def by (metis)
  ultimately show thesis
    using r(2) w(5-8) same_page_tp(2-4) [OF w(1)] H(4) [OF i] by (intro that [OF w(3)]) auto
qed

lemma heap_delete_ok:
  assumes h: "heap_ok env sp K h" and l: "page_id l \<in> K"
  obtains h' where "heap_delete env l h = (Inr (l \<in> dom (heap_map sp K (hp_cache h))), h')" "heap_ok env sp K h'"
    "heap_map sp K (hp_cache h') = (if l \<in> dom (heap_map sp K (hp_cache h)) then (heap_map sp K (hp_cache h))(l \<mapsto> None) else heap_map sp K (hp_cache h))"
    "ps_room sp (pc_block (hp_cache h')) = ps_room sp (pc_block (hp_cache h))" "settles env sp K (hp_cache h) (pc_block (hp_cache h'))"
proof -
  let ?k = "\<lambda>buf. res_bind (tp_open buf) (tp_delete (slot_id l))"
  have k: "\<forall>b. tp_ok b \<longrightarrow> (\<exists>x b'. ?k b = Inr (x, b') \<and> tp_ok b' \<and>
      (x = (unat (slot_id l) < length (tp_view b)) \<and> tp_view b' = (tp_view b)[unat (slot_id l) := None]) \<and> (x \<in> {} \<longrightarrow> b' = b))"
  proof (intro allI impI)
    fix b assume b: "tp_ok b"
    show "\<exists>x b'. ?k b = Inr (x, b') \<and> tp_ok b' \<and>
      (x = (unat (slot_id l) < length (tp_view b)) \<and> tp_view b' = (tp_view b)[unat (slot_id l) := None]) \<and> (x \<in> {} \<longrightarrow> b' = b)"
      by (rule tp_delete_ok [OF b, of "slot_id l"]) (auto simp: tp_open_ok [OF b])
  qed
  obtain x c' where w: "with_write_page env (page_id l) ?k (hp_cache h) = (Inr x, c')" "heap_ok env sp K (h\<lparr>hp_cache := c'\<rparr>)"
      "x = (unat (slot_id l) < length (tp_view (pview sp (hp_cache h) (page_id l)))) \<and>
       tp_view (pview sp c' (page_id l)) = (tp_view (pview sp (hp_cache h) (page_id l)))[unat (slot_id l) := None]"
      "\<And>j. j \<in> K \<Longrightarrow> j \<noteq> page_id l \<Longrightarrow> same_page (pview sp c' j) (pview sp (hp_cache h) j)"
      "ps_room sp (pc_block c') = ps_room sp (pc_block (hp_cache h))" "settles env sp K (hp_cache h) (pc_block c')"
    by (rule edit_page_ok [OF h l, where k = ?k and
          R = "\<lambda>xs n x ys. x = (unat (slot_id l) < length xs) \<and> ys = xs[unat (slot_id l) := None]", OF k])
      (rule that; assumption)
  let ?m = "heap_map sp K (hp_cache h)"
  have d: "l \<in> dom ?m \<longleftrightarrow> x" using l w(3) by (auto simp: heap_map_def)
  have e: "heap_delete env l h = (Inr (l \<in> dom ?m), h\<lparr>hp_cache := c'\<rparr>)"
    unfolding heap_delete_def d by (rule on_cache_eq) (rule w(1))
  have m: "heap_map sp K c' = (if l \<in> dom ?m then ?m(l \<mapsto> None) else ?m)"
  proof (cases "l \<in> dom ?m")
    case True
    then show ?thesis using heap_map_update [OF w(4) heap_okD(4) [OF h] l, where x = None] w(3) d by simp
  next
    case False
    then have v: "tp_view (pview sp c' (page_id l)) = tp_view (pview sp (hp_cache h) (page_id l))"
      using w(3) d by (simp add: list_update_beyond)
    have "heap_map sp K c' k = ?m k" for k
      using v same_page_tp(2) [OF w(4) heap_okD(4) [OF h]] by (cases "page_id k = page_id l") (auto simp: heap_map_def)
    then show ?thesis using False by auto
  qed
  show thesis by (rule that [OF e w(2)]) (simp_all add: m w(5,6))
qed

lemma heap_get_ok:
  assumes h: "heap_ok env sp K h" and l: "page_id l \<in> K"
  obtains f h' where "heap_get env l h = (Inr f, h')"
    "tuple_ref_bytes f (slot_id l) h' = Inr (case heap_map sp K (hp_cache h) l of Some x \<Rightarrow> x | None \<Rightarrow> None)"
    "heap_ok env sp K (drop_ref f h')" "heap_map sp K (hp_cache (drop_ref f h')) = heap_map sp K (hp_cache h)"
    "ps_room sp (pc_block (hp_cache (drop_ref f h'))) = ps_room sp (pc_block (hp_cache h))"
    "settles env sp K (hp_cache h) (pc_block (hp_cache (drop_ref f h')))"
proof -
  let ?c = "hp_cache h"
  note H = heap_okD [OF h]
  obtain f c1 where w: "acquire_read env (page_id l) ?c = (Inr f, c1)" "same_page (page_bytes f c1) (pview sp ?c (page_id l))"
    "pool_after env sp K ?c (release_read f c1)" "same_view sp K ?c (release_read f c1)"
    "ps_room sp (pc_block (release_read f c1)) = ps_room sp (pc_block ?c)" "settles env sp K ?c (pc_block (release_read f c1))"
    by (rule read_page_ok [OF H(1-3) l]) (rule that; assumption)
  have g: "heap_get env l h = (Inr f, h\<lparr>hp_cache := c1\<rparr>)"
    unfolding heap_get_def by (rule on_cache_eq) (rule w(1))
  have ok: "tp_ok (page_bytes f c1)" using same_page_tp(1) [OF w(2)] H(4) [OF l] by simp
  have b: "tuple_ref_bytes f (slot_id l) (h\<lparr>hp_cache := c1\<rparr>) = Inr (case heap_map sp K ?c l of Some x \<Rightarrow> x | None \<Rightarrow> None)"
    using same_page_tp(2) [OF w(2) H(4) [OF l]] l
    by (simp add: tuple_ref_bytes_def tuple_bytes_def tp_open_ok [OF ok] tp_get_ok [OF ok] heap_map_def)
  have s: "same_page (pview sp (release_read f c1) i) (pview sp ?c i)" if "i \<in> K" for i using w(4) that by (simp add: same_view_def)
  have "heap_ok env sp K (drop_ref f (h\<lparr>hp_cache := c1\<rparr>))"
    using w(3) H(3,5) same_page_tp(1) [OF s] H(4) by (simp add: heap_ok_def pool_after_def drop_ref_def)
  then show thesis
    by (rule that [OF g b]) (use heap_map_same [OF s H(4)] w(5,6) in \<open>simp_all add: drop_ref_def\<close>)
qed

lemma heap_flush_ok:
  assumes h: "heap_ok env sp K h"
  obtains h' where "heap_flush env h = (Inr (), h')" "heap_ok env sp K h'" "heap_map sp K (hp_cache h') = heap_map sp K (hp_cache h)"
    "ps_room sp (pc_block (hp_cache h')) = ps_room sp (pc_block (hp_cache h))"
    "saved env sp K (hp_cache h) (pc_block (hp_cache h'))"
proof -
  let ?c = "hp_cache h"
  note H = heap_okD [OF h]
  obtain c' where w: "pc_flush env ?c = (Inr (), c')" "pool_inv env sp K {} c'" "same_view sp K ?c c'"
    "length (pc_frames c') = length (pc_frames ?c)" "\<And>f. f < length (pc_frames ?c) \<Longrightarrow> \<not> fr_dirty (pc_frames c' ! f)"
    "\<And>f. f < length (pc_frames ?c) \<Longrightarrow> frame_like (pc_frames ?c ! f) (pc_frames c' ! f)"
    "ps_room sp (pc_block c') = ps_room sp (pc_block ?c)" "saved env sp K ?c (pc_block c')"
    by (rule flush_ok [OF H(1)]) (rule that; assumption)
  have s: "same_page (pview sp c' i) (pview sp ?c i)" if "i \<in> K" for i using w(3) that by (simp add: same_view_def)
  have "idle c'" using H(2) w(4,6) frame_like_unpinned unfolding idle_def by metis
  then have "heap_ok env sp K (h\<lparr>hp_cache := c'\<rparr>)"
    using w(2,4) H(3,5) same_page_tp(1) [OF s] H(4) by (simp add: heap_ok_def)
  moreover have "heap_flush env h = (Inr (), h\<lparr>hp_cache := c'\<rparr>)" unfolding heap_flush_def by (rule on_cache_eq) (rule w(1))
  ultimately show thesis
    using that heap_map_same [OF s H(4)] w(7,8) by simp
qed

lemma heap_edit_ok:
  assumes h: "heap_ok env sp K h" and l: "page_id l \<in> K" and g: "\<And>b. length (g b) = length b"
  obtains f h1 h2 where "heap_get_mut env l h = (Inr f, h1)"
    "tuple_mut_edit f (slot_id l) g h1 = (Inr (\<exists>b. heap_map sp K (hp_cache h) l = Some (Some b)), h2)"
    "heap_ok env sp K (drop_mut f h2)"
    "heap_map sp K (hp_cache (drop_mut f h2)) = (heap_map sp K (hp_cache h))(l := map_option (map_option g) (heap_map sp K (hp_cache h) l))"
    "ps_room sp (pc_block (hp_cache (drop_mut f h2))) = ps_room sp (pc_block (hp_cache h))"
    "settles env sp K (hp_cache h) (pc_block (hp_cache (drop_mut f h2)))"
proof -
  let ?k = "\<lambda>buf. res_bind (tp_open buf) (tp_edit (slot_id l) g)"
  let ?R = "\<lambda>xs (n :: nat) x ys. x = (unat (slot_id l) < length xs \<and> xs ! unat (slot_id l) \<noteq> None) \<and>
    ys = (if unat (slot_id l) < length xs then xs[unat (slot_id l) := map_option g (xs ! unat (slot_id l))] else xs)"
  let ?m = "heap_map sp K (hp_cache h)"
  have k: "\<forall>b. tp_ok b \<longrightarrow> (\<exists>x b'. ?k b = Inr (x, b') \<and> tp_ok b' \<and> ?R (tp_view b) (tp_end b - tp_start b) x (tp_view b') \<and> (x \<in> {} \<longrightarrow> b' = b))"
  proof (intro allI impI)
    fix b assume b: "tp_ok b"
    show "\<exists>x b'. ?k b = Inr (x, b') \<and> tp_ok b' \<and> ?R (tp_view b) (tp_end b - tp_start b) x (tp_view b') \<and> (x \<in> {} \<longrightarrow> b' = b)"
      by (rule tp_edit_ok [OF b g, of "slot_id l"]) (simp add: tp_open_ok [OF b])
  qed
  obtain x c' where w: "with_write_page env (page_id l) ?k (hp_cache h) = (Inr x, c')" "heap_ok env sp K (h\<lparr>hp_cache := c'\<rparr>)"
      "?R (tp_view (pview sp (hp_cache h) (page_id l))) (tp_end (pview sp (hp_cache h) (page_id l)) - tp_start (pview sp (hp_cache h) (page_id l)))
        x (tp_view (pview sp c' (page_id l)))"
      "\<And>j. j \<in> K \<Longrightarrow> j \<noteq> page_id l \<Longrightarrow> same_page (pview sp c' j) (pview sp (hp_cache h) j)"
      "ps_room sp (pc_block c') = ps_room sp (pc_block (hp_cache h))" "settles env sp K (hp_cache h) (pc_block c')"
    by (rule edit_page_ok [OF h l, where k = ?k and R = ?R, OF k]) (rule that; assumption)
  obtain f c1 p b where a: "acquire_write env (page_id l) (hp_cache h) = (Inr f, c1)" "tp_open (page_bytes f c1) = Inr p"
      "tp_edit (slot_id l) g p = Inr (x, b)" "c' = release_write f (set_page_bytes f b c1)"
    using w(1) by (auto simp: with_write_page_def st_bind_def res_bind_eq_Inr_iff split: prod.splits sum.splits)
  have x: "x = (\<exists>b. ?m l = Some (Some b))" using w(3) l by (auto simp: heap_map_def)
  have m: "heap_map sp K c' = ?m(l := map_option (map_option g) (?m l))"
  proof (cases "unat (slot_id l) < length (tp_view (pview sp (hp_cache h) (page_id l)))")
    case True
    have "heap_map sp K c' = ?m(l \<mapsto> map_option g (tp_view (pview sp (hp_cache h) (page_id l)) ! unat (slot_id l)))"
      by (rule heap_map_update [OF w(4) heap_okD(4) [OF h] l]) (use True w(3) in auto)
    then show ?thesis using True l by (simp add: heap_map_def)
  next
    case False
    then have v: "tp_view (pview sp c' (page_id l)) = tp_view (pview sp (hp_cache h) (page_id l))" using w(3) by simp
    have "heap_map sp K c' k = ?m k" for k
      using v same_page_tp(2) [OF w(4) heap_okD(4) [OF h]] by (cases "page_id k = page_id l") (auto simp: heap_map_def)
    moreover have "?m l = None" using False by (simp add: heap_map_def)
    ultimately show ?thesis by (auto simp: fun_eq_iff)
  qed
  show thesis
  proof (rule that)
    show "heap_get_mut env l h = (Inr f, h\<lparr>hp_cache := c1\<rparr>)" unfolding heap_get_mut_def by (rule on_cache_eq) (rule a(1))
    show "tuple_mut_edit f (slot_id l) g (h\<lparr>hp_cache := c1\<rparr>) =
        (Inr (\<exists>b. ?m l = Some (Some b)), h\<lparr>hp_cache := set_page_bytes f b c1\<rparr>)"
      using a(2,3) x by (simp add: tuple_mut_edit_def)
  qed (use w(2,5,6) m a(4) in \<open>simp_all add: drop_mut_def\<close>)
qed

lemma append_new_ok:
  assumes h: "heap_ok env sp K h" and room: "ps_room sp (pc_block (hp_cache h))"
  obtains i c' where "append_to_new_page env t (hp_cache h) =
      (if length t \<le> max_tuple then Inr (i, 0) else Inl (TupleTooLarge (length t) max_tuple), c')"
    "i \<notin> K" "heap_ok env sp (insert i K) (h\<lparr>hp_cache := c'\<rparr>)" "tp_view (pview sp c' i) = (if length t \<le> max_tuple then [Some t] else [])"
    "\<And>j. j \<in> K \<Longrightarrow> same_page (pview sp c' j) (pview sp (hp_cache h) j)" "settles env sp K (hp_cache h) (pc_block c')"
proof -
  let ?c = "hp_cache h"
  note H = heap_okD [OF h]
  obtain i f c1 where a: "pc_allocate env ?c = (Inr (i, f), c1)" "i \<notin> K" "page_bytes f c1 = block_zeroed"
    "\<And>b c'. length b = BLOCK_SIZE \<Longrightarrow> c' = release_write f (set_page_bytes f b c1) \<Longrightarrow>
      pool_after env sp (insert i K) ?c c' \<and> pview sp c' i = b \<and> (\<forall>j\<in>K. same_page (pview sp c' j) (pview sp ?c j))"
    "settles env sp K ?c (pc_block c1)"
    by (rule allocate_page_ok [OF H(1-3) room]) (rule that; assumption)
  have z: "length block_zeroed = PAGE_SIZE" by (simp add: block_zeroed_def PAGE_SIZE_def)
  obtain q where q: "tp_init block_zeroed = Inr q" "tp_ok q" "tp_view q = []" "tp_start q = 27" "tp_end q = 8192"
    using tp_init_ok [OF z] .
  have fs: "free_space q = Inr max_tuple"
  proof -
    have len: "length q = 8192" and le: "u16_at q 23 \<le> u16_at q 25"
      using q(2) by (simp_all add: tp_ok_def tp_consts tp_fields word_le_nat_alt)
    then show ?thesis using q(4,5)
      by (simp add: free_space_def pg_get_u16_ok tp_fields tp_consts unat_sub max_tuple_def)
  qed
  have fit: "tp_fits q (length t) \<longleftrightarrow> length t \<le> max_tuple" using q(4,5) by (auto simp: tp_fits_def max_tuple_def SLOT_SIZE_def)
  obtain r b where b: "tp_insert t q = Inr (r, b)" "tp_ok b" "tp_view b = (if length t \<le> max_tuple then [Some t] else [])"
      "r = (if length t \<le> max_tuple then Some 0 else None)"
  proof (cases "length t \<le> max_tuple")
    case True
    then show thesis using tp_insert_ok [OF q(2), of t] q(3) fit that by auto
  next
    case False
    then show thesis using tp_full [OF q(2), of t] q(2,3) fit that by auto
  qed
  define c' where "c' = release_write f (set_page_bytes f b c1)"
  have len: "length b = BLOCK_SIZE" using b(2) by (simp add: tp_ok_def PAGE_SIZE_def)
  have p: "pool_after env sp (insert i K) ?c c'" "pview sp c' i = b" "\<And>j. j \<in> K \<Longrightarrow> same_page (pview sp c' j) (pview sp ?c j)"
    using a(4) [OF len c'_def] by auto
  have e: "append_to_new_page env t ?c = (if length t \<le> max_tuple then Inr (i, 0) else Inl (TupleTooLarge (length t) max_tuple), c')"
    using a(1,3) q(1) fs b(1,4) by (simp add: append_to_new_page_def c'_def)
  have "tp_ok (pview sp c' j)" if "j \<in> insert i K" for j
    using that p(2) b(2) same_page_tp(1) [OF p(3)] H(4) by (cases "j = i") auto
  then have "heap_ok env sp (insert i K) (h\<lparr>hp_cache := c'\<rparr>)" using p(1) H(3,5) by (auto simp: heap_ok_def pool_after_def)
  then show thesis by (rule that [OF e a(2)]) (use p(2,3) b(3) a(5) in \<open>auto simp: c'_def\<close>)
qed

lemma heap_append_new_ok:
  assumes h: "heap_ok env sp K h" and room: "ps_room sp (pc_block (hp_cache h))"
  obtains i h' where "heap_append_new env t h =
      (if length t \<le> max_tuple then Inr \<lparr>page_id = i, slot_id = 0\<rparr> else Inl (TupleTooLarge (length t) max_tuple), h')"
    "\<lparr>page_id = i, slot_id = 0\<rparr> \<notin> dom (heap_map sp K (hp_cache h))" "heap_ok env sp (insert i K) h'"
    "heap_map sp (insert i K) (hp_cache h') = (if length t \<le> max_tuple
      then (heap_map sp K (hp_cache h))(\<lparr>page_id = i, slot_id = 0\<rparr> \<mapsto> Some t) else heap_map sp K (hp_cache h))"
    "settles env sp K (hp_cache h) (pc_block (hp_cache h'))"
proof -
  let ?m = "heap_map sp K (hp_cache h)"
  obtain i c' where a: "append_to_new_page env t (hp_cache h) =
      (if length t \<le> max_tuple then Inr (i, 0) else Inl (TupleTooLarge (length t) max_tuple), c')"
    "i \<notin> K" "heap_ok env sp (insert i K) (h\<lparr>hp_cache := c'\<rparr>)" "tp_view (pview sp c' i) = (if length t \<le> max_tuple then [Some t] else [])"
    "\<And>j. j \<in> K \<Longrightarrow> same_page (pview sp c' j) (pview sp (hp_cache h) j)" "settles env sp K (hp_cache h) (pc_block c')"
    by (rule append_new_ok [OF h room, of t]) (rule that; assumption)
  have d: "\<lparr>page_id = i, slot_id = 0\<rparr> \<notin> dom ?m" using a(2) by (auto simp: heap_map_def)
  let ?h = "h\<lparr>hp_cache := c', hp_current := if length t \<le> max_tuple then Some i else hp_current h\<rparr>"
  have e: "heap_append_new env t h =
      (if length t \<le> max_tuple then Inr \<lparr>page_id = i, slot_id = 0\<rparr> else Inl (TupleTooLarge (length t) max_tuple), ?h)"
    using a(1) by (simp add: heap_append_new_def st_bind_def on_cache_def)
  have ok: "heap_ok env sp (insert i K) ?h" using a(3) by (auto simp: heap_ok_def)
  have m: "heap_map sp (insert i K) c' = (if length t \<le> max_tuple then ?m(\<lparr>page_id = i, slot_id = 0\<rparr> \<mapsto> Some t) else ?m)"
  proof (cases "length t \<le> max_tuple")
    case True
    then show ?thesis
      using heap_map_append(1) [OF a(5) heap_okD(4) [OF h], where i = i and xs = "[]" and t = "Some t"] a(2,4) by simp
  next
    case False
    have "heap_map sp (insert i K) c' k = ?m k" for k
      using False a(2,4) same_page_tp(2) [OF a(5) heap_okD(4) [OF h]] by (cases "page_id k = i") (auto simp: heap_map_def)
    then show ?thesis using False by auto
  qed
  show thesis by (rule that [OF e d ok]) (simp_all add: m a(6))
qed

lemma try_append_ok:
  assumes h: "heap_ok env sp K h" and i: "i \<in> K"
  obtains r c' where "try_append env i t (hp_cache h) = (Inr r, c')" "heap_ok env sp K (h\<lparr>hp_cache := c'\<rparr>)"
    "settles env sp K (hp_cache h) (pc_block c')"
    "case r of None \<Rightarrow> heap_map sp K c' = heap_map sp K (hp_cache h) \<and> same_view sp K (hp_cache h) c' \<and> ps_room sp (pc_block c') = ps_room sp (pc_block (hp_cache h))
     | Some s \<Rightarrow> length t \<le> max_tuple \<and> \<lparr>page_id = i, slot_id = s\<rparr> \<notin> dom (heap_map sp K (hp_cache h)) \<and>
         heap_map sp K c' = (heap_map sp K (hp_cache h))(\<lparr>page_id = i, slot_id = s\<rparr> \<mapsto> Some t)"
proof -
  let ?k = "\<lambda>buf. res_bind (tp_open buf) (tp_insert t)" and ?m = "heap_map sp K (hp_cache h)"
  let ?R = "\<lambda>xs n x ys. if length t + 8 \<le> n then x = Some (word_of_nat (length xs) :: u16) \<and> ys = xs @ [Some t] else x = None \<and> ys = xs"
  let ?p = "pview sp (hp_cache h) i"
  have k1: "\<exists>x b'. ?k b = Inr (x, b') \<and> tp_ok b' \<and> ?R (tp_view b) (tp_end b - tp_start b) x (tp_view b') \<and> (x \<in> {None} \<longrightarrow> b' = b)" if b: "tp_ok b" for b
  proof (cases "tp_fits b (length t)")
    case True
    show ?thesis by (rule tp_insert_ok [OF b True]) (use True tp_open_ok [OF b] in \<open>auto simp: tp_fits_def SLOT_SIZE_def\<close>)
  next
    case False
    then show ?thesis using tp_full [OF b False] tp_open_ok [OF b] b by (auto simp: tp_fits_def SLOT_SIZE_def)
  qed
  then have k: "\<forall>b. tp_ok b \<longrightarrow> (\<exists>x b'. ?k b = Inr (x, b') \<and> tp_ok b' \<and> ?R (tp_view b) (tp_end b - tp_start b) x (tp_view b') \<and> (x \<in> {None} \<longrightarrow> b' = b))" by blast
  obtain r c' where w: "with_write_page env i ?k (hp_cache h) = (Inr r, c')" "heap_ok env sp K (h\<lparr>hp_cache := c'\<rparr>)"
      "?R (tp_view ?p) (tp_end ?p - tp_start ?p) r (tp_view (pview sp c' i))"
      "\<And>j. j \<in> K \<Longrightarrow> j \<noteq> i \<Longrightarrow> same_page (pview sp c' j) (pview sp (hp_cache h) j)"
      "ps_room sp (pc_block c') = ps_room sp (pc_block (hp_cache h))" "settles env sp K (hp_cache h) (pc_block c')"
      "r \<in> {None} \<Longrightarrow> same_view sp K (hp_cache h) c'"
    by (rule edit_page_ok [OF h i, where k = ?k and R = ?R, OF k]) (rule that; assumption)
  have ok: "tp_ok ?p" using heap_okD(4) [OF h i] .
  have c: "case r of None \<Rightarrow> heap_map sp K c' = ?m \<and> same_view sp K (hp_cache h) c' \<and> ps_room sp (pc_block c') = ps_room sp (pc_block (hp_cache h))
     | Some s \<Rightarrow> length t \<le> max_tuple \<and> \<lparr>page_id = i, slot_id = s\<rparr> \<notin> dom ?m \<and> heap_map sp K c' = ?m(\<lparr>page_id = i, slot_id = s\<rparr> \<mapsto> Some t)"
  proof (cases "length t + 8 \<le> tp_end ?p - tp_start ?p")
    case True
    have "tp_end ?p \<le> 8192" "27 \<le> tp_start ?p" using ok by (auto simp: tp_ok_def tp_consts slot_pos_def)
    then have len: "length t \<le> max_tuple" using True by (simp add: max_tuple_def)
    have r: "r = Some (word_of_nat (length (tp_view ?p)))" "tp_view (pview sp c' i) = tp_view ?p @ [Some t]" using True w(3) by simp_all
    have K: "K = insert i K" using i by auto
    have i': "i \<in> K \<and> tp_view ?p = tp_view ?p \<or> i \<notin> K \<and> tp_view ?p = []" using i by simp
    note A = heap_map_append [OF w(4) heap_okD(4) [OF h] i' tp_view_short [OF ok] r(2) K]
    show ?thesis using A len unfolding r(1) by simp
  next
    case False
    then have r: "r = None" "tp_view (pview sp c' i) = tp_view ?p" using w(3) by simp_all
    have "heap_map sp K c' k = ?m k" for k
      using r(2) same_page_tp(2) [OF w(4) heap_okD(4) [OF h]] by (cases "page_id k = i") (auto simp: heap_map_def)
    then show ?thesis using r(1) w(5,7) by auto
  qed
  show thesis by (rule that [OF _ w(2,6) c]) (simp add: try_append_def w(1))
qed

lemma heap_insert_ok:
  assumes h: "heap_ok env sp K h" and room: "ps_room sp (pc_block (hp_cache h))"
  obtains K' l h' where "heap_insert env t h = (if length t \<le> max_tuple then Inr l else Inl (TupleTooLarge (length t) max_tuple), h')"
    "heap_ok env sp K' h'" "K \<subseteq> K'" "l \<notin> dom (heap_map sp K (hp_cache h))"
    "heap_map sp K' (hp_cache h') = (if length t \<le> max_tuple then (heap_map sp K (hp_cache h))(l \<mapsto> Some t) else heap_map sp K (hp_cache h))"
    "settles env sp K (hp_cache h) (pc_block (hp_cache h'))"
proof (cases "hp_current h")
  case None
  obtain i h' where a: "heap_append_new env t h =
      (if length t \<le> max_tuple then Inr \<lparr>page_id = i, slot_id = 0\<rparr> else Inl (TupleTooLarge (length t) max_tuple), h')"
    "\<lparr>page_id = i, slot_id = 0\<rparr> \<notin> dom (heap_map sp K (hp_cache h))" "heap_ok env sp (insert i K) h'"
    "heap_map sp (insert i K) (hp_cache h') = (if length t \<le> max_tuple
      then (heap_map sp K (hp_cache h))(\<lparr>page_id = i, slot_id = 0\<rparr> \<mapsto> Some t) else heap_map sp K (hp_cache h))"
    "settles env sp K (hp_cache h) (pc_block (hp_cache h'))"
    by (rule heap_append_new_ok [OF h room, of t]) (rule that; assumption)
  show thesis by (rule that [OF _ a(3) subset_insertI a(2,4,5)]) (simp add: heap_insert_def None a(1))
next
  case (Some j)
  obtain r c' where w: "try_append env j t (hp_cache h) = (Inr r, c')" "heap_ok env sp K (h\<lparr>hp_cache := c'\<rparr>)"
    "settles env sp K (hp_cache h) (pc_block c')"
    "case r of None \<Rightarrow> heap_map sp K c' = heap_map sp K (hp_cache h) \<and> same_view sp K (hp_cache h) c' \<and> ps_room sp (pc_block c') = ps_room sp (pc_block (hp_cache h))
     | Some s \<Rightarrow> length t \<le> max_tuple \<and> \<lparr>page_id = j, slot_id = s\<rparr> \<notin> dom (heap_map sp K (hp_cache h)) \<and>
         heap_map sp K c' = (heap_map sp K (hp_cache h))(\<lparr>page_id = j, slot_id = s\<rparr> \<mapsto> Some t)"
    by (rule try_append_ok [OF h heap_okD(5) [OF h Some], of t]) (rule that; assumption)
  have oc: "on_cache (try_append env j t) h = (Inr r, h\<lparr>hp_cache := c'\<rparr>)" by (rule on_cache_eq) (rule w(1))
  show thesis
  proof (cases r)
    case (Some s)
    then show thesis using w(3,4) oc \<open>hp_current h = Some j\<close>
      by (intro that [of "\<lparr>page_id = j, slot_id = s\<rparr>" "h\<lparr>hp_cache := c'\<rparr>" K])
        (simp_all add: heap_insert_def st_bind_def st_return_def w(2))
  next
    case None
    let ?h = "h\<lparr>hp_cache := c'\<rparr>"
    have n: "heap_map sp K c' = heap_map sp K (hp_cache h)" "ps_room sp (pc_block (hp_cache ?h))" "same_view sp K (hp_cache h) (hp_cache ?h)"
      using w(4) None room by simp_all
    obtain i h' where a: "heap_append_new env t ?h =
        (if length t \<le> max_tuple then Inr \<lparr>page_id = i, slot_id = 0\<rparr> else Inl (TupleTooLarge (length t) max_tuple), h')"
      "\<lparr>page_id = i, slot_id = 0\<rparr> \<notin> dom (heap_map sp K (hp_cache ?h))" "heap_ok env sp (insert i K) h'"
      "heap_map sp (insert i K) (hp_cache h') = (if length t \<le> max_tuple
        then (heap_map sp K (hp_cache ?h))(\<lparr>page_id = i, slot_id = 0\<rparr> \<mapsto> Some t) else heap_map sp K (hp_cache ?h))"
      "settles env sp K (hp_cache ?h) (pc_block (hp_cache h'))"
      by (rule heap_append_new_ok [OF w(2) n(2), of t]) (rule that; assumption)
    have st: "settles env sp K (hp_cache h) (pc_block (hp_cache h'))"
      using settles_trans [OF _ n(3) heap_okD(1,2) [OF w(2)] a(5)] w(3) by simp
    show thesis
      by (rule that [OF _ a(3) subset_insertI, of "\<lparr>page_id = i, slot_id = 0\<rparr>"])
        (use a(1,2,4) n(1) None oc st \<open>hp_current h = Some j\<close> in \<open>simp_all add: heap_insert_def st_bind_def\<close>)
  qed
qed

end

section \<open>The pools of the program\<close>

definition disk_spec :: "(disk_store, nat lruk) pool_spec" where
  "disk_spec = \<lparr>ps_inv = disk_plain, ps_live = disk_live, ps_data = disk_data, ps_room = disk_room,
    ps_fits = disk_fits, ps_dur = disk_dur, ps_tracked = (\<lambda>p. fst ` set (lk_hist p)), ps_pinv = (\<lambda>_. True), ps_journaled = True\<rparr>"

definition mem_spec :: "(mem_store, nat lruk) pool_spec" where
  "mem_spec = \<lparr>ps_inv = mem_inv, ps_live = mem_live, ps_data = mem_data, ps_room = mem_room,
    ps_fits = mem_fits, ps_dur = mem_live, ps_tracked = (\<lambda>p. fst ` set (lk_hist p)), ps_pinv = (\<lambda>_. True), ps_journaled = False\<rparr>"

interpretation disk_pool: page_pool "disk_env crc jcrc" disk_spec for crc jcrc
  unfolding page_pool_def disk_env_def disk_spec_def lruk_ops_def
  by (simp add: plain.block_store_axioms lruk.eviction_policy_axioms)

interpretation mem_pool: page_pool "mem_env crc jcrc" mem_spec for crc jcrc
  unfolding page_pool_def mem_env_def mem_spec_def lruk_ops_def
  by (simp add: mem.block_store_axioms lruk.eviction_policy_axioms)

end
