(* ===== verification/Heap_Recovery.thy ===== *)
theory Heap_Recovery
  imports Tuple_Heap
begin

text \<open>
  Opening a heap again, after a flush or after a crash. The journal of a flush cut at any byte is
  replayed to a prefix of its records, which holds a commit marker only when it is complete;
  redoing a complete batch over a store whose blocks may be torn restores every page of it.
\<close>

section \<open>The page journal\<close>

fun page_op_ok :: "journal_op \<Rightarrow> bool" where
  "page_op_ok (JWrite i b) = (length b = BLOCK_SIZE)"
| "page_op_ok JCommit = True"

interpretation pj: journal_codec page_op_encode page_op_decode page_op_ok
proof unfold_locales
  fix r
  assume r: "page_op_ok r"
  show "page_op_decode (page_op_encode r) = Inr r"
  proof (cases r)
    case (JWrite i b)
    then show ?thesis by (simp add: page_op_decode_def TAG_WRITE_def TAG_COMMIT_def)
  qed (simp add: page_op_decode_def TAG_WRITE_def TAG_COMMIT_def)
  show "length (page_op_encode r) < 2 ^ 32" using r by (cases r) (simp_all add: BLOCK_SIZE_def)
qed

lemma take_frames:
  assumes "k < length (frames crc encode rs)"
  obtains n k' where "n < length rs" "k' < length (write_frame crc (encode (rs ! n)))"
    "take k (frames crc encode rs) = frames crc encode (take n rs) @ take k' (write_frame crc (encode (rs ! n)))"
  using assms
proof (induction rs arbitrary: k thesis)
  case (Cons r rs)
  let ?f = "write_frame crc (encode r)"
  show ?case
  proof (cases "k < length ?f")
    case True
    then show ?thesis using Cons.prems(1) [of 0 k] by (simp add: frames_Cons)
  next
    case False
    then have "k - length ?f < length (frames crc encode rs)" using Cons.prems(2) by (simp add: frames_Cons)
    then obtain n k' where n: "n < length rs" "k' < length (write_frame crc (encode (rs ! n)))"
      "take (k - length ?f) (frames crc encode rs) = frames crc encode (take n rs) @ take k' (write_frame crc (encode (rs ! n)))"
      using Cons.IH by blast
    have "take k (frames crc encode (r # rs)) = frames crc encode (take (Suc n) (r # rs)) @ take k' (write_frame crc (encode ((r # rs) ! Suc n)))"
      using False n(3) by (simp add: frames_Cons)
    then show ?thesis using Cons.prems(1) [of "Suc n" k'] n(1,2) by simp
  qed
qed simp

lemma committed_writes: "committed (writes ps) = None"
  by (induction ps) (auto simp: writes_def)

lemma committed_batch: "committed (rs @ [JCommit]) = Some rs"
  by (induction rs) auto

lemma committed_prefix:
  assumes "n < length (writes ps @ [JCommit])"
  shows "committed (take n (writes ps @ [JCommit])) = None"
proof -
  have "n \<le> length (writes ps)" using assms by simp
  then have "take n (writes ps @ [JCommit]) = writes (take n ps)" by (simp add: writes_def take_map)
  then show ?thesis by (simp add: committed_writes)
qed

text \<open>The journal a crash leaves, opened again.\<close>

lemma torn_journal:
  assumes rs: "rs = writes ps @ [JCommit]" and ok: "\<forall>(i, b)\<in>set ps. length b = BLOCK_SIZE" and k: "6 \<le> k"
    and f: "f = take k (j_file (journal_of jcrc page_op_encode rs))"
  obtains j where "block_journal_open (Some f) = Inr j" "truncate_log j = journal_of jcrc page_op_encode []"
    "\<exists>ops. block_journal_replay jcrc j = Inr ops \<and>
      committed ops = (if k < length (j_file (journal_of jcrc page_op_encode rs)) then None else Some (writes ps))"
proof -
  have v: "page_op_ok r" if "r \<in> set rs" for r using that ok by (auto simp: rs writes_def)
  let ?F = "frames jcrc page_op_encode rs"
  have f': "f = header_bytes @ take (k - 6) ?F" using f k by (simp add: journal_of_def)
  let ?j = "\<lparr>j_file = f, j_pos = length f\<rparr>"
  have op: "block_journal_open (Some f) = Inr ?j"
    by (simp add: block_journal_open_def f' with_codec_existing)
  have tr: "truncate_log ?j = journal_of jcrc page_op_encode []"
    by (simp add: truncate_log_def journal_of_def JOURNAL_HEADER_LEN_def f')
  have "\<exists>ops. replay jcrc page_op_decode ?j = map Inr ops \<and>
      committed ops = (if k < length (j_file (journal_of jcrc page_op_encode rs)) then None else Some (writes ps))"
  proof (cases "k - 6 < length ?F")
    case True
    obtain n k' where n: "n < length rs" "k' < length (write_frame jcrc (page_op_encode (rs ! n)))"
      "take (k - 6) ?F = frames jcrc page_op_encode (take n rs) @ take k' (write_frame jcrc (page_op_encode (rs ! n)))"
      by (rule take_frames [OF True])
    have "replay jcrc page_op_decode ?j = map Inr (take n rs)"
      by (rule pj.replay_torn [where r = "rs ! n" and k = k']) (use v n f' in \<open>auto dest: in_set_takeD\<close>)
    moreover have "committed (take n rs) = None" using n(1) unfolding rs by (rule committed_prefix)
    ultimately show ?thesis using True k by (intro exI [of _ "take n rs"]) (simp add: journal_of_def)
  next
    case False
    then have "replay jcrc page_op_decode ?j = map Inr rs" by (intro pj.replay_whole v) (simp_all add: f')
    then show ?thesis using False k by (intro exI [of _ rs]) (auto simp: journal_of_def rs committed_batch)
  qed
  then show thesis using that [OF op tr] by (auto simp: block_journal_replay_def collect_res_map_Inr)
qed

section \<open>Redo\<close>

context page_pool
begin

lemma redo_ok:
  assumes "ps_inv sp v" "\<forall>(i, b)\<in>set ps. ps_fits sp v i \<and> length b = BLOCK_SIZE"
  shows "\<exists>v'. st_iter (redo env) (writes ps) v = (Inr (), v') \<and> ps_inv sp v' \<and> ps_live sp v \<union> fst ` set ps \<subseteq> ps_live sp v' \<and>
    (\<forall>j\<in>ps_live sp v \<union> fst ` set ps. ps_data sp v' j = (case map_of (rev ps) j of Some b \<Rightarrow> b | None \<Rightarrow> ps_data sp v j))"
  using assms
proof (induction ps arbitrary: v)
  case (Cons p ps)
  obtain i b where p: "p = (i, b)" by fastforce
  have ib: "ps_fits sp v i" "length b = BLOCK_SIZE" using Cons.prems(2) p by simp_all
  obtain v1 where v1: "bs_ensure_allocated (env_store env) i v = (Inr (), v1)" "ps_inv sp v1" "insert i (ps_live sp v) \<subseteq> ps_live sp v1"
      "\<forall>j\<in>ps_live sp v. ps_data sp v1 j = ps_data sp v j" "ps_fits sp v1 = ps_fits sp v"
    using store_ensure [OF Cons.prems(1) ib(1)] by blast
  have i1: "i \<in> ps_live sp v1" using v1(3) by simp
  obtain v2 where v2: "bs_write (env_store env) i b v1 = (Inr (), v2)" "ps_inv sp v2" "ps_live sp v2 = ps_live sp v1"
      "\<forall>j\<in>ps_live sp v1. ps_data sp v2 j = (if j = i then b else ps_data sp v1 j)" "ps_fits sp v2 = ps_fits sp v1"
    using store_write [OF v1(2) i1 ib(2)] by blast
  have r: "redo env (JWrite i b) v = (Inr (), v2)" using v1(1) v2(1) ib(2) by (simp add: redo_def)
  obtain v3 where v3: "st_iter (redo env) (writes ps) v2 = (Inr (), v3)" "ps_inv sp v3" "ps_live sp v2 \<union> fst ` set ps \<subseteq> ps_live sp v3"
      "\<forall>j\<in>ps_live sp v2 \<union> fst ` set ps. ps_data sp v3 j = (case map_of (rev ps) j of Some b \<Rightarrow> b | None \<Rightarrow> ps_data sp v2 j)"
    using Cons.IH [OF v2(2)] Cons.prems(2) v1(5) v2(5) by auto
  have "st_iter (redo env) (writes (p # ps)) v = (Inr (), v3)" using r v3(1) by (simp add: writes_def p)
  moreover have "ps_live sp v \<union> fst ` set (p # ps) \<subseteq> ps_live sp v3" using v1(3) v2(3) v3(3) p by auto
  moreover have "ps_data sp v3 j = (case map_of (rev (p # ps)) j of Some b \<Rightarrow> b | None \<Rightarrow> ps_data sp v j)"
    if "j \<in> ps_live sp v \<union> fst ` set (p # ps)" for j
  proof -
    have "j \<in> ps_live sp v1 \<or> j \<in> fst ` set ps" using that v1(3) p by auto
    then have "ps_data sp v3 j = (case map_of (rev ps) j of Some b \<Rightarrow> b | None \<Rightarrow> ps_data sp v2 j)" using v3(4) v2(3) by auto
    moreover have "ps_data sp v2 j = (if j = i then b else ps_data sp v j)" if "map_of (rev ps) j = None"
    proof -
      have "j \<notin> fst ` set ps" using that by (simp add: map_of_eq_None_iff)
      then have "j = i \<or> j \<in> ps_live sp v" using \<open>j \<in> _\<close> p by auto
      then show ?thesis using v2(4) v1(3,4) by auto
    qed
    ultimately show ?thesis by (auto simp: p map_add_def split: option.splits)
  qed
  ultimately show ?case using v3(2) by (intro exI [of _ v3]) simp
qed (auto simp: writes_def)

lemma build_ok:
  assumes v: "ps_inv sp v" "K \<subseteq> ps_live sp v" "\<And>i. i \<in> K \<Longrightarrow> stored env sp v i" and p: "ps_pinv sp p" "ps_tracked sp p = {}"
    and n: "1 \<le> n" and j: "ps_journaled sp"
  obtains c where "pc_build v n p (Some (journal_of (env_jcrc env) page_op_encode [])) = Inr c" "pool_inv env sp K {} c" "idle c"
    "length (pc_frames c) = n" "pview sp c = ps_data sp v" "pc_block c = v"
proof -
  let ?c = "\<lparr>pc_block = v, pc_frames = replicate n frame_new, pc_table = Map.empty,
               pc_free = rev [0..<n], pc_policy = p, pc_journal = Some (journal_of (env_jcrc env) page_op_encode [])\<rparr>"
  have "pool_inv env sp K {} ?c"
    by (rule pool_invI) (use v p j in \<open>auto simp: frame_new_def frame_ok_def unpinned_def frames_with_def\<close>)
  moreover have "idle ?c" by (simp add: idle_def frame_new_def unpinned_def)
  moreover have "pview sp ?c = ps_data sp v" by (simp add: pview_def fun_eq_iff)
  ultimately show thesis using that [of ?c] n by (simp add: pc_build_def)
qed

lemma saved_by:
  assumes c: "pool_inv env sp K {} c" and dur: "K \<subseteq> ps_dur sp v"
    and dirty: "\<And>f i. f < length (pc_frames c) \<Longrightarrow> fr_page (pc_frames c ! f) = Some i \<Longrightarrow> fr_dirty (pc_frames c ! f) \<Longrightarrow>
      ps_data sp v i = fr_buf (finalized env (pc_frames c ! f))"
    and clean: "\<And>i. i \<in> K \<Longrightarrow> (\<And>f. f < length (pc_frames c) \<Longrightarrow> fr_page (pc_frames c ! f) = Some i \<Longrightarrow> \<not> fr_dirty (pc_frames c ! f)) \<Longrightarrow>
      ps_data sp v i = ps_data sp (pc_block c) i"
  shows "saved env sp K c v"
  unfolding saved_def
proof (intro ballI conjI impI)
  note I = pool_invD [OF c]
  fix i assume i: "i \<in> K"
  show "same_page (ps_data sp v i) (pview sp c i)"
    if w: "\<forall>f. pc_table c i = Some f \<longrightarrow> \<not> fr_writer (pc_frames c ! f)"
  proof -
    consider (d) f where "f < length (pc_frames c)" "fr_page (pc_frames c ! f) = Some i" "fr_dirty (pc_frames c ! f)"
      | (cl) "\<And>f. f < length (pc_frames c) \<Longrightarrow> fr_page (pc_frames c ! f) = Some i \<Longrightarrow> \<not> fr_dirty (pc_frames c ! f)"
      by blast
    then show "same_page (ps_data sp v i) (pview sp c i)"
    proof cases
      case d
      have "pc_table c i = Some f" using d by (simp add: I(4))
      then show ?thesis using dirty [OF d] finalized_ok [of "pc_frames c ! f" env] I(3) [OF d(1)]
        by (simp add: pview_resident frame_ok_def)
    next
      case cl
      show ?thesis
      proof (cases "pc_table c i")
        case None
        then show ?thesis using clean [OF i cl] by (simp add: pview_absent)
      next
        case (Some f)
        then have f: "f < length (pc_frames c)" "fr_page (pc_frames c ! f) = Some i" by (simp_all add: I(4))
        have "fr_buf (pc_frames c ! f) = ps_data sp (pc_block c) i" using I(11) [OF f] cl [OF f] w Some by simp
        then show ?thesis using clean [OF i cl] Some by (simp add: pview_resident)
      qed
    qed
  qed
  show "stored env sp v i"
  proof (cases "\<exists>f<length (pc_frames c). fr_page (pc_frames c ! f) = Some i \<and> fr_dirty (pc_frames c ! f)")
    case True
    then obtain f where f: "f < length (pc_frames c)" "fr_page (pc_frames c ! f) = Some i" "fr_dirty (pc_frames c ! f)" by blast
    then show ?thesis using dirty [OF f] finalized_ok(3) [of "pc_frames c ! f" env] I(3) [OF f(1)] dur i
      by (auto simp: stored_def frame_ok_def)
  next
    case False
    then have "ps_data sp v i = ps_data sp (pc_block c) i" "stored env sp (pc_block c) i" using clean [OF i] I(12) [OF i] by blast+
    then show ?thesis using dur i by (auto simp: stored_def)
  qed
qed

lemma finalized_images:
  assumes c: "pool_inv env sp K {} c"
  defines "D \<equiv> dirty_frames c"
  defines "ps \<equiv> map (\<lambda>f. (the (fr_page (pc_frames c ! f)), fr_buf (finalized env (pc_frames c ! f)))) D"
  shows "images D (snd (st_iter (finalize_frame env) D c)) = ps" "pc_journal (snd (st_iter (finalize_frame env) D c)) = pc_journal c"
    "\<And>f i. f < length (pc_frames c) \<Longrightarrow> fr_page (pc_frames c ! f) = Some i \<Longrightarrow> fr_dirty (pc_frames c ! f) \<Longrightarrow>
      map_of (rev ps) i = Some (fr_buf (finalized env (pc_frames c ! f)))"
    "\<And>i. (\<And>f. f < length (pc_frames c) \<Longrightarrow> fr_page (pc_frames c ! f) = Some i \<Longrightarrow> \<not> fr_dirty (pc_frames c ! f)) \<Longrightarrow>
      map_of (rev ps) i = None"
    "\<forall>(i, b)\<in>set ps. i \<in> K \<and> length b = BLOCK_SIZE" "fst ` set ps = (\<lambda>f. the (fr_page (pc_frames c ! f))) ` set D"
proof -
  note I = pool_invD [OF c]
  have D: "distinct D" "set D \<subseteq> {..<length (pc_frames c)}" by (auto simp: D_def dirty_frames_def)
  have inD: "f \<in> set D \<longleftrightarrow> fr_dirty (pc_frames c ! f)" if "f < length (pc_frames c)" for f
    using I(3) [OF that] that by (auto simp: D_def dirty_frames_def frame_ok_def)
  have pg: "fr_page (pc_frames c ! f) \<noteq> None" if "f \<in> set D" for f using that by (auto simp: D_def dirty_frames_def)
  have len: "\<forall>f\<in>set D. length (fr_buf (pc_frames c ! f)) = BLOCK_SIZE" using D(2) I(3) by (auto simp: frame_ok_def)
  have fin: "snd (st_iter (finalize_frame env) D c) = upd_frames D (finalized env) c" by (simp add: finalize_frames [OF D len])
  show "images D (snd (st_iter (finalize_frame env) D c)) = ps"
    using len by (auto simp: fin images_def ps_def upd_frames_nth [OF D] finalized_ok(6))
  show "pc_journal (snd (st_iter (finalize_frame env) D c)) = pc_journal c" by (simp add: fin)
  have "f = g" if fg: "f \<in> set D" "g \<in> set D" "the (fr_page (pc_frames c ! f)) = the (fr_page (pc_frames c ! g))" for f g
  proof -
    obtain i where i: "fr_page (pc_frames c ! f) = Some i" "fr_page (pc_frames c ! g) = Some i"
      using pg [OF fg(1)] pg [OF fg(2)] fg(3) by auto
    then have "pc_table c i = Some f" "pc_table c i = Some g" using fg D(2) by (auto simp: I(4))
    then show ?thesis by simp
  qed
  then have ids: "distinct (map fst (rev ps))" using D(1) by (auto simp: ps_def comp_def distinct_map inj_on_def rev_map [symmetric])
  show "map_of (rev ps) i = Some (fr_buf (finalized env (pc_frames c ! f)))"
    if "f < length (pc_frames c)" "fr_page (pc_frames c ! f) = Some i" "fr_dirty (pc_frames c ! f)" for f i
    using that inD [OF that(1)] by (intro map_of_is_SomeI [OF ids]) (force simp: ps_def)
  show fs: "fst ` set ps = (\<lambda>f. the (fr_page (pc_frames c ! f))) ` set D" by (force simp: ps_def)
  show "map_of (rev ps) i = None"
    if nd: "\<And>f. f < length (pc_frames c) \<Longrightarrow> fr_page (pc_frames c ! f) = Some i \<Longrightarrow> \<not> fr_dirty (pc_frames c ! f)" for i
  proof -
    have "the (fr_page (pc_frames c ! f)) \<noteq> i" if "f \<in> set D" for f
      using nd [of f] pg [OF that] inD D(2) that by auto
    then have "i \<notin> (\<lambda>f. the (fr_page (pc_frames c ! f))) ` set D" by blast
    then show ?thesis by (simp add: map_of_eq_None_iff fs)
  qed
  show "\<forall>(i, b)\<in>set ps. i \<in> K \<and> length b = BLOCK_SIZE"
    using D(2) pg I(5) len by (fastforce simp: ps_def finalized_ok(4))
qed

end

section \<open>A heap on disk\<close>

text \<open>The journal of a flush at its commit point.\<close>

definition flush_journal :: "('v, 'p) cache_env \<Rightarrow> ('v, 'p) pool \<Rightarrow> journal option" where
  "flush_journal env c =
    (let D = dirty_frames c in
     if D = [] then pc_journal c else pc_journal (log_images env D (snd (st_iter (finalize_frame env) D c))))"

text \<open>
  The two files after a crash inside \<open>heap_flush\<close>, or between two operations (a flush that has
  logged nothing). The journal holds the first \<open>k\<close> bytes of what the flush logs. The store is
  untouched until the commit marker is logged; from then on the dirty pages may hold anything.
\<close>

definition heap_crash :: "crc_ops \<Rightarrow> (bytes \<Rightarrow> u32) \<Rightarrow> (disk_store, nat lruk) heap \<Rightarrow> nat \<Rightarrow> os_file \<Rightarrow> bytes \<Rightarrow> bool" where
  "heap_crash crc jcrc h k tuples_db tuples_journal \<longleftrightarrow>
    (let c = hp_cache h; full = j_file (the (flush_journal (disk_env crc jcrc) c)) in
     JOURNAL_HEADER_LEN \<le> k \<and> tuples_journal = take k full \<and>
     (if k < length full then tuples_db = ds_file (pc_block c)
      else torn_file ((\<lambda>f. the (fr_page (pc_frames c ! f))) ` set (dirty_frames c)) (pc_block c) tuples_db))"

text \<open>What is on disk: the pages \<open>D\<close> were written back at some point and hold the map \<open>d\<close>.\<close>

definition data_map :: "('v, 'p) pool_spec \<Rightarrow> u64 set \<Rightarrow> 'v \<Rightarrow> tuple_loc \<rightharpoonup> bytes option" where
  "data_map sp D v l =
    (if page_id l \<in> D \<and> unat (slot_id l) < length (tp_view (ps_data sp v (page_id l)))
     then Some (tp_view (ps_data sp v (page_id l)) ! unat (slot_id l)) else None)"

definition disk_holds :: "('v, 'p) cache_env \<Rightarrow> ('v, 'p) pool_spec \<Rightarrow> u64 set \<Rightarrow> 'v \<Rightarrow> (tuple_loc \<rightharpoonup> bytes option) \<Rightarrow> bool" where
  "disk_holds env sp D v d \<longleftrightarrow> (\<forall>i\<in>D. stored env sp v i \<and> tp_ok (ps_data sp v i)) \<and> d = data_map sp D v"

lemma heap_map_data: "pview sp c = ps_data sp v \<Longrightarrow> heap_map sp K c = data_map sp K v"
  by (simp add: heap_map_def data_map_def fun_eq_iff)

lemma saved_holds:
  assumes "saved env sp K c v" "pool_inv env sp K {} c" "idle c" "\<And>i. i \<in> K \<Longrightarrow> tp_ok (pview sp c i)"
  shows "disk_holds env sp K v (heap_map sp K c)"
proof -
  have "\<not> fr_writer (pc_frames c ! f)" if "pc_table c i = Some f" for i f
    using that pool_invD(4) [OF assms(2)] assms(3) by (auto simp: idle_def unpinned_def)
  then have s: "stored env sp v i" "same_page (ps_data sp v i) (pview sp c i)" if "i \<in> K" for i
    using that assms(1) by (auto simp: saved_def)
  have t: "tp_view (ps_data sp v i) = tp_view (pview sp c i)" "tp_ok (ps_data sp v i)" if "i \<in> K" for i
    using same_page_tp(1,2) [OF s(2) [OF that]] assms(4) [OF that] by simp_all
  have "heap_map sp K c l = data_map sp K v l" for l
    using t(1) [of "page_id l"] by (auto simp: heap_map_def data_map_def)
  then show ?thesis using s(1) t(2) by (auto simp: disk_holds_def)
qed

lemma settles_holds:
  assumes "settles env sp K c v" "pool_inv env sp K {} c" "idle c" "\<And>i. i \<in> K \<Longrightarrow> tp_ok (pview sp c i)"
    and d: "disk_holds env sp D (pc_block c) d" "D \<subseteq> K"
  obtains D' d' where "disk_holds env sp D' v d'" "D' \<subseteq> K" "d' \<in> {d, heap_map sp K c}"
proof (cases "saved env sp K c v")
  case True
  then show thesis using that [OF saved_holds [OF True assms(2-4)]] by simp
next
  case False
  then have k: "stored env sp v i \<and> ps_data sp v i = ps_data sp (pc_block c) i" if "i \<in> D" for i
    using that assms(1) d by (auto simp: settles_def kept_def disk_holds_def)
  have "data_map sp D v l = data_map sp D (pc_block c) l" for l using k [of "page_id l"] by (auto simp: data_map_def)
  then have "disk_holds env sp D v d" using d k by (auto simp: disk_holds_def)
  then show thesis using that d(2) by simp
qed

lemma disk_spec_sel [simp]:
  "ps_inv disk_spec = disk_plain" "ps_live disk_spec = disk_live" "ps_data disk_spec = disk_data" "ps_room disk_spec = disk_room"
  "ps_fits disk_spec = disk_fits" "ps_dur disk_spec = disk_dur" "ps_tracked disk_spec p = fst ` set (lk_hist p)"
  "ps_pinv disk_spec p" "ps_journaled disk_spec"
  by (simp_all add: disk_spec_def)

lemma disk_env_sel [simp]: "env_store (disk_env crc jcrc) = disk_ops" "env_jcrc (disk_env crc jcrc) = jcrc"
  by (simp_all add: disk_env_def)

lemma lruk_default_hist [simp]: "lk_hist lruk_default = []"
  by (simp add: lruk_default_def lruk_new_def)

lemma heap_open_from:
  assumes o: "disk_open f = Inr v'" "block_journal_open jf = Inr j" "truncate_log j = journal_of jcrc page_op_encode []"
      "recover (disk_env crc jcrc) j v' = (Inr (), v)"
    and v: "disk_plain v" "D \<subseteq> disk_live v" "disk_holds (disk_env crc jcrc) disk_spec D v d" and n: "1 \<le> n"
  obtains h where "heap_open crc jcrc f jf n = Inr h" "heap_ok (disk_env crc jcrc) disk_spec D h"
    "heap_map disk_spec D (hp_cache h) = d" "pc_block (hp_cache h) = v"
proof -
  obtain c where c: "pc_build v n lruk_default (Some (journal_of (env_jcrc (disk_env crc jcrc)) page_op_encode [])) = Inr c"
      "pool_inv (disk_env crc jcrc) disk_spec D {} c" "idle c" "length (pc_frames c) = n" "pview disk_spec c = ps_data disk_spec v" "pc_block c = v"
    by (rule disk_pool.build_ok [of v D crc jcrc lruk_default n]) (use v n in \<open>simp_all add: disk_holds_def\<close>)
  have "heap_open crc jcrc f jf n = Inr (heap_new c)"
    using o c(1) by (simp add: heap_open_def pc_with_journal_def)
  moreover have "heap_ok (disk_env crc jcrc) disk_spec D (heap_new c)"
    using c n v(3) by (simp add: heap_ok_def heap_new_def disk_holds_def)
  moreover have "heap_map disk_spec D c = d" using heap_map_data [OF c(5)] v(3) by (simp add: disk_holds_def)
  ultimately show thesis using that c(6) by (simp add: heap_new_def)
qed

text \<open>The journal and what recovery does with it.\<close>

lemma crash_journal:
  assumes h: "pool_inv (disk_env crc jcrc) disk_spec K {} c" and k: "6 \<le> k"
    and jf: "jf = take k (j_file (the (flush_journal (disk_env crc jcrc) c)))"
  defines "ps \<equiv> map (\<lambda>f. (the (fr_page (pc_frames c ! f)), fr_buf (finalized (disk_env crc jcrc) (pc_frames c ! f)))) (dirty_frames c)"
  obtains j ops where "block_journal_open (Some jf) = Inr j" "truncate_log j = journal_of jcrc page_op_encode []"
    "block_journal_replay jcrc j = Inr ops"
    "committed ops = (if dirty_frames c = [] \<or> k < length (j_file (the (flush_journal (disk_env crc jcrc) c))) then None else Some (writes ps))"
proof (cases "dirty_frames c = []")
  case True
  have jn: "flush_journal (disk_env crc jcrc) c = Some (journal_of jcrc page_op_encode [])"
    using True pool_invD(13) [OF h] by (simp add: flush_journal_def)
  then have "jf = header_bytes" using jf k by (simp add: journal_of_def)
  then have "block_journal_open (Some jf) = Inr (journal_of jcrc page_op_encode [])"
    using with_codec_existing [of "[]"] by (simp add: block_journal_open_def journal_of_def)
  moreover have "block_journal_replay jcrc (journal_of jcrc page_op_encode []) = Inr []"
    using pj.replay_journal_of [of "[]" jcrc] by (simp add: block_journal_replay_def)
  ultimately show thesis using that True by simp
next
  case False
  note F = disk_pool.finalized_images [OF h]
  have "pc_journal (snd (st_iter (finalize_frame (disk_env crc jcrc)) (dirty_frames c) c)) =
      Some (journal_of (env_jcrc (disk_env crc jcrc)) page_op_encode [])"
    using F(2) pool_invD(13) [OF h] by simp
  from log_images_journal [OF this, of "dirty_frames c"]
  have jn: "flush_journal (disk_env crc jcrc) c = Some (journal_of jcrc page_op_encode (writes ps @ [JCommit]))"
    using False F(1) by (simp add: flush_journal_def Let_def ps_def)
  have ok: "\<forall>(i, b)\<in>set ps. length b = BLOCK_SIZE" using F(5) unfolding ps_def by blast
  obtain j where "block_journal_open (Some jf) = Inr j" "truncate_log j = journal_of jcrc page_op_encode []"
    "\<exists>ops. block_journal_replay jcrc j = Inr ops \<and>
      committed ops = (if k < length (j_file (journal_of jcrc page_op_encode (writes ps @ [JCommit]))) then None else Some (writes ps))"
    using torn_journal [OF refl ok k, of jf jcrc] jf jn by auto
  then show thesis using that False jn by auto
qed

text \<open>When recovery finds nothing to redo, the heap shows what was stored.\<close>

lemma open_stored:
  assumes h: "heap_ok (disk_env crc jcrc) disk_spec K h" and d: "disk_holds (disk_env crc jcrc) disk_spec D (pc_block (hp_cache h)) d"
    and j: "block_journal_open jf = Inr j" "truncate_log j = journal_of jcrc page_op_encode []"
      "block_journal_replay jcrc j = Inr ops" "committed ops = None" and n: "1 \<le> n"
  obtains h' where "heap_open crc jcrc (ds_file (pc_block (hp_cache h))) jf n = Inr h'" "heap_ok (disk_env crc jcrc) disk_spec D h'"
    "heap_map disk_spec D (hp_cache h') = d" "disk_holds (disk_env crc jcrc) disk_spec D (pc_block (hp_cache h')) d"
proof -
  let ?e = "disk_env crc jcrc" and ?c = "hp_cache h"
  have v: "disk_plain (pc_block ?c)" using pool_invD(1) [of ?e disk_spec K "{}" ?c] h by (simp add: heap_ok_def)
  obtain v' where v': "disk_open (ds_file (pc_block ?c)) = Inr v'" "disk_plain v'" "disk_dur (pc_block ?c) \<subseteq> disk_live v'" "disk_live v' = disk_dur v'"
      "\<And>i. i \<in> disk_live v' \<Longrightarrow> disk_data v' i = disk_data (pc_block ?c) i"
    by (rule torn_open [OF v torn_file_refl [of "{}"]]) simp
  have rc: "recover ?e j v' = (Inr (), v')" using j(3,4) by (simp add: recover_def)
  have dd: "disk_data v' i = disk_data (pc_block ?c) i \<and> i \<in> disk_live v' \<and> i \<in> disk_dur v'" if "i \<in> D" for i
    using that d v'(3,4,5) by (auto simp: disk_holds_def stored_def)
  have st: "stored ?e disk_spec v' i \<and> tp_ok (ps_data disk_spec v' i)" if "i \<in> D" for i
    using dd [OF that] that d by (simp add: disk_holds_def stored_def)
  have "data_map disk_spec D v' l = data_map disk_spec D (pc_block ?c) l" for l
    using dd [of "page_id l"] by (auto simp: data_map_def)
  then have dh: "disk_holds ?e disk_spec D v' d" using st d by (auto simp: disk_holds_def)
  have sub: "D \<subseteq> disk_live v'" using dd by blast
  show thesis
    by (rule heap_open_from [OF v'(1) j(1,2) rc v'(2) sub dh n]) (rule that, assumption+, simp add: dh)
qed

lemma crash_old:
  assumes h: "heap_ok (disk_env crc jcrc) disk_spec K h" and d: "disk_holds (disk_env crc jcrc) disk_spec D (pc_block (hp_cache h)) d"
    and cr: "heap_crash crc jcrc h k f jf" and k: "k < length (j_file (the (flush_journal (disk_env crc jcrc) (hp_cache h))))" and n: "1 \<le> n"
  obtains h' where "heap_open crc jcrc f (Some jf) n = Inr h'" "heap_ok (disk_env crc jcrc) disk_spec D h'"
    "heap_map disk_spec D (hp_cache h') = d" "disk_holds (disk_env crc jcrc) disk_spec D (pc_block (hp_cache h')) d"
proof -
  let ?e = "disk_env crc jcrc" and ?c = "hp_cache h"
  have inv: "pool_inv ?e disk_spec K {} ?c" using h by (simp add: heap_ok_def)
  have f: "f = ds_file (pc_block ?c)" "6 \<le> k" "jf = take k (j_file (the (flush_journal ?e ?c)))"
    using cr k by (simp_all add: heap_crash_def Let_def JOURNAL_HEADER_LEN_def)
  obtain j ops where j: "block_journal_open (Some jf) = Inr j" "truncate_log j = journal_of jcrc page_op_encode []"
      "block_journal_replay jcrc j = Inr ops" "committed ops = None"
    by (rule crash_journal [OF inv f(2,3)]) (use k in simp)
  show thesis unfolding f(1) by (rule open_stored [OF h d j n]) (rule that; simp add: f(1))
qed

lemma crash_new:
  assumes h: "heap_ok (disk_env crc jcrc) disk_spec K h" and cr: "heap_crash crc jcrc h k f jf"
    and k: "\<not> k < length (j_file (the (flush_journal (disk_env crc jcrc) (hp_cache h))))" and n: "1 \<le> n"
  obtains h' where "heap_open crc jcrc f (Some jf) n = Inr h'" "heap_ok (disk_env crc jcrc) disk_spec K h'"
    "heap_map disk_spec K (hp_cache h') = heap_map disk_spec K (hp_cache h)"
    "disk_holds (disk_env crc jcrc) disk_spec K (pc_block (hp_cache h')) (heap_map disk_spec K (hp_cache h))"
proof -
  let ?e = "disk_env crc jcrc" and ?c = "hp_cache h"
  define ps where "ps = map (\<lambda>f. (the (fr_page (pc_frames ?c ! f)), fr_buf (finalized ?e (pc_frames ?c ! f)))) (dirty_frames ?c)"
  note H = disk_pool.heap_okD [OF h]
  note I = pool_invD [OF H(1)]
  note F = disk_pool.finalized_images [OF H(1), folded ps_def]
  have f: "torn_file (fst ` set ps) (pc_block ?c) f" "6 \<le> k" "jf = take k (j_file (the (flush_journal ?e ?c)))"
    using cr k F(6) by (simp_all add: heap_crash_def Let_def JOURNAL_HEADER_LEN_def)
  obtain j ops where j: "block_journal_open (Some jf) = Inr j" "truncate_log j = journal_of jcrc page_op_encode []"
      "block_journal_replay jcrc j = Inr ops" "committed ops = (if dirty_frames ?c = [] then None else Some (writes ps))"
    by (rule crash_journal [OF H(1) f(2,3), folded ps_def]) (use k in simp)
  have v: "disk_plain (pc_block ?c)" using I(1) by simp
  obtain v' where v': "disk_open f = Inr v'" "disk_plain v'" "disk_dur (pc_block ?c) \<subseteq> disk_live v'" "disk_live v' = disk_dur v'"
      "disk_live (pc_block ?c) \<subseteq> {i. disk_fits v' i}"
      "\<And>i. i \<in> disk_live v' \<Longrightarrow> i \<notin> fst ` set ps \<Longrightarrow> disk_data v' i = disk_data (pc_block ?c) i"
    by (rule torn_open [OF v f(1)]) (rule that; assumption)
  have fit: "\<forall>(i, b)\<in>set ps. ps_fits disk_spec v' i \<and> length b = BLOCK_SIZE" using F(5) v'(5) I(2) by auto
  obtain v1 where v1: "st_iter (redo ?e) (writes ps) v' = (Inr (), v1)" "disk_plain v1" "disk_live v' \<union> fst ` set ps \<subseteq> disk_live v1"
      "\<forall>j\<in>disk_live v' \<union> fst ` set ps. disk_data v1 j = (case map_of (rev ps) j of Some b \<Rightarrow> b | None \<Rightarrow> disk_data v' j)"
    using disk_pool.redo_ok [OF _ fit, of crc jcrc, unfolded disk_spec_sel(1-7)] v'(2) by blast
  obtain v2 where v2: "recover ?e j v' = (Inr (), v2)" "disk_plain v2" "disk_live v1 \<subseteq> disk_live v2" "disk_live v1 \<subseteq> disk_dur v2"
      "\<And>i. i \<in> disk_live v1 \<Longrightarrow> disk_data v2 i = disk_data v1 i"
  proof (cases "dirty_frames ?c = []")
    case True
    then have "v1 = v'" "recover ?e j v' = (Inr (), v')" using v1(1) j(3,4) by (simp_all add: recover_def writes_def ps_def)
    then show thesis using that [of v'] v'(2,4) by simp
  next
    case False
    obtain w where "disk_sync v1 = (Inr (), w)" "disk_plain w" "disk_live w = disk_live v1" "\<forall>j\<in>disk_live v1. disk_data w j = disk_data v1 j"
        "disk_live v1 \<subseteq> disk_dur w"
      using plain.store_sync [OF v1(2)] by (auto simp: disk_ops_def)
    then show thesis using that [of w] v1(1) j(3,4) False by (simp add: recover_def disk_ops_def)
  qed
  have nd: "i \<in> disk_dur (pc_block ?c)"
    if "i \<in> K" "\<And>f. f < length (pc_frames ?c) \<Longrightarrow> fr_page (pc_frames ?c ! f) = Some i \<Longrightarrow> \<not> fr_dirty (pc_frames ?c ! f)" for i
    using I(12) [OF that] by (simp add: stored_def)
  have inK: "i \<in> disk_live v' \<union> fst ` set ps" if i: "i \<in> K" for i
  proof (cases "map_of (rev ps) i")
    case None
    then have "\<not> fr_dirty (pc_frames ?c ! f)" if "f < length (pc_frames ?c)" "fr_page (pc_frames ?c ! f) = Some i" for f
      using F(3) [OF that] by auto
    then show ?thesis using nd [OF i] v'(3) by blast
  next
    case (Some b)
    then show ?thesis using map_of_SomeD [OF Some] by force
  qed
  have dat: "disk_data v2 i = (case map_of (rev ps) i of Some b \<Rightarrow> b | None \<Rightarrow> disk_data v' i)" if "i \<in> K" for i
  proof -
    have "i \<in> disk_live v1" using inK [OF that] v1(3) by blast
    then show ?thesis using v2(5) v1(4) inK [OF that] by simp
  qed
  have sv: "saved ?e disk_spec K ?c v2"
  proof (rule disk_pool.saved_by [OF H(1)])
    show "K \<subseteq> ps_dur disk_spec v2" unfolding disk_spec_sel using inK v1(3) v2(4) by blast
    show "ps_data disk_spec v2 i = fr_buf (finalized ?e (pc_frames ?c ! f))"
      if fi: "f < length (pc_frames ?c)" "fr_page (pc_frames ?c ! f) = Some i" "fr_dirty (pc_frames ?c ! f)" for f i
      using F(3) [OF fi] dat [OF I(5) [OF fi(1,2)]] by simp
    show "ps_data disk_spec v2 i = ps_data disk_spec (pc_block ?c) i"
      if i: "i \<in> K" "\<And>f. f < length (pc_frames ?c) \<Longrightarrow> fr_page (pc_frames ?c ! f) = Some i \<Longrightarrow> \<not> fr_dirty (pc_frames ?c ! f)" for i
    proof -
      have m: "map_of (rev ps) i = None" using F(4) [OF i(2)] by blast
      then have "i \<notin> fst ` set ps" by (simp add: map_of_eq_None_iff)
      then show ?thesis using m dat [OF i(1)] v'(6) inK [OF i(1)] by auto
    qed
  qed
  have dh: "disk_holds ?e disk_spec K v2 (heap_map disk_spec K ?c)" by (rule saved_holds [OF sv H(1,2,4)])
  have sub: "K \<subseteq> disk_live v2" using inK v1(3) v2(3) by blast
  show thesis
    by (rule heap_open_from [OF v'(1) j(1,2) v2(1,2) sub dh n]) (rule that, assumption+, simp add: dh)
qed

end
