(* ===== verification/Heap_Properties.thy ===== *)
theory Heap_Properties
  imports Heap_Recovery
begin

text \<open>
  The heap on disk over its whole life: reachable states, each with the map of its tuples and
  with the maps it had since the last flush.
\<close>

section \<open>Reachable heaps\<close>

text \<open>\<open>m\<close> is what the operations made of the heap; \<open>F\<close> are the maps it went through since the
  last completed flush, any of which a flush caused by eviction may have left on disk.\<close>

inductive heap_reach ::
  "crc_ops \<Rightarrow> (bytes \<Rightarrow> u32) \<Rightarrow> (disk_store, nat lruk) heap \<Rightarrow> (tuple_loc \<rightharpoonup> bytes option) \<Rightarrow> (tuple_loc \<rightharpoonup> bytes option) set \<Rightarrow> bool"
  for crc jcrc where
  fresh: "BLOCK_SIZE \<le> space \<Longrightarrow> 1 \<le> n \<Longrightarrow> heap_open crc jcrc \<lparr>of_data = [], of_space = space\<rparr> None n = Inr h \<Longrightarrow>
    heap_reach crc jcrc h Map.empty {Map.empty}"
| insert: "heap_reach crc jcrc h m F \<Longrightarrow> disk_room (pc_block (hp_cache h)) \<Longrightarrow> heap_insert (disk_env crc jcrc) t h = (r, h') \<Longrightarrow>
    heap_reach crc jcrc h' (case r of Inr l \<Rightarrow> m(l \<mapsto> Some t) | Inl _ \<Rightarrow> m) (insert m F)"
| get: "heap_reach crc jcrc h m F \<Longrightarrow> l \<in> dom m \<Longrightarrow> heap_get (disk_env crc jcrc) l h = (Inr f, h') \<Longrightarrow>
    heap_reach crc jcrc (drop_ref f h') m (insert m F)"
| edit: "heap_reach crc jcrc h m F \<Longrightarrow> l \<in> dom m \<Longrightarrow> \<forall>b. length (g b) = length b \<Longrightarrow>
    heap_get_mut (disk_env crc jcrc) l h = (Inr f, h1) \<Longrightarrow> tuple_mut_edit f (slot_id l) g h1 = (r, h2) \<Longrightarrow>
    heap_reach crc jcrc (drop_mut f h2) (m(l := map_option (map_option g) (m l))) (insert m F)"
| delete: "heap_reach crc jcrc h m F \<Longrightarrow> l \<in> dom m \<Longrightarrow> heap_delete (disk_env crc jcrc) l h = (r, h') \<Longrightarrow>
    heap_reach crc jcrc h' (m(l \<mapsto> None)) (insert m F)"
| flush: "heap_reach crc jcrc h m F \<Longrightarrow> heap_flush (disk_env crc jcrc) h = (r, h') \<Longrightarrow> heap_reach crc jcrc h' m {m}"
| reopen: "heap_reach crc jcrc h m F \<Longrightarrow> heap_flush (disk_env crc jcrc) h = (r, h1) \<Longrightarrow> 1 \<le> n \<Longrightarrow>
    heap_open crc jcrc (ds_file (pc_block (hp_cache h1))) (map_option j_file (pc_journal (hp_cache h1))) n = Inr h2 \<Longrightarrow>
    heap_reach crc jcrc h2 m {m}"

definition heap_state ::
  "crc_ops \<Rightarrow> (bytes \<Rightarrow> u32) \<Rightarrow> (disk_store, nat lruk) heap \<Rightarrow> (tuple_loc \<rightharpoonup> bytes option) \<Rightarrow> (tuple_loc \<rightharpoonup> bytes option) set \<Rightarrow> bool" where
  "heap_state crc jcrc h m F \<longleftrightarrow> (\<exists>K D d. heap_ok (disk_env crc jcrc) disk_spec K h \<and> m = heap_map disk_spec K (hp_cache h) \<and>
    D \<subseteq> K \<and> disk_holds (disk_env crc jcrc) disk_spec D (pc_block (hp_cache h)) d \<and> d \<in> F)"

lemma heap_stateI:
  "heap_ok (disk_env crc jcrc) disk_spec K h \<Longrightarrow> heap_map disk_spec K (hp_cache h) = m \<Longrightarrow> D \<subseteq> K \<Longrightarrow>
    disk_holds (disk_env crc jcrc) disk_spec D (pc_block (hp_cache h)) d \<Longrightarrow> d \<in> F \<Longrightarrow> heap_state crc jcrc h m F"
  unfolding heap_state_def by blast

text \<open>An operation that settles keeps the second part of the state.\<close>

lemma heap_state_step:
  assumes st: "settles (disk_env crc jcrc) disk_spec K (hp_cache h) (pc_block (hp_cache h'))" and h: "heap_ok (disk_env crc jcrc) disk_spec K h"
    and d: "disk_holds (disk_env crc jcrc) disk_spec D (pc_block (hp_cache h)) d" "D \<subseteq> K" "d \<in> F"
    and h': "heap_ok (disk_env crc jcrc) disk_spec K' h'" "K \<subseteq> K'" "heap_map disk_spec K' (hp_cache h') = m'"
  shows "heap_state crc jcrc h' m' (insert (heap_map disk_spec K (hp_cache h)) F)"
proof -
  obtain D' d' where "disk_holds (disk_env crc jcrc) disk_spec D' (pc_block (hp_cache h')) d'" "D' \<subseteq> K" "d' \<in> {d, heap_map disk_spec K (hp_cache h)}"
    by (rule settles_holds [OF st disk_pool.heap_okD(1,2,4) [OF h] d(1,2)])
  then show ?thesis using d(3) h' by (intro heap_stateI [where K = K' and D = D' and d = d']) auto
qed

lemma heap_state_open:
  assumes "BLOCK_SIZE \<le> space" "1 \<le> n"
  obtains h where "heap_open crc jcrc \<lparr>of_data = [], of_space = space\<rparr> None n = Inr h" "heap_state crc jcrc h Map.empty {Map.empty}"
    "ds_free (pc_block (hp_cache h)) = []" "file_limit (ds_file (pc_block (hp_cache h))) = space" "ds_next (pc_block (hp_cache h)) = 1"
proof -
  obtain v where v: "disk_open \<lparr>of_data = [], of_space = space\<rparr> = Inr v" "disk_inv v" "disk_live v = {}" "ds_free v = []"
    "file_limit (ds_file v) = space" "ds_next v = 1" "read_superblock (ds_file v) = Inr (1, [])"
    by (rule disk_open_fresh [OF assms(1)]) (rule that; assumption)
  have pl: "disk_plain v" using v by (simp add: disk_plain_def disk_ok_def super_ok_def)
  let ?j = "journal_of jcrc page_op_encode []"
  have j: "block_journal_open None = Inr ?j" "truncate_log ?j = ?j" "block_journal_replay jcrc ?j = Inr []"
    using pj.replay_journal_of [of "[]" jcrc]
    by (simp_all add: block_journal_open_def with_codec_fresh [of jcrc page_op_encode] block_journal_replay_def)
  have rc: "recover (disk_env crc jcrc) ?j v = (Inr (), v)" using j(3) by (simp add: recover_def)
  have dh: "disk_holds (disk_env crc jcrc) disk_spec {} v Map.empty" by (simp add: disk_holds_def data_map_def fun_eq_iff)
  obtain h where h: "heap_open crc jcrc \<lparr>of_data = [], of_space = space\<rparr> None n = Inr h" "heap_ok (disk_env crc jcrc) disk_spec {} h"
    "heap_map disk_spec {} (hp_cache h) = Map.empty" "pc_block (hp_cache h) = v"
    by (rule heap_open_from [OF v(1) j(1,2) rc pl empty_subsetI dh assms(2)])
  have "heap_state crc jcrc h Map.empty {Map.empty}" by (rule heap_stateI [OF h(2,3) empty_subsetI]) (simp_all add: h(4) dh)
  then show thesis using that h(1,4) v(4-6) by simp
qed

lemma heap_reach_state: "heap_reach crc jcrc h m F \<Longrightarrow> heap_state crc jcrc h m F"
proof (induction rule: heap_reach.induct)
  case (fresh space n h)
  then show ?case using heap_state_open [OF fresh(1,2), of crc jcrc] by (metis sum.inject(2))
next
  case (insert h m F t r h')
  obtain K D d where s: "heap_ok (disk_env crc jcrc) disk_spec K h" "m = heap_map disk_spec K (hp_cache h)" "D \<subseteq> K"
      "disk_holds (disk_env crc jcrc) disk_spec D (pc_block (hp_cache h)) d" "d \<in> F"
    using insert.IH by (auto simp: heap_state_def)
  have room: "ps_room disk_spec (pc_block (hp_cache h))" using insert.hyps(2) by simp
  obtain K' l h1 where i: "heap_insert (disk_env crc jcrc) t h = (if length t \<le> max_tuple then Inr l else Inl (TupleTooLarge (length t) max_tuple), h1)"
    "heap_ok (disk_env crc jcrc) disk_spec K' h1" "K \<subseteq> K'" "l \<notin> dom (heap_map disk_spec K (hp_cache h))"
    "heap_map disk_spec K' (hp_cache h1) = (if length t \<le> max_tuple then (heap_map disk_spec K (hp_cache h))(l \<mapsto> Some t) else heap_map disk_spec K (hp_cache h))"
    "settles (disk_env crc jcrc) disk_spec K (hp_cache h) (pc_block (hp_cache h1))"
    by (rule disk_pool.heap_insert_ok [OF s(1) room, of t])
  have e: "h' = h1" "r = (if length t \<le> max_tuple then Inr l else Inl (TupleTooLarge (length t) max_tuple))"
    using insert.hyps(3) i(1) by simp_all
  show ?case unfolding e s(2) by (rule heap_state_step [OF i(6) s(1,4,3,5) i(2,3)]) (simp add: i(5) fun_eq_iff)
next
  case (get h m F l f h')
  obtain K D d where s: "heap_ok (disk_env crc jcrc) disk_spec K h" "m = heap_map disk_spec K (hp_cache h)" "D \<subseteq> K"
      "disk_holds (disk_env crc jcrc) disk_spec D (pc_block (hp_cache h)) d" "d \<in> F"
    using get.IH by (auto simp: heap_state_def)
  have l: "page_id l \<in> K" using get.hyps(2) s(2) by (auto simp: heap_map_def split: if_splits)
  obtain g h1 where i: "heap_get (disk_env crc jcrc) l h = (Inr g, h1)" "heap_ok (disk_env crc jcrc) disk_spec K (drop_ref g h1)"
    "heap_map disk_spec K (hp_cache (drop_ref g h1)) = heap_map disk_spec K (hp_cache h)"
    "settles (disk_env crc jcrc) disk_spec K (hp_cache h) (pc_block (hp_cache (drop_ref g h1)))"
    by (rule disk_pool.heap_get_ok [OF s(1) l])
  have e: "f = g" "h' = h1" using get.hyps(3) i(1) by simp_all
  show ?case unfolding e s(2) by (rule heap_state_step [OF i(4) s(1,4,3,5) i(2) subset_refl i(3)])
next
  case (edit h m F l g f h1 r h2)
  obtain K D d where s: "heap_ok (disk_env crc jcrc) disk_spec K h" "m = heap_map disk_spec K (hp_cache h)" "D \<subseteq> K"
      "disk_holds (disk_env crc jcrc) disk_spec D (pc_block (hp_cache h)) d" "d \<in> F"
    using edit.IH by (auto simp: heap_state_def)
  have l: "page_id l \<in> K" using edit.hyps(2) s(2) by (auto simp: heap_map_def split: if_splits)
  obtain a b c where i: "heap_get_mut (disk_env crc jcrc) l h = (Inr a, b)"
    "tuple_mut_edit a (slot_id l) g b = (Inr (\<exists>b. heap_map disk_spec K (hp_cache h) l = Some (Some b)), c)"
    "heap_ok (disk_env crc jcrc) disk_spec K (drop_mut a c)"
    "heap_map disk_spec K (hp_cache (drop_mut a c)) = (heap_map disk_spec K (hp_cache h))(l := map_option (map_option g) (heap_map disk_spec K (hp_cache h) l))"
    "settles (disk_env crc jcrc) disk_spec K (hp_cache h) (pc_block (hp_cache (drop_mut a c)))"
    by (rule disk_pool.heap_edit_ok [OF s(1) l, of g]) (use edit.hyps(3) in simp)
  have e: "f = a" "h1 = b" "h2 = c" using edit.hyps(4,5) i(1,2) by simp_all
  show ?case unfolding e s(2) by (rule heap_state_step [OF i(5) s(1,4,3,5) i(3) subset_refl i(4)])
next
  case (delete h m F l r h')
  obtain K D d where s: "heap_ok (disk_env crc jcrc) disk_spec K h" "m = heap_map disk_spec K (hp_cache h)" "D \<subseteq> K"
      "disk_holds (disk_env crc jcrc) disk_spec D (pc_block (hp_cache h)) d" "d \<in> F"
    using delete.IH by (auto simp: heap_state_def)
  have l: "page_id l \<in> K" "l \<in> dom (heap_map disk_spec K (hp_cache h))" using delete.hyps(2) s(2) by (auto simp: heap_map_def split: if_splits)
  obtain h1 where i: "heap_delete (disk_env crc jcrc) l h = (Inr (l \<in> dom (heap_map disk_spec K (hp_cache h))), h1)" "heap_ok (disk_env crc jcrc) disk_spec K h1"
    "heap_map disk_spec K (hp_cache h1) = (if l \<in> dom (heap_map disk_spec K (hp_cache h)) then (heap_map disk_spec K (hp_cache h))(l \<mapsto> None) else heap_map disk_spec K (hp_cache h))"
    "settles (disk_env crc jcrc) disk_spec K (hp_cache h) (pc_block (hp_cache h1))"
    by (rule disk_pool.heap_delete_ok [OF s(1) l(1)])
  have e: "h' = h1" using delete.hyps(3) i(1) by simp
  show ?case unfolding e s(2) by (rule heap_state_step [OF i(4) s(1,4,3,5) i(2) subset_refl]) (simp add: i(3) l(2) fun_eq_iff)
next
  case (flush h m F r h')
  obtain K D d where s: "heap_ok (disk_env crc jcrc) disk_spec K h" "m = heap_map disk_spec K (hp_cache h)" "D \<subseteq> K"
      "disk_holds (disk_env crc jcrc) disk_spec D (pc_block (hp_cache h)) d" "d \<in> F"
    using flush.IH by (auto simp: heap_state_def)
  obtain h1 where i: "heap_flush (disk_env crc jcrc) h = (Inr (), h1)" "heap_ok (disk_env crc jcrc) disk_spec K h1"
      "heap_map disk_spec K (hp_cache h1) = heap_map disk_spec K (hp_cache h)" "saved (disk_env crc jcrc) disk_spec K (hp_cache h) (pc_block (hp_cache h1))"
    by (rule disk_pool.heap_flush_ok [OF s(1)])
  have e: "h' = h1" using flush.hyps(2) i(1) by simp
  have dh: "disk_holds (disk_env crc jcrc) disk_spec K (pc_block (hp_cache h1)) m"
    unfolding s(2) by (rule saved_holds [OF i(4) disk_pool.heap_okD(1,2,4) [OF s(1)]])
  show ?case unfolding e by (rule heap_stateI [OF i(2) _ subset_refl dh]) (simp_all add: i(3) s(2))
next
  case (reopen h m F r h1 n h2)
  obtain K D d where s: "heap_ok (disk_env crc jcrc) disk_spec K h" "m = heap_map disk_spec K (hp_cache h)"
    using reopen.IH by (auto simp: heap_state_def)
  obtain h1' where i: "heap_flush (disk_env crc jcrc) h = (Inr (), h1')" "heap_ok (disk_env crc jcrc) disk_spec K h1'"
      "saved (disk_env crc jcrc) disk_spec K (hp_cache h) (pc_block (hp_cache h1'))"
    by (rule disk_pool.heap_flush_ok [OF s(1)])
  have e: "h1 = h1'" using reopen.hyps(2) i(1) by simp
  have dh: "disk_holds (disk_env crc jcrc) disk_spec K (pc_block (hp_cache h1')) m"
    unfolding s(2) by (rule saved_holds [OF i(3) disk_pool.heap_okD(1,2,4) [OF s(1)]])
  let ?j = "journal_of jcrc page_op_encode []"
  have pj: "pc_journal (hp_cache h1') = Some ?j" using pool_invD(13) [OF disk_pool.heap_okD(1) [OF i(2)]] by simp
  have j: "block_journal_open (Some (j_file ?j)) = Inr ?j" "truncate_log ?j = ?j" "block_journal_replay jcrc ?j = Inr []"
    using pj.replay_journal_of [of "[]" jcrc] by (simp_all add: block_journal_open_def with_codec_reopen block_journal_replay_def)
  obtain h3 where "heap_open crc jcrc (ds_file (pc_block (hp_cache h1'))) (Some (j_file ?j)) n = Inr h3" "heap_ok (disk_env crc jcrc) disk_spec K h3"
    "heap_map disk_spec K (hp_cache h3) = m" "disk_holds (disk_env crc jcrc) disk_spec K (pc_block (hp_cache h3)) m"
    by (rule open_stored [OF i(2) dh j(1-3) committed.simps(1) reopen.hyps(3)]) (rule that; assumption)
  then show ?case using reopen.hyps(4) e pj by (auto intro: heap_stateI)
qed

section \<open>Properties\<close>

text \<open>C5. The tuple heap on disk refines a map from locations to tuples, whatever the size of
  its buffer pool. In every state reached by opening an empty directory, inserting,
  reading, editing and deleting tuples, flushing and opening the heap again, a lookup of
  a location handed out before returns the bytes stored there, or nothing once it was
  deleted. As long as the file can grow, an insert of up to 8157 bytes succeeds and returns a
  location that was never handed out; a longer tuple is refused with the length an empty
  page can take. Deleting, editing and flushing succeed.\<close>

theorem heap_refines_map:
  assumes "heap_reach crc jcrc h m F"
  defines "env \<equiv> disk_env crc jcrc"
  shows "(\<forall>l\<in>dom m. \<exists>f h'. heap_get env l h = (Inr f, h') \<and> tuple_ref_bytes f (slot_id l) h' = Inr (the (m l))) \<and>
    (disk_room (pc_block (hp_cache h)) \<longrightarrow> (\<exists>l h'. l \<notin> dom m \<and>
      heap_insert env t h = (if length t \<le> 8157 then Inr l else Inl (TupleTooLarge (length t) 8157), h'))) \<and>
    (\<forall>l\<in>dom m. \<exists>h'. heap_delete env l h = (Inr True, h')) \<and>
    (\<forall>l\<in>dom m. (\<forall>b. length (g b) = length b) \<longrightarrow> (\<exists>f h1 h2. heap_get_mut env l h = (Inr f, h1) \<and>
      tuple_mut_edit f (slot_id l) g h1 = (Inr (the (m l) \<noteq> None), h2))) \<and>
    (\<exists>h'. heap_flush env h = (Inr (), h'))"
proof -
  obtain K where K: "heap_ok env disk_spec K h" "m = heap_map disk_spec K (hp_cache h)"
    using heap_reach_state [OF assms(1)] by (auto simp: heap_state_def env_def)
  have pg: "page_id l \<in> K" if "l \<in> dom m" for l using that K(2) by (auto simp: heap_map_def split: if_splits)
  note K1 = K(1) [unfolded env_def]
  have "\<exists>f h'. heap_get env l h = (Inr f, h') \<and> tuple_ref_bytes f (slot_id l) h' = Inr (the (m l))" if "l \<in> dom m" for l
    by (rule disk_pool.heap_get_ok [OF K1 pg [OF that]]) (use that K(2) in \<open>auto simp: env_def\<close>)
  moreover have "\<exists>l h'. l \<notin> dom m \<and> heap_insert env t h = (if length t \<le> 8157 then Inr l else Inl (TupleTooLarge (length t) 8157), h')"
    if "disk_room (pc_block (hp_cache h))"
    by (rule disk_pool.heap_insert_ok [OF K1, of t]) (use that K(2) in \<open>auto simp: env_def max_tuple_def\<close>)
  moreover have "\<exists>h'. heap_delete env l h = (Inr True, h')" if "l \<in> dom m" for l
    by (rule disk_pool.heap_delete_ok [OF K1 pg [OF that]]) (use that K(2) in \<open>simp add: env_def\<close>)
  moreover have "\<exists>f h1 h2. heap_get_mut env l h = (Inr f, h1) \<and> tuple_mut_edit f (slot_id l) g h1 = (Inr (the (m l) \<noteq> None), h2)"
    if "l \<in> dom m" "\<forall>b. length (g b) = length b" for l
    by (rule disk_pool.heap_edit_ok [OF K1 pg [OF that(1)], of g]) (use that K(2) in \<open>auto simp: env_def\<close>)
  moreover have "\<exists>h'. heap_flush env h = (Inr (), h')"
    by (rule disk_pool.heap_flush_ok [OF K1]) (auto simp: env_def)
  ultimately show ?thesis by simp
qed

text \<open>A run used by the two examples: a fresh heap with one tuple in it.\<close>

definition crc_zero :: crc_ops where
  "crc_zero = \<lparr>crc32c = (\<lambda>_. 0), crc32c_append = (\<lambda>_ _. 0)\<rparr>"

lemma fresh_heap:
  obtains h where "heap_open crc jcrc \<lparr>of_data = [], of_space = 1048576\<rparr> None 2 = Inr h"
    "heap_reach crc jcrc h Map.empty {Map.empty}" "disk_room (pc_block (hp_cache h))"
proof -
  have n: "BLOCK_SIZE \<le> 1048576" by (simp add: BLOCK_SIZE_def)
  obtain h where h: "heap_open crc jcrc \<lparr>of_data = [], of_space = 1048576\<rparr> None 2 = Inr h"
    "ds_free (pc_block (hp_cache h)) = []" "file_limit (ds_file (pc_block (hp_cache h))) = 1048576" "ds_next (pc_block (hp_cache h)) = 1"
    by (rule heap_state_open [OF n, of 2 crc jcrc]) simp_all
  have "disk_room (pc_block (hp_cache h))" using h(2-4) by (simp add: disk_room_def disk_fits_def chunk_end_def BLOCK_SIZE_def)
  then show thesis using that [OF h(1) heap_reach.fresh [OF n _ h(1)]] by simp
qed

theorem heap_refines_map_witness:
  "\<exists>h l h'. heap_open crc_zero (\<lambda>_. 0) \<lparr>of_data = [], of_space = 1048576\<rparr> None 2 = Inr h \<and>
    heap_insert (disk_env crc_zero (\<lambda>_. 0)) [1, 2, 3] h = (Inr l, h') \<and>
    (\<exists>f h''. heap_get (disk_env crc_zero (\<lambda>_. 0)) l h' = (Inr f, h'') \<and> tuple_ref_bytes f (slot_id l) h'' = Inr (Some [1, 2, 3]))"
proof -
  obtain h where h: "heap_open crc_zero (\<lambda>_. 0) \<lparr>of_data = [], of_space = 1048576\<rparr> None 2 = Inr h"
    "heap_reach crc_zero (\<lambda>_. 0) h Map.empty {Map.empty}" "disk_room (pc_block (hp_cache h))"
    by (rule fresh_heap)
  obtain l h' where i: "heap_insert (disk_env crc_zero (\<lambda>_. 0)) [1, 2, 3] h = (Inr l, h')"
    using heap_refines_map [OF h(2), of "[1, 2, 3]" id] h(3) by auto
  have "heap_reach crc_zero (\<lambda>_. 0) h' [l \<mapsto> Some [1, 2, 3]] {Map.empty}"
    using heap_reach.insert [OF h(2,3) i] by simp
  from heap_refines_map [OF this, of "[]" id] show ?thesis using h(1) i by auto
qed



end
