(* ===== verification/Heap_Scan.thy ===== *)
theory Heap_Scan
  imports Heap_Properties
begin

text \<open>
  Reading many tuples of a heap behind one pin: \<open>Heap::page\<close> and the page a scan of
  \<^verbatim>\<open>src/crates/strata-store/src/iterator.rs\<close> holds. The next page is pinned before the held one
  is dropped, so a scan needs two frames; no operation changes the number of frames.
\<close>

section \<open>Definitions\<close>

definition heap_page :: "('v, 'p) cache_env \<Rightarrow> u64 \<Rightarrow> (('v, 'p) heap, fs_error, nat) op" where
  "heap_page env i = on_cache (acquire_read env i)"

text \<open>The page a scan holds: its id and the frame it pins.\<close>

type_synonym held = "(u64 \<times> nat) option"

definition drop_held :: "held \<Rightarrow> ('v, 'p) heap \<Rightarrow> ('v, 'p) heap" where
  "drop_held cur h = (case cur of None \<Rightarrow> h | Some (_, f) \<Rightarrow> drop_ref f h)"

text \<open>The swap in \<open>Scan::next\<close>: keep the held page when the row is on it, otherwise pin the row's
  page and drop the held one.\<close>

definition hold_page :: "('v, 'p) cache_env \<Rightarrow> u64 \<Rightarrow> held \<Rightarrow> ('v, 'p) heap \<Rightarrow> (fs_error + nat) \<times> held \<times> ('v, 'p) heap" where
  "hold_page env i cur h =
    (if map_option fst cur = Some i then (Inr (snd (the cur)), cur, h)
     else case heap_page env i h of
       (Inl e, h') \<Rightarrow> (Inl e, cur, h')
     | (Inr f, h') \<Rightarrow> (Inr f, Some (i, f), drop_held cur h'))"

section \<open>The number of frames\<close>

definition keeps_frames :: "(('v, 'p) pool, 'e, 'a) op \<Rightarrow> bool" where
  "keeps_frames m \<longleftrightarrow> (\<forall>c. length (pc_frames (snd (m c))) = length (pc_frames c))"

lemma keeps_framesD: "keeps_frames m \<Longrightarrow> m c = (r, c') \<Longrightarrow> length (pc_frames c') = length (pc_frames c)"
  unfolding keeps_frames_def by (metis snd_conv)

lemma keeps_frames_bind: "keeps_frames m \<Longrightarrow> (\<And>x. keeps_frames (f x)) \<Longrightarrow> keeps_frames (st_bind m f)"
  by (auto simp: keeps_frames_def st_bind_def split: prod.split sum.split) (metis snd_conv)+

lemma keeps_frames_iter: "(\<And>x. keeps_frames (f x)) \<Longrightarrow> keeps_frames (st_iter f xs)"
proof (induction xs)
  case (Cons x xs)
  then show ?case using keeps_frames_bind [of "f x" "\<lambda>_. st_iter f xs"] by (simp add: keeps_frames_def)
qed (simp add: keeps_frames_def)

lemma length_upd_frame [simp]: "length (pc_frames (upd_frame f g c)) = length (pc_frames c)"
  by (simp add: upd_frame_def)

lemma keeps_frames_block: "keeps_frames (on_block m)"
  by (simp add: keeps_frames_def on_block_def split: prod.split)

lemma keeps_frames_flush: "keeps_frames (pc_flush env)"
proof -
  have fin: "keeps_frames (finalize_frame env f)" for f :: nat
    by (simp add: keeps_frames_def finalize_frame_def split: sum.split)
  have wb: "keeps_frames (write_back env f)" for f :: nat
    by (auto simp: keeps_frames_def write_back_def st_bind_def on_block_def split: sum.split prod.split)
  have tail: "keeps_frames (st_bind (st_iter (write_back env) dirty) (\<lambda>_.
       st_bind (on_block (bs_sync (env_store env))) (\<lambda>_ c.
         (Inr (), c\<lparr>pc_journal := map_option truncate_log (pc_journal c)\<rparr>))))" for dirty
    by (intro keeps_frames_bind keeps_frames_iter wb keeps_frames_block) (simp add: keeps_frames_def)
  have "keeps_frames (st_bind (st_iter (finalize_frame env) dirty) (\<lambda>_ c.
       st_bind (st_iter (write_back env) dirty) (\<lambda>_.
       st_bind (on_block (bs_sync (env_store env))) (\<lambda>_ c.
         (Inr (), c\<lparr>pc_journal := map_option truncate_log (pc_journal c)\<rparr>)))
       (log_images env dirty c)))" for dirty
    by (rule keeps_frames_bind [OF keeps_frames_iter [OF fin]])
      (use tail in \<open>simp add: keeps_frames_def log_images_def\<close>)
  then show ?thesis by (simp add: keeps_frames_def pc_flush_def Let_def)
qed

lemma pick_evictable_frames: "pick_evictable env b c = (r, c') \<Longrightarrow> pc_frames c' = pc_frames c"
  by (auto simp: pick_evictable_def split: prod.splits)

lemma length_reclaim [simp]: "length (pc_frames (reclaim env f c)) = length (pc_frames c)"
  by (simp add: reclaim_def)

lemma keeps_frames_victim: "keeps_frames (victim_frame env)"
proof -
  have second: "keeps_frames (\<lambda>c. case pick_evictable env False c of
             (Some f, c) \<Rightarrow> (Inr f, reclaim env f c)
           | (None, c) \<Rightarrow> (Inl (PoolExhausted (length (pc_frames c))), c))"
    by (auto simp: keeps_frames_def dest: pick_evictable_frames split: prod.split option.split)
  note S = keeps_frames_bind [OF keeps_frames_flush second, of env]
  have "length (pc_frames (snd (victim_frame env c))) = length (pc_frames c)" for c
    using S by (auto simp: victim_frame_def keeps_frames_def dest!: pick_evictable_frames split: prod.split option.split)
  then show ?thesis by (simp add: keeps_frames_def)
qed

lemma length_install [simp]: "length (pc_frames (install env f i g c)) = length (pc_frames c)"
  by (simp add: install_def Let_def)

lemma load_page_frames: "load_page env f i c = (r, c') \<Longrightarrow> length (pc_frames c') = length (pc_frames c)"
  by (auto simp: load_page_def split: sum.splits)

lemma keeps_frames_fault: "keeps_frames (fault_in env i g)"
  unfolding fault_in_def
  by (rule keeps_frames_bind [OF keeps_frames_victim])
    (auto simp: keeps_frames_def dest: load_page_frames split: prod.split sum.split)

lemma keeps_frames_acquire: "keeps_frames (acquire_read env i)" "keeps_frames (acquire_write env i)"
  using keeps_frames_fault [of env i] by (auto simp: keeps_frames_def acquire_read_def acquire_write_def split: option.split)

lemma keeps_frames_allocate: "keeps_frames (pc_allocate env)"
  unfolding pc_allocate_def
  by (intro keeps_frames_bind keeps_frames_block keeps_frames_victim) (simp add: keeps_frames_def)

lemma length_release [simp]:
  "length (pc_frames (release_read f c)) = length (pc_frames c)" "length (pc_frames (release_write f c)) = length (pc_frames c)"
  "length (pc_frames (set_page_bytes f b c)) = length (pc_frames c)"
  by (simp_all add: release_read_def release_write_def set_page_bytes_def)

lemma keeps_frames_append: "keeps_frames (try_append env i t)" "keeps_frames (append_to_new_page env t)"
  unfolding try_append_def with_write_page_def append_to_new_page_def
  by (rule keeps_frames_bind [OF keeps_frames_acquire(2)] keeps_frames_bind [OF keeps_frames_allocate];
      auto simp: keeps_frames_def split: sum.split prod.split)+

text \<open>The same for the operations of the heap.\<close>

abbreviation nframes :: "('v, 'p) heap \<Rightarrow> nat" where
  "nframes h \<equiv> length (pc_frames (hp_cache h))"

lemma on_cache_frames: "keeps_frames m \<Longrightarrow> on_cache m h = (r, h') \<Longrightarrow> nframes h' = nframes h"
  by (auto simp: on_cache_def dest: keeps_framesD split: prod.splits)

lemma heap_append_new_frames: "heap_append_new env t h = (r, h') \<Longrightarrow> nframes h' = nframes h"
  unfolding heap_append_new_def st_bind_def
  by (auto dest!: on_cache_frames [OF keeps_frames_append(2)] split: prod.splits sum.splits)

lemma heap_frames:
  "heap_insert env t h = (r, h') \<Longrightarrow> nframes h' = nframes h"
  "heap_page env i h = (q, h') \<Longrightarrow> nframes h' = nframes h"
  "heap_get env l h = (q', h') \<Longrightarrow> nframes h' = nframes h"
  "heap_flush env h = (u, h') \<Longrightarrow> nframes h' = nframes h"
  "nframes (drop_ref f h) = nframes h"
proof -
  show "nframes h' = nframes h" if "heap_insert env t h = (r, h')"
    using that unfolding heap_insert_def st_bind_def
    by (auto dest!: on_cache_frames [OF keeps_frames_append(1)] heap_append_new_frames split: option.splits prod.splits sum.splits)
qed (auto simp: heap_page_def heap_get_def heap_flush_def drop_ref_def dest: on_cache_frames [OF keeps_frames_acquire(1)] on_cache_frames [OF keeps_frames_flush])

section \<open>Holding one page\<close>

text \<open>Frame \<open>f\<close> has one reader and every other frame is free.\<close>

definition one_reader :: "nat \<Rightarrow> ('v, 'p) pool \<Rightarrow> bool" where
  "one_reader f c \<longleftrightarrow> fr_readers (pc_frames c ! f) = 1 \<and> \<not> fr_writer (pc_frames c ! f) \<and>
    (\<forall>g<length (pc_frames c). g \<noteq> f \<longrightarrow> unpinned (pc_frames c ! g))"

definition held_ok :: "u64 set \<Rightarrow> held \<Rightarrow> ('v, 'p) pool \<Rightarrow> bool" where
  "held_ok K cur c \<longleftrightarrow> (case cur of None \<Rightarrow> idle c | Some (i, f) \<Rightarrow> i \<in> K \<and> pc_table c i = Some f \<and> one_reader f c)"

definition scanning ::
  "('v, 'p) cache_env \<Rightarrow> ('v, 'p) pool_spec \<Rightarrow> u64 set \<Rightarrow> held \<Rightarrow> ('v, 'p) heap \<Rightarrow> bool" where
  "scanning env sp K cur h \<longleftrightarrow> pool_inv env sp K {} (hp_cache h) \<and> held_ok K cur (hp_cache h) \<and> 2 \<le> nframes h \<and>
    (\<forall>i\<in>K. tp_ok (pview sp (hp_cache h) i)) \<and> (\<forall>i. hp_current h = Some i \<longrightarrow> i \<in> K)"

lemma one_reader_released:
  assumes "one_reader f c" "f < length (pc_frames c)"
  shows "idle (release_read f c)"
  using assms by (auto simp: one_reader_def idle_def release_read_def upd_frame_nth unpinned_def)

context page_pool
begin

lemma scanning_start: "heap_ok env sp K h \<Longrightarrow> 2 \<le> nframes h \<Longrightarrow> scanning env sp K None h"
  by (simp add: scanning_def held_ok_def heap_ok_def)

lemma scanning_stop:
  assumes s: "scanning env sp K cur h"
  shows "heap_ok env sp K (drop_held cur h)" "heap_map sp K (hp_cache (drop_held cur h)) = heap_map sp K (hp_cache h)"
    "nframes (drop_held cur h) = nframes h"
proof -
  have S: "pool_inv env sp K {} (hp_cache h)" "held_ok K cur (hp_cache h)" "0 < nframes h"
      "\<And>i. i \<in> K \<Longrightarrow> tp_ok (pview sp (hp_cache h) i)" "\<And>i. hp_current h = Some i \<Longrightarrow> i \<in> K"
    using s by (auto simp: scanning_def)
  have "heap_ok env sp K (drop_held cur h) \<and> heap_map sp K (hp_cache (drop_held cur h)) = heap_map sp K (hp_cache h)"
  proof (cases cur)
    case None
    then show ?thesis using S by (simp add: drop_held_def heap_ok_def held_ok_def)
  next
    case (Some p)
    obtain i f where p: "p = (i, f)" by force
    have f: "pc_table (hp_cache h) i = Some f" "one_reader f (hp_cache h)" using S(2) Some p by (simp_all add: held_ok_def)
    have "f < nframes h" using f(1) pool_invD(4) [OF S(1)] by simp
    then show ?thesis using S(3-5) release_read_ok [OF S(1) f(1)] one_reader_released [OF f(2)] Some p
      by (simp add: drop_held_def drop_ref_def heap_ok_def heap_map_def fun_eq_iff)
  qed
  then show "heap_ok env sp K (drop_held cur h)" "heap_map sp K (hp_cache (drop_held cur h)) = heap_map sp K (hp_cache h)"
    by simp_all
  show "nframes (drop_held cur h) = nframes h" by (simp add: drop_held_def heap_frames(5) split: option.split)
qed

text \<open>Pinning a second page leaves the held one pinned in its frame; dropping that one leaves
  the new page held alone.\<close>

lemma swap_pages_ok:
  assumes c: "pool_inv env sp K {} c" "2 \<le> length (pc_frames c)" and cur: "held_ok K cur c" "map_option fst cur \<noteq> Some i" and i: "i \<in> K"
  obtains f c1 where "acquire_read env i c = (Inr f, c1)" "same_view sp K c (case cur of None \<Rightarrow> c1 | Some (_, g) \<Rightarrow> release_read g c1)"
    "pool_inv env sp K {} (case cur of None \<Rightarrow> c1 | Some (_, g) \<Rightarrow> release_read g c1)"
    "held_ok K (Some (i, f)) (case cur of None \<Rightarrow> c1 | Some (_, g) \<Rightarrow> release_read g c1)"
proof -
  note T = pool_invD(4) [OF c(1)]
  define pinned where "pinned = (case cur of None \<Rightarrow> {} | Some (_, g) \<Rightarrow> {g})"
  have other: "unpinned (pc_frames c ! g)" if "g < length (pc_frames c)" "g \<notin> pinned" for g
    using cur(1) that by (simp add: held_ok_def idle_def one_reader_def pinned_def split: option.splits prod.splits)
  have "0 \<notin> pinned \<or> 1 \<notin> pinned" by (simp add: pinned_def split: option.split)
  then have free: "\<exists>g<length (pc_frames c). unpinned (pc_frames c ! g)"
    using other [of 0] other [of 1] c(2) by (metis Suc_1 Suc_le_lessD lessI order_less_trans zero_less_one One_nat_def)
  have res: "unpinned (pc_frames c ! g)" if "pc_table c i = Some g" for g
  proof (rule other)
    show "g < length (pc_frames c)" using that T by simp
    show "g \<notin> pinned"
    proof
      assume "g \<in> pinned"
      then obtain j where j: "cur = Some (j, g)" by (auto simp: pinned_def split: option.splits)
      then have "pc_table c j = Some g" using cur(1) by (simp add: held_ok_def)
      then have "j = i" using that T by simp
      then show False using j cur(2) by simp
    qed
  qed
  obtain f c1 where a: "acquire_read env i c = (Inr f, c1)" "page_pinned K c i f c1" "same_page (page_bytes f c1) (pview sp c i)"
      "\<not> fr_writer (pc_frames c1 ! f)" "fr_readers (pc_frames c1 ! f) = (if pc_table c i = Some f then fr_readers (pc_frames c ! f) else 0) + 1"
      "pc_table c i = None \<Longrightarrow> unpinned (pc_frames c ! f)"
    by (rule acquire_read_ok [OF c(1) i]) (use free res in \<open>auto simp: unpinned_def split: option.split\<close>)
  have p: "pool_inv env sp K {} c1" "pc_table c1 i = Some f" "length (pc_frames c1) = length (pc_frames c)" "f < length (pc_frames c)"
      "\<forall>k\<in>K - {i}. same_page (pview sp c1 k) (pview sp c k)"
      "\<And>g. g<length (pc_frames c) \<Longrightarrow> g \<noteq> f \<Longrightarrow> frame_like (pc_frames c ! g) (pc_frames c1 ! g)"
    using a(2) unfolding page_pinned_def by blast+
  have view: "same_view sp K c c1"
    using p(5) a(3) pview_resident [OF p(2), of sp] by (auto simp: same_view_def page_bytes_def)
  have rd: "fr_readers (pc_frames c1 ! f) = 1" using a(5) res by (auto simp: unpinned_def)
  show thesis
  proof (cases cur)
    case None
    have "unpinned (pc_frames c1 ! g)" if "g < length (pc_frames c)" "g \<noteq> f" for g
      using other [OF that(1)] None frame_like_unpinned [OF p(6) [OF that]] by (simp add: pinned_def)
    then have "held_ok K (Some (i, f)) c1" using rd a(4) p(2,3) i by (simp add: held_ok_def one_reader_def)
    then show thesis using that a(1) None view p(1) by simp
  next
    case (Some q)
    obtain j g where q: "q = (j, g)" by force
    have g: "pc_table c j = Some g" "one_reader g c" "j \<noteq> i" "j \<in> K" using cur Some q by (auto simp: held_ok_def)
    have gl: "g < length (pc_frames c)" "fr_page (pc_frames c ! g) = Some j" using g(1) T by simp_all
    have pi: "\<not> unpinned (pc_frames c ! g)" using g(2) by (simp add: one_reader_def unpinned_def)
    have gf: "g \<noteq> f"
    proof (cases "pc_table c i")
      case None
      then show ?thesis using a(6) pi by auto
    next
      case (Some f0)
      then have "f = f0" using a(1) by (auto simp: acquire_read_def split: if_splits)
      then show ?thesis using res [OF Some] pi by auto
    qed
    note fl = p(6) [OF gl(1) gf]
    have tg: "pc_table c1 j = Some g" using fl gl p(3) pool_invD(4) [OF p(1)] by (simp add: frame_like_def)
    have un: "unpinned (pc_frames c1 ! k)" if "k < length (pc_frames c)" "k \<noteq> f" "k \<noteq> g" for k
      using other [OF that(1)] Some q that(3) frame_like_unpinned [OF p(6) [OF that(1,2)]] by (simp add: pinned_def)
    have rg: "fr_readers (pc_frames c1 ! g) = 1" "\<not> fr_writer (pc_frames c1 ! g)" using fl g(2) by (simp_all add: frame_like_def one_reader_def)
    note R = release_read_ok [OF p(1) tg]
    have "one_reader f (release_read g c1)"
      using un rg rd a(4) p(3,4) gf gl(1) by (auto simp: one_reader_def release_read_def upd_frame_nth unpinned_def)
    then have "held_ok K (Some (i, f)) (release_read g c1)"
      using i p(2) by (simp add: held_ok_def release_read_def upd_frame_def)
    then show thesis using that a(1) Some q view R by (simp add: same_view_def)
  qed
qed

lemma hold_page_ok:
  assumes s: "scanning env sp K cur h" and l: "page_id l \<in> K"
  obtains f h' where "hold_page env (page_id l) cur h = (Inr f, Some (page_id l, f), h')" "scanning env sp K (Some (page_id l, f)) h'"
    "tuple_ref_bytes f (slot_id l) h' = Inr (case heap_map sp K (hp_cache h) l of Some x \<Rightarrow> x | None \<Rightarrow> None)"
    "heap_map sp K (hp_cache h') = heap_map sp K (hp_cache h)" "nframes h' = nframes h"
proof -
  let ?i = "page_id l" and ?c = "hp_cache h"
  have S: "pool_inv env sp K {} ?c" "held_ok K cur ?c" "2 \<le> nframes h"
      "\<And>i. i \<in> K \<Longrightarrow> tp_ok (pview sp ?c i)" "\<And>i. hp_current h = Some i \<Longrightarrow> i \<in> K"
    using s by (auto simp: scanning_def)
  have read: "tuple_ref_bytes f (slot_id l) h' = Inr (case heap_map sp K (hp_cache h') l of Some x \<Rightarrow> x | None \<Rightarrow> None)"
    if "scanning env sp K (Some (?i, f)) h'" for f h'
  proof -
    have t: "pc_table (hp_cache h') ?i = Some f" and ok: "tp_ok (pview sp (hp_cache h') ?i)"
      using that l by (auto simp: scanning_def held_ok_def)
    have "page_bytes f (hp_cache h') = pview sp (hp_cache h') ?i" using pview_resident [OF t, of sp] by (simp add: page_bytes_def)
    then show ?thesis using l ok
      by (simp add: tuple_ref_bytes_def tuple_bytes_def tp_open_ok [OF ok] tp_get_ok [OF ok] heap_map_def)
  qed
  show thesis
  proof (cases "map_option fst cur = Some ?i")
    case True
    then obtain f where f: "cur = Some (?i, f)" by (cases cur) auto
    have e: "hold_page env ?i cur h = (Inr f, Some (?i, f), h)" by (simp add: hold_page_def f)
    have sc: "scanning env sp K (Some (?i, f)) h" using s by (simp add: f)
    show thesis by (rule that [OF e sc read [OF sc]]) (rule refl)+
  next
    case False
    obtain f c1 where a: "acquire_read env ?i ?c = (Inr f, c1)"
      "same_view sp K ?c (case cur of None \<Rightarrow> c1 | Some (_, g) \<Rightarrow> release_read g c1)"
      "pool_inv env sp K {} (case cur of None \<Rightarrow> c1 | Some (_, g) \<Rightarrow> release_read g c1)"
      "held_ok K (Some (?i, f)) (case cur of None \<Rightarrow> c1 | Some (_, g) \<Rightarrow> release_read g c1)"
      by (rule swap_pages_ok [OF S(1,3,2) False l]) (rule that; assumption)
    define c2 where "c2 = (case cur of None \<Rightarrow> c1 | Some (_, g) \<Rightarrow> release_read g c1)"
    note a = a [folded c2_def]
    have dh: "drop_held cur (h\<lparr>hp_cache := c1\<rparr>) = h\<lparr>hp_cache := c2\<rparr>"
      by (simp add: drop_held_def drop_ref_def c2_def split: option.split)
    have pg: "heap_page env ?i h = (Inr f, h\<lparr>hp_cache := c1\<rparr>)" unfolding heap_page_def by (rule on_cache_eq) (rule a(1))
    have n: "length (pc_frames c2) = nframes h"
      using heap_frames(2) [OF pg] by (simp add: c2_def split: option.split)
    have e: "hold_page env ?i cur h = (Inr f, Some (?i, f), h\<lparr>hp_cache := c2\<rparr>)"
      using False by (simp add: hold_page_def pg dh)
    have v: "same_page (pview sp c2 i) (pview sp ?c i)" if "i \<in> K" for i using a(2) that by (simp add: same_view_def)
    have sc: "scanning env sp K (Some (?i, f)) (h\<lparr>hp_cache := c2\<rparr>)"
      using a(3,4) S(3,5) n same_page_tp(1) [OF v] S(4) by (simp add: scanning_def)
    have m: "heap_map sp K c2 = heap_map sp K ?c" using heap_map_same [OF v S(4)] by simp
    show thesis by (rule that [OF e sc]) (simp_all add: read [OF sc] m n)
  qed
qed

end

end
