(* ===== verification/Db_Types.thy ===== *)
theory Db_Types
  imports Strata_Prelude
begin

text \<open>
  The values of the SQL engine (\<^verbatim>\<open>src/crates/strata-db/src/storage/types.rs\<close>) and the parts
  of the Rust standard library they rest on: UTF-8 strings, little-endian integers, the
  bits of IEEE floats.

  A signed integer is the word of its width, read by \<^const>\<open>sint\<close>; a float is its bit
  pattern; a \<open>String\<close> is its UTF-8 bytes; a UUID is its 16 bytes. The JSON values of
  \<open>serde_json\<close> and the decimals of \<open>rust_decimal\<close> are type parameters \<open>'j\<close> and \<open>'d\<close>: those
  libraries enter as records of operations.
\<close>

unbundle bit_operations_syntax

section \<open>Strings\<close>

text \<open>A \<open>char\<close> is a Unicode scalar value. \<open>utf8_first\<close> splits the first character off, as
  \<open>String::from_utf8\<close> and \<open>str::chars\<close> do: an overlong form, a surrogate or a value beyond
  U+10FFFF is not UTF-8.\<close>

definition scalar_value :: "int \<Rightarrow> bool" where
  "scalar_value c \<longleftrightarrow> 0 \<le> c \<and> c < 0xD800 \<or> 0xE000 \<le> c \<and> c \<le> 0x10FFFF"

definition utf8_cont :: "u8 \<Rightarrow> bool" where
  "utf8_cont b \<longleftrightarrow> 0x80 \<le> b \<and> b < 0xC0"

definition utf8_char :: "int \<Rightarrow> int \<Rightarrow> 'a \<Rightarrow> (int \<times> 'a) option" where
  "utf8_char least c rest = (if least \<le> c \<and> scalar_value c then Some (c, rest) else None)"

fun utf8_first :: "bytes \<Rightarrow> (int \<times> bytes) option" where
  "utf8_first [] = None"
| "utf8_first (b # bs) =
    (if b < 0x80 then Some (uint b, bs)
     else if 0xC0 \<le> b \<and> b < 0xE0 then
       (case bs of c1 # rest \<Rightarrow>
          if utf8_cont c1 then utf8_char 0x80 ((uint b - 0xC0) * 64 + (uint c1 - 0x80)) rest else None
        | _ \<Rightarrow> None)
     else if 0xE0 \<le> b \<and> b < 0xF0 then
       (case bs of c1 # c2 # rest \<Rightarrow>
          if utf8_cont c1 \<and> utf8_cont c2
          then utf8_char 0x800 ((uint b - 0xE0) * 4096 + (uint c1 - 0x80) * 64 + (uint c2 - 0x80)) rest else None
        | _ \<Rightarrow> None)
     else if 0xF0 \<le> b \<and> b < 0xF8 then
       (case bs of c1 # c2 # c3 # rest \<Rightarrow>
          if utf8_cont c1 \<and> utf8_cont c2 \<and> utf8_cont c3
          then utf8_char 0x10000 ((uint b - 0xF0) * 262144 + (uint c1 - 0x80) * 4096 + (uint c2 - 0x80) * 64 + (uint c3 - 0x80)) rest
          else None
        | _ \<Rightarrow> None)
     else None)"

text \<open>The truncating cast \<open>as u8\<close>.\<close>

definition as_u8 :: "int \<Rightarrow> u8" where
  "as_u8 x = word_of_int x"

definition utf8_encode :: "int \<Rightarrow> bytes" where
  "utf8_encode c =
    (if c < 0x80 then [as_u8 c]
     else if c < 0x800 then [as_u8 (0xC0 + c div 64), as_u8 (0x80 + c mod 64)]
     else if c < 0x10000 then
       [as_u8 (0xE0 + c div 4096), as_u8 (0x80 + c div 64 mod 64), as_u8 (0x80 + c mod 64)]
     else [as_u8 (0xF0 + c div 262144), as_u8 (0x80 + c div 4096 mod 64),
       as_u8 (0x80 + c div 64 mod 64), as_u8 (0x80 + c mod 64)])"

lemma utf8_first_shorter: "utf8_first bs = Some (c, rest) \<Longrightarrow> length rest < length bs"
  by (induction bs rule: utf8_first.induct) (auto simp: utf8_char_def split: if_splits list.splits)

text \<open>\<open>str::chars\<close>, and \<open>None\<close> where \<open>String::from_utf8\<close> fails.\<close>

function utf8_chars :: "bytes \<Rightarrow> int list option" where
  "utf8_chars bs = (if bs = [] then Some [] else
     case utf8_first bs of None \<Rightarrow> None
     | Some (c, rest) \<Rightarrow> (case utf8_chars rest of None \<Rightarrow> None | Some cs \<Rightarrow> Some (c # cs)))"
  by auto
termination
  by (relation "measure length") (auto dest: utf8_first_shorter)

declare utf8_chars.simps [simp del]

definition utf8_valid :: "bytes \<Rightarrow> bool" where
  "utf8_valid bs \<longleftrightarrow> utf8_chars bs \<noteq> None"

text \<open>Collecting characters into a \<open>String\<close>.\<close>

definition utf8_string :: "int list \<Rightarrow> bytes" where
  "utf8_string cs = concat (map utf8_encode cs)"

lemma uint_as_u8: "0 \<le> x \<Longrightarrow> x < 256 \<Longrightarrow> uint (as_u8 x) = x"
  by (simp add: as_u8_def uint_word_of_int take_bit_int_eq_self)

text \<open>The four forms: each is determined by the number it carries.\<close>

lemma utf8_tail: "utf8_cont (as_u8 (0x80 + x mod 64))" "uint (as_u8 (0x80 + x mod 64)) = 0x80 + x mod 64"
proof -
  have "0 \<le> x mod 64" "x mod 64 < 64" by simp_all
  then show "uint (as_u8 (0x80 + x mod 64)) = 0x80 + x mod 64" by (intro uint_as_u8) linarith+
  then show "utf8_cont (as_u8 (0x80 + x mod 64))"
    using \<open>0 \<le> x mod 64\<close> \<open>x mod 64 < 64\<close> by (simp add: utf8_cont_def word_less_def word_le_def)
qed

lemma utf8_digits:
  fixes c :: int
  shows "c div 64 * 64 + c mod 64 = c"
    and "c div 4096 * 4096 + c div 64 mod 64 * 64 + c mod 64 = c"
    and "c div 262144 * 262144 + c div 4096 mod 64 * 4096 + c div 64 mod 64 * 64 + c mod 64 = c"
proof -
  have e: "c div 64 div 64 = c div 4096" "c div 4096 div 64 = c div 262144" by (simp_all add: zdiv_zmult2_eq [symmetric])
  show 1: "c div 64 * 64 + c mod 64 = c" by simp
  have "c div 4096 * 64 + c div 64 mod 64 = c div 64" using div_mult_mod_eq [of "c div 64" 64] e by simp
  with 1 show 2: "c div 4096 * 4096 + c div 64 mod 64 * 64 + c mod 64 = c" by linarith
  have "c div 262144 * 64 + c div 4096 mod 64 = c div 4096" using div_mult_mod_eq [of "c div 4096" 64] e by simp
  with 2 show "c div 262144 * 262144 + c div 4096 mod 64 * 4096 + c div 64 mod 64 * 64 + c mod 64 = c" by linarith
qed

lemma utf8_first_encode:
  assumes "scalar_value c"
  shows "utf8_first (utf8_encode c @ rest) = Some (c, rest)"
proof -
  have c: "0 \<le> c" "c \<le> 0x10FFFF" using assms by (auto simp: scalar_value_def)
  consider "c < 0x80" | "0x80 \<le> c" "c < 0x800" | "0x800 \<le> c" "c < 0x10000" | "0x10000 \<le> c" by linarith
  then show ?thesis
  proof cases
    case 1
    then show ?thesis using c by (simp add: utf8_encode_def word_less_def uint_as_u8)
  next
    case 2
    then have "0 \<le> c div 64" "c div 64 < 32" by (simp_all add: pos_imp_zdiv_nonneg_iff div_less_iff_less_mult)
    then have "uint (as_u8 (0xC0 + c div 64)) = 0xC0 + c div 64" by (intro uint_as_u8) linarith+
    then show ?thesis
      using 2 \<open>0 \<le> c div 64\<close> \<open>c div 64 < 32\<close> assms utf8_digits(1) [of c]
      by (simp add: utf8_encode_def word_less_def word_le_def utf8_tail utf8_char_def)
  next
    case 3
    then have "0 \<le> c div 4096" "c div 4096 < 16" by (simp_all add: pos_imp_zdiv_nonneg_iff div_less_iff_less_mult)
    then have "uint (as_u8 (0xE0 + c div 4096)) = 0xE0 + c div 4096" by (intro uint_as_u8) linarith+
    then show ?thesis
      using 3 \<open>0 \<le> c div 4096\<close> \<open>c div 4096 < 16\<close> assms utf8_digits(2) [of c]
      by (simp add: utf8_encode_def word_less_def word_le_def utf8_tail utf8_char_def)
  next
    case 4
    then have "0 \<le> c div 262144" "c div 262144 < 5" using c by (simp_all add: pos_imp_zdiv_nonneg_iff div_less_iff_less_mult)
    then have "uint (as_u8 (0xF0 + c div 262144)) = 0xF0 + c div 262144" by (intro uint_as_u8) linarith+
    then show ?thesis
      using 4 \<open>0 \<le> c div 262144\<close> \<open>c div 262144 < 5\<close> assms utf8_digits(3) [of c]
      by (simp add: utf8_encode_def word_less_def word_le_def utf8_tail utf8_char_def)
  qed
qed

lemma utf8_encode_nonempty [simp]: "utf8_encode c \<noteq> []"
  by (simp add: utf8_encode_def)

text \<open>A string of scalar values reads back, so every \<open>String\<close> that the code collects from
  characters is UTF-8.\<close>

lemma utf8_chars_string: "list_all scalar_value cs \<Longrightarrow> utf8_chars (utf8_string cs) = Some cs"
proof (induction cs)
  case Nil
  then show ?case by (simp add: utf8_string_def utf8_chars.simps)
next
  case (Cons c cs)
  then have "utf8_first (utf8_string (c # cs)) = Some (c, utf8_string cs)"
    using utf8_first_encode [of c "utf8_string cs"] by (simp add: utf8_string_def)
  then show ?case using Cons by (subst utf8_chars.simps) (auto simp: utf8_string_def)
qed

lemma utf8_chars_scalar: "utf8_chars bs = Some cs \<Longrightarrow> list_all scalar_value cs"
proof (induction bs arbitrary: cs rule: utf8_chars.induct)
  case (1 bs)
  show ?case
  proof (cases "bs = []")
    case False
    then obtain c rest ds where d: "utf8_first bs = Some (c, rest)" "utf8_chars rest = Some ds" "cs = c # ds"
      using 1(2) by (subst (asm) utf8_chars.simps) (auto split: option.splits)
    have "scalar_value c"
      using d(1) by (cases bs) (auto simp: utf8_char_def scalar_value_def word_less_def split: if_splits list.splits)
    then show ?thesis using 1(1) [OF False d(1) refl d(2)] d(3) by simp
  qed (use 1(2) in \<open>simp add: utf8_chars.simps\<close>)
qed

lemma utf8_string_valid: "list_all scalar_value cs \<Longrightarrow> utf8_valid (utf8_string cs)"
  by (simp add: utf8_valid_def utf8_chars_string)

lemma utf8_first_append: "utf8_first bs = Some (c, rest) \<Longrightarrow> utf8_first (bs @ x) = Some (c, rest @ x)"
  by (cases bs) (auto simp: utf8_char_def split: if_splits list.splits)

lemma utf8_chars_append: "utf8_chars xs = Some cs \<Longrightarrow> utf8_chars ys = Some ds \<Longrightarrow> utf8_chars (xs @ ys) = Some (cs @ ds)"
proof (induction xs arbitrary: cs rule: utf8_chars.induct)
  case (1 xs)
  show ?case
  proof (cases "xs = []")
    case False
    then obtain c rest es where d: "utf8_first xs = Some (c, rest)" "utf8_chars rest = Some es" "cs = c # es"
      using 1(2) by (subst (asm) utf8_chars.simps) (auto split: option.splits)
    then show ?thesis
      using 1(1) [OF False d(1) refl d(2) 1(3)] utf8_first_append [OF d(1), of ys] False by (subst utf8_chars.simps) simp
  qed (use 1(2,3) in \<open>simp add: utf8_chars.simps [of "[]"]\<close>)
qed

lemma utf8_valid_append: "utf8_valid xs \<Longrightarrow> utf8_valid ys \<Longrightarrow> utf8_valid (xs @ ys)"
  using utf8_chars_append by (auto simp: utf8_valid_def)

lemma utf8_valid_Nil [simp]: "utf8_valid []"
  by (simp add: utf8_valid_def utf8_chars.simps)

section \<open>Floats\<close>

text \<open>\<open>f64::total_cmp\<close> compares the bits as signed integers after flipping the magnitude bits
  of negative numbers; \<open>==\<close> is the IEEE equality.\<close>

definition total_key :: "'a::len word \<Rightarrow> 'a word" where
  "total_key w = (if bit w (LENGTH('a) - 1) then w XOR mask (LENGTH('a) - 1) else w)"

definition float_less :: "'a::len word \<Rightarrow> 'a word \<Rightarrow> bool" where
  "float_less v w \<longleftrightarrow> sint (total_key v) < sint (total_key w)"

definition f64_is_nan :: "64 word \<Rightarrow> bool" where
  "f64_is_nan w \<longleftrightarrow> 0x7FF0000000000000 < (w AND 0x7FFFFFFFFFFFFFFF)"

definition f64_is_zero :: "64 word \<Rightarrow> bool" where
  "f64_is_zero w \<longleftrightarrow> w AND 0x7FFFFFFFFFFFFFFF = 0"

definition f64_eq :: "64 word \<Rightarrow> 64 word \<Rightarrow> bool" where
  "f64_eq v w \<longleftrightarrow> \<not> f64_is_nan v \<and> \<not> f64_is_nan w \<and> (v = w \<or> f64_is_zero v \<and> f64_is_zero w)"

text \<open>Negation and \<open>abs\<close> act on the sign bit alone.\<close>

definition float_neg :: "'a::len word \<Rightarrow> 'a word" where
  "float_neg w = w XOR push_bit (LENGTH('a) - 1) 1"

definition float_abs :: "'a::len word \<Rightarrow> 'a word" where
  "float_abs w = w AND mask (LENGTH('a) - 1)"

section \<open>Logical types and values\<close>

datatype logical_type =
    TBool | TInt16 | TInt32 | TInt64 | TText | TBytes | TJson | TDate | TTimestamp
  | TFloat32 | TFloat64 | TNumeric | TTime | TUuid | TInterval | TArray logical_type

record interval =
  iv_months :: "32 word"
  iv_days :: "32 word"
  iv_micros :: "64 word"

definition to_micros :: "interval \<Rightarrow> int" where
  "to_micros i = sint (iv_months i) * 30 * 86400000000 + sint (iv_days i) * 86400000000 + sint (iv_micros i)"

datatype ('j, 'd) sql_value =
    VNull
  | VBool bool
  | VInt16 "16 word"
  | VInt32 "32 word"
  | VInt64 "64 word"
  | VText bytes
  | VBytes bytes
  | VJson 'j
  | VDate "32 word"
  | VTimestamp "64 word"
  | VFloat32 "32 word"
  | VFloat64 "64 word"
  | VNumeric 'd
  | VTime "64 word"
  | VUuid bytes
  | VInterval interval
  | VArray "('j, 'd) sql_value list"

text \<open>A \<open>Tuple\<close> is its list of values; a \<open>Schema\<close> is its list of fields.\<close>

type_synonym ('j, 'd) row = "('j, 'd) sql_value list"

record field =
  fd_name :: bytes
  fd_ty :: logical_type
  fd_nullable :: bool
  fd_default :: "bytes option"

type_synonym schema = "field list"

definition field_new :: "bytes \<Rightarrow> logical_type \<Rightarrow> field" where
  "field_new name ty = \<lparr>fd_name = name, fd_ty = ty, fd_nullable = True, fd_default = None\<rparr>"

text \<open>The type a value has; \<open>NULL\<close> has none. Text is UTF-8, and a UUID has its 16 bytes.\<close>

fun has_type :: "('j, 'd) sql_value \<Rightarrow> logical_type \<Rightarrow> bool" where
  "has_type (VBool _) ty \<longleftrightarrow> ty = TBool"
| "has_type (VInt16 _) ty \<longleftrightarrow> ty = TInt16"
| "has_type (VInt32 _) ty \<longleftrightarrow> ty = TInt32"
| "has_type (VInt64 _) ty \<longleftrightarrow> ty = TInt64"
| "has_type (VText s) ty \<longleftrightarrow> ty = TText \<and> utf8_valid s"
| "has_type (VBytes _) ty \<longleftrightarrow> ty = TBytes"
| "has_type (VJson _) ty \<longleftrightarrow> ty = TJson"
| "has_type (VDate _) ty \<longleftrightarrow> ty = TDate"
| "has_type (VTimestamp _) ty \<longleftrightarrow> ty = TTimestamp"
| "has_type (VFloat32 _) ty \<longleftrightarrow> ty = TFloat32"
| "has_type (VFloat64 _) ty \<longleftrightarrow> ty = TFloat64"
| "has_type (VNumeric _) ty \<longleftrightarrow> ty = TNumeric"
| "has_type (VTime _) ty \<longleftrightarrow> ty = TTime"
| "has_type (VUuid u) ty \<longleftrightarrow> ty = TUuid \<and> length u = 16"
| "has_type (VInterval _) ty \<longleftrightarrow> ty = TInterval"
| "has_type (VArray vs) ty \<longleftrightarrow> (case ty of TArray t \<Rightarrow> (\<forall>v \<in> set vs. has_type v t) | _ \<Rightarrow> False)"
| "has_type VNull ty \<longleftrightarrow> False"

text \<open>A row fits a schema: one value per field, \<open>NULL\<close> only where the column allows it.\<close>

definition fits :: "field \<Rightarrow> ('j, 'd) sql_value \<Rightarrow> bool" where
  "fits f v \<longleftrightarrow> (if v = VNull then fd_nullable f else has_type v (fd_ty f))"

definition row_fits :: "schema \<Rightarrow> ('j, 'd) row \<Rightarrow> bool" where
  "row_fits sc t \<longleftrightarrow> list_all2 fits sc t"

end
