(* ===== verification/Value_Codec.thy ===== *)
theory Value_Codec
  imports Db_Types
begin

text \<open>
  The in-row encoding of values and rows (\<^verbatim>\<open>src/crates/strata-db/src/storage/codec/\<close> and
  \<^verbatim>\<open>catalog/schema.rs\<close>). A decoder takes the slice and returns the value with the advanced
  slice. \<open>None\<close> from an encoder is a panic: \<open>NULL\<close> has no encoding of its own, it lives in
  the bitmap of the row.
\<close>

section \<open>Operations of the decimal and JSON libraries\<close>

record ('j, 'd) codec_ops =
  json_to_vec :: "'j \<Rightarrow> bytes"
  json_from_slice :: "bytes \<Rightarrow> 'j option"
  dec_serialize :: "'d \<Rightarrow> bytes"
  dec_deserialize :: "bytes \<Rightarrow> 'd"
  dec_normalize :: "'d \<Rightarrow> 'd"
  dec_is_zero :: "'d \<Rightarrow> bool"
  dec_is_sign_negative :: "'d \<Rightarrow> bool"
  dec_abs :: "'d \<Rightarrow> 'd"
  dec_mantissa :: "'d \<Rightarrow> int"
  dec_scale :: "'d \<Rightarrow> nat"

text \<open>What the row codec relies on: both libraries read back what they write, and a decimal
  takes 16 bytes.\<close>

definition codecs_roundtrip :: "('j, 'd, 'x) codec_ops_scheme \<Rightarrow> bool" where
  "codecs_roundtrip ops \<longleftrightarrow> (\<forall>j. json_from_slice ops (json_to_vec ops j) = Some j) \<and>
    (\<forall>d. dec_deserialize ops (dec_serialize ops d) = d) \<and> (\<forall>d. length (dec_serialize ops d) = 16)"

section \<open>Column values\<close>

datatype row_decode_error =
    RowEof
  | InvalidBool u8
  | InvalidUtf8
  | InvalidJson
  | TrailingBytes

type_synonym 'a reader = "bytes \<Rightarrow> row_decode_error + 'a \<times> bytes"

definition take_bytes :: "nat \<Rightarrow> bytes reader" where
  "take_bytes n buf = (if length buf < n then Inl RowEof else Inr (take n buf, drop n buf))"

definition to_le :: "nat \<Rightarrow> 'a::len word \<Rightarrow> bytes" where
  "to_le n w = rev (to_be n w)"

definition from_le :: "bytes \<Rightarrow> 'a::len word" where
  "from_le bs = from_be (rev bs)"

definition bool_encode :: "bool \<Rightarrow> bytes" where
  "bool_encode b = [if b then 1 else 0]"

definition bool_decode :: "bool reader" where
  "bool_decode buf = res_bind (take_bytes 1 buf) (\<lambda>(bs, rest).
    if hd bs = 0 then Inr (False, rest) else if hd bs = 1 then Inr (True, rest) else Inl (InvalidBool (hd bs)))"

definition int16_decode :: "16 word reader" where
  "int16_decode buf = res_bind (take_bytes 2 buf) (\<lambda>(bs, rest). Inr (from_le bs, rest))"

definition int32_decode :: "32 word reader" where
  "int32_decode buf = res_bind (take_bytes 4 buf) (\<lambda>(bs, rest). Inr (from_le bs, rest))"

definition int64_decode :: "64 word reader" where
  "int64_decode buf = res_bind (take_bytes 8 buf) (\<lambda>(bs, rest). Inr (from_le bs, rest))"

definition float32_decode :: "32 word reader" where
  "float32_decode buf = res_bind (take_bytes 4 buf) (\<lambda>(bs, rest). Inr (from_le bs, rest))"

definition float64_decode :: "64 word reader" where
  "float64_decode buf = res_bind (take_bytes 8 buf) (\<lambda>(bs, rest). Inr (from_le bs, rest))"

definition uuid_decode :: "bytes reader" where
  "uuid_decode buf = take_bytes 16 buf"

definition bytes_encode :: "bytes \<Rightarrow> bytes" where
  "bytes_encode b = to_le 4 (word_of_nat (length b) :: u32) @ b"

definition bytes_decode :: "bytes reader" where
  "bytes_decode buf = res_bind (take_bytes 4 buf) (\<lambda>(len, rest). take_bytes (unat (from_le len :: u32)) rest)"

definition text_decode :: "bytes reader" where
  "text_decode buf = res_bind (take_bytes 4 buf) (\<lambda>(len, rest).
    res_bind (take_bytes (unat (from_le len :: u32)) rest) (\<lambda>(bs, rest').
    if utf8_valid bs then Inr (bs, rest') else Inl InvalidUtf8))"

definition json_encode :: "('j, 'd, 'x) codec_ops_scheme \<Rightarrow> 'j \<Rightarrow> bytes" where
  "json_encode ops j = bytes_encode (json_to_vec ops j)"

definition json_decode :: "('j, 'd, 'x) codec_ops_scheme \<Rightarrow> 'j reader" where
  "json_decode ops buf = res_bind (take_bytes 4 buf) (\<lambda>(len, rest).
    res_bind (take_bytes (unat (from_le len :: u32)) rest) (\<lambda>(bs, rest').
    case json_from_slice ops bs of Some j \<Rightarrow> Inr (j, rest') | None \<Rightarrow> Inl InvalidJson))"

definition decimal_decode :: "('j, 'd, 'x) codec_ops_scheme \<Rightarrow> 'd reader" where
  "decimal_decode ops buf = res_bind (take_bytes 16 buf) (\<lambda>(bs, rest). Inr (dec_deserialize ops bs, rest))"

definition interval_encode :: "interval \<Rightarrow> bytes" where
  "interval_encode i = to_le 4 (iv_months i) @ to_le 4 (iv_days i) @ to_le 8 (iv_micros i)"

definition interval_decode :: "interval reader" where
  "interval_decode buf =
    res_bind (take_bytes 4 buf) (\<lambda>(m, r1). res_bind (take_bytes 4 r1) (\<lambda>(d, r2). res_bind (take_bytes 8 r2) (\<lambda>(u, r3).
    Inr (\<lparr>iv_months = from_le m, iv_days = from_le d, iv_micros = from_le u\<rparr>, r3))))"

text \<open>The dispatch on the value, resp. on the column type.\<close>

fun value_encoded_size :: "('j, 'd, 'x) codec_ops_scheme \<Rightarrow> ('j, 'd) sql_value \<Rightarrow> nat" where
  "value_encoded_size ops VNull = 0"
| "value_encoded_size ops (VBool _) = 1"
| "value_encoded_size ops (VInt16 _) = 2"
| "value_encoded_size ops (VInt32 _) = 4"
| "value_encoded_size ops (VInt64 _) = 8"
| "value_encoded_size ops (VText s) = 4 + length s"
| "value_encoded_size ops (VBytes b) = 4 + length b"
| "value_encoded_size ops (VJson j) = 4 + length (json_to_vec ops j)"
| "value_encoded_size ops (VDate _) = 4"
| "value_encoded_size ops (VTimestamp _) = 8"
| "value_encoded_size ops (VFloat32 _) = 4"
| "value_encoded_size ops (VFloat64 _) = 8"
| "value_encoded_size ops (VNumeric _) = 16"
| "value_encoded_size ops (VTime _) = 8"
| "value_encoded_size ops (VUuid _) = 16"
| "value_encoded_size ops (VInterval _) = 16"
| "value_encoded_size ops (VArray items) = 4 + sum_list (map (value_encoded_size ops) items)"

fun value_encode :: "('j, 'd, 'x) codec_ops_scheme \<Rightarrow> ('j, 'd) sql_value \<Rightarrow> bytes option" where
  "value_encode ops VNull = None"
| "value_encode ops (VBool b) = Some (bool_encode b)"
| "value_encode ops (VInt16 n) = Some (to_le 2 n)"
| "value_encode ops (VInt32 n) = Some (to_le 4 n)"
| "value_encode ops (VInt64 n) = Some (to_le 8 n)"
| "value_encode ops (VText s) = Some (bytes_encode s)"
| "value_encode ops (VBytes b) = Some (bytes_encode b)"
| "value_encode ops (VJson j) = Some (json_encode ops j)"
| "value_encode ops (VDate n) = Some (to_le 4 n)"
| "value_encode ops (VTimestamp n) = Some (to_le 8 n)"
| "value_encode ops (VFloat32 f) = Some (to_le 4 f)"
| "value_encode ops (VFloat64 f) = Some (to_le 8 f)"
| "value_encode ops (VNumeric d) = Some (dec_serialize ops d)"
| "value_encode ops (VTime n) = Some (to_le 8 n)"
| "value_encode ops (VUuid u) = Some u"
| "value_encode ops (VInterval i) = Some (interval_encode i)"
| "value_encode ops (VArray items) =
    map_option (\<lambda>bs. to_le 4 (word_of_nat (length items) :: u32) @ concat bs) (those (map (value_encode ops) items))"

fun decode_items :: "nat \<Rightarrow> 'a reader \<Rightarrow> 'a list reader" where
  "decode_items 0 dec buf = Inr ([], buf)"
| "decode_items (Suc n) dec buf =
    res_bind (dec buf) (\<lambda>(v, rest). res_bind (decode_items n dec rest) (\<lambda>(vs, rest'). Inr (v # vs, rest')))"

definition read_as :: "('a \<Rightarrow> 'b) \<Rightarrow> 'a reader \<Rightarrow> 'b reader" where
  "read_as f dec buf = res_bind (dec buf) (\<lambda>(x, rest). Inr (f x, rest))"

primrec value_decode :: "('j, 'd, 'x) codec_ops_scheme \<Rightarrow> logical_type \<Rightarrow> ('j, 'd) sql_value reader" where
  "value_decode ops TBool = read_as VBool bool_decode"
| "value_decode ops TInt16 = read_as VInt16 int16_decode"
| "value_decode ops TInt32 = read_as VInt32 int32_decode"
| "value_decode ops TInt64 = read_as VInt64 int64_decode"
| "value_decode ops TText = read_as VText text_decode"
| "value_decode ops TBytes = read_as VBytes bytes_decode"
| "value_decode ops TJson = read_as VJson (json_decode ops)"
| "value_decode ops TDate = read_as VDate int32_decode"
| "value_decode ops TTimestamp = read_as VTimestamp int64_decode"
| "value_decode ops TFloat32 = read_as VFloat32 float32_decode"
| "value_decode ops TFloat64 = read_as VFloat64 float64_decode"
| "value_decode ops TNumeric = read_as VNumeric (decimal_decode ops)"
| "value_decode ops TTime = read_as VTime int64_decode"
| "value_decode ops TUuid = read_as VUuid uuid_decode"
| "value_decode ops TInterval = read_as VInterval interval_decode"
| "value_decode ops (TArray elem) = (\<lambda>buf. res_bind (take_bytes 4 buf) (\<lambda>(count, rest).
    read_as VArray (decode_items (unat (from_le count :: u32)) (value_decode ops elem)) rest))"

section \<open>Rows\<close>

fun is_null :: "('j, 'd) sql_value \<Rightarrow> bool" where
  "is_null VNull = True"
| "is_null _ = False"

definition bitmap_bytes :: "schema \<Rightarrow> nat" where
  "bitmap_bytes sc = (length sc + 7) div 8"

definition schema_encoded_size :: "('j, 'd, 'x) codec_ops_scheme \<Rightarrow> schema \<Rightarrow> ('j, 'd) row \<Rightarrow> nat" where
  "schema_encoded_size ops sc t = bitmap_bytes sc + sum_list (map (value_encoded_size ops) t)"

text \<open>The loop over the values: \<open>NULL\<close> sets bit \<open>i\<close> of the bitmap at the front of the buffer,
  any other value is appended.\<close>

fun encode_values :: "('j, 'd, 'x) codec_ops_scheme \<Rightarrow> nat \<Rightarrow> ('j, 'd) row \<Rightarrow> bytes \<Rightarrow> bytes option" where
  "encode_values ops i [] buf = Some buf"
| "encode_values ops i (v # vs) buf =
    (if is_null v then encode_values ops (Suc i) vs (buf[i div 8 := buf ! (i div 8) OR push_bit (i mod 8) 1])
     else case value_encode ops v of None \<Rightarrow> None | Some bs \<Rightarrow> encode_values ops (Suc i) vs (buf @ bs))"

definition schema_encode :: "('j, 'd, 'x) codec_ops_scheme \<Rightarrow> schema \<Rightarrow> ('j, 'd) row \<Rightarrow> bytes option" where
  "schema_encode ops sc t =
    (if length sc \<noteq> length t then None else encode_values ops 0 t (replicate (bitmap_bytes sc) 0))"

definition null_bit :: "bytes \<Rightarrow> nat \<Rightarrow> bool" where
  "null_bit bitmap i \<longleftrightarrow> drop_bit (i mod 8) (bitmap ! (i div 8)) AND 1 = 1"

fun decode_fields :: "('j, 'd, 'x) codec_ops_scheme \<Rightarrow> bytes \<Rightarrow> nat \<Rightarrow> schema \<Rightarrow> ('j, 'd) row reader" where
  "decode_fields ops bitmap i [] cursor = Inr ([], cursor)"
| "decode_fields ops bitmap i (f # fs) cursor =
    res_bind (if null_bit bitmap i then Inr (VNull, cursor) else value_decode ops (fd_ty f) cursor) (\<lambda>(v, rest).
    res_bind (decode_fields ops bitmap (Suc i) fs rest) (\<lambda>(vs, rest'). Inr (v # vs, rest')))"

definition schema_decode :: "('j, 'd, 'x) codec_ops_scheme \<Rightarrow> schema \<Rightarrow> bytes \<Rightarrow> row_decode_error + ('j, 'd) row" where
  "schema_decode ops sc bytes =
    (if length bytes < bitmap_bytes sc then Inl RowEof
     else res_bind (decode_fields ops (take (bitmap_bytes sc) bytes) 0 sc (drop (bitmap_bytes sc) bytes)) (\<lambda>(values, cursor).
       if cursor \<noteq> [] then Inl TrailingBytes else Inr values))"

section \<open>Round trips\<close>

lemma length_to_le [simp, len_simps]: "length (to_le n w) = n"
  by (simp add: to_le_def)

lemma from_le_to_le [simp, codec_simps]: "LENGTH('a::len) \<le> 8 * n \<Longrightarrow> from_le (to_le n (w :: 'a word)) = w"
  by (simp add: from_le_def to_le_def)

lemma take_bytes_append [simp]: "n = length h \<Longrightarrow> take_bytes n (h @ rest) = Inr (h, rest)"
  by (simp add: take_bytes_def)

lemma take_bytes_append2 [simp]: "n = length h \<Longrightarrow> take_bytes n ((h @ t) @ rest) = Inr (h, t @ rest)"
  by (simp add: take_bytes_def)

text \<open>The value fits the length fields of its encoding.\<close>

fun storable :: "('j, 'd, 'x) codec_ops_scheme \<Rightarrow> ('j, 'd) sql_value \<Rightarrow> bool" where
  "storable ops (VText s) \<longleftrightarrow> length s < 2 ^ 32"
| "storable ops (VBytes b) \<longleftrightarrow> length b < 2 ^ 32"
| "storable ops (VJson j) \<longleftrightarrow> length (json_to_vec ops j) < 2 ^ 32"
| "storable ops (VArray vs) \<longleftrightarrow> length vs < 2 ^ 32 \<and> (\<forall>v \<in> set vs. storable ops v)"
| "storable ops _ \<longleftrightarrow> True"

text \<open>The contract of one column type: what the encoder wrote, the decoder splits off.\<close>

definition reads_back :: "('j, 'd, 'x) codec_ops_scheme \<Rightarrow> logical_type \<Rightarrow> ('j, 'd) sql_value \<Rightarrow> bool" where
  "reads_back ops ty v \<longleftrightarrow> (\<exists>bs. value_encode ops v = Some bs \<and> length bs = value_encoded_size ops v \<and>
    (\<forall>rest. value_decode ops ty (bs @ rest) = Inr (v, rest)))"

lemma decode_items_back:
  assumes "\<forall>v \<in> set vs. reads_back ops ty v"
  shows "\<exists>bss. those (map (value_encode ops) vs) = Some bss \<and> length (concat bss) = sum_list (map (value_encoded_size ops) vs) \<and>
    (\<forall>rest. decode_items (length vs) (value_decode ops ty) (concat bss @ rest) = Inr (vs, rest))"
  using assms
proof (induction vs)
  case (Cons v vs)
  obtain bss where bss: "those (map (value_encode ops) vs) = Some bss" "length (concat bss) = sum_list (map (value_encoded_size ops) vs)"
      "\<forall>rest. decode_items (length vs) (value_decode ops ty) (concat bss @ rest) = Inr (vs, rest)"
    using Cons by auto
  obtain bs where bs: "value_encode ops v = Some bs" "length bs = value_encoded_size ops v"
      "\<forall>rest. value_decode ops ty (bs @ rest) = Inr (v, rest)"
    using Cons.prems by (auto simp: reads_back_def)
  show ?case using bs bss by (intro exI [of _ "bs # bss"]) simp
qed simp

lemma value_reads_back:
  assumes ops: "codecs_roundtrip ops"
  shows "has_type v ty \<Longrightarrow> storable ops v \<Longrightarrow> reads_back ops ty v"
proof (induction v arbitrary: ty)
  case (VArray vs)
  then obtain t where t: "ty = TArray t" "\<forall>v \<in> set vs. has_type v t" by (auto split: logical_type.splits)
  then have "\<forall>v \<in> set vs. reads_back ops t v" using VArray by auto
  from decode_items_back [OF this] obtain bss where bss: "those (map (value_encode ops) vs) = Some bss"
      "length (concat bss) = sum_list (map (value_encoded_size ops) vs)"
      "\<forall>rest. decode_items (length vs) (value_decode ops t) (concat bss @ rest) = Inr (vs, rest)" by blast
  then show ?case using VArray.prems(2) t(1) by (simp add: reads_back_def read_as_def)
qed (use ops in \<open>auto simp: reads_back_def read_as_def bool_encode_def bool_decode_def int16_decode_def int32_decode_def
    int64_decode_def float32_decode_def float64_decode_def uuid_decode_def bytes_encode_def bytes_decode_def text_decode_def
    json_encode_def json_decode_def decimal_decode_def interval_encode_def interval_decode_def codecs_roundtrip_def take_bytes_def\<close>)

section \<open>The bitmap\<close>

lemma null_bit_iff: "null_bit bm i \<longleftrightarrow> bit (bm ! (i div 8)) (i mod 8)"
  by (simp add: null_bit_def bit_iff_odd_drop_bit [symmetric] and_one_eq odd_iff_mod_2_eq_one [symmetric] flip: bit_iff_odd_drop_bit)

definition set_null :: "bytes \<Rightarrow> nat \<Rightarrow> bytes" where
  "set_null bm i = bm[i div 8 := bm ! (i div 8) OR push_bit (i mod 8) 1]"

lemma length_set_null [simp]: "length (set_null bm i) = length bm"
  by (simp add: set_null_def)

lemma null_bit_set_null:
  assumes "i div 8 < length bm"
  shows "null_bit (set_null bm i) j \<longleftrightarrow> null_bit bm j \<or> j = i"
proof (cases "j div 8 = i div 8")
  case True
  then have "j mod 8 = i mod 8 \<longleftrightarrow> j = i" by (metis div_mult_mod_eq)
  then show ?thesis
    using True assms by (auto simp: null_bit_iff set_null_def bit_or_iff bit_exp_iff)
next
  case False
  then show ?thesis using assms by (auto simp: null_bit_iff set_null_def)
qed

text \<open>What the loop makes of a buffer that starts with the bitmap \<open>bm\<close>.\<close>

fun set_nulls :: "nat \<Rightarrow> ('j, 'd) row \<Rightarrow> bytes \<Rightarrow> bytes" where
  "set_nulls i [] bm = bm"
| "set_nulls i (v # vs) bm = set_nulls (Suc i) vs (if is_null v then set_null bm i else bm)"

fun row_payload :: "('j, 'd, 'x) codec_ops_scheme \<Rightarrow> ('j, 'd) row \<Rightarrow> bytes" where
  "row_payload ops [] = []"
| "row_payload ops (v # vs) = (if is_null v then [] else the (value_encode ops v)) @ row_payload ops vs"

lemma length_set_nulls [simp]: "length (set_nulls i vs bm) = length bm"
  by (induction i vs bm rule: set_nulls.induct) auto

lemma null_bit_set_nulls:
  "i + length vs \<le> 8 * length bm \<Longrightarrow>
    null_bit (set_nulls i vs bm) j \<longleftrightarrow> null_bit bm j \<or> i \<le> j \<and> j < i + length vs \<and> is_null (vs ! (j - i))"
proof (induction i vs bm arbitrary: j rule: set_nulls.induct)
  case (2 i v vs bm)
  have "i div 8 < length bm" using 2(2) by (simp add: less_mult_imp_div_less mult.commute)
  then show ?case
    using 2 by (auto simp: null_bit_set_null nth_Cons' Suc_diff_le not_less_eq_eq less_Suc_eq split: if_splits)
qed auto

lemma encode_values_eq:
  "i + length vs \<le> 8 * length bm \<Longrightarrow> (\<And>v. v \<in> set vs \<Longrightarrow> \<not> is_null v \<Longrightarrow> value_encode ops v \<noteq> None) \<Longrightarrow>
    encode_values ops i vs (bm @ p) = Some (set_nulls i vs bm @ p @ row_payload ops vs)"
proof (induction i vs bm arbitrary: p rule: set_nulls.induct)
  case (2 i v vs bm)
  have "i div 8 < length bm" using 2(2) by (simp add: less_mult_imp_div_less mult.commute)
  then have u: "(bm @ p)[i div 8 := (bm @ p) ! (i div 8) OR push_bit (i mod 8) 1] = set_null bm i @ p"
    by (simp add: set_null_def nth_append list_update_append)
  show ?case
  proof (cases "is_null v")
    case True
    then show ?thesis using 2(1) [of p] 2(2,3) u by simp
  next
    case False
    then obtain bs where "value_encode ops v = Some bs" using 2(3) [of v] by auto
    then show ?thesis using 2(1) [of "p @ bs"] 2(2,3) False by simp
  qed
qed simp

lemma decode_fields_payload:
  "list_all2 (\<lambda>f v. is_null v \<or> reads_back ops (fd_ty f) v) fs vs \<Longrightarrow> (\<And>k. k < length vs \<Longrightarrow> null_bit bm (i + k) \<longleftrightarrow> is_null (vs ! k)) \<Longrightarrow>
    decode_fields ops bm i fs (row_payload ops vs @ rest) = Inr (vs, rest)"
proof (induction fs vs arbitrary: i rule: list_all2_induct)
  case (Cons f fs v vs)
  have "decode_fields ops bm (Suc i) fs (row_payload ops vs @ rest) = Inr (vs, rest)"
    using Cons(3) [of "Suc i"] Cons(4) by (metis add_Suc add_Suc_right length_Cons not_less_eq nth_Cons_Suc)
  moreover have "null_bit bm i \<longleftrightarrow> is_null v" using Cons(4) [of 0] by simp
  ultimately show ?case using Cons(1) by (auto simp: reads_back_def elim: is_null.elims)
qed simp

lemma row_payload_size:
  "(\<And>v. v \<in> set vs \<Longrightarrow> is_null v \<or> (\<exists>ty. reads_back ops ty v)) \<Longrightarrow>
    length (row_payload ops vs) = sum_list (map (value_encoded_size ops) vs)"
proof (induction vs)
  case (Cons v vs)
  then have "is_null v \<or> (\<exists>bs. value_encode ops v = Some bs \<and> length bs = value_encoded_size ops v)"
    by (fastforce simp: reads_back_def)
  then show ?case using Cons by (auto elim: is_null.elims)
qed simp

definition row_storable :: "('j, 'd, 'x) codec_ops_scheme \<Rightarrow> ('j, 'd) row \<Rightarrow> bool" where
  "row_storable ops t \<longleftrightarrow> list_all (storable ops) t"

lemma schema_roundtrip:
  assumes ops: "codecs_roundtrip ops" and t: "list_all2 (\<lambda>f v. is_null v \<or> has_type v (fd_ty f)) sc t" "row_storable ops t"
  shows "\<exists>bs. schema_encode ops sc t = Some bs \<and> length bs = schema_encoded_size ops sc t \<and> schema_decode ops sc bs = Inr t"
proof -
  let ?bm = "replicate (bitmap_bytes sc) 0 :: bytes"
  have len: "length sc = length t" using t(1) by (rule list_all2_lengthD)
  have b8: "0 + length t \<le> 8 * length ?bm" by (simp add: bitmap_bytes_def len)
  have rb: "list_all2 (\<lambda>f v. is_null v \<or> reads_back ops (fd_ty f) v) sc t"
    using t value_reads_back [OF ops] by (auto simp: list_all2_conv_all_nth row_storable_def list_all_length)
  then have rv: "is_null v \<or> (\<exists>ty. reads_back ops ty v)" if "v \<in> set t" for v
    using that by (auto simp: list_all2_conv_all_nth in_set_conv_nth)
  then have enc: "schema_encode ops sc t = Some (set_nulls 0 t ?bm @ row_payload ops t)"
    using encode_values_eq [OF b8, of ops "[]"] len by (force simp: schema_encode_def reads_back_def)
  have nb: "null_bit (set_nulls 0 t ?bm) k \<longleftrightarrow> is_null (t ! k)" if "k < length t" for k
  proof -
    have "k div 8 < bitmap_bytes sc" using that len by (simp add: bitmap_bytes_def)
    then show ?thesis using null_bit_set_nulls [OF b8, of k] that by (simp add: null_bit_iff)
  qed
  have "decode_fields ops (set_nulls 0 t ?bm) 0 sc (row_payload ops t @ []) = Inr (t, [])"
    by (rule decode_fields_payload [OF rb]) (simp add: nb)
  then show ?thesis
    using enc row_payload_size [of t ops] rv by (auto simp: schema_decode_def schema_encoded_size_def)
qed

end
