(* ===== verification/Key_Codec.thy ===== *)
theory Key_Codec
  imports Value_Codec
begin

text \<open>
  The user-key encoding of values (the \<open>KeyCodec\<close> implementations of
  \<^verbatim>\<open>src/crates/strata-db/src/storage/codec/\<close>): byte strings whose lexicographic order is the
  order of the values, because the storage engine sorts and scans by the bytes.
\<close>

section \<open>Definitions\<close>

datatype key_encode_error = NullKey

definition bool_key :: "bool \<Rightarrow> bytes" where
  "bool_key b = [if b then 1 else 0]"

definition int16_key :: "16 word \<Rightarrow> bytes" where
  "int16_key n = to_be 2 (n XOR push_bit 15 1)"

definition int32_key :: "32 word \<Rightarrow> bytes" where
  "int32_key n = to_be 4 (n XOR push_bit 31 1)"

definition int64_key :: "64 word \<Rightarrow> bytes" where
  "int64_key n = to_be 8 (n XOR push_bit 63 1)"

definition float32_key :: "32 word \<Rightarrow> bytes" where
  "float32_key bits = to_be 4 (bits XOR (- drop_bit 31 bits OR push_bit 31 1))"

definition float64_key :: "64 word \<Rightarrow> bytes" where
  "float64_key bits = to_be 8 (bits XOR (- drop_bit 63 bits OR push_bit 63 1))"

definition interval_key :: "interval \<Rightarrow> bytes" where
  "interval_key i = to_be 16 ((word_of_int (to_micros i) :: 128 word) XOR push_bit 127 1)"

text \<open>\<open>to_string\<close> on integers: ASCII digits, most significant first.\<close>

function nat_string :: "int \<Rightarrow> bytes" where
  "nat_string n = (if n < 10 then [as_u8 (48 + n)] else nat_string (n div 10) @ [as_u8 (48 + n mod 10)])"
  by auto
termination
  by (relation "measure nat") auto

declare nat_string.simps [simp del]

definition int_string :: "int \<Rightarrow> bytes" where
  "int_string n = (if n < 0 then as_u8 45 # nat_string (- n) else nat_string n)"

definition DEC_NEG :: u8 where "DEC_NEG = 0x03"
definition DEC_ZERO :: u8 where "DEC_ZERO = 0x04"
definition DEC_POS :: u8 where "DEC_POS = 0x05"

text \<open>Two decimal digits per byte, plus one so that the terminator is the least byte.\<close>

fun cents :: "bytes \<Rightarrow> bytes" where
  "cents (a # b # ds) = ((a - 48) * 10 + (b - 48) + 1) # cents ds"
| "cents _ = []"

definition decimal_payload :: "int \<Rightarrow> nat \<Rightarrow> bytes" where
  "decimal_payload mantissa scale =
    (let digits = int_string mantissa; exponent = int (length digits) - int scale;
         ds = (if length digits mod 2 = 1 then digits @ [48] else digits)
     in ((word_of_int exponent :: u8) XOR 0x80) # cents ds @ [0x00])"

definition decimal_key :: "('j, 'd, 'x) codec_ops_scheme \<Rightarrow> 'd \<Rightarrow> bytes" where
  "decimal_key ops d0 =
    (let d = dec_normalize ops d0 in
     if dec_is_zero ops d then [DEC_ZERO]
     else
       let a = dec_abs ops d; payload = decimal_payload (dec_mantissa ops a) (dec_scale ops a)
       in if dec_is_sign_negative ops d then DEC_NEG # map not payload else DEC_POS # payload)"

fun encode_key :: "('j, 'd, 'x) codec_ops_scheme \<Rightarrow> ('j, 'd) sql_value \<Rightarrow> key_encode_error + bytes" where
  "encode_key ops VNull = Inl NullKey"
| "encode_key ops (VBool b) = Inr (bool_key b)"
| "encode_key ops (VInt16 n) = Inr (int16_key n)"
| "encode_key ops (VInt32 n) = Inr (int32_key n)"
| "encode_key ops (VInt64 n) = Inr (int64_key n)"
| "encode_key ops (VText s) = Inr s"
| "encode_key ops (VBytes b) = Inr b"
| "encode_key ops (VJson j) = Inr (json_to_vec ops j)"
| "encode_key ops (VDate n) = Inr (int32_key n)"
| "encode_key ops (VTimestamp n) = Inr (int64_key n)"
| "encode_key ops (VFloat32 f) = Inr (float32_key f)"
| "encode_key ops (VFloat64 f) = Inr (float64_key f)"
| "encode_key ops (VNumeric d) = Inr (decimal_key ops d)"
| "encode_key ops (VTime n) = Inr (int64_key n)"
| "encode_key ops (VUuid u) = Inr u"
| "encode_key ops (VInterval i) = Inr (interval_key i)"
| "encode_key ops (VArray items) = res_bind (collect_res (map (encode_key ops) items)) (\<lambda>ks. Inr (concat ks))"

section \<open>Integers and floats\<close>

text \<open>Flipping the sign bit adds half the range, so the unsigned order of the result is the
  signed order of the argument.\<close>

lemma flip_top_add: "(x :: 'a::len word) XOR 2 ^ (LENGTH('a) - 1) = x + 2 ^ (LENGTH('a) - 1)"
proof (cases "bit x (LENGTH('a) - 1)")
  case False
  then have "x + 2 ^ (LENGTH('a) - 1) = x OR 2 ^ (LENGTH('a) - 1)" by (intro disjunctive_add) (auto simp: bit_exp_iff)
  also have "\<dots> = x XOR 2 ^ (LENGTH('a) - 1)" using False by (intro bit_word_eqI) (auto simp: bit_or_iff bit_xor_iff bit_exp_iff)
  finally show ?thesis by simp
next
  case True
  have m: "- (2 ^ (LENGTH('a) - 1)) = (2 ^ (LENGTH('a) - 1) :: 'a word)"
    by (simp add: neg_eq_iff_add_eq_0 flip: mult_2 power_Suc)
  have "x - 2 ^ (LENGTH('a) - 1) = x AND NOT (2 ^ (LENGTH('a) - 1))" using True by (intro disjunctive_diff) (auto simp: bit_exp_iff)
  also have "\<dots> = x XOR 2 ^ (LENGTH('a) - 1)" using True by (intro bit_word_eqI) (auto simp: bit_and_iff bit_not_iff bit_xor_iff bit_exp_iff)
  finally show ?thesis using m by (metis diff_conv_add_uminus)
qed

lemma uint_flip_top: "uint ((x :: 'a::len word) XOR 2 ^ (LENGTH('a) - 1)) = sint x + 2 ^ (LENGTH('a) - 1)"
proof -
  have "0 < (2 :: 'a word) ^ (LENGTH('a) - 1)" by (simp add: word_greater_zero_iff)
  then have "uint (x + 2 ^ (LENGTH('a) - 1)) = take_bit LENGTH('a) (uint x + 2 ^ (LENGTH('a) - 1))"
    by (simp add: uint_word_ariths take_bit_eq_mod uint_2p)
  moreover have "sint x = take_bit LENGTH('a) (uint x + 2 ^ (LENGTH('a) - 1)) - 2 ^ (LENGTH('a) - 1)"
    by (simp add: sint_uint signed_take_bit_eq_take_bit_shift)
  ultimately show ?thesis by (simp only: flip_top_add)
qed

lemma flip_top_less: "(x :: 'a::len word) XOR 2 ^ (LENGTH('a) - 1) < y XOR 2 ^ (LENGTH('a) - 1) \<longleftrightarrow> sint x < sint y"
  by (simp only: word_less_def uint_flip_top add_less_cancel_right)

lemma flip_top_eq: "(x :: 'a::len word) XOR 2 ^ (LENGTH('a) - 1) = y XOR 2 ^ (LENGTH('a) - 1) \<longleftrightarrow> x = y"
  by (simp only: flip_top_add add_right_cancel)

lemma signed_key_less:
  assumes "LENGTH('a::len) = 8 * n"
  shows "to_be n ((x :: 'a word) XOR push_bit (LENGTH('a) - 1) 1) < to_be n ((y :: 'a word) XOR push_bit (LENGTH('a) - 1) 1) \<longleftrightarrow> sint x < sint y"
  using to_be_less_iff [of n, where 'a = 'a] flip_top_less [of x y] assms by simp

lemma signed_key_eq:
  assumes "LENGTH('a::len) = 8 * n"
  shows "to_be n ((x :: 'a word) XOR push_bit (LENGTH('a) - 1) 1) = to_be n (y XOR push_bit (LENGTH('a) - 1) 1) \<longleftrightarrow> x = y"
  using to_be_inject [of n, where 'a = 'a] flip_top_eq [of x y] assms by simp

lemma total_key_mask:
  "(w :: 'a::len word) XOR (- drop_bit (LENGTH('a) - 1) w OR push_bit (LENGTH('a) - 1) 1) = total_key w XOR push_bit (LENGTH('a) - 1) 1"
proof (cases "bit w (LENGTH('a) - 1)")
  case True
  then have d: "drop_bit (LENGTH('a) - 1) w = 1" by (intro bit_word_eqI) (auto simp: bit_drop_bit_eq bit_1_iff dest: bit_imp_le_length)
  have "w XOR (- 1 OR push_bit (LENGTH('a) - 1) 1) = (w XOR mask (LENGTH('a) - 1)) XOR push_bit (LENGTH('a) - 1) 1"
    by (intro bit_word_eqI) (auto simp: bit_xor_iff bit_or_iff bit_mask_iff bit_exp_iff bit_not_iff)
  then show ?thesis using True d by (simp add: total_key_def)
next
  case False
  have "\<not> bit w (LENGTH('a) - 1 + n)" for n using False by (cases n) (auto dest: bit_imp_le_length)
  then have "drop_bit (LENGTH('a) - 1) w = 0" by (intro bit_word_eqI) (simp add: bit_drop_bit_eq)
  then show ?thesis using False by (simp add: total_key_def)
qed

lemma total_key_involution: "total_key (total_key (w :: 'a::len word)) = w"
  by (auto simp: total_key_def bit_xor_iff bit_mask_iff xor.assoc)

lemma total_key_inject: "total_key v = total_key w \<longleftrightarrow> v = w"
  by (metis total_key_involution)

section \<open>Decimals\<close>

text \<open>The documented facts on \<open>rust_decimal\<close>: a decimal is \<open>mantissa / 10 ^ scale\<close> with a 96-bit
  mantissa and a scale of at most 28, and \<open>normalize\<close> strips the trailing zeros of the
  fraction and the sign of zero without changing the number.\<close>

definition decimal_laws :: "('j, 'd, 'x) codec_ops_scheme \<Rightarrow> bool" where
  "decimal_laws ops \<longleftrightarrow> (\<forall>d. let n = dec_normalize ops d in
    dec_mantissa ops n * 10 ^ dec_scale ops d = dec_mantissa ops d * 10 ^ dec_scale ops n \<and>
    (dec_is_zero ops n \<longleftrightarrow> dec_mantissa ops n = 0) \<and> (dec_is_sign_negative ops n \<longleftrightarrow> dec_mantissa ops n < 0) \<and>
    (dec_scale ops n = 0 \<or> dec_mantissa ops n mod 10 \<noteq> 0) \<and>
    dec_mantissa ops (dec_abs ops n) = \<bar>dec_mantissa ops n\<bar> \<and> dec_scale ops (dec_abs ops n) = dec_scale ops n \<and>
    dec_scale ops n \<le> 28 \<and> \<bar>dec_mantissa ops n\<bar> < 2 ^ 96)"

text \<open>The order and the equality of the numbers.\<close>

definition dec_less :: "('j, 'd, 'x) codec_ops_scheme \<Rightarrow> 'd \<Rightarrow> 'd \<Rightarrow> bool" where
  "dec_less ops d e \<longleftrightarrow> dec_mantissa ops d * 10 ^ dec_scale ops e < dec_mantissa ops e * 10 ^ dec_scale ops d"

definition dec_equal :: "('j, 'd, 'x) codec_ops_scheme \<Rightarrow> 'd \<Rightarrow> 'd \<Rightarrow> bool" where
  "dec_equal ops d e \<longleftrightarrow> dec_mantissa ops d * 10 ^ dec_scale ops e = dec_mantissa ops e * 10 ^ dec_scale ops d"

text \<open>Digit strings in base \<open>b\<close> as integers; read as fractions \<open>0.x\<^sub>1x\<^sub>2\<dots>\<close> their lexicographic
  order is the order of the fractions.\<close>

fun digits_val :: "int \<Rightarrow> int list \<Rightarrow> int" where
  "digits_val b [] = 0"
| "digits_val b (x # xs) = x * b ^ length xs + digits_val b xs"

lemma digits_val_bounds:
  "\<forall>x \<in> set xs. 0 \<le> x \<and> x < b \<Longrightarrow> 0 < b \<Longrightarrow> 0 \<le> digits_val b xs \<and> digits_val b xs < b ^ length xs"
proof (induction xs)
  case (Cons x xs)
  then have "0 \<le> digits_val b xs" "digits_val b xs < b ^ length xs" "0 \<le> x" "x + 1 \<le> b" by auto
  moreover have "(x + 1) * b ^ length xs \<le> b * b ^ length xs" using \<open>x + 1 \<le> b\<close> Cons.prems(2) by (simp add: mult_right_mono)
  ultimately show ?case using Cons.prems(2) by (simp add: algebra_simps)
qed simp

lemma digits_lex_le:
  "\<forall>x \<in> set xs. 0 \<le> x \<and> x < b \<Longrightarrow> \<forall>y \<in> set ys. 0 \<le> y \<and> y < b \<Longrightarrow> 0 < b \<Longrightarrow> xs < ys \<Longrightarrow>
    digits_val b xs * b ^ length ys \<le> digits_val b ys * b ^ length xs"
proof (induction xs arbitrary: ys)
  case Nil
  then show ?case using digits_val_bounds [of ys b] by simp
next
  case (Cons x xs)
  then obtain y ys' where ys: "ys = y # ys'" by (cases ys) auto
  have bx: "0 \<le> digits_val b xs" "digits_val b xs < b ^ length xs" and byy: "0 \<le> digits_val b ys'"
    using Cons.prems ys digits_val_bounds [of xs b] digits_val_bounds [of ys' b] by auto
  have p: "0 < b ^ length xs" "0 < b ^ length ys'" using Cons.prems(3) by simp_all
  show ?case
  proof (cases "x < y")
    case True
    have "x * b ^ length xs + digits_val b xs \<le> (x + 1) * b ^ length xs" using bx by (simp add: algebra_simps)
    also have "\<dots> \<le> y * b ^ length xs" using True p(1) by (intro mult_right_mono) simp_all
    finally have "(x * b ^ length xs + digits_val b xs) * (b * b ^ length ys') \<le> y * b ^ length xs * (b * b ^ length ys')"
      using Cons.prems(3) by (intro mult_right_mono) simp_all
    also have "\<dots> = y * b ^ length ys' * (b * b ^ length xs)" by simp
    also have "\<dots> \<le> (y * b ^ length ys' + digits_val b ys') * (b * b ^ length xs)"
      using byy Cons.prems(3) by (intro mult_right_mono) simp_all
    finally show ?thesis using ys by simp
  next
    case False
    then have "x = y" "xs < ys'" using Cons.prems(4) ys by auto
    then have "digits_val b xs * b ^ length ys' \<le> digits_val b ys' * b ^ length xs" using Cons ys by auto
    then have "digits_val b xs * b ^ length ys' * b \<le> digits_val b ys' * b ^ length xs * b" using Cons.prems(3) by (intro mult_right_mono) simp_all
    then show ?thesis using ys \<open>x = y\<close> by (simp add: algebra_simps)
  qed
qed

lemma digits_val_append: "digits_val b (xs @ ys) = digits_val b xs * b ^ length ys + digits_val b ys"
  by (induction xs) (auto simp: algebra_simps power_add)

text \<open>The digits of the source's \<open>to_string\<close>.\<close>

definition digit :: "u8 \<Rightarrow> int" where
  "digit b = uint b - 48"

lemma nat_string_digits:
  "0 \<le> n \<Longrightarrow> (\<forall>b \<in> set (nat_string n). 0 \<le> digit b \<and> digit b < 10) \<and> digits_val 10 (map digit (nat_string n)) = n"
proof (induction n rule: nat_string.induct)
  case (1 n)
  show ?case
  proof (cases "n < 10")
    case True
    then show ?thesis using 1(2) by (simp add: nat_string.simps [of n] digit_def uint_as_u8)
  next
    case False
    then have IH: "\<forall>b \<in> set (nat_string (n div 10)). 0 \<le> digit b \<and> digit b < 10" "digits_val 10 (map digit (nat_string (n div 10))) = n div 10"
      using 1 by auto
    have m: "0 \<le> n mod 10" "n mod 10 < 10" by simp_all
    then have d: "digit (as_u8 (48 + n mod 10)) = n mod 10" unfolding digit_def by (subst uint_as_u8) simp_all
    have u: "nat_string n = nat_string (n div 10) @ [as_u8 (48 + n mod 10)]" using False by (subst nat_string.simps) simp
    show ?thesis using IH d m by (auto simp: u digits_val_append)
  qed
qed

lemma nat_string_length: "0 < n \<Longrightarrow> 10 ^ (length (nat_string n) - 1) \<le> n \<and> n < 10 ^ length (nat_string n) \<and> nat_string n \<noteq> []"
proof (induction n rule: nat_string.induct)
  case (1 n)
  show ?case
  proof (cases "n < 10")
    case True
    then show ?thesis using 1(2) by (simp add: nat_string.simps [of n])
  next
    case False
    let ?s = "nat_string (n div 10)"
    have s: "10 ^ (length ?s - 1) \<le> n div 10" "n div 10 < 10 ^ length ?s" "?s \<noteq> []" using 1 False by auto
    have "(10::int) ^ length ?s = 10 * 10 ^ (length ?s - 1)" using s(3) by (cases ?s) auto
    moreover have "10 * (n div 10) \<le> n" "n < 10 * (n div 10) + 10" by simp_all
    ultimately have "10 ^ length ?s \<le> n" "n < 10 * 10 ^ length ?s" using s(1,2) by linarith+
    then show ?thesis using False by (simp add: nat_string.simps [of n])
  qed
qed

text \<open>Pairs of digits, base 100.\<close>

fun pairs :: "int list \<Rightarrow> int list" where
  "pairs (a # b # ds) = (10 * a + b) # pairs ds"
| "pairs _ = []"

lemma length_pairs: "length (pairs ds) = length ds div 2"
  by (induction ds rule: pairs.induct) auto

lemma pairs_range: "\<forall>x \<in> set ds. 0 \<le> x \<and> x < 10 \<Longrightarrow> \<forall>x \<in> set (pairs ds). 0 \<le> x \<and> x < 100"
  by (induction ds rule: pairs.induct) auto

lemma digits_val_pairs: "even (length ds) \<Longrightarrow> digits_val 100 (pairs ds) = digits_val 10 ds"
proof (induction ds rule: pairs.induct)
  case (1 a b ds)
  then obtain k where "length ds = 2 * k" by auto
  moreover have "(10::int) ^ (2 * k) = 100 ^ k" by (simp add: power_mult)
  ultimately show ?case using 1 by (simp add: length_pairs algebra_simps)
qed auto

lemma cents_pairs:
  "\<forall>b \<in> set ds. 0 \<le> digit b \<and> digit b < 10 \<Longrightarrow> cents ds = map (\<lambda>p. as_u8 (p + 1)) (pairs (map digit ds))"
proof (induction ds rule: cents.induct)
  case (1 a b ds)
  have w: "c - 48 = (word_of_int (digit c) :: u8)" for c by (simp add: digit_def)
  show ?case using 1 by (simp add: w as_u8_def)
qed auto

lemma less_map_iff:
  assumes "\<And>x y. x \<in> set xs \<Longrightarrow> y \<in> set ys \<Longrightarrow> f x < f y \<longleftrightarrow> x < y" "\<And>x y. x \<in> set xs \<Longrightarrow> y \<in> set ys \<Longrightarrow> f x = f y \<longleftrightarrow> x = y"
  shows "map f xs < map f ys \<longleftrightarrow> xs < (ys :: int list)"
  using assms
proof (induction xs arbitrary: ys)
  case Nil
  then show ?case by (cases ys) auto
next
  case (Cons x xs)
  then show ?case by (cases ys) auto
qed

lemma eq_map_iff:
  assumes "\<And>x y. x \<in> set xs \<Longrightarrow> y \<in> set ys \<Longrightarrow> f x = f y \<longleftrightarrow> x = y"
  shows "map f xs = map f ys \<longleftrightarrow> xs = ys"
  using assms
proof (induction xs arbitrary: ys)
  case (Cons x xs)
  then show ?case by (cases ys) auto
qed auto

text \<open>A terminator below every byte makes a string prefix free and keeps the order.\<close>

lemma terminated_less: "0 \<notin> set xs \<Longrightarrow> 0 \<notin> set ys \<Longrightarrow> (xs @ [0] :: bytes) < ys @ [0] \<longleftrightarrow> xs < ys"
proof (induction xs arbitrary: ys)
  case Nil
  then show ?case by (cases ys) (auto simp: word_neq_0_conv)
next
  case (Cons x xs)
  then show ?case by (cases ys) (auto simp: word_neq_0_conv)
qed

lemma not_less_not: "(NOT x :: 'a::len word) < NOT y \<longleftrightarrow> y < x"
proof -
  have "NOT z = - 1 - z" for z :: "'a word" by (simp only: not_eq_complement minus_diff_commute)
  then have "uint (NOT z) = uint (- 1 :: 'a word) - uint z" for z :: "'a word"
    using uint_sub_lem [of z "- 1"] word_order.extremum [of z] by (simp add: word_le_def)
  then show ?thesis by (simp add: word_less_def)
qed

lemma not_minus_one: "(NOT x :: 'a::len word) = - 1 \<longleftrightarrow> x = 0" "- 1 = (NOT x :: 'a word) \<longleftrightarrow> x = 0" "(NOT x :: 'a word) < - 1 \<longleftrightarrow> x \<noteq> 0"
  using not_less_not [of x 0] by (auto simp: word_neq_0_conv) (metis bit.compl_zero bit.double_compl)+

lemma complement_less: "0 \<notin> set xs \<Longrightarrow> 0 \<notin> set ys \<Longrightarrow> map not (xs @ [0] :: bytes) < map not (ys @ [0]) \<longleftrightarrow> ys @ [0] < xs @ [0]"
proof (induction xs arbitrary: ys)
  case Nil
  then show ?case by (cases ys) (auto simp: not_less_not not_minus_one word_neq_0_conv)
next
  case (Cons x xs)
  then show ?case by (cases ys) (auto simp: not_less_not not_minus_one word_neq_0_conv)
qed

text \<open>The payload of a positive mantissa: exponent byte, then base-100 digits.\<close>

definition padded :: "int \<Rightarrow> bytes" where
  "padded m = (if length (nat_string m) mod 2 = 1 then nat_string m @ [48] else nat_string m)"

definition expo :: "int \<Rightarrow> nat \<Rightarrow> int" where
  "expo m s = int (length (nat_string m)) - int s"

definition base100 :: "int \<Rightarrow> int list" where
  "base100 m = pairs (map digit (padded m))"

lemma padded_digits:
  assumes "0 < m"
  shows "\<forall>b \<in> set (padded m). 0 \<le> digit b \<and> digit b < 10" "even (length (padded m))"
    and "digits_val 10 (map digit (padded m)) = m * 10 ^ (length (padded m) - length (nat_string m))" "length (nat_string m) \<le> length (padded m)"
proof -
  show "even (length (padded m))" unfolding padded_def by (cases "length (nat_string m) mod 2 = 1") (simp_all, presburger+)
qed (use nat_string_digits [of m] assms in \<open>auto simp: padded_def digits_val_append digit_def\<close>)

lemma base100_range: "0 < m \<Longrightarrow> x \<in> set (base100 m) \<Longrightarrow> 0 \<le> x \<and> x < 100"
  using pairs_range [of "map digit (padded m)"] padded_digits(1) by (auto simp: base100_def)

lemma base100_val:
  assumes "0 < m"
  shows "digits_val 100 (base100 m) * 10 ^ length (nat_string m) = m * 100 ^ length (base100 m)"
proof -
  note P = padded_digits [OF assms]
  obtain k where k: "length (padded m) = 2 * k" using P(2) by auto
  have "(100::int) ^ k = 10 ^ length (padded m)" unfolding k by (simp add: power_mult)
  also have "\<dots> = 10 ^ (length (padded m) - length (nat_string m)) * 10 ^ length (nat_string m)"
    using P(4) by (simp only: power_add [symmetric]) simp
  finally have "(100::int) ^ k = 10 ^ (length (padded m) - length (nat_string m)) * 10 ^ length (nat_string m)" .
  then show ?thesis using P(2,3) k by (simp add: base100_def digits_val_pairs length_pairs)
qed

lemma decimal_payload_eq:
  assumes "0 < m"
  shows "decimal_payload m s = ((word_of_int (expo m s) :: u8) XOR 0x80) # map (\<lambda>p. as_u8 (p + 1)) (base100 m) @ [0]"
  using assms padded_digits(1) [OF assms] by (simp add: decimal_payload_def Let_def int_string_def expo_def base100_def padded_def cents_pairs)

lemma cent_bytes:
  assumes "0 < m" "0 < m'"
  shows "map (\<lambda>p. as_u8 (p + 1)) (base100 m) < map (\<lambda>p. as_u8 (p + 1)) (base100 m') \<longleftrightarrow> base100 m < base100 m'"
    and "map (\<lambda>p. as_u8 (p + 1)) (base100 m) = map (\<lambda>p. as_u8 (p + 1)) (base100 m') \<longleftrightarrow> base100 m = base100 m'"
    and "0 \<notin> set (map (\<lambda>p. as_u8 (p + 1)) (base100 m))"
proof -
  have u: "uint (as_u8 (p + 1)) = p + 1" if "p \<in> set (base100 m) \<or> p \<in> set (base100 m')" for p
    using that base100_range [OF assms(1), of p] base100_range [OF assms(2), of p] by (intro uint_as_u8) auto
  have i: "as_u8 (p + 1) = as_u8 (q + 1) \<longleftrightarrow> p = q" if "p \<in> set (base100 m)" "q \<in> set (base100 m')" for p q
    using u [of p] u [of q] that by (metis add_right_cancel)
  show "map (\<lambda>p. as_u8 (p + 1)) (base100 m) < map (\<lambda>p. as_u8 (p + 1)) (base100 m') \<longleftrightarrow> base100 m < base100 m'"
    by (rule less_map_iff) (auto simp: word_less_def u i)
  show "map (\<lambda>p. as_u8 (p + 1)) (base100 m) = map (\<lambda>p. as_u8 (p + 1)) (base100 m') \<longleftrightarrow> base100 m = base100 m'"
    by (rule eq_map_iff) (auto simp: i)
  show "0 \<notin> set (map (\<lambda>p. as_u8 (p + 1)) (base100 m))"
  proof
    assume "0 \<in> set (map (\<lambda>p. as_u8 (p + 1)) (base100 m))"
    then obtain p where "p \<in> set (base100 m)" "as_u8 (p + 1) = 0" by auto
    then show False using u [of p] base100_range [OF assms(1), of p] by simp
  qed
qed

text \<open>A normalized positive decimal: what \<open>decimal_laws\<close> gives for the absolute value.\<close>

definition normal_pos :: "int \<Rightarrow> nat \<Rightarrow> bool" where
  "normal_pos m s \<longleftrightarrow> 0 < m \<and> m < 2 ^ 96 \<and> s \<le> 28 \<and> (s = 0 \<or> m mod 10 \<noteq> 0)"

lemma normal_unique:
  assumes "normal_pos m s" "normal_pos m' s'" "m * 10 ^ s' = m' * 10 ^ s"
  shows "m = m' \<and> s = s'"
proof -
  have *: "m = m' \<and> s = s'" if n: "normal_pos m s" "normal_pos m' s'" "m * 10 ^ s' = m' * 10 ^ s" "s \<le> s'" for m m' s s'
  proof -
    have "m * 10 ^ (s' - s) * 10 ^ s = m' * 10 ^ s" using n(3,4) by (simp add: mult.assoc power_add [symmetric])
    then have e: "m * 10 ^ (s' - s) = m'" by simp
    have "s' = s"
    proof (rule ccontr)
      assume "s' \<noteq> s"
      then obtain k where "s' - s = Suc k" using n(4) by (cases "s' - s") auto
      then have "m' mod 10 = 0" using e by (metis mod_mult_self2_is_0 mult.assoc mult.commute power_Suc)
      then show False using n(2,4) \<open>s' \<noteq> s\<close> by (simp add: normal_pos_def)
    qed
    then show ?thesis using e by simp
  qed
  show ?thesis using * [OF assms] * [OF assms(2,1)] assms(3) by (metis nle_le)
qed

lemma expo_less:
  assumes "0 < m" "0 < m'" "expo m s < expo m' s'"
  shows "m * 10 ^ s' < m' * 10 ^ s"
proof -
  note a = nat_string_length [OF assms(1)] and b = nat_string_length [OF assms(2)]
  have le: "length (nat_string m) + s' \<le> length (nat_string m') - 1 + s" using assms(3) b by (cases "nat_string m'") (auto simp: expo_def)
  have "m * 10 ^ s' < 10 ^ length (nat_string m) * 10 ^ s'" using a by simp
  also have "\<dots> \<le> 10 ^ (length (nat_string m') - 1) * 10 ^ s" using le by (simp add: power_add [symmetric] power_increasing)
  also have "\<dots> \<le> m' * 10 ^ s" using b by simp
  finally show ?thesis .
qed

lemma fraction_scale:
  assumes "expo m s = expo m' s'"
  shows "m * 10 ^ length (nat_string m') \<le> m' * 10 ^ length (nat_string m) \<longleftrightarrow> m * 10 ^ s' \<le> m' * 10 ^ s"
proof -
  let ?L = "length (nat_string m)" and ?L' = "length (nat_string m')"
  have e: "?L' + s = ?L + s'" using assms by (simp add: expo_def)
  have "m * 10 ^ ?L' \<le> m' * 10 ^ ?L \<longleftrightarrow> m * 10 ^ ?L' * 10 ^ s \<le> m' * 10 ^ ?L * 10 ^ s" by simp
  also have "\<dots> \<longleftrightarrow> m * 10 ^ s' * 10 ^ ?L \<le> m' * 10 ^ s * 10 ^ ?L" using e by (simp add: mult.assoc power_add [symmetric] add.commute)
  finally show ?thesis by simp
qed

lemma base100_le:
  assumes "0 < m" "0 < m'" "expo m s = expo m' s'" "base100 m \<le> base100 m'"
  shows "m * 10 ^ s' \<le> m' * 10 ^ s"
proof -
  let ?a = "base100 m" and ?b = "base100 m'" and ?L = "length (nat_string m)" and ?L' = "length (nat_string m')"
  have "digits_val 100 ?a * 100 ^ length ?b \<le> digits_val 100 ?b * 100 ^ length ?a"
    using assms(4) digits_lex_le [of ?a 100 ?b] base100_range [OF assms(1)] base100_range [OF assms(2)] by (auto simp: le_less)
  then have "digits_val 100 ?a * 100 ^ length ?b * (10 ^ ?L * 10 ^ ?L') \<le> digits_val 100 ?b * 100 ^ length ?a * (10 ^ ?L * 10 ^ ?L')"
    by (intro mult_right_mono) simp_all
  then have "(digits_val 100 ?a * 10 ^ ?L) * 100 ^ length ?b * 10 ^ ?L' \<le> (digits_val 100 ?b * 10 ^ ?L') * 100 ^ length ?a * 10 ^ ?L"
    by (simp add: mult_ac)
  then have "m * 10 ^ ?L' * (100 ^ length ?a * 100 ^ length ?b) \<le> m' * 10 ^ ?L * (100 ^ length ?a * 100 ^ length ?b)"
    unfolding base100_val [OF assms(1)] base100_val [OF assms(2)] by (simp add: mult_ac)
  then have "m * 10 ^ ?L' \<le> m' * 10 ^ ?L" by simp
  then show ?thesis using fraction_scale [OF assms(3)] by simp
qed

lemma expo_range: "normal_pos m s \<Longrightarrow> - 28 < expo m s \<and> expo m s < 30"
proof -
  assume n: "normal_pos m s"
  then have l: "10 ^ (length (nat_string m) - 1) \<le> m" "nat_string m \<noteq> []" using nat_string_length [of m] by (simp_all add: normal_pos_def)
  have "length (nat_string m) - 1 < 29"
  proof (rule ccontr)
    assume "\<not> length (nat_string m) - 1 < 29"
    then have "(10::int) ^ 29 \<le> 10 ^ (length (nat_string m) - 1)" by (intro power_increasing) simp_all
    then show False using l(1) n by (simp add: normal_pos_def)
  qed
  moreover have "0 < length (nat_string m)" using l(2) by simp
  ultimately show ?thesis using n unfolding expo_def normal_pos_def by linarith
qed

lemma expo_byte:
  assumes "- 28 < e" "e < 30"
  shows "uint ((word_of_int e :: u8) XOR 0x80) = e + 128"
proof -
  have "sint (word_of_int e :: u8) = e" using assms by (simp add: sint_sbintrunc' signed_take_bit_int_eq_self)
  then show ?thesis using uint_flip_top [of "word_of_int e :: u8"] by simp
qed

lemma payload_cases:
  assumes "normal_pos m s" "normal_pos m' s'"
  shows "decimal_payload m s < decimal_payload m' s' \<longleftrightarrow> expo m s < expo m' s' \<or> expo m s = expo m' s' \<and> base100 m < base100 m'"
    and "decimal_payload m s = decimal_payload m' s' \<longleftrightarrow> expo m s = expo m' s' \<and> base100 m = base100 m'"
proof -
  have p: "0 < m" "0 < m'" using assms by (simp_all add: normal_pos_def)
  have "expo m s = expo m' s' \<longleftrightarrow> (word_of_int (expo m s) :: u8) XOR 0x80 = word_of_int (expo m' s') XOR 0x80"
    using expo_byte [of "expo m s"] expo_byte [of "expo m' s'"] expo_range [OF assms(1)] expo_range [OF assms(2)] by (metis add_right_cancel)
  moreover have "expo m s < expo m' s' \<longleftrightarrow> (word_of_int (expo m s) :: u8) XOR 0x80 < word_of_int (expo m' s') XOR 0x80"
    using expo_byte [of "expo m s"] expo_byte [of "expo m' s'"] expo_range [OF assms(1)] expo_range [OF assms(2)] by (simp add: word_less_def)
  ultimately show "decimal_payload m s < decimal_payload m' s' \<longleftrightarrow> expo m s < expo m' s' \<or> expo m s = expo m' s' \<and> base100 m < base100 m'"
      "decimal_payload m s = decimal_payload m' s' \<longleftrightarrow> expo m s = expo m' s' \<and> base100 m = base100 m'"
    unfolding decimal_payload_eq [OF p(1)] decimal_payload_eq [OF p(2)]
    using cent_bytes [OF p] cent_bytes(3) [OF p(2,1)] by (simp_all add: terminated_less)
qed

text \<open>On normalized positive decimals the payload orders as the numbers do.\<close>

lemma payload_order:
  assumes "normal_pos m s" "normal_pos m' s'"
  shows "decimal_payload m s < decimal_payload m' s' \<longleftrightarrow> m * 10 ^ s' < m' * 10 ^ s"
    and "decimal_payload m s = decimal_payload m' s' \<longleftrightarrow> m * 10 ^ s' = m' * 10 ^ s"
proof -
  have le: "m * 10 ^ s' \<le> m' * 10 ^ s" if "decimal_payload m s \<le> decimal_payload m' s'" "normal_pos m s" "normal_pos m' s'" for m s m' s'
    using that payload_cases [OF that(2,3)] expo_less [of m m' s s'] base100_le [of m m' s s'] by (auto simp: normal_pos_def le_less)
  show eq: "decimal_payload m s = decimal_payload m' s' \<longleftrightarrow> m * 10 ^ s' = m' * 10 ^ s"
    using normal_unique [OF assms] le [OF _ assms] le [OF _ assms(2,1)] by (metis order_antisym order_refl)
  show "decimal_payload m s < decimal_payload m' s' \<longleftrightarrow> m * 10 ^ s' < m' * 10 ^ s"
    using eq le [OF _ assms] le [OF _ assms(2,1)] by (metis linorder_le_less_linear linorder_not_less order.strict_iff_order)
qed

end
