(* ===== verification/Query_Types.thy ===== *)
theory Query_Types
  imports Store_Engine Value_Codec Key_Codec
begin

text \<open>
  The identifiers, the table descriptor and the errors of the database:
  \<^verbatim>\<open>src/crates/strata-db/src/catalog/ids.rs\<close>, \<^verbatim>\<open>catalog/tables.rs\<close>, \<^verbatim>\<open>catalog/index.rs\<close>, the errors
  of \<^verbatim>\<open>catalog/mod.rs\<close> and of \<^verbatim>\<open>query/mod.rs\<close>. An id is the list of the 16 bytes of its UUID, a
  name the list of its UTF-8 bytes. Of an error message only the fixed text is kept.
\<close>

section \<open>Identifiers\<close>

type_synonym uuid = bytes

definition uuid_nil :: uuid where "uuid_nil = replicate 16 0"

definition trunc_initial :: u64 where "trunc_initial = 0"

definition trunc_next :: "u64 \<Rightarrow> u64 option" where
  "trunc_next t = (if t = - 1 then None else Some (t + 1))"

section \<open>Tables\<close>

record index =
  ix_name :: bytes
  ix_columns :: "nat list"

record table =
  tb_project :: uuid
  tb_dataset :: uuid
  tb_id :: uuid
  tb_trunc :: u64
  tb_name :: bytes
  tb_schema :: schema
  tb_clustered :: "nat list"
  tb_indexes :: "index list"

definition table_new :: "uuid \<Rightarrow> uuid \<Rightarrow> uuid \<Rightarrow> u64 \<Rightarrow> bytes \<Rightarrow> schema \<Rightarrow> table" where
  "table_new project dataset i trunc name sc =
    \<lparr>tb_project = project, tb_dataset = dataset, tb_id = i, tb_trunc = trunc, tb_name = name, tb_schema = sc,
     tb_clustered = (if sc = [] then [] else [0]), tb_indexes = []\<rparr>"

definition with_indexes :: "index list \<Rightarrow> table \<Rightarrow> table" where
  "with_indexes ixs t = t\<lparr>tb_indexes := ixs\<rparr>"

definition starts_with :: "'a list \<Rightarrow> 'a list \<Rightarrow> bool" where
  "starts_with xs ys \<longleftrightarrow> take (length ys) xs = ys"

definition clustered_on :: "table \<Rightarrow> nat list \<Rightarrow> bool" where
  "clustered_on t columns \<longleftrightarrow> columns \<noteq> [] \<and> starts_with (tb_clustered t) columns"

definition index_on :: "table \<Rightarrow> nat list \<Rightarrow> index option" where
  "index_on t columns = (if columns = [] then None else List.find (\<lambda>i. starts_with (ix_columns i) columns) (tb_indexes t))"

section \<open>Errors\<close>

datatype resource_kind = RProject | RDataset | RTable

datatype catalog_error =
    CNotFound resource_kind bytes
  | CAlreadyExists resource_kind bytes
  | CTruncationExhausted bytes

datatype codec_error =
    CodecDecode row_decode_error
  | CodecSerde

text \<open>\<open>QPanic\<close> is a Rust panic.\<close>

datatype query_error =
    QCatalog catalog_error
  | QStorage storage_error
  | QCodec codec_error
  | QParse string
  | QUnsupported string
  | QType string
  | QInternal string
  | QPanic

definition query_of_storage :: "storage_error \<Rightarrow> query_error" where
  "query_of_storage e = (if e = SPanic then QPanic else QStorage e)"

definition query_of_decode :: "row_decode_error \<Rightarrow> query_error" where
  "query_of_decode e = QCodec (CodecDecode e)"

definition query_of_key :: "key_encode_error \<Rightarrow> query_error" where
  "query_of_key e = (case e of NullKey \<Rightarrow> QInternal ''primary key cannot be null'')"

text \<open>An \<open>Option\<close> whose \<open>None\<close> stands for a panic.\<close>

definition or_panic :: "'a option \<Rightarrow> query_error + 'a" where
  "or_panic x = (case x of None \<Rightarrow> Inl QPanic | Some v \<Rightarrow> Inr v)"

end
