(* ===== verification/Engine_Refinement.thy ===== *)
theory Engine_Refinement
  imports Store_Engine
begin

text \<open>
  The storage engine refines a map from keys to values. The index refines a map from keys to
  encoded locations, the heap a map from locations to tuples; the engine's invariant composes
  the two. The locale \<open>kv_engine\<close> is the contract the tables of the database rely on.
\<close>

section \<open>The invariant\<close>

definition engine_inv :: "engine_env \<Rightarrow> lsm_config \<Rightarrow> nat \<Rightarrow> bool \<Rightarrow> engine \<Rightarrow> (bytes \<rightharpoonup> bytes) \<Rightarrow> bool" where
  "engine_inv env config cap d e m \<longleftrightarrow> (\<exists>K lm.
    reach_inv (ee_crc env) (ee_fb env) config cap d (en_index e) (\<lambda>k. map_option tuple_loc_encode (lm k)) \<and>
    heap_ok (heap_env env) disk_spec K (en_heap e) \<and> 2 \<le> nframes (en_heap e) \<and>
    (\<forall>k. rel_option (\<lambda>l v. heap_map disk_spec K (hp_cache (en_heap e)) l = Some (Some v)) (lm k) (m k)))"

lemma engine_invI:
  assumes "reach_inv (ee_crc env) (ee_fb env) config cap d (en_index e) (\<lambda>k. map_option tuple_loc_encode (lm k))"
    and "heap_ok (heap_env env) disk_spec K (en_heap e)" "2 \<le> nframes (en_heap e)"
    and "\<And>k. rel_option (\<lambda>l v. heap_map disk_spec K (hp_cache (en_heap e)) l = Some (Some v)) (lm k) (m k)"
  shows "engine_inv env config cap d e m"
  using assms unfolding engine_inv_def by blast

lemma engine_invE:
  assumes "engine_inv env config cap d e m"
  obtains K lm where
    "reach_inv (ee_crc env) (ee_fb env) config cap d (en_index e) (\<lambda>k. map_option tuple_loc_encode (lm k))"
    "heap_ok (disk_env (ee_page_crc env) (ee_crc env)) disk_spec K (en_heap e)" "2 \<le> nframes (en_heap e)"
    "\<forall>k. rel_option (\<lambda>l v. heap_map disk_spec K (hp_cache (en_heap e)) l = Some (Some v)) (lm k) (m k)"
  using assms unfolding engine_inv_def heap_env_def by blast

lemma heap_map_page: "heap_map sp K c l = Some x \<Longrightarrow> page_id l \<in> K"
  by (auto simp: heap_map_def split: if_splits)

text \<open>A key the index can log: the record of the write fits the journal's length field.\<close>

definition writable :: "bytes \<Rightarrow> engine \<Rightarrow> bool" where
  "writable k e \<longleftrightarrow> l_seq (en_index e) < - 1 \<and> length k + 64 < 2 ^ 32"

definition heap_room :: "engine \<Rightarrow> bool" where
  "heap_room e \<longleftrightarrow> disk_room (pc_block (hp_cache (en_heap e)))"

lemma writable_kvj:
  "writable k e \<Longrightarrow> length v \<le> 10 \<Longrightarrow> kvj_ok \<lparr>kv_key = \<lparr>user_key = k, ik_seq = s, ik_op = op\<rparr>, kv_value = v\<rparr>"
  by (auto simp: writable_def kvj_ok_def kv_ok_def entry_size_def)

section \<open>Operations\<close>

lemma index_write_inv:
  assumes R: "reach_inv (ee_crc env) fb config cap d (en_index e) (\<lambda>k. map_option tuple_loc_encode (lm k))"
    and w: "writable k e" and v: "length v \<le> 10" "resolve op v = map_option tuple_loc_encode lo"
    and l: "lsm_write (ee_crc env) k v op (en_index e) = (r, L)"
  shows "reach_inv (ee_crc env) fb config cap (d \<and> r = Inr ()) L
    (\<lambda>x. map_option tuple_loc_encode ((if r = Inr () then lm(k := lo) else lm) x))"
proof -
  have "reach_inv (ee_crc env) fb config cap (d \<and> r = Inr ()) L
      (if r = Inr () then (\<lambda>k. map_option tuple_loc_encode (lm k))(k := resolve op v) else (\<lambda>k. map_option tuple_loc_encode (lm k)))"
    by (rule write_reach_inv [OF R _ writable_kvj [OF w v(1)] l]) (use w in \<open>simp add: writable_def\<close>)
  moreover have "(if r = Inr () then (\<lambda>k. map_option tuple_loc_encode (lm k))(k := resolve op v) else (\<lambda>k. map_option tuple_loc_encode (lm k)))
      = (\<lambda>x. map_option tuple_loc_encode ((if r = Inr () then lm(k := lo) else lm) x))"
    by (auto simp: v(2))
  ultimately show ?thesis by simp
qed

lemma engine_put_inv:
  assumes inv: "engine_inv env config cap d e m" and w: "writable k e" "heap_room e" and p: "engine_put env k v e = (r, e')"
  shows "engine_inv env config cap (d \<and> (r = Inr () \<or> max_tuple < length v)) e' (if r = Inr () then m(k \<mapsto> v) else m)"
    and "max_tuple < length v \<Longrightarrow> r = Inl (SBlock (TupleTooLarge (length v) max_tuple))"
proof -
  obtain K lm where I: "reach_inv (ee_crc env) (ee_fb env) config cap d (en_index e) (\<lambda>k. map_option tuple_loc_encode (lm k))"
      "heap_ok (disk_env (ee_page_crc env) (ee_crc env)) disk_spec K (en_heap e)" "2 \<le> nframes (en_heap e)"
      "\<forall>k. rel_option (\<lambda>l v. heap_map disk_spec K (hp_cache (en_heap e)) l = Some (Some v)) (lm k) (m k)"
    using inv by (rule engine_invE)
  let ?M = "heap_map disk_spec K (hp_cache (en_heap e))"
  have room: "ps_room disk_spec (pc_block (hp_cache (en_heap e)))" using w(2) by (simp add: heap_room_def)
  obtain K' l h where h: "heap_insert (disk_env (ee_page_crc env) (ee_crc env)) v (en_heap e) =
      (if length v \<le> max_tuple then Inr l else Inl (TupleTooLarge (length v) max_tuple), h)"
    "heap_ok (disk_env (ee_page_crc env) (ee_crc env)) disk_spec K' h" "l \<notin> dom ?M"
    "heap_map disk_spec K' (hp_cache h) = (if length v \<le> max_tuple then ?M(l \<mapsto> Some v) else ?M)"
    by (rule disk_pool.heap_insert_ok [OF I(2) room, of v])
  have fr: "2 \<le> nframes h" using heap_frames(1) [OF h(1)] I(3) by simp
  have old: "rel_option (\<lambda>l v. heap_map disk_spec K' (hp_cache h) l = Some (Some v)) (lm x) (m x)" for x
    using I(4) [rule_format, of x] h(3,4) by (cases "lm x"; cases "m x") auto
  have "engine_inv env config cap (d \<and> (r = Inr () \<or> max_tuple < length v)) e' (if r = Inr () then m(k \<mapsto> v) else m) \<and>
    (max_tuple < length v \<longrightarrow> r = Inl (SBlock (TupleTooLarge (length v) max_tuple)))"
  proof (cases "length v \<le> max_tuple")
    case False
    then have "r = Inl (SBlock (TupleTooLarge (length v) max_tuple))" "e' = e\<lparr>en_heap := h\<rparr>"
      using p h(1) by (simp_all add: engine_put_def st_bind_def on_heap_def heap_env_def storage_of_fs_def Pages.is_exhausted_def)
    then show ?thesis using False I(1) h(2) fr old
      by (auto intro!: engine_invI [where K = K' and lm = lm] simp: heap_env_def)
  next
    case True
    obtain q L where q: "lsm_write (ee_crc env) k (tuple_loc_encode l) Put (en_index e) = (q, L)" by force
    have r: "r = map_err storage_of_lsm q" "e' = e\<lparr>en_heap := h, en_index := L\<rparr>"
      using p h(1) True q by (simp_all add: engine_put_def st_bind_def on_heap_def on_index_def heap_env_def lsm_put_def)
    have rq: "r = Inr () \<longleftrightarrow> q = Inr ()" using r(1) by (cases q) simp_all
    have R: "reach_inv (ee_crc env) (ee_fb env) config cap (d \<and> q = Inr ()) L
        (\<lambda>x. map_option tuple_loc_encode ((if q = Inr () then lm(k := Some l) else lm) x))"
      by (rule index_write_inv [OF I(1) w(1) _ _ q]) (simp_all add: TUPLE_LOC_LEN_def)
    have "rel_option (\<lambda>l v. heap_map disk_spec K' (hp_cache h) l = Some (Some v))
        ((if q = Inr () then lm(k := Some l) else lm) x) ((if q = Inr () then m(k \<mapsto> v) else m) x)" for x
      using old [of x] h(4) True by auto
    then have "engine_inv env config cap (d \<and> q = Inr ()) e' (if q = Inr () then m(k \<mapsto> v) else m)"
      using R h(2) fr r(2)
      by (intro engine_invI [where K = K' and lm = "if q = Inr () then lm(k := Some l) else lm"]) (simp_all add: heap_env_def)
    then show ?thesis using True rq by simp
  qed
  then show "engine_inv env config cap (d \<and> (r = Inr () \<or> max_tuple < length v)) e' (if r = Inr () then m(k \<mapsto> v) else m)"
    and "max_tuple < length v \<Longrightarrow> r = Inl (SBlock (TupleTooLarge (length v) max_tuple))" by blast+
qed

lemma engine_delete_inv:
  assumes inv: "engine_inv env config cap d e m" and w: "writable k e" and p: "engine_delete env k e = (r, e')"
  shows "engine_inv env config cap (d \<and> r = Inr ()) e' (if r = Inr () then m(k := None) else m)"
proof -
  obtain K lm where I: "reach_inv (ee_crc env) (ee_fb env) config cap d (en_index e) (\<lambda>k. map_option tuple_loc_encode (lm k))"
      "heap_ok (disk_env (ee_page_crc env) (ee_crc env)) disk_spec K (en_heap e)" "2 \<le> nframes (en_heap e)"
      "\<forall>k. rel_option (\<lambda>l v. heap_map disk_spec K (hp_cache (en_heap e)) l = Some (Some v)) (lm k) (m k)"
    using inv by (rule engine_invE)
  obtain q L where q: "lsm_write (ee_crc env) k [] Delete (en_index e) = (q, L)" by force
  have r: "r = map_err storage_of_lsm q" "e' = e\<lparr>en_index := L\<rparr>"
    using p q by (simp_all add: engine_delete_def on_index_def lsm_delete_def)
  have rq: "r = Inr () \<longleftrightarrow> q = Inr ()" using r(1) by (cases q) simp_all
  have R: "reach_inv (ee_crc env) (ee_fb env) config cap (d \<and> q = Inr ()) L
      (\<lambda>x. map_option tuple_loc_encode ((if q = Inr () then lm(k := None) else lm) x))"
    by (rule index_write_inv [OF I(1) w _ _ q]) simp_all
  have "rel_option (\<lambda>l v. heap_map disk_spec K (hp_cache (en_heap e)) l = Some (Some v))
      ((if q = Inr () then lm(k := None) else lm) x) ((if q = Inr () then m(k := None) else m) x)" for x
    using I(4) [rule_format, of x] by auto
  then show ?thesis
    using R I(2,3) r(2) rq
    by (intro engine_invI [where K = K and lm = "if q = Inr () then lm(k := None) else lm"]) (simp_all add: heap_env_def)
qed

lemma engine_read_inv:
  assumes inv: "engine_inv env config cap d e m" and fb: "no_false_negatives (ee_fb env)" and p: "engine_read env k e = (r, e')"
  shows "r = Inr (m k) \<and> engine_inv env config cap d e' m"
proof -
  obtain K lm where I: "reach_inv (ee_crc env) (ee_fb env) config cap d (en_index e) (\<lambda>k. map_option tuple_loc_encode (lm k))"
      "heap_ok (disk_env (ee_page_crc env) (ee_crc env)) disk_spec K (en_heap e)" "2 \<le> nframes (en_heap e)"
      "\<forall>k. rel_option (\<lambda>l v. heap_map disk_spec K (hp_cache (en_heap e)) l = Some (Some v)) (lm k) (m k)"
    using inv by (rule engine_invE)
  obtain q L where q: "lsm_get (ee_fb env) k (en_index e) = (q, L)" by force
  have L: "q = Inr (map_option tuple_loc_encode (lm k))" "reach_inv (ee_crc env) (ee_fb env) config cap d L (\<lambda>k. map_option tuple_loc_encode (lm k))"
    using cache_reach_inv(1) [OF I(1) fb q] by simp_all
  show ?thesis
  proof (cases "lm k")
    case None
    then have "m k = None" using I(4) [rule_format, of k] by simp
    then show ?thesis using p q L None I
      by (auto simp: engine_read_def engine_get_def st_bind_def on_index_def heap_env_def intro!: engine_invI [where K = K and lm = lm])
  next
    case (Some l)
    then obtain v where v: "m k = Some v" "heap_map disk_spec K (hp_cache (en_heap e)) l = Some (Some v)"
      using I(4) [rule_format, of k] by (cases "m k") auto
    obtain f h where h: "heap_get (disk_env (ee_page_crc env) (ee_crc env)) l (en_heap e) = (Inr f, h)"
      "tuple_ref_bytes f (slot_id l) h = Inr (case heap_map disk_spec K (hp_cache (en_heap e)) l of Some x \<Rightarrow> x | None \<Rightarrow> None)"
      "heap_ok (disk_env (ee_page_crc env) (ee_crc env)) disk_spec K (drop_ref f h)"
      "heap_map disk_spec K (hp_cache (drop_ref f h)) = heap_map disk_spec K (hp_cache (en_heap e))"
      by (rule disk_pool.heap_get_ok [OF I(2) heap_map_page [OF v(2)]])
    have fr: "2 \<le> nframes (drop_ref f h)" using heap_frames(3) [OF h(1)] I(3) by (simp add: heap_frames(5))
    have "r = Inr (Some v)" "e' = e\<lparr>en_index := L, en_heap := drop_ref f h\<rparr>"
      using p q L(1) Some h(1,2) v(2)
      by (simp_all add: engine_read_def engine_get_def st_bind_def on_index_def on_heap_def heap_env_def decode_loc_def)
    then show ?thesis using L(2) h(3,4) fr I(4) v(1)
      by (auto intro!: engine_invI [where K = K and lm = lm] simp: heap_env_def)
  qed
qed

text \<open>The scan: the invariant of the page it holds, row by row.\<close>

lemma scan_next_row:
  assumes s: "scanning (disk_env (ee_page_crc env) (ee_crc env)) disk_spec K cur (en_heap e)"
    and l: "heap_map disk_spec K (hp_cache (en_heap e)) l = Some (Some v)"
  obtains f h where "scan_next env (Inr (k, tuple_loc_encode l)) cur e = (Inr (k, Some v), Some (page_id l, f), e\<lparr>en_heap := h\<rparr>)"
    "scanning (disk_env (ee_page_crc env) (ee_crc env)) disk_spec K (Some (page_id l, f)) h"
    "heap_map disk_spec K (hp_cache h) = heap_map disk_spec K (hp_cache (en_heap e))"
proof -
  obtain f h where h: "hold_page (disk_env (ee_page_crc env) (ee_crc env)) (page_id l) cur (en_heap e) = (Inr f, Some (page_id l, f), h)"
    "scanning (disk_env (ee_page_crc env) (ee_crc env)) disk_spec K (Some (page_id l, f)) h"
    "tuple_ref_bytes f (slot_id l) h = Inr (case heap_map disk_spec K (hp_cache (en_heap e)) l of Some x \<Rightarrow> x | None \<Rightarrow> None)"
    "heap_map disk_spec K (hp_cache h) = heap_map disk_spec K (hp_cache (en_heap e))"
    by (rule disk_pool.hold_page_ok [OF s heap_map_page [OF l]]) (rule that; assumption)
  show thesis
    by (rule that [OF _ h(2,4)]) (simp add: scan_next_def decode_loc_def heap_env_def h(1,3) l)
qed

lemma scan_rows_ok:
  assumes "scanning (disk_env (ee_page_crc env) (ee_crc env)) disk_spec K cur (en_heap e)"
    and "list_all2 (\<lambda>(k, bs) (k', v). k = k' \<and> (\<exists>l. bs = tuple_loc_encode l \<and> heap_map disk_spec K (hp_cache (en_heap e)) l = Some (Some v))) ps rows"
  shows "\<exists>cur' h. scan_rows env (map Inr ps) cur e = (map (\<lambda>(k, v). Inr (k, Some v)) rows, cur', e\<lparr>en_heap := h\<rparr>) \<and>
    scanning (disk_env (ee_page_crc env) (ee_crc env)) disk_spec K cur' h \<and>
    heap_map disk_spec K (hp_cache h) = heap_map disk_spec K (hp_cache (en_heap e))"
  using assms
proof (induction ps arbitrary: rows cur e)
  case Nil
  then show ?case by (auto intro!: exI [of _ cur] exI [of _ "en_heap e"])
next
  case (Cons p ps)
  obtain k v rows' l where r: "rows = (k, v) # rows'" "p = (k, tuple_loc_encode l)" "heap_map disk_spec K (hp_cache (en_heap e)) l = Some (Some v)"
      "list_all2 (\<lambda>(k, bs) (k', v). k = k' \<and> (\<exists>l. bs = tuple_loc_encode l \<and> heap_map disk_spec K (hp_cache (en_heap e)) l = Some (Some v))) ps rows'"
    using Cons.prems(2) by (auto simp: list_all2_Cons1)
  obtain f h where h: "scan_next env (Inr (k, tuple_loc_encode l)) cur e = (Inr (k, Some v), Some (page_id l, f), e\<lparr>en_heap := h\<rparr>)"
    "scanning (disk_env (ee_page_crc env) (ee_crc env)) disk_spec K (Some (page_id l, f)) h"
    "heap_map disk_spec K (hp_cache h) = heap_map disk_spec K (hp_cache (en_heap e))"
    by (rule scan_next_row [OF Cons.prems(1) r(3)])
  show ?case using Cons.IH [of "Some (page_id l, f)" "e\<lparr>en_heap := h\<rparr>" rows'] h r by auto
qed

text \<open>The rows of a scan, from the entries of the index.\<close>

lemma entries_rows:
  fixes ps :: "(bytes \<times> bytes) list"
  assumes srt: "sorted_wrt (<) (map fst ps)" and ps: "map_of ps = (\<lambda>k. if P k then map_option g (lm k) else None)"
    and rel: "\<And>k. rel_option (\<lambda>l v. H l v) (lm k) (m k)"
  obtains rows where "list_all2 (\<lambda>(k, bs) (k', v). k = k' \<and> (\<exists>l. bs = g l \<and> H l v)) ps rows"
    "map fst rows = map fst ps" "map_of rows = (\<lambda>k. if P k then m k else None)"
proof -
  have dist: "distinct (map fst ps)" using srt by (simp add: strict_sorted_iff)
  define rows where "rows = map (\<lambda>(k, bs). (k, the (m k))) ps"
  have pk: "\<exists>l v. bs = g l \<and> lm k = Some l \<and> m k = Some v \<and> H l v \<and> P k" if "(k, bs) \<in> set ps" for k bs
  proof -
    have "map_of ps k = Some bs" using dist that by simp
    then obtain l where "lm k = Some l" "bs = g l" "P k" unfolding ps by (auto split: if_splits)
    then show ?thesis using rel [of k] by (cases "m k") auto
  qed
  have all: "list_all2 (\<lambda>(k, bs) (k', v). k = k' \<and> (\<exists>l. bs = g l \<and> H l v)) ps rows"
    unfolding rows_def list_all2_map2
  proof (rule list.rel_refl_strong)
    fix p assume "p \<in> set ps"
    moreover obtain k bs where p: "p = (k, bs)" by force
    ultimately obtain l v where "bs = g l" "m k = Some v" "H l v" using pk by blast
    then show "(case p of (k, bs) \<Rightarrow> \<lambda>(k', v). k = k' \<and> (\<exists>l. bs = g l \<and> H l v)) (case p of (k, bs) \<Rightarrow> (k, the (m k)))"
      using p by auto
  qed
  have fsts: "map fst rows = map fst ps" by (simp add: rows_def comp_def case_prod_unfold)
  have "map_of rows k = (if P k then m k else None)" for k
  proof (cases "map_of ps k")
    case (Some bs)
    then have "(k, bs) \<in> set ps" by (rule map_of_SomeD)
    then obtain v where "P k" "m k = Some v" "(k, v) \<in> set rows" using pk by (force simp: rows_def)
    then show ?thesis using dist fsts by simp
  next
    case None
    have "set (map fst rows) = set (map fst ps)" by (simp only: fsts)
    then have "map_of rows k = None" using None by (simp add: map_of_eq_None_iff)
    moreover have "m k = None" if "P k"
    proof -
      have "lm k = None" using None that unfolding ps by simp
      then show ?thesis using rel [of k] by simp
    qed
    ultimately show ?thesis by simp
  qed
  then have "map_of rows = (\<lambda>k. if P k then m k else None)" by (rule ext)
  then show thesis by (rule that [OF all fsts])
qed

lemma engine_scan_inv:
  assumes inv: "engine_inv env config cap d e m" and fb: "no_false_negatives (ee_fb env)" and b: "\<not> inverted lo hi"
  shows "\<exists>rows e'. engine_scan env lo hi e = (Inr (map (\<lambda>(k, v). Inr (k, Some v)) rows), e') \<and> sorted_wrt (<) (map fst rows) \<and>
    map_of rows = (\<lambda>k. if within lo hi k then m k else None) \<and> engine_inv env config cap d e' m"
proof -
  obtain K lm where I: "reach_inv (ee_crc env) (ee_fb env) config cap d (en_index e) (\<lambda>k. map_option tuple_loc_encode (lm k))"
      "heap_ok (disk_env (ee_page_crc env) (ee_crc env)) disk_spec K (en_heap e)" "2 \<le> nframes (en_heap e)"
      "\<forall>k. rel_option (\<lambda>l v. heap_map disk_spec K (hp_cache (en_heap e)) l = Some (Some v)) (lm k) (m k)"
    using inv by (rule engine_invE)
  obtain ps L where ps: "lsm_scan lo hi (en_index e) = Some (map Inr ps, L)" "sorted_wrt (<) (map fst ps)"
      "map_of ps = (\<lambda>k. if within lo hi k then map_option tuple_loc_encode (lm k) else None)"
    using cache_reach_inv(2) [OF I(1) fb b] by blast
  have L: "reach_inv (ee_crc env) (ee_fb env) config cap d L (\<lambda>k. map_option tuple_loc_encode (lm k))"
    using cache_reach_inv(3) [OF I(1) fb b ps(1) [unfolded lsm_scan_def]] .
  obtain rows where r: "list_all2 (\<lambda>(k, bs) (k', v). k = k' \<and> (\<exists>l. bs = tuple_loc_encode l \<and> heap_map disk_spec K (hp_cache (en_heap e)) l = Some (Some v))) ps rows"
      "map fst rows = map fst ps" "map_of rows = (\<lambda>k. if within lo hi k then m k else None)"
    by (rule entries_rows [OF ps(2,3) I(4) [rule_format]])
  have sc: "scanning (disk_env (ee_page_crc env) (ee_crc env)) disk_spec K None (en_heap e)"
    by (rule disk_pool.scanning_start [OF I(2,3)])
  obtain cur h where h: "scan_rows env (map Inr ps) None (e\<lparr>en_index := L\<rparr>) = (map (\<lambda>(k, v). Inr (k, Some v)) rows, cur, e\<lparr>en_index := L, en_heap := h\<rparr>)"
      "scanning (disk_env (ee_page_crc env) (ee_crc env)) disk_spec K cur h"
      "heap_map disk_spec K (hp_cache h) = heap_map disk_spec K (hp_cache (en_heap e))"
    using scan_rows_ok [of env K None "e\<lparr>en_index := L\<rparr>" ps rows] sc r(1) by auto
  note S = disk_pool.scanning_stop [OF h(2)]
  have fr: "2 \<le> nframes (drop_held cur h)" using h(2) S(3) by (simp add: scanning_def)
  have "engine_inv env config cap d \<lparr>en_index = L, en_heap = drop_held cur h\<rparr> m"
    using L S fr I(4) h(3) by (intro engine_invI [where K = K and lm = lm]) (simp_all add: heap_env_def)
  moreover have "engine_scan env lo hi e = (Inr (map (\<lambda>(k, v). Inr (k, Some v)) rows), \<lparr>en_index = L, en_heap = drop_held cur h\<rparr>)"
    using ps(1) h(1) by (simp add: engine_scan_def drain_scan_def)
  moreover have "sorted_wrt (<) (map fst rows)" using ps(2) r(2) by simp
  ultimately show ?thesis using r(3) by blast
qed

text \<open>A flush needs a fresh table number and a table within 32-bit offsets.\<close>

definition flushable :: "engine_env \<Rightarrow> engine \<Rightarrow> bool" where
  "flushable env e \<longleftrightarrow> sst_id (flush_id (en_index e)) < - 1 \<and>
    length (table_file (ee_fb env) (flush_id (en_index e)) (flush_config (l_config (en_index e))) (mem_entries (l_mem (en_index e)))) < 2 ^ 32"

definition unflushed :: "engine \<Rightarrow> bool" where
  "unflushed e \<longleftrightarrow> mem_entries (l_mem (en_index e)) \<noteq> []"

lemma index_flush_inv:
  assumes R: "reach_inv (ee_crc env) (ee_fb env) config cap d (en_index e) im" and f: "flushable env e"
    and l: "lsm_flush (ee_crc env) (ee_fb env) (en_index e) = (r, L)"
  shows "r = Inr () \<and> reach_inv (ee_crc env) (ee_fb env) config cap (d \<or> unflushed e) L im"
proof -
  obtain tabs where inv: "lsm_inv (ee_crc env) (ee_fb env) tabs (en_index e)" "contents tabs (en_index e) = im" "l_config (en_index e) = config"
      "mt_capacity (jm_inner (l_mem (en_index e))) = cap" "d \<longrightarrow> jm_durable (ee_crc env) (l_mem (en_index e))"
    using R by (auto simp: reach_inv_def)
  then show ?thesis
    using lsm_flush_ok [OF inv(1) _ _ l] f by (auto simp: reach_inv_def flushable_def unflushed_def)
qed

lemma heap_open_frames: "heap_open crc jcrc f j n = Inr h \<Longrightarrow> nframes h = n"
proof -
  assume "heap_open crc jcrc f j n = Inr h"
  then obtain v c where c: "pc_with_journal (disk_env crc jcrc) lruk_default v n j = Inr c" "h = heap_new c"
    by (auto simp: heap_open_def res_bind_eq_Inr_iff)
  then obtain jr where jr: "(case recover (disk_env crc jcrc) jr v of (Inl e, _) \<Rightarrow> Inl e
      | (Inr _, v) \<Rightarrow> pc_build v n lruk_default (Some (truncate_log jr))) = Inr c"
    by (auto simp: pc_with_journal_def res_bind_eq_Inr_iff)
  then obtain w jn where "pc_build w n lruk_default jn = Inr c"
    by (cases "recover (disk_env crc jcrc) jr v"; cases "fst (recover (disk_env crc jcrc) jr v)") auto
  then show ?thesis using c(2) by (auto simp: pc_build_def heap_new_def split: if_splits)
qed

text \<open>What the directory holds while the engine runs.\<close>

definition engine_files :: "engine \<Rightarrow> engine_disk" where
  "engine_files e = \<lparr>ed_index = lsm_on_disk (en_index e), ed_tuples = ds_file (pc_block (hp_cache (en_heap e))),
    ed_journal = map_option j_file (pc_journal (hp_cache (en_heap e)))\<rparr>"

lemma engine_flush_inv:
  assumes inv: "engine_inv env config cap d e m" and f: "flushable env e" and p: "engine_flush env e = (r, e')"
  shows "r = Inr () \<and> engine_inv env config cap (d \<or> unflushed e) e' m \<and>
    (d \<or> unflushed e \<longrightarrow> (\<exists>e''. engine_open env config (with_capacity cap) (engine_files e') = Inr e'' \<and> engine_inv env config cap True e'' m))"
proof -
  obtain K lm where I: "reach_inv (ee_crc env) (ee_fb env) config cap d (en_index e) (\<lambda>k. map_option tuple_loc_encode (lm k))"
      "heap_ok (disk_env (ee_page_crc env) (ee_crc env)) disk_spec K (en_heap e)" "2 \<le> nframes (en_heap e)"
      "\<forall>k. rel_option (\<lambda>l v. heap_map disk_spec K (hp_cache (en_heap e)) l = Some (Some v)) (lm k) (m k)"
    using inv by (rule engine_invE)
  let ?e = "disk_env (ee_page_crc env) (ee_crc env)"
  obtain h where h: "heap_flush ?e (en_heap e) = (Inr (), h)" "heap_ok ?e disk_spec K h"
      "heap_map disk_spec K (hp_cache h) = heap_map disk_spec K (hp_cache (en_heap e))"
      "saved ?e disk_spec K (hp_cache (en_heap e)) (pc_block (hp_cache h))"
    by (rule disk_pool.heap_flush_ok [OF I(2)])
  obtain q L where q: "lsm_flush (ee_crc env) (ee_fb env) (en_index e) = (q, L)" by force
  note L = index_flush_inv [OF I(1) f q]
  have r: "r = Inr ()" "e' = e\<lparr>en_heap := h, en_index := L\<rparr>"
    using p h(1) q L by (simp_all add: engine_flush_def st_bind_def on_heap_def on_index_def heap_env_def)
  have fr: "2 \<le> nframes h" using heap_frames(4) [OF h(1)] I(3) by simp
  have "engine_inv env config cap (d \<or> unflushed e) e' m"
    using L h(2,3) fr I(4) r(2) by (intro engine_invI [where K = K and lm = lm]) (simp_all add: heap_env_def)
  moreover have "\<exists>e''. engine_open env config (with_capacity cap) (engine_files e') = Inr e'' \<and> engine_inv env config cap True e'' m"
    if d: "d \<or> unflushed e"
  proof -
    let ?j = "journal_of (ee_crc env) page_op_encode []"
    have dh: "disk_holds ?e disk_spec K (pc_block (hp_cache h)) (heap_map disk_spec K (hp_cache (en_heap e)))"
      by (rule saved_holds [OF h(4) disk_pool.heap_okD(1,2,4) [OF I(2)]])
    have pj: "pc_journal (hp_cache h) = Some ?j" using pool_invD(13) [OF disk_pool.heap_okD(1) [OF h(2)]] by simp
    have j: "block_journal_open (Some (j_file ?j)) = Inr ?j" "truncate_log ?j = ?j" "block_journal_replay (ee_crc env) ?j = Inr []"
      using pj.replay_journal_of [of "[]" "ee_crc env"] by (simp_all add: block_journal_open_def with_codec_reopen block_journal_replay_def)
    obtain h2 where h2: "heap_open (ee_page_crc env) (ee_crc env) (ds_file (pc_block (hp_cache h))) (Some (j_file ?j)) HEAP_FRAMES = Inr h2"
        "heap_ok ?e disk_spec K h2" "heap_map disk_spec K (hp_cache h2) = heap_map disk_spec K (hp_cache (en_heap e))"
      by (rule open_stored [OF h(2) dh j committed.simps(1), of HEAP_FRAMES]) (simp_all add: HEAP_FRAMES_def)
    obtain tabs where lv: "lsm_inv (ee_crc env) (ee_fb env) tabs L" "contents tabs L = (\<lambda>k. map_option tuple_loc_encode (lm k))" "l_config L = config"
        "mt_capacity (jm_inner (l_mem L)) = cap" "jm_durable (ee_crc env) (l_mem L)"
      using L d by (auto simp: reach_inv_def)
    obtain L2 where L2: "lsm_open (ee_crc env) config (with_capacity cap) (lsm_on_disk L) = (Inr L2, lsm_on_disk L2)"
        "reach_inv (ee_crc env) (ee_fb env) config cap True L2 (\<lambda>k. map_option tuple_loc_encode (lm k))"
    proof -
      obtain L' tabs' where L': "lsm_open (ee_crc env) config (with_capacity cap) (lsm_on_disk L) = (Inr L', lsm_on_disk L')"
          "lsm_inv (ee_crc env) (ee_fb env) tabs' L'" "contents tabs' L' = (\<lambda>k. map_option tuple_loc_encode (lm k))" "l_mem L' = l_mem L" "l_config L' = config"
        using reopen_inv [OF lv(1,5)] lv(2-4) by auto
      then have "reach_inv (ee_crc env) (ee_fb env) config cap True L' (\<lambda>k. map_option tuple_loc_encode (lm k))"
        using lv(4,5) unfolding reach_inv_def by auto
      then show thesis using that L'(1) by blast
    qed
    have "engine_open env config (with_capacity cap) (engine_files e') = Inr \<lparr>en_index = L2, en_heap = h2\<rparr>"
      by (simp add: engine_open_def engine_files_def r(2) L2(1) pj h2(1))
    moreover have "engine_inv env config cap True \<lparr>en_index = L2, en_heap = h2\<rparr> m"
      using L2(2) h2(2,3) I(4) heap_open_frames [OF h2(1)]
      by (intro engine_invI [where K = K and lm = lm]) (simp_all add: heap_env_def HEAP_FRAMES_def)
    ultimately show ?thesis by blast
  qed
  ultimately show ?thesis using r(1) by simp
qed

lemma engine_open_fresh:
  assumes lv: "level_numbers config \<noteq> []" and sp: "BLOCK_SIZE \<le> space"
    and o: "engine_open env config (with_capacity cap) \<lparr>ed_index = empty_disk, ed_tuples = \<lparr>of_data = [], of_space = space\<rparr>, ed_journal = None\<rparr> = Inr e"
  shows "engine_inv env config cap True e Map.empty"
proof -
  obtain L dk where L: "lsm_open (ee_crc env) config (with_capacity cap) empty_disk = (Inr L, dk)" "en_index e = L"
    and h: "heap_open (ee_page_crc env) (ee_crc env) \<lparr>of_data = [], of_space = space\<rparr> None HEAP_FRAMES = Inr (en_heap e)"
    using o by (cases "lsm_open (ee_crc env) config (with_capacity cap) empty_disk") (auto simp: engine_open_def)
  obtain h0 where h0: "heap_open (ee_page_crc env) (ee_crc env) \<lparr>of_data = [], of_space = space\<rparr> None HEAP_FRAMES = Inr h0"
      "heap_state (ee_page_crc env) (ee_crc env) h0 Map.empty {Map.empty}"
    by (rule heap_state_open [OF sp, of HEAP_FRAMES]) (simp_all add: HEAP_FRAMES_def)
  obtain K where K: "heap_ok (disk_env (ee_page_crc env) (ee_crc env)) disk_spec K (en_heap e)"
    using h h0 by (auto simp: heap_state_def)
  have "reach_inv (ee_crc env) (ee_fb env) config cap True L (\<lambda>k. map_option tuple_loc_encode None)"
    using fresh_inv [OF lv L(1)] by simp
  then show ?thesis using K heap_open_frames [OF h] L(2)
    by (intro engine_invI [where K = K and lm = Map.empty]) (simp_all add: heap_env_def HEAP_FRAMES_def)
qed

section \<open>The contract of the engine\<close>

locale kv_engine =
  fixes kv :: "'s kv_ops" and inv :: "'s \<Rightarrow> (bytes \<rightharpoonup> bytes) \<Rightarrow> bool" and accepts :: "bytes \<Rightarrow> 's \<Rightarrow> bool"
  assumes put_law: "inv s m \<Longrightarrow> accepts k s \<Longrightarrow> kv_put kv k v s = (r, s') \<Longrightarrow> inv s' (if r = Inr () then m(k \<mapsto> v) else m)"
    and del_law: "inv s m \<Longrightarrow> accepts k s \<Longrightarrow> kv_delete kv k s = (r, s') \<Longrightarrow> inv s' (if r = Inr () then m(k := None) else m)"
    and get_law: "inv s m \<Longrightarrow> kv_get kv k s = (ro, s') \<Longrightarrow> ro = Inr (m k) \<and> inv s' m"
    and scan_law: "inv s m \<Longrightarrow> \<not> inverted lo hi \<Longrightarrow> \<exists>rows s'. kv_scan kv lo hi s = (Inr (map (\<lambda>(k, v). Inr (k, Some v)) rows), s') \<and>
      sorted_wrt (<) (map fst rows) \<and> map_of rows = (\<lambda>k. if within lo hi k then m k else None) \<and> inv s' m"

definition engine_holds :: "engine_env \<Rightarrow> lsm_config \<Rightarrow> nat \<Rightarrow> engine \<Rightarrow> (bytes \<rightharpoonup> bytes) \<Rightarrow> bool" where
  "engine_holds env config cap e m \<longleftrightarrow> no_false_negatives (ee_fb env) \<and> (\<exists>d. engine_inv env config cap d e m)"

definition engine_accepts :: "bytes \<Rightarrow> engine \<Rightarrow> bool" where
  "engine_accepts k e \<longleftrightarrow> writable k e \<and> heap_room e"

interpretation store: kv_engine "engine_kv env" "engine_holds env config cap" engine_accepts for env config cap
proof (unfold_locales, unfold engine_kv_sel)
  fix s s' m k v r assume a: "engine_holds env config cap s m" "engine_accepts k s"
  then obtain d where d: "no_false_negatives (ee_fb env)" "engine_inv env config cap d s m" "writable k s" "heap_room s"
    by (auto simp: engine_holds_def engine_accepts_def)
  show "engine_holds env config cap s' (if r = Inr () then m(k \<mapsto> v) else m)" if "engine_put env k v s = (r, s')"
    using engine_put_inv(1) [OF d(2-4) that] d(1) unfolding engine_holds_def by blast
  show "engine_holds env config cap s' (if r = Inr () then m(k := None) else m)" if "engine_delete env k s = (r, s')"
    using engine_delete_inv [OF d(2,3) that] d(1) unfolding engine_holds_def by blast
next
  fix s s' m k r assume a: "engine_holds env config cap s m" "engine_read env k s = (r, s')"
  then show "r = Inr (m k) \<and> engine_holds env config cap s' m" using engine_read_inv unfolding engine_holds_def by blast
next
  fix s m and lo hi :: "bytes bound" assume a: "engine_holds env config cap s m" "\<not> inverted lo hi"
  then show "\<exists>rows s'. engine_scan env lo hi s = (Inr (map (\<lambda>(k, v). Inr (k, Some v)) rows), s') \<and>
      sorted_wrt (<) (map fst rows) \<and> map_of rows = (\<lambda>k. if within lo hi k then m k else None) \<and> engine_holds env config cap s' m"
    using engine_scan_inv unfolding engine_holds_def by blast
qed

end
