(* ===== verification/Table_Store.thy ===== *)
theory Table_Store
  imports Query_Types Engine_Refinement
begin

text \<open>
  Row keys and the row-level table API: \<^verbatim>\<open>src/crates/strata-db/src/storage/row.rs\<close> and
  \<^verbatim>\<open>storage/table_api.rs\<close>, over the operations of the engine. A table is shown to be a map from
  keys to rows that no other table disturbs.
\<close>

section \<open>Row keys\<close>

definition ID_BYTES :: nat where "ID_BYTES = 16"
definition TRUNC_BYTES :: nat where "TRUNC_BYTES = 8"
definition PREFIX_BYTES :: nat where "PREFIX_BYTES = ID_BYTES * 3 + TRUNC_BYTES"

record row_key =
  rk_project :: uuid
  rk_dataset :: uuid
  rk_table :: uuid
  rk_trunc :: u64
  rk_user :: bytes

datatype encoding_error = InvalidKey nat

definition row_key_encode :: "row_key \<Rightarrow> bytes" where
  "row_key_encode k = rk_project k @ rk_dataset k @ rk_table k @ to_be 8 (rk_trunc k) @ rk_user k"

definition table_prefix :: "uuid \<Rightarrow> uuid \<Rightarrow> uuid \<Rightarrow> u64 \<Rightarrow> bytes" where
  "table_prefix project dataset i trunc = project @ dataset @ i @ to_be 8 trunc"

definition row_key_decode :: "bytes \<Rightarrow> encoding_error + row_key" where
  "row_key_decode bs =
    (if length bs < PREFIX_BYTES then Inl (InvalidKey (length bs))
     else Inr \<lparr>rk_project = take ID_BYTES bs, rk_dataset = take ID_BYTES (drop ID_BYTES bs),
               rk_table = take ID_BYTES (drop (ID_BYTES * 2) bs),
               rk_trunc = from_be (take TRUNC_BYTES (drop (ID_BYTES * 3) bs)), rk_user = drop PREFIX_BYTES bs\<rparr>)"

section \<open>The table API\<close>

definition MAX_TEXT_SIZE :: nat where "MAX_TEXT_SIZE = 8000"

definition check_value_size :: "('j, 'd, 'x) codec_ops_scheme \<Rightarrow> ('j, 'd) sql_value \<Rightarrow> query_error + unit" where
  "check_value_size ops v =
    (case (case v of VText s \<Rightarrow> Some (length s) | VBytes b \<Rightarrow> Some (length b)
             | VArray _ \<Rightarrow> Some (value_encoded_size ops v) | _ \<Rightarrow> None) of
       None \<Rightarrow> Inr ()
     | Some len \<Rightarrow> if len > MAX_TEXT_SIZE then Inl (QUnsupported ''value exceeds the limit'') else Inr ())"

text \<open>\<open>next_after_prefix\<close>: the loop from the last byte to the first.\<close>

fun next_after_rev :: "bytes \<Rightarrow> bytes option" where
  "next_after_rev [] = None"
| "next_after_rev (b # rest) = (if b < 255 then Some (rev ((b + 1) # rest)) else next_after_rev rest)"

definition next_after_prefix :: "bytes \<Rightarrow> bytes option" where
  "next_after_prefix p = next_after_rev (rev p)"

record scan_options =
  so_start :: "bytes bound"
  so_end :: "bytes bound"

definition scan_all :: scan_options where
  "scan_all = \<lparr>so_start = Unbounded, so_end = Unbounded\<rparr>"

definition scan_prefix :: "bytes \<Rightarrow> scan_options \<Rightarrow> scan_options" where
  "scan_prefix p opts =
    (if p = [] then opts
     else opts\<lparr>so_start := Included p,
            so_end := (case next_after_prefix p of Some k \<Rightarrow> Excluded k | None \<Rightarrow> Unbounded)\<rparr>)"

definition tb_prefix :: "table \<Rightarrow> bytes" where
  "tb_prefix t = table_prefix (tb_project t) (tb_dataset t) (tb_id t) (tb_trunc t)"

definition tb_row_key :: "table \<Rightarrow> bytes \<Rightarrow> bytes" where
  "tb_row_key t uk =
    row_key_encode \<lparr>rk_project = tb_project t, rk_dataset = tb_dataset t, rk_table = tb_id t, rk_trunc = tb_trunc t, rk_user = uk\<rparr>"

definition scan_start :: "table \<Rightarrow> bytes bound \<Rightarrow> bytes bound" where
  "scan_start t b =
    (case b of Included k \<Rightarrow> Included (tb_prefix t @ k) | Excluded k \<Rightarrow> Excluded (tb_prefix t @ k)
     | Unbounded \<Rightarrow> Included (tb_prefix t))"

definition scan_end :: "table \<Rightarrow> bytes bound \<Rightarrow> bytes bound" where
  "scan_end t b =
    (case b of Included k \<Rightarrow> Included (tb_prefix t @ k) | Excluded k \<Rightarrow> Excluded (tb_prefix t @ k)
     | Unbounded \<Rightarrow> (case next_after_prefix (tb_prefix t) of Some k \<Rightarrow> Excluded k | None \<Rightarrow> Unbounded))"

definition on_kv :: "('s, storage_error, 'a) op \<Rightarrow> ('s, query_error, 'a) op" where
  "on_kv m s = (let (r, s') = m s in (map_err query_of_storage r, s'))"

definition table_get :: "'s kv_ops \<Rightarrow> ('j, 'd, 'x) codec_ops_scheme \<Rightarrow> table \<Rightarrow> ('j, 'd) sql_value \<Rightarrow> ('s, query_error, ('j, 'd) row option) op" where
  "table_get kv ops t key =
    st_bind (st_res (map_err query_of_key (encode_key ops key))) (\<lambda>uk.
    st_bind (on_kv (kv_get kv (tb_row_key t uk))) (\<lambda>r.
      st_res (case r of None \<Rightarrow> Inr None
        | Some bs \<Rightarrow> res_bind (map_err query_of_decode (schema_decode ops (tb_schema t) bs)) (\<lambda>row. Inr (Some row)))))"

definition table_scan_next :: "('j, 'd, 'x) codec_ops_scheme \<Rightarrow> table \<Rightarrow> storage_error + bytes \<times> bytes option \<Rightarrow> query_error + ('j, 'd) row" where
  "table_scan_next ops t row =
    (case row of
       Inl e \<Rightarrow> Inl (query_of_storage e)
     | Inr (_, Some bs) \<Rightarrow> map_err query_of_decode (schema_decode ops (tb_schema t) bs)
     | Inr (_, None) \<Rightarrow> Inl (QInternal ''scanned a deleted tuple''))"

definition table_scan :: "'s kv_ops \<Rightarrow> ('j, 'd, 'x) codec_ops_scheme \<Rightarrow> table \<Rightarrow> scan_options \<Rightarrow> ('s, query_error, (query_error + ('j, 'd) row) list) op" where
  "table_scan kv ops t opts =
    st_bind (on_kv (kv_scan kv (scan_start t (so_start opts)) (scan_end t (so_end opts)))) (\<lambda>rows.
      st_return (map (table_scan_next ops t) rows))"

definition table_put :: "'s kv_ops \<Rightarrow> ('j, 'd, 'x) codec_ops_scheme \<Rightarrow> table \<Rightarrow> ('j, 'd) row \<Rightarrow> ('s, query_error, unit) op" where
  "table_put kv ops t row =
    (case row of
       [] \<Rightarrow> st_res (Inl (QInternal ''cannot insert empty tuple''))
     | v # _ \<Rightarrow>
         st_bind (st_res (collect_res (map (check_value_size ops) row))) (\<lambda>_.
         st_bind (st_res (map_err query_of_key (encode_key ops v))) (\<lambda>uk.
         st_bind (st_res (or_panic (schema_encode ops (tb_schema t) row))) (\<lambda>value_bytes.
           on_kv (kv_put kv (tb_row_key t uk) value_bytes)))))"

definition table_delete :: "'s kv_ops \<Rightarrow> ('j, 'd, 'x) codec_ops_scheme \<Rightarrow> table \<Rightarrow> ('j, 'd) sql_value \<Rightarrow> ('s, query_error, unit) op" where
  "table_delete kv ops t key =
    st_bind (st_res (map_err query_of_key (encode_key ops key))) (\<lambda>uk.
      on_kv (kv_delete kv (tb_row_key t uk)))"

section \<open>Keys\<close>

lemma row_key_roundtrip:
  assumes "length (rk_project k) = 16" "length (rk_dataset k) = 16" "length (rk_table k) = 16"
  shows "row_key_decode (row_key_encode k) = Inr k"
  using assms by (simp add: row_key_decode_def row_key_encode_def PREFIX_BYTES_def ID_BYTES_def TRUNC_BYTES_def)

lemma tb_row_key_eq [simp]: "tb_row_key t uk = tb_prefix t @ uk"
  by (simp add: tb_row_key_def row_key_encode_def tb_prefix_def table_prefix_def)

text \<open>\<open>next_after_prefix\<close>, from the first byte to the last.\<close>

fun prefix_end :: "bytes \<Rightarrow> bytes option" where
  "prefix_end [] = None"
| "prefix_end (b # p) =
    (case prefix_end p of Some q \<Rightarrow> Some (b # q) | None \<Rightarrow> if b < 255 then Some [b + 1] else None)"

lemma next_after_rev_snoc:
  "next_after_rev (xs @ [b]) = (case next_after_rev xs of Some q \<Rightarrow> Some (b # q) | None \<Rightarrow> if b < 255 then Some [b + 1] else None)"
  by (induction xs) auto

lemma next_after_prefix_eq: "next_after_prefix p = prefix_end p"
  unfolding next_after_prefix_def by (induction p) (auto simp: next_after_rev_snoc split: option.split)

lemma byte_bound: "unat (b :: u8) \<le> 255"
proof -
  have "unat b < 2 ^ LENGTH(8)" by (rule unsigned_less)
  then show ?thesis by simp
qed

lemma byte_succ: "(b :: u8) < 255 \<Longrightarrow> c < b + 1 \<longleftrightarrow> c \<le> b"
  by (simp add: word_less_nat_alt word_le_nat_alt unat_word_ariths less_Suc_eq_le)

lemma byte_top: "\<not> (b :: u8) < 255 \<Longrightarrow> b = 255"
  using byte_bound [of b] by (simp add: word_less_nat_alt word_unat_eq_iff)

lemma byte_max [simp]: "\<not> (255 :: u8) < c"
  using byte_bound [of c] by (simp add: word_less_nat_alt)

lemma prefix_range:
  "p \<le> k \<and> (case prefix_end p of Some q \<Rightarrow> k < q | None \<Rightarrow> True) \<longleftrightarrow> (\<exists>u. k = p @ (u :: bytes))"
proof (induction p arbitrary: k)
  case (Cons b p)
  show ?case
  proof (cases k)
    case (Cons c k')
    note IH = Cons.IH [of k']
    show ?thesis
    proof (cases "prefix_end p")
      case None
      then show ?thesis using IH Cons byte_succ [of b c] byte_top [of b] by (auto simp: not_less)
    next
      case (Some q)
      then show ?thesis using IH Cons by auto
    qed
  qed simp
qed simp

lemma below_prefix_end:
  "k \<le> tb_prefix t @ u \<Longrightarrow> (case prefix_end (tb_prefix t) of Some q \<Rightarrow> k < q | None \<Rightarrow> True)"
  using prefix_range [of "tb_prefix t" "tb_prefix t @ u"] by (auto split: option.splits)

lemma table_within:
  "within (scan_start t lo) (scan_end t hi) k \<longleftrightarrow> (\<exists>uk. k = tb_prefix t @ uk \<and> within lo hi uk)"
proof (cases "\<exists>u. k = tb_prefix t @ u")
  case True
  then obtain u where u: "k = tb_prefix t @ u" by blast
  have "tb_prefix t \<le> tb_prefix t @ u" "case prefix_end (tb_prefix t) of Some q \<Rightarrow> tb_prefix t @ u < q | None \<Rightarrow> True"
    using prefix_range [of "tb_prefix t" "tb_prefix t @ u"] by auto
  then show ?thesis unfolding u
    by (cases lo; cases hi) (auto simp: scan_start_def scan_end_def next_after_prefix_eq split: option.splits)
next
  case False
  have "\<not> within (scan_start t lo) (scan_end t hi) k"
  proof
    assume w: "within (scan_start t lo) (scan_end t hi) k"
    have "tb_prefix t \<le> tb_prefix t @ a" for a using prefix_range [of "tb_prefix t" "tb_prefix t @ a"] by auto
    then have "tb_prefix t \<le> k" using w by (cases lo) (auto simp: scan_start_def intro: order_trans less_imp_le)
    moreover have "case prefix_end (tb_prefix t) of Some q \<Rightarrow> k < q | None \<Rightarrow> True"
    proof (cases hi)
      case (Excluded x)
      then have "k \<le> tb_prefix t @ x" using w by (simp add: scan_end_def less_imp_le)
      then show ?thesis by (rule below_prefix_end)
    next
      case (Included x)
      then have "k \<le> tb_prefix t @ x" using w by (simp add: scan_end_def)
      then show ?thesis by (rule below_prefix_end)
    next
      case Unbounded
      then show ?thesis using w by (simp add: scan_end_def next_after_prefix_eq split: option.splits)
    qed
    ultimately show False using prefix_range [of "tb_prefix t" k] False by blast
  qed
  then show ?thesis using False by blast
qed

lemma table_not_inverted:
  assumes "\<not> inverted lo hi"
  shows "\<not> inverted (scan_start t lo) (scan_end t hi)"
proof -
  have 1: "tb_prefix t @ x < tb_prefix t \<longleftrightarrow> False" for x using prefix_range [of "tb_prefix t" "tb_prefix t @ x"] by auto
  have 2: "tb_prefix t @ x < q" if "prefix_end (tb_prefix t) = Some q" for q x
    using prefix_range [of "tb_prefix t" "tb_prefix t @ x"] that by auto
  have 3: "tb_prefix t < q" if "prefix_end (tb_prefix t) = Some q" for q
    using 2 [OF that, of "[]"] by simp
  have 4: "q < tb_prefix t @ x \<longleftrightarrow> False" "q \<le> tb_prefix t @ x \<longleftrightarrow> False" "q < tb_prefix t \<longleftrightarrow> False"
    if "prefix_end (tb_prefix t) = Some q" for q x
    using 2 [OF that, of x] 3 [OF that] by auto
  show ?thesis using assms
    by (cases lo; cases hi) (simp_all add: scan_start_def scan_end_def next_after_prefix_eq 1 4 split: option.split)
qed

section \<open>Tables as maps\<close>

definition tb_ok :: "table \<Rightarrow> bool" where
  "tb_ok t \<longleftrightarrow> length (tb_project t) = 16 \<and> length (tb_dataset t) = 16 \<and> length (tb_id t) = 16"

lemma length_tb_prefix: "tb_ok t \<Longrightarrow> length (tb_prefix t) = 56"
  by (simp add: tb_ok_def tb_prefix_def table_prefix_def)

lemma tb_prefix_disjoint: "tb_ok t \<Longrightarrow> tb_ok t' \<Longrightarrow> tb_prefix t @ u = tb_prefix t' @ v \<longleftrightarrow> tb_prefix t = tb_prefix t' \<and> u = v"
  by (simp add: length_tb_prefix)

text \<open>A row the writer accepts and the codec gives back.\<close>

definition row_ok :: "('j, 'd, 'x) codec_ops_scheme \<Rightarrow> table \<Rightarrow> ('j, 'd) row \<Rightarrow> bool" where
  "row_ok ops t row \<longleftrightarrow> row_storable ops row \<and> list_all2 (\<lambda>f v. is_null v \<or> has_type v (fd_ty f)) (tb_schema t) row"

definition row_at :: "('j, 'd, 'x) codec_ops_scheme \<Rightarrow> table \<Rightarrow> bytes \<Rightarrow> bytes \<Rightarrow> ('j, 'd) row \<Rightarrow> bool" where
  "row_at ops t uk bs row \<longleftrightarrow> schema_decode ops (tb_schema t) bs = Inr row \<and> row \<noteq> [] \<and> encode_key ops (hd row) = Inr uk"

definition table_holds :: "('j, 'd, 'x) codec_ops_scheme \<Rightarrow> table \<Rightarrow> (bytes \<rightharpoonup> bytes) \<Rightarrow> (bytes \<rightharpoonup> ('j, 'd) row) \<Rightarrow> bool" where
  "table_holds ops t m T \<longleftrightarrow> (\<forall>uk. rel_option (row_at ops t uk) (m (tb_prefix t @ uk)) (T uk))"

lemma table_holds_empty: "table_holds ops t Map.empty Map.empty"
  by (simp add: table_holds_def)

lemma table_holds_put:
  assumes "table_holds ops t m T" "row_at ops t uk bs row"
  shows "table_holds ops t (m(tb_prefix t @ uk \<mapsto> bs)) (T(uk \<mapsto> row))"
  using assms by (auto simp: table_holds_def)

lemma table_holds_delete: "table_holds ops t m T \<Longrightarrow> table_holds ops t (m(tb_prefix t @ uk := None)) (T(uk := None))"
  by (auto simp: table_holds_def)

lemma table_holds_other:
  assumes "table_holds ops t' m T" "tb_ok t" "tb_ok t'" "tb_prefix t \<noteq> tb_prefix t'"
  shows "table_holds ops t' (m(tb_prefix t @ uk := x)) T"
  using assms tb_prefix_disjoint [OF assms(3,2)] by (auto simp: table_holds_def)

lemma schema_roundtrip_row:
  assumes "codecs_roundtrip ops" "row_ok ops t row" "row \<noteq> []" "encode_key ops (hd row) = Inr uk"
  obtains bs where "schema_encode ops (tb_schema t) row = Some bs" "row_at ops t uk bs row"
  using schema_roundtrip [OF assms(1), of "tb_schema t" row] assms(2-4) by (auto simp: row_ok_def row_at_def)

context kv_engine
begin

lemma table_get_law:
  assumes "inv s m" "table_holds ops t m T" "encode_key ops key = Inr uk" "table_get kv ops t key s = (r, s')"
  shows "r = Inr (T uk) \<and> inv s' m"
proof -
  obtain q s1 where q: "kv_get kv (tb_prefix t @ uk) s = (q, s1)" by force
  have "q = Inr (m (tb_prefix t @ uk))" "inv s1 m" using get_law [OF assms(1) q] by simp_all
  moreover have "rel_option (row_at ops t uk) (m (tb_prefix t @ uk)) (T uk)" using assms(2) by (simp add: table_holds_def)
  ultimately show ?thesis using assms(3,4) q
    by (cases "m (tb_prefix t @ uk)"; cases "T uk") (auto simp: table_get_def st_bind_def on_kv_def row_at_def)
qed

lemma table_scan_law:
  assumes "inv s m" "table_holds ops t m T" "\<not> inverted (so_start opts) (so_end opts)"
  obtains uks s' where "table_scan kv ops t opts s = (Inr (map (\<lambda>uk. Inr (the (T uk))) uks), s')" "inv s' m"
    "sorted_wrt (<) uks" "set uks = {uk \<in> dom T. within (so_start opts) (so_end opts) uk}"
proof -
  let ?lo = "scan_start t (so_start opts)" and ?hi = "scan_end t (so_end opts)" and ?P = "tb_prefix t"
  obtain rows s' where r: "kv_scan kv ?lo ?hi s = (Inr (map (\<lambda>(k, v). Inr (k, Some v)) rows), s')"
      "sorted_wrt (<) (map fst rows)" "map_of rows = (\<lambda>k. if within ?lo ?hi k then m k else None)" "inv s' m"
    using scan_law [OF assms(1) table_not_inverted [OF assms(3)]] by blast
  have dist: "distinct (map fst rows)" using r(2) by (simp add: strict_sorted_iff)
  define uks where "uks = map (\<lambda>(k, _). drop (length ?P) k) rows"
  have row: "\<exists>uk. k = ?P @ uk \<and> within (so_start opts) (so_end opts) uk \<and> m k = Some v" if "(k, v) \<in> set rows" for k v
  proof -
    have "map_of rows k = Some v" using that dist by simp
    then have "within ?lo ?hi k" "m k = Some v" unfolding r(3) by (simp_all split: if_splits)
    then show ?thesis unfolding table_within by blast
  qed
  have split: "k = ?P @ drop (length ?P) k" if "(k, v) \<in> set rows" for k v
    using row [OF that] by auto
  have "\<forall>p\<in>set rows. fst p = ?P @ drop (length ?P) (fst p)" using split by (metis prod.collapse)
  then have keys: "map fst rows = map (\<lambda>uk. ?P @ uk) uks"
    by (simp add: uks_def comp_def case_prod_unfold)
  have "sorted_wrt (<) (map (\<lambda>uk. ?P @ uk) uks)" using r(2) by (simp only: keys)
  then have srt: "sorted_wrt (<) uks" by (simp add: sorted_wrt_map)
  have dec: "table_scan_next ops t (Inr (k, Some v)) = Inr (the (T (drop (length ?P) k)))" if kv: "(k, v) \<in> set rows" for k v
  proof -
    obtain uk where uk: "k = ?P @ uk" "m k = Some v" using row [OF kv] by blast
    then have "rel_option (row_at ops t uk) (Some v) (T uk)" using assms(2) [unfolded table_holds_def, rule_format, of uk] by simp
    then show ?thesis using uk by (cases "T uk") (auto simp: table_scan_next_def row_at_def)
  qed
  have "table_scan kv ops t opts s = (Inr (map (\<lambda>uk. Inr (the (T uk))) uks), s')"
    using r(1) dec by (simp add: table_scan_def st_bind_def on_kv_def uks_def comp_def case_prod_unfold)
  moreover have "set uks = {uk \<in> dom T. within (so_start opts) (so_end opts) uk}"
  proof (rule set_eqI)
    fix uk
    have "uk \<in> set uks \<longleftrightarrow> ?P @ uk \<in> set (map fst rows)" unfolding keys by auto
    also have "\<dots> \<longleftrightarrow> map_of rows (?P @ uk) \<noteq> None" by (simp add: map_of_eq_None_iff)
    also have "\<dots> \<longleftrightarrow> within ?lo ?hi (?P @ uk) \<and> m (?P @ uk) \<noteq> None" unfolding r(3) by auto
    also have "\<dots> \<longleftrightarrow> uk \<in> {uk \<in> dom T. within (so_start opts) (so_end opts) uk}"
    proof -
      have "rel_option (row_at ops t uk) (m (?P @ uk)) (T uk)" using assms(2) by (simp add: table_holds_def)
      then have "m (?P @ uk) = None \<longleftrightarrow> T uk = None" by (cases "m (?P @ uk)"; cases "T uk") auto
      then show ?thesis unfolding table_within by auto
    qed
    finally show "uk \<in> set uks \<longleftrightarrow> uk \<in> {uk \<in> dom T. within (so_start opts) (so_end opts) uk}" .
  qed
  ultimately show thesis using that r(4) srt by blast
qed

lemma table_put_law:
  assumes "inv s m" "accepts (tb_prefix t @ uk) s" "codecs_roundtrip ops" "row_ok ops t row" "row \<noteq> []" "encode_key ops (hd row) = Inr uk"
    and p: "table_put kv ops t row s = (r, s')"
  obtains x where "inv s' (if r = Inr () then m(tb_prefix t @ uk \<mapsto> x) else m)" "row_at ops t uk x row"
proof -
  obtain bs where bs: "schema_encode ops (tb_schema t) row = Some bs" "row_at ops t uk bs row"
    by (rule schema_roundtrip_row [OF assms(3-6)])
  obtain v vs where row: "row = v # vs" using assms(5) by (cases row) auto
  show thesis
  proof (cases "collect_res (map (check_value_size ops) row)")
    case (Inl e)
    then show thesis using p that [OF _ bs(2)] assms(1) row by (auto simp: table_put_def st_bind_def)
  next
    case (Inr us)
    obtain q s1 where q: "kv_put kv (tb_prefix t @ uk) bs s = (q, s1)" by force
    have "r = map_err query_of_storage q" "s' = s1"
      using p Inr row bs(1) assms(6) q by (auto simp: table_put_def st_bind_def on_kv_def or_panic_def)
    moreover have "map_err query_of_storage q = Inr () \<longleftrightarrow> q = Inr ()" by (cases q) auto
    ultimately show thesis using that [OF _ bs(2)] put_law [OF assms(1,2) q] by simp
  qed
qed

lemma table_delete_law:
  assumes "inv s m" "accepts (tb_prefix t @ uk) s" "encode_key ops key = Inr uk" and p: "table_delete kv ops t key s = (r, s')"
  shows "inv s' (if r = Inr () then m(tb_prefix t @ uk := None) else m)"
proof -
  obtain q s1 where q: "kv_delete kv (tb_prefix t @ uk) s = (q, s1)" by force
  have "r = map_err query_of_storage q" "s' = s1" using p assms(3) q by (auto simp: table_delete_def st_bind_def on_kv_def)
  moreover have "map_err query_of_storage q = Inr () \<longleftrightarrow> q = Inr ()" by (cases q) auto
  ultimately show ?thesis using del_law [OF assms(1,2) q] by simp
qed

end

end
