(* ===== verification/Engine_Properties.thy ===== *)
theory Engine_Properties
  imports Engine_Refinement
begin

text \<open>
  The states a storage engine reaches, paired with the map its client has built, and the
  property that it refines this map and gets it back when its directory is opened after a
  flush.
\<close>

section \<open>Reachable engines\<close>

text \<open>\<open>d\<close> as in \<open>lsm_reach\<close>: no write was rejected by the memtable since the last flush that
  emptied it.\<close>

inductive engine_reach :: "engine_env \<Rightarrow> lsm_config \<Rightarrow> nat \<Rightarrow> bool \<Rightarrow> engine \<Rightarrow> (bytes \<rightharpoonup> bytes) \<Rightarrow> bool"
  for env config cap where
  fresh: "BLOCK_SIZE \<le> space \<Longrightarrow> engine_open env config (with_capacity cap)
      \<lparr>ed_index = empty_disk, ed_tuples = \<lparr>of_data = [], of_space = space\<rparr>, ed_journal = None\<rparr> = Inr e \<Longrightarrow>
    engine_reach env config cap True e Map.empty"
| put: "engine_reach env config cap d e m \<Longrightarrow> writable k e \<Longrightarrow> heap_room e \<Longrightarrow> engine_put env k v e = (r, e') \<Longrightarrow>
    engine_reach env config cap (d \<and> (r = Inr () \<or> max_tuple < length v)) e' (if r = Inr () then m(k \<mapsto> v) else m)"
| delete: "engine_reach env config cap d e m \<Longrightarrow> writable k e \<Longrightarrow> engine_delete env k e = (r, e') \<Longrightarrow>
    engine_reach env config cap (d \<and> r = Inr ()) e' (if r = Inr () then m(k := None) else m)"
| get: "engine_reach env config cap d e m \<Longrightarrow> engine_read env k e = (q, e') \<Longrightarrow> engine_reach env config cap d e' m"
| scan: "engine_reach env config cap d e m \<Longrightarrow> \<not> inverted lo hi \<Longrightarrow> engine_scan env lo hi e = (rows, e') \<Longrightarrow>
    engine_reach env config cap d e' m"
| flush: "engine_reach env config cap d e m \<Longrightarrow> flushable env e \<Longrightarrow> engine_flush env e = (r, e') \<Longrightarrow>
    engine_reach env config cap (d \<or> unflushed e) e' m"
| reopen: "engine_reach env config cap d e m \<Longrightarrow> flushable env e \<Longrightarrow> d \<or> unflushed e \<Longrightarrow> engine_flush env e = (r, e') \<Longrightarrow>
    engine_open env config (with_capacity cap) (engine_files e') = Inr e'' \<Longrightarrow> engine_reach env config cap True e'' m"

lemma engine_reach_inv:
  assumes lv: "level_numbers config \<noteq> []" and fb: "no_false_negatives (ee_fb env)"
  shows "engine_reach env config cap d e m \<Longrightarrow> engine_inv env config cap d e m"
proof (induction rule: engine_reach.induct)
  case (fresh space e)
  then show ?case by (intro engine_open_fresh [OF lv])
next
  case (put d e m k v r e')
  then show ?case by (intro engine_put_inv(1))
next
  case (delete d e m k r e')
  then show ?case by (intro engine_delete_inv)
next
  case (get d e m k q e')
  then show ?case using engine_read_inv [OF get.IH fb] by blast
next
  case (scan d e m lo hi rows e')
  then show ?case using engine_scan_inv [OF scan.IH fb scan.hyps(2)] by auto
next
  case (flush d e m r e')
  then show ?case using engine_flush_inv [OF flush.IH] by blast
next
  case (reopen d e m r e' e'')
  then show ?case using engine_flush_inv [OF reopen.IH reopen.hyps(2,4)] by auto
qed

section \<open>Properties\<close>

text \<open>C2. The storage engine refines a map from keys to values. In every state reached from an
  empty directory by puts, deletes, lookups, scans, flushes and openings after a flush, with
  at least one level and a filter without false negatives, a lookup returns the value the
  acknowledged operations gave the key; a scan returns exactly the pairs within its bounds,
  each key once and in order, without an error; a value longer than a page can take is refused
  with that length; a flush succeeds, and afterwards the directory opens to an engine whose
  lookups return the same values.\<close>

theorem engine_refines_map:
  assumes "engine_reach env config cap d e m" and "level_numbers config \<noteq> []" and "no_false_negatives (ee_fb env)"
  shows "fst (engine_read env k e) = Inr (m k) \<and>
    (\<not> inverted lo hi \<longrightarrow> (\<exists>rows e'. engine_scan env lo hi e = (Inr (map (\<lambda>(k, v). Inr (k, Some v)) rows), e') \<and>
      sorted_wrt (<) (map fst rows) \<and> map_of rows = (\<lambda>k. if within lo hi k then m k else None))) \<and>
    (writable k e \<and> heap_room e \<and> 8157 < length v \<longrightarrow> fst (engine_put env k v e) = Inl (SBlock (TupleTooLarge (length v) 8157))) \<and>
    (flushable env e \<longrightarrow> (\<exists>e'. engine_flush env e = (Inr (), e') \<and>
      (d \<or> unflushed e \<longrightarrow> (\<exists>e''. engine_open env config (with_capacity cap) (engine_files e') = Inr e'' \<and>
        (\<forall>k. fst (engine_read env k e'') = Inr (m k))))))"
proof -
  note inv = engine_reach_inv [OF assms(2,3,1)]
  have rd: "fst (engine_read env k e) = Inr (m k)" if "engine_inv env config cap d e m" for d e k
    using engine_read_inv [OF that assms(3), of k] by (cases "engine_read env k e") auto
  have sc: "\<exists>rows e'. engine_scan env lo hi e = (Inr (map (\<lambda>(k, v). Inr (k, Some v)) rows), e') \<and>
      sorted_wrt (<) (map fst rows) \<and> map_of rows = (\<lambda>k. if within lo hi k then m k else None)" if "\<not> inverted lo hi"
    using engine_scan_inv [OF inv assms(3) that] by blast
  have big: "fst (engine_put env k v e) = Inl (SBlock (TupleTooLarge (length v) 8157))" if "writable k e" "heap_room e" "8157 < length v"
    using engine_put_inv(2) [OF inv that(1,2), of v] that(3) by (cases "engine_put env k v e") (auto simp: max_tuple_def)
  have fl: "\<exists>e'. engine_flush env e = (Inr (), e') \<and>
      (d \<or> unflushed e \<longrightarrow> (\<exists>e''. engine_open env config (with_capacity cap) (engine_files e') = Inr e'' \<and>
        (\<forall>k. fst (engine_read env k e'') = Inr (m k))))" if "flushable env e"
  proof -
    obtain r e' where "engine_flush env e = (r, e')" by force
    then show ?thesis using engine_flush_inv [OF inv that] rd by fastforce
  qed
  show ?thesis using rd [OF inv] sc big fl by blast
qed

text \<open>A run used as an example: a fresh engine and one put.\<close>

definition sample_env :: engine_env where
  "sample_env = \<lparr>ee_crc = (\<lambda>_. 7), ee_fb = sample_bloom, ee_page_crc = crc_zero\<rparr>"

abbreviation sample_engine_dir :: engine_disk where
  "sample_engine_dir \<equiv> \<lparr>ed_index = empty_disk, ed_tuples = \<lparr>of_data = [], of_space = 1048576\<rparr>, ed_journal = None\<rparr>"

lemma fresh_engine:
  obtains e where "engine_open sample_env sample_config (with_capacity 50) sample_engine_dir = Inr e"
    "engine_reach sample_env sample_config 50 True e Map.empty"
    "\<And>k v. length k < 1000 \<Longrightarrow> length v \<le> 8157 \<Longrightarrow> writable k e \<and> heap_room e \<and> (\<exists>e'. engine_put sample_env k v e = (Inr (), e'))"
proof -
  have n: "BLOCK_SIZE \<le> 1048576" by (simp add: BLOCK_SIZE_def)
  obtain h where h: "heap_open crc_zero (\<lambda>_. 7) \<lparr>of_data = [], of_space = 1048576\<rparr> None HEAP_FRAMES = Inr h"
    "heap_state crc_zero (\<lambda>_. 7) h Map.empty {Map.empty}" "ds_free (pc_block (hp_cache h)) = []"
    "file_limit (ds_file (pc_block (hp_cache h))) = 1048576" "ds_next (pc_block (hp_cache h)) = 1"
    by (rule heap_state_open [OF n, of HEAP_FRAMES]) (simp_all add: HEAP_FRAMES_def)
  have room: "disk_room (pc_block (hp_cache h))" using h(3-5) by (simp add: disk_room_def disk_fits_def chunk_end_def BLOCK_SIZE_def)
  have "\<not> isl (fst sample_open)" by code_simp
  then have L: "fst sample_open = Inr sample0" by (cases "fst sample_open") (auto simp: sample0_def)
  define e where "e = \<lparr>en_index = sample0, en_heap = h\<rparr>"
  have o: "engine_open sample_env sample_config (with_capacity 50) sample_engine_dir = Inr e"
    using L h(1) by (simp add: engine_open_def sample_env_def e_def)
  have s0: "l_seq sample0 < - 1" "mt_store (jm_inner (l_mem sample0)) = []" by code_simp+
  obtain K where K: "heap_ok (disk_env crc_zero (\<lambda>_. 7)) disk_spec K h" using h(2) by (auto simp: heap_state_def)
  have "writable k e \<and> heap_room e \<and> (\<exists>e'. engine_put sample_env k v e = (Inr (), e'))" if "length k < 1000" "length v \<le> 8157" for k v
  proof -
    have ps: "ps_room disk_spec (pc_block (hp_cache h))" using room by simp
    have lv: "(length v \<le> max_tuple) = True" using that(2) by (simp add: max_tuple_def)
    obtain l h' where i: "heap_insert (disk_env crc_zero (\<lambda>_. 7)) v h = (Inr l, h')"
      by (rule disk_pool.heap_insert_ok [OF K ps, of v]) (unfold lv if_True, blast)
    then have "\<exists>e'. engine_put sample_env k v e = (Inr (), e')"
      using s0(2) by (simp add: engine_put_def st_bind_def on_heap_def on_index_def heap_env_def sample_env_def e_def
          lsm_put_def lsm_write_def jm_put_def mem_put_def Let_def)
    then show ?thesis using s0(1) room that(1) by (simp add: writable_def heap_room_def e_def)
  qed
  then show thesis using that o engine_reach.fresh [OF n o] by blast
qed

lemma sample_engine:
  obtains e e' where "engine_open sample_env sample_config (with_capacity 50) sample_engine_dir = Inr e"
    "engine_put sample_env [1] [7] e = (Inr (), e')" "engine_reach sample_env sample_config 50 True e' [[1] \<mapsto> [7]]"
proof -
  obtain e where e: "engine_open sample_env sample_config (with_capacity 50) sample_engine_dir = Inr e"
    "engine_reach sample_env sample_config 50 True e Map.empty"
    "\<And>k v. length k < 1000 \<Longrightarrow> length v \<le> 8157 \<Longrightarrow> writable k e \<and> heap_room e \<and> (\<exists>e'. engine_put sample_env k v e = (Inr (), e'))"
    by (rule fresh_engine) blast
  obtain e' where p: "writable [1] e" "heap_room e" "engine_put sample_env [1] [7] e = (Inr (), e')"
    using e(3) [of "[1]" "[7]"] by auto
  show thesis using that [OF e(1) p(3)] engine_reach.put [OF e(2) p] by simp
qed

theorem engine_refines_map_witness:
  "\<exists>e e'. engine_open sample_env sample_config (with_capacity 50) sample_engine_dir = Inr e \<and>
    engine_put sample_env [1] [7] e = (Inr (), e') \<and> fst (engine_read sample_env [1] e') = Inr (Some [7]) \<and>
    (\<exists>rows e''. engine_scan sample_env Unbounded Unbounded e' = (Inr (map (\<lambda>(k, v). Inr (k, Some v)) rows), e'') \<and>
      sorted_wrt (<) (map fst rows) \<and> map_of rows = [[1] \<mapsto> [7]])"
proof -
  obtain e e' where e: "engine_open sample_env sample_config (with_capacity 50) sample_engine_dir = Inr e"
    "engine_put sample_env [1] [7] e = (Inr (), e')" "engine_reach sample_env sample_config 50 True e' [[1] \<mapsto> [7]]"
    by (rule sample_engine)
  have fb: "no_false_negatives (ee_fb sample_env)" by (simp add: sample_env_def sample_bloom_ok)
  have ni: "\<not> inverted (Unbounded :: bytes bound) Unbounded" by code_simp
  have w: "(\<lambda>k. if within Unbounded Unbounded k then ([[1] \<mapsto> [7]] :: bytes \<rightharpoonup> bytes) k else None) = [[1] \<mapsto> [7]]" by (simp add: fun_eq_iff)
  note R = engine_refines_map [OF e(3) sample_levels fb, of "[1]" Unbounded Unbounded "[]"]
  obtain rows e'' where "engine_scan sample_env Unbounded Unbounded e' = (Inr (map (\<lambda>(k, v). Inr (k, Some v)) rows), e'')"
      "sorted_wrt (<) (map fst rows)" "map_of rows = [[1] \<mapsto> [7]]"
    using R [THEN conjunct2, THEN conjunct1] ni unfolding w by blast
  moreover have "fst (engine_read sample_env [1] e') = Inr (Some [7])" using R by simp
  ultimately show ?thesis using e(1,2) by blast
qed

end
