(* ===== verification/Key_Order.thy ===== *)
theory Key_Order
  imports Key_Codec
begin

text \<open>Key encodings order as the values do: integers and floats by flipping sign bits,
  decimals by sign, exponent and digits.\<close>

section \<open>Decimals\<close>

lemma cross_scale:
  fixes a b :: int
  assumes "a' * s = a * s'" "b' * t = b * t'" "0 < s" "0 < t" "0 < s'" "0 < t'"
  shows "a * t < b * s \<longleftrightarrow> a' * t' < b' * s'" "a * t = b * s \<longleftrightarrow> a' * t' = b' * s'"
proof -
  have l: "a * t * (s' * t') = a' * t' * (s * t)" "b * s * (s' * t') = b' * s' * (s * t)"
    using assms(1,2) by (simp_all only: mult_ac) (metis mult.assoc mult.commute)+
  have p: "0 < s' * t'" "0 < s * t" using assms(3-6) by simp_all
  show "a * t < b * s \<longleftrightarrow> a' * t' < b' * s'" using l p by (metis mult_less_cancel_right_pos)
  show "a * t = b * s \<longleftrightarrow> a' * t' = b' * s'" using l p by (metis mult_cancel_right less_irrefl)
qed

lemma normalized:
  assumes "decimal_laws ops"
  shows "dec_less ops d e \<longleftrightarrow> dec_mantissa ops (dec_normalize ops d) * 10 ^ dec_scale ops (dec_normalize ops e)
      < dec_mantissa ops (dec_normalize ops e) * 10 ^ dec_scale ops (dec_normalize ops d)"
    and "dec_equal ops d e \<longleftrightarrow> dec_mantissa ops (dec_normalize ops d) * 10 ^ dec_scale ops (dec_normalize ops e)
      = dec_mantissa ops (dec_normalize ops e) * 10 ^ dec_scale ops (dec_normalize ops d)"
proof -
  have v: "dec_mantissa ops (dec_normalize ops d) * 10 ^ dec_scale ops d = dec_mantissa ops d * 10 ^ dec_scale ops (dec_normalize ops d)" for d
    using assms by (auto simp: decimal_laws_def Let_def)
  show "dec_less ops d e \<longleftrightarrow> dec_mantissa ops (dec_normalize ops d) * 10 ^ dec_scale ops (dec_normalize ops e)
      < dec_mantissa ops (dec_normalize ops e) * 10 ^ dec_scale ops (dec_normalize ops d)"
    unfolding dec_less_def by (rule cross_scale(1) [OF v v]) simp_all
  show "dec_equal ops d e \<longleftrightarrow> dec_mantissa ops (dec_normalize ops d) * 10 ^ dec_scale ops (dec_normalize ops e)
      = dec_mantissa ops (dec_normalize ops e) * 10 ^ dec_scale ops (dec_normalize ops d)"
    unfolding dec_equal_def by (rule cross_scale(2) [OF v v]) simp_all
qed

text \<open>A normalized decimal in one of the three sign buckets.\<close>

lemma decimal_key_bucket:
  fixes ops :: "('j, 'd, 'x) codec_ops_scheme"
  assumes "decimal_laws ops"
  defines "m \<equiv> \<lambda>d :: 'd. dec_mantissa ops (dec_normalize ops d)" and "s \<equiv> \<lambda>d :: 'd. dec_scale ops (dec_normalize ops d)"
  shows "m d < 0 \<Longrightarrow> decimal_key ops d = DEC_NEG # map not (decimal_payload (- m d) (s d)) \<and> normal_pos (- m d) (s d)"
    and "m d = 0 \<Longrightarrow> decimal_key ops d = [DEC_ZERO]"
    and "0 < m d \<Longrightarrow> decimal_key ops d = DEC_POS # decimal_payload (m d) (s d) \<and> normal_pos (m d) (s d)"
proof -
  have L: "dec_is_zero ops (dec_normalize ops d) \<longleftrightarrow> m d = 0" "dec_is_sign_negative ops (dec_normalize ops d) \<longleftrightarrow> m d < 0"
      "s d = 0 \<or> m d mod 10 \<noteq> 0" "dec_mantissa ops (dec_abs ops (dec_normalize ops d)) = \<bar>m d\<bar>"
      "dec_scale ops (dec_abs ops (dec_normalize ops d)) = s d" "s d \<le> 28" "\<bar>m d\<bar> < 2 ^ 96"
    using assms(1) by (auto simp: decimal_laws_def Let_def m_def s_def)
  have "s d = 0 \<or> - m d mod 10 \<noteq> 0" using L(3) by presburger
  then show "m d < 0 \<Longrightarrow> decimal_key ops d = DEC_NEG # map not (decimal_payload (- m d) (s d)) \<and> normal_pos (- m d) (s d)"
      "m d = 0 \<Longrightarrow> decimal_key ops d = [DEC_ZERO]"
      "0 < m d \<Longrightarrow> decimal_key ops d = DEC_POS # decimal_payload (m d) (s d) \<and> normal_pos (m d) (s d)"
    using L by (simp_all add: decimal_key_def Let_def normal_pos_def)
qed

lemma payload_complement:
  assumes "normal_pos m s" "normal_pos m' s'"
  shows "map not (decimal_payload m s) < map not (decimal_payload m' s') \<longleftrightarrow> decimal_payload m' s' < decimal_payload m s"
    and "map not (decimal_payload m s) = map not (decimal_payload m' s') \<longleftrightarrow> decimal_payload m s = decimal_payload m' s'"
proof -
  have p: "0 < m" "0 < m'" using assms by (simp_all add: normal_pos_def)
  have i: "NOT x = NOT y \<longleftrightarrow> x = y" for x y :: u8 by (metis bit.double_compl)
  show "map not (decimal_payload m s) < map not (decimal_payload m' s') \<longleftrightarrow> decimal_payload m' s' < decimal_payload m s"
    unfolding decimal_payload_eq [OF p(1)] decimal_payload_eq [OF p(2)]
    using complement_less [OF cent_bytes(3) [OF p] cent_bytes(3) [OF p(2,1)]] by (auto simp: not_less_not i)
  show "map not (decimal_payload m s) = map not (decimal_payload m' s') \<longleftrightarrow> decimal_payload m s = decimal_payload m' s'"
    by (rule inj_map_eq_map) (simp add: inj_def i)
qed

lemma decimal_key_order:
  assumes "decimal_laws ops"
  shows "decimal_key ops d < decimal_key ops e \<longleftrightarrow> dec_less ops d e"
    and "decimal_key ops d = decimal_key ops e \<longleftrightarrow> dec_equal ops d e"
proof -
  let ?m = "\<lambda>d. dec_mantissa ops (dec_normalize ops d)" and ?s = "\<lambda>d. dec_scale ops (dec_normalize ops d)"
  note B = decimal_key_bucket [OF assms] and N = normalized [OF assms]
  have neg: "x * 10 ^ k < 0 \<longleftrightarrow> x < 0" "0 < x * 10 ^ k \<longleftrightarrow> 0 < x" for x :: int and k by (simp_all add: mult_less_0_iff zero_less_mult_iff)
  consider "?m d < 0" | "?m d = 0" | "0 < ?m d" by linarith
  then have "(decimal_key ops d < decimal_key ops e \<longleftrightarrow> dec_less ops d e) \<and> (decimal_key ops d = decimal_key ops e \<longleftrightarrow> dec_equal ops d e)"
  proof cases
    case 1
    consider "?m e < 0" | "?m e = 0" | "0 < ?m e" by linarith
    then show ?thesis
    proof cases
      case 1
      then show ?thesis
        using B(1) [OF \<open>?m d < 0\<close>] B(1) [OF 1] payload_complement [of "- ?m d" "?s d" "- ?m e" "?s e"]
          payload_order [of "- ?m d" "?s d" "- ?m e" "?s e"] payload_order [of "- ?m e" "?s e" "- ?m d" "?s d"]
        by (simp add: N)
    next
      case 2
      then show ?thesis using B(1) [OF \<open>?m d < 0\<close>] B(2) [OF 2] \<open>?m d < 0\<close> by (simp add: N DEC_NEG_def DEC_ZERO_def neg)
    next
      case 3
      then have "?m d * 10 ^ ?s e < 0" "0 < ?m e * 10 ^ ?s d" using \<open>?m d < 0\<close> by (simp_all only: neg)
      then have "?m d * 10 ^ ?s e < ?m e * 10 ^ ?s d" by linarith
      then show ?thesis using B(1) [OF \<open>?m d < 0\<close>] B(3) [OF 3] by (simp add: N DEC_NEG_def DEC_POS_def)
    qed
  next
    case 2
    consider "?m e < 0" | "?m e = 0" | "0 < ?m e" by linarith
    then show ?thesis
      using 2 B [of d] B [of e] by cases (auto simp: N DEC_NEG_def DEC_POS_def DEC_ZERO_def neg)
  next
    case 3
    consider "?m e < 0" | "?m e = 0" | "0 < ?m e" by linarith
    then show ?thesis
    proof cases
      case 1
      then have "0 < ?m d * 10 ^ ?s e" "?m e * 10 ^ ?s d < 0" using \<open>0 < ?m d\<close> by (simp_all only: neg)
      then have "?m e * 10 ^ ?s d < ?m d * 10 ^ ?s e" by linarith
      then show ?thesis using B(3) [OF \<open>0 < ?m d\<close>] B(1) [OF 1] by (simp add: N DEC_NEG_def DEC_POS_def)
    next
      case 2
      then show ?thesis using B(3) [OF \<open>0 < ?m d\<close>] B(2) [OF 2] \<open>0 < ?m d\<close> by (simp add: N DEC_POS_def DEC_ZERO_def neg)
    next
      case 3
      then show ?thesis
        using B(3) [OF \<open>0 < ?m d\<close>] B(3) [OF 3] payload_order [of "?m d" "?s d" "?m e" "?s e"] by (simp add: N)
    qed
  qed
  then show "decimal_key ops d < decimal_key ops e \<longleftrightarrow> dec_less ops d e" "decimal_key ops d = decimal_key ops e \<longleftrightarrow> dec_equal ops d e"
    by simp_all
qed

end
