(* ===== verification/Codec_Properties.thy ===== *)
theory Codec_Properties
  imports Key_Order
begin

text \<open>
  The two codecs of a value: the row codec reads back what it wrote, and the key codec turns
  the SQL order of a column into the order of byte strings.
\<close>

section \<open>The order of a column\<close>

definition key_less :: "('j, 'd, 'x) codec_ops_scheme \<Rightarrow> ('j, 'd) sql_value \<Rightarrow> ('j, 'd) sql_value \<Rightarrow> bool" where
  "key_less ops a b \<longleftrightarrow>
    (case a of
       VBool x \<Rightarrow> (case b of VBool y \<Rightarrow> \<not> x \<and> y | _ \<Rightarrow> False)
     | VInt16 x \<Rightarrow> (case b of VInt16 y \<Rightarrow> sint x < sint y | _ \<Rightarrow> False)
     | VInt32 x \<Rightarrow> (case b of VInt32 y \<Rightarrow> sint x < sint y | _ \<Rightarrow> False)
     | VInt64 x \<Rightarrow> (case b of VInt64 y \<Rightarrow> sint x < sint y | _ \<Rightarrow> False)
     | VText x \<Rightarrow> (case b of VText y \<Rightarrow> x < y | _ \<Rightarrow> False)
     | VBytes x \<Rightarrow> (case b of VBytes y \<Rightarrow> x < y | _ \<Rightarrow> False)
     | VDate x \<Rightarrow> (case b of VDate y \<Rightarrow> sint x < sint y | _ \<Rightarrow> False)
     | VTimestamp x \<Rightarrow> (case b of VTimestamp y \<Rightarrow> sint x < sint y | _ \<Rightarrow> False)
     | VFloat32 x \<Rightarrow> (case b of VFloat32 y \<Rightarrow> float_less x y | _ \<Rightarrow> False)
     | VFloat64 x \<Rightarrow> (case b of VFloat64 y \<Rightarrow> float_less x y | _ \<Rightarrow> False)
     | VNumeric x \<Rightarrow> (case b of VNumeric y \<Rightarrow> dec_less ops x y | _ \<Rightarrow> False)
     | VTime x \<Rightarrow> (case b of VTime y \<Rightarrow> sint x < sint y | _ \<Rightarrow> False)
     | VUuid x \<Rightarrow> (case b of VUuid y \<Rightarrow> x < y | _ \<Rightarrow> False)
     | VInterval x \<Rightarrow> (case b of VInterval y \<Rightarrow> to_micros x < to_micros y | _ \<Rightarrow> False)
     | _ \<Rightarrow> False)"

text \<open>Equal keys: equal values, up to the trailing zeros of a decimal and the units of an
  interval.\<close>

definition key_equal :: "('j, 'd, 'x) codec_ops_scheme \<Rightarrow> ('j, 'd) sql_value \<Rightarrow> ('j, 'd) sql_value \<Rightarrow> bool" where
  "key_equal ops a b \<longleftrightarrow>
    (case a of
       VNumeric x \<Rightarrow> (case b of VNumeric y \<Rightarrow> dec_equal ops x y | _ \<Rightarrow> False)
     | VInterval x \<Rightarrow> (case b of VInterval y \<Rightarrow> to_micros x = to_micros y | _ \<Rightarrow> False)
     | _ \<Rightarrow> a = b)"

fun ordered_type :: "logical_type \<Rightarrow> bool" where
  "ordered_type TJson \<longleftrightarrow> False"
| "ordered_type (TArray _) \<longleftrightarrow> False"
| "ordered_type _ \<longleftrightarrow> True"

lemma has_type_iff:
  "has_type v TBool \<longleftrightarrow> (\<exists>x. v = VBool x)"
  "has_type v TInt16 \<longleftrightarrow> (\<exists>x. v = VInt16 x)"
  "has_type v TInt32 \<longleftrightarrow> (\<exists>x. v = VInt32 x)"
  "has_type v TInt64 \<longleftrightarrow> (\<exists>x. v = VInt64 x)"
  "has_type v TText \<longleftrightarrow> (\<exists>x. v = VText x \<and> utf8_valid x)"
  "has_type v TBytes \<longleftrightarrow> (\<exists>x. v = VBytes x)"
  "has_type v TJson \<longleftrightarrow> (\<exists>x. v = VJson x)"
  "has_type v TDate \<longleftrightarrow> (\<exists>x. v = VDate x)"
  "has_type v TTimestamp \<longleftrightarrow> (\<exists>x. v = VTimestamp x)"
  "has_type v TFloat32 \<longleftrightarrow> (\<exists>x. v = VFloat32 x)"
  "has_type v TFloat64 \<longleftrightarrow> (\<exists>x. v = VFloat64 x)"
  "has_type v TNumeric \<longleftrightarrow> (\<exists>x. v = VNumeric x)"
  "has_type v TTime \<longleftrightarrow> (\<exists>x. v = VTime x)"
  "has_type v TUuid \<longleftrightarrow> (\<exists>x. v = VUuid x \<and> length x = 16)"
  "has_type v TInterval \<longleftrightarrow> (\<exists>x. v = VInterval x)"
  by (cases v; simp)+

lemma int_key_order:
  "int16_key a < int16_key b \<longleftrightarrow> sint a < sint b" "int16_key a = int16_key b \<longleftrightarrow> a = b"
  "int32_key c < int32_key d \<longleftrightarrow> sint c < sint d" "int32_key c = int32_key d \<longleftrightarrow> c = d"
  "int64_key e < int64_key f \<longleftrightarrow> sint e < sint f" "int64_key e = int64_key f \<longleftrightarrow> e = f"
  using signed_key_less [of 2 a b] signed_key_eq [of 2 a b] signed_key_less [of 4 c d] signed_key_eq [of 4 c d]
    signed_key_less [of 8 e f] signed_key_eq [of 8 e f]
  by (simp_all add: int16_key_def int32_key_def int64_key_def)

lemma float_key_order:
  "float32_key a < float32_key b \<longleftrightarrow> float_less a b" "float32_key a = float32_key b \<longleftrightarrow> a = b"
  "float64_key c < float64_key d \<longleftrightarrow> float_less c d" "float64_key c = float64_key d \<longleftrightarrow> c = d"
  using signed_key_less [of 4 "total_key a" "total_key b"] signed_key_eq [of 4 "total_key a" "total_key b"]
    signed_key_less [of 8 "total_key c" "total_key d"] signed_key_eq [of 8 "total_key c" "total_key d"]
    total_key_mask [of a] total_key_mask [of b] total_key_mask [of c] total_key_mask [of d]
  by (simp_all add: float32_key_def float64_key_def float_less_def total_key_inject)

lemma to_micros_range: "\<bar>to_micros i\<bar> < 2 ^ 127"
proof -
  have m: "- (2 ^ 31) \<le> sint (iv_months i)" "sint (iv_months i) < 2 ^ 31" "- (2 ^ 31) \<le> sint (iv_days i)" "sint (iv_days i) < 2 ^ 31"
      "- (2 ^ 63) \<le> sint (iv_micros i)" "sint (iv_micros i) < 2 ^ 63"
    using sint_ge [of "iv_months i"] sint_ge [of "iv_days i"] sint_ge [of "iv_micros i"]
      sint_less [of "iv_months i"] sint_less [of "iv_days i"] sint_less [of "iv_micros i"] by simp_all
  then show ?thesis unfolding to_micros_def by (simp add: abs_less_iff)
qed

lemma interval_key_order:
  "interval_key a < interval_key b \<longleftrightarrow> to_micros a < to_micros b" "interval_key a = interval_key b \<longleftrightarrow> to_micros a = to_micros b"
proof -
  have s: "sint (word_of_int (to_micros i) :: 128 word) = to_micros i" for i
    using to_micros_range [of i] by (simp add: sint_sbintrunc' signed_take_bit_int_eq_self_iff abs_less_iff)
  show "interval_key a < interval_key b \<longleftrightarrow> to_micros a < to_micros b"
    using signed_key_less [of 16 "word_of_int (to_micros a) :: 128 word" "word_of_int (to_micros b)"] by (simp add: interval_key_def s)
  have "word_of_int (to_micros a) = (word_of_int (to_micros b) :: 128 word) \<longleftrightarrow> to_micros a = to_micros b"
    using s by metis
  then show "interval_key a = interval_key b \<longleftrightarrow> to_micros a = to_micros b"
    using signed_key_eq [of 16 "word_of_int (to_micros a) :: 128 word" "word_of_int (to_micros b)"] by (simp add: interval_key_def)
qed

lemma encode_key_ordered:
  assumes "has_type a ty" and "has_type b ty" and "ordered_type ty" and "decimal_laws ops"
  shows "\<exists>ka kb. encode_key ops a = Inr ka \<and> encode_key ops b = Inr kb \<and>
    (ka < kb \<longleftrightarrow> key_less ops a b) \<and> (ka = kb \<longleftrightarrow> key_equal ops a b)"
  using assms(1-3) decimal_key_order [OF assms(4)]
  by (cases ty) (auto simp: has_type_iff key_less_def key_equal_def int_key_order float_key_order interval_key_order bool_key_def)

section \<open>Properties\<close>


text \<open>A sample instance: JSON with two values, decimals without a fraction.\<close>

definition sample_ops :: "(bool, bool \<times> u8) codec_ops" where
  "sample_ops = \<lparr>json_to_vec = (\<lambda>j. [if j then 116 else 102]), json_from_slice = (\<lambda>b. Some (b = [116])),
    dec_serialize = (\<lambda>(neg, n). replicate 14 0 @ [if neg then 1 else 0, n]), dec_deserialize = (\<lambda>b. (b ! 14 = 1, b ! 15)),
    dec_normalize = (\<lambda>(neg, n). (neg \<and> n \<noteq> 0, n)), dec_is_zero = (\<lambda>(_, n). n = 0), dec_is_sign_negative = fst,
    dec_abs = (\<lambda>(_, n). (False, n)), dec_mantissa = (\<lambda>(neg, n). if neg then - uint n else uint n), dec_scale = (\<lambda>_. 0)\<rparr>"

lemma sample_decimals: "decimal_laws sample_ops"
proof -
  have "uint n < 2 ^ 8" for n :: u8 using uint_lt2p [of n] by simp
  then have "uint n < 2 ^ 96" for n :: u8 by (rule less_le_trans) simp
  moreover have "n \<noteq> 0 \<longleftrightarrow> 0 < uint n" for n :: u8 by (simp add: word_neq_0_conv word_less_def)
  ultimately show ?thesis by (auto simp: decimal_laws_def sample_ops_def Let_def uint_0_iff)
qed


lemma sample_roundtrip: "codecs_roundtrip sample_ops"
  by (auto simp: codecs_roundtrip_def sample_ops_def nth_append)



end
