(* ===== verification/Table_Properties.thy ===== *)
theory Table_Properties
  imports Table_Store Engine_Properties Codec_Properties
begin

text \<open>
  The tables of a database over their whole life: every table is a map from keys to rows, in
  the states reached through the table API on one storage engine.
\<close>

section \<open>Reachable tables\<close>

text \<open>\<open>S\<close> are the tables of the database, one per incarnation: no two share a key prefix. \<open>T t\<close> is
  the map the acknowledged operations on \<open>t\<close> built.\<close>

inductive tables_reach ::
  "engine_env \<Rightarrow> lsm_config \<Rightarrow> nat \<Rightarrow> ('j, 'd, 'x) codec_ops_scheme \<Rightarrow> table set \<Rightarrow> engine \<Rightarrow> (table \<Rightarrow> bytes \<rightharpoonup> ('j, 'd) row) \<Rightarrow> bool"
  for env config cap ops S where
  fresh: "BLOCK_SIZE \<le> space \<Longrightarrow> engine_open env config (with_capacity cap)
      \<lparr>ed_index = empty_disk, ed_tuples = \<lparr>of_data = [], of_space = space\<rparr>, ed_journal = None\<rparr> = Inr e \<Longrightarrow>
    tables_reach env config cap ops S e (\<lambda>_. Map.empty)"
| put: "tables_reach env config cap ops S e T \<Longrightarrow> t \<in> S \<Longrightarrow> row_ok ops t row \<Longrightarrow> row \<noteq> [] \<Longrightarrow> encode_key ops (hd row) = Inr uk \<Longrightarrow>
    engine_accepts (tb_row_key t uk) e \<Longrightarrow> table_put (engine_kv env) ops t row e = (r, e') \<Longrightarrow>
    tables_reach env config cap ops S e' (if r = Inr () then T(t := (T t)(uk \<mapsto> row)) else T)"
| delete: "tables_reach env config cap ops S e T \<Longrightarrow> t \<in> S \<Longrightarrow> encode_key ops key = Inr uk \<Longrightarrow>
    engine_accepts (tb_row_key t uk) e \<Longrightarrow> table_delete (engine_kv env) ops t key e = (r, e') \<Longrightarrow>
    tables_reach env config cap ops S e' (if r = Inr () then T(t := (T t)(uk := None)) else T)"
| get: "tables_reach env config cap ops S e T \<Longrightarrow> t \<in> S \<Longrightarrow> encode_key ops key = Inr uk \<Longrightarrow>
    table_get (engine_kv env) ops t key e = (q, e') \<Longrightarrow> tables_reach env config cap ops S e' T"
| scan: "tables_reach env config cap ops S e T \<Longrightarrow> t \<in> S \<Longrightarrow> \<not> inverted (so_start opts) (so_end opts) \<Longrightarrow>
    table_scan (engine_kv env) ops t opts e = (rows, e') \<Longrightarrow> tables_reach env config cap ops S e' T"
| flush: "tables_reach env config cap ops S e T \<Longrightarrow> flushable env e \<Longrightarrow> engine_flush env e = (r, e') \<Longrightarrow>
    tables_reach env config cap ops S e' T"

definition tables_hold ::
  "engine_env \<Rightarrow> lsm_config \<Rightarrow> nat \<Rightarrow> ('j, 'd, 'x) codec_ops_scheme \<Rightarrow> table set \<Rightarrow> engine \<Rightarrow> (table \<Rightarrow> bytes \<rightharpoonup> ('j, 'd) row) \<Rightarrow> bool" where
  "tables_hold env config cap ops S e T \<longleftrightarrow>
    (\<exists>m. engine_holds env config cap e m \<and> (\<forall>t\<in>S. table_holds ops t m (T t)))"

lemma tables_holdI:
  "engine_holds env config cap e m \<Longrightarrow> (\<And>t. t \<in> S \<Longrightarrow> table_holds ops t m (T t)) \<Longrightarrow> tables_hold env config cap ops S e T"
  unfolding tables_hold_def by blast

lemma tables_reach_hold:
  assumes lv: "level_numbers config \<noteq> []" and fb: "no_false_negatives (ee_fb env)" and rt: "codecs_roundtrip ops"
    and S: "\<forall>t\<in>S. tb_ok t" "inj_on tb_prefix S"
  shows "tables_reach env config cap ops S e T \<Longrightarrow> tables_hold env config cap ops S e T"
proof (induction rule: tables_reach.induct)
  case (fresh space e)
  have "engine_holds env config cap e Map.empty"
    using engine_open_fresh [OF lv fresh(1,2)] fb unfolding engine_holds_def by blast
  then show ?case using table_holds_empty unfolding tables_hold_def by blast
next
  case (put e T t row uk r e')
  obtain m where m: "engine_holds env config cap e m" "\<forall>t\<in>S. table_holds ops t m (T t)"
    using put.IH by (auto simp: tables_hold_def)
  have ac: "engine_accepts (tb_prefix t @ uk) e" using put.hyps(6) by simp
  obtain x where x: "engine_holds env config cap e' (if r = Inr () then m(tb_prefix t @ uk \<mapsto> x) else m)" "row_at ops t uk x row"
    by (rule store.table_put_law [OF m(1) ac rt put.hyps(3-5,7)])
  have "table_holds ops t' (m(tb_prefix t @ uk \<mapsto> x)) ((T(t := (T t)(uk \<mapsto> row))) t')" if "t' \<in> S" for t'
  proof (cases "t' = t")
    case True
    then show ?thesis using table_holds_put [OF _ x(2)] m(2) that by simp
  next
    case False
    then have "tb_prefix t \<noteq> tb_prefix t'" using S(2) put.hyps(2) that by (auto dest: inj_onD)
    then show ?thesis using table_holds_other [of ops t' m "T t'" t] S(1) m(2) put.hyps(2) that False by simp
  qed
  then show ?case using m(2) by (intro tables_holdI [OF x(1)]) simp
next
  case (delete e T t key uk r e')
  obtain m where m: "engine_holds env config cap e m" "\<forall>t\<in>S. table_holds ops t m (T t)"
    using delete.IH by (auto simp: tables_hold_def)
  have ac: "engine_accepts (tb_prefix t @ uk) e" using delete.hyps(4) by simp
  note x = store.table_delete_law [OF m(1) ac delete.hyps(3,5)]
  have "table_holds ops t' (m(tb_prefix t @ uk := None)) ((T(t := (T t)(uk := None))) t')" if "t' \<in> S" for t'
  proof (cases "t' = t")
    case True
    then show ?thesis using table_holds_delete [of ops t m "T t" uk] m(2) that by simp
  next
    case False
    then have "tb_prefix t \<noteq> tb_prefix t'" using S(2) delete.hyps(2) that by (auto dest: inj_onD)
    then show ?thesis using table_holds_other [of ops t' m "T t'" t] S(1) m(2) delete.hyps(2) that False by simp
  qed
  then show ?case using m(2) by (intro tables_holdI [OF x]) simp
next
  case (get e T t key uk q e')
  then show ?case using store.table_get_law [OF _ _ get.hyps(3,4)] unfolding tables_hold_def by blast
next
  case (scan e T t opts rows e')
  obtain m where m: "engine_holds env config cap e m" "\<forall>t\<in>S. table_holds ops t m (T t)"
    using scan.IH by (auto simp: tables_hold_def)
  have ht: "table_holds ops t m (T t)" using m(2) scan.hyps(2) by blast
  obtain s' where "table_scan (engine_kv env) ops t opts e = (rows, s')" "engine_holds env config cap s' m"
    by (rule store.table_scan_law [OF m(1) ht scan.hyps(3)]) (use scan.hyps(4) in auto)
  then show ?case using m(2) scan.hyps(4) unfolding tables_hold_def by auto
next
  case (flush e T r e')
  then show ?case using engine_flush_inv [OF _ flush.hyps(2,3)] unfolding tables_hold_def engine_holds_def by blast
qed

section \<open>Properties\<close>


text \<open>An example: two incarnations of a table, one row put into the newer one.\<close>

definition sample_table :: "u64 \<Rightarrow> table" where
  "sample_table n = table_new uuid_nil uuid_nil uuid_nil n [97] [field_new [97] TInt32, field_new [98] TText]"

abbreviation sample_row :: "(bool, bool \<times> u8) row" where
  "sample_row \<equiv> [VInt32 1, VText [104, 105]]"

lemma sample_tables: "\<forall>t\<in>{sample_table 0, sample_table 1}. tb_ok t" "inj_on tb_prefix {sample_table 0, sample_table 1}"
proof -
  show "\<forall>t\<in>{sample_table 0, sample_table 1}. tb_ok t" by (simp add: tb_ok_def sample_table_def table_new_def uuid_nil_def)
  have "to_be 8 (0 :: u64) \<noteq> to_be 8 (1 :: u64)" "to_be 8 (1 :: u64) \<noteq> to_be 8 (0 :: u64)" using to_be_inject [of 8 "0 :: u64" 1] to_be_inject [of 8 "1 :: u64" 0] by simp_all
  then show "inj_on tb_prefix {sample_table 0, sample_table 1}"
    by (simp add: inj_on_def tb_prefix_def table_prefix_def sample_table_def table_new_def)
qed

lemma sample_row_ok: "row_ok sample_ops (sample_table 1) sample_row"
proof -
  have "utf8_valid [104, 105]" by code_simp
  then show ?thesis by (simp add: row_ok_def row_storable_def sample_table_def table_new_def field_new_def)
qed

lemma sample_put:
  obtains e e' where "engine_open sample_env sample_config (with_capacity 50) sample_engine_dir = Inr e"
    "table_put (engine_kv sample_env) sample_ops (sample_table 1) sample_row e = (Inr (), e')"
    "tables_reach sample_env sample_config 50 sample_ops {sample_table 0, sample_table 1} e'
      ((\<lambda>_. Map.empty)(sample_table 1 := [int32_key 1 \<mapsto> sample_row]))"
proof -
  let ?t = "sample_table 1" and ?k = "tb_row_key (sample_table 1) (int32_key 1)"
  obtain e where e: "engine_open sample_env sample_config (with_capacity 50) sample_engine_dir = Inr e"
    "\<And>k v. length k < 1000 \<Longrightarrow> length v \<le> 8157 \<Longrightarrow> writable k e \<and> heap_room e \<and> (\<exists>e'. engine_put sample_env k v e = (Inr (), e'))"
    by (rule fresh_engine) blast
  have n: "BLOCK_SIZE \<le> 1048576" by (simp add: BLOCK_SIZE_def)
  have r0: "tables_reach sample_env sample_config 50 sample_ops {sample_table 0, ?t} e (\<lambda>_. Map.empty)"
    by (rule tables_reach.fresh [OF n e(1)])
  obtain bs where bs: "schema_encode sample_ops (tb_schema ?t) sample_row = Some bs" "length bs = schema_encoded_size sample_ops (tb_schema ?t) sample_row"
    using schema_roundtrip [OF sample_roundtrip, of "tb_schema ?t" sample_row] sample_row_ok by (auto simp: row_ok_def)
  have len: "length ?k < 1000" "length bs \<le> 8157"
    using bs(2) by (simp_all add: length_tb_prefix sample_tables(1) int32_key_def schema_encoded_size_def bitmap_bytes_def sample_table_def table_new_def)
  obtain e' where p: "engine_put sample_env ?k bs e = (Inr (), e')" and ac: "engine_accepts ?k e"
    using e(2) [OF len] by (auto simp: engine_accepts_def)
  have "collect_res (map (check_value_size sample_ops) sample_row) = Inr [(), ()]"
    by (simp add: check_value_size_def MAX_TEXT_SIZE_def)
  then have tp: "table_put (engine_kv sample_env) sample_ops ?t sample_row e = (Inr (), e')"
    using p bs(1) by (simp add: table_put_def st_bind_def on_kv_def or_panic_def)
  have "tables_reach sample_env sample_config 50 sample_ops {sample_table 0, ?t} e'
      (if Inr () = (Inr () :: query_error + unit) then (\<lambda>_. Map.empty)(?t := ((\<lambda>_. Map.empty) ?t)(int32_key 1 \<mapsto> sample_row)) else (\<lambda>_. Map.empty))"
    by (rule tables_reach.put [OF r0 _ sample_row_ok _ _ ac tp]) simp_all
  then show thesis using that [OF e(1) tp] by simp
qed


end
