(* ===== verification/Workspaces.thy ===== *)
theory Workspaces
  imports Heap_Scan
begin

text \<open>
  Bounded scratch storage for the query operators: \<^verbatim>\<open>src/crates/filesystem/src/memory.rs\<close> and
  \<^verbatim>\<open>src/crates/filesystem/src/workspace.rs\<close>. A workspace is appended to and replayed. The memory
  backing keeps tuple pages in slabs of a capped pool, the file backing keeps them in a heap
  over a temporary file without a journal. The locale \<open>workspace\<close> is the contract of the trait.
\<close>

section \<open>The memory pool\<close>

record memory_pool =
  mp_cap :: nat
  mp_in_use :: nat

definition memory_pool_new :: "nat \<Rightarrow> memory_pool" where
  "memory_pool_new cap = \<lparr>mp_cap = cap, mp_in_use = 0\<rparr>"

text \<open>A slab is its bytes; a rejected allocation reports what was requested, in use and the cap.\<close>

definition pool_allocate :: "nat \<Rightarrow> (memory_pool, nat \<times> nat \<times> nat, bytes) op" where
  "pool_allocate n p =
    (if mp_cap p \<noteq> 0 \<and> mp_cap p < mp_in_use p + n then (Inl (n, mp_in_use p, mp_cap p), p)
     else (Inr (replicate n 0), p\<lparr>mp_in_use := mp_in_use p + n\<rparr>))"

definition slab_drop :: "bytes \<Rightarrow> memory_pool \<Rightarrow> memory_pool" where
  "slab_drop slab p = p\<lparr>mp_in_use := mp_in_use p - length slab\<rparr>"

section \<open>The trait\<close>

record workspace_loc =
  wl_page :: u64
  wl_slot :: u16

record 'w ws_ops =
  ws_new :: "fs_error + 'w"
  ws_append :: "bytes \<Rightarrow> ('w, fs_error, workspace_loc) op"
  ws_used :: "'w \<Rightarrow> nat"
  ws_tuples :: "('w, fs_error, bytes list) op"

text \<open>The tuples of one page, in slot order; a page that does not open has none.\<close>

definition block_tuples :: "bytes \<Rightarrow> fs_error + bytes list" where
  "block_tuples page = res_bind (page_tuples_iter page) (\<lambda>ts. Inr (List.map_filter id ts))"

section \<open>The memory backing\<close>

record mem_workspace =
  mw_pool :: memory_pool
  mw_blocks :: "bytes list"

definition mw_new :: "nat \<Rightarrow> fs_error + mem_workspace" where
  "mw_new capacity = (if capacity > 0 then Inr \<lparr>mw_pool = memory_pool_new capacity, mw_blocks = []\<rparr> else Inl FsPanic)"

definition mw_append_new :: "bytes \<Rightarrow> (mem_workspace, fs_error, workspace_loc) op" where
  "mw_append_new tuple w =
    (case pool_allocate PAGE_SIZE (mw_pool w) of
       (Inl (requested, used, cap), p) \<Rightarrow> (Inl (WorkspaceFull requested used cap), w\<lparr>mw_pool := p\<rparr>)
     | (Inr slab, p) \<Rightarrow>
         (case res_bind (tp_init slab) (\<lambda>page.
               res_bind (free_space page) (\<lambda>max_len.
               res_bind (tp_insert tuple page) (\<lambda>(s, page). Inr (max_len, s, page)))) of
            Inl e \<Rightarrow> (Inl e, w\<lparr>mw_pool := slab_drop slab p\<rparr>)
          | Inr (max_len, None, page) \<Rightarrow> (Inl (TupleTooLarge (length tuple) max_len), w\<lparr>mw_pool := slab_drop slab p\<rparr>)
          | Inr (max_len, Some slot, page) \<Rightarrow>
              (Inr \<lparr>wl_page = word_of_nat (length (mw_blocks w)), wl_slot = slot\<rparr>, w\<lparr>mw_pool := p, mw_blocks := mw_blocks w @ [page]\<rparr>)))"

definition mw_append :: "bytes \<Rightarrow> (mem_workspace, fs_error, workspace_loc) op" where
  "mw_append tuple w =
    (if mw_blocks w = [] then mw_append_new tuple w
     else let i = length (mw_blocks w) - 1 in
       case res_bind (tp_open (mw_blocks w ! i)) (tp_insert tuple) of
         Inl e \<Rightarrow> (Inl e, w)
       | Inr (Some slot, page) \<Rightarrow> (Inr \<lparr>wl_page = word_of_nat i, wl_slot = slot\<rparr>, w\<lparr>mw_blocks := (mw_blocks w)[i := page]\<rparr>)
       | Inr (None, page) \<Rightarrow> mw_append_new tuple (w\<lparr>mw_blocks := (mw_blocks w)[i := page]\<rparr>))"

definition mw_tuples :: "(mem_workspace, fs_error, bytes list) op" where
  "mw_tuples w = (res_bind (collect_res (map block_tuples (mw_blocks w))) (\<lambda>bs. Inr (concat bs)), w)"

definition mem_ws :: "nat \<Rightarrow> mem_workspace ws_ops" where
  "mem_ws capacity = \<lparr>ws_new = mw_new capacity, ws_append = mw_append, ws_used = (\<lambda>w. mp_in_use (mw_pool w)), ws_tuples = mw_tuples\<rparr>"

section \<open>The file backing\<close>

record file_workspace =
  fw_heap :: "(disk_store, nat lruk) heap"
  fw_pages :: "u64 list"
  fw_max_pages :: nat
  fw_disk_budget :: nat
  fw_memory_budget :: nat

text \<open>\<open>tmp\<close> is the data file in the fresh temporary directory.\<close>

definition fw_new :: "os_file \<Rightarrow> nat \<Rightarrow> nat \<Rightarrow> fs_error + file_workspace" where
  "fw_new tmp memory_budget disk_budget =
    (let n = max (memory_budget div PAGE_SIZE) 1; max_pages = disk_budget div PAGE_SIZE in
     if max_pages < 1 then Inl FsPanic
     else
       res_bind (disk_open tmp) (\<lambda>v.
       res_bind (pc_build v n lruk_default None) (\<lambda>c.
         Inr \<lparr>fw_heap = heap_new c, fw_pages = [], fw_max_pages = max_pages, fw_disk_budget = disk_budget,
              fw_memory_budget = n * PAGE_SIZE\<rparr>)))"

definition fw_append :: "(disk_store, nat lruk) cache_env \<Rightarrow> bytes \<Rightarrow> (file_workspace, fs_error, workspace_loc) op" where
  "fw_append env tuple w =
    (case heap_insert env tuple (fw_heap w) of
       (Inl e, h) \<Rightarrow> (Inl e, w\<lparr>fw_heap := h\<rparr>)
     | (Inr loc, h) \<Rightarrow>
         (let r = \<lparr>wl_page = page_id loc, wl_slot = slot_id loc\<rparr> in
          if fw_pages w \<noteq> [] \<and> last (fw_pages w) = page_id loc then (Inr r, w\<lparr>fw_heap := h\<rparr>)
          else if fw_max_pages w \<le> length (fw_pages w)
          then (Inl (WorkspaceFull PAGE_SIZE (length (fw_pages w) * PAGE_SIZE) (fw_disk_budget w)), w\<lparr>fw_heap := h\<rparr>)
          else (Inr r, w\<lparr>fw_heap := h, fw_pages := fw_pages w @ [page_id loc]\<rparr>)))"

definition fw_used :: "file_workspace \<Rightarrow> nat" where
  "fw_used w = length (fw_pages w) * PAGE_SIZE"

text \<open>Replay: each page is pinned, its tuples are copied out, and the pin is dropped before the
  next page; a page that cannot be pinned is skipped.\<close>

fun fw_read_pages :: "(disk_store, nat lruk) cache_env \<Rightarrow> u64 list \<Rightarrow> ((disk_store, nat lruk) heap, fs_error, bytes list) op" where
  "fw_read_pages env [] h = (Inr [], h)"
| "fw_read_pages env (i # is) h =
    (case heap_page env i h of
       (Inl e, h') \<Rightarrow> if e = FsPanic then (Inl e, h') else fw_read_pages env is h'
     | (Inr f, h') \<Rightarrow>
         (case block_tuples (page_bytes f (hp_cache h')) of
            Inl e \<Rightarrow> (Inl e, drop_ref f h')
          | Inr ts \<Rightarrow>
              (case fw_read_pages env is (drop_ref f h') of
                 (Inl e, h'') \<Rightarrow> (Inl e, h'')
               | (Inr ts', h'') \<Rightarrow> (Inr (ts @ ts'), h''))))"

definition fw_tuples :: "(disk_store, nat lruk) cache_env \<Rightarrow> (file_workspace, fs_error, bytes list) op" where
  "fw_tuples env w = (let (r, h) = fw_read_pages env (fw_pages w) (fw_heap w) in (r, w\<lparr>fw_heap := h\<rparr>))"

definition file_ws :: "(disk_store, nat lruk) cache_env \<Rightarrow> os_file \<Rightarrow> nat \<Rightarrow> nat \<Rightarrow> file_workspace ws_ops" where
  "file_ws env tmp memory_budget disk_budget =
    \<lparr>ws_new = fw_new tmp memory_budget disk_budget, ws_append = fw_append env, ws_used = fw_used, ws_tuples = fw_tuples env\<rparr>"

section \<open>The contract\<close>

text \<open>\<open>holds n w xs\<close>: the workspace holds \<open>xs\<close>, and \<open>n\<close> more tuples that fit in a page will be taken.
  A fresh one takes \<open>capacity\<close> tuples; replaying gives them back in order.\<close>

locale workspace =
  fixes ws :: "'w ws_ops" and holds :: "nat \<Rightarrow> 'w \<Rightarrow> bytes list \<Rightarrow> bool" and capacity :: nat
  assumes new_holds: "ws_new ws = Inr w \<Longrightarrow> holds capacity w []"
    and append_holds: "holds (Suc n) w xs \<Longrightarrow> length b \<le> max_tuple \<Longrightarrow> \<exists>l w'. ws_append ws b w = (Inr l, w') \<and> holds n w' (xs @ [b])"
    and tuples_replay: "holds n w xs \<Longrightarrow> \<exists>w'. ws_tuples ws w = (Inr xs, w') \<and> holds n w' xs"

context workspace
begin

lemma append_all:
  assumes "holds (length xs + n) w ys" "\<forall>x\<in>set xs. length x \<le> max_tuple"
  shows "\<exists>w'. st_iter (\<lambda>x. st_bind (ws_append ws x) (\<lambda>_. st_return ())) xs w = (Inr (), w') \<and> holds n w' (ys @ xs)"
  using assms
proof (induction xs arbitrary: w ys)
  case (Cons x xs)
  then obtain l w1 where "ws_append ws x w = (Inr l, w1)" "holds (length xs + n) w1 (ys @ [x])"
    using append_holds [of "length xs + n" w ys x] by auto
  then show ?case using Cons.IH [of w1 "ys @ [x]"] Cons.prems(2) by (simp add: st_bind_def)
qed simp

lemma spill_and_replay:
  assumes "ws_new ws = Inr w" "length xs \<le> capacity" "\<forall>x\<in>set xs. length x \<le> max_tuple"
  shows "\<exists>w1 w2. st_iter (\<lambda>x. st_bind (ws_append ws x) (\<lambda>_. st_return ())) xs w = (Inr (), w1) \<and> ws_tuples ws w1 = (Inr xs, w2)"
proof -
  have "holds (length xs + (capacity - length xs)) w []" using new_holds [OF assms(1)] assms(2) by simp
  from append_all [OF this assms(3)] show ?thesis using tuples_replay by fastforce
qed

end

section \<open>The memory backing keeps the contract\<close>

lemma page_tuples_iter_ok:
  assumes "tp_ok p"
  shows "page_tuples_iter p = Inr (tp_view p)"
proof -
  have "unat (u16_at p OFF_SLOT_COUNT) = length (tp_view p)" by (simp add: tp_view_def tp_count_def)
  moreover have "HEADER_LEN + 2 \<le> length p" using assms by (simp add: tp_ok_def tp_consts)
  then have "slot_count p = Inr (u16_at p OFF_SLOT_COUNT)"
    by (simp add: slot_count_def pg_get_u16_ok OFF_SLOT_COUNT_def)
  moreover have "map (\<lambda>s. tuple_bytes (word_of_nat s) p) [0..<length (tp_view p)] = map Inr (tp_view p)"
  proof (rule nth_equalityI)
    fix s assume s: "s < length (map (\<lambda>s. tuple_bytes (word_of_nat s) p) [0..<length (tp_view p)])"
    then have "unat (word_of_nat s :: u16) = s" using tp_view_short [OF assms] by (simp add: unat_of_nat)
    then show "map (\<lambda>s. tuple_bytes (word_of_nat s) p) [0..<length (tp_view p)] ! s = map Inr (tp_view p) ! s"
      using s by (simp add: tuple_bytes_def tp_open_ok [OF assms] tp_get_ok [OF assms])
  qed simp
  ultimately show ?thesis by (simp add: page_tuples_iter_def tp_open_ok [OF assms])
qed

lemma map_filter_Some [simp]: "List.map_filter id (map Some xs) = xs"
  by (induction xs) simp_all

lemma block_tuples_ok: "tp_ok p \<Longrightarrow> tp_view p = map Some xs \<Longrightarrow> block_tuples p = Inr xs"
  by (simp add: block_tuples_def page_tuples_iter_ok)

text \<open>The first tuple of a fresh page.\<close>

lemma fresh_page_insert:
  obtains page where "res_bind (tp_init (replicate PAGE_SIZE 0)) (\<lambda>p. res_bind (free_space p) (\<lambda>m. res_bind (tp_insert t p) (\<lambda>(s, p). Inr (m, s, p))))
      = Inr (max_tuple, if length t \<le> max_tuple then Some 0 else None, page)"
    "tp_ok page" "tp_view page = (if length t \<le> max_tuple then [Some t] else [])"
proof -
  have z: "length (replicate PAGE_SIZE (0 :: u8)) = PAGE_SIZE" by simp
  obtain q where q: "tp_init (replicate PAGE_SIZE 0) = Inr q" "tp_ok q" "tp_view q = []" "tp_start q = 27" "tp_end q = 8192"
    using tp_init_ok [OF z] .
  have fs: "free_space q = Inr max_tuple"
  proof -
    have len: "length q = 8192" and le: "u16_at q 23 \<le> u16_at q 25"
      using q(2) by (simp_all add: tp_ok_def tp_consts tp_fields word_le_nat_alt)
    then show ?thesis using q(4,5)
      by (simp add: free_space_def pg_get_u16_ok tp_fields tp_consts unat_sub max_tuple_def)
  qed
  have fit: "tp_fits q (length t) \<longleftrightarrow> length t \<le> max_tuple" using q(4,5) by (auto simp: tp_fits_def max_tuple_def SLOT_SIZE_def)
  show thesis
  proof (cases "length t \<le> max_tuple")
    case True
    then obtain p where "tp_insert t q = Inr (Some 0, p)" "tp_ok p" "tp_view p = [Some t]"
      using tp_insert_ok [OF q(2), of t] q(3) fit by auto
    then show thesis using that [of p] True q(1) fs by simp
  next
    case False
    then show thesis using that [of q] tp_full [OF q(2), of t] fit q(1-3) fs by simp
  qed
qed

text \<open>The blocks hold the tuples in order, none of them is empty, and the pool accounts for them.\<close>

definition mw_holds :: "nat \<Rightarrow> nat \<Rightarrow> mem_workspace \<Rightarrow> bytes list \<Rightarrow> bool" where
  "mw_holds cap n w xs \<longleftrightarrow> 0 < cap \<and> mw_pool w = \<lparr>mp_cap = cap, mp_in_use = length (mw_blocks w) * PAGE_SIZE\<rparr> \<and>
    (\<forall>p \<in> set (mw_blocks w). tp_ok p) \<and> concat (map tp_view (mw_blocks w)) = map Some xs \<and>
    (length (mw_blocks w) + n) * PAGE_SIZE \<le> cap"

lemma mw_append_new_ok:
  assumes h: "mw_holds cap (Suc n) w xs" and b: "length b \<le> max_tuple"
  shows "\<exists>l w'. mw_append_new b w = (Inr l, w') \<and> mw_holds cap n w' (xs @ [b])"
proof -
  obtain page where p: "res_bind (tp_init (replicate PAGE_SIZE 0)) (\<lambda>p. res_bind (free_space p) (\<lambda>m. res_bind (tp_insert b p) (\<lambda>(s, p). Inr (m, s, p))))
      = Inr (max_tuple, if length b \<le> max_tuple then Some 0 else None, page)" "tp_ok page" "tp_view page = (if length b \<le> max_tuple then [Some b] else [])"
    by (rule fresh_page_insert [of b])
  have "length (mw_blocks w) * PAGE_SIZE + PAGE_SIZE \<le> cap" using h by (simp add: mw_holds_def algebra_simps)
  then show ?thesis
    using h p b by (auto simp: mw_append_new_def mw_holds_def pool_allocate_def algebra_simps)
qed

lemma mw_append_ok:
  assumes h: "mw_holds cap (Suc n) w xs" and b: "length b \<le> max_tuple"
  shows "\<exists>l w'. mw_append b w = (Inr l, w') \<and> mw_holds cap n w' (xs @ [b])"
proof (cases "mw_blocks w" rule: rev_cases)
  case Nil
  then show ?thesis using mw_append_new_ok [OF h b] by (auto simp: mw_append_def)
next
  case (snoc bs p)
  then have p: "tp_ok p" and e: "mw_blocks w ! (length (mw_blocks w) - 1) = p" "(mw_blocks w)[length (mw_blocks w) - 1 := q] = bs @ [q]" for q
    using h by (auto simp: mw_holds_def)
  show ?thesis
  proof (cases "tp_fits p (length b)")
    case True
    obtain q where q: "tp_insert b p = Inr (Some (word_of_nat (length (tp_view p))), q)" "tp_ok q" "tp_view q = tp_view p @ [Some b]"
      by (rule tp_insert_ok [OF p True])
    have "mw_holds cap n (w\<lparr>mw_blocks := bs @ [q]\<rparr>) (xs @ [b])" using h snoc q(2,3) by (auto simp: mw_holds_def)
    then show ?thesis using snoc e q(1) by (auto simp: mw_append_def Let_def tp_open_ok [OF p])
  next
    case False
    have same: "w\<lparr>mw_blocks := bs @ [p]\<rparr> = w" using snoc by (cases w) simp
    have "mw_append b w = mw_append_new b (w\<lparr>mw_blocks := bs @ [p]\<rparr>)"
      using snoc e tp_full [OF p False] by (simp add: mw_append_def Let_def tp_open_ok [OF p])
    then have "mw_append b w = mw_append_new b w" unfolding same .
    then show ?thesis using mw_append_new_ok [OF h b] by simp
  qed
qed

lemma concat_views:
  assumes "\<forall>p \<in> set ps. tp_ok p" and "concat (map tp_view ps) = map Some xs"
  shows "\<exists>bs. map block_tuples ps = map Inr bs \<and> concat bs = xs"
  using assms
proof (induction ps arbitrary: xs)
  case (Cons p ps)
  then obtain ys zs where y: "xs = ys @ zs" "tp_view p = map Some ys" "concat (map tp_view ps) = map Some zs"
    by (auto simp: append_eq_map_conv)
  then obtain bs where "map block_tuples ps = map Inr bs" "concat bs = zs" using Cons by auto
  then show ?case using y Cons(2) block_tuples_ok [of p ys] by (intro exI [of _ "ys # bs"]) auto
qed simp

lemma mw_tuples_ok:
  assumes "mw_holds cap n w xs"
  shows "mw_tuples w = (Inr xs, w)"
proof -
  obtain bs where "map block_tuples (mw_blocks w) = map Inr bs" "concat bs = xs"
    using concat_views [of "mw_blocks w" xs] assms by (auto simp: mw_holds_def)
  then show ?thesis by (simp add: mw_tuples_def)
qed

interpretation mem_work: workspace "mem_ws cap" "mw_holds cap" "cap div PAGE_SIZE" for cap
proof
  show "ws_new (mem_ws cap) = Inr w \<Longrightarrow> mw_holds cap (cap div PAGE_SIZE) w []" for w
    by (auto simp: mem_ws_def mw_new_def mw_holds_def memory_pool_new_def split: if_splits)
qed (auto simp: mem_ws_def mw_append_ok mw_tuples_ok)

section \<open>The space of the temporary file\<close>

text \<open>What an operation makes of pool \<open>c\<close>: the space of the file stays, and at most \<open>k\<close> new blocks are
  used.\<close>

definition spends :: "nat \<Rightarrow> (disk_store, 'p) pool \<Rightarrow> 'r \<times> (disk_store, 'p) pool \<Rightarrow> bool" where
  "spends k c rc \<longleftrightarrow> of_space (ds_file (pc_block (snd rc))) = of_space (ds_file (pc_block c)) \<and>
    unat (ds_next (pc_block (snd rc))) \<le> unat (ds_next (pc_block c)) + k"

lemma spends_same: "pc_block c' = pc_block c \<Longrightarrow> spends k c (r, c')"
  by (simp add: spends_def)

lemma spends_cong: "spends k c' rc \<Longrightarrow> pc_block c' = pc_block c \<Longrightarrow> spends k c rc"
  by (simp add: spends_def)

lemma spends_bind:
  assumes "spends i c (m c)" and "\<And>x c'. m c = (Inr x, c') \<Longrightarrow> spends j c' (f x c')"
  shows "spends (i + j) c (st_bind m f c)"
proof -
  obtain r c1 where m: "m c = (r, c1)" by fastforce
  show ?thesis
  proof (cases r)
    case (Inr x)
    then show ?thesis using assms(1) assms(2) [of x c1] m by (auto simp: spends_def st_bind_def)
  qed (use assms(1) m in \<open>auto simp: spends_def st_bind_def\<close>)
qed

lemmas spends_bind0 = spends_bind [where i = 0 and j = 0, simplified]

lemma spends_iter: "(\<And>x c. spends 0 c (f x c)) \<Longrightarrow> spends 0 c (st_iter f xs c)"
proof (induction xs arbitrary: c)
  case (Cons x xs)
  have "spends 0 c (st_bind (f x) (\<lambda>_. st_iter f xs) c)"
    by (rule spends_bind0) (use Cons in auto)
  then show ?case by simp
qed (simp add: spends_def)

lemma on_file_store: "snd (on_file err m v) = v\<lparr>ds_file := snd (m (ds_file v))\<rparr>"
  by (simp add: on_file_def Let_def split: prod.split)

lemma file_space:
  "of_space (snd (file_write_all_at d off f)) = of_space f" "of_space (snd (file_set_len n f)) = of_space f"
  by (simp_all add: file_write_all_at_def file_set_len_def)

lemma disk_space:
  "of_space (ds_file (snd (disk_write i b v))) = of_space (ds_file v)" "ds_next (snd (disk_write i b v)) = ds_next v"
  "of_space (ds_file (snd (disk_sync v))) = of_space (ds_file v)" "ds_next (snd (disk_sync v)) = ds_next v"
  by (simp_all add: disk_write_def disk_sync_def write_superblock_def Let_def on_file_store file_space)

lemma set_capacity_space:
  "of_space (ds_file (snd (set_capacity n v))) = of_space (ds_file v)" "ds_next (snd (set_capacity n v)) = ds_next v"
proof -
  obtain r f where m: "file_set_len (unat (n * word_of_nat BLOCK_SIZE)) (ds_file v) = (r, f)" by fastforce
  then have "of_space f = of_space (ds_file v)" using file_space(2) by (metis snd_conv)
  then show "of_space (ds_file (snd (set_capacity n v))) = of_space (ds_file v)" "ds_next (snd (set_capacity n v)) = ds_next v"
    using m by (cases r; simp add: set_capacity_def st_bind_def on_file_def)+
qed

lemma disk_allocate_space:
  "of_space (ds_file (snd (disk_allocate v))) = of_space (ds_file v)" "unat (ds_next (snd (disk_allocate v))) \<le> unat (ds_next v) + 1"
proof -
  let ?v = "v\<lparr>ds_next := ds_next v + 1\<rparr>"
  have "snd (st_bind (ensure_capacity n) (\<lambda>_ v'. (Inr (ds_next v), v')) ?v) = snd (ensure_capacity n ?v)" for n
    by (simp add: st_bind_def split: prod.split sum.split)
  moreover have "of_space (ds_file (snd (ensure_capacity n ?v))) = of_space (ds_file v)" "ds_next (snd (ensure_capacity n ?v)) = ds_next v + 1" for n
    by (simp_all add: ensure_capacity_def set_capacity_space)
  moreover have "unat (ds_next v + 1) \<le> unat (ds_next v) + 1" using unat_word_ariths(1) [of "ds_next v" 1] by simp
  ultimately show "of_space (ds_file (snd (disk_allocate v))) = of_space (ds_file v)" "unat (ds_next (snd (disk_allocate v))) \<le> unat (ds_next v) + 1"
    by (simp_all add: disk_allocate_def)
qed

lemma spends_block:
  assumes "of_space (ds_file (snd (m (pc_block c)))) = of_space (ds_file (pc_block c))"
    and "unat (ds_next (snd (m (pc_block c)))) \<le> unat (ds_next (pc_block c)) + k"
  shows "spends k c (on_block m c)"
  using assms by (auto simp: spends_def on_block_def Let_def split: prod.split)

lemma block_bookkeeping [simp]:
  "pc_block (upd_frame f g c) = pc_block c" "pc_block (log_images env fs c) = pc_block c"
  "pc_block (reclaim env f c) = pc_block c" "pc_block (install env f i g c) = pc_block c" "pc_block (release_read f c) = pc_block c"
  "pc_block (release_write f c) = pc_block c" "pc_block (set_page_bytes f b c) = pc_block c"
  by (simp_all add: upd_frame_def log_images_def reclaim_def install_def Let_def release_read_def release_write_def set_page_bytes_def)

lemma disk_env_store [simp]: "env_store (disk_env crc jcrc) = disk_ops"
  "bs_write disk_ops = disk_write" "bs_sync disk_ops = disk_sync" "bs_allocate disk_ops = disk_allocate"
  by (simp_all add: disk_env_def disk_ops_def)

lemma spends_flush: "spends 0 c (pc_flush (disk_env crc jcrc) c)"
proof -
  let ?env = "disk_env crc jcrc"
  have fin: "spends 0 c (finalize_frame ?env f c)" for f c
    by (simp add: spends_def finalize_frame_def split: sum.split)
  have wb: "spends 0 c (write_back ?env f c)" for f c
    unfolding write_back_def by (intro spends_bind0 spends_block spends_same) (simp_all add: disk_space)
  have tail: "spends 0 c (st_bind (st_iter (write_back ?env) dirty) (\<lambda>_.
       st_bind (on_block (bs_sync (env_store ?env))) (\<lambda>_ c. (Inr (), c\<lparr>pc_journal := map_option truncate_log (pc_journal c)\<rparr>))) c)" for dirty c
    by (intro spends_bind0 spends_iter wb spends_block spends_same) (simp_all add: disk_space)
  show ?thesis unfolding pc_flush_def Let_def
    by (auto intro!: spends_same spends_bind0 spends_iter fin simp del: disk_env_store) (rule spends_cong [OF tail], simp)
qed

lemma pick_evictable_block: "pick_evictable env b c = (r, c') \<Longrightarrow> pc_block c' = pc_block c"
  by (auto simp: pick_evictable_def split: prod.splits)

lemma spends_victim: "spends 0 c (victim_frame (disk_env crc jcrc) c)"
proof -
  let ?env = "disk_env crc jcrc"
  have second: "spends 0 c (case pick_evictable ?env False c of
             (Some f, c) \<Rightarrow> (Inr f, reclaim ?env f c)
           | (None, c) \<Rightarrow> (Inl (PoolExhausted (length (pc_frames c))), c))" for c
    by (auto intro!: spends_same dest: pick_evictable_block split: prod.split option.split)
  have S: "spends 0 c (st_bind (pc_flush ?env) (\<lambda>_ c. case pick_evictable ?env False c of
             (Some f, c) \<Rightarrow> (Inr f, reclaim ?env f c)
           | (None, c) \<Rightarrow> (Inl (PoolExhausted (length (pc_frames c))), c)) c)" for c
    by (intro spends_bind0 spends_flush second)
  show ?thesis unfolding victim_frame_def
    by (auto intro!: spends_same spends_cong [OF S] dest: pick_evictable_block split: prod.split option.split)
qed

lemma load_page_block: "load_page env f i c = (r, c') \<Longrightarrow> pc_block c' = pc_block c"
  by (auto simp: load_page_def split: sum.splits)

lemma spends_fault: "spends 0 c (fault_in (disk_env crc jcrc) i g c)"
  unfolding fault_in_def
  by (rule spends_bind0 [OF spends_victim]) (auto intro!: spends_same dest: load_page_block split: prod.split sum.split)

lemma spends_acquire: "spends 0 c (acquire_read (disk_env crc jcrc) i c)" "spends 0 c (acquire_write (disk_env crc jcrc) i c)"
  by (auto simp: acquire_read_def acquire_write_def intro!: spends_same spends_fault split: option.split)

lemma spends_allocate: "spends 1 c (pc_allocate (disk_env crc jcrc) c)"
proof -
  let ?env = "disk_env crc jcrc"
  have "spends 1 c (on_block (bs_allocate (env_store ?env)) c)"
    by (rule spends_block) (use disk_allocate_space [of "pc_block c"] in simp_all)
  then have "spends (1 + 0) c (pc_allocate ?env c)"
    unfolding pc_allocate_def by (rule spends_bind) (intro spends_bind0 spends_victim spends_same, simp)
  then show ?thesis by simp
qed

lemma spends_append: "spends 0 c (try_append (disk_env crc jcrc) i t c)" "spends 1 c (append_to_new_page (disk_env crc jcrc) t c)"
proof -
  show "spends 0 c (try_append (disk_env crc jcrc) i t c)"
    unfolding try_append_def with_write_page_def
    by (rule spends_bind0 [OF spends_acquire(2)]) (auto intro!: spends_same split: sum.split)
  have "spends (1 + 0) c (append_to_new_page (disk_env crc jcrc) t c)"
    unfolding append_to_new_page_def
    by (rule spends_bind [OF spends_allocate]) (auto intro!: spends_same split: sum.split)
  then show "spends 1 c (append_to_new_page (disk_env crc jcrc) t c)" by simp
qed

lemma spends_heap:
  "spends 1 (hp_cache h) (map_prod id hp_cache (heap_insert (disk_env crc jcrc) t h))"
  "spends 0 (hp_cache h) (map_prod id hp_cache (heap_page (disk_env crc jcrc) i h))"
proof -
  let ?env = "disk_env crc jcrc"
  have new: "spends 1 (hp_cache h) (map_prod id hp_cache (heap_append_new ?env t h))" for h
    using spends_append(2) [of "hp_cache h" crc jcrc t]
    by (auto simp: heap_append_new_def st_bind_def on_cache_def spends_def split: prod.split sum.split)
  show "spends 1 (hp_cache h) (map_prod id hp_cache (heap_insert ?env t h))"
  proof (cases "hp_current h")
    case (Some j)
    obtain r c' where tr: "try_append ?env j t (hp_cache h) = (r, c')" by fastforce
    have s: "spends 0 (hp_cache h) (r, c')" using spends_append(1) [of "hp_cache h" crc jcrc j t] tr by simp
    have n: "spends 1 c' (map_prod id hp_cache (heap_append_new ?env t (h\<lparr>hp_cache := c'\<rparr>)))"
      using new [of "h\<lparr>hp_cache := c'\<rparr>"] by simp
    then have "spends 1 (hp_cache h) (map_prod id hp_cache (heap_append_new ?env t (h\<lparr>hp_cache := c'\<rparr>)))"
      using s by (auto simp: spends_def)
    then show ?thesis using s Some tr
      by (auto simp: heap_insert_def st_bind_def st_return_def on_cache_def spends_def split: sum.split option.split)
  qed (use new in \<open>simp add: heap_insert_def\<close>)
  show "spends 0 (hp_cache h) (map_prod id hp_cache (heap_page ?env i h))"
    using spends_acquire(1) [of "hp_cache h" crc jcrc i] by (auto simp: heap_page_def on_cache_def spends_def split: prod.split)
qed

section \<open>The file backing keeps the contract\<close>

text \<open>The pool of a workspace has no journal.\<close>

definition scratch_spec :: "(disk_store, nat lruk) pool_spec" where
  "scratch_spec = disk_spec\<lparr>ps_journaled := False\<rparr>"

interpretation scratch_pool: page_pool "disk_env crc jcrc" scratch_spec for crc jcrc
  unfolding page_pool_def disk_env_def scratch_spec_def disk_spec_def lruk_ops_def
  by (simp add: plain.block_store_axioms lruk.eviction_policy_axioms)

definition room_for :: "nat \<Rightarrow> disk_store \<Rightarrow> bool" where
  "room_for n v \<longleftrightarrow> n = 0 \<or> unat (ds_next v) + n \<le> 2 ^ 50 \<and> BLOCK_SIZE * chunk_end (unat (ds_next v) + n) \<le> of_space (ds_file v)"

lemma chunk_end_mono: "m \<le> n \<Longrightarrow> chunk_end m \<le> chunk_end n"
  unfolding chunk_end_def by (intro mult_le_mono1 div_le_mono) simp

lemma room_for_disk:
  assumes "disk_plain v" and "room_for (Suc n) v"
  shows "disk_room v"
proof -
  have v: "0 < ds_next v" "ds_free v = []" using assms(1) by (simp_all add: disk_plain_def disk_ok_def disk_inv_def)
  have "chunk_end (Suc (unat (ds_next v))) \<le> chunk_end (unat (ds_next v) + Suc n)" by (rule chunk_end_mono) simp
  then have "BLOCK_SIZE * chunk_end (Suc (unat (ds_next v))) \<le> of_space (ds_file v)"
    using assms(2) unfolding room_for_def by (meson le_trans mult_le_mono2 nat.simps(3))
  then show ?thesis using v assms(2) by (simp add: disk_room_def disk_fits_def room_for_def file_limit_def)
qed

lemma room_for_step:
  assumes "spends k c (r, c')" and "room_for (n + k) (pc_block c)"
  shows "room_for n (pc_block c')"
proof -
  have le: "unat (ds_next (pc_block c')) + n \<le> unat (ds_next (pc_block c)) + (n + k)" using assms(1) by (simp add: spends_def)
  have "BLOCK_SIZE * chunk_end (unat (ds_next (pc_block c')) + n) \<le> BLOCK_SIZE * chunk_end (unat (ds_next (pc_block c)) + (n + k))"
    by (rule mult_le_mono2 [OF chunk_end_mono [OF le]])
  then have "BLOCK_SIZE * chunk_end (unat (ds_next (pc_block c')) + n) \<le> of_space (ds_file (pc_block c))" if "n \<noteq> 0"
    using assms(2) that unfolding room_for_def by (meson add_is_0 le_trans)
  then show ?thesis using assms le by (auto simp: room_for_def spends_def)
qed

text \<open>What a map from locations to tuples says of one page.\<close>

definition page_list :: "(tuple_loc \<rightharpoonup> bytes option) \<Rightarrow> u64 \<Rightarrow> bytes option list \<Rightarrow> bool" where
  "page_list m i xs \<longleftrightarrow> length xs < 2 ^ 16 \<and>
    (\<forall>s. m \<lparr>page_id = i, slot_id = s\<rparr> = (if unat s < length xs then Some (xs ! unat s) else None))"

lemma page_list_view: "i \<in> K \<Longrightarrow> tp_ok (pview sp c i) \<Longrightarrow> page_list (heap_map sp K c) i (tp_view (pview sp c i))"
  using tp_view_short by (simp add: page_list_def heap_map_def)

lemma unat_slot: "n < 2 ^ 16 \<Longrightarrow> unat (word_of_nat n :: u16) = n"
  by (simp add: unat_of_nat)

lemma page_listD:
  "page_list m i xs \<Longrightarrow> n < 2 ^ 16 \<Longrightarrow> m \<lparr>page_id = i, slot_id = word_of_nat n\<rparr> = (if n < length xs then Some (xs ! n) else None)"
  "page_list m i xs \<Longrightarrow> length xs < 2 ^ 16"
  using unat_slot by (simp_all add: page_list_def)

lemma page_list_unique:
  assumes "page_list m i xs" and "page_list m i ys"
  shows "xs = ys"
proof -
  note D = page_listD(1) [OF assms(1)] page_listD(1) [OF assms(2)] and l = page_listD(2) [OF assms(1)] page_listD(2) [OF assms(2)]
  have len: "length xs = length ys" using D(1,2) [OF l(1)] D(1,2) [OF l(2)] by (simp split: if_splits)
  show ?thesis
  proof (rule nth_equalityI [OF len])
    fix n assume n: "n < length xs"
    then have "n < 2 ^ 16" using l(1) by simp
    then show "xs ! n = ys ! n" using D(1,2) [of n] n len by simp
  qed
qed

lemma page_list_snoc:
  assumes "page_list m i xs" and "page_list (m(l \<mapsto> y)) i ys" and "page_id l = i" and "l \<notin> dom m"
  shows "ys = xs @ [y]"
proof -
  obtain s where l: "l = \<lparr>page_id = i, slot_id = s\<rparr>" using assms(3) by (cases l) auto
  note D = page_listD(1) [OF assms(1)] page_listD(1) [OF assms(2)] and L = page_listD(2) [OF assms(1)] page_listD(2) [OF assms(2)]
  have w: "word_of_nat n = s \<longleftrightarrow> n = unat s" if "n < 2 ^ 16" for n using unat_slot [OF that] by (metis unsigned_word_eqI)
  have e: "(if n < length ys then Some (ys ! n) else None) = (if n = unat s then Some y else if n < length xs then Some (xs ! n) else None)"
    if n: "n < 2 ^ 16" for n
    using D(1,2) [OF n] w [OF n] l by (auto split: if_splits)
  have s: "unat s < 2 ^ 16" using unsigned_less [of s, where 'a = nat] by simp
  have "m \<lparr>page_id = i, slot_id = word_of_nat (unat s)\<rparr> = None" using assms(4) l by auto
  then have ns: "length xs \<le> unat s" using D(1) [OF s] by (simp split: if_splits)
  have "unat s < length ys" using e [OF s] by (simp split: if_splits)
  then have lt: "length xs < length ys" using ns by simp
  then have us: "unat s = length xs" using e [OF L(1)] by (simp split: if_splits)
  have "length ys \<le> Suc (length xs)"
  proof (rule ccontr)
    assume "\<not> length ys \<le> Suc (length xs)"
    then show False using e [of "Suc (length xs)"] L(2) us by (simp split: if_splits)
  qed
  then have len: "length ys = length (xs @ [y])" using lt by simp
  show ?thesis
  proof (rule nth_equalityI [OF len])
    fix n assume n: "n < length ys"
    then have "n < 2 ^ 16" using L(2) by simp
    then show "ys ! n = (xs @ [y]) ! n" using e [of n] n len us by (cases "n = length xs") (simp_all add: nth_append split: if_splits)
  qed
qed

context page_pool
begin

text \<open>A tuple that does not go to the current page is the first of its page.\<close>

lemma heap_insert_page:
  assumes h: "heap_ok env sp K h" and room: "ps_room sp (pc_block (hp_cache h))" and i: "heap_insert env t h = (Inr l, h')"
  shows "hp_current h' = Some (page_id l)" "hp_current h = Some (page_id l) \<or> slot_id l = 0"
proof -
  have new: "hp_current h2 = Some (page_id l) \<and> slot_id l = 0"
    if h: "heap_ok env sp K h1" and room: "ps_room sp (pc_block (hp_cache h1))" and a: "heap_append_new env t h1 = (Inr l, h2)" for h1 h2
  proof -
    obtain i h3 where "heap_append_new env t h1 =
        (if length t \<le> max_tuple then Inr \<lparr>page_id = i, slot_id = 0\<rparr> else Inl (TupleTooLarge (length t) max_tuple), h3)"
      by (rule heap_append_new_ok [OF h room, of t])
    then have "slot_id l = 0" using a by (auto split: if_splits)
    moreover have "hp_current h2 = Some (page_id l)"
      using a by (auto simp: heap_append_new_def st_bind_def on_cache_def split: prod.splits sum.splits)
    ultimately show ?thesis by simp
  qed
  have "hp_current h' = Some (page_id l) \<and> (hp_current h = Some (page_id l) \<or> slot_id l = 0)"
  proof (cases "hp_current h")
    case None
    then show ?thesis using i new [OF h room] by (simp add: heap_insert_def)
  next
    case (Some j)
    obtain r c' where w: "try_append env j t (hp_cache h) = (Inr r, c')" "heap_ok env sp K (h\<lparr>hp_cache := c'\<rparr>)"
      "case r of None \<Rightarrow> heap_map sp K c' = heap_map sp K (hp_cache h) \<and> same_view sp K (hp_cache h) c' \<and> ps_room sp (pc_block c') = ps_room sp (pc_block (hp_cache h))
       | Some s \<Rightarrow> length t \<le> max_tuple \<and> \<lparr>page_id = j, slot_id = s\<rparr> \<notin> dom (heap_map sp K (hp_cache h)) \<and>
           heap_map sp K c' = (heap_map sp K (hp_cache h))(\<lparr>page_id = j, slot_id = s\<rparr> \<mapsto> Some t)"
      by (rule try_append_ok [OF h heap_okD(5) [OF h Some], of t]) (rule that; assumption)
    show ?thesis
    proof (cases r)
      case None
      then have "heap_append_new env t (h\<lparr>hp_cache := c'\<rparr>) = (Inr l, h')"
        using i Some w(1) by (simp add: heap_insert_def st_bind_def on_cache_def)
      then show ?thesis using new [OF w(2)] w(3) None room by simp
    next
      case (Some s)
      then show ?thesis using i \<open>hp_current h = Some j\<close> w(1)
        by (auto simp: heap_insert_def st_bind_def on_cache_def st_return_def)
    qed
  qed
  then show "hp_current h' = Some (page_id l)" "hp_current h = Some (page_id l) \<or> slot_id l = 0" by simp_all
qed

end

text \<open>The pages of the workspace, in order, hold the tuples.\<close>

definition fw_view :: "(disk_store, nat lruk) heap \<Rightarrow> u64 \<Rightarrow> bytes option list" where
  "fw_view h i = tp_view (pview scratch_spec (hp_cache h) i)"

definition fw_holds :: "crc_ops \<Rightarrow> (bytes \<Rightarrow> u32) \<Rightarrow> nat \<Rightarrow> file_workspace \<Rightarrow> bytes list \<Rightarrow> bool" where
  "fw_holds crc jcrc n w xs \<longleftrightarrow> (\<exists>K. heap_ok (disk_env crc jcrc) scratch_spec K (fw_heap w) \<and> set (fw_pages w) \<subseteq> K \<and>
    distinct (fw_pages w) \<and> (\<forall>i \<in> set (fw_pages w). fw_view (fw_heap w) i \<noteq> []) \<and>
    concat (map (fw_view (fw_heap w)) (fw_pages w)) = map Some xs \<and>
    hp_current (fw_heap w) = (if fw_pages w = [] then None else Some (last (fw_pages w))) \<and>
    length (fw_pages w) + n \<le> fw_max_pages w \<and> room_for n (pc_block (hp_cache (fw_heap w))))"

lemma fw_append_ok:
  assumes h: "fw_holds crc jcrc (Suc n) w xs" and b: "length b \<le> max_tuple"
  shows "\<exists>l w'. fw_append (disk_env crc jcrc) b w = (Inr l, w') \<and> fw_holds crc jcrc n w' (xs @ [b])"
proof -
  let ?env = "disk_env crc jcrc" and ?h = "fw_heap w"
  obtain K where K: "heap_ok ?env scratch_spec K ?h" "set (fw_pages w) \<subseteq> K" "distinct (fw_pages w)"
    "\<forall>i \<in> set (fw_pages w). fw_view ?h i \<noteq> []" "concat (map (fw_view ?h) (fw_pages w)) = map Some xs"
    "hp_current ?h = (if fw_pages w = [] then None else Some (last (fw_pages w)))"
    "length (fw_pages w) + Suc n \<le> fw_max_pages w" "room_for (Suc n) (pc_block (hp_cache ?h))"
    using h unfolding fw_holds_def by blast
  note H = scratch_pool.heap_okD [OF K(1)]
  have "disk_plain (pc_block (hp_cache ?h))" using pool_invD(1) [OF H(1)] by (simp add: scratch_spec_def disk_spec_def)
  then have room: "ps_room scratch_spec (pc_block (hp_cache ?h))"
    using room_for_disk K(8) by (simp add: scratch_spec_def disk_spec_def)
  let ?m = "heap_map scratch_spec K (hp_cache ?h)"
  obtain K' l h' where i: "heap_insert ?env b ?h = (if length b \<le> max_tuple then Inr l else Inl (TupleTooLarge (length b) max_tuple), h')"
    "heap_ok ?env scratch_spec K' h'" "K \<subseteq> K'" "l \<notin> dom ?m"
    "heap_map scratch_spec K' (hp_cache h') = (if length b \<le> max_tuple then ?m(l \<mapsto> Some b) else ?m)"
    by (rule scratch_pool.heap_insert_ok [OF K(1) room, of b]) (rule that; assumption)
  have ins: "heap_insert ?env b ?h = (Inr l, h')" and m': "heap_map scratch_spec K' (hp_cache h') = ?m(l \<mapsto> Some b)"
    using i(1,5) b by simp_all
  note P = scratch_pool.heap_insert_page [OF K(1) room ins]
  note H' = scratch_pool.heap_okD [OF i(2)]
  have rm: "room_for n (pc_block (hp_cache h'))"
    using room_for_step [of 1 "hp_cache ?h" "Inr l :: fs_error + tuple_loc" "hp_cache h'" n] spends_heap(1) [of ?h crc jcrc b] ins K(8) by simp
  have v: "page_list ?m j (fw_view ?h j)" if "j \<in> K" for j using page_list_view [OF that H(4) [OF that]] by (simp add: fw_view_def)
  have v': "page_list (?m(l \<mapsto> Some b)) j (fw_view h' j)" if "j \<in> K'" for j
    using page_list_view [OF that H'(4) [OF that]] m' by (simp add: fw_view_def)
  have other: "fw_view h' j = fw_view ?h j" if "j \<in> set (fw_pages w)" "j \<noteq> page_id l" for j
  proof -
    have j: "j \<in> K" "j \<in> K'" using that(1) K(2) i(3) by auto
    have "\<lparr>page_id = j, slot_id = s\<rparr> \<noteq> l" for s using that(2) by auto
    then have "page_list ?m j (fw_view h' j)" using v' [OF j(2)] by (simp add: page_list_def)
    then show ?thesis using page_list_unique v [OF j(1)] by blast
  qed
  have same: "fw_view h' (page_id l) = fw_view ?h (page_id l) @ [Some b]" if "page_id l \<in> K"
    using page_list_snoc [OF v [OF that] v' _ i(4)] that i(3) by auto
  show ?thesis
  proof (cases "fw_pages w \<noteq> [] \<and> last (fw_pages w) = page_id l")
    case True
    then obtain ps where ps: "fw_pages w = ps @ [page_id l]" by (metis append_butlast_last_id)
    have lK: "page_id l \<in> K" using ps K(2) by simp
    have "map (fw_view h') ps = map (fw_view ?h) ps" using other K(3) ps by auto
    then have c: "concat (map (fw_view h') (fw_pages w)) = map Some (xs @ [b])"
      using K(5) same [OF lK] unfolding ps by (simp del: map_eq_conv)
    have ne: "fw_view h' j \<noteq> []" if "j \<in> set (fw_pages w)" for j
      using K(4) other [OF that] same [OF lK] that by (cases "j = page_id l") simp_all
    have "fw_holds crc jcrc n (w\<lparr>fw_heap := h'\<rparr>) (xs @ [b])"
      unfolding fw_holds_def using i(2,3) K(2,3,7) ne c P(1) True rm by (intro exI [of _ K']) auto
    then show ?thesis using True ins by (simp add: fw_append_def Let_def)
  next
    case False
    then have nc: "hp_current ?h \<noteq> Some (page_id l)" using K(6) by auto
    then have "slot_id l = 0" using P(2) by simp
    then have l0: "l = \<lparr>page_id = page_id l, slot_id = 0\<rparr>" by (cases l) simp
    then have m0: "?m \<lparr>page_id = page_id l, slot_id = 0\<rparr> = None" using i(4) by (metis domIff)
    have e: "page_list ?m (page_id l) []"
    proof (cases "page_id l \<in> K")
      case True
      then have "fw_view ?h (page_id l) = []" using v [OF True] m0 by (auto simp: page_list_def split: if_splits)
      then show ?thesis using v [OF True] by simp
    qed (simp add: page_list_def heap_map_def)
    have lK': "page_id l \<in> K'"
    proof -
      have "heap_map scratch_spec K' (hp_cache h') l \<noteq> None" using m' by simp
      then show ?thesis by (simp add: heap_map_def split: if_splits)
    qed
    have s1: "fw_view h' (page_id l) = [Some b]" using page_list_snoc [OF e v' [OF lK'] refl i(4)] by simp
    have new: "page_id l \<notin> set (fw_pages w)"
    proof
      assume p: "page_id l \<in> set (fw_pages w)"
      then have "page_id l \<in> K" using K(2) by auto
      then have "fw_view ?h (page_id l) = []" using page_list_unique [OF v e] by simp
      then show False using K(4) p by simp
    qed
    have old: "fw_view h' j = fw_view ?h j" if "j \<in> set (fw_pages w)" for j using other [OF that] new that by auto
    then have "map (fw_view h') (fw_pages w) = map (fw_view ?h) (fw_pages w)" by simp
    then have c: "concat (map (fw_view h') (fw_pages w @ [page_id l])) = map Some (xs @ [b])"
      using K(5) s1 by (simp del: map_eq_conv)
    have "fw_holds crc jcrc n (w\<lparr>fw_heap := h', fw_pages := fw_pages w @ [page_id l]\<rparr>) (xs @ [b])"
      unfolding fw_holds_def using i(2,3) K(2,3,4,7) old s1 c P(1) rm new lK' by (intro exI [of _ K']) auto
    then show ?thesis using False ins K(7) by (auto simp: fw_append_def Let_def)
  qed
qed

lemma fw_read_ok:
  assumes "heap_ok (disk_env crc jcrc) scratch_spec K h" and "set ps \<subseteq> K" and "concat (map (fw_view h) ps) = map Some xs"
    and "room_for n (pc_block (hp_cache h))"
  shows "\<exists>h'. fw_read_pages (disk_env crc jcrc) ps h = (Inr xs, h') \<and> heap_ok (disk_env crc jcrc) scratch_spec K h' \<and>
    (\<forall>i \<in> K. fw_view h' i = fw_view h i) \<and> hp_current h' = hp_current h \<and> room_for n (pc_block (hp_cache h'))"
  using assms
proof (induction ps arbitrary: h xs)
  case (Cons i ps)
  let ?env = "disk_env crc jcrc" and ?c = "hp_cache h"
  note H = scratch_pool.heap_okD [OF Cons(2)]
  have iK: "i \<in> K" using Cons(3) by simp
  obtain f c1 where w: "acquire_read ?env i ?c = (Inr f, c1)" "same_page (page_bytes f c1) (pview scratch_spec ?c i)"
    "pool_after ?env scratch_spec K ?c (release_read f c1)" "same_view scratch_spec K ?c (release_read f c1)"
    by (rule scratch_pool.read_page_ok [OF H(1-3) iK]) (rule that; assumption)
  have g: "heap_page ?env i h = (Inr f, h\<lparr>hp_cache := c1\<rparr>)" using w(1) by (simp add: heap_page_def on_cache_def)
  have ok: "tp_ok (page_bytes f c1)" "tp_view (page_bytes f c1) = fw_view h i"
    using same_page_tp(1) [OF w(2)] same_page_tp(2) [OF w(2) H(4) [OF iK]] H(4) [OF iK] by (simp_all add: fw_view_def)
  let ?h = "drop_ref f (h\<lparr>hp_cache := c1\<rparr>)"
  have s: "same_page (pview scratch_spec (release_read f c1) j) (pview scratch_spec ?c j)" if "j \<in> K" for j using w(4) that by (simp add: same_view_def)
  have h1: "heap_ok ?env scratch_spec K ?h"
    using w(3) H(3,5) same_page_tp(1) [OF s] H(4) by (simp add: heap_ok_def pool_after_def drop_ref_def)
  have v1: "fw_view ?h j = fw_view h j" if "j \<in> K" for j
    using same_page_tp(2) [OF s [OF that] H(4) [OF that]] by (simp add: fw_view_def drop_ref_def)
  have r1: "room_for n (pc_block (hp_cache ?h))"
    using room_for_step [of 0 ?c "Inr f :: fs_error + nat" c1 n] spends_acquire(1) [of ?c crc jcrc i] w(1) Cons(5) by (simp add: drop_ref_def)
  obtain ys zs where y: "xs = ys @ zs" "fw_view h i = map Some ys" "concat (map (fw_view h) ps) = map Some zs"
    using Cons(4) by (auto simp: append_eq_map_conv)
  have "map (fw_view ?h) ps = map (fw_view h) ps" using v1 Cons(3) by auto
  then have "concat (map (fw_view ?h) ps) = map Some zs" using y(3) by (simp del: map_eq_conv)
  then obtain h' where h': "fw_read_pages ?env ps ?h = (Inr zs, h')" "heap_ok ?env scratch_spec K h'" "\<forall>i \<in> K. fw_view h' i = fw_view ?h i"
      "hp_current h' = hp_current ?h" "room_for n (pc_block (hp_cache h'))"
    using Cons(1) [OF h1 _ _ r1] Cons(3) by auto
  have "block_tuples (page_bytes f c1) = Inr ys" using block_tuples_ok [OF ok(1)] ok(2) y(2) by simp
  then show ?case using g h' v1 y(1) by (intro exI [of _ h']) (simp add: drop_ref_def)
qed auto

lemma fw_tuples_ok:
  assumes h: "fw_holds crc jcrc n w xs"
  shows "\<exists>w'. fw_tuples (disk_env crc jcrc) w = (Inr xs, w') \<and> fw_holds crc jcrc n w' xs \<and> fw_used w' = fw_used w"
proof -
  obtain K where K: "heap_ok (disk_env crc jcrc) scratch_spec K (fw_heap w)" "set (fw_pages w) \<subseteq> K" "distinct (fw_pages w)"
    "\<forall>i \<in> set (fw_pages w). fw_view (fw_heap w) i \<noteq> []" "concat (map (fw_view (fw_heap w)) (fw_pages w)) = map Some xs"
    "hp_current (fw_heap w) = (if fw_pages w = [] then None else Some (last (fw_pages w)))"
    "length (fw_pages w) + n \<le> fw_max_pages w" "room_for n (pc_block (hp_cache (fw_heap w)))"
    using h unfolding fw_holds_def by blast
  obtain h' where h': "fw_read_pages (disk_env crc jcrc) (fw_pages w) (fw_heap w) = (Inr xs, h')" "heap_ok (disk_env crc jcrc) scratch_spec K h'"
      "\<forall>i \<in> K. fw_view h' i = fw_view (fw_heap w) i" "hp_current h' = hp_current (fw_heap w)" "room_for n (pc_block (hp_cache h'))"
    using fw_read_ok [OF K(1,2,5,8)] by blast
  have v: "fw_view h' i = fw_view (fw_heap w) i" if "i \<in> set (fw_pages w)" for i using that K(2) h'(3) by auto
  then have "map (fw_view h') (fw_pages w) = map (fw_view (fw_heap w)) (fw_pages w)" by simp
  then have c: "concat (map (fw_view h') (fw_pages w)) = map Some xs" using K(5) by (simp del: map_eq_conv)
  have "fw_holds crc jcrc n (w\<lparr>fw_heap := h'\<rparr>) xs"
    unfolding fw_holds_def using h'(2,4,5) K(2-4,6,7) v c by (intro exI [of _ K]) simp
  then show ?thesis using h'(1) by (simp add: fw_tuples_def fw_used_def)
qed

text \<open>How many tuples a fresh file workspace takes at least: one per page of its budget, as far as
  the file system has space.\<close>

definition fw_capacity :: "nat \<Rightarrow> nat \<Rightarrow> nat" where
  "fw_capacity space disk_budget = min (disk_budget div PAGE_SIZE) (min (2 ^ 50 - 1) (space div (16 * BLOCK_SIZE) * 16 - 1))"

lemma disk_open_space: "disk_open \<lparr>of_data = [], of_space = s\<rparr> = Inr v \<Longrightarrow> of_space (ds_file v) = s"
proof -
  let ?v = "\<lparr>ds_file = \<lparr>of_data = [], of_space = s\<rparr>, ds_next = 1, ds_capacity = 0, ds_free = []\<rparr>"
  assume "disk_open \<lparr>of_data = [], of_space = s\<rparr> = Inr v"
  then obtain r v1 where m: "set_capacity 1 ?v = (Inr r, v1)" "write_superblock v1 = (Inr (), v)"
    by (auto simp: disk_open_def file_size_def st_bind_def Let_def split: prod.splits sum.splits)
  have "of_space (ds_file v) = of_space (ds_file v1)" using disk_space(3) [of v1] m(2) by (simp add: disk_sync_def)
  also have "\<dots> = s" using set_capacity_space(1) [of 1 ?v] m(1) by simp
  finally show ?thesis .
qed

lemma fw_new_ok:
  assumes "fw_new \<lparr>of_data = [], of_space = space\<rparr> memory_budget disk_budget = Inr w"
  shows "fw_holds crc jcrc (fw_capacity space disk_budget) w []"
proof -
  let ?n = "max (memory_budget div PAGE_SIZE) 1"
  have sp: "BLOCK_SIZE \<le> space"
  proof (rule ccontr)
    assume "\<not> BLOCK_SIZE \<le> space"
    then have "disk_open \<lparr>of_data = [], of_space = space\<rparr> = Inl (grow_error IoNoSpace)"
      by (simp add: disk_open_def file_size_def set_capacity_def st_bind_def on_file_def file_set_len_def BLOCK_SIZE_def)
    then show False using assms by (simp add: fw_new_def Let_def split: if_splits)
  qed
  obtain v where v: "disk_open \<lparr>of_data = [], of_space = space\<rparr> = Inr v" "disk_inv v" "disk_live v = {}" "ds_free v = []"
    "file_limit (ds_file v) = space" "ds_next v = 1" "read_superblock (ds_file v) = Inr (1, [])"
    by (rule disk_open_fresh [OF sp]) (rule that; assumption)
  have pl: "disk_plain v" using v by (simp add: disk_plain_def disk_ok_def super_ok_def)
  define c where "c = \<lparr>pc_block = v, pc_frames = replicate ?n frame_new, pc_table = Map.empty,
               pc_free = rev [0..<?n], pc_policy = lruk_default, pc_journal = None\<rparr>"
  have "pool_inv (disk_env crc jcrc) scratch_spec {} {} c"
    unfolding c_def
    by (rule pool_invI) (use pl in \<open>auto simp: frame_new_def frame_ok_def unpinned_def frames_with_def scratch_spec_def disk_spec_def\<close>)
  moreover have "idle c" "length (pc_frames c) = ?n" by (simp_all add: c_def idle_def frame_new_def unpinned_def)
  ultimately have ok: "heap_ok (disk_env crc jcrc) scratch_spec {} (heap_new c)" by (simp add: heap_ok_def heap_new_def)
  have w: "w = \<lparr>fw_heap = heap_new c, fw_pages = [], fw_max_pages = disk_budget div PAGE_SIZE, fw_disk_budget = disk_budget,
      fw_memory_budget = ?n * PAGE_SIZE\<rparr>"
    using assms v(1) by (simp add: fw_new_def Let_def pc_build_def c_def split: if_splits)
  let ?m = "fw_capacity space disk_budget"
  have "room_for ?m v"
  proof -
    let ?q = "space div (16 * BLOCK_SIZE)"
    have q: "16 * BLOCK_SIZE * ?q \<le> space" by (rule times_div_less_eq_dividend)
    show ?thesis
    proof (cases "?m = 0")
      case False
      then have le: "Suc ?m \<le> ?q * 16" "Suc ?m \<le> 2 ^ 50" unfolding fw_capacity_def by linarith+
      have "chunk_end (Suc ?m) \<le> chunk_end (?q * 16)" by (rule chunk_end_mono [OF le(1)])
      also have "\<dots> = ?q * 16" by (simp add: chunk_end_def)
      finally have "BLOCK_SIZE * chunk_end (Suc ?m) \<le> BLOCK_SIZE * (?q * 16)" by (rule mult_le_mono2)
      also have "\<dots> \<le> space" using q by (simp add: algebra_simps)
      finally show ?thesis using le(2) v(6) disk_open_space [OF v(1)] by (simp add: room_for_def)
    qed (simp add: room_for_def)
  qed
  then show ?thesis unfolding fw_holds_def w using ok
    by (intro exI [of _ "{}"]) (simp add: heap_new_def fw_capacity_def c_def)
qed

interpretation file_work: workspace "file_ws (disk_env crc jcrc) \<lparr>of_data = [], of_space = space\<rparr> memory_budget disk_budget"
    "fw_holds crc jcrc" "fw_capacity space disk_budget" for crc jcrc space memory_budget disk_budget
proof
  show "ws_new (file_ws (disk_env crc jcrc) \<lparr>of_data = [], of_space = space\<rparr> memory_budget disk_budget) = Inr w \<Longrightarrow>
      fw_holds crc jcrc (fw_capacity space disk_budget) w []" for w
    by (simp add: file_ws_def fw_new_ok)
  show "fw_holds crc jcrc (Suc n) w xs \<Longrightarrow> length b \<le> max_tuple \<Longrightarrow>
      \<exists>l w'. ws_append (file_ws (disk_env crc jcrc) \<lparr>of_data = [], of_space = space\<rparr> memory_budget disk_budget) b w = (Inr l, w') \<and>
        fw_holds crc jcrc n w' (xs @ [b])" for n w xs b
    by (simp add: file_ws_def fw_append_ok)
  show "fw_holds crc jcrc n w xs \<Longrightarrow>
      \<exists>w'. ws_tuples (file_ws (disk_env crc jcrc) \<lparr>of_data = [], of_space = space\<rparr> memory_budget disk_budget) w = (Inr xs, w') \<and>
        fw_holds crc jcrc n w' xs" for n w xs
    using fw_tuples_ok [of crc jcrc n w xs] by (auto simp: file_ws_def)
qed

end
