(* ===== verification/Workspace_Properties.thy ===== *)
theory Workspace_Properties
  imports Workspaces
begin

text \<open>
  What an operator that spills relies on: both workspaces take a stream of tuples up to their bound
  and give it back.
\<close>

lemma fw_new_opens:
  assumes "BLOCK_SIZE \<le> space" "PAGE_SIZE \<le> disk_budget"
  obtains w where "fw_new \<lparr>of_data = [], of_space = space\<rparr> memory_budget disk_budget = Inr w"
proof -
  obtain v where "disk_open \<lparr>of_data = [], of_space = space\<rparr> = Inr v"
    by (rule disk_open_fresh [OF assms(1)]) (rule that)
  moreover have "1 \<le> disk_budget div PAGE_SIZE" using assms(2) by (simp add: PAGE_SIZE_def BLOCK_SIZE_def)
  moreover obtain c where "pc_build v (max (memory_budget div PAGE_SIZE) 1) lruk_default None = Inr c" by (simp add: pc_build_def)
  ultimately show thesis using that by (simp add: fw_new_def Let_def)
qed

text \<open>C28. A workspace gives back what was spilled to it. A file workspace opens on any file system
  with room for a block, the memory workspace for every positive bound. Appending tuples that
  fit in a page then succeeds for at least as many of them as the budget has pages (for the
  file workspace, as far as the file system has space too), and reading the workspace
  afterwards, through a page cache of any size that evicts pages to the temporary file and without
  a journal, gives exactly the tuples appended, in order.\<close>

theorem workspaces_replay:
  assumes "BLOCK_SIZE \<le> space" "PAGE_SIZE \<le> disk_budget" "length xs \<le> fw_capacity space disk_budget" "\<forall>x\<in>set xs. length x \<le> max_tuple"
    and "0 < cap" "length ys \<le> cap div PAGE_SIZE" "\<forall>y\<in>set ys. length y \<le> max_tuple"
  shows "(\<exists>w w1 w2. fw_new \<lparr>of_data = [], of_space = space\<rparr> memory_budget disk_budget = Inr w \<and>
        st_iter (\<lambda>x. st_bind (fw_append (disk_env crc jcrc) x) (\<lambda>_. st_return ())) xs w = (Inr (), w1) \<and>
        fw_tuples (disk_env crc jcrc) w1 = (Inr xs, w2)) \<and>
     (\<exists>w w1 w2. mw_new cap = Inr w \<and> st_iter (\<lambda>x. st_bind (mw_append x) (\<lambda>_. st_return ())) ys w = (Inr (), w1) \<and>
        mw_tuples w1 = (Inr ys, w2))"
proof
  obtain w where w: "fw_new \<lparr>of_data = [], of_space = space\<rparr> memory_budget disk_budget = Inr w"
    by (rule fw_new_opens [OF assms(1,2)])
  then show "\<exists>w w1 w2. fw_new \<lparr>of_data = [], of_space = space\<rparr> memory_budget disk_budget = Inr w \<and>
        st_iter (\<lambda>x. st_bind (fw_append (disk_env crc jcrc) x) (\<lambda>_. st_return ())) xs w = (Inr (), w1) \<and>
        fw_tuples (disk_env crc jcrc) w1 = (Inr xs, w2)"
    using file_work.spill_and_replay [of crc jcrc space memory_budget disk_budget w xs] assms(3,4) by (simp add: file_ws_def)
  obtain v where "mw_new cap = Inr v" using assms(5) by (simp add: mw_new_def)
  then show "\<exists>w w1 w2. mw_new cap = Inr w \<and> st_iter (\<lambda>x. st_bind (mw_append x) (\<lambda>_. st_return ())) ys w = (Inr (), w1) \<and>
        mw_tuples w1 = (Inr ys, w2)"
    using mem_work.spill_and_replay [of cap v ys] assms(6,7) by (simp add: mem_ws_def)
qed

theorem workspaces_replay_witness:
  "(\<exists>w w1 w2. fw_new \<lparr>of_data = [], of_space = 300000\<rparr> 0 20000 = Inr w \<and>
      st_iter (\<lambda>x. st_bind (fw_append (disk_env crc_zero (\<lambda>_. 7)) x) (\<lambda>_. st_return ())) [[1, 2], []] w = (Inr (), w1) \<and>
      fw_tuples (disk_env crc_zero (\<lambda>_. 7)) w1 = (Inr [[1, 2], []], w2)) \<and>
   (\<exists>w w1 w2. mw_new 20000 = Inr w \<and> st_iter (\<lambda>x. st_bind (mw_append x) (\<lambda>_. st_return ())) [[3], []] w = (Inr (), w1) \<and>
      mw_tuples w1 = (Inr [[3], []], w2))"
  by (rule workspaces_replay) (simp_all add: fw_capacity_def PAGE_SIZE_def BLOCK_SIZE_def max_tuple_def)

end
