(* ===== verification/Floats.thy ===== *)
theory Floats
  imports Db_Types "HOL-Library.Log_Nat"
begin

text \<open>
  The IEEE-754 arithmetic of \<open>f32\<close> and \<open>f64\<close> the expression evaluator uses, on bit patterns. A
  finite number is its sign and its magnitude as a multiple of the least subnormal, an
  integer; results are rounded to nearest, ties to even. An operation without a number as
  its result gives the quiet NaN with an empty payload (Rust leaves sign and payload open).
\<close>

unbundle bit_operations_syntax

section \<open>Formats\<close>

text \<open>\<open>p\<close> fraction bits and \<open>e\<close> exponent bits; a unit is \<open>2 ^ - fl_scale p e\<close>.\<close>

datatype fval = FNan | FInf bool | FFin bool int

definition fl_scale :: "nat \<Rightarrow> nat \<Rightarrow> nat" where
  "fl_scale p e = 2 ^ (e - 1) - 2 + p"

definition fl_decode :: "nat \<Rightarrow> nat \<Rightarrow> int \<Rightarrow> fval" where
  "fl_decode p e n =
    (let sign = (n div 2 ^ (p + e) = 1); ex = n div 2 ^ p mod 2 ^ e; fr = n mod 2 ^ p in
     if ex = 2 ^ e - 1 then (if fr = 0 then FInf sign else FNan)
     else if ex = 0 then FFin sign fr
     else FFin sign ((2 ^ p + fr) * 2 ^ nat (ex - 1)))"

definition half_even :: "int \<Rightarrow> int \<Rightarrow> int" where
  "half_even num den =
    (let q = num div den; r = 2 * (num mod den) in
     if r < den then q else if den < r then q + 1 else if even q then q else q + 1)"

text \<open>The magnitude closest to \<open>num / den\<close> units that has at most \<open>p + 1\<close> significant bits.\<close>

definition fl_round :: "nat \<Rightarrow> int \<Rightarrow> int \<Rightarrow> int" where
  "fl_round p num den =
    (let k = nat (bitlen (num div den) - int (p + 1)) in half_even num (den * 2 ^ k) * 2 ^ k)"

definition fl_encode :: "nat \<Rightarrow> nat \<Rightarrow> fval \<Rightarrow> int" where
  "fl_encode p e x =
    (let s = (\<lambda>sign. if sign then 2 ^ (p + e) else 0); top = (2 ^ e - 1) * 2 ^ p in
     case x of
       FNan \<Rightarrow> top + 2 ^ (p - 1)
     | FInf sign \<Rightarrow> s sign + top
     | FFin sign m \<Rightarrow>
         (if m < 2 ^ p then s sign + m
          else let k = nat (bitlen m - int (p + 1)) in
            if k + 1 \<ge> 2 ^ e - 1 then s sign + top
            else s sign + int (k + 1) * 2 ^ p + (m div 2 ^ k - 2 ^ p)))"

definition fl_neg :: "fval \<Rightarrow> fval" where
  "fl_neg x = (case x of FNan \<Rightarrow> FNan | FInf s \<Rightarrow> FInf (\<not> s) | FFin s m \<Rightarrow> FFin (\<not> s) m)"

section \<open>Arithmetic\<close>

definition fl_add :: "nat \<Rightarrow> fval \<Rightarrow> fval \<Rightarrow> fval" where
  "fl_add p x y =
    (case x of
       FNan \<Rightarrow> FNan
     | FInf s \<Rightarrow> (case y of FNan \<Rightarrow> FNan | FInf s' \<Rightarrow> if s = s' then FInf s else FNan | FFin _ _ \<Rightarrow> FInf s)
     | FFin s m \<Rightarrow>
         (case y of
            FNan \<Rightarrow> FNan
          | FInf s' \<Rightarrow> FInf s'
          | FFin s' m' \<Rightarrow>
              let v = (if s then - m else m) + (if s' then - m' else m') in
              if v = 0 then FFin (s \<and> s') 0 else FFin (v < 0) (fl_round p \<bar>v\<bar> 1)))"

definition fl_mul :: "nat \<Rightarrow> nat \<Rightarrow> fval \<Rightarrow> fval \<Rightarrow> fval" where
  "fl_mul p e x y =
    (case x of
       FNan \<Rightarrow> FNan
     | FInf s \<Rightarrow> (case y of FNan \<Rightarrow> FNan | FInf s' \<Rightarrow> FInf (s \<noteq> s') | FFin s' m' \<Rightarrow> if m' = 0 then FNan else FInf (s \<noteq> s'))
     | FFin s m \<Rightarrow>
         (case y of
            FNan \<Rightarrow> FNan
          | FInf s' \<Rightarrow> if m = 0 then FNan else FInf (s \<noteq> s')
          | FFin s' m' \<Rightarrow> FFin (s \<noteq> s') (fl_round p (m * m') (2 ^ fl_scale p e))))"

definition fl_div :: "nat \<Rightarrow> nat \<Rightarrow> fval \<Rightarrow> fval \<Rightarrow> fval" where
  "fl_div p e x y =
    (case x of
       FNan \<Rightarrow> FNan
     | FInf s \<Rightarrow> (case y of FNan \<Rightarrow> FNan | FInf _ \<Rightarrow> FNan | FFin s' _ \<Rightarrow> FInf (s \<noteq> s'))
     | FFin s m \<Rightarrow>
         (case y of
            FNan \<Rightarrow> FNan
          | FInf s' \<Rightarrow> FFin (s \<noteq> s') 0
          | FFin s' m' \<Rightarrow>
              if m' = 0 then (if m = 0 then FNan else FInf (s \<noteq> s'))
              else FFin (s \<noteq> s') (fl_round p (m * 2 ^ fl_scale p e) m')))"

text \<open>\<open>ceil\<close>, \<open>floor\<close>, \<open>round\<close> (ties away from zero).\<close>

datatype rounding = Ceil | Floor | Nearest

definition fl_integral :: "nat \<Rightarrow> nat \<Rightarrow> rounding \<Rightarrow> fval \<Rightarrow> fval" where
  "fl_integral p e mode x =
    (case x of
       FFin s m \<Rightarrow>
         (let u = 2 ^ fl_scale p e; t = m div u; r = m mod u;
              up = (case mode of Ceil \<Rightarrow> \<not> s \<and> r > 0 | Floor \<Rightarrow> s \<and> r > 0 | Nearest \<Rightarrow> 2 * r \<ge> u) in
          FFin s ((t + (if up then 1 else 0)) * u))
     | _ \<Rightarrow> x)"

section \<open>Bit patterns\<close>

abbreviation f64_dec :: "64 word \<Rightarrow> fval" where "f64_dec w \<equiv> fl_decode 52 11 (uint w)"
abbreviation f64_enc :: "fval \<Rightarrow> 64 word" where "f64_enc x \<equiv> word_of_int (fl_encode 52 11 x)"
abbreviation f32_dec :: "32 word \<Rightarrow> fval" where "f32_dec w \<equiv> fl_decode 23 8 (uint w)"
abbreviation f32_enc :: "fval \<Rightarrow> 32 word" where "f32_enc x \<equiv> word_of_int (fl_encode 23 8 x)"

definition f64_add :: "64 word \<Rightarrow> 64 word \<Rightarrow> 64 word" where
  "f64_add a b = f64_enc (fl_add 52 (f64_dec a) (f64_dec b))"

definition f64_sub :: "64 word \<Rightarrow> 64 word \<Rightarrow> 64 word" where
  "f64_sub a b = f64_enc (fl_add 52 (f64_dec a) (fl_neg (f64_dec b)))"

definition f64_mul :: "64 word \<Rightarrow> 64 word \<Rightarrow> 64 word" where
  "f64_mul a b = f64_enc (fl_mul 52 11 (f64_dec a) (f64_dec b))"

definition f64_div :: "64 word \<Rightarrow> 64 word \<Rightarrow> 64 word" where
  "f64_div a b = f64_enc (fl_div 52 11 (f64_dec a) (f64_dec b))"

definition f64_integral :: "rounding \<Rightarrow> 64 word \<Rightarrow> 64 word" where
  "f64_integral mode a = f64_enc (fl_integral 52 11 mode (f64_dec a))"

text \<open>\<open>as f64\<close> from an integer, \<open>as f64\<close> and \<open>as f32\<close> between the formats, \<open>as i64\<close>.\<close>

definition f64_of_int :: "int \<Rightarrow> 64 word" where
  "f64_of_int n = f64_enc (FFin (n < 0) (fl_round 52 (\<bar>n\<bar> * 2 ^ fl_scale 52 11) 1))"

definition f64_of_f32 :: "32 word \<Rightarrow> 64 word" where
  "f64_of_f32 a = f64_enc (case f32_dec a of FFin s m \<Rightarrow> FFin s (fl_round 52 (m * 2 ^ fl_scale 52 11) (2 ^ fl_scale 23 8)) | x \<Rightarrow> x)"

definition f32_of_f64 :: "64 word \<Rightarrow> 32 word" where
  "f32_of_f64 a = f32_enc (case f64_dec a of FFin s m \<Rightarrow> FFin s (fl_round 23 (m * 2 ^ fl_scale 23 8) (2 ^ fl_scale 52 11)) | x \<Rightarrow> x)"

definition i64_of_f64 :: "64 word \<Rightarrow> 64 word" where
  "i64_of_f64 a =
    (case f64_dec a of
       FNan \<Rightarrow> 0
     | FInf s \<Rightarrow> word_of_int (if s then - (2 ^ 63) else 2 ^ 63 - 1)
     | FFin s m \<Rightarrow> (let t = m div 2 ^ fl_scale 52 11 in word_of_int (max (- (2 ^ 63)) (min (2 ^ 63 - 1) (if s then - t else t)))))"

end
