(* ===== verification/Temporal.thy ===== *)
theory Temporal
  imports Query_Types Floats "HOL-Library.Signed_Division"
begin

text \<open>
  Dates, times and intervals as text: \<^verbatim>\<open>src/crates/strata-db/src/storage/temporal.rs\<close>. The calendar of
  \<open>chrono\<close> and the interval grammar of \<open>pg_interval\<close> are parameters: a parser gives the count
  of days or microseconds since the epoch (\<open>None\<close> where it fails), a formatter the text (\<open>None\<close>
  where it panics: a date or an instant outside the calendar).
\<close>

section \<open>Strings of the standard library\<close>

text \<open>A string literal, the characters of a \<open>str\<close>, and \<open>str::trim\<close> with the characters of the
  Unicode property White\_Space.\<close>

definition ascii :: "string \<Rightarrow> bytes" where
  "ascii s = map of_char s"

definition str_chars :: "bytes \<Rightarrow> int list" where
  "str_chars s = (case utf8_chars s of None \<Rightarrow> [] | Some cs \<Rightarrow> cs)"

definition is_whitespace :: "int \<Rightarrow> bool" where
  "is_whitespace c \<longleftrightarrow> 9 \<le> c \<and> c \<le> 13 \<or> c = 0x20 \<or> c = 0x85 \<or> c = 0xA0 \<or> c = 0x1680 \<or> 0x2000 \<le> c \<and> c \<le> 0x200A
    \<or> c = 0x2028 \<or> c = 0x2029 \<or> c = 0x202F \<or> c = 0x205F \<or> c = 0x3000"

definition str_trim :: "bytes \<Rightarrow> bytes" where
  "str_trim s = utf8_string (rev (dropWhile is_whitespace (rev (dropWhile is_whitespace (str_chars s)))))"

text \<open>\<open>str::parse::<i64>\<close>: an optional sign and at least one digit, in range.\<close>

fun digits_int :: "int \<Rightarrow> bytes \<Rightarrow> int option" where
  "digits_int acc [] = Some acc"
| "digits_int acc (b # bs) = (if 48 \<le> b \<and> b \<le> 57 then digits_int (acc * 10 + (uint b - 48)) bs else None)"

definition in_i64 :: "int \<Rightarrow> bool" where
  "in_i64 n \<longleftrightarrow> - (2 ^ 63) \<le> n \<and> n < 2 ^ 63"

definition i64_parse :: "bytes \<Rightarrow> 64 word option" where
  "i64_parse s =
    (let (neg, ds) = (case s of [] \<Rightarrow> (False, []) | b # bs \<Rightarrow> if b = 45 then (True, bs) else if b = 43 then (False, bs) else (False, s)) in
     if ds = [] then None
     else case digits_int 0 ds of
       None \<Rightarrow> None
     | Some m \<Rightarrow> let n = (if neg then - m else m) in if in_i64 n then Some (word_of_int n) else None)"

section \<open>Calendar\<close>

record temporal_ops =
  naive_date_parse :: "bytes \<Rightarrow> int option"
  naive_date_format :: "int \<Rightarrow> bytes option"
  rfc3339_parse :: "bytes \<Rightarrow> int option"
  datetime_parse :: "bytes \<Rightarrow> string \<Rightarrow> int option"
  naive_datetime_parse :: "bytes \<Rightarrow> string \<Rightarrow> int option"
  datetime_format :: "int \<Rightarrow> bytes option"
  naive_time_parse :: "bytes \<Rightarrow> string \<Rightarrow> (int \<times> int) option"
  pg_from_postgres :: "bytes \<Rightarrow> interval option"
  pg_from_sql :: "bytes \<Rightarrow> interval option"
  pg_from_iso :: "bytes \<Rightarrow> interval option"
  pg_to_postgres :: "interval \<Rightarrow> bytes"

text \<open>The first format that parses.\<close>

fun first_some :: "('a \<Rightarrow> 'b option) \<Rightarrow> 'a list \<Rightarrow> 'b option" where
  "first_some f [] = None"
| "first_some f (x # xs) = (case f x of None \<Rightarrow> first_some f xs | Some y \<Rightarrow> Some y)"

definition parse_date :: "temporal_ops \<Rightarrow> bytes \<Rightarrow> 32 word option" where
  "parse_date tm s = map_option word_of_int (naive_date_parse tm s)"

definition format_date :: "temporal_ops \<Rightarrow> 32 word \<Rightarrow> bytes option" where
  "format_date tm days = naive_date_format tm (sint days)"

definition parse_timestamptz :: "temporal_ops \<Rightarrow> bytes \<Rightarrow> 64 word option" where
  "parse_timestamptz tm s0 =
    (let s = str_trim s0 in
     map_option word_of_int
      (case rfc3339_parse tm s of
         Some t \<Rightarrow> Some t
       | None \<Rightarrow>
           (case first_some (datetime_parse tm s)
              [''%Y-%m-%d %H:%M:%S%.f%#z'', ''%Y-%m-%dT%H:%M:%S%.f%#z'', ''%Y-%m-%d %H:%M:%S%#z'', ''%Y-%m-%dT%H:%M:%S%#z''] of
              Some t \<Rightarrow> Some t
            | None \<Rightarrow> first_some (naive_datetime_parse tm s)
                [''%Y-%m-%d %H:%M:%S%.f'', ''%Y-%m-%dT%H:%M:%S%.f'', ''%Y-%m-%d %H:%M:%S'', ''%Y-%m-%dT%H:%M:%S''])))"

definition format_timestamptz :: "temporal_ops \<Rightarrow> 64 word \<Rightarrow> bytes option" where
  "format_timestamptz tm micros = datetime_format tm (sint micros)"

text \<open>\<open>naive_time_parse\<close> gives the seconds since midnight and the nanoseconds.\<close>

definition parse_time :: "temporal_ops \<Rightarrow> bytes \<Rightarrow> 64 word option" where
  "parse_time tm s0 =
    (let s = str_trim s0 in
     map_option (\<lambda>(secs, nanos). word_of_int (secs * 1000000 + nanos div 1000))
       (first_some (naive_time_parse tm s) [''%H:%M:%S%.f'', ''%H:%M:%S'']))"

text \<open>\<open>{n:02}\<close>.\<close>

definition pad2 :: "int \<Rightarrow> bytes" where
  "pad2 n = (let s = int_string n in if length s < 2 then 48 # s else s)"

definition format_time :: "64 word \<Rightarrow> bytes" where
  "format_time micros =
    (let secs = sint micros div 1000000 in
     pad2 (secs sdiv 3600) @ ascii '':'' @ pad2 ((secs sdiv 60) smod 60) @ ascii '':'' @ pad2 (secs smod 60))"

definition parse_interval :: "temporal_ops \<Rightarrow> bytes \<Rightarrow> interval option" where
  "parse_interval tm s0 = (let s = str_trim s0 in first_some (\<lambda>f. f s) [pg_from_postgres tm, pg_from_sql tm, pg_from_iso tm])"

definition format_interval :: "temporal_ops \<Rightarrow> interval \<Rightarrow> bytes" where
  "format_interval tm iv = pg_to_postgres tm iv"

end
