(* ===== verification/Expressions.thy ===== *)
theory Expressions
  imports Temporal "HOL-Library.While_Combinator"
begin

text \<open>
  Scalar expressions and their evaluation on a row: \<^verbatim>\<open>src/crates/strata-db/src/query/expression/\<close>
  (\<^verbatim>\<open>mod.rs\<close>, \<^verbatim>\<open>cast.rs\<close>, \<^verbatim>\<open>function.rs\<close>). The arithmetic of \<open>rust_decimal\<close>, the text of floats, the
  Unicode case tables and the UUID syntax are parameters; integers are checked as the code
  checks them, and IEEE arithmetic is that of the theory \<open>Floats\<close>. An unchecked product wraps,
  as in a release build. Of an error message the fixed part is kept.
\<close>

section \<open>Expressions\<close>

datatype binary_operator = BEq | BNotEq | BLt | BLtEq | BGt | BGtEq | BAnd | BOr | BAdd | BSub | BMul | BDiv | BMod | BConcat

datatype scalar_func =
    FAbs | FGreatest | FLeast | FCeil | FFloor | FRound | FCoalesce | FLength | FRepeat | FUpper | FLower
  | FNullif | FConcat | FSubstr | FTrimBoth | FTrimLeading | FTrimTrailing

datatype ('j, 'd) expr =
    EColumn nat
  | ELiteral "('j, 'd) sql_value"
  | EBinary binary_operator "('j, 'd) expr" "('j, 'd) expr"
  | ENot "('j, 'd) expr"
  | ECall scalar_func "('j, 'd) expr list"
  | EIsNull "('j, 'd) expr" bool
  | ELike "('j, 'd) expr" "('j, 'd) expr" bool
  | ENeg "('j, 'd) expr"
  | ECase "(('j, 'd) expr \<times> ('j, 'd) expr) list" "('j, 'd) expr option"
  | ECast "('j, 'd) expr" logical_type
  | EArray "('j, 'd) expr list"

section \<open>Parameters\<close>

record 'd decimal_ops =
  dec_cmp :: "'d \<Rightarrow> 'd \<Rightarrow> ordering"
  dec_zero :: 'd
  dec_of_int :: "int \<Rightarrow> 'd"
  dec_neg :: "'d \<Rightarrow> 'd"
  dec_add :: "'d \<Rightarrow> 'd \<Rightarrow> 'd option"
  dec_sub :: "'d \<Rightarrow> 'd \<Rightarrow> 'd option"
  dec_mul :: "'d \<Rightarrow> 'd \<Rightarrow> 'd option"
  dec_div :: "'d \<Rightarrow> 'd \<Rightarrow> 'd option"
  dec_rem :: "'d \<Rightarrow> 'd \<Rightarrow> 'd option"
  dec_integral :: "rounding \<Rightarrow> 'd \<Rightarrow> 'd"
  dec_to_i64 :: "'d \<Rightarrow> 64 word option"
  dec_to_f64 :: "'d \<Rightarrow> 64 word option"
  dec_of_f32 :: "32 word \<Rightarrow> 'd option"
  dec_of_f64 :: "64 word \<Rightarrow> 'd option"
  dec_parse :: "bytes \<Rightarrow> 'd option"
  dec_to_string :: "'d \<Rightarrow> bytes"

record text_ops =
  f32_to_string :: "32 word \<Rightarrow> bytes"
  f64_to_string :: "64 word \<Rightarrow> bytes"
  f64_parse :: "bytes \<Rightarrow> 64 word option"
  str_to_uppercase :: "bytes \<Rightarrow> bytes"
  str_to_lowercase :: "bytes \<Rightarrow> bytes"
  uuid_to_string :: "bytes \<Rightarrow> bytes"
  uuid_parse :: "bytes \<Rightarrow> bytes option"

record ('j, 'd) expr_ops = "('j, 'd) codec_ops" +
  eo_dec :: "'d decimal_ops"
  eo_text :: text_ops
  eo_time :: temporal_ops

section \<open>Numeric views of a value\<close>

definition as_i64 :: "('j, 'd) sql_value \<Rightarrow> 64 word option" where
  "as_i64 v = (case v of VInt16 n \<Rightarrow> Some (word_of_int (sint n)) | VInt32 n \<Rightarrow> Some (word_of_int (sint n)) | VInt64 n \<Rightarrow> Some n | _ \<Rightarrow> None)"

definition as_decimal :: "('j, 'd, 'x) expr_ops_scheme \<Rightarrow> ('j, 'd) sql_value \<Rightarrow> 'd option" where
  "as_decimal ops v =
    (case v of
       VInt16 n \<Rightarrow> Some (dec_of_int (eo_dec ops) (sint n))
     | VInt32 n \<Rightarrow> Some (dec_of_int (eo_dec ops) (sint n))
     | VInt64 n \<Rightarrow> Some (dec_of_int (eo_dec ops) (sint n))
     | VNumeric d \<Rightarrow> Some d
     | _ \<Rightarrow> None)"

definition as_f64 :: "('j, 'd, 'x) expr_ops_scheme \<Rightarrow> ('j, 'd) sql_value \<Rightarrow> 64 word option" where
  "as_f64 ops v =
    (case v of
       VInt16 n \<Rightarrow> Some (f64_of_int (sint n))
     | VInt32 n \<Rightarrow> Some (f64_of_int (sint n))
     | VInt64 n \<Rightarrow> Some (f64_of_int (sint n))
     | VFloat32 f \<Rightarrow> Some (f64_of_f32 f)
     | VFloat64 f \<Rightarrow> Some f
     | VNumeric d \<Rightarrow> dec_to_f64 (eo_dec ops) d
     | _ \<Rightarrow> None)"

definition both :: "'a option \<Rightarrow> 'a option \<Rightarrow> ('a \<times> 'a) option" where
  "both x y = (case x of None \<Rightarrow> None | Some a \<Rightarrow> map_option (Pair a) y)"

text \<open>\<open>Ord::cmp\<close>.\<close>

definition ord_cmp :: "'a::linorder \<Rightarrow> 'a \<Rightarrow> ordering" where
  "ord_cmp a b = (if a < b then Less else if a = b then Equal else Greater)"

definition f64_total_cmp :: "64 word \<Rightarrow> 64 word \<Rightarrow> ordering" where
  "f64_total_cmp a b = (if float_less a b then Less else if a = b then Equal else Greater)"

section \<open>Equality and order\<close>

text \<open>The three numeric comparisons, each tried where the one before does not apply.\<close>

definition numeric_cmp :: "('j, 'd, 'x) expr_ops_scheme \<Rightarrow> ('j, 'd) sql_value \<Rightarrow> ('j, 'd) sql_value \<Rightarrow> ordering option" where
  "numeric_cmp ops l r =
    (case both (as_i64 l) (as_i64 r) of
       Some (a, b) \<Rightarrow> Some (ord_cmp (sint a) (sint b))
     | None \<Rightarrow>
         (case both (as_decimal ops l) (as_decimal ops r) of
            Some (a, b) \<Rightarrow> Some (dec_cmp (eo_dec ops) a b)
          | None \<Rightarrow> map_option (\<lambda>(a, b). f64_total_cmp a b) (both (as_f64 ops l) (as_f64 ops r))))"

fun values_eq :: "('j, 'd, 'x) expr_ops_scheme \<Rightarrow> ('j, 'd) sql_value \<Rightarrow> ('j, 'd) sql_value \<Rightarrow> bool"
  and all_values_eq :: "('j, 'd, 'x) expr_ops_scheme \<Rightarrow> ('j, 'd) row \<Rightarrow> ('j, 'd) row \<Rightarrow> bool" where
  "values_eq ops l r =
    (case numeric_cmp ops l r of
       Some c \<Rightarrow> c = Equal
     | None \<Rightarrow>
         (case l of
            VInterval a \<Rightarrow> (case r of VInterval b \<Rightarrow> to_micros a = to_micros b | _ \<Rightarrow> l = r)
          | VArray a \<Rightarrow> (case r of VArray b \<Rightarrow> length a = length b \<and> all_values_eq ops a b | _ \<Rightarrow> l = r)
          | _ \<Rightarrow> l = r))"
| "all_values_eq ops [] ys = True"
| "all_values_eq ops (x # xs) [] = True"
| "all_values_eq ops (x # xs) (y # ys) = (values_eq ops x y \<and> all_values_eq ops xs ys)"

fun cmp_values :: "('j, 'd, 'x) expr_ops_scheme \<Rightarrow> ('j, 'd) sql_value \<Rightarrow> ('j, 'd) sql_value \<Rightarrow> query_error + ordering"
  and cmp_items :: "('j, 'd, 'x) expr_ops_scheme \<Rightarrow> ('j, 'd) row \<Rightarrow> ('j, 'd) row \<Rightarrow> query_error + ordering" where
  "cmp_values ops l r =
    (case numeric_cmp ops l r of
       Some c \<Rightarrow> Inr c
     | None \<Rightarrow>
         (let err = Inl (QType ''cannot compare'') in
          case l of
            VBool a \<Rightarrow> (case r of VBool b \<Rightarrow> Inr (ord_cmp a b) | _ \<Rightarrow> err)
          | VText a \<Rightarrow> (case r of VText b \<Rightarrow> Inr (ord_cmp a b) | _ \<Rightarrow> err)
          | VDate a \<Rightarrow> (case r of VDate b \<Rightarrow> Inr (ord_cmp (sint a) (sint b)) | _ \<Rightarrow> err)
          | VTimestamp a \<Rightarrow> (case r of VTimestamp b \<Rightarrow> Inr (ord_cmp (sint a) (sint b)) | _ \<Rightarrow> err)
          | VTime a \<Rightarrow> (case r of VTime b \<Rightarrow> Inr (ord_cmp (sint a) (sint b)) | _ \<Rightarrow> err)
          | VUuid a \<Rightarrow> (case r of VUuid b \<Rightarrow> Inr (ord_cmp a b) | _ \<Rightarrow> err)
          | VInterval a \<Rightarrow> (case r of VInterval b \<Rightarrow> Inr (ord_cmp (to_micros a) (to_micros b)) | _ \<Rightarrow> err)
          | VArray a \<Rightarrow> (case r of VArray b \<Rightarrow> cmp_items ops a b | _ \<Rightarrow> err)
          | _ \<Rightarrow> err))"
| "cmp_items ops (x # xs) (y # ys) = res_bind (cmp_values ops x y) (\<lambda>c. if c \<noteq> Equal then Inr c else cmp_items ops xs ys)"
| "cmp_items ops xs ys = Inr (ord_cmp (length xs) (length ys))"

declare values_eq.simps [simp del]
declare cmp_values.simps [simp del]

end
