(* ===== verification/Expr_Eval.thy ===== *)
theory Expr_Eval
  imports Expressions
begin

text \<open>
  The evaluator: arithmetic and logic (\<^verbatim>\<open>expression/mod.rs\<close>), casts (\<^verbatim>\<open>cast.rs\<close>), functions and
  \<open>LIKE\<close> (\<^verbatim>\<open>function.rs\<close>). Evaluating a sub-expression has no effect, so an operator takes the
  results of its arguments and uses them in the order the code evaluates them.
\<close>

unbundle bit_operations_syntax

section \<open>Arithmetic\<close>

definition checked_i64 :: "int \<Rightarrow> 64 word option" where
  "checked_i64 n = (if in_i64 n then Some (word_of_int n) else None)"

definition or_type_error :: "string \<Rightarrow> 'a option \<Rightarrow> query_error + 'a" where
  "or_type_error msg x = (case x of None \<Rightarrow> Inl (QType msg) | Some y \<Rightarrow> Inr y)"

definition res_map :: "('a \<Rightarrow> 'b) \<Rightarrow> 'e + 'a \<Rightarrow> 'e + 'b" where
  "res_map f m = res_bind m (\<lambda>x. Inr (f x))"

text \<open>\<open>checked_div\<close> and \<open>checked_rem\<close> round towards zero and fail on \<open>MIN / -1\<close>.\<close>

definition int_arith :: "binary_operator \<Rightarrow> 64 word \<Rightarrow> 64 word \<Rightarrow> query_error + ('j, 'd) sql_value" where
  "int_arith bop a b =
    (let wrap = (\<lambda>x. res_map VInt64 (or_type_error ''integer overflow'' x)) in
     case bop of
       BAdd \<Rightarrow> wrap (checked_i64 (sint a + sint b))
     | BSub \<Rightarrow> wrap (checked_i64 (sint a - sint b))
     | BMul \<Rightarrow> wrap (checked_i64 (sint a * sint b))
     | BDiv \<Rightarrow> if b = 0 then Inl (QType ''division by zero'') else wrap (checked_i64 (sint a sdiv sint b))
     | BMod \<Rightarrow> if b = 0 then Inl (QType ''division by zero'')
               else wrap (if in_i64 (sint a sdiv sint b) then Some (word_of_int (sint a smod sint b)) else None)
     | _ \<Rightarrow> Inl QPanic)"

definition float_arith :: "binary_operator \<Rightarrow> 64 word \<Rightarrow> 64 word \<Rightarrow> query_error + ('j, 'd) sql_value" where
  "float_arith bop a b =
    (case bop of
       BAdd \<Rightarrow> Inr (VFloat64 (f64_add a b))
     | BSub \<Rightarrow> Inr (VFloat64 (f64_sub a b))
     | BMul \<Rightarrow> Inr (VFloat64 (f64_mul a b))
     | BDiv \<Rightarrow> if f64_is_zero b then Inl (QType ''division by zero'') else Inr (VFloat64 (f64_div a b))
     | BMod \<Rightarrow> Inl (QType ''modulo is undefined for floating point'')
     | _ \<Rightarrow> Inl QPanic)"

definition decimal_arith :: "'d decimal_ops \<Rightarrow> binary_operator \<Rightarrow> 'd \<Rightarrow> 'd \<Rightarrow> query_error + ('j, 'd) sql_value" where
  "decimal_arith dc bop a b =
    (let wrap = (\<lambda>x. res_map VNumeric (or_type_error ''numeric overflow'' x)); zero = (dec_cmp dc b (dec_zero dc) = Equal) in
     case bop of
       BAdd \<Rightarrow> wrap (dec_add dc a b)
     | BSub \<Rightarrow> wrap (dec_sub dc a b)
     | BMul \<Rightarrow> wrap (dec_mul dc a b)
     | BDiv \<Rightarrow> if zero then Inl (QType ''division by zero'') else wrap (dec_div dc a b)
     | BMod \<Rightarrow> if zero then Inl (QType ''division by zero'') else wrap (dec_rem dc a b)
     | _ \<Rightarrow> Inl QPanic)"

definition is_float :: "('j, 'd) sql_value \<Rightarrow> bool" where
  "is_float v = (case v of VFloat32 _ \<Rightarrow> True | VFloat64 _ \<Rightarrow> True | _ \<Rightarrow> False)"

definition eval_arithmetic ::
    "('j, 'd, 'x) expr_ops_scheme \<Rightarrow> binary_operator \<Rightarrow> ('j, 'd) sql_value \<Rightarrow> ('j, 'd) sql_value \<Rightarrow> query_error + ('j, 'd) sql_value" where
  "eval_arithmetic ops bop l r =
    (case both (as_i64 l) (as_i64 r) of
       Some (a, b) \<Rightarrow> int_arith bop a b
     | None \<Rightarrow>
         (case (if is_float l \<or> is_float r then both (as_f64 ops l) (as_f64 ops r) else None) of
            Some (a, b) \<Rightarrow> float_arith bop a b
          | None \<Rightarrow>
              (case both (as_decimal ops l) (as_decimal ops r) of
                 Some (a, b) \<Rightarrow> decimal_arith (eo_dec ops) bop a b
               | None \<Rightarrow> Inl (QType ''cannot apply arithmetic''))))"

text \<open>\<open>checked_neg\<close> and \<open>checked_abs\<close>: the least integer has no negation.\<close>

definition checked_neg :: "'a::len word \<Rightarrow> 'a word option" where
  "checked_neg n = (if sint n = - (2 ^ (LENGTH('a) - 1)) then None else Some (- n))"

definition checked_abs :: "'a::len word \<Rightarrow> 'a word option" where
  "checked_abs n = (if sint n < 0 then checked_neg n else Some n)"

definition eval_neg :: "('j, 'd, 'x) expr_ops_scheme \<Rightarrow> ('j, 'd) sql_value \<Rightarrow> query_error + ('j, 'd) sql_value" where
  "eval_neg ops v =
    (case v of
       VNull \<Rightarrow> Inr VNull
     | VInt16 n \<Rightarrow> res_map VInt16 (or_type_error ''negation out of range'' (checked_neg n))
     | VInt32 n \<Rightarrow> res_map VInt32 (or_type_error ''negation out of range'' (checked_neg n))
     | VInt64 n \<Rightarrow> res_map VInt64 (or_type_error ''negation out of range'' (checked_neg n))
     | VFloat32 f \<Rightarrow> Inr (VFloat32 (float_neg f))
     | VFloat64 f \<Rightarrow> Inr (VFloat64 (float_neg f))
     | VNumeric d \<Rightarrow> Inr (VNumeric (dec_neg (eo_dec ops) d))
     | _ \<Rightarrow> Inl (QType ''cannot negate''))"

section \<open>Text\<close>

fun join_bytes :: "bytes \<Rightarrow> bytes list \<Rightarrow> bytes" where
  "join_bytes sep [] = []"
| "join_bytes sep [p] = p"
| "join_bytes sep (p # ps) = p @ sep @ join_bytes sep ps"

fun concat_str :: "('j, 'd, 'x) expr_ops_scheme \<Rightarrow> ('j, 'd) sql_value \<Rightarrow> query_error + bytes" where
  "concat_str ops VNull = Inr []"
| "concat_str ops (VBool b) = Inr (ascii (if b then ''t'' else ''f''))"
| "concat_str ops (VInt16 n) = Inr (int_string (sint n))"
| "concat_str ops (VInt32 n) = Inr (int_string (sint n))"
| "concat_str ops (VInt64 n) = Inr (int_string (sint n))"
| "concat_str ops (VFloat32 f) = Inr (f32_to_string (eo_text ops) f)"
| "concat_str ops (VFloat64 f) = Inr (f64_to_string (eo_text ops) f)"
| "concat_str ops (VNumeric d) = Inr (dec_to_string (eo_dec ops) d)"
| "concat_str ops (VText s) = Inr s"
| "concat_str ops (VDate d) = or_panic (format_date (eo_time ops) d)"
| "concat_str ops (VTimestamp t) = or_panic (format_timestamptz (eo_time ops) t)"
| "concat_str ops (VTime t) = Inr (format_time t)"
| "concat_str ops (VUuid u) = Inr (uuid_to_string (eo_text ops) u)"
| "concat_str ops (VInterval i) = Inr (format_interval (eo_time ops) i)"
| "concat_str ops (VArray items) =
    res_map (\<lambda>parts. ascii ''{'' @ join_bytes (ascii '','') parts @ ascii ''}'') (collect_res (map (concat_str ops) items))"
| "concat_str ops (VBytes _) = Inl (QType ''cannot concatenate'')"
| "concat_str ops (VJson _) = Inl (QType ''cannot concatenate'')"

section \<open>Binary operators\<close>

definition cmp_test ::
    "(ordering \<Rightarrow> bool) \<Rightarrow> ('j, 'd, 'x) expr_ops_scheme \<Rightarrow> ('j, 'd) sql_value \<Rightarrow> ('j, 'd) sql_value \<Rightarrow> query_error + ('j, 'd) sql_value" where
  "cmp_test f ops l r = res_map (\<lambda>c. VBool (f c)) (cmp_values ops l r)"

definition bool_op ::
    "string \<Rightarrow> (bool \<Rightarrow> bool \<Rightarrow> bool) \<Rightarrow> ('j, 'd) sql_value \<Rightarrow> ('j, 'd) sql_value \<Rightarrow> query_error + ('j, 'd) sql_value" where
  "bool_op msg f l r = (case l of VBool a \<Rightarrow> (case r of VBool b \<Rightarrow> Inr (VBool (f a b)) | _ \<Rightarrow> Inl (QInternal msg)) | _ \<Rightarrow> Inl (QInternal msg))"

definition eval_binary ::
    "('j, 'd, 'x) expr_ops_scheme \<Rightarrow> binary_operator \<Rightarrow> ('j, 'd) sql_value \<Rightarrow> ('j, 'd) sql_value \<Rightarrow> query_error + ('j, 'd) sql_value" where
  "eval_binary ops bop l r =
    (if bop = BAnd \<and> (l = VBool False \<or> r = VBool False) then Inr (VBool False)
     else if bop = BOr \<and> (l = VBool True \<or> r = VBool True) then Inr (VBool True)
     else if l = VNull \<or> r = VNull then Inr VNull
     else case bop of
       BEq \<Rightarrow> Inr (VBool (values_eq ops l r))
     | BNotEq \<Rightarrow> Inr (VBool (\<not> values_eq ops l r))
     | BLt \<Rightarrow> cmp_test (\<lambda>c. c = Less) ops l r
     | BLtEq \<Rightarrow> cmp_test (\<lambda>c. c \<noteq> Greater) ops l r
     | BGt \<Rightarrow> cmp_test (\<lambda>c. c = Greater) ops l r
     | BGtEq \<Rightarrow> cmp_test (\<lambda>c. c \<noteq> Less) ops l r
     | BAnd \<Rightarrow> bool_op ''AND expects Bool'' (\<and>) l r
     | BOr \<Rightarrow> bool_op ''OR expects Bool'' (\<or>) l r
     | BConcat \<Rightarrow> res_bind (concat_str ops l) (\<lambda>s. res_bind (concat_str ops r) (\<lambda>t. Inr (VText (s @ t))))
     | _ \<Rightarrow> eval_arithmetic ops bop l r)"

section \<open>LIKE\<close>

text \<open>The scan over the characters of the text with backtracking on the last \<open>%\<close> (37; \<open>_\<close> is 95).
  \<open>lk_failed\<close> marks the early \<open>return false\<close>.\<close>

record like_state =
  lk_ti :: nat
  lk_pi :: nat
  lk_star :: "nat option"
  lk_star_ti :: nat
  lk_failed :: bool

definition like_start :: like_state where
  "like_start = \<lparr>lk_ti = 0, lk_pi = 0, lk_star = None, lk_star_ti = 0, lk_failed = False\<rparr>"

definition like_step :: "int list \<Rightarrow> int list \<Rightarrow> like_state \<Rightarrow> like_state" where
  "like_step t p s =
    (let ti = lk_ti s; pi = lk_pi s in
     if pi < length p \<and> (p ! pi = 95 \<or> p ! pi = t ! ti) then s\<lparr>lk_ti := ti + 1, lk_pi := pi + 1\<rparr>
     else if pi < length p \<and> p ! pi = 37 then s\<lparr>lk_star := Some pi, lk_star_ti := ti, lk_pi := pi + 1\<rparr>
     else case lk_star s of
       Some sp \<Rightarrow> s\<lparr>lk_pi := sp + 1, lk_star_ti := lk_star_ti s + 1, lk_ti := lk_star_ti s + 1\<rparr>
     | None \<Rightarrow> s\<lparr>lk_failed := True\<rparr>)"

definition like_going :: "int list \<Rightarrow> like_state \<Rightarrow> bool" where
  "like_going t s \<longleftrightarrow> lk_ti s < length t \<and> \<not> lk_failed s"

function skip_percent :: "int list \<Rightarrow> nat \<Rightarrow> nat" where
  "skip_percent p i = (if i < length p \<and> p ! i = 37 then skip_percent p (i + 1) else i)"
  by auto
termination
  by (relation "measure (\<lambda>(p, i). length p - i)") auto

declare skip_percent.simps [simp del]

text \<open>\<open>None\<close> where the loop does not end.\<close>

definition like_chars :: "int list \<Rightarrow> int list \<Rightarrow> bool option" where
  "like_chars t p =
    map_option (\<lambda>s. \<not> lk_failed s \<and> skip_percent p (lk_pi s) = length p) (while_option (like_going t) (like_step t p) like_start)"

definition like_match :: "bytes \<Rightarrow> bytes \<Rightarrow> bool option" where
  "like_match txt pattern = like_chars (str_chars txt) (str_chars pattern)"

definition eval_like :: "('j, 'd) sql_value \<Rightarrow> ('j, 'd) sql_value \<Rightarrow> bool \<Rightarrow> query_error + ('j, 'd) sql_value" where
  "eval_like v pattern negated =
    (if v = VNull \<or> pattern = VNull then Inr VNull
     else case v of
       VText s \<Rightarrow> (case pattern of
           VText p \<Rightarrow> res_map (\<lambda>m. VBool (m \<noteq> negated)) (or_panic (like_match s p))
         | _ \<Rightarrow> Inl (QType ''LIKE expects text operands''))
     | _ \<Rightarrow> Inl (QType ''LIKE expects text operands''))"

section \<open>Functions\<close>

definition arg :: "(query_error + 'a) list \<Rightarrow> nat \<Rightarrow> query_error + 'a" where
  "arg rs i = (if i < length rs then rs ! i else Inl QPanic)"

fun eval_concat :: "('j, 'd, 'x) expr_ops_scheme \<Rightarrow> (query_error + ('j, 'd) sql_value) list \<Rightarrow> bytes \<Rightarrow> query_error + ('j, 'd) sql_value" where
  "eval_concat ops [] out = Inr (VText out)"
| "eval_concat ops (r # rs) out =
    res_bind r (\<lambda>v. if v = VNull then eval_concat ops rs out else res_bind (concat_str ops v) (\<lambda>s. eval_concat ops rs (out @ s)))"

text \<open>The characters \<open>lo..hi\<close> of a list.\<close>

definition chars_between :: "nat \<Rightarrow> nat \<Rightarrow> 'a list \<Rightarrow> 'a list" where
  "chars_between lo hi cs = take (hi - lo) (drop lo cs)"

definition saturating_i64 :: "int \<Rightarrow> int" where
  "saturating_i64 n = max (- (2 ^ 63)) (min (2 ^ 63 - 1) n)"

definition eval_substr ::
    "('j, 'd) sql_value \<Rightarrow> ('j, 'd) sql_value \<Rightarrow> ('j, 'd) sql_value \<Rightarrow> query_error + ('j, 'd) sql_value" where
  "eval_substr s start len =
    (if s = VNull \<or> start = VNull \<or> len = VNull then Inr VNull
     else case s of
       VText txt \<Rightarrow>
         res_bind (or_type_error ''SUBSTRING start must be an integer'' (as_i64 start)) (\<lambda>st.
         res_bind (or_type_error ''SUBSTRING length must be an integer'' (as_i64 len)) (\<lambda>ln.
           let cs = str_chars txt; n = int (length cs);
               from_idx = max (sint st) 1; to_idx = min (saturating_i64 (sint st + sint ln)) (n + 1) in
           if to_idx \<le> from_idx then Inr (VText [])
           else Inr (VText (utf8_string (chars_between (nat (from_idx - 1)) (nat (to_idx - 1)) cs)))))
     | _ \<Rightarrow> Inl (QType ''SUBSTRING expects a text value''))"

text \<open>The two loops of \<open>TRIM\<close> over \<open>start..end\<close>.\<close>

function trim_start :: "int list \<Rightarrow> int list \<Rightarrow> nat \<Rightarrow> nat \<Rightarrow> nat" where
  "trim_start cset cs start stop = (if start < stop \<and> cs ! start \<in> set cset then trim_start cset cs (start + 1) stop else start)"
  by auto
termination
  by (relation "measure (\<lambda>(_, _, start, stop). stop - start)") auto

function trim_end :: "int list \<Rightarrow> int list \<Rightarrow> nat \<Rightarrow> nat \<Rightarrow> nat" where
  "trim_end cset cs start stop = (if start < stop \<and> cs ! (stop - 1) \<in> set cset then trim_end cset cs start (stop - 1) else stop)"
  by auto
termination
  by (relation "measure (\<lambda>(_, _, start, stop). stop)") auto

declare trim_start.simps [simp del]
declare trim_end.simps [simp del]

definition eval_trim ::
    "('j, 'd) sql_value \<Rightarrow> ('j, 'd) sql_value \<Rightarrow> bool \<Rightarrow> bool \<Rightarrow> query_error + ('j, 'd) sql_value" where
  "eval_trim s chars leading trailing =
    (if s = VNull \<or> chars = VNull then Inr VNull
     else case s of
       VText txt \<Rightarrow> (case chars of
           VText st \<Rightarrow>
             (let cset = str_chars st; cs = str_chars txt;
                  start = (if leading then trim_start cset cs 0 (length cs) else 0);
                  stop = (if trailing then trim_end cset cs start (length cs) else length cs) in
              Inr (VText (utf8_string (chars_between start stop cs))))
         | _ \<Rightarrow> Inl (QType ''TRIM expects text values''))
     | _ \<Rightarrow> Inl (QType ''TRIM expects text values''))"

definition eval_round :: "('j, 'd, 'x) expr_ops_scheme \<Rightarrow> ('j, 'd) sql_value \<Rightarrow> rounding \<Rightarrow> query_error + ('j, 'd) sql_value" where
  "eval_round ops v mode =
    (case v of
       VNull \<Rightarrow> Inr VNull
     | VInt16 _ \<Rightarrow> Inr v
     | VInt32 _ \<Rightarrow> Inr v
     | VInt64 _ \<Rightarrow> Inr v
     | VFloat32 f \<Rightarrow> Inr (VFloat32 (f32_of_f64 (f64_integral mode (f64_of_f32 f))))
     | VFloat64 f \<Rightarrow> Inr (VFloat64 (f64_integral mode f))
     | VNumeric d \<Rightarrow> Inr (VNumeric (dec_integral (eo_dec ops) mode d))
     | _ \<Rightarrow> Inl (QType ''rounding a non-numeric value''))"

definition eval_nullif ::
    "('j, 'd, 'x) expr_ops_scheme \<Rightarrow> ('j, 'd) sql_value \<Rightarrow> ('j, 'd) sql_value \<Rightarrow> query_error + ('j, 'd) sql_value" where
  "eval_nullif ops a b = Inr (if values_eq ops a b then VNull else a)"

fun eval_coalesce :: "(query_error + ('j, 'd) sql_value) list \<Rightarrow> query_error + ('j, 'd) sql_value" where
  "eval_coalesce [] = Inr VNull"
| "eval_coalesce (r # rs) = res_bind r (\<lambda>v. if v \<noteq> VNull then Inr v else eval_coalesce rs)"

definition eval_length :: "('j, 'd) sql_value \<Rightarrow> query_error + ('j, 'd) sql_value" where
  "eval_length v =
    (case v of
       VNull \<Rightarrow> Inr VNull
     | VText s \<Rightarrow> Inr (VInt64 (word_of_int (int (length (str_chars s)))))
     | _ \<Rightarrow> Inl (QType ''LENGTH of non-text value''))"

text \<open>\<open>str::repeat\<close> panics where the length exceeds \<open>isize::MAX\<close>.\<close>

definition eval_repeat :: "('j, 'd) sql_value \<Rightarrow> ('j, 'd) sql_value \<Rightarrow> query_error + ('j, 'd) sql_value" where
  "eval_repeat s n =
    (if s = VNull \<or> n = VNull then Inr VNull
     else case s of
       VText txt \<Rightarrow>
         res_bind (or_type_error ''REPEAT count must be an integer'' (as_i64 n)) (\<lambda>count.
           let k = nat (max (sint count) 0) in
           if int (length txt) * int k < 2 ^ 63 then Inr (VText (concat (replicate k txt))) else Inl QPanic)
     | _ \<Rightarrow> Inl (QType ''REPEAT expects a text first argument''))"

definition eval_case :: "('j, 'd, 'x) expr_ops_scheme \<Rightarrow> ('j, 'd) sql_value \<Rightarrow> bool \<Rightarrow> query_error + ('j, 'd) sql_value" where
  "eval_case ops v upper =
    (case v of
       VNull \<Rightarrow> Inr VNull
     | VText s \<Rightarrow> Inr (VText (if upper then str_to_uppercase (eo_text ops) s else str_to_lowercase (eo_text ops) s))
     | _ \<Rightarrow> Inl (QType ''case folding a non-text value''))"

definition eval_abs :: "('j, 'd, 'x) expr_ops_scheme \<Rightarrow> ('j, 'd) sql_value \<Rightarrow> query_error + ('j, 'd) sql_value" where
  "eval_abs ops v =
    (case v of
       VNull \<Rightarrow> Inr VNull
     | VInt16 n \<Rightarrow> res_map VInt16 (or_type_error ''ABS argument out of range'' (checked_abs n))
     | VInt32 n \<Rightarrow> res_map VInt32 (or_type_error ''ABS argument out of range'' (checked_abs n))
     | VInt64 n \<Rightarrow> res_map VInt64 (or_type_error ''ABS argument out of range'' (checked_abs n))
     | VFloat32 f \<Rightarrow> Inr (VFloat32 (float_abs f))
     | VFloat64 f \<Rightarrow> Inr (VFloat64 (float_abs f))
     | VNumeric d \<Rightarrow> Inr (VNumeric (dec_abs ops d))
     | _ \<Rightarrow> Inl (QType ''ABS of non-numeric value''))"

fun eval_extreme ::
    "('j, 'd, 'x) expr_ops_scheme \<Rightarrow> bool \<Rightarrow> (query_error + ('j, 'd) sql_value) list \<Rightarrow> ('j, 'd) sql_value option
     \<Rightarrow> query_error + ('j, 'd) sql_value" where
  "eval_extreme ops greatest [] best = Inr (case best of None \<Rightarrow> VNull | Some v \<Rightarrow> v)"
| "eval_extreme ops greatest (r # rs) best =
    res_bind r (\<lambda>v.
      if v = VNull then eval_extreme ops greatest rs best
      else case best of
        None \<Rightarrow> eval_extreme ops greatest rs (Some v)
      | Some cur \<Rightarrow>
          res_bind (cmp_values ops cur v) (\<lambda>c.
            eval_extreme ops greatest rs (Some (if (if greatest then c = Less else c = Greater) then v else cur))))"

definition eval_call ::
    "('j, 'd, 'x) expr_ops_scheme \<Rightarrow> scalar_func \<Rightarrow> (query_error + ('j, 'd) sql_value) list \<Rightarrow> query_error + ('j, 'd) sql_value" where
  "eval_call ops func rs =
    (let one = (\<lambda>f. res_bind (arg rs 0) f);
         two = (\<lambda>f. res_bind (arg rs 0) (\<lambda>a. res_bind (arg rs 1) (\<lambda>b. f a b))) in
     case func of
       FAbs \<Rightarrow> one (eval_abs ops)
     | FGreatest \<Rightarrow> eval_extreme ops True rs None
     | FLeast \<Rightarrow> eval_extreme ops False rs None
     | FCeil \<Rightarrow> one (\<lambda>a. eval_round ops a Ceil)
     | FFloor \<Rightarrow> one (\<lambda>a. eval_round ops a Floor)
     | FRound \<Rightarrow> one (\<lambda>a. eval_round ops a Nearest)
     | FCoalesce \<Rightarrow> eval_coalesce rs
     | FLength \<Rightarrow> one eval_length
     | FRepeat \<Rightarrow> two eval_repeat
     | FUpper \<Rightarrow> one (\<lambda>a. eval_case ops a True)
     | FLower \<Rightarrow> one (\<lambda>a. eval_case ops a False)
     | FNullif \<Rightarrow> two (eval_nullif ops)
     | FConcat \<Rightarrow> eval_concat ops rs []
     | FSubstr \<Rightarrow> two (\<lambda>a b. res_bind (arg rs 2) (eval_substr a b))
     | FTrimBoth \<Rightarrow> two (\<lambda>a b. eval_trim a b True True)
     | FTrimLeading \<Rightarrow> two (\<lambda>a b. eval_trim a b True False)
     | FTrimTrailing \<Rightarrow> two (\<lambda>a b. eval_trim a b False True))"

section \<open>Casts\<close>

abbreviation cast_err :: "query_error + 'a" where
  "cast_err \<equiv> Inl (QType ''cannot cast'')"

definition or_cast_err :: "'a option \<Rightarrow> query_error + 'a" where
  "or_cast_err = or_type_error ''cannot cast''"

text \<open>\<open>i16::try_from\<close> and \<open>i32::try_from\<close>.\<close>

definition narrow :: "64 word \<Rightarrow> 'a::len word option" where
  "narrow n = (if - (2 ^ (LENGTH('a) - 1)) \<le> sint n \<and> sint n < 2 ^ (LENGTH('a) - 1) then Some (word_of_int (sint n)) else None)"

definition fit_int_cast :: "('a::len word \<Rightarrow> ('j, 'd) sql_value) \<Rightarrow> 64 word \<Rightarrow> query_error + ('j, 'd) sql_value" where
  "fit_int_cast wrap n = res_map wrap (or_type_error ''value out of range for target integer'' (narrow n))"

definition cast_to_i64 :: "('j, 'd, 'x) expr_ops_scheme \<Rightarrow> ('j, 'd) sql_value \<Rightarrow> query_error + 64 word" where
  "cast_to_i64 ops v =
    (case v of
       VInt16 n \<Rightarrow> Inr (word_of_int (sint n))
     | VInt32 n \<Rightarrow> Inr (word_of_int (sint n))
     | VInt64 n \<Rightarrow> Inr n
     | VBool b \<Rightarrow> Inr (if b then 1 else 0)
     | VFloat32 f \<Rightarrow> Inr (i64_of_f64 (f64_integral Nearest (f64_of_f32 f)))
     | VFloat64 f \<Rightarrow> Inr (i64_of_f64 (f64_integral Nearest f))
     | VNumeric d \<Rightarrow> or_cast_err (dec_to_i64 (eo_dec ops) (dec_integral (eo_dec ops) Nearest d))
     | VText s \<Rightarrow> or_cast_err (i64_parse (str_trim s))
     | _ \<Rightarrow> cast_err)"

definition cast_to_f64 :: "('j, 'd, 'x) expr_ops_scheme \<Rightarrow> ('j, 'd) sql_value \<Rightarrow> query_error + 64 word" where
  "cast_to_f64 ops v =
    (case v of
       VInt16 n \<Rightarrow> Inr (f64_of_int (sint n))
     | VInt32 n \<Rightarrow> Inr (f64_of_int (sint n))
     | VInt64 n \<Rightarrow> Inr (f64_of_int (sint n))
     | VFloat32 f \<Rightarrow> Inr (f64_of_f32 f)
     | VFloat64 f \<Rightarrow> Inr f
     | VNumeric d \<Rightarrow> or_cast_err (dec_to_f64 (eo_dec ops) d)
     | VText s \<Rightarrow> or_cast_err (f64_parse (eo_text ops) (str_trim s))
     | _ \<Rightarrow> cast_err)"

definition cast_to_numeric :: "('j, 'd, 'x) expr_ops_scheme \<Rightarrow> ('j, 'd) sql_value \<Rightarrow> query_error + ('j, 'd) sql_value" where
  "cast_to_numeric ops v =
    res_map VNumeric
     (case v of
        VInt16 n \<Rightarrow> Inr (dec_of_int (eo_dec ops) (sint n))
      | VInt32 n \<Rightarrow> Inr (dec_of_int (eo_dec ops) (sint n))
      | VInt64 n \<Rightarrow> Inr (dec_of_int (eo_dec ops) (sint n))
      | VNumeric d \<Rightarrow> Inr d
      | VFloat32 f \<Rightarrow> or_cast_err (dec_of_f32 (eo_dec ops) f)
      | VFloat64 f \<Rightarrow> or_cast_err (dec_of_f64 (eo_dec ops) f)
      | VText s \<Rightarrow> or_cast_err (dec_parse (eo_dec ops) (str_trim s))
      | _ \<Rightarrow> cast_err)"

definition cast_to_bool :: "('j, 'd, 'x) expr_ops_scheme \<Rightarrow> ('j, 'd) sql_value \<Rightarrow> query_error + ('j, 'd) sql_value" where
  "cast_to_bool ops v =
    (case v of
       VBool b \<Rightarrow> Inr (VBool b)
     | VInt16 n \<Rightarrow> Inr (VBool (n \<noteq> 0))
     | VInt32 n \<Rightarrow> Inr (VBool (n \<noteq> 0))
     | VInt64 n \<Rightarrow> Inr (VBool (n \<noteq> 0))
     | VText s \<Rightarrow>
         (let w = str_to_lowercase (eo_text ops) (str_trim s) in
          if w \<in> set (map ascii [''true'', ''t'', ''yes'', ''y'', ''on'', ''1'']) then Inr (VBool True)
          else if w \<in> set (map ascii [''false'', ''f'', ''no'', ''n'', ''off'', ''0'']) then Inr (VBool False)
          else cast_err)
     | _ \<Rightarrow> cast_err)"

text \<open>\<open>{byte:02x}\<close>.\<close>

definition hex_digit :: "int \<Rightarrow> u8" where
  "hex_digit n = as_u8 (if n < 10 then 48 + n else 87 + n)"

definition cast_to_text :: "('j, 'd, 'x) expr_ops_scheme \<Rightarrow> ('j, 'd) sql_value \<Rightarrow> query_error + bytes" where
  "cast_to_text ops v =
    (case v of
       VBytes b \<Rightarrow> Inr ([92, 120] @ concat (map (\<lambda>x. [hex_digit (uint x div 16), hex_digit (uint x mod 16)]) b))
     | VJson j \<Rightarrow> Inr (json_to_vec ops j)
     | _ \<Rightarrow> concat_str ops v)"

definition cast_to_bytes :: "('j, 'd) sql_value \<Rightarrow> query_error + ('j, 'd) sql_value" where
  "cast_to_bytes v = (case v of VBytes b \<Rightarrow> Inr (VBytes b) | VText s \<Rightarrow> Inr (VBytes s) | _ \<Rightarrow> cast_err)"

definition MICROS_PER_DAY :: int where "MICROS_PER_DAY = 86400000000"

text \<open>\<open>as i32\<close> keeps the low 32 bits.\<close>

definition cast_to_date :: "('j, 'd, 'x) expr_ops_scheme \<Rightarrow> ('j, 'd) sql_value \<Rightarrow> query_error + ('j, 'd) sql_value" where
  "cast_to_date ops v =
    (case v of
       VDate d \<Rightarrow> Inr (VDate d)
     | VText s \<Rightarrow> res_map VDate (or_type_error ''invalid DATE literal'' (parse_date (eo_time ops) (str_trim s)))
     | VTimestamp t \<Rightarrow> Inr (VDate (word_of_int (sint t div MICROS_PER_DAY)))
     | _ \<Rightarrow> cast_err)"

definition cast_to_timestamp :: "('j, 'd, 'x) expr_ops_scheme \<Rightarrow> ('j, 'd) sql_value \<Rightarrow> query_error + ('j, 'd) sql_value" where
  "cast_to_timestamp ops v =
    (case v of
       VTimestamp t \<Rightarrow> Inr (VTimestamp t)
     | VText s \<Rightarrow> res_map VTimestamp (or_type_error ''invalid TIMESTAMP literal'' (parse_timestamptz (eo_time ops) (str_trim s)))
     | VDate d \<Rightarrow> Inr (VTimestamp (word_of_int (sint d * MICROS_PER_DAY)))
     | _ \<Rightarrow> cast_err)"

definition cast_to_time :: "('j, 'd, 'x) expr_ops_scheme \<Rightarrow> ('j, 'd) sql_value \<Rightarrow> query_error + ('j, 'd) sql_value" where
  "cast_to_time ops v =
    (case v of
       VTime t \<Rightarrow> Inr (VTime t)
     | VText s \<Rightarrow> res_map VTime (or_type_error ''invalid TIME literal'' (parse_time (eo_time ops) (str_trim s)))
     | _ \<Rightarrow> cast_err)"

definition cast_to_uuid :: "('j, 'd, 'x) expr_ops_scheme \<Rightarrow> ('j, 'd) sql_value \<Rightarrow> query_error + ('j, 'd) sql_value" where
  "cast_to_uuid ops v =
    (case v of
       VUuid u \<Rightarrow> Inr (VUuid u)
     | VText s \<Rightarrow> res_map VUuid (or_cast_err (uuid_parse (eo_text ops) (str_trim s)))
     | _ \<Rightarrow> cast_err)"

definition cast_to_interval :: "('j, 'd, 'x) expr_ops_scheme \<Rightarrow> ('j, 'd) sql_value \<Rightarrow> query_error + ('j, 'd) sql_value" where
  "cast_to_interval ops v =
    (case v of
       VInterval i \<Rightarrow> Inr (VInterval i)
     | VText s \<Rightarrow> res_map VInterval (or_type_error ''invalid INTERVAL literal'' (parse_interval (eo_time ops) (str_trim s)))
     | _ \<Rightarrow> cast_err)"

definition cast_to_json :: "('j, 'd, 'x) expr_ops_scheme \<Rightarrow> ('j, 'd) sql_value \<Rightarrow> query_error + ('j, 'd) sql_value" where
  "cast_to_json ops v =
    (case v of
       VJson j \<Rightarrow> Inr (VJson j)
     | VText s \<Rightarrow> res_map VJson (or_cast_err (json_from_slice ops s))
     | _ \<Rightarrow> cast_err)"

definition eval_cast :: "('j, 'd, 'x) expr_ops_scheme \<Rightarrow> ('j, 'd) sql_value \<Rightarrow> logical_type \<Rightarrow> query_error + ('j, 'd) sql_value" where
  "eval_cast ops v target =
    (if v = VNull then Inr VNull
     else case target of
       TBool \<Rightarrow> cast_to_bool ops v
     | TInt16 \<Rightarrow> res_bind (cast_to_i64 ops v) (fit_int_cast VInt16)
     | TInt32 \<Rightarrow> res_bind (cast_to_i64 ops v) (fit_int_cast VInt32)
     | TInt64 \<Rightarrow> res_map VInt64 (cast_to_i64 ops v)
     | TFloat32 \<Rightarrow> res_map (\<lambda>f. VFloat32 (f32_of_f64 f)) (cast_to_f64 ops v)
     | TFloat64 \<Rightarrow> res_map VFloat64 (cast_to_f64 ops v)
     | TNumeric \<Rightarrow> cast_to_numeric ops v
     | TText \<Rightarrow> res_map VText (cast_to_text ops v)
     | TBytes \<Rightarrow> cast_to_bytes v
     | TDate \<Rightarrow> cast_to_date ops v
     | TTimestamp \<Rightarrow> cast_to_timestamp ops v
     | TTime \<Rightarrow> cast_to_time ops v
     | TUuid \<Rightarrow> cast_to_uuid ops v
     | TInterval \<Rightarrow> cast_to_interval ops v
     | TJson \<Rightarrow> cast_to_json ops v
     | TArray _ \<Rightarrow> (case v of VArray vs \<Rightarrow> Inr (VArray vs) | _ \<Rightarrow> cast_err))"

section \<open>Evaluation\<close>

text \<open>\<open>CASE\<close>: only a true condition selects its branch.\<close>

fun case_branches ::
    "((query_error + ('j, 'd) sql_value) \<times> (query_error + ('j, 'd) sql_value)) list \<Rightarrow> (query_error + ('j, 'd) sql_value) option
     \<Rightarrow> query_error + ('j, 'd) sql_value" where
  "case_branches [] els = (case els of Some r \<Rightarrow> r | None \<Rightarrow> Inr VNull)"
| "case_branches ((c, r) # bs) els = res_bind c (\<lambda>v. if v = VBool True then r else case_branches bs els)"

definition eval_not :: "('j, 'd) sql_value \<Rightarrow> query_error + ('j, 'd) sql_value" where
  "eval_not v = (case v of VNull \<Rightarrow> Inr VNull | VBool b \<Rightarrow> Inr (VBool (\<not> b)) | _ \<Rightarrow> Inl (QInternal ''NOT expects Bool''))"

primrec eval :: "('j, 'd, 'x) expr_ops_scheme \<Rightarrow> ('j, 'd) row \<Rightarrow> ('j, 'd) expr \<Rightarrow> query_error + ('j, 'd) sql_value" where
  "eval ops t (EColumn i) = (if i < length t then Inr (t ! i) else Inl (QInternal ''column index out of bounds''))"
| "eval ops t (ELiteral v) = Inr v"
| "eval ops t (ENot e) = res_bind (eval ops t e) eval_not"
| "eval ops t (EBinary bop l r) = res_bind (eval ops t l) (\<lambda>a. res_bind (eval ops t r) (\<lambda>b. eval_binary ops bop a b))"
| "eval ops t (ECall func args) = eval_call ops func (map (eval ops t) args)"
| "eval ops t (EIsNull e negated) = res_map (\<lambda>v. VBool ((v = VNull) \<noteq> negated)) (eval ops t e)"
| "eval ops t (ELike e p negated) = res_bind (eval ops t e) (\<lambda>a. res_bind (eval ops t p) (\<lambda>b. eval_like a b negated))"
| "eval ops t (ENeg e) = res_bind (eval ops t e) (eval_neg ops)"
| "eval ops t (ECase branches els) =
    case_branches (map (map_prod (eval ops t) (eval ops t)) branches) (map_option (eval ops t) els)"
| "eval ops t (ECast e target) = res_bind (eval ops t e) (\<lambda>v. eval_cast ops v target)"
| "eval ops t (EArray es) = res_map VArray (collect_res (map (eval ops t) es))"

end
