(* ===== verification/Row_Streams.thy ===== *)
theory Row_Streams
  imports Expr_Eval Workspaces
begin

text \<open>
  Row streams and the operators on them: \<^verbatim>\<open>src/crates/strata-db/src/query/volcano/scalar.rs\<close>, the row
  plumbing of \<^verbatim>\<open>join/mod.rs\<close> and the nested-loop joins of \<^verbatim>\<open>join/nested_loop.rs\<close>.

  A \<open>RowStream\<close> is the list of the results its \<open>next\<close> yields when it is driven to its end; a
  row that failed is an error in the list. Operators that fail while they are built return an
  error instead of a stream. An operator that takes plan nodes in the code takes the streams
  built from them here, each as the result of its \<open>build\<close>, and looks at them in the order the
  code builds them.
\<close>

section \<open>Streams\<close>

type_synonym ('j, 'd) stream = "(query_error + ('j, 'd) row) list"

definition rows_stream :: "('j, 'd) row list \<Rightarrow> ('j, 'd) stream" where
  "rows_stream rows = map Inr rows"

text \<open>\<open>Filter::next\<close>: an error of the input or of the predicate takes the place of its row.\<close>

fun filter_rows :: "('j, 'd, 'x) expr_ops_scheme \<Rightarrow> ('j, 'd) expr \<Rightarrow> ('j, 'd) stream \<Rightarrow> ('j, 'd) stream" where
  "filter_rows ops predicate [] = []"
| "filter_rows ops predicate (Inl e # rs) = Inl e # filter_rows ops predicate rs"
| "filter_rows ops predicate (Inr t # rs) =
    (case eval ops t predicate of
       Inl e \<Rightarrow> Inl e # filter_rows ops predicate rs
     | Inr v \<Rightarrow> if v = VBool True then Inr t # filter_rows ops predicate rs else filter_rows ops predicate rs)"

definition project_rows :: "('j, 'd, 'x) expr_ops_scheme \<Rightarrow> ('j, 'd) expr list \<Rightarrow> ('j, 'd) stream \<Rightarrow> ('j, 'd) stream" where
  "project_rows ops exprs = map (\<lambda>r. res_bind r (\<lambda>t. collect_res (map (eval ops t) exprs)))"

definition limit_rows :: "nat \<Rightarrow> ('j, 'd) stream \<Rightarrow> ('j, 'd) stream" where
  "limit_rows n rs = take n rs"

text \<open>Skipping surfaces errors and does not count them.\<close>

fun offset_rows :: "nat \<Rightarrow> ('j, 'd) stream \<Rightarrow> ('j, 'd) stream" where
  "offset_rows n [] = []"
| "offset_rows n (r # rs) =
    (if n = 0 then r # rs else case r of Inl e \<Rightarrow> Inl e # offset_rows n rs | Inr _ \<Rightarrow> offset_rows (n - 1) rs)"

section \<open>Joins: rows and keys\<close>

datatype join_type = JInner | JLeft | JRight | JFull

definition keeps_left :: "join_type \<Rightarrow> bool" where
  "keeps_left jt \<longleftrightarrow> jt = JLeft \<or> jt = JFull"

definition keeps_right :: "join_type \<Rightarrow> bool" where
  "keeps_right jt \<longleftrightarrow> jt = JRight \<or> jt = JFull"

definition pad_right :: "('j, 'd) row \<Rightarrow> nat \<Rightarrow> ('j, 'd) row" where
  "pad_right l right_width = l @ replicate right_width VNull"

definition pad_left :: "nat \<Rightarrow> ('j, 'd) row \<Rightarrow> ('j, 'd) row" where
  "pad_left left_width r = replicate left_width VNull @ r"

definition equi_keys :: "('j, 'd) expr option \<Rightarrow> nat \<Rightarrow> query_error + (nat \<times> nat)" where
  "equi_keys on left_arity =
    (case on of
       Some (EBinary BEq lhs rhs) \<Rightarrow>
         (case lhs of
            EColumn a \<Rightarrow>
              (case rhs of
                 EColumn b \<Rightarrow>
                   if a < left_arity \<and> left_arity \<le> b then Inr (a, b - left_arity)
                   else if b < left_arity \<and> left_arity \<le> a then Inr (b, a - left_arity)
                   else Inl (QInternal ''equi-join key must reference both sides'')
               | _ \<Rightarrow> Inl (QInternal ''equi-join key must be `column = column`''))
          | _ \<Rightarrow> Inl (QInternal ''equi-join key must be `column = column`''))
     | _ \<Rightarrow> Inl (QInternal ''equi-join requires an equi-join predicate''))"

text \<open>The test of a join condition on a combined row.\<close>

definition on_match :: "('j, 'd, 'x) expr_ops_scheme \<Rightarrow> ('j, 'd) expr option \<Rightarrow> ('j, 'd) row \<Rightarrow> query_error + bool" where
  "on_match ops on t = (case on of None \<Rightarrow> Inr True | Some p \<Rightarrow> res_map (\<lambda>v. v = VBool True) (eval ops t p))"

section \<open>Nested-loop join\<close>

text \<open>The pass of one left row over the right rows: whether it matched, the flags of the right
  rows, the output.\<close>

fun nl_scan ::
    "('j, 'd, 'x) expr_ops_scheme \<Rightarrow> ('j, 'd) expr option \<Rightarrow> ('j, 'd) row \<Rightarrow> (('j, 'd) row \<times> bool) list
     \<Rightarrow> query_error + bool \<times> bool list \<times> ('j, 'd) row list" where
  "nl_scan ops on l [] = Inr (False, [], [])"
| "nl_scan ops on l ((r, m) # rs) =
    res_bind (on_match ops on (l @ r)) (\<lambda>b.
    res_bind (nl_scan ops on l rs) (\<lambda>(lm, ms, out).
      Inr (b \<or> lm, (m \<or> b) # ms, if b then (l @ r) # out else out)))"

fun nl_outer ::
    "('j, 'd, 'x) expr_ops_scheme \<Rightarrow> ('j, 'd) expr option \<Rightarrow> join_type \<Rightarrow> nat \<Rightarrow> ('j, 'd) row list \<Rightarrow> ('j, 'd) row list \<Rightarrow> bool list
     \<Rightarrow> query_error + bool list \<times> ('j, 'd) row list" where
  "nl_outer ops on jt rw [] rs ms = Inr (ms, [])"
| "nl_outer ops on jt rw (l # ls) rs ms =
    res_bind (nl_scan ops on l (zip rs ms)) (\<lambda>(lm, ms1, out).
    res_bind (nl_outer ops on jt rw ls rs ms1) (\<lambda>(ms2, out2).
      Inr (ms2, out @ (if \<not> lm \<and> keeps_left jt then [pad_right l rw] else []) @ out2)))"

text \<open>The right rows that matched nothing.\<close>

definition unmatched :: "'a list \<Rightarrow> bool list \<Rightarrow> 'a list" where
  "unmatched rs ms = map fst (filter (\<lambda>(r, m). \<not> m) (zip rs ms))"

definition nested_loop_join ::
    "('j, 'd, 'x) expr_ops_scheme \<Rightarrow> nat \<Rightarrow> nat \<Rightarrow> query_error + ('j, 'd) stream \<Rightarrow> query_error + ('j, 'd) stream
     \<Rightarrow> ('j, 'd) expr option \<Rightarrow> join_type \<Rightarrow> query_error + ('j, 'd) stream" where
  "nested_loop_join ops lw rw left right on jt =
    res_bind left (\<lambda>lstream. res_bind (collect_res lstream) (\<lambda>ls.
    res_bind right (\<lambda>rstream. res_bind (collect_res rstream) (\<lambda>rs.
    res_bind (nl_outer ops on jt rw ls rs (replicate (length rs) False)) (\<lambda>(ms, out).
      Inr (rows_stream (out @ (if keeps_right jt then map (pad_left lw) (unmatched rs ms) else []))))))))"

section \<open>Block nested-loop join\<close>

definition OUTER_BLOCK_TUPLES :: nat where "OUTER_BLOCK_TUPLES = 1024"
definition INNER_WORKSPACE_BUDGET :: nat where "INNER_WORKSPACE_BUDGET = 256 * 1024 * 1024"

text \<open>The failure of a workspace as an error of the query.\<close>

definition work_err :: "string \<Rightarrow> fs_error \<Rightarrow> query_error" where
  "work_err msg e = (if e = FsPanic then QPanic else QInternal msg)"

definition encode_row :: "('j, 'd, 'x) expr_ops_scheme \<Rightarrow> schema \<Rightarrow> ('j, 'd) row \<Rightarrow> query_error + bytes" where
  "encode_row ops sc t = or_panic (schema_encode ops sc t)"

definition decode_row :: "('j, 'd, 'x) expr_ops_scheme \<Rightarrow> schema \<Rightarrow> bytes \<Rightarrow> query_error + ('j, 'd) row" where
  "decode_row ops sc b = map_err query_of_decode (schema_decode ops sc b)"

text \<open>Appending encoded rows one after the other.\<close>

fun spill_rows ::
    "('j, 'd, 'x) expr_ops_scheme \<Rightarrow> 'w ws_ops \<Rightarrow> string \<Rightarrow> schema \<Rightarrow> ('j, 'd) stream \<Rightarrow> 'w \<Rightarrow> query_error + 'w" where
  "spill_rows ops ws msg sc [] w = Inr w"
| "spill_rows ops ws msg sc (r # rs) w =
    res_bind r (\<lambda>t. res_bind (encode_row ops sc t) (\<lambda>b.
      case ws_append ws b w of
        (Inl e, _) \<Rightarrow> Inl (work_err msg e)
      | (Inr _, w') \<Rightarrow> spill_rows ops ws msg sc rs w'))"

text \<open>The rows of a block against one inner row.\<close>

fun bnl_row ::
    "('j, 'd, 'x) expr_ops_scheme \<Rightarrow> ('j, 'd) expr option \<Rightarrow> ('j, 'd) row \<Rightarrow> (('j, 'd) row \<times> bool) list
     \<Rightarrow> query_error + bool \<times> bool list \<times> ('j, 'd) row list" where
  "bnl_row ops on r [] = Inr (False, [], [])"
| "bnl_row ops on r ((l, m) # ls) =
    res_bind (on_match ops on (l @ r)) (\<lambda>b.
    res_bind (bnl_row ops on r ls) (\<lambda>(rm, ms, out).
      Inr (b \<or> rm, (m \<or> b) # ms, if b then (l @ r) # out else out)))"

text \<open>One inner scan for a block: the flags of the block, the flags of the inner rows, the output.\<close>

fun bnl_block ::
    "('j, 'd, 'x) expr_ops_scheme \<Rightarrow> ('j, 'd) expr option \<Rightarrow> schema \<Rightarrow> ('j, 'd) row list \<Rightarrow> bool list \<Rightarrow> (bytes \<times> bool) list
     \<Rightarrow> query_error + bool list \<times> bool list \<times> ('j, 'd) row list" where
  "bnl_block ops on sc block bm [] = Inr (bm, [], [])"
| "bnl_block ops on sc block bm ((b, m) # inner) =
    res_bind (decode_row ops sc b) (\<lambda>r.
    res_bind (bnl_row ops on r (zip block bm)) (\<lambda>(rm, bm1, out).
    res_bind (bnl_block ops on sc block bm1 inner) (\<lambda>(bm2, ms, out2).
      Inr (bm2, (m \<or> rm) # ms, out @ out2))))"

text \<open>Reading the inner side again.\<close>

definition replay :: "'w ws_ops \<Rightarrow> 'w \<Rightarrow> query_error + bytes list \<times> 'w" where
  "replay ws w = (case ws_tuples ws w of (Inl _, _) \<Rightarrow> Inl QPanic | (Inr bs, w') \<Rightarrow> Inr (bs, w'))"

function bnl_blocks ::
    "('j, 'd, 'x) expr_ops_scheme \<Rightarrow> 'w ws_ops \<Rightarrow> ('j, 'd) expr option \<Rightarrow> join_type \<Rightarrow> nat \<Rightarrow> schema \<Rightarrow> ('j, 'd) stream \<Rightarrow> bool list \<Rightarrow> 'w
     \<Rightarrow> query_error + bool list \<times> ('j, 'd) row list \<times> 'w" where
  "bnl_blocks ops ws on jt rw sc outer ms w =
    (if outer = [] then Inr (ms, [], w)
     else
       res_bind (collect_res (take OUTER_BLOCK_TUPLES outer)) (\<lambda>block.
       res_bind (replay ws w) (\<lambda>(inner, w1).
       res_bind (bnl_block ops on sc block (replicate (length block) False) (zip inner ms)) (\<lambda>(bm, ms1, out).
       res_bind (bnl_blocks ops ws on jt rw sc (drop OUTER_BLOCK_TUPLES outer) ms1 w1) (\<lambda>(ms2, out2, w2).
         Inr (ms2, out @ (if keeps_left jt then map (\<lambda>l. pad_right l rw) (unmatched block bm) else []) @ out2, w2))))))"
  by pat_completeness auto
termination
  by (relation "measure (\<lambda>(_, _, _, _, _, _, outer, _, _). length outer)") (auto simp: OUTER_BLOCK_TUPLES_def)

declare bnl_blocks.simps [simp del]

definition block_nested_loop_join ::
    "('j, 'd, 'x) expr_ops_scheme \<Rightarrow> 'w ws_ops \<Rightarrow> nat \<Rightarrow> nat \<Rightarrow> query_error + ('j, 'd) stream \<Rightarrow> query_error + ('j, 'd) stream
     \<Rightarrow> ('j, 'd) expr option \<Rightarrow> join_type \<Rightarrow> schema \<Rightarrow> query_error + ('j, 'd) stream" where
  "block_nested_loop_join ops ws lw rw left right on jt sc =
    res_bind (map_err (work_err ''join workspace'') (ws_new ws)) (\<lambda>w0.
    res_bind right (\<lambda>rstream.
    res_bind (spill_rows ops ws ''join workspace'' sc rstream w0) (\<lambda>w.
    res_bind left (\<lambda>outer.
    res_bind (bnl_blocks ops ws on jt rw sc outer (replicate (length rstream) False) w) (\<lambda>(ms, out, w1).
    res_bind (if keeps_right jt then res_bind (replay ws w1) (\<lambda>(inner, _). collect_res (map (decode_row ops sc) (unmatched inner ms))) else Inr []) (\<lambda>rest.
      Inr (rows_stream (out @ map (pad_left lw) rest))))))))"

end
