(* ===== verification/Join_Spec.thy ===== *)
theory Join_Spec
  imports Row_Streams
begin

text \<open>
  What a join computes, as a multiset of rows, and that the two nested-loop joins compute it. The
  block variant is verified against the contract of workspaces, not against a backing.
\<close>

section \<open>The specification\<close>

text \<open>The pairs of rows that match, in the order of the left rows.\<close>

definition pairs :: "('a list \<Rightarrow> bool) \<Rightarrow> 'a list list \<Rightarrow> 'a list list \<Rightarrow> 'a list list" where
  "pairs P ls rs = concat (map (\<lambda>l. map (\<lambda>r. l @ r) (filter (\<lambda>r. P (l @ r)) rs)) ls)"

definition lone_left :: "('a list \<Rightarrow> bool) \<Rightarrow> 'a list list \<Rightarrow> 'a list list \<Rightarrow> 'a list list" where
  "lone_left P ls rs = filter (\<lambda>l. \<forall>r\<in>set rs. \<not> P (l @ r)) ls"

definition lone_right :: "('a list \<Rightarrow> bool) \<Rightarrow> 'a list list \<Rightarrow> 'a list list \<Rightarrow> 'a list list" where
  "lone_right P ls rs = filter (\<lambda>r. \<forall>l\<in>set ls. \<not> P (l @ r)) rs"

text \<open>Every matching pair once, every left row without a match padded with NULLs in a LEFT or FULL
  join, every right row without a match in a RIGHT or FULL join.\<close>

definition join_rows :: "(('j, 'd) row \<Rightarrow> bool) \<Rightarrow> join_type \<Rightarrow> nat \<Rightarrow> nat \<Rightarrow> ('j, 'd) row list \<Rightarrow> ('j, 'd) row list \<Rightarrow> ('j, 'd) row multiset" where
  "join_rows P jt lw rw ls rs =
    mset (pairs P ls rs)
    + (if keeps_left jt then mset (map (\<lambda>l. pad_right l rw) (lone_left P ls rs)) else {#})
    + (if keeps_right jt then mset (map (pad_left lw) (lone_right P ls rs)) else {#})"

text \<open>The condition is decided on every pair.\<close>

definition on_total :: "('j, 'd, 'x) expr_ops_scheme \<Rightarrow> ('j, 'd) expr option \<Rightarrow> ('j, 'd) row list \<Rightarrow> ('j, 'd) row list \<Rightarrow> bool" where
  "on_total ops on ls rs \<longleftrightarrow> (\<forall>l\<in>set ls. \<forall>r\<in>set rs. \<exists>b. on_match ops on (l @ r) = Inr b)"

definition on_holds :: "('j, 'd, 'x) expr_ops_scheme \<Rightarrow> ('j, 'd) expr option \<Rightarrow> ('j, 'd) row \<Rightarrow> bool" where
  "on_holds ops on t \<longleftrightarrow> on_match ops on t = Inr True"

lemma on_match_total: "on_total ops on ls rs \<Longrightarrow> l \<in> set ls \<Longrightarrow> r \<in> set rs \<Longrightarrow> on_match ops on (l @ r) = Inr (on_holds ops on (l @ r))"
  unfolding on_total_def on_holds_def by (metis (full_types) sum.inject(2))

lemma on_total_mono: "on_total ops on ls rs \<Longrightarrow> set ls' \<subseteq> set ls \<Longrightarrow> set rs' \<subseteq> set rs \<Longrightarrow> on_total ops on ls' rs'"
  unfolding on_total_def by blast

section \<open>Lists of pairs\<close>

lemma pairs_simps [simp]: "pairs P [] rs = []" "pairs P (l # ls) rs = map (\<lambda>r. l @ r) (filter (\<lambda>r. P (l @ r)) rs) @ pairs P ls rs"
  by (simp_all add: pairs_def)

lemma pairs_append: "pairs P (ls @ ls') rs = pairs P ls rs @ pairs P ls' rs"
  by (simp add: pairs_def)

text \<open>The same pairs in the order of the right rows.\<close>

lemma pairs_right_major: "mset (concat (map (\<lambda>r. map (\<lambda>l. l @ r) (filter (\<lambda>l. P (l @ r)) ls)) rs)) = mset (pairs P ls rs)"
proof (induction ls)
  case Nil
  show ?case by (induction rs) simp_all
next
  case (Cons l ls)
  have "mset (concat (map (\<lambda>r. map (\<lambda>l. l @ r) (filter (\<lambda>l. P (l @ r)) (l # ls))) rs))
      = mset (map (\<lambda>r. l @ r) (filter (\<lambda>r. P (l @ r)) rs)) + mset (concat (map (\<lambda>r. map (\<lambda>l. l @ r) (filter (\<lambda>l. P (l @ r)) ls)) rs))"
    by (induction rs) auto
  then show ?case using Cons by simp
qed

lemma unmatched_flags: "length ms = length rs \<Longrightarrow> unmatched rs (map2 (\<lambda>r m. m \<or> Q r) rs ms) = filter (\<lambda>r. \<not> Q r) (unmatched rs ms)"
proof (induction rs arbitrary: ms)
  case (Cons r rs)
  then show ?case by (cases ms) (auto simp: unmatched_def)
qed (simp add: unmatched_def)

lemma unmatched_fresh [simp]: "unmatched rs (replicate (length rs) False) = rs"
  by (induction rs) (simp_all add: unmatched_def)

lemma unmatched_single: "unmatched rs (map Q rs) = filter (\<lambda>r. \<not> Q r) rs"
  by (induction rs) (simp_all add: unmatched_def)

lemma map2_replicate: "map2 (\<lambda>r m. m \<or> Q r) rs (replicate (length rs) False) = map Q rs"
  by (induction rs) simp_all

lemma map2_flags: "length ms = length rs \<Longrightarrow> map2 (\<lambda>r m. m \<or> Q' r) rs (map2 (\<lambda>r m. m \<or> Q r) rs ms) = map2 (\<lambda>r m. m \<or> (Q r \<or> Q' r)) rs ms"
proof (induction rs arbitrary: ms)
  case (Cons r rs)
  then show ?case by (cases ms) auto
qed simp

lemma map2_same: "length ms = length rs \<Longrightarrow> map2 (\<lambda>r m. m) rs ms = ms"
proof (induction rs arbitrary: ms)
  case (Cons r rs)
  then show ?case by (cases ms) auto
qed simp

section \<open>Nested-loop join\<close>

lemma nl_scan_ok:
  assumes "on_total ops on [l] rs" "length ms = length rs"
  shows "nl_scan ops on l (zip rs ms) =
    Inr (\<exists>r\<in>set rs. on_holds ops on (l @ r), map2 (\<lambda>r m. m \<or> on_holds ops on (l @ r)) rs ms, pairs (on_holds ops on) [l] rs)"
  using assms
proof (induction rs arbitrary: ms)
  case (Cons r rs)
  then obtain m ms' where ms: "ms = m # ms'" "length ms' = length rs" by (cases ms) auto
  have "on_total ops on [l] rs" using Cons.prems(1) by (auto simp: on_total_def)
  from Cons.IH [OF this ms(2)] show ?case
    using on_match_total [OF Cons.prems(1), of l r] by (auto simp: ms(1))
qed (simp add: pairs_def)

lemma nl_outer_ok:
  assumes "on_total ops on ls rs" "length ms = length rs"
  shows "\<exists>out. nl_outer ops on jt rw ls rs ms = Inr (map2 (\<lambda>r m. m \<or> (\<exists>l\<in>set ls. on_holds ops on (l @ r))) rs ms, out) \<and>
    mset out = join_rows (on_holds ops on) (if keeps_left jt then JLeft else JInner) 0 rw ls rs"
  using assms
proof (induction ls arbitrary: ms)
  case Nil
  then show ?case by (simp add: join_rows_def keeps_right_def lone_left_def map2_same)
next
  case (Cons l ls)
  let ?P = "on_holds ops on"
  have t: "on_total ops on [l] rs" "on_total ops on ls rs" using Cons.prems(1) by (auto simp: on_total_def)
  obtain out where out: "nl_outer ops on jt rw ls rs (map2 (\<lambda>r m. m \<or> ?P (l @ r)) rs ms) =
      Inr (map2 (\<lambda>r m. m \<or> (?P (l @ r) \<or> (\<exists>l\<in>set ls. ?P (l @ r)))) rs ms, out)"
    "mset out = join_rows ?P (if keeps_left jt then JLeft else JInner) 0 rw ls rs"
    using Cons.IH [OF t(2), of "map2 (\<lambda>r m. m \<or> ?P (l @ r)) rs ms"] Cons.prems(2) by (auto simp: map2_flags)
  then show ?case using nl_scan_ok [OF t(1) Cons.prems(2)]
    by (auto simp: join_rows_def lone_left_def keeps_left_def keeps_right_def)
qed

lemma nested_loop_join_rows:
  assumes "on_total ops on ls rs"
  obtains out where "nested_loop_join ops lw rw (Inr (rows_stream ls)) (Inr (rows_stream rs)) on jt = Inr (rows_stream out)"
    "mset out = join_rows (on_holds ops on) jt lw rw ls rs"
proof -
  obtain out where out: "nl_outer ops on jt rw ls rs (replicate (length rs) False) =
      Inr (map (\<lambda>r. \<exists>l\<in>set ls. on_holds ops on (l @ r)) rs, out)"
    "mset out = join_rows (on_holds ops on) (if keeps_left jt then JLeft else JInner) 0 rw ls rs"
    using nl_outer_ok [OF assms, of "replicate (length rs) False"] by (auto simp: map2_replicate)
  show thesis
    by (rule that [of "out @ (if keeps_right jt then map (pad_left lw) (lone_right (on_holds ops on) ls rs) else [])"])
      (use out in \<open>auto simp: nested_loop_join_def rows_stream_def join_rows_def unmatched_single lone_right_def keeps_left_def keeps_right_def\<close>)
qed

text \<open>A pair on which the condition fails makes the join fail.\<close>

lemma nl_scan_fails:
  assumes "\<not> on_total ops on [l] rs" "length ms = length rs"
  shows "\<exists>e. nl_scan ops on l (zip rs ms) = Inl e"
  using assms
proof (induction rs arbitrary: ms)
  case (Cons r rs)
  then obtain m ms' where ms: "ms = m # ms'" "length ms' = length rs" by (cases ms) auto
  show ?case
  proof (cases "on_match ops on (l @ r)")
    case (Inr b)
    then have "\<not> on_total ops on [l] rs" using Cons.prems(1) by (auto simp: on_total_def)
    then show ?thesis using Cons.IH [OF _ ms(2)] Inr by (auto simp: ms(1))
  qed (simp add: ms(1))
qed (simp add: on_total_def)

lemma nl_outer_fails:
  assumes "\<not> on_total ops on ls rs" "length ms = length rs"
  shows "\<exists>e. nl_outer ops on jt rw ls rs ms = Inl e"
  using assms
proof (induction ls arbitrary: ms)
  case (Cons l ls)
  show ?case
  proof (cases "on_total ops on [l] rs")
    case True
    then have "\<not> on_total ops on ls rs" using Cons.prems(1) by (auto simp: on_total_def)
    then show ?thesis using Cons.IH [of "map2 (\<lambda>r m. m \<or> on_holds ops on (l @ r)) rs ms"] nl_scan_ok [OF True Cons.prems(2)] Cons.prems(2)
      by auto
  next
    case False
    then show ?thesis using nl_scan_fails [OF False Cons.prems(2)] by auto
  qed
qed (simp add: on_total_def)

section \<open>Block nested-loop join\<close>

text \<open>Rows that survive a workspace: the codec of the schema gives them back, and they fit in a page.\<close>

definition row_bytes :: "('j, 'd, 'x) expr_ops_scheme \<Rightarrow> schema \<Rightarrow> ('j, 'd) row \<Rightarrow> bytes" where
  "row_bytes ops sc t = the (schema_encode ops sc t)"

definition spillable :: "('j, 'd, 'x) expr_ops_scheme \<Rightarrow> schema \<Rightarrow> ('j, 'd) row \<Rightarrow> bool" where
  "spillable ops sc t \<longleftrightarrow> encode_row ops sc t = Inr (row_bytes ops sc t) \<and> decode_row ops sc (row_bytes ops sc t) = Inr t \<and>
    length (row_bytes ops sc t) \<le> max_tuple"

lemma spillableD:
  assumes "spillable ops sc t"
  shows "encode_row ops sc t = Inr (row_bytes ops sc t)" "decode_row ops sc (row_bytes ops sc t) = Inr t"
    "length (row_bytes ops sc t) \<le> max_tuple"
  using assms by (simp_all add: spillable_def)

lemma spillableI:
  assumes "codecs_roundtrip ops" "list_all2 (\<lambda>f v. is_null v \<or> has_type v (fd_ty f)) sc t" "row_storable ops t"
    "schema_encoded_size ops sc t \<le> max_tuple"
  shows "spillable ops sc t"
  using schema_roundtrip [OF assms(1-3)] assms(4) by (auto simp: spillable_def row_bytes_def encode_row_def decode_row_def or_panic_def)

lemma bnl_row_ok:
  assumes "on_total ops on ls [r]" "length ms = length ls"
  shows "bnl_row ops on r (zip ls ms) =
    Inr (\<exists>l\<in>set ls. on_holds ops on (l @ r), map2 (\<lambda>l m. m \<or> on_holds ops on (l @ r)) ls ms,
      map (\<lambda>l. l @ r) (filter (\<lambda>l. on_holds ops on (l @ r)) ls))"
  using assms
proof (induction ls arbitrary: ms)
  case (Cons l ls)
  then obtain m ms' where ms: "ms = m # ms'" "length ms' = length ls" by (cases ms) auto
  have "on_total ops on ls [r]" using Cons.prems(1) by (auto simp: on_total_def)
  from Cons.IH [OF this ms(2)] show ?case
    using on_match_total [OF Cons.prems(1), of l r] by (auto simp: ms(1))
qed simp

lemma bnl_block_ok:
  assumes "on_total ops on block rs" "\<forall>r\<in>set rs. spillable ops sc r" "length bm = length block" "length ms = length rs"
  shows "bnl_block ops on sc block bm (zip (map (row_bytes ops sc) rs) ms) =
    Inr (map2 (\<lambda>l m. m \<or> (\<exists>r\<in>set rs. on_holds ops on (l @ r))) block bm,
      map2 (\<lambda>r m. m \<or> (\<exists>l\<in>set block. on_holds ops on (l @ r))) rs ms,
      concat (map (\<lambda>r. map (\<lambda>l. l @ r) (filter (\<lambda>l. on_holds ops on (l @ r)) block)) rs))"
  using assms
proof (induction rs arbitrary: bm ms)
  case Nil
  then show ?case by (simp add: map2_same)
next
  case (Cons r rs)
  have sp: "\<forall>r\<in>set rs. spillable ops sc r" "decode_row ops sc (row_bytes ops sc r) = Inr r"
    using Cons.prems(2) by (simp_all add: spillableD)
  obtain m ms' where ms: "ms = m # ms'" "length ms' = length rs" using Cons.prems(4) by (cases ms) auto
  have t: "on_total ops on block [r]" "on_total ops on block rs" using Cons.prems(1) by (auto simp: on_total_def)
  show ?case using Cons.IH [OF t(2) sp(1) _ ms(2), of "map2 (\<lambda>l m. m \<or> on_holds ops on (l @ r)) block bm"]
      bnl_row_ok [OF t(1) Cons.prems(3)] Cons.prems(3)
    by (simp add: sp(2) ms(1) map2_flags)
qed

text \<open>The rows of a left or inner join over the blocks add up.\<close>

lemma join_rows_append:
  "join_rows P (if keeps_left jt then JLeft else JInner) lw rw (ls @ ls') rs =
    join_rows P (if keeps_left jt then JLeft else JInner) lw rw ls rs + join_rows P (if keeps_left jt then JLeft else JInner) lw rw ls' rs"
  by (simp add: join_rows_def pairs_append lone_left_def keeps_left_def keeps_right_def)

lemma collect_rows [simp]: "collect_res (rows_stream rs) = Inr rs" "collect_res (map Inr rs) = Inr rs"
  by (simp_all add: rows_stream_def)

lemma rows_stream_simps [simp]: "rows_stream rs = [] \<longleftrightarrow> rs = []" "take n (rows_stream rs) = rows_stream (take n rs)"
  "drop n (rows_stream rs) = rows_stream (drop n rs)" "length (rows_stream rs) = length rs"
  by (simp_all add: rows_stream_def take_map drop_map)

context workspace
begin

lemma replay_ok:
  assumes "holds n w xs"
  obtains w' where "replay ws w = Inr (xs, w')" "holds n w' xs"
  using tuples_replay [OF assms] by (auto simp: replay_def)

lemma spill_rows_ok:
  assumes "\<forall>r\<in>set rs. spillable ops sc r" "holds (length rs + n) w xs"
  shows "\<exists>w'. spill_rows ops ws msg sc (rows_stream rs) w = Inr w' \<and> holds n w' (xs @ map (row_bytes ops sc) rs)"
  using assms
proof (induction rs arbitrary: w xs)
  case (Cons r rs)
  have r: "encode_row ops sc r = Inr (row_bytes ops sc r)" "length (row_bytes ops sc r) \<le> max_tuple"
    using Cons.prems(1) by (simp_all add: spillableD)
  obtain l w1 where w1: "ws_append ws (row_bytes ops sc r) w = (Inr l, w1)" "holds (length rs + n) w1 (xs @ [row_bytes ops sc r])"
    using append_holds [of "length rs + n" w xs "row_bytes ops sc r"] Cons.prems(2) r(2) by auto
  show ?case using Cons.IH [OF _ w1(2)] Cons.prems(1) w1(1) r(1) by (simp add: rows_stream_def)
qed (simp add: rows_stream_def)

text \<open>A fresh workspace filled with rows.\<close>

lemma spill_fresh:
  assumes "\<forall>r\<in>set rs. spillable ops sc r" "length rs \<le> capacity" "ws_new ws = Inr w"
  obtains w' where "spill_rows ops ws msg sc (rows_stream rs) w = Inr w'" "holds (capacity - length rs) w' (map (row_bytes ops sc) rs)"
proof -
  have "holds (length rs + (capacity - length rs)) w []" using new_holds [OF assms(3)] assms(2) by simp
  from spill_rows_ok [OF assms(1) this, of msg] show thesis using that by auto
qed

lemma bnl_blocks_ok:
  assumes "on_total ops on ls rs" "\<forall>r\<in>set rs. spillable ops sc r" "length ms = length rs" "holds n w (map (row_bytes ops sc) rs)"
  shows "\<exists>out w'. bnl_blocks ops ws on jt rw sc (rows_stream ls) ms w =
      Inr (map2 (\<lambda>r m. m \<or> (\<exists>l\<in>set ls. on_holds ops on (l @ r))) rs ms, out, w') \<and>
    mset out = join_rows (on_holds ops on) (if keeps_left jt then JLeft else JInner) 0 rw ls rs \<and> holds n w' (map (row_bytes ops sc) rs)"
  using assms
proof (induction "length ls" arbitrary: ls ms w rule: less_induct)
  case less
  let ?P = "on_holds ops on" and ?k = OUTER_BLOCK_TUPLES and ?bs = "map (row_bytes ops sc) rs"
  show ?case
  proof (cases "ls = []")
    case True
    then show ?thesis using less.prems(3,4)
      by (subst bnl_blocks.simps) (simp add: map2_same join_rows_def lone_left_def keeps_right_def)
  next
    case False
    define block where "block = take ?k ls"
    define rest where "rest = drop ?k ls"
    have ls: "ls = block @ rest" by (simp add: block_def rest_def)
    have t: "on_total ops on block rs" "on_total ops on rest rs"
      using less.prems(1) by (auto simp: ls on_total_def)
    obtain w1 where w1: "replay ws w = Inr (?bs, w1)" "holds n w1 ?bs" by (rule replay_ok [OF less.prems(4)])
    let ?ms1 = "map2 (\<lambda>r m. m \<or> (\<exists>l\<in>set block. ?P (l @ r))) rs ms"
    have "length rest < length ls" using False by (simp add: rest_def OUTER_BLOCK_TUPLES_def)
    from less.hyps [OF this t(2) less.prems(2) _ w1(2), of ?ms1]
    obtain out2 w2 where o2: "bnl_blocks ops ws on jt rw sc (rows_stream rest) ?ms1 w1 =
        Inr (map2 (\<lambda>r m. m \<or> (\<exists>l\<in>set rest. ?P (l @ r))) rs ?ms1, out2, w2)"
      "mset out2 = join_rows ?P (if keeps_left jt then JLeft else JInner) 0 rw rest rs" "holds n w2 ?bs"
      using less.prems(3) by auto
    let ?out = "concat (map (\<lambda>r. map (\<lambda>l. l @ r) (filter (\<lambda>l. ?P (l @ r)) block)) rs)"
    let ?pad = "if keeps_left jt then map (\<lambda>l. pad_right l rw) (lone_left ?P block rs) else []"
    have "bnl_block ops on sc block (replicate (length block) False) (zip ?bs ms) =
        Inr (map (\<lambda>l. \<exists>r\<in>set rs. ?P (l @ r)) block, ?ms1, ?out)"
      using bnl_block_ok [OF t(1) less.prems(2) _ less.prems(3), of "replicate (length block) False"] by (simp add: map2_replicate)
    then have "bnl_blocks ops ws on jt rw sc (rows_stream ls) ms w =
        Inr (map2 (\<lambda>r m. m \<or> (\<exists>l\<in>set ls. ?P (l @ r))) rs ms, ?out @ ?pad @ out2, w2)"
      using False w1(1) o2(1) less.prems(3) by (subst bnl_blocks.simps)
        (simp flip: block_def rest_def add: unmatched_single lone_left_def map2_flags, simp add: ls bex_Un)
    moreover have "mset (?out @ ?pad @ out2) = join_rows ?P (if keeps_left jt then JLeft else JInner) 0 rw ls rs"
      unfolding ls join_rows_append using o2(2) by (simp add: join_rows_def pairs_right_major keeps_left_def keeps_right_def)
    ultimately show ?thesis using o2(3) by blast
  qed
qed

lemma block_nested_loop_join_rows:
  assumes "on_total ops on ls rs" "\<forall>r\<in>set rs. spillable ops sc r" "length rs \<le> capacity" "ws_new ws = Inr w"
  obtains out where "block_nested_loop_join ops ws lw rw (Inr (rows_stream ls)) (Inr (rows_stream rs)) on jt sc = Inr (rows_stream out)"
    "mset out = join_rows (on_holds ops on) jt lw rw ls rs"
proof -
  let ?bs = "map (row_bytes ops sc) rs" and ?n = "capacity - length rs"
  obtain w1 where w1: "spill_rows ops ws ''join workspace'' sc (rows_stream rs) w = Inr w1" "holds ?n w1 ?bs"
    by (rule spill_fresh [OF assms(2-4)])
  obtain out w2 where o: "bnl_blocks ops ws on jt rw sc (rows_stream ls) (replicate (length rs) False) w1 =
      Inr (map (\<lambda>r. \<exists>l\<in>set ls. on_holds ops on (l @ r)) rs, out, w2)"
    "mset out = join_rows (on_holds ops on) (if keeps_left jt then JLeft else JInner) 0 rw ls rs" "holds ?n w2 ?bs"
    using bnl_blocks_ok [OF assms(1,2) _ w1(2), of "replicate (length rs) False" jt rw] by (auto simp: map2_replicate)
  obtain w3 where w3: "replay ws w2 = Inr (?bs, w3)" by (rule replay_ok [OF o(3)])
  have "map (decode_row ops sc) (unmatched ?bs (map Q rs)) = map Inr (filter (\<lambda>r. \<not> Q r) rs)" for Q
    using assms(2) by (induction rs) (auto simp: unmatched_def spillableD)
  then have "collect_res (map (decode_row ops sc) (unmatched ?bs (map (\<lambda>r. \<exists>l\<in>set ls. on_holds ops on (l @ r)) rs)))
      = Inr (lone_right (on_holds ops on) ls rs)" by (simp add: lone_right_def)
  then show thesis using w1(1) o w3 assms(4)
    by (intro that [of "out @ (if keeps_right jt then map (pad_left lw) (lone_right (on_holds ops on) ls rs) else [])"])
      (auto simp: block_nested_loop_join_def join_rows_def keeps_left_def keeps_right_def)
qed

end

end
