(* ===== verification/External_Sort.thy ===== *)
theory External_Sort
  imports Join_Spec
begin

text \<open>
  External merge sort: \<^verbatim>\<open>src/crates/strata-db/src/query/volcano/sort.rs\<close>. The runs are workspaces; the
  merge heap is the list of its items, of which \<open>pop\<close> takes the least. Keys are compared as
  lists of byte strings, lexicographically. The result is the stable sort of the input.
\<close>

section \<open>Sort keys\<close>

record ('j, 'd) sort_term =
  sk_expr :: "('j, 'd) expr"
  sk_ascending :: bool
  sk_nulls_first :: bool

definition sort_key_part :: "('j, 'd, 'x) expr_ops_scheme \<Rightarrow> ('j, 'd) row \<Rightarrow> ('j, 'd) sort_term \<Rightarrow> query_error + bytes" where
  "sort_key_part ops t key =
    res_bind (eval ops t (sk_expr key)) (\<lambda>v.
      if is_null v then Inr [if sk_nulls_first key then 0 else 1]
      else res_bind (map_err (\<lambda>_. QType ''cannot ORDER BY this value'') (encode_key ops v)) (\<lambda>bs.
        Inr ((if sk_nulls_first key then 1 else 0) # (if sk_ascending key then bs else map not bs))))"

definition sort_key_bytes :: "('j, 'd, 'x) expr_ops_scheme \<Rightarrow> ('j, 'd) sort_term list \<Rightarrow> ('j, 'd) row \<Rightarrow> query_error + bytes list" where
  "sort_key_bytes ops keys t = collect_res (map (sort_key_part ops t) keys)"

section \<open>Runs\<close>

definition SORT_RUN_TUPLES :: nat where "SORT_RUN_TUPLES = 4096"
definition SORT_RUN_MEMORY :: nat where "SORT_RUN_MEMORY = 8 * 1024 * 1024"
definition SORT_RUN_DISK :: nat where "SORT_RUN_DISK = 1073741824"

definition flush_run ::
    "('j, 'd, 'x) expr_ops_scheme \<Rightarrow> 'w ws_ops \<Rightarrow> schema \<Rightarrow> (bytes list \<times> ('j, 'd) row) list \<Rightarrow> query_error + 'w" where
  "flush_run ops ws sc batch =
    (let sorted = sort_key fst batch in
     res_bind (map_err (work_err ''sort spill'') (ws_new ws)) (\<lambda>run.
       spill_rows ops ws ''sort run'' sc (rows_stream (map snd sorted)) run))"

function sort_runs ::
    "('j, 'd, 'x) expr_ops_scheme \<Rightarrow> 'w ws_ops \<Rightarrow> ('j, 'd) sort_term list \<Rightarrow> schema \<Rightarrow> ('j, 'd) stream \<Rightarrow> query_error + 'w list" where
  "sort_runs ops ws keys sc rows =
    (if rows = [] then Inr []
     else
       res_bind (collect_res (map (\<lambda>row. res_bind row (\<lambda>t. res_map (\<lambda>k. (k, t)) (sort_key_bytes ops keys t))) (take SORT_RUN_TUPLES rows))) (\<lambda>batch.
       res_bind (flush_run ops ws sc batch) (\<lambda>run.
       res_map (\<lambda>runs. run # runs) (sort_runs ops ws keys sc (drop SORT_RUN_TUPLES rows)))))"
  by pat_completeness auto
termination
  by (relation "measure (\<lambda>(_, _, _, _, rows). length rows)") (auto simp: SORT_RUN_TUPLES_def)

declare sort_runs.simps [simp del]

section \<open>Merging\<close>

record ('j, 'd) merge_item =
  mi_key :: "bytes list"
  mi_run :: nat
  mi_tuple :: "('j, 'd) row"

definition item_less :: "('j, 'd) merge_item \<Rightarrow> ('j, 'd) merge_item \<Rightarrow> bool" where
  "item_less a b \<longleftrightarrow> mi_key a < mi_key b \<or> mi_key a = mi_key b \<and> mi_run a < mi_run b"

text \<open>\<open>BinaryHeap::pop\<close> of the reversed items: the least one and the others.\<close>

fun heap_pop :: "('j, 'd) merge_item list \<Rightarrow> (('j, 'd) merge_item \<times> ('j, 'd) merge_item list) option" where
  "heap_pop [] = None"
| "heap_pop (x # xs) =
    (case heap_pop xs of
       None \<Rightarrow> Some (x, [])
     | Some (m, rest) \<Rightarrow> if item_less m x then Some (m, x # rest) else Some (x, m # rest))"

definition next_item ::
    "('j, 'd, 'x) expr_ops_scheme \<Rightarrow> ('j, 'd) sort_term list \<Rightarrow> schema \<Rightarrow> nat \<Rightarrow> bytes list \<Rightarrow> query_error + ('j, 'd) merge_item option \<times> bytes list" where
  "next_item ops keys sc run_idx cursor =
    (case cursor of
       [] \<Rightarrow> Inr (None, [])
     | b # bs \<Rightarrow>
         res_bind (decode_row ops sc b) (\<lambda>t.
         res_bind (sort_key_bytes ops keys t) (\<lambda>key.
           Inr (Some \<lparr>mi_key = key, mi_run = run_idx, mi_tuple = t\<rparr>, bs))))"

text \<open>The first item of every run, from run \<open>i\<close> on.\<close>

fun first_items ::
    "('j, 'd, 'x) expr_ops_scheme \<Rightarrow> ('j, 'd) sort_term list \<Rightarrow> schema \<Rightarrow> nat \<Rightarrow> bytes list list
     \<Rightarrow> query_error + ('j, 'd) merge_item list \<times> bytes list list" where
  "first_items ops keys sc i [] = Inr ([], [])"
| "first_items ops keys sc i (c # cs) =
    res_bind (next_item ops keys sc i c) (\<lambda>(item, c').
    res_bind (first_items ops keys sc (Suc i) cs) (\<lambda>(items, cs').
      Inr (case item of None \<Rightarrow> (items, c' # cs') | Some x \<Rightarrow> (x # items, c' # cs'))))"

lemma heap_pop_length: "heap_pop h = Some (m, rest) \<Longrightarrow> length h = Suc (length rest)"
proof (induction h arbitrary: m rest)
  case (Cons x h)
  then show ?case by (cases h) (fastforce split: option.splits if_splits)+
qed simp

lemma next_item_length: "next_item ops keys sc i c = Inr (Some x, c') \<Longrightarrow> length c = Suc (length c')"
  by (auto simp: next_item_def split: list.splits)

lemma length_cursors: "i < length cs \<Longrightarrow> length (concat (cs[i := c])) + length (cs ! i) = length (concat cs) + length c"
proof (induction cs arbitrary: i)
  case (Cons x cs)
  then show ?case by (cases i) auto
qed simp

function merge_runs ::
    "('j, 'd, 'x) expr_ops_scheme \<Rightarrow> ('j, 'd) sort_term list \<Rightarrow> schema \<Rightarrow> bytes list list \<Rightarrow> ('j, 'd) merge_item list
     \<Rightarrow> query_error + ('j, 'd) row list" where
  "merge_runs ops keys sc cursors heap =
    (case heap_pop heap of
       None \<Rightarrow> Inr []
     | Some (item, rest) \<Rightarrow>
         if mi_run item < length cursors then
           (case next_item ops keys sc (mi_run item) (cursors ! mi_run item) of
              Inl e \<Rightarrow> Inl e
            | Inr (None, c) \<Rightarrow> res_map (\<lambda>out. mi_tuple item # out) (merge_runs ops keys sc cursors rest)
            | Inr (Some x, c) \<Rightarrow> res_map (\<lambda>out. mi_tuple item # out) (merge_runs ops keys sc (cursors[mi_run item := c]) (x # rest)))
         else Inl QPanic)"
  by pat_completeness auto
termination
proof (relation "measure (\<lambda>(_, _, _, cursors, heap). length (concat cursors) + length heap)", goal_cases)
  case (3 ops keys sc cursors heap p item rest y z c x)
  then show ?case using heap_pop_length [of heap item rest] next_item_length [of ops keys sc "mi_run item" "cursors ! mi_run item" x c]
      length_cursors [of "mi_run item" cursors c] by auto
qed (auto dest: heap_pop_length)

declare merge_runs.simps [simp del]

definition sort_rows ::
    "('j, 'd, 'x) expr_ops_scheme \<Rightarrow> 'w ws_ops \<Rightarrow> query_error + ('j, 'd) stream \<Rightarrow> ('j, 'd) sort_term list \<Rightarrow> schema \<Rightarrow> query_error + ('j, 'd) stream" where
  "sort_rows ops ws input keys sc =
    res_bind input (\<lambda>rows.
    res_bind (sort_runs ops ws keys sc rows) (\<lambda>runs.
    res_bind (collect_res (map (\<lambda>run. res_map fst (replay ws run)) runs)) (\<lambda>cursors.
    res_bind (first_items ops keys sc 0 cursors) (\<lambda>(heap, cursors).
    res_map rows_stream (merge_runs ops keys sc cursors heap)))))"

section \<open>Stable sorting of lists\<close>

lemma sort_key_least:
  assumes "\<forall>a\<in>set as. f x < f a" "\<forall>b\<in>set bs. f x \<le> f b"
  shows "sort_key f (as @ x # bs) = x # sort_key f (as @ bs)"
  using assms
proof (induction as)
  case Nil
  then show ?case by (simp add: insort_is_Cons)
next
  case (Cons a as)
  then have "\<not> f a \<le> f x" by auto
  then show ?case using Cons by simp
qed

lemma sort_key_presorted: "sort_key f (sort_key f xs @ ys) = sort_key f (xs @ ys)"
proof (rule properties_for_sort_key)
  show "mset (sort_key f (xs @ ys)) = mset (sort_key f xs @ ys)" by simp
  show "filter (\<lambda>x. f k = f x) (sort_key f (xs @ ys)) = filter (\<lambda>x. f k = f x) (sort_key f xs @ ys)" for k
    using sort_key_stable [of f "f k" "xs @ ys"] sort_key_stable [of f "f k" xs] by (simp add: eq_commute)
qed simp

lemma sort_key_swap: "sort_key f (xs @ sort_key f ys) = sort_key f (xs @ ys)"
  using sort_key_presorted [of f ys "[]"] by (induction xs) simp_all

lemma sort_key_batches: "sort_key f (concat (map (sort_key f) xss)) = sort_key f (concat xss)"
proof (induction xss)
  case (Cons xs xss)
  have "sort_key f (xs @ concat (map (sort_key f) xss)) = sort_key f (xs @ concat xss)"
    using Cons by (metis sort_key_swap)
  then show ?case by (simp add: sort_key_presorted)
qed simp

lemma sort_key_keyed: "sort_key fst (map (\<lambda>t. (k t, t)) ts) = map (\<lambda>t. (k t, t)) (sort_key k ts)"
proof (induction ts)
  case (Cons t ts)
  have "insort_key fst (k t, t) (map (\<lambda>t. (k t, t)) xs) = map (\<lambda>t. (k t, t)) (insort_key k t xs)" for xs
    by (induction xs) simp_all
  then show ?case using Cons by simp
qed simp

section \<open>The merge\<close>

lemma heap_pop_None [simp]: "heap_pop h = None \<longleftrightarrow> h = []"
  by (cases h) (auto split: option.splits prod.splits)

lemma heap_pop_least:
  assumes "heap_pop h = Some (m, rest)"
  shows "mset h = add_mset m (mset rest) \<and> (\<forall>x\<in>set rest. \<not> item_less x m)"
  using assms
proof (induction h arbitrary: m rest)
  case (Cons x h)
  show ?case
  proof (cases "heap_pop h")
    case None
    then show ?thesis using Cons.prems by simp
  next
    case (Some p)
    obtain m' rest' where p: "p = (m', rest')" by (cases p)
    have IH: "mset h = add_mset m' (mset rest')" "\<forall>x\<in>set rest'. \<not> item_less x m'" using Cons.IH Some p by blast+
    show ?thesis
    proof (cases "item_less m' x")
      case True
      then have "\<not> item_less x m'" by (auto simp: item_less_def)
      then show ?thesis using True Cons.prems Some p IH by auto
    next
      case False
      have "\<not> item_less y x" if "y \<in> set rest'" for y
        using IH(2) that False by (fastforce simp: item_less_def)
      then show ?thesis using False Cons.prems Some p IH by auto
    qed
  qed
qed simp

text \<open>The heads of the runs, numbered from \<open>j\<close>.\<close>

fun head_items :: "(('j, 'd) row \<Rightarrow> bytes list) \<Rightarrow> nat \<Rightarrow> ('j, 'd) row list list \<Rightarrow> ('j, 'd) merge_item list" where
  "head_items k j [] = []"
| "head_items k j ([] # Rs) = head_items k (Suc j) Rs"
| "head_items k j ((t # ts) # Rs) = \<lparr>mi_key = k t, mi_run = j, mi_tuple = t\<rparr> # head_items k (Suc j) Rs"

lemma set_head_items:
  "set (head_items k j Rs) = {\<lparr>mi_key = k t, mi_run = j + i, mi_tuple = t\<rparr> | i t ts. i < length Rs \<and> Rs ! i = t # ts}"
proof (induction k j Rs rule: head_items.induct)
  case (2 k j Rs)
  then show ?case by (force simp: less_Suc_eq_0_disj)
next
  case (3 k j t ts Rs)
  then show ?case by (force simp: less_Suc_eq_0_disj)
qed simp

lemma head_items_drop:
  assumes "i < length Rs" "Rs ! i = t # ts"
  shows "mset (head_items k j (Rs[i := []])) + {#\<lparr>mi_key = k t, mi_run = j + i, mi_tuple = t\<rparr>#} = mset (head_items k j Rs)"
  using assms
proof (induction k j Rs arbitrary: i rule: head_items.induct)
  case (2 k j Rs)
  then show ?case by (cases i) auto
next
  case (3 k j t' ts' Rs)
  then show ?case by (cases i) auto
qed simp

lemma head_items_push:
  assumes "i < length Rs"
  shows "mset (head_items k j (Rs[i := t # ts])) = mset (head_items k j (Rs[i := []])) + {#\<lparr>mi_key = k t, mi_run = j + i, mi_tuple = t\<rparr>#}"
  using assms
proof (induction k j Rs arbitrary: i rule: head_items.induct)
  case (2 k j Rs)
  then show ?case by (cases i) auto
next
  case (3 k j t' ts' Rs)
  then show ?case by (cases i) auto
qed simp

text \<open>Rows that can be keyed and spilled.\<close>

definition sortable :: "('j, 'd, 'x) expr_ops_scheme \<Rightarrow> ('j, 'd) sort_term list \<Rightarrow> schema \<Rightarrow> (('j, 'd) row \<Rightarrow> bytes list) \<Rightarrow> ('j, 'd) row \<Rightarrow> bool" where
  "sortable ops keys sc k t \<longleftrightarrow> spillable ops sc t \<and> sort_key_bytes ops keys t = Inr (k t)"

lemma first_items_ok:
  assumes "\<forall>R\<in>set Rs. \<forall>t\<in>set R. sortable ops keys sc k t"
  shows "first_items ops keys sc j (map (map (row_bytes ops sc)) Rs) = Inr (head_items k j Rs, map (\<lambda>R. map (row_bytes ops sc) (tl R)) Rs)"
  using assms
proof (induction k j Rs rule: head_items.induct)
  case (3 k j t ts Rs)
  then show ?case by (simp add: next_item_def sortable_def spillableD)
qed (simp_all add: next_item_def)

text \<open>A head that no other head precedes is the next row of the sorted runs.\<close>

lemma sort_key_heads:
  assumes sorted: "\<forall>R\<in>set Rs. sorted (map k R)" and i: "i < length Rs" "Rs ! i = t # ts"
    and before: "\<And>j u us. j < i \<Longrightarrow> Rs ! j = u # us \<Longrightarrow> k t < k u"
    and after: "\<And>j u us. i < j \<Longrightarrow> j < length Rs \<Longrightarrow> Rs ! j = u # us \<Longrightarrow> k t \<le> k u"
  shows "sort_key k (concat Rs) = t # sort_key k (concat (Rs[i := ts]))" "length (concat (Rs[i := ts])) < length (concat Rs)"
proof -
  have "Rs = take i Rs @ (t # ts) # drop (Suc i) Rs" using i by (metis id_take_nth_drop)
  from arg_cong [OF this, of concat] have c: "concat Rs = concat (take i Rs) @ t # (ts @ concat (drop (Suc i) Rs))" by simp
  have c': "concat (Rs[i := ts]) = concat (take i Rs) @ ts @ concat (drop (Suc i) Rs)"
    using i(1) by (simp add: upd_conv_take_nth_drop)
  have run: "k u \<le> k x" if "j < length Rs" "Rs ! j = u # us" "x \<in> set (u # us)" for j u us x
  proof -
    have "sorted (map k (u # us))" using sorted that(1,2) nth_mem by metis
    then show ?thesis using that(3) by auto
  qed
  have "k t < k x" if x: "x \<in> set (concat (take i Rs))" for x
  proof -
    obtain j where j: "j < i" "x \<in> set (Rs ! j)" using x i(1) by (auto simp: in_set_conv_nth [of _ "take i Rs"])
    then obtain u us where u: "Rs ! j = u # us" by (cases "Rs ! j") auto
    show ?thesis using before [OF j(1) u] run [OF _ u] j i(1) u by fastforce
  qed
  moreover have "k t \<le> k x" if x: "x \<in> set (ts @ concat (drop (Suc i) Rs))" for x
  proof (cases "x \<in> set ts")
    case True
    then show ?thesis using run [OF i] by simp
  next
    case False
    then obtain j where j: "j < length Rs - Suc i" "x \<in> set (Rs ! (Suc i + j))"
      using x by (auto simp: in_set_conv_nth [of _ "drop (Suc i) Rs"])
    then obtain u us where u: "Rs ! (Suc i + j) = u # us" by (cases "Rs ! (Suc i + j)") auto
    show ?thesis using after [OF _ _ u] run [OF _ u] j u by fastforce
  qed
  ultimately show "sort_key k (concat Rs) = t # sort_key k (concat (Rs[i := ts]))"
    using sort_key_least [of "concat (take i Rs)" k t "ts @ concat (drop (Suc i) Rs)"] by (simp add: c c')
  show "length (concat (Rs[i := ts])) < length (concat Rs)" by (simp only: c c' length_append list.size)
qed

text \<open>What the heap gives: the head of a run that no other head precedes.\<close>

lemma heap_pop_head:
  assumes "heap_pop heap = Some (m, rest)" "mset heap = mset (head_items k 0 Rs)"
  obtains i t ts where "i < length Rs" "Rs ! i = t # ts" "m = \<lparr>mi_key = k t, mi_run = i, mi_tuple = t\<rparr>"
    "mset rest = mset (head_items k 0 (Rs[i := []]))"
    "\<forall>j u us. j < i \<longrightarrow> Rs ! j = u # us \<longrightarrow> k t < k u" "\<forall>j u us. i < j \<longrightarrow> j < length Rs \<longrightarrow> Rs ! j = u # us \<longrightarrow> k t \<le> k u"
proof -
  have least: "mset heap = add_mset m (mset rest)" "\<forall>x\<in>set rest. \<not> item_less x m" using heap_pop_least [OF assms(1)] by blast+
  have all: "set (head_items k 0 Rs) = insert m (set rest)"
    using least(1) assms(2) by (metis set_mset_add_mset_insert set_mset_mset)
  then have "m \<in> set (head_items k 0 Rs)" by simp
  then obtain i t ts where i: "i < length Rs" "Rs ! i = t # ts" "m = \<lparr>mi_key = k t, mi_run = i, mi_tuple = t\<rparr>"
    unfolding set_head_items by auto
  have heads: "\<not> item_less \<lparr>mi_key = k u, mi_run = j, mi_tuple = u\<rparr> m" if "j < length Rs" "j \<noteq> i" "Rs ! j = u # us" for j u us
  proof -
    let ?x = "\<lparr>mi_key = k u, mi_run = j, mi_tuple = u\<rparr>"
    have "?x \<in> set (head_items k 0 Rs)" unfolding set_head_items using that by auto
    moreover have "?x \<noteq> m" using that(2) i(3) by auto
    ultimately show ?thesis using all least(2) by auto
  qed
  have "k t < k u" if "j < i" "Rs ! j = u # us" for j u us
    using heads [of j u us] that i(1) by (auto simp: i(3) item_less_def not_less)
  moreover have "k t \<le> k u" if "i < j" "j < length Rs" "Rs ! j = u # us" for j u us
    using heads [of j u us] that by (auto simp: i(3) item_less_def not_less)
  moreover have "mset rest = mset (head_items k 0 (Rs[i := []]))"
    using head_items_drop [OF i(1,2), of k 0] least(1) assms(2) by (simp add: i(3))
  ultimately show thesis using that i by blast
qed

lemma merge_runs_ok:
  assumes "\<forall>R\<in>set Rs. sorted (map k R)" "\<forall>R\<in>set Rs. \<forall>t\<in>set R. sortable ops keys sc k t" "mset heap = mset (head_items k 0 Rs)"
  shows "merge_runs ops keys sc (map (\<lambda>R. map (row_bytes ops sc) (tl R)) Rs) heap = Inr (sort_key k (concat Rs))"
  using assms
proof (induction "length (concat Rs)" arbitrary: Rs heap rule: less_induct)
  case less
  let ?c = "\<lambda>R. map (row_bytes ops sc) (tl R)"
  show ?case
  proof (cases "heap_pop heap")
    case None
    then have h: "set (head_items k 0 Rs) = {}" using less.prems(3) by simp
    have "Rs ! i = []" if "i < length Rs" for i
      using h that unfolding set_head_items by (cases "Rs ! i") auto
    then have "\<forall>R\<in>set Rs. R = []" by (metis in_set_conv_nth)
    then have "sort_key k (concat Rs) = []" by (metis concat_eq_Nil_conv sort_key_simps(1))
    then show ?thesis using None by (subst merge_runs.simps) simp
  next
    case (Some p)
    obtain m rest where p: "heap_pop heap = Some (m, rest)" using Some by (cases p) auto
    obtain i t ts where i: "i < length Rs" "Rs ! i = t # ts" "m = \<lparr>mi_key = k t, mi_run = i, mi_tuple = t\<rparr>"
      "mset rest = mset (head_items k 0 (Rs[i := []]))"
      "\<forall>j u us. j < i \<longrightarrow> Rs ! j = u # us \<longrightarrow> k t < k u" "\<forall>j u us. i < j \<longrightarrow> j < length Rs \<longrightarrow> Rs ! j = u # us \<longrightarrow> k t \<le> k u"
      by (rule heap_pop_head [OF p less.prems(3)])
    define Rs' where "Rs' = Rs[i := ts]"
    have next_row: "sort_key k (concat Rs) = t # sort_key k (concat Rs')" "length (concat Rs') < length (concat Rs)"
      unfolding Rs'_def using sort_key_heads [OF less.prems(1) i(1,2)] i(5,6) by blast+
    have "t # ts \<in> set Rs" using i(1,2) nth_mem by metis
    then have ts: "sorted (map k ts)" "\<forall>t\<in>set ts. sortable ops keys sc k t" using less.prems(1,2) by fastforce+
    then have ok: "\<forall>R\<in>set Rs'. sorted (map k R)" "\<forall>R\<in>set Rs'. \<forall>t\<in>set R. sortable ops keys sc k t"
      using less.prems(1,2) by (auto simp: Rs'_def dest!: set_update_subset_insert [THEN subsetD])
    note IH = less.hyps [OF next_row(2) ok]
    show ?thesis
    proof (cases ts)
      case Nil
      then have "merge_runs ops keys sc (map ?c Rs') rest = Inr (sort_key k (concat Rs'))"
        using IH i(4) by (simp add: Rs'_def)
      moreover have "map ?c Rs' = map ?c Rs" using Nil i by (simp add: Rs'_def map_update list_update_same_conv)
      ultimately show ?thesis using i Nil next_row(1) p by (subst merge_runs.simps) (simp add: next_item_def res_map_def)
    next
      case (Cons u us)
      let ?x = "\<lparr>mi_key = k u, mi_run = i, mi_tuple = u\<rparr>"
      have "mset (?x # rest) = mset (head_items k 0 Rs')"
        using head_items_push [OF i(1), of k 0 u us] i(4) by (simp add: Rs'_def Cons)
      then have "merge_runs ops keys sc (map ?c Rs') (?x # rest) = Inr (sort_key k (concat Rs'))" by (rule IH)
      moreover have "map ?c Rs' = (map ?c Rs)[i := map (row_bytes ops sc) us]" by (simp add: Rs'_def map_update Cons)
      ultimately show ?thesis using i Cons next_row(1) p ts(2)
        by (subst merge_runs.simps) (simp add: next_item_def sortable_def spillableD res_map_def)
    qed
  qed
qed

section \<open>The sort\<close>

context workspace
begin

lemma flush_run_ok:
  assumes "\<forall>t\<in>set ts. sortable ops keys sc k t" "length ts \<le> capacity" "ws_new ws = Inr w0"
  shows "\<exists>run n. flush_run ops ws sc (map (\<lambda>t. (k t, t)) ts) = Inr run \<and> holds n run (map (row_bytes ops sc) (sort_key k ts))"
proof -
  have "map snd (sort_key fst (map (\<lambda>t. (k t, t)) ts)) = sort_key k ts" by (simp add: sort_key_keyed comp_def)
  moreover have "\<forall>t\<in>set (sort_key k ts). spillable ops sc t" using assms(1) by (simp add: sortable_def)
  from spill_fresh [OF this _ assms(3), of "''sort run''"] obtain run
    where "spill_rows ops ws ''sort run'' sc (rows_stream (sort_key k ts)) w0 = Inr run"
      "holds (capacity - length ts) run (map (row_bytes ops sc) (sort_key k ts))" using assms(2) by auto
  ultimately show ?thesis using assms(3) by (auto simp: flush_run_def)
qed

lemma sort_runs_ok:
  assumes "\<forall>t\<in>set ts. sortable ops keys sc k t" "min SORT_RUN_TUPLES (length ts) \<le> capacity" "ws_new ws = Inr w0"
  shows "\<exists>runs batches. sort_runs ops ws keys sc (rows_stream ts) = Inr runs \<and> concat batches = ts \<and>
    list_all2 (\<lambda>run b. \<exists>n. holds n run (map (row_bytes ops sc) (sort_key k b))) runs batches"
  using assms(1,2)
proof (induction "length ts" arbitrary: ts rule: less_induct)
  case less
  show ?case
  proof (cases "ts = []")
    case True
    then show ?thesis by (subst sort_runs.simps) (auto intro: exI [of _ "[]"])
  next
    case False
    let ?b = "take SORT_RUN_TUPLES ts" and ?r = "drop SORT_RUN_TUPLES ts"
    have b: "\<forall>t\<in>set ?b. sortable ops keys sc k t" "\<forall>t\<in>set ?r. sortable ops keys sc k t"
      using less.prems(1) by (auto dest: in_set_takeD in_set_dropD)
    have r: "length ?r < length ts" "min SORT_RUN_TUPLES (length ?r) \<le> capacity" "length ?b \<le> capacity"
      using False less.prems(2) by (auto simp: SORT_RUN_TUPLES_def)
    obtain runs batches where IH: "sort_runs ops ws keys sc (rows_stream ?r) = Inr runs" "concat batches = ?r"
      "list_all2 (\<lambda>run b. \<exists>n. holds n run (map (row_bytes ops sc) (sort_key k b))) runs batches"
      using less.hyps [OF r(1) b(2) r(2)] by blast
    obtain run n where run: "flush_run ops ws sc (map (\<lambda>t. (k t, t)) ?b) = Inr run" "holds n run (map (row_bytes ops sc) (sort_key k ?b))"
      using flush_run_ok [OF b(1) r(3) assms(3)] by blast
    have "map (\<lambda>row. res_bind row (\<lambda>t. res_map (\<lambda>k. (k, t)) (sort_key_bytes ops keys t))) (rows_stream ?b) = map Inr (map (\<lambda>t. (k t, t)) ?b)"
      using b(1) by (auto simp: rows_stream_def sortable_def res_map_def)
    then have "sort_runs ops ws keys sc (rows_stream ts) = Inr (run # runs)"
      using False run(1) IH(1) by (subst sort_runs.simps) (simp add: res_map_def del: map_map)
    then show ?thesis using run(2) IH(2,3) by (intro exI [of _ "run # runs"] exI [of _ "?b # batches"]) auto
  qed
qed

lemma sort_rows_stable:
  assumes "\<forall>t\<in>set ts. sortable ops keys sc k t" "min SORT_RUN_TUPLES (length ts) \<le> capacity" "ws_new ws = Inr w0"
  shows "sort_rows ops ws (Inr (rows_stream ts)) keys sc = Inr (rows_stream (sort_key k ts))"
proof -
  obtain runs batches where r: "sort_runs ops ws keys sc (rows_stream ts) = Inr runs" "concat batches = ts"
    "list_all2 (\<lambda>run b. \<exists>n. holds n run (map (row_bytes ops sc) (sort_key k b))) runs batches"
    using sort_runs_ok [OF assms] by blast
  let ?Rs = "map (sort_key k) batches"
  have "collect_res (map (\<lambda>run. res_map fst (replay ws run)) runs) = Inr (map (map (row_bytes ops sc)) ?Rs)"
    using r(3)
  proof induction
    case (Cons run runs b batches)
    then obtain n where "holds n run (map (row_bytes ops sc) (sort_key k b))" by blast
    then obtain w' where "replay ws run = Inr (map (row_bytes ops sc) (sort_key k b), w')" by (rule replay_ok)
    then show ?case using Cons by (simp add: res_map_def)
  qed simp
  moreover have ok: "\<forall>R\<in>set ?Rs. sorted (map k R)" "\<forall>R\<in>set ?Rs. \<forall>t\<in>set R. sortable ops keys sc k t"
    using assms(1) r(2) by auto
  moreover have "sort_key k (concat ?Rs) = sort_key k ts" using sort_key_batches [of k batches] r(2) by simp
  ultimately show ?thesis using r(1) first_items_ok [OF ok(2), of 0] merge_runs_ok [OF ok refl]
    by (simp add: sort_rows_def res_map_def)
qed

end

end
