(* ===== verification/Like_Match.thy ===== *)
theory Like_Match
  imports Expr_Eval
begin

text \<open>
  \<open>LIKE\<close>: the backtracking scan of \<^verbatim>\<open>expression/function.rs\<close> ends, and on texts without the
  character \<open>%\<close> it decides the declarative meaning of the pattern.
\<close>

section \<open>The meaning of a pattern\<close>

text \<open>\<open>%\<close> stands for any run of characters, \<open>_\<close> for one, any other character for itself.\<close>

fun like_spec :: "int list \<Rightarrow> int list \<Rightarrow> bool" where
  "like_spec t [] = (t = [])"
| "like_spec t (c # p) =
    (if c = 37 then \<exists>k \<le> length t. like_spec (drop k t) p
     else case t of [] \<Rightarrow> False | x # xs \<Rightarrow> (c = 95 \<or> c = x) \<and> like_spec xs p)"

text \<open>A run of the pattern without \<open>%\<close> that matches the text character by character.\<close>

definition fits_run :: "int list \<Rightarrow> int list \<Rightarrow> bool" where
  "fits_run xs ps \<longleftrightarrow> list_all2 (\<lambda>x c. c \<noteq> 37 \<and> (c = 95 \<or> c = x)) xs ps"

lemma like_spec_run:
  assumes "\<forall>c \<in> set ps. c \<noteq> 37"
  shows "like_spec t (ps @ q) \<longleftrightarrow> length ps \<le> length t \<and> fits_run (take (length ps) t) ps \<and> like_spec (drop (length ps) t) q"
  using assms
proof (induction ps arbitrary: t)
  case (Cons c ps)
  then show ?case by (cases t) (auto simp: fits_run_def)
qed (simp add: fits_run_def)

lemma like_spec_star_drop: "like_spec (drop k t) (37 # q) \<Longrightarrow> like_spec t (37 # q)"
proof -
  assume "like_spec (drop k t) (37 # q)"
  then obtain j where "j \<le> length t - k" "like_spec (drop (j + k) t) q" by auto
  then show ?thesis by (cases "k \<le> length t") (auto intro: exI [of _ "j + k"] exI [of _ "length t"])
qed

lemma like_spec_star_Suc:
  assumes "\<not> like_spec t q" and "t \<noteq> []"
  shows "like_spec t (37 # q) \<longleftrightarrow> like_spec (tl t) (37 # q)"
proof
  assume "like_spec t (37 # q)"
  then obtain k where k: "k \<le> length t" "like_spec (drop k t) q" by auto
  then obtain j where "k = Suc j" using assms(1) by (cases k) auto
  then show "like_spec (tl t) (37 # q)" using k by (auto simp: drop_Suc intro!: exI [of _ j])
next
  assume "like_spec (tl t) (37 # q)"
  then show "like_spec t (37 # q)" using like_spec_star_drop [of 1 t q] by (simp add: drop_Suc)
qed

lemma like_spec_Nil: "like_spec [] p \<longleftrightarrow> (\<forall>c \<in> set p. c = 37)"
  by (induction p) auto

lemma fits_run_no_percent: "fits_run xs ps \<Longrightarrow> c \<in> set ps \<Longrightarrow> c \<noteq> 37"
  by (auto simp: fits_run_def list_all2_conv_all_nth in_set_conv_nth)

lemma fits_run_length: "fits_run xs ps \<Longrightarrow> length xs = length ps"
  by (simp add: fits_run_def list_all2_lengthD)

section \<open>The invariant of the scan\<close>

text \<open>The pattern between the last \<open>%\<close> and \<open>pi\<close> matches the text between \<open>star_ti\<close> and \<open>ti\<close>, and the
  whole question is that of the rest of the text from \<open>star_ti\<close> against the pattern from that
  \<open>%\<close> on.\<close>

definition like_inv :: "int list \<Rightarrow> int list \<Rightarrow> like_state \<Rightarrow> bool" where
  "like_inv t p s \<longleftrightarrow> lk_ti s \<le> length t \<and> lk_pi s \<le> length p \<and>
    (if lk_failed s then \<not> like_spec t p
     else case lk_star s of
       None \<Rightarrow> lk_ti s = lk_pi s \<and> fits_run (take (lk_ti s) t) (take (lk_pi s) p)
     | Some sp \<Rightarrow> sp < lk_pi s \<and> p ! sp = 37 \<and> lk_star_ti s \<le> lk_ti s \<and>
         fits_run (chars_between (lk_star_ti s) (lk_ti s) t) (chars_between (sp + 1) (lk_pi s) p) \<and>
         like_spec t p = like_spec (drop (lk_star_ti s) t) (37 # drop (sp + 1) p))"

lemma chars_between_snoc:
  "lo \<le> i \<Longrightarrow> i < length xs \<Longrightarrow> chars_between lo (Suc i) xs = chars_between lo i xs @ [xs ! i]"
  by (simp add: chars_between_def Suc_diff_le take_Suc_conv_app_nth)

lemma chars_between_empty [simp]: "chars_between i i xs = []"
  by (simp add: chars_between_def)

lemma length_chars_between [simp]: "hi \<le> length xs \<Longrightarrow> length (chars_between lo hi xs) = hi - lo"
  by (simp add: chars_between_def)

lemma drop_chars_between: "lo \<le> i \<Longrightarrow> drop lo xs = chars_between lo i xs @ drop i xs"
  by (metis append_take_drop_id chars_between_def drop_drop le_add_diff_inverse2)

lemma fits_run_snoc: "fits_run xs ps \<Longrightarrow> c \<noteq> 37 \<Longrightarrow> c = 95 \<or> c = x \<Longrightarrow> fits_run (xs @ [x]) (ps @ [c])"
  by (simp add: fits_run_def list_all2_appendI)

text \<open>The text after a matched run, and the question the run reduces to.\<close>

lemma like_spec_after_run:
  assumes "fits_run (chars_between lo hi t) ps" and "lo \<le> hi" and "hi \<le> length t"
  shows "like_spec (drop lo t) (ps @ q) \<longleftrightarrow> like_spec (drop hi t) q"
proof -
  have len: "length ps = hi - lo" using fits_run_length [OF assms(1)] assms(3) by simp
  then have "take (length ps) (drop lo t) = chars_between lo hi t" by (simp add: chars_between_def)
  then show ?thesis
    using like_spec_run [of ps "drop lo t" q] fits_run_no_percent [OF assms(1)] assms len by auto
qed

lemma like_spec_new_star:
  assumes "fits_run (chars_between lo hi t) ps" and "lo \<le> hi" and "hi \<le> length t"
  shows "like_spec (drop lo t) (37 # ps @ 37 # q) \<longleftrightarrow> like_spec (drop hi t) (37 # q)"
proof
  have len: "length ps = hi - lo" using fits_run_length [OF assms(1)] assms(3) by simp
  assume "like_spec (drop lo t) (37 # ps @ 37 # q)"
  then obtain k where "like_spec (drop k (drop lo t)) (ps @ 37 # q)" by auto
  then have "like_spec (drop (length ps) (drop k (drop lo t))) (37 # q)"
    using like_spec_run [of ps] fits_run_no_percent [OF assms(1)] by blast
  then have "like_spec (drop k (drop hi t)) (37 # q)" using len assms(2) by (simp add: add.commute add.left_commute)
  then show "like_spec (drop hi t) (37 # q)" by (rule like_spec_star_drop)
next
  assume "like_spec (drop hi t) (37 # q)"
  then have "like_spec (drop lo t) (ps @ 37 # q)" using like_spec_after_run [OF assms] by blast
  then show "like_spec (drop lo t) (37 # ps @ 37 # q)" by (auto intro!: exI [of _ 0])
qed

lemma like_spec_at_end:
  assumes "fits_run (chars_between lo (length t) t) ps" and "lo \<le> length t"
  shows "like_spec (drop lo t) (37 # ps @ q) \<longleftrightarrow> (\<forall>c \<in> set q. c = 37)"
proof
  have len: "length ps = length t - lo" using fits_run_length [OF assms(1)] by simp
  assume "like_spec (drop lo t) (37 # ps @ q)"
  then obtain k where k: "k \<le> length t - lo" "like_spec (drop k (drop lo t)) (ps @ q)" by auto
  then have r: "length ps \<le> length t - lo - k" "like_spec (drop (length ps) (drop k (drop lo t))) q"
    using like_spec_run [of ps "drop k (drop lo t)" q] fits_run_no_percent [OF assms(1)] by auto
  then have "like_spec [] q" using len by simp
  then show "\<forall>c \<in> set q. c = 37" by (simp only: like_spec_Nil)
next
  assume "\<forall>c \<in> set q. c = 37"
  then have "like_spec (drop lo t) (ps @ q)"
    using like_spec_after_run [OF assms order_refl, of q] by (simp add: like_spec_Nil)
  then show "like_spec (drop lo t) (37 # ps @ q)" by (auto intro!: exI [of _ 0])
qed

lemma like_spec_mismatch:
  assumes "ti < length t" and "\<not> (pj < length p \<and> (p ! pj = 95 \<or> p ! pj = t ! ti))" and "\<not> (pj < length p \<and> p ! pj = 37)"
  shows "\<not> like_spec (drop ti t) (drop pj p)"
proof (cases "pj < length p")
  case True
  then show ?thesis using assms by (simp add: Cons_nth_drop_Suc [symmetric])
qed (use assms(1) in simp)

lemma chars_between_0 [simp]: "chars_between 0 hi xs = take hi xs"
  by (simp add: chars_between_def)

lemma like_step_inv:
  assumes I: "like_inv t p s" and g: "like_going t s" and t: "37 \<notin> set t"
  shows "like_inv t p (like_step t p s)"
proof -
  define ti where "ti = lk_ti s"
  define pi where "pi = lk_pi s"
  have b: "ti < length t" "\<not> lk_failed s" "pi \<le> length p" using I g by (auto simp: like_inv_def like_going_def ti_def pi_def)
  have tn: "t ! ti \<noteq> 37" using t b(1) nth_mem by fastforce
  have dp: "drop pi p = p ! pi # drop (Suc pi) p" if "pi < length p" using that by (simp add: Cons_nth_drop_Suc)
  show ?thesis
  proof (cases "lk_star s")
    case None
    have r: "pi = ti" "fits_run (chars_between 0 ti t) (take ti p)"
      using I None b(2) by (auto simp: like_inv_def ti_def pi_def)
    note R = like_spec_after_run [OF r(2) le0 less_imp_le [OF b(1)]]
    have R': "like_spec t p \<longleftrightarrow> like_spec (drop ti t) (drop pi p)" using R [of "drop ti p"] r(1) by simp
    consider "pi < length p" "p ! pi = 95 \<or> p ! pi = t ! ti" | "pi < length p" "p ! pi \<noteq> 95" "p ! pi \<noteq> t ! ti" "p ! pi = 37"
      | "\<not> (pi < length p \<and> (p ! pi = 95 \<or> p ! pi = t ! ti))" "\<not> (pi < length p \<and> p ! pi = 37)" by blast
    then show ?thesis
    proof cases
      case 1
      then have "fits_run (take ti t @ [t ! ti]) (take ti p @ [p ! ti])" using r tn by (intro fits_run_snoc) auto
      then show ?thesis using 1 b None r
        by (simp add: like_step_def Let_def like_inv_def ti_def [symmetric] pi_def [symmetric] take_Suc_conv_app_nth)
    next
      case 2
      then show ?thesis using b R' dp
        by (simp add: like_step_def Let_def like_inv_def ti_def [symmetric] pi_def [symmetric] fits_run_def)
    next
      case 3
      then have "\<not> like_spec t p" using like_spec_mismatch [OF b(1) 3] R' by simp
      then show ?thesis using 3 b None
        by (auto simp: like_step_def Let_def like_inv_def ti_def [symmetric] pi_def [symmetric])
    qed
  next
    case (Some sp)
    define st where "st = lk_star_ti s"
    have r: "sp < pi" "p ! sp = 37" "st \<le> ti" "fits_run (chars_between st ti t) (chars_between (sp + 1) pi p)"
      "like_spec t p \<longleftrightarrow> like_spec (drop st t) (37 # drop (sp + 1) p)"
      using I Some b(2) by (auto simp: like_inv_def ti_def pi_def st_def)
    have ds: "drop (sp + 1) p = chars_between (sp + 1) pi p @ drop pi p" using r(1) by (intro drop_chars_between) simp
    consider "pi < length p" "p ! pi = 95 \<or> p ! pi = t ! ti" | "pi < length p" "p ! pi \<noteq> 95" "p ! pi \<noteq> t ! ti" "p ! pi = 37"
      | "\<not> (pi < length p \<and> (p ! pi = 95 \<or> p ! pi = t ! ti))" "\<not> (pi < length p \<and> p ! pi = 37)" by blast
    then show ?thesis
    proof cases
      case 1
      then have "fits_run (chars_between st (Suc ti) t) (chars_between (sp + 1) (Suc pi) p)"
        using r tn b by (subst (1 2) chars_between_snoc) (auto intro!: fits_run_snoc)
      then show ?thesis using 1 b Some r
        by (simp add: like_step_def Let_def like_inv_def ti_def [symmetric] pi_def [symmetric] st_def [symmetric])
    next
      case 2
      then have "like_spec t p \<longleftrightarrow> like_spec (drop ti t) (37 # drop (Suc pi) p)"
        using like_spec_new_star [OF r(4,3) less_imp_le [OF b(1)], of "drop (Suc pi) p"] r(5) ds dp by simp
      then show ?thesis using 2 b
        by (simp add: like_step_def Let_def like_inv_def ti_def [symmetric] pi_def [symmetric] fits_run_def)
    next
      case 3
      then have "\<not> like_spec (drop st t) (drop (sp + 1) p)"
        using like_spec_mismatch [OF b(1) 3] like_spec_after_run [OF r(4,3) less_imp_le [OF b(1)], of "drop pi p"] ds by simp
      moreover have "drop st t \<noteq> []" using r(3) b(1) by simp
      ultimately have "like_spec t p \<longleftrightarrow> like_spec (drop (Suc st) t) (37 # drop (sp + 1) p)"
        using like_spec_star_Suc r(5) by (metis drop_Suc tl_drop)
      then show ?thesis using 3 b r Some
        by (auto simp: like_step_def Let_def like_inv_def ti_def [symmetric] pi_def [symmetric] st_def [symmetric] fits_run_def)
    qed
  qed
qed

section \<open>Termination\<close>

text \<open>The position the last \<open>%\<close> is tried at, then the position of that \<open>%\<close>, then the text read.
  Termination does not depend on the characters.\<close>

definition like_shape :: "int list \<Rightarrow> int list \<Rightarrow> like_state \<Rightarrow> bool" where
  "like_shape t p s \<longleftrightarrow> lk_ti s \<le> length t \<and> lk_pi s \<le> length p \<and>
    (case lk_star s of None \<Rightarrow> True | Some sp \<Rightarrow> sp < lk_pi s \<and> lk_star_ti s \<le> lk_ti s)"

definition like_measure :: "int list \<Rightarrow> int list \<Rightarrow> like_state \<Rightarrow> nat \<times> nat \<times> nat \<times> nat" where
  "like_measure t p s =
    (case lk_star s of None \<Rightarrow> length t + 1 | Some _ \<Rightarrow> length t - lk_star_ti s,
     case lk_star s of None \<Rightarrow> 0 | Some sp \<Rightarrow> length p - sp,
     length t - lk_ti s, if lk_failed s then 0 else 1)"

abbreviation like_order :: "((nat \<times> nat \<times> nat \<times> nat) \<times> (nat \<times> nat \<times> nat \<times> nat)) set" where
  "like_order \<equiv> less_than <*lex*> less_than <*lex*> less_than <*lex*> less_than"

lemma like_step_shape:
  assumes "like_shape t p s" and "like_going t s"
  shows "like_shape t p (like_step t p s)" "(like_measure t p (like_step t p s), like_measure t p s) \<in> like_order"
  using assms
  by (auto simp: like_shape_def like_going_def like_step_def like_measure_def Let_def split: option.splits)

lemma like_scan_ends: "\<exists>s. while_option (like_going t) (like_step t p) like_start = Some s"
proof (rule wf_while_option_Some [where P = "like_shape t p"])
  have "wf (inv_image like_order (like_measure t p))" by (intro wf_inv_image wf_lex_prod wf_less_than)
  then show "wf {(y, x). (like_shape t p x \<and> like_going t x) \<and> y = like_step t p x}"
    by (rule wf_subset) (auto dest: like_step_shape(2))
  show "like_shape t p like_start" by (simp add: like_shape_def like_start_def)
qed (simp add: like_step_shape(1))

lemma skip_percent_all: "i \<le> length p \<Longrightarrow> skip_percent p i = length p \<longleftrightarrow> (\<forall>c \<in> set (drop i p). c = 37)"
proof (induction p i rule: skip_percent.induct)
  case (1 p i)
  show ?case
  proof (cases "i < length p")
    case True
    then have "drop i p = p ! i # drop (Suc i) p" by (simp add: Cons_nth_drop_Suc)
    then show ?thesis using 1 True by (subst skip_percent.simps) auto
  qed (use 1(2) in \<open>subst skip_percent.simps, simp\<close>)
qed

lemma like_inv_result:
  assumes I: "like_inv t p s" and n: "\<not> like_going t s"
  shows "\<not> lk_failed s \<and> skip_percent p (lk_pi s) = length p \<longleftrightarrow> like_spec t p"
proof (cases "lk_failed s")
  case False
  then have e: "lk_ti s = length t" "lk_pi s \<le> length p" using I n by (auto simp: like_inv_def like_going_def)
  have "like_spec t p \<longleftrightarrow> (\<forall>c \<in> set (drop (lk_pi s) p). c = 37)"
  proof (cases "lk_star s")
    case None
    then have "fits_run (chars_between 0 (length t) t) (take (lk_pi s) p)" using I False e by (simp add: like_inv_def)
    from like_spec_after_run [OF this, of "drop (lk_pi s) p"] show ?thesis by (simp add: like_spec_Nil)
  next
    case (Some sp)
    then have r: "sp < lk_pi s" "lk_star_ti s \<le> length t"
      "fits_run (chars_between (lk_star_ti s) (length t) t) (chars_between (sp + 1) (lk_pi s) p)"
      "like_spec t p \<longleftrightarrow> like_spec (drop (lk_star_ti s) t) (37 # drop (sp + 1) p)"
      using I False e by (auto simp: like_inv_def)
    show ?thesis
      using like_spec_at_end [OF r(3,2), of "drop (lk_pi s) p"] r(1,4) drop_chars_between [of "sp + 1" "lk_pi s" p] by simp
  qed
  then show ?thesis using False skip_percent_all [OF e(2)] by simp
qed (use I in \<open>simp add: like_inv_def\<close>)

lemma like_chars_spec:
  assumes "37 \<notin> set t"
  shows "like_chars t p = Some (like_spec t p)"
proof -
  obtain s where s: "while_option (like_going t) (like_step t p) like_start = Some s" using like_scan_ends by blast
  have "like_inv t p s"
    by (rule while_option_rule [where P = "like_inv t p", OF like_step_inv [OF _ _ assms] s])
      (auto simp: like_inv_def like_start_def fits_run_def)
  then have "\<not> lk_failed s \<and> skip_percent p (lk_pi s) = length p \<longleftrightarrow> like_spec t p"
    using while_option_stop [OF s] by (rule like_inv_result)
  then show ?thesis using s by (simp add: like_chars_def)
qed

lemma like_match_ends: "\<exists>b. like_match s p = Some b"
  using like_scan_ends [of "str_chars s" "str_chars p"] by (auto simp: like_match_def like_chars_def)

end
