(* ===== verification/Expr_Properties.thy ===== *)
theory Expr_Properties
  imports Like_Match Codec_Properties
begin

text \<open>
  What the evaluator computes: Kleene logic, an order that agrees with the order of the key
  codec, casts into their target type, exact integer arithmetic, \<open>LIKE\<close>.
\<close>

section \<open>A sample instance of the parameters\<close>

definition sample_dec_val :: "bool \<times> u8 \<Rightarrow> int" where
  "sample_dec_val d = (if fst d then - uint (snd d) else uint (snd d))"

definition sample_dec_of :: "int \<Rightarrow> (bool \<times> u8) option" where
  "sample_dec_of n = (if \<bar>n\<bar> < 256 then Some (n < 0, word_of_int \<bar>n\<bar>) else None)"

definition sample_decimal_ops :: "(bool \<times> u8) decimal_ops" where
  "sample_decimal_ops =
    \<lparr>dec_cmp = (\<lambda>a b. ord_cmp (sample_dec_val a) (sample_dec_val b)), dec_zero = (False, 0),
     dec_of_int = (\<lambda>n. (n < 0, word_of_int \<bar>n\<bar>)), dec_neg = (\<lambda>(s, n). (\<not> s, n)),
     dec_add = (\<lambda>a b. sample_dec_of (sample_dec_val a + sample_dec_val b)),
     dec_sub = (\<lambda>a b. sample_dec_of (sample_dec_val a - sample_dec_val b)),
     dec_mul = (\<lambda>a b. sample_dec_of (sample_dec_val a * sample_dec_val b)),
     dec_div = (\<lambda>a b. sample_dec_of (sample_dec_val a sdiv sample_dec_val b)),
     dec_rem = (\<lambda>a b. sample_dec_of (sample_dec_val a smod sample_dec_val b)),
     dec_integral = (\<lambda>_ d. d), dec_to_i64 = (\<lambda>d. Some (word_of_int (sample_dec_val d))),
     dec_to_f64 = (\<lambda>d. Some (f64_of_int (sample_dec_val d))), dec_of_f32 = (\<lambda>_. None), dec_of_f64 = (\<lambda>_. None),
     dec_parse = (\<lambda>s. case i64_parse s of None \<Rightarrow> None | Some n \<Rightarrow> sample_dec_of (sint n)),
     dec_to_string = (\<lambda>d. int_string (sample_dec_val d))\<rparr>"

definition sample_text_ops :: text_ops where
  "sample_text_ops =
    \<lparr>f32_to_string = (\<lambda>_. ascii ''0''), f64_to_string = (\<lambda>_. ascii ''0''), f64_parse = (\<lambda>_. None),
     str_to_uppercase = (\<lambda>s. s), str_to_lowercase = (\<lambda>s. s),
     uuid_to_string = (\<lambda>_. ascii ''0''), uuid_parse = (\<lambda>_. None)\<rparr>"

definition sample_temporal_ops :: temporal_ops where
  "sample_temporal_ops =
    \<lparr>naive_date_parse = (\<lambda>_. None), naive_date_format = (\<lambda>n. Some (int_string n)), rfc3339_parse = (\<lambda>_. None),
     datetime_parse = (\<lambda>_ _. None), naive_datetime_parse = (\<lambda>_ _. None), datetime_format = (\<lambda>n. Some (int_string n)),
     naive_time_parse = (\<lambda>_ _. None), pg_from_postgres = (\<lambda>_. None), pg_from_sql = (\<lambda>_. None), pg_from_iso = (\<lambda>_. None),
     pg_to_postgres = (\<lambda>_. ascii ''0'')\<rparr>"

definition sample_expr_ops :: "(bool, bool \<times> u8) expr_ops" where
  "sample_expr_ops =
    codec_ops.extend sample_ops \<lparr>eo_dec = sample_decimal_ops, eo_text = sample_text_ops, eo_time = sample_temporal_ops\<rparr>"

section \<open>Three-valued logic\<close>

text \<open>The truth values in their order \<open>false < unknown < true\<close>, and formulas over expressions.\<close>

definition tri :: "nat \<Rightarrow> ('j, 'd) sql_value" where
  "tri n = (if n = 0 then VBool False else if n = 1 then VNull else VBool True)"

datatype ('j, 'd) formula =
    Atom "('j, 'd) expr"
  | Conj "('j, 'd) formula" "('j, 'd) formula"
  | Disj "('j, 'd) formula" "('j, 'd) formula"
  | Neg "('j, 'd) formula"

primrec formula_expr :: "('j, 'd) formula \<Rightarrow> ('j, 'd) expr" where
  "formula_expr (Atom e) = e"
| "formula_expr (Conj f g) = EBinary BAnd (formula_expr f) (formula_expr g)"
| "formula_expr (Disj f g) = EBinary BOr (formula_expr f) (formula_expr g)"
| "formula_expr (Neg f) = ENot (formula_expr f)"

primrec atoms :: "('j, 'd) formula \<Rightarrow> ('j, 'd) expr list" where
  "atoms (Atom e) = [e]"
| "atoms (Conj f g) = atoms f @ atoms g"
| "atoms (Disj f g) = atoms f @ atoms g"
| "atoms (Neg f) = atoms f"

primrec kleene :: "(('j, 'd) expr \<Rightarrow> nat) \<Rightarrow> ('j, 'd) formula \<Rightarrow> nat" where
  "kleene v (Atom e) = v e"
| "kleene v (Conj f g) = min (kleene v f) (kleene v g)"
| "kleene v (Disj f g) = max (kleene v f) (kleene v g)"
| "kleene v (Neg f) = 2 - kleene v f"

lemma eval_binary_tri:
  assumes "m \<le> 2" and "n \<le> 2"
  shows "eval_binary ops BAnd (tri m) (tri n) = Inr (tri (min m n))" "eval_binary ops BOr (tri m) (tri n) = Inr (tri (max m n))"
proof -
  consider "m = 0" | "m = 1" | "m = 2" using assms(1) by linarith
  moreover consider "n = 0" | "n = 1" | "n = 2" using assms(2) by linarith
  ultimately show "eval_binary ops BAnd (tri m) (tri n) = Inr (tri (min m n))"
    "eval_binary ops BOr (tri m) (tri n) = Inr (tri (max m n))"
    by (cases; cases; simp add: eval_binary_def tri_def bool_op_def)+
qed

lemma eval_not_tri: "n \<le> 2 \<Longrightarrow> eval_not (tri n) = Inr (tri (2 - n))"
  by (auto simp: eval_not_def tri_def le_Suc_eq numeral_2_eq_2)

lemma kleene_le: "\<forall>a \<in> set (atoms f). v a \<le> 2 \<Longrightarrow> kleene v f \<le> 2"
  by (induction f) auto

text \<open>C23. SQL's three-valued logic: an expression built with AND, OR and NOT over sub-expressions
  that evaluate to true, false or NULL evaluates to the value Kleene's logic gives it, with
  NULL as the value between false and true: AND is the minimum, OR the maximum, NOT the
  reflection. It never fails.\<close>

theorem eval_three_valued:
  assumes "\<forall>a \<in> set (atoms f). v a \<le> 2 \<and> eval ops t a = Inr (tri (v a))"
  shows "eval ops t (formula_expr f) = Inr (tri (kleene v f))"
  using assms
proof (induction f)
  case (Conj f g)
  then have "kleene v f \<le> 2" "kleene v g \<le> 2" by (auto intro: kleene_le)
  then show ?case using Conj by (simp add: eval_binary_tri)
next
  case (Disj f g)
  then have "kleene v f \<le> 2" "kleene v g \<le> 2" by (auto intro: kleene_le)
  then show ?case using Disj by (simp add: eval_binary_tri)
next
  case (Neg f)
  then have "kleene v f \<le> 2" by (auto intro: kleene_le)
  then show ?case using Neg by (simp add: eval_not_tri)
qed simp

text \<open>\<open>NOT (NULL AND col0) OR (col0 AND NULL)\<close> on a row whose first column is true.\<close>

theorem eval_three_valued_witness:
  "eval sample_expr_ops [VBool True]
    (EBinary BOr (ENot (EBinary BAnd (ELiteral VNull) (EColumn 0))) (EBinary BAnd (EColumn 0) (ELiteral VNull))) = Inr VNull"
proof -
  define f :: "(bool, bool \<times> u8) formula" where
    "f = Disj (Neg (Conj (Atom (ELiteral VNull)) (Atom (EColumn 0)))) (Conj (Atom (EColumn 0)) (Atom (ELiteral VNull)))"
  define v :: "(bool, bool \<times> u8) expr \<Rightarrow> nat" where "v = (\<lambda>e. if e = EColumn 0 then 2 else 1)"
  have "eval sample_expr_ops [VBool True] (formula_expr f) = Inr (tri (kleene v f))"
    by (rule eval_three_valued) (auto simp: f_def v_def tri_def)
  then show ?thesis by (simp add: f_def v_def tri_def)
qed

section \<open>The order of values\<close>

definition decimal_order :: "('j, 'd, 'x) expr_ops_scheme \<Rightarrow> bool" where
  "decimal_order ops \<longleftrightarrow> (\<forall>d e. dec_cmp (eo_dec ops) d e =
    (if dec_less ops d e then Less else if dec_equal ops d e then Equal else Greater))"

definition comparable_type :: "logical_type \<Rightarrow> bool" where
  "comparable_type ty \<longleftrightarrow> ordered_type ty \<and> ty \<noteq> TBytes \<and> ty \<noteq> TFloat32"

lemma ord_cmp_eq [simp]: "ord_cmp a b = Less \<longleftrightarrow> a < b" "ord_cmp a b = Equal \<longleftrightarrow> a = b"
  by (auto simp: ord_cmp_def)

lemma sint_word_in_i64: "in_i64 n \<Longrightarrow> sint (word_of_int n :: 64 word) = n"
  by (simp add: in_i64_def sint_sbintrunc' signed_take_bit_int_eq_self)

lemma in_i64_sint:
  fixes n :: "'a::len word"
  assumes "LENGTH('a) \<le> 64"
  shows "in_i64 (sint n)"
proof -
  have "- (2 ^ (LENGTH('a) - 1)) \<le> sint n" "sint n < 2 ^ (LENGTH('a) - 1)" using sint_ge [of n] sint_less [of n] by simp_all
  moreover have "(2::int) ^ (LENGTH('a) - 1) \<le> 2 ^ 63" using assms by (intro power_increasing) auto
  ultimately show ?thesis unfolding in_i64_def by linarith
qed

lemma sint_widen:
  "sint (scast (m :: 16 word) :: 64 word) = sint m"
  "sint (scast (n :: 32 word) :: 64 word) = sint n"
  using sint_word_in_i64 [OF in_i64_sint, of m] sint_word_in_i64 [OF in_i64_sint, of n] by simp_all

text \<open>The comparison of two values of one type.\<close>

lemma numeric_cmp_same:
  "numeric_cmp ops (VInt16 a0) (VInt16 b0) = Some (ord_cmp (sint a0) (sint b0))"
  "numeric_cmp ops (VInt32 a1) (VInt32 b1) = Some (ord_cmp (sint a1) (sint b1))"
  "numeric_cmp ops (VInt64 a2) (VInt64 b2) = Some (ord_cmp (sint a2) (sint b2))"
  "numeric_cmp ops (VNumeric a3) (VNumeric b3) = Some (dec_cmp (eo_dec ops) a3 b3)"
  "numeric_cmp ops (VFloat64 a4) (VFloat64 b4) = Some (f64_total_cmp a4 b4)"
  "numeric_cmp ops (VBool a5) (VBool b5) = None"
  "numeric_cmp ops (VText a6) (VText b6) = None"
  "numeric_cmp ops (VDate a7) (VDate b7) = None"
  "numeric_cmp ops (VTimestamp a8) (VTimestamp b8) = None"
  "numeric_cmp ops (VTime a9) (VTime b9) = None"
  "numeric_cmp ops (VUuid a10) (VUuid b10) = None"
  "numeric_cmp ops (VInterval a11) (VInterval b11) = None"
  by (simp_all add: numeric_cmp_def both_def as_i64_def as_decimal_def as_f64_def sint_widen)

lemma cmp_values_same:
  "cmp_values ops (VInt16 a0) (VInt16 b0) = Inr (ord_cmp (sint a0) (sint b0))"
  "cmp_values ops (VInt32 a1) (VInt32 b1) = Inr (ord_cmp (sint a1) (sint b1))"
  "cmp_values ops (VInt64 a2) (VInt64 b2) = Inr (ord_cmp (sint a2) (sint b2))"
  "cmp_values ops (VNumeric a3) (VNumeric b3) = Inr (dec_cmp (eo_dec ops) a3 b3)"
  "cmp_values ops (VFloat64 a4) (VFloat64 b4) = Inr (f64_total_cmp a4 b4)"
  "cmp_values ops (VBool a5) (VBool b5) = Inr (ord_cmp (a5) (b5))"
  "cmp_values ops (VText a6) (VText b6) = Inr (ord_cmp (a6) (b6))"
  "cmp_values ops (VDate a7) (VDate b7) = Inr (ord_cmp (sint a7) (sint b7))"
  "cmp_values ops (VTimestamp a8) (VTimestamp b8) = Inr (ord_cmp (sint a8) (sint b8))"
  "cmp_values ops (VTime a9) (VTime b9) = Inr (ord_cmp (sint a9) (sint b9))"
  "cmp_values ops (VUuid a10) (VUuid b10) = Inr (ord_cmp (a10) (b10))"
  "cmp_values ops (VInterval a11) (VInterval b11) = Inr (ord_cmp (to_micros a11) (to_micros b11))"
  by (simp_all add: cmp_values.simps numeric_cmp_same)

lemma values_eq_same:
  "values_eq ops (VInt16 a0) (VInt16 b0) \<longleftrightarrow> ord_cmp (sint a0) (sint b0) = Equal"
  "values_eq ops (VInt32 a1) (VInt32 b1) \<longleftrightarrow> ord_cmp (sint a1) (sint b1) = Equal"
  "values_eq ops (VInt64 a2) (VInt64 b2) \<longleftrightarrow> ord_cmp (sint a2) (sint b2) = Equal"
  "values_eq ops (VNumeric a3) (VNumeric b3) \<longleftrightarrow> dec_cmp (eo_dec ops) a3 b3 = Equal"
  "values_eq ops (VFloat64 a4) (VFloat64 b4) \<longleftrightarrow> f64_total_cmp a4 b4 = Equal"
  "values_eq ops (VBool a5) (VBool b5) \<longleftrightarrow> a5 = b5"
  "values_eq ops (VText a6) (VText b6) \<longleftrightarrow> a6 = b6"
  "values_eq ops (VDate a7) (VDate b7) \<longleftrightarrow> a7 = b7"
  "values_eq ops (VTimestamp a8) (VTimestamp b8) \<longleftrightarrow> a8 = b8"
  "values_eq ops (VTime a9) (VTime b9) \<longleftrightarrow> a9 = b9"
  "values_eq ops (VUuid a10) (VUuid b10) \<longleftrightarrow> a10 = b10"
  "values_eq ops (VInterval a11) (VInterval b11) \<longleftrightarrow> to_micros a11 = to_micros b11"
  by (simp_all add: values_eq.simps numeric_cmp_same)

lemmas compare_same = cmp_values_same values_eq_same

lemma order_exclusive:
  "sint x = sint y \<longleftrightarrow> x = y" "\<not> float_less v v" "dec_equal ops d e \<Longrightarrow> \<not> dec_less ops d e"
  by (auto simp: float_less_def dec_less_def dec_equal_def signed_word_eqI)

lemma value_key_order:
  assumes "has_type a ty" and "has_type b ty" and "comparable_type ty" and "decimal_laws ops" and "decimal_order ops"
  shows "\<exists>ka kb. encode_key ops a = Inr ka \<and> encode_key ops b = Inr kb \<and>
    cmp_values ops a b = Inr (ord_cmp ka kb) \<and> (values_eq ops a b \<longleftrightarrow> ka = kb)"
proof -
  have comparable: "ordered_type ty" "ty \<noteq> TBytes" "ty \<noteq> TFloat32" using assms(3) by (simp_all add: comparable_type_def)
  have ord: "ordered_type ty" using assms(3) by (simp add: comparable_type_def)
  from encode_key_ordered [OF assms(1,2) ord assms(4)]
  obtain ka kb where k: "encode_key ops a = Inr ka" "encode_key ops b = Inr kb"
    "ka < kb \<longleftrightarrow> key_less ops a b" "ka = kb \<longleftrightarrow> key_equal ops a b" by (elim exE conjE) (rule that)
  have dc: "dec_cmp (eo_dec ops) d e = (if dec_less ops d e then Less else if dec_equal ops d e then Equal else Greater)" for d e
    using assms(5) by (simp add: decimal_order_def)
  have "cmp_values ops a b = Inr (if key_less ops a b then Less else if key_equal ops a b then Equal else Greater) \<and>
      values_eq ops a b = key_equal ops a b"
    using assms(1,2) comparable
    by (cases ty) (auto simp: has_type_iff compare_same key_less_def key_equal_def ord_cmp_def f64_total_cmp_def order_exclusive dc)
  then show ?thesis using k by (intro exI [of _ ka] exI [of _ kb]) (simp add: ord_cmp_def)
qed

text \<open>C22. Comparing two values and comparing their encoded keys is the same. For two values of one
  type (other than bytes, JSON, arrays and 32-bit floats) the ordering the evaluator computes
  is the ordering of the two key strings, and the values are equal for the evaluator exactly
  when the key strings are equal; so a filter, a sort on keys and a primary-key scan agree.\<close>

theorem cmp_values_key_order:
  assumes "has_type a ty" and "has_type b ty" and "comparable_type ty" and "decimal_laws ops" and "decimal_order ops"
  shows "\<exists>ka kb. encode_key ops a = Inr ka \<and> encode_key ops b = Inr kb \<and>
    cmp_values ops a b = Inr (ord_cmp ka kb) \<and> (values_eq ops a b \<longleftrightarrow> ka = kb)"
  by (rule value_key_order [OF assms])

lemma sample_expr_decimals: "decimal_laws sample_expr_ops" "decimal_order sample_expr_ops"
proof -
  show "decimal_laws sample_expr_ops"
    using sample_decimals by (simp add: decimal_laws_def sample_expr_ops_def codec_ops.extend_def)
  show "decimal_order sample_expr_ops"
    by (auto simp: decimal_order_def dec_less_def dec_equal_def sample_expr_ops_def sample_ops_def codec_ops.extend_def
      sample_decimal_ops_def ord_cmp_def sample_dec_val_def split: prod.splits)
qed

text \<open>The decimals \<open>-7\<close> and \<open>3\<close>.\<close>

theorem cmp_values_key_order_witness:
  "\<exists>ka kb. encode_key sample_expr_ops (VNumeric (True, 7)) = Inr ka \<and> encode_key sample_expr_ops (VNumeric (False, 3)) = Inr kb \<and>
    cmp_values sample_expr_ops (VNumeric (True, 7)) (VNumeric (False, 3)) = Inr (ord_cmp ka kb) \<and>
    (values_eq sample_expr_ops (VNumeric (True, 7)) (VNumeric (False, 3)) \<longleftrightarrow> ka = kb)"
  by (rule cmp_values_key_order [of _ TNumeric, OF _ _ _ sample_expr_decimals]) (simp_all add: comparable_type_def)

section \<open>LIKE\<close>

text \<open>C21. \<open>LIKE\<close> decides the meaning of its pattern. On a text in which the character \<open>%\<close> does not
  occur, the backtracking scan ends and its answer is the declarative one: the pattern matches
  when the text splits so that each \<open>%\<close> takes some run of characters, each \<open>_\<close> one character
  and every other pattern character itself; \<open>NOT LIKE\<close> is the negation.\<close>

theorem like_decides_pattern:
  assumes "eval ops t e = Inr (VText s)" and "eval ops t p = Inr (VText q)" and "37 \<notin> set (str_chars s)"
  shows "eval ops t (ELike e p negated) = Inr (VBool (like_spec (str_chars s) (str_chars q) \<noteq> negated))"
  using assms(1,2) like_chars_spec [OF assms(3)]
  by (simp add: eval_like_def like_match_def or_panic_def res_map_def)

text \<open>\<open>'abc' LIKE 'a%c'\<close>.\<close>

theorem like_decides_pattern_witness:
  "eval sample_expr_ops [] (ELike (ELiteral (VText [97, 98, 99])) (ELiteral (VText [97, 37, 99])) False) = Inr (VBool True)"
proof -
  have c: "str_chars [97, 98, 99] = [97, 98, 99]" "str_chars [97, 37, 99] = [97, 37, 99]"
    by (simp_all add: str_chars_def utf8_chars.simps)
  have m: "like_spec [97, 98, 99] [97, 37, 99]" by (auto intro!: exI [of _ 1])
  show ?thesis
    using like_decides_pattern [of sample_expr_ops "[]" "ELiteral (VText [97, 98, 99])" "[97, 98, 99]"
      "ELiteral (VText [97, 37, 99])" "[97, 37, 99]" False] c m by simp
qed

text \<open>A text that has the character \<open>%\<close>: the scan takes the wildcard for that character and
  answers no, although \<open>%\<close> matches every text.\<close>

lemma like_percent_in_text: "like_chars [37, 97] [37] = Some False \<and> like_spec [37, 97] [37]"
proof
  show "like_chars [37, 97] [37] = Some False"
    by (simp add: like_chars_def while_option_unfold like_going_def like_step_def like_start_def Let_def)
  show "like_spec [37, 97] [37]" by (auto intro!: exI [of _ 2])
qed

section \<open>Integer arithmetic\<close>

text \<open>The exact result, where the operation has one that fits.\<close>

fun exact_result :: "binary_operator \<Rightarrow> int \<Rightarrow> int \<Rightarrow> int option" where
  "exact_result BAdd a b = Some (a + b)"
| "exact_result BSub a b = Some (a - b)"
| "exact_result BMul a b = Some (a * b)"
| "exact_result BDiv a b = (if b = 0 then None else Some (a sdiv b))"
| "exact_result BMod a b = (if b = 0 \<or> \<not> in_i64 (a sdiv b) then None else Some (a smod b))"
| "exact_result _ a b = None"

lemma smod_in_i64: "in_i64 b \<Longrightarrow> b \<noteq> 0 \<Longrightarrow> in_i64 (a smod b)" for a b :: int
  using smod_int_compares [of a b] smod_int_range [of b a] by (auto simp: in_i64_def)



section \<open>Casts\<close>

text \<open>The documented guarantees of the parameters: what they render is a \<open>String\<close>, a UUID has 16
  bytes.\<close>

definition text_laws :: "('j, 'd, 'x) expr_ops_scheme \<Rightarrow> bool" where
  "text_laws ops \<longleftrightarrow>
    (\<forall>f. utf8_valid (f32_to_string (eo_text ops) f)) \<and> (\<forall>f. utf8_valid (f64_to_string (eo_text ops) f)) \<and>
    (\<forall>d. utf8_valid (dec_to_string (eo_dec ops) d)) \<and> (\<forall>u. utf8_valid (uuid_to_string (eo_text ops) u)) \<and>
    (\<forall>j. utf8_valid (json_to_vec ops j)) \<and> (\<forall>i. utf8_valid (pg_to_postgres (eo_time ops) i)) \<and>
    (\<forall>n s. naive_date_format (eo_time ops) n = Some s \<longrightarrow> utf8_valid s) \<and>
    (\<forall>n s. datetime_format (eo_time ops) n = Some s \<longrightarrow> utf8_valid s) \<and>
    (\<forall>s u. uuid_parse (eo_text ops) s = Some u \<longrightarrow> length u = 16)"

lemma ascii_chars: "\<forall>b \<in> set bs. b < 128 \<Longrightarrow> utf8_chars bs = Some (map uint bs)"
  by (induction bs) (auto simp: utf8_chars.simps)

lemma ascii_valid: "\<forall>b \<in> set bs. b < 128 \<Longrightarrow> utf8_valid bs"
  by (simp add: utf8_valid_def ascii_chars)

lemma as_u8_ascii: "0 \<le> n \<Longrightarrow> n < 128 \<Longrightarrow> as_u8 n < 128"
  by (simp add: word_less_def uint_as_u8)

lemma nat_string_ascii: "0 \<le> n \<Longrightarrow> \<forall>b \<in> set (nat_string n). b < 128"
proof (induction n rule: nat_string.induct)
  case (1 n)
  have "0 \<le> n mod 10" "n mod 10 < 10" by simp_all
  then have "as_u8 (48 + n mod 10) < 128" by (intro as_u8_ascii) linarith+
  moreover have "as_u8 (48 + n) < 128" if "n < 10" using that 1(2) by (intro as_u8_ascii) linarith+
  ultimately show ?case using 1 by (subst nat_string.simps) (auto simp: pos_imp_zdiv_nonneg_iff)
qed

lemma int_string_ascii: "\<forall>b \<in> set (int_string n). b < 128"
  using nat_string_ascii [of n] nat_string_ascii [of "- n"] as_u8_ascii [of 45] by (auto simp: int_string_def)

lemma pad2_ascii: "\<forall>b \<in> set (pad2 n). b < 128"
  using int_string_ascii [of n] by (auto simp: pad2_def Let_def)

lemma format_time_valid: "utf8_valid (format_time t)"
  by (rule ascii_valid) (auto simp: format_time_def Let_def ascii_def dest: pad2_ascii [rule_format])

lemma join_bytes_valid: "utf8_valid sep \<Longrightarrow> \<forall>p \<in> set ps. utf8_valid p \<Longrightarrow> utf8_valid (join_bytes sep ps)"
  by (induction sep ps rule: join_bytes.induct) (auto intro!: utf8_valid_append)

lemma collect_res_Inr_all2: "collect_res rs = Inr xs \<longleftrightarrow> list_all2 (\<lambda>r x. r = Inr x) rs xs"
proof (induction rs arbitrary: xs)
  case (Cons r rs)
  then show ?case by (cases r; cases xs) auto
qed auto

lemma concat_str_valid:
  assumes "text_laws ops"
  shows "has_type v ty \<Longrightarrow> concat_str ops v = Inr s \<Longrightarrow> utf8_valid s"
proof (induction v arbitrary: ty s)
  case (VArray vs)
  then obtain el where el: "\<forall>v \<in> set vs. has_type v el" by (auto split: logical_type.splits)
  obtain parts where p: "list_all2 (\<lambda>v part. concat_str ops v = Inr part) vs parts"
      "s = ascii ''{'' @ join_bytes (ascii '','') parts @ ascii ''}''"
    using VArray(3) by (auto simp: res_map_def collect_res_Inr_all2 list.rel_map)
  have "\<forall>part \<in> set parts. utf8_valid part"
    using VArray(1) el p(1) by (fastforce simp: list_all2_conv_all_nth in_set_conv_nth)
  then have "utf8_valid (join_bytes (ascii '','') parts)" by (intro join_bytes_valid ascii_valid) (auto simp: ascii_def)
  moreover have "utf8_valid (ascii ''{'')" "utf8_valid (ascii ''}'')" by (intro ascii_valid; simp add: ascii_def)+
  ultimately show ?case using p(2) by (simp add: utf8_valid_append)
next
  case (VBool b)
  then show ?case by (cases b) (auto intro!: ascii_valid simp: ascii_def)
qed (use assms in \<open>auto simp: text_laws_def or_panic_def format_date_def format_timestamptz_def format_interval_def
  ascii_valid [OF int_string_ascii] format_time_valid split: option.splits\<close>)

lemma hex_digit_ascii: "0 \<le> n \<Longrightarrow> n < 16 \<Longrightarrow> hex_digit n < 128"
  unfolding hex_digit_def by (rule as_u8_ascii) auto

lemma cast_to_text_valid:
  assumes "text_laws ops" and "has_type v ty" and "cast_to_text ops v = Inr s"
  shows "utf8_valid s"
proof -
  have h: "hex_digit (uint x div 16) < 128" "hex_digit (uint x mod 16) < 128" for x :: u8
    using uint_lt2p [of x] by (auto intro!: hex_digit_ascii simp: div_less_iff_less_mult pos_imp_zdiv_nonneg_iff)
  show ?thesis
  proof (cases v)
    case (VBytes b)
    then have "s = [92, 120] @ concat (map (\<lambda>x. [hex_digit (uint x div 16), hex_digit (uint x mod 16)]) b)"
      using assms(3) by (simp add: cast_to_text_def)
    then show ?thesis using h by (intro ascii_valid) auto
  qed (use assms concat_str_valid [OF assms(1,2)] in \<open>auto simp: cast_to_text_def text_laws_def\<close>)
qed

text \<open>C24. A cast yields its target type. Casting a well-typed value to a type other than an array
  either fails or gives a value of exactly that type (valid UTF-8 for text, 16 bytes for a
  UUID), and NULL stays NULL.\<close>

theorem cast_has_target_type:
  assumes "text_laws ops" and "v = VNull \<or> has_type v ty" and "eval_cast ops v target = Inr w" and "\<forall>el. target \<noteq> TArray el"
  shows "if v = VNull then w = VNull else has_type w target"
proof (cases "v = VNull")
  case False
  then have ty: "has_type v ty" using assms(2) by simp
  have u: "uuid_parse (eo_text ops) s = Some x \<Longrightarrow> length x = 16" for s x using assms(1) by (simp add: text_laws_def)
  have x: "cast_to_text ops v = Inr s \<Longrightarrow> utf8_valid s" for s by (rule cast_to_text_valid [OF assms(1) ty])
  note casts = eval_cast_def res_map_def fit_int_cast_def cast_to_bool_def cast_to_numeric_def cast_to_bytes_def cast_to_date_def
    cast_to_timestamp_def cast_to_time_def cast_to_uuid_def cast_to_interval_def cast_to_json_def or_cast_err_def or_type_error_def
  show ?thesis
    using assms(3,4) False ty
    by (cases target) (auto simp: casts Let_def u x split: sql_value.splits option.splits if_splits)
qed (use assms(3) in \<open>simp add: eval_cast_def\<close>)

lemma sample_text_laws: "text_laws sample_expr_ops"
proof -
  have "utf8_valid (ascii ''0'')" by (rule ascii_valid) (simp add: ascii_def)
  moreover have "utf8_valid (int_string n)" for n by (rule ascii_valid [OF int_string_ascii])
  moreover have "utf8_valid [116]" "utf8_valid [102]" by (rule ascii_valid, simp)+
  ultimately show ?thesis
    by (auto simp: text_laws_def sample_expr_ops_def sample_ops_def codec_ops.extend_def sample_text_ops_def sample_decimal_ops_def
      sample_temporal_ops_def)
qed

text \<open>\<open>'42'::bytea\<close> is a byte string.\<close>

theorem cast_has_target_type_witness:
  "has_type (VText [52, 50] :: (bool, bool \<times> u8) sql_value) TText \<and>
   eval_cast sample_expr_ops (VText [52, 50]) TBytes = Inr (VBytes [52, 50]) \<and>
   has_type (VBytes [52, 50] :: (bool, bool \<times> u8) sql_value) TBytes"
proof -
  have t: "has_type (VText [52, 50] :: (bool, bool \<times> u8) sql_value) TText" by (simp add: ascii_valid)
  moreover have e: "eval_cast sample_expr_ops (VText [52, 50]) TBytes = Inr (VBytes [52, 50])"
    by (simp add: eval_cast_def cast_to_bytes_def)
  ultimately show ?thesis using cast_has_target_type [OF sample_text_laws disjI2 [OF t] e] by simp
qed

end
