(* ===== verification/Merge_Join.thy ===== *)
theory Merge_Join
  imports External_Sort Expr_Properties
begin

text \<open>
  Sort-merge join: \<^verbatim>\<open>src/crates/strata-db/src/query/volcano/join/merge.rs\<close>. The two indices of the merge are the
  suffixes of the rows still to come. The loop is a partial function: that it ends is part of
  what is proved about it. The debug assertions are not part of a release build.
\<close>

section \<open>Definitions\<close>

definition key_at :: "nat \<Rightarrow> ('j, 'd) row \<Rightarrow> query_error + ('j, 'd) sql_value" where
  "key_at i t = (if i < length t then Inr (t ! i) else Inl QPanic)"

text \<open>The rows from the front whose key equals \<open>v\<close>, and the rest.\<close>

fun equal_group ::
    "('j, 'd, 'x) expr_ops_scheme \<Rightarrow> nat \<Rightarrow> ('j, 'd) sql_value \<Rightarrow> ('j, 'd) row list \<Rightarrow> query_error + ('j, 'd) row list \<times> ('j, 'd) row list" where
  "equal_group ops key v [] = Inr ([], [])"
| "equal_group ops key v (t # ts) =
    res_bind (key_at key t) (\<lambda>x. res_bind (cmp_values ops x v) (\<lambda>c.
      if c = Equal then res_map (\<lambda>(group, rest). (t # group, rest)) (equal_group ops key v ts) else Inr ([], t # ts)))"

partial_function (option) merge_rows ::
    "('j, 'd, 'x) expr_ops_scheme \<Rightarrow> nat \<Rightarrow> nat \<Rightarrow> ('j, 'd) row list \<Rightarrow> ('j, 'd) row list \<Rightarrow> ('j, 'd) row list
     \<Rightarrow> (query_error + ('j, 'd) row list) option" where
  "merge_rows ops left_key right_key ls rs out =
    (case ls of
       [] \<Rightarrow> Some (Inr out)
     | l # ls' \<Rightarrow>
       (case rs of
          [] \<Rightarrow> Some (Inr out)
        | r # rs' \<Rightarrow>
          (case res_bind (key_at left_key l) (\<lambda>lk. res_map (\<lambda>rk. (lk, rk)) (key_at right_key r)) of
             Inl e \<Rightarrow> Some (Inl e)
           | Inr (lk, rk) \<Rightarrow>
               if is_null lk then merge_rows ops left_key right_key ls' rs out
               else if is_null rk then merge_rows ops left_key right_key ls rs' out
               else
                 (case cmp_values ops lk rk of
                    Inl e \<Rightarrow> Some (Inl e)
                  | Inr Less \<Rightarrow> merge_rows ops left_key right_key ls' rs out
                  | Inr Greater \<Rightarrow> merge_rows ops left_key right_key ls rs' out
                  | Inr Equal \<Rightarrow>
                      (case res_bind (equal_group ops left_key lk ls) (\<lambda>lg. res_map (\<lambda>rg. (lg, rg)) (equal_group ops right_key rk rs)) of
                         Inl e \<Rightarrow> Some (Inl e)
                       | Inr ((lgroup, ls2), (rgroup, rs2)) \<Rightarrow>
                           merge_rows ops left_key right_key ls2 rs2 (out @ concat (map (\<lambda>l. map (\<lambda>r. l @ r) rgroup) lgroup)))))))"

definition sort_merge_join ::
    "('j, 'd, 'x) expr_ops_scheme \<Rightarrow> nat \<Rightarrow> query_error + ('j, 'd) stream \<Rightarrow> query_error + ('j, 'd) stream
     \<Rightarrow> ('j, 'd) expr option \<Rightarrow> (query_error + ('j, 'd) stream) option" where
  "sort_merge_join ops left_arity left right on =
    (case res_bind (equi_keys on left_arity) (\<lambda>(lk, rk).
        res_bind left (\<lambda>lstream. res_bind (collect_res lstream) (\<lambda>ls.
        res_bind right (\<lambda>rstream. res_map (\<lambda>rs. (lk, rk, ls, rs)) (collect_res rstream))))) of
       Inl e \<Rightarrow> Some (Inl e)
     | Inr (lk, rk, ls, rs) \<Rightarrow> map_option (res_map rows_stream) (merge_rows ops lk rk ls rs []))"

section \<open>Join keys\<close>

text \<open>A column of a join: NULLs and values of one comparable type.\<close>

definition key_value :: "('j, 'd, 'x) expr_ops_scheme \<Rightarrow> logical_type \<Rightarrow> ('j, 'd) sql_value \<Rightarrow> bool" where
  "key_value ops ty v \<longleftrightarrow> decimal_laws ops \<and> decimal_order ops \<and> comparable_type ty \<and> (is_null v \<or> has_type v ty)"

definition value_key :: "('j, 'd, 'x) expr_ops_scheme \<Rightarrow> ('j, 'd) sql_value \<Rightarrow> bytes" where
  "value_key ops v = (case encode_key ops v of Inl _ \<Rightarrow> [] | Inr k \<Rightarrow> k)"

lemma is_null_iff: "is_null v \<longleftrightarrow> v = VNull"
  by (cases v) simp_all

lemma key_value_order:
  assumes "key_value ops ty a" "key_value ops ty b" "\<not> is_null a" "\<not> is_null b"
  shows "encode_key ops a = Inr (value_key ops a)" "cmp_values ops a b = Inr (ord_cmp (value_key ops a) (value_key ops b))"
    "values_eq ops a b \<longleftrightarrow> value_key ops a = value_key ops b"
proof -
  obtain ka kb where "encode_key ops a = Inr ka" "encode_key ops b = Inr kb"
    "cmp_values ops a b = Inr (ord_cmp ka kb)" "values_eq ops a b \<longleftrightarrow> ka = kb"
    using value_key_order [of a ty b ops] assms by (auto simp: key_value_def)
  then show "encode_key ops a = Inr (value_key ops a)" "cmp_values ops a b = Inr (ord_cmp (value_key ops a) (value_key ops b))"
    "values_eq ops a b \<longleftrightarrow> value_key ops a = value_key ops b"
    by (simp_all add: value_key_def)
qed

text \<open>Rows of a given width whose key column is such a column.\<close>

definition keyed_row :: "('j, 'd, 'x) expr_ops_scheme \<Rightarrow> logical_type \<Rightarrow> nat \<Rightarrow> nat \<Rightarrow> ('j, 'd) row \<Rightarrow> bool" where
  "keyed_row ops ty w i t \<longleftrightarrow> length t = w \<and> i < w \<and> key_value ops ty (t ! i)"

lemma keyed_rowD:
  assumes "keyed_row ops ty w i t"
  shows "length t = w" "i < w" "key_value ops ty (t ! i)" "key_at i t = Inr (t ! i)"
  using assms by (auto simp: keyed_row_def key_at_def)

text \<open>The condition of an equi-join compares the two keys; NULL matches nothing.\<close>

lemma on_match_eq:
  "on_match ops (Some (EBinary BEq (EColumn a) (EColumn b))) t =
    (if a < length t \<and> b < length t then Inr (t ! a \<noteq> VNull \<and> t ! b \<noteq> VNull \<and> values_eq ops (t ! a) (t ! b))
     else Inl (QInternal ''column index out of bounds''))"
  by (auto simp: on_match_def eval_binary_def res_map_def)

lemma values_eq_sym:
  assumes "key_value ops ty a" "key_value ops ty b" "\<not> is_null a" "\<not> is_null b"
  shows "values_eq ops b a = values_eq ops a b"
  using key_value_order(3) [OF assms] key_value_order(3) [OF assms(2,1,4,3)] by auto

lemma equi_match:
  assumes "equi_keys on lw = Inr (lk, rk)" "keyed_row ops ty lw lk l" "keyed_row ops ty rw rk r"
  shows "on_match ops on (l @ r) = Inr (\<not> is_null (l ! lk) \<and> \<not> is_null (r ! rk) \<and> value_key ops (l ! lk) = value_key ops (r ! rk))"
proof -
  note l = keyed_rowD [OF assms(2)] and r = keyed_rowD [OF assms(3)]
  obtain a b where on: "on = Some (EBinary BEq (EColumn a) (EColumn b))" "(a = lk \<and> b = lw + rk) \<or> (b = lk \<and> a = lw + rk)"
    using assms(1) by (auto simp: equi_keys_def split: option.splits expr.splits binary_operator.splits if_splits)
  have at: "(l @ r) ! lk = l ! lk" "(l @ r) ! (lw + rk) = r ! rk" "lk < length (l @ r)" "lw + rk < length (l @ r)"
    using l r by (auto simp: nth_append)
  show ?thesis
  proof (cases "is_null (l ! lk) \<or> is_null (r ! rk)")
    case True
    then show ?thesis using on at by (auto simp: on_match_eq is_null_iff)
  next
    case False
    then show ?thesis using on at key_value_order(3) [OF l(3) r(3)] values_eq_sym [OF l(3) r(3)]
      by (auto simp: on_match_eq is_null_iff)
  qed
qed

section \<open>The merge\<close>

lemma equal_group_ok:
  assumes "\<forall>t\<in>set ts. keyed_row ops ty w i t \<and> \<not> is_null (t ! i)" "key_value ops ty v" "\<not> is_null v"
  shows "equal_group ops i v ts = Inr (takeWhile (\<lambda>t. value_key ops (t ! i) = value_key ops v) ts, dropWhile (\<lambda>t. value_key ops (t ! i) = value_key ops v) ts)"
  using assms(1)
proof (induction ts)
  case (Cons t ts)
  then have t: "keyed_row ops ty w i t" "\<not> is_null (t ! i)" by simp_all
  have "cmp_values ops (t ! i) v = Inr (ord_cmp (value_key ops (t ! i)) (value_key ops v))"
    by (rule key_value_order(2) [OF keyed_rowD(3) [OF t(1)] assms(2) t(2) assms(3)])
  then show ?case using Cons keyed_rowD(4) [OF t(1)] by (auto simp: ord_cmp_def res_map_def)
qed simp

text \<open>In a sorted list the rows with the first key are a prefix.\<close>

lemma sorted_group:
  assumes "sorted (map f (t # ts))"
  shows "filter (\<lambda>x. f x = f t) (t # ts) = takeWhile (\<lambda>x. f x = f t) (t # ts)"
    and "\<forall>x\<in>set (dropWhile (\<lambda>x. f x = f t) (t # ts)). f t < f x"
proof -
  have g: "\<forall>x\<in>set (dropWhile (\<lambda>x. f x = c) xs). c < f x" if "sorted (map f xs)" "\<forall>x\<in>set xs. c \<le> f x" for c xs
    using that by (induction xs) (auto simp: less_le dest: order_antisym)
  show *: "\<forall>x\<in>set (dropWhile (\<lambda>x. f x = f t) (t # ts)). f t < f x" by (rule g) (use assms in auto)
  let ?d = "dropWhile (\<lambda>x. f x = f t) (t # ts)" and ?p = "takeWhile (\<lambda>x. f x = f t) (t # ts)"
  have "filter (\<lambda>x. f x = f t) ?p = ?p" by (simp add: filter_id_conv) (metis set_takeWhileD)
  moreover have "filter (\<lambda>x. f x = f t) ?d = []" using * by (auto simp: filter_empty_conv)
  ultimately have "filter (\<lambda>x. f x = f t) (?p @ ?d) = ?p" by (simp only: filter_append append_Nil2)
  then show "filter (\<lambda>x. f x = f t) (t # ts) = ?p" by (simp only: takeWhile_dropWhile_id)
qed

text \<open>The pairs of rows with equal keys.\<close>

definition key_pairs :: "('a list \<Rightarrow> 'k) \<Rightarrow> ('a list \<Rightarrow> 'k) \<Rightarrow> 'a list list \<Rightarrow> 'a list list \<Rightarrow> 'a list list" where
  "key_pairs f g ls rs = concat (map (\<lambda>l. map (\<lambda>r. l @ r) (filter (\<lambda>r. f l = g r) rs)) ls)"

lemma pairs_key_pairs: "(\<And>l r. l \<in> set ls \<Longrightarrow> r \<in> set rs \<Longrightarrow> P (l @ r) \<longleftrightarrow> f l = g r) \<Longrightarrow> pairs P ls rs = key_pairs f g ls rs"
  unfolding pairs_def key_pairs_def by (intro arg_cong [where f = concat] map_cong filter_cong refl) auto

lemma key_pairs_skip_left: "\<forall>r\<in>set rs. f l < g r \<Longrightarrow> key_pairs f g (l # ls) rs = key_pairs f (g :: 'a list \<Rightarrow> 'k :: linorder) ls rs"
  by (auto simp: key_pairs_def filter_empty_conv)

lemma key_pairs_skip_right: "\<forall>l\<in>set ls. g r < f l \<Longrightarrow> key_pairs f g ls (r # rs) = key_pairs f (g :: 'a list \<Rightarrow> 'k :: linorder) ls rs"
  unfolding key_pairs_def by (intro arg_cong [where f = concat] map_cong refl) auto

lemma key_pairs_group:
  assumes "\<forall>l\<in>set lg. f l = c" "\<forall>r\<in>set rg. g r = c" "\<forall>l\<in>set ls. c < f l" "\<forall>r\<in>set rs. c < g r"
  shows "key_pairs f g (lg @ ls) (rg @ rs) = concat (map (\<lambda>l. map (\<lambda>r. l @ r) rg) lg) @ key_pairs f (g :: 'a list \<Rightarrow> 'k :: linorder) ls rs"
proof -
  have "filter (\<lambda>r. f l = g r) (rg @ rs) = rg" if "l \<in> set lg" for l
  proof -
    have "filter (\<lambda>r. f l = g r) rg = rg" "filter (\<lambda>r. f l = g r) rs = []" using that assms by (auto simp: filter_id_conv filter_empty_conv)
    then show ?thesis by simp
  qed
  moreover have "filter (\<lambda>r. f l = g r) (rg @ rs) = filter (\<lambda>r. f l = g r) rs" if "l \<in> set ls" for l
    using that assms by (auto simp: filter_empty_conv)
  ultimately show ?thesis unfolding key_pairs_def map_append concat_append
    by (intro arg_cong2 [where f = append] arg_cong [where f = concat] map_cong refl) auto
qed

lemma merge_rows_step:
  assumes "key_at lk l = Inr x" "key_at rk r = Inr y" "\<not> is_null x" "\<not> is_null y"
  shows "cmp_values ops x y = Inr Less \<Longrightarrow> merge_rows ops lk rk (l # ls) (r # rs) out = merge_rows ops lk rk ls (r # rs) out"
    and "cmp_values ops x y = Inr Greater \<Longrightarrow> merge_rows ops lk rk (l # ls) (r # rs) out = merge_rows ops lk rk (l # ls) rs out"
    and "cmp_values ops x y = Inr Equal \<Longrightarrow> equal_group ops lk x (l # ls) = Inr (lg, ls2) \<Longrightarrow> equal_group ops rk y (r # rs) = Inr (rg, rs2) \<Longrightarrow>
      merge_rows ops lk rk (l # ls) (r # rs) out = merge_rows ops lk rk ls2 rs2 (out @ concat (map (\<lambda>l. map (\<lambda>r. l @ r) rg) lg))"
  using assms by (simp_all add: merge_rows.simps [of ops lk rk "l # ls"] res_map_def del: equal_group.simps)

lemma merge_rows_ok:
  defines "K \<equiv> \<lambda>ops i t. value_key ops (t ! i)"
  assumes "\<forall>l\<in>set ls. keyed_row ops ty lw lk l \<and> \<not> is_null (l ! lk)" "\<forall>r\<in>set rs. keyed_row ops ty rw rk r \<and> \<not> is_null (r ! rk)"
    and "sorted (map (K ops lk) ls)" "sorted (map (K ops rk) rs)"
  shows "merge_rows ops lk rk ls rs out = Some (Inr (out @ key_pairs (K ops lk) (K ops rk) ls rs))"
  using assms(2-)
proof (induction "length ls + length rs" arbitrary: ls rs out rule: less_induct)
  case less
  let ?f = "K ops lk" and ?g = "K ops rk"
  show ?case
  proof (cases "ls = [] \<or> rs = []")
    case True
    then show ?thesis by (cases ls) (auto simp: merge_rows.simps key_pairs_def)
  next
    case False
    then obtain l ls' r rs' where eq: "ls = l # ls'" "rs = r # rs'" by (auto simp: neq_Nil_conv)
    have l: "keyed_row ops ty lw lk l" "\<not> is_null (l ! lk)" and r: "keyed_row ops ty rw rk r" "\<not> is_null (r ! rk)"
      using less.prems(1,2) by (simp_all add: eq)
    note kl = keyed_rowD [OF l(1)] and kr = keyed_rowD [OF r(1)]
    have c: "cmp_values ops (l ! lk) (r ! rk) = Inr (ord_cmp (?f l) (?g r))"
      using key_value_order(2) [OF kl(3) kr(3) l(2) r(2)] by (simp add: K_def)
    have ge: "\<forall>x\<in>set ls'. ?f l \<le> ?f x" "\<forall>x\<in>set rs'. ?g r \<le> ?g x" using less.prems(3,4) by (auto simp: eq)
    note step = merge_rows_step [OF kl(4) kr(4) l(2) r(2)]
    consider "?f l < ?g r" | "?g r < ?f l" | "?f l = ?g r" by fastforce
    then show ?thesis
    proof cases
      case 1
      then have "\<forall>x\<in>set rs. ?f l < ?g x" using ge(2) by (auto simp: eq)
      moreover have "merge_rows ops lk rk ls' rs out = Some (Inr (out @ key_pairs ?f ?g ls' rs))"
        by (rule less.hyps) (use less.prems in \<open>auto simp: eq(1)\<close>)
      ultimately show ?thesis using 1 c step(1) [of ops ls' rs' out] by (simp add: eq ord_cmp_def key_pairs_skip_left)
    next
      case 2
      then have "\<forall>x\<in>set ls. ?g r < ?f x" using ge(1) by (auto simp: eq)
      moreover have "merge_rows ops lk rk ls rs' out = Some (Inr (out @ key_pairs ?f ?g ls rs'))"
        by (rule less.hyps) (use less.prems in \<open>auto simp: eq(2)\<close>)
      moreover have "cmp_values ops (l ! lk) (r ! rk) = Inr Greater" using 2 c by (auto simp: ord_cmp_def)
      ultimately show ?thesis using step(2) [of ops ls' rs' out] by (simp add: eq key_pairs_skip_right)
    next
      case 3
      define lg ls2 where "lg = takeWhile (\<lambda>x. ?f x = ?f l) ls" and "ls2 = dropWhile (\<lambda>x. ?f x = ?f l) ls"
      define rg rs2 where "rg = takeWhile (\<lambda>x. ?g x = ?g r) rs" and "rs2 = dropWhile (\<lambda>x. ?g x = ?g r) rs"
      have split: "ls = lg @ ls2" "rs = rg @ rs2" by (simp_all add: lg_def ls2_def rg_def rs2_def)
      have shorter: "length ls2 + length rs2 < length ls + length rs"
        using length_dropWhile_le [of "\<lambda>x. ?f x = ?f l" ls'] length_dropWhile_le [of "\<lambda>x. ?g x = ?g r" rs'] by (simp add: ls2_def rs2_def eq)
      have groups: "equal_group ops lk (l ! lk) ls = Inr (lg, ls2)" "equal_group ops rk (r ! rk) rs = Inr (rg, rs2)"
        using equal_group_ok [OF less.prems(1) kl(3) l(2)] equal_group_ok [OF less.prems(2) kr(3) r(2)]
        by (simp_all add: lg_def ls2_def rg_def rs2_def K_def)
      have "merge_rows ops lk rk ls2 rs2 out' = Some (Inr (out' @ key_pairs ?f ?g ls2 rs2))" for out'
        by (rule less.hyps [OF shorter]) (use less.prems in \<open>auto simp: split sorted_append\<close>)
      moreover have "key_pairs ?f ?g (lg @ ls2) (rg @ rs2) = concat (map (\<lambda>l. map (\<lambda>r. l @ r) rg) lg) @ key_pairs ?f ?g ls2 rs2"
      proof (rule key_pairs_group)
        show "\<forall>x\<in>set lg. ?f x = ?f l" "\<forall>x\<in>set rg. ?g x = ?f l" using 3 by (auto simp: lg_def rg_def dest: set_takeWhileD)
        show "\<forall>x\<in>set ls2. ?f l < ?f x" "\<forall>x\<in>set rs2. ?f l < ?g x"
          using sorted_group(2) [of ?f l ls'] sorted_group(2) [of ?g r rs'] less.prems(3,4) 3 by (simp_all add: eq ls2_def rs2_def)
      qed
      moreover have "merge_rows ops lk rk ls rs out = merge_rows ops lk rk ls2 rs2 (out @ concat (map (\<lambda>l. map (\<lambda>r. l @ r) rg) lg))"
        unfolding eq by (rule step(3)) (use 3 c groups in \<open>simp_all only: eq ord_cmp_def less_irrefl if_False if_True simp_thms\<close>)
      ultimately show ?thesis using split by simp
    qed
  qed
qed

end
