(* ===== verification/Grace_Join.thy ===== *)
theory Grace_Join
  imports Merge_Join
begin

text \<open>
  Grace hash join: \<^verbatim>\<open>src/crates/strata-db/src/query/volcano/join/grace.rs\<close>, and its configuration in
  \<^verbatim>\<open>query/config.rs\<close>. The hash function (crate \<open>xxhash_rust\<close>) is the parameter \<open>xxh3\<close>; nothing is
  assumed of it. A \<open>HashMap\<close> is an association list in the order of insertion; the order in which the
  map of the code gives its values is unspecified, so results are stated as multisets. A \<open>Vec\<close>
  used as a stack has its top at the head of the list. The stream is a state machine: one turn
  of the loop in \<open>next\<close> is \<open>grace_turn\<close>.
\<close>

section \<open>Parameters\<close>

record join_config =
  jc_partition_memory :: nat
  jc_partition_disk :: nat
  jc_build_budget :: nat
  jc_hash_partitions :: nat

definition from_system_memory :: "nat \<Rightarrow> join_config" where
  "from_system_memory total_bytes =
    (let scratch = total_bytes div 4 in
     \<lparr>jc_partition_memory = 4 * 1024 * 1024, jc_partition_disk = 4294967296, jc_build_budget = scratch div 4, jc_hash_partitions = 32\<rparr>)"

definition MAX_REPARTITION_LEVELS :: nat where "MAX_REPARTITION_LEVELS = 2"
definition BUCKET_SEED :: u64 where "BUCKET_SEED = 0xdeadbeefcafebabe"

record hash_join_params =
  hj_type :: join_type
  hj_left_key :: nat
  hj_right_key :: nat
  hj_left_width :: nat
  hj_right_width :: nat
  hj_left_schema :: schema
  hj_right_schema :: schema
  hj_config :: join_config

definition build_of :: "hash_join_params \<Rightarrow> bool \<Rightarrow> schema \<times> nat" where
  "build_of params build_is_left =
    (if build_is_left then (hj_left_schema params, hj_left_key params) else (hj_right_schema params, hj_right_key params))"

definition probe_of :: "hash_join_params \<Rightarrow> bool \<Rightarrow> schema \<times> nat" where
  "probe_of params build_is_left =
    (if build_is_left then (hj_right_schema params, hj_right_key params) else (hj_left_schema params, hj_left_key params))"

section \<open>Partitioning\<close>

type_synonym xxh = "bytes \<Rightarrow> u64 \<Rightarrow> u64"

definition bucket :: "xxh \<Rightarrow> bytes \<Rightarrow> nat \<Rightarrow> nat \<Rightarrow> nat" where
  "bucket xxh3 key level hash_partitions =
    (let seed = BUCKET_SEED XOR (word_of_nat level * 0x9e3779b97f4a7c15) in unat (xxh3 key seed) mod hash_partitions)"

definition key_bytes :: "('j, 'd, 'x) expr_ops_scheme \<Rightarrow> ('j, 'd) sql_value \<Rightarrow> query_error + bytes option" where
  "key_bytes ops v =
    (if is_null v then Inr None
     else res_map Some (map_err (\<lambda>_. QType ''cannot hash this join key'') (encode_key ops v)))"

text \<open>The key of a row that is not NULL.\<close>

definition row_key :: "('j, 'd, 'x) expr_ops_scheme \<Rightarrow> nat \<Rightarrow> ('j, 'd) row \<Rightarrow> query_error + bytes" where
  "row_key ops key t = res_bind (key_at key t) (\<lambda>v. res_bind (key_bytes ops v) or_panic)"

definition new_buckets :: "'w ws_ops \<Rightarrow> nat \<Rightarrow> query_error + 'w list" where
  "new_buckets ws n = collect_res (replicate n (map_err (work_err ''hash join bucket'') (ws_new ws)))"

definition spill :: "'w ws_ops \<Rightarrow> bytes \<Rightarrow> nat \<Rightarrow> 'w list \<Rightarrow> query_error + 'w list" where
  "spill ws b i parts =
    (if i < length parts
     then case ws_append ws b (parts ! i) of
            (Inl e, _) \<Rightarrow> Inl (work_err ''hash join spill'' e)
          | (Inr _, w) \<Rightarrow> Inr (parts[i := w])
     else Inl QPanic)"

fun partition_input ::
    "('j, 'd, 'x) expr_ops_scheme \<Rightarrow> 'w ws_ops \<Rightarrow> xxh \<Rightarrow> nat \<Rightarrow> schema \<Rightarrow> nat \<Rightarrow> ('j, 'd) stream \<Rightarrow> 'w list \<Rightarrow> ('j, 'd) row list
     \<Rightarrow> query_error + 'w list \<times> ('j, 'd) row list" where
  "partition_input ops ws xxh3 key sc n [] parts nulls = Inr (parts, nulls)"
| "partition_input ops ws xxh3 key sc n (row # rows) parts nulls =
    res_bind row (\<lambda>t. res_bind (key_at key t) (\<lambda>v. res_bind (key_bytes ops v) (\<lambda>kb.
      case kb of
        None \<Rightarrow> partition_input ops ws xxh3 key sc n rows parts (nulls @ [t])
      | Some k \<Rightarrow>
          res_bind (encode_row ops sc t) (\<lambda>b.
          res_bind (spill ws b (bucket xxh3 k 0 n) parts) (\<lambda>parts'.
            partition_input ops ws xxh3 key sc n rows parts' nulls)))))"

fun respill ::
    "('j, 'd, 'x) expr_ops_scheme \<Rightarrow> 'w ws_ops \<Rightarrow> xxh \<Rightarrow> nat \<Rightarrow> schema \<Rightarrow> nat \<Rightarrow> nat \<Rightarrow> bytes list \<Rightarrow> 'w list \<Rightarrow> query_error + 'w list" where
  "respill ops ws xxh3 key sc level n [] parts = Inr parts"
| "respill ops ws xxh3 key sc level n (b # bs) parts =
    res_bind (decode_row ops sc b) (\<lambda>t. res_bind (row_key ops key t) (\<lambda>k.
    res_bind (spill ws b (bucket xxh3 k level n) parts) (\<lambda>parts'.
      respill ops ws xxh3 key sc level n bs parts')))"

definition repartition ::
    "('j, 'd, 'x) expr_ops_scheme \<Rightarrow> 'w ws_ops \<Rightarrow> xxh \<Rightarrow> 'w \<Rightarrow> nat \<Rightarrow> schema \<Rightarrow> nat \<Rightarrow> nat \<Rightarrow> query_error + 'w list" where
  "repartition ops ws xxh3 src key sc level n =
    res_bind (new_buckets ws n) (\<lambda>parts. res_bind (replay ws src) (\<lambda>(bs, _). respill ops ws xxh3 key sc level n bs parts))"

section \<open>Build phase\<close>

type_synonym ('j, 'd) build_entry = "('j, 'd) row \<times> bool"
type_synonym ('j, 'd) hash_table = "(bytes \<times> ('j, 'd) build_entry list) list"

text \<open>\<open>table.entry(k).or_default().push(e)\<close>\<close>

fun table_push :: "bytes \<Rightarrow> 'e \<Rightarrow> (bytes \<times> 'e list) list \<Rightarrow> (bytes \<times> 'e list) list" where
  "table_push k e [] = [(k, [e])]"
| "table_push k e ((k', es) # tbl) = (if k' = k then (k', es @ [e]) # tbl else (k', es) # table_push k e tbl)"

fun build_table ::
    "('j, 'd, 'x) expr_ops_scheme \<Rightarrow> schema \<Rightarrow> nat \<Rightarrow> nat option \<Rightarrow> bytes list \<Rightarrow> nat \<Rightarrow> ('j, 'd) hash_table \<Rightarrow> query_error + ('j, 'd) hash_table option" where
  "build_table ops sc key cap [] used tbl = Inr (Some tbl)"
| "build_table ops sc key cap (b # bs) used tbl =
    (let used = used + length b in
     if (case cap of None \<Rightarrow> False | Some budget \<Rightarrow> budget < used) then Inr None
     else
       res_bind (decode_row ops sc b) (\<lambda>t. res_bind (row_key ops key t) (\<lambda>k.
         build_table ops sc key cap bs used (table_push k (t, False) tbl))))"

section \<open>Probe phase\<close>

record ('j, 'd) probe =
  pr_table :: "('j, 'd) hash_table"
  pr_build_is_left :: bool
  pr_cursor :: "bytes list"
  pr_pending :: "('j, 'd) row list"
  pr_unmatched :: "('j, 'd) row list option"

definition probe_new :: "('j, 'd) hash_table \<Rightarrow> bool \<Rightarrow> bytes list \<Rightarrow> ('j, 'd) probe" where
  "probe_new tbl build_is_left cursor =
    \<lparr>pr_table = tbl, pr_build_is_left = build_is_left, pr_cursor = cursor, pr_pending = [], pr_unmatched = None\<rparr>"

text \<open>\<open>table.get_mut(&key)\<close> with all entries set to matched.\<close>

definition table_mark :: "bytes \<Rightarrow> ('j, 'd) hash_table \<Rightarrow> ('j, 'd) hash_table" where
  "table_mark k = map (\<lambda>(k', es). (k', if k' = k then map (\<lambda>(t, m). (t, True)) es else es))"

definition probe_one :: "('j, 'd, 'x) expr_ops_scheme \<Rightarrow> hash_join_params \<Rightarrow> ('j, 'd) probe \<Rightarrow> bytes \<Rightarrow> query_error + ('j, 'd) probe" where
  "probe_one ops params p b =
    (let build_is_left = pr_build_is_left p; (sc, key) = probe_of params build_is_left in
     res_bind (decode_row ops sc b) (\<lambda>t. res_bind (row_key ops key t) (\<lambda>k.
       let entries = (case map_of (pr_table p) k of None \<Rightarrow> [] | Some es \<Rightarrow> es);
           out = map (\<lambda>(e, _). if build_is_left then e @ t else t @ e) entries;
           pending =
             (if out \<noteq> [] then out
              else if build_is_left then (if keeps_right (hj_type params) then [pad_left (hj_left_width params) t] else [])
              else if keeps_left (hj_type params) then [pad_right t (hj_right_width params)] else [])
       in Inr (p\<lparr>pr_table := table_mark k (pr_table p), pr_pending := pending\<rparr>))))"

text \<open>The tail and what is left of the table.\<close>

definition unmatched_build_tail :: "hash_join_params \<Rightarrow> ('j, 'd) probe \<Rightarrow> ('j, 'd) row list \<times> ('j, 'd) hash_table" where
  "unmatched_build_tail params p =
    (let build_is_left = pr_build_is_left p;
         keeps_unmatched = (if build_is_left then keeps_left (hj_type params) else keeps_right (hj_type params))
     in if \<not> keeps_unmatched then ([], pr_table p)
        else (map (\<lambda>(t, _). if build_is_left then pad_right t (hj_right_width params) else pad_left (hj_left_width params) t)
          (filter (\<lambda>(t, m). \<not> m) (concat (map snd (pr_table p)))), []))"

section \<open>The stream\<close>

record ('w, 'j, 'd) grace_stream =
  gs_worklist :: "('w \<times> 'w \<times> nat) list"
  gs_current :: "('j, 'd) probe option"
  gs_left_nulls :: "('j, 'd) row list"
  gs_right_nulls :: "('j, 'd) row list"
  gs_failed :: bool

lemma build_table_uncapped: "build_table ops sc key None bs used tbl \<noteq> Inr None"
  by (induction bs arbitrary: used tbl) (auto simp: Let_def)

lemma spill_length: "spill ws b i parts = Inr parts' \<Longrightarrow> length parts' = length parts"
  by (auto simp: spill_def split: if_splits prod.splits sum.splits)

lemma respill_length: "respill ops ws xxh3 key sc level n bs parts = Inr parts' \<Longrightarrow> length parts' = length parts"
  by (induction bs arbitrary: parts) (auto dest: spill_length)

lemma collect_res_length: "collect_res rs = Inr xs \<Longrightarrow> length xs = length rs"
  by (induction rs arbitrary: xs rule: collect_res.induct) auto

lemma repartition_length: "repartition ops ws xxh3 src key sc level n = Inr parts \<Longrightarrow> length parts = n"
  by (auto simp: repartition_def new_buckets_def dest!: respill_length collect_res_length)

text \<open>The weight of the work that is left: a pair below the last level can become \<open>n\<close> pairs one level deeper.\<close>

definition work_weight :: "nat \<Rightarrow> ('w \<times> 'w \<times> nat) list \<Rightarrow> nat" where
  "work_weight n work = sum_list (map (\<lambda>(_, _, level). (n + 2) ^ (MAX_REPARTITION_LEVELS - level)) work)"

lemma work_weight_append: "work_weight n (xs @ ys) = work_weight n xs + work_weight n ys"
  by (simp add: work_weight_def)

lemma work_weight_deeper:
  assumes "level < MAX_REPARTITION_LEVELS" "length subs \<le> n"
  shows "work_weight n (rev (map (\<lambda>(b, p). (f b p, g b p, Suc level)) subs) @ work) < work_weight n ((l, r, level) # work)"
proof -
  let ?w = "(n + 2) ^ (MAX_REPARTITION_LEVELS - Suc level)"
  have "work_weight n (rev (map (\<lambda>(b, p). (f b p, g b p, Suc level)) subs)) = length subs * ?w"
    by (induction subs) (auto simp: work_weight_def)
  moreover have "length subs * ?w < (n + 2) * ?w" using assms(2) by (intro mult_strict_right_mono) auto
  moreover have "(n + 2) * ?w = (n + 2) ^ (MAX_REPARTITION_LEVELS - level)"
    using assms(1) by (simp only: power_Suc [symmetric] Suc_diff_Suc)
  ultimately have "work_weight n (rev (map (\<lambda>(b, p). (f b p, g b p, Suc level)) subs)) < work_weight n [(l, r, level)]"
    by (simp add: work_weight_def)
  then show ?thesis using work_weight_append [of n "[(l, r, level)]" work] by (simp add: work_weight_append)
qed

text \<open>The body of the loop in \<open>build_next_pair\<close>: the pair is ready to be probed, or it is split into the
  pairs to push.\<close>

definition open_pair ::
    "('j, 'd, 'x) expr_ops_scheme \<Rightarrow> 'w ws_ops \<Rightarrow> xxh \<Rightarrow> hash_join_params \<Rightarrow> 'w \<times> 'w \<times> nat
     \<Rightarrow> query_error + ('j, 'd) probe + ('w \<times> 'w \<times> nat) list" where
  "open_pair ops ws xxh3 params = (\<lambda>(left_ws, right_ws, level).
    let build_is_left = ws_used ws left_ws \<le> ws_used ws right_ws;
        (build_ws, probe_ws) = (if build_is_left then (left_ws, right_ws) else (right_ws, left_ws));
        (build_schema, build_key) = build_of params build_is_left;
        (probe_schema, probe_key) = probe_of params build_is_left;
        cap = (if level < MAX_REPARTITION_LEVELS then Some (jc_build_budget (hj_config params)) else None);
        n = jc_hash_partitions (hj_config params)
    in res_bind (replay ws build_ws) (\<lambda>(bs, build_ws). res_bind (build_table ops build_schema build_key cap bs 0 []) (\<lambda>built.
       case built of
         Some tbl \<Rightarrow> res_map (\<lambda>(cursor, _). Inl (probe_new tbl build_is_left cursor)) (replay ws probe_ws)
       | None \<Rightarrow>
           res_bind (repartition ops ws xxh3 build_ws build_key build_schema (Suc level) n) (\<lambda>build_sub.
           res_bind (repartition ops ws xxh3 probe_ws probe_key probe_schema (Suc level) n) (\<lambda>probe_sub.
             Inr (Inr (map (\<lambda>(b, p). (if build_is_left then b else p, if build_is_left then p else b, Suc level)) (zip build_sub probe_sub))))))))"

lemma open_pair_lighter:
  assumes "open_pair ops ws xxh3 params (l, r, level) = Inr (Inr subs)"
  shows "work_weight (jc_hash_partitions (hj_config params)) (rev subs @ work) < work_weight (jc_hash_partitions (hj_config params)) ((l, r, level) # work)"
proof -
  let ?n = "jc_hash_partitions (hj_config params)" and ?b = "ws_used ws l \<le> ws_used ws r"
  obtain bsub psub where s: "subs = map (\<lambda>(b, p). (if ?b then b else p, if ?b then p else b, Suc level)) (zip bsub psub)"
    "length bsub = ?n" "level < MAX_REPARTITION_LEVELS"
    using assms build_table_uncapped
    by (fastforce simp: open_pair_def Let_def res_map_def split: prod.splits option.splits if_splits dest: repartition_length)
  show ?thesis unfolding s(1) by (rule work_weight_deeper [OF s(3)]) (simp add: s(2))
qed

function build_next_pair ::
    "('j, 'd, 'x) expr_ops_scheme \<Rightarrow> 'w ws_ops \<Rightarrow> xxh \<Rightarrow> hash_join_params \<Rightarrow> ('w \<times> 'w \<times> nat) list
     \<Rightarrow> (query_error + ('j, 'd) probe option) \<times> ('w \<times> 'w \<times> nat) list" where
  "build_next_pair ops ws xxh3 params [] = (Inr None, [])"
| "build_next_pair ops ws xxh3 params (pair # work) =
    (case open_pair ops ws xxh3 params pair of
       Inl e \<Rightarrow> (Inl e, work)
     | Inr (Inl p) \<Rightarrow> (Inr (Some p), work)
     | Inr (Inr subs) \<Rightarrow> build_next_pair ops ws xxh3 params (rev subs @ work))"
  by pat_completeness auto
termination
  by (relation "measure (\<lambda>(_, _, _, params, work). work_weight (jc_hash_partitions (hj_config params)) work)")
    (auto simp: open_pair_lighter)

declare build_next_pair.simps(2) [simp del]

text \<open>One turn of the loop in \<open>GraceHashStream::next\<close>.\<close>

datatype ('s, 'r) turn = Again 's | Yield 'r 's | Finished 's

definition grace_turn ::
    "('j, 'd, 'x) expr_ops_scheme \<Rightarrow> 'w ws_ops \<Rightarrow> xxh \<Rightarrow> hash_join_params \<Rightarrow> ('w, 'j, 'd) grace_stream
     \<Rightarrow> (('w, 'j, 'd) grace_stream, query_error + ('j, 'd) row) turn" where
  "grace_turn ops ws xxh3 params s =
    (if gs_failed s then Finished s
     else case gs_current s of
       Some p \<Rightarrow>
         (case pr_pending p of
            t # ts \<Rightarrow> Yield (Inr t) (s\<lparr>gs_current := Some (p\<lparr>pr_pending := ts\<rparr>)\<rparr>)
          | [] \<Rightarrow>
            (case pr_unmatched p of
               Some (t # ts) \<Rightarrow> Yield (Inr t) (s\<lparr>gs_current := Some (p\<lparr>pr_unmatched := Some ts\<rparr>)\<rparr>)
             | Some [] \<Rightarrow> Again (s\<lparr>gs_current := None\<rparr>)
             | None \<Rightarrow>
               (case pr_cursor p of
                  b # bs \<Rightarrow>
                    (case probe_one ops params (p\<lparr>pr_cursor := bs\<rparr>) b of
                       Inl e \<Rightarrow> Yield (Inl e) (s\<lparr>gs_failed := True\<rparr>)
                     | Inr p' \<Rightarrow> Again (s\<lparr>gs_current := Some p'\<rparr>))
                | [] \<Rightarrow>
                    let (tail, tbl) = unmatched_build_tail params p
                    in Again (s\<lparr>gs_current := Some (p\<lparr>pr_unmatched := Some tail, pr_table := tbl\<rparr>)\<rparr>))))
     | None \<Rightarrow>
         (case build_next_pair ops ws xxh3 params (gs_worklist s) of
            (Inl e, work) \<Rightarrow> Yield (Inl e) (s\<lparr>gs_worklist := work, gs_failed := True\<rparr>)
          | (Inr (Some p), work) \<Rightarrow> Again (s\<lparr>gs_worklist := work, gs_current := Some p\<rparr>)
          | (Inr None, work) \<Rightarrow>
              if keeps_left (hj_type params) \<and> gs_left_nulls s \<noteq> []
              then Yield (Inr (pad_right (hd (gs_left_nulls s)) (hj_right_width params)))
                     (s\<lparr>gs_worklist := work, gs_left_nulls := tl (gs_left_nulls s)\<rparr>)
              else if keeps_right (hj_type params) \<and> gs_right_nulls s \<noteq> []
              then Yield (Inr (pad_left (hj_left_width params) (hd (gs_right_nulls s))))
                     (s\<lparr>gs_worklist := work, gs_right_nulls := tl (gs_right_nulls s)\<rparr>)
              else Finished (s\<lparr>gs_worklist := work\<rparr>)))"

partial_function (option) grace_next ::
    "('j, 'd, 'x) expr_ops_scheme \<Rightarrow> 'w ws_ops \<Rightarrow> xxh \<Rightarrow> hash_join_params \<Rightarrow> ('w, 'j, 'd) grace_stream
     \<Rightarrow> ((query_error + ('j, 'd) row) option \<times> ('w, 'j, 'd) grace_stream) option" where
  "grace_next ops ws xxh3 params s =
    (case grace_turn ops ws xxh3 params s of
       Again s' \<Rightarrow> grace_next ops ws xxh3 params s'
     | Yield r s' \<Rightarrow> Some (Some r, s')
     | Finished s' \<Rightarrow> Some (None, s'))"

text \<open>Driving the stream to its end.\<close>

partial_function (option) grace_rows ::
    "('j, 'd, 'x) expr_ops_scheme \<Rightarrow> 'w ws_ops \<Rightarrow> xxh \<Rightarrow> hash_join_params \<Rightarrow> ('w, 'j, 'd) grace_stream \<Rightarrow> ('j, 'd) stream option" where
  "grace_rows ops ws xxh3 params s =
    Option.bind (grace_next ops ws xxh3 params s) (\<lambda>(r, s').
      case r of
        None \<Rightarrow> Some []
      | Some x \<Rightarrow> Option.bind (grace_rows ops ws xxh3 params s') (\<lambda>xs. Some (x # xs)))"

definition grace_start ::
    "('j, 'd, 'x) expr_ops_scheme \<Rightarrow> 'w ws_ops \<Rightarrow> xxh \<Rightarrow> hash_join_params \<Rightarrow> query_error + ('j, 'd) stream \<Rightarrow> query_error + ('j, 'd) stream
     \<Rightarrow> query_error + ('w, 'j, 'd) grace_stream" where
  "grace_start ops ws xxh3 params left right =
    (let n = jc_hash_partitions (hj_config params) in
     res_bind (new_buckets ws n) (\<lambda>left_parts.
     res_bind (new_buckets ws n) (\<lambda>right_parts.
     res_bind left (\<lambda>lstream.
     res_bind (partition_input ops ws xxh3 (hj_left_key params) (hj_left_schema params) n lstream left_parts []) (\<lambda>(left_parts, left_nulls).
     res_bind right (\<lambda>rstream.
     res_bind (partition_input ops ws xxh3 (hj_right_key params) (hj_right_schema params) n rstream right_parts []) (\<lambda>(right_parts, right_nulls).
       Inr \<lparr>gs_worklist = rev (map (\<lambda>(l, r). (l, r, 0)) (zip left_parts right_parts)), gs_current = None,
            gs_left_nulls = left_nulls, gs_right_nulls = right_nulls, gs_failed = False\<rparr>)))))))"

definition grace_hash_join ::
    "('j, 'd, 'x) expr_ops_scheme \<Rightarrow> 'w ws_ops \<Rightarrow> xxh \<Rightarrow> join_config \<Rightarrow> nat \<Rightarrow> nat \<Rightarrow> query_error + ('j, 'd) stream \<Rightarrow> query_error + ('j, 'd) stream
     \<Rightarrow> ('j, 'd) expr option \<Rightarrow> join_type \<Rightarrow> schema \<Rightarrow> schema \<Rightarrow> (query_error + ('j, 'd) stream) option" where
  "grace_hash_join ops ws xxh3 config lw rw left right on jt left_schema right_schema =
    (case equi_keys on lw of
       Inl e \<Rightarrow> Some (Inl e)
     | Inr (left_key, right_key) \<Rightarrow>
         let params = \<lparr>hj_type = jt, hj_left_key = left_key, hj_right_key = right_key, hj_left_width = lw, hj_right_width = rw,
               hj_left_schema = left_schema, hj_right_schema = right_schema, hj_config = config\<rparr>
         in case grace_start ops ws xxh3 params left right of
              Inl e \<Rightarrow> Some (Inl e)
            | Inr s \<Rightarrow> map_option Inr (grace_rows ops ws xxh3 params s))"

section \<open>The stream ends\<close>

definition entries :: "('k \<times> 'e list) list \<Rightarrow> 'e list" where
  "entries tbl = concat (map snd tbl)"

lemma entries_simps [simp]: "entries [] = []" "entries ((k, es) # tbl) = es @ entries tbl"
  by (simp_all add: entries_def)

lemma length_entries_mark [simp]: "length (entries (table_mark k tbl)) = length (entries tbl)"
  by (induction tbl) (auto simp: table_mark_def)

lemma length_lookup: "map_of tbl k = Some es \<Longrightarrow> length es \<le> length (entries tbl)"
  by (induction tbl) (auto split: if_splits)

text \<open>What the probe state can still do.\<close>

definition probe_rank :: "('j, 'd) probe \<Rightarrow> nat" where
  "probe_rank p =
    (let n = length (entries (pr_table p)) in
     length (pr_pending p) + (case pr_unmatched p of Some tail \<Rightarrow> length tail + 1 | None \<Rightarrow> length (pr_cursor p) * (n + 2) + (n + 2)))"

lemma pending_rank: "pr_pending p = t # ts \<Longrightarrow> probe_rank (p\<lparr>pr_pending := ts\<rparr>) < probe_rank p"
  by (cases "pr_unmatched p") (simp_all add: probe_rank_def Let_def)

lemma probe_one_result:
  assumes "probe_one ops params p b = Inr p'"
  obtains k q where "p' = p\<lparr>pr_table := table_mark k (pr_table p), pr_pending := q\<rparr>" "length q \<le> length (entries (pr_table p)) + 1"
proof -
  obtain sc key where sc: "probe_of params (pr_build_is_left p) = (sc, key)" by fastforce
  obtain t k where tk: "decode_row ops sc b = Inr t" "row_key ops key t = Inr k"
    using assms by (auto simp: probe_one_def sc Let_def)
  define es where "es = (case map_of (pr_table p) k of None \<Rightarrow> [] | Some es \<Rightarrow> es)"
  have "length es \<le> length (entries (pr_table p))" using length_lookup [of "pr_table p" k] by (auto simp: es_def split: option.splits)
  moreover have "p' = p\<lparr>pr_table := table_mark k (pr_table p), pr_pending := pr_pending p'\<rparr> \<and> length (pr_pending p') \<le> length es + 1"
    using assms by (auto simp: probe_one_def sc tk Let_def simp flip: es_def)
  ultimately show thesis using that [of "pr_pending p'" k] by linarith
qed

lemma probe_one_rank:
  assumes "probe_one ops params (p\<lparr>pr_cursor := bs\<rparr>) b = Inr p'" "pr_pending p = []" "pr_unmatched p = None" "pr_cursor p = b # bs"
  shows "probe_rank p' < probe_rank p"
proof -
  obtain k q where "p' = p\<lparr>pr_cursor := bs, pr_table := table_mark k (pr_table p), pr_pending := q\<rparr>" "length q \<le> length (entries (pr_table p)) + 1"
    by (rule probe_one_result [OF assms(1)]) (rule that, simp_all)
  then show ?thesis using assms(2-4) by (simp add: probe_rank_def Let_def)
qed

lemma tail_rank:
  assumes "unmatched_build_tail params p = (tail, tbl)" "pr_pending p = []" "pr_unmatched p = None"
  shows "probe_rank (p\<lparr>pr_unmatched := Some tail, pr_table := tbl\<rparr>) < probe_rank p"
proof -
  have "length tail \<le> length (entries (pr_table p))"
    using assms(1) by (auto simp: unmatched_build_tail_def Let_def entries_def split: if_splits)
  then show ?thesis using assms(2,3) by (simp add: probe_rank_def Let_def)
qed

lemma build_next_pair_weight:
  "build_next_pair ops ws xxh3 params work = (r, work') \<Longrightarrow>
    work_weight (jc_hash_partitions (hj_config params)) work' + (case r of Inr (Some _) \<Rightarrow> 1 | _ \<Rightarrow> 0)
    \<le> work_weight (jc_hash_partitions (hj_config params)) work"
proof (induction ops ws xxh3 params work rule: build_next_pair.induct)
  case (2 ops ws xxh3 params pair work)
  let ?n = "jc_hash_partitions (hj_config params)"
  have one: "work_weight ?n work + 1 \<le> work_weight ?n (pair # work)" by (auto simp: work_weight_def split: prod.splits)
  show ?case
  proof (cases "open_pair ops ws xxh3 params pair")
    case (Inl e)
    then show ?thesis using 2(2) one by (auto simp: build_next_pair.simps(2))
  next
    case (Inr x)
    show ?thesis
    proof (cases x)
      case (Inl p)
      then show ?thesis using 2(2) one Inr by (auto simp: build_next_pair.simps(2))
    next
      case sub: (Inr subs)
      obtain l r' level where pair: "pair = (l, r', level)" by (cases pair) auto
      have "work_weight ?n (rev subs @ work) < work_weight ?n (pair # work)"
        using open_pair_lighter Inr sub by (simp add: pair)
      moreover have "work_weight ?n work' + (case r of Inr (Some _) \<Rightarrow> 1 | _ \<Rightarrow> 0) \<le> work_weight ?n (rev subs @ work)"
        using 2(1) [OF Inr sub] 2(2) by (simp add: Inr sub build_next_pair.simps(2))
      ultimately show ?thesis by linarith
    qed
  qed
qed auto

definition grace_order :: "hash_join_params \<Rightarrow> (('w, 'j, 'd) grace_stream \<times> ('w, 'j, 'd) grace_stream) set" where
  "grace_order params = measures
    [\<lambda>s. if gs_failed s then 0 else 1,
     \<lambda>s. work_weight (jc_hash_partitions (hj_config params)) (gs_worklist s),
     \<lambda>s. case gs_current s of None \<Rightarrow> 0 | Some p \<Rightarrow> Suc (probe_rank p),
     \<lambda>s. length (gs_left_nulls s) + length (gs_right_nulls s)]"

lemma grace_turn_progress:
  assumes "grace_turn ops ws xxh3 params s = Again s' \<or> grace_turn ops ws xxh3 params s = Yield r s'"
  shows "(s', s) \<in> grace_order params \<and> (\<forall>e. grace_turn ops ws xxh3 params s = Yield (Inl e) s' \<longrightarrow> gs_failed s')"
proof (cases "gs_current s")
  case None
  obtain x work where b: "build_next_pair ops ws xxh3 params (gs_worklist s) = (x, work)" by fastforce
  show ?thesis
  proof (cases x)
    case (Inl e)
    then show ?thesis using assms None b by (auto simp: grace_turn_def grace_order_def split: if_splits)
  next
    case (Inr y)
    then show ?thesis using assms None b build_next_pair_weight [OF b]
      by (cases y) (auto simp: grace_turn_def grace_order_def split: if_splits)
  qed
next
  case (Some p)
  show ?thesis
  proof (cases "pr_pending p = [] \<and> pr_unmatched p = None")
    case True
    obtain tail tbl where t: "unmatched_build_tail params p = (tail, tbl)" by fastforce
    show ?thesis
    proof (cases "pr_cursor p")
      case Nil
      then show ?thesis using assms Some True t tail_rank [OF t]
        by (auto simp: grace_turn_def grace_order_def split: if_splits)
    next
      case (Cons b bs)
      show ?thesis
      proof (cases "probe_one ops params (p\<lparr>pr_cursor := bs\<rparr>) b")
        case (Inl e)
        then show ?thesis using assms Some True Cons by (auto simp: grace_turn_def grace_order_def split: if_splits)
      next
        case (Inr p')
        from probe_one_rank [OF this _ _ Cons] show ?thesis using assms Some True Cons Inr
          by (auto simp: grace_turn_def grace_order_def split: if_splits)
      qed
    qed
  next
    case False
    show ?thesis
    proof (cases "pr_pending p")
      case Nil
      then obtain tail where "pr_unmatched p = Some tail" using False by auto
      then show ?thesis using assms Some Nil
        by (cases tail) (auto simp: grace_turn_def grace_order_def probe_rank_def Let_def split: if_splits)
    next
      case (Cons t ts)
      then show ?thesis using assms Some pending_rank [OF Cons] by (auto simp: grace_turn_def grace_order_def split: if_splits)
    qed
  qed
qed

text \<open>Every call of \<open>next\<close> returns, and the stream has an end; an error is its last item.\<close>

lemma grace_next_again: "grace_turn ops ws xxh3 params s = Again s' \<Longrightarrow> grace_next ops ws xxh3 params s = grace_next ops ws xxh3 params s'"
  by (subst grace_next.simps) simp

lemma grace_rows_turn:
  "grace_turn ops ws xxh3 params s = Again s' \<Longrightarrow> grace_rows ops ws xxh3 params s = grace_rows ops ws xxh3 params s'"
  "grace_turn ops ws xxh3 params s = Yield x s' \<Longrightarrow> grace_rows ops ws xxh3 params s = map_option ((#) x) (grace_rows ops ws xxh3 params s')"
  "grace_turn ops ws xxh3 params s = Finished s' \<Longrightarrow> grace_rows ops ws xxh3 params s = Some []"
proof -
  show "grace_turn ops ws xxh3 params s = Again s' \<Longrightarrow> grace_rows ops ws xxh3 params s = grace_rows ops ws xxh3 params s'"
    by (simp add: grace_rows.simps [of ops ws xxh3 params s] grace_rows.simps [of ops ws xxh3 params s'] grace_next_again)
  show "grace_turn ops ws xxh3 params s = Yield x s' \<Longrightarrow> grace_rows ops ws xxh3 params s = map_option ((#) x) (grace_rows ops ws xxh3 params s')"
    by (simp add: grace_rows.simps [of ops ws xxh3 params s] grace_next.simps [of ops ws xxh3 params s] map_conv_bind_option comp_def)
  show "grace_turn ops ws xxh3 params s = Finished s' \<Longrightarrow> grace_rows ops ws xxh3 params s = Some []"
    by (simp add: grace_rows.simps [of ops ws xxh3 params s] grace_next.simps [of ops ws xxh3 params s])
qed

lemma wf_grace_order: "wf (grace_order params)"
  by (simp add: grace_order_def)

lemma grace_next_total: "\<exists>r s'. grace_next ops ws xxh3 params s = Some (r, s')"
proof (induction s rule: wf_induct [OF wf_grace_order [of params]])
  case (1 s)
  show ?case
  proof (cases "grace_turn ops ws xxh3 params s")
    case (Again s')
    then have "(s', s) \<in> grace_order params" using grace_turn_progress [of ops ws xxh3 params s s'] by simp
    then show ?thesis using 1 grace_next_again [OF Again] by simp
  qed (simp_all add: grace_next.simps [of ops ws xxh3 params s])
qed

lemma grace_rows_total: "\<exists>rows errs. grace_rows ops ws xxh3 params s = Some (map Inr rows @ map Inl errs) \<and> length errs \<le> 1"
proof (induction s rule: wf_induct [OF wf_grace_order [of params]])
  case (1 s)
  show ?case
  proof (cases "grace_turn ops ws xxh3 params s")
    case (Again s')
    then have "(s', s) \<in> grace_order params" using grace_turn_progress [of ops ws xxh3 params s s'] by simp
    then show ?thesis using 1 grace_rows_turn(1) [OF Again] by simp
  next
    case (Yield x s')
    then have "(s', s) \<in> grace_order params" using grace_turn_progress [of ops ws xxh3 params s s' x] by simp
    then obtain rows errs where s': "grace_rows ops ws xxh3 params s' = Some (map Inr rows @ map Inl errs)" "length errs \<le> 1"
      using 1 by blast
    show ?thesis
    proof (cases x)
      case (Inl e)
      then have "gs_failed s'" using Yield grace_turn_progress [of ops ws xxh3 params s s' x] by simp
      then have "grace_turn ops ws xxh3 params s' = Finished s'" by (simp add: grace_turn_def)
      then show ?thesis using Inl grace_rows_turn(2) [OF Yield] grace_rows_turn(3) [of ops ws xxh3 params s' s']
        by (intro exI [of _ "[]"] exI [of _ "[e]"]) simp
    next
      case (Inr t)
      then show ?thesis using Yield s' grace_rows_turn(2) [OF Yield] by (intro exI [of _ "t # rows"] exI [of _ errs]) simp
    qed
  next
    case (Finished s')
    then show ?thesis using grace_rows_turn(3) [OF Finished] by (intro exI [of _ "[]"]) simp
  qed
qed

end
