(* ===== verification/Grace_Spec.thy ===== *)
theory Grace_Spec
  imports Grace_Join
begin

text \<open>
  The grace hash join computes the join: partitioning by a hash of the key splits a join into the
  joins of the buckets, probing a complete table gives the join of a bucket pair, and the turns of the
  stream give these rows and nothing else.
\<close>

section \<open>Joins on keys\<close>

definition key_join ::
    "(('j, 'd) row \<Rightarrow> 'k) \<Rightarrow> (('j, 'd) row \<Rightarrow> 'k) \<Rightarrow> join_type \<Rightarrow> nat \<Rightarrow> nat \<Rightarrow> ('j, 'd) row list \<Rightarrow> ('j, 'd) row list \<Rightarrow> ('j, 'd) row multiset" where
  "key_join f g jt lw rw L R =
    mset (key_pairs f g L R)
    + (if keeps_left jt then mset (map (\<lambda>l. pad_right l rw) (filter (\<lambda>l. f l \<notin> g ` set R) L)) else {#})
    + (if keeps_right jt then mset (map (pad_left lw) (filter (\<lambda>r. g r \<notin> f ` set L) R)) else {#})"

lemma join_rows_key_join:
  assumes "\<And>l r. l \<in> set L \<Longrightarrow> r \<in> set R \<Longrightarrow> P (l @ r) \<longleftrightarrow> f l = g r"
  shows "join_rows P jt lw rw L R = key_join f g jt lw rw L R"
proof -
  have "lone_left P L R = filter (\<lambda>l. f l \<notin> g ` set R) L" "lone_right P L R = filter (\<lambda>r. g r \<notin> f ` set L) R"
    unfolding lone_left_def lone_right_def using assms by (auto intro!: filter_cong simp: image_iff eq_commute)
  moreover have "pairs P L R = key_pairs f g L R" using assms by (rule pairs_key_pairs)
  ultimately show ?thesis by (simp add: join_rows_def key_join_def)
qed

section \<open>Partitions\<close>

lemma sum_one: "k < n \<Longrightarrow> (\<Sum>j<(n :: nat). if k = j then X else {#}) = X"
  by (simp add: sum.delta')

lemma image_mset_parts: "image_mset f (\<Sum>j<n. M j) = (\<Sum>j<(n :: nat). image_mset f (M j))"
  by (induction n) simp_all

lemma sum_part: "\<forall>x\<in>set xs. h x < (n :: nat) \<Longrightarrow> (\<Sum>j<n. mset (filter (\<lambda>x. h x = j) xs)) = mset xs"
proof (induction xs)
  case (Cons x xs)
  have "(\<Sum>j<n. mset (filter (\<lambda>x. h x = j) (x # xs))) = (\<Sum>j<n. (if h x = j then {#x#} else {#}) + mset (filter (\<lambda>x. h x = j) xs))"
    by (intro sum.cong) auto
  also have "\<dots> = {#x#} + mset xs" using Cons by (simp add: sum.distrib sum_one)
  finally show ?case by simp
qed simp

lemma sum_image_part:
  "\<forall>x\<in>set xs. h x < (n :: nat) \<Longrightarrow> (\<Sum>j<n. image_mset p (mset (filter (\<lambda>x. h x = j) xs))) = image_mset p (mset xs)"
  using image_mset_parts [of p "\<lambda>j. mset (filter (\<lambda>x. h x = j) xs)" n] sum_part [of xs h n] by simp

lemma sum_key_pairs:
  assumes "\<forall>l\<in>set L. h (f l) < (n :: nat)"
  shows "(\<Sum>j<n. mset (key_pairs f g (filter (\<lambda>l. h (f l) = j) L) (filter (\<lambda>r. h (g r) = j) R))) = mset (key_pairs f g L R)"
  using assms
proof (induction L)
  case (Cons l L)
  let ?m = "mset (map (\<lambda>r. l @ r) (filter (\<lambda>r. f l = g r) R))"
  have "mset (key_pairs f g (filter (\<lambda>l. h (f l) = j) (l # L)) (filter (\<lambda>r. h (g r) = j) R)) =
      (if h (f l) = j then ?m else {#}) + mset (key_pairs f g (filter (\<lambda>l. h (f l) = j) L) (filter (\<lambda>r. h (g r) = j) R))" for j
  proof -
    have "filter (\<lambda>r. f l = g r) (filter (\<lambda>r. h (g r) = h (f l)) R) = filter (\<lambda>r. f l = g r) R"
      unfolding filter_filter by (rule filter_cong) auto
    then show ?thesis by (auto simp: key_pairs_def simp del: filter_filter mset_map)
  qed
  then have "(\<Sum>j<n. mset (key_pairs f g (filter (\<lambda>l. h (f l) = j) (l # L)) (filter (\<lambda>r. h (g r) = j) R)))
      = ?m + mset (key_pairs f g L R)"
    using Cons by (simp only: sum.distrib sum_one list.set ball_simps insert_iff simp_thms) simp
  then show ?case by (simp add: key_pairs_def)
qed (simp add: key_pairs_def)

lemma key_join_parts:
  assumes "\<forall>l\<in>set L. h (f l) < (n :: nat)" "\<forall>r\<in>set R. h (g r) < n"
  shows "(\<Sum>j<n. key_join f g jt lw rw (filter (\<lambda>l. h (f l) = j) L) (filter (\<lambda>r. h (g r) = j) R)) = key_join f g jt lw rw L R"
proof -
  let ?L = "\<lambda>j. filter (\<lambda>l. h (f l) = j) L" and ?R = "\<lambda>j. filter (\<lambda>r. h (g r) = j) R"
  have l: "filter (\<lambda>l. f l \<notin> g ` set (?R j)) (?L j) = filter (\<lambda>l. h (f l) = j) (filter (\<lambda>l. f l \<notin> g ` set R) L)" for j
    unfolding filter_filter by (rule filter_cong) auto
  have r: "filter (\<lambda>r. g r \<notin> f ` set (?L j)) (?R j) = filter (\<lambda>r. h (g r) = j) (filter (\<lambda>r. g r \<notin> f ` set L) R)" for j
    unfolding filter_filter by (rule filter_cong) auto
  have "(\<Sum>j<n. image_mset (\<lambda>l. pad_right l rw) (mset (filter (\<lambda>l. h (f l) = j) (filter (\<lambda>l. f l \<notin> g ` set R) L))))
      = image_mset (\<lambda>l. pad_right l rw) (mset (filter (\<lambda>l. f l \<notin> g ` set R) L))"
    by (rule sum_image_part) (use assms(1) in auto)
  moreover have "(\<Sum>j<n. image_mset (pad_left lw) (mset (filter (\<lambda>r. h (g r) = j) (filter (\<lambda>r. g r \<notin> f ` set L) R))))
      = image_mset (pad_left lw) (mset (filter (\<lambda>r. g r \<notin> f ` set L) R))"
    by (rule sum_image_part) (use assms(2) in auto)
  ultimately show ?thesis
    unfolding key_join_def l r using sum_key_pairs [where h = h and f = f and g = g and R = R, OF assms(1)]
    by (simp only: sum.distrib mset_map) (auto simp: sum.neutral)
qed

section \<open>The table\<close>

definition table_ok :: "(('j, 'd) row \<Rightarrow> bytes) \<Rightarrow> ('j, 'd) hash_table \<Rightarrow> bool" where
  "table_ok f tbl \<longleftrightarrow> distinct (map fst tbl) \<and> (\<forall>(k, es)\<in>set tbl. \<forall>(t, m)\<in>set es. f t = k)"

lemma table_push_keys: "set (map fst (table_push k e tbl)) = insert k (set (map fst tbl))"
  by (induction k e tbl rule: table_push.induct) auto

lemma table_push_ok:
  assumes "table_ok f tbl" "f t = k"
  shows "table_ok f (table_push k (t, m) tbl)" "mset (entries (table_push k (t, m) tbl)) = add_mset (t, m) (mset (entries tbl))"
  using assms
proof (induction tbl)
  case (Cons p tbl)
  obtain k' es where p: "p = (k', es)" by fastforce
  { case 1
    then show ?case using Cons(1) table_push_keys [of k "(t, m)" tbl] by (auto simp: p table_ok_def)
  next
    case 2
    then show ?case using Cons(2) by (auto simp: p table_ok_def) }
qed (auto simp: table_ok_def)

lemma table_lookup:
  assumes "table_ok f tbl"
  shows "(case map_of tbl k of None \<Rightarrow> [] | Some es \<Rightarrow> es) = filter (\<lambda>(t, m). f t = k) (entries tbl)"
  using assms
proof (induction tbl)
  case (Cons p tbl)
  obtain k' es where p: "p = (k', es)" by fastforce
  have ok: "table_ok f tbl" "\<forall>(t, m)\<in>set es. f t = k'" "k' \<notin> set (map fst tbl)" using Cons.prems by (auto simp: p table_ok_def)
  show ?case
  proof (cases "k' = k")
    case True
    have "map_of tbl k = None" using ok(3) True by (auto simp: map_of_eq_None_iff)
    then have "filter (\<lambda>(t, m). f t = k) (entries tbl) = []" using Cons.IH [OF ok(1)] by simp
    moreover have "filter (\<lambda>(t, m). f t = k) es = es" using ok(2) True by (auto simp: filter_id_conv)
    ultimately show ?thesis using True by (simp add: p)
  next
    case False
    then have "filter (\<lambda>(t, m). f t = k) es = []" using ok(2) by (auto simp: filter_empty_conv)
    then show ?thesis using False Cons.IH [OF ok(1)] by (simp add: p)
  qed
qed simp

lemma table_mark_ok:
  assumes "table_ok f tbl"
  shows "table_ok f (table_mark k tbl)" "entries (table_mark k tbl) = map (\<lambda>(t, m). (t, m \<or> f t = k)) (entries tbl)"
  using assms
proof (induction tbl)
  case (Cons p tbl)
  obtain k' es where p: "p = (k', es)" by fastforce
  have keys: "map fst (table_mark k tbl) = map fst tbl" by (auto simp: table_mark_def)
  { case 1
    then show ?case using Cons(1) keys by (auto simp: p table_ok_def table_mark_def)
  next
    case 2
    then have es: "\<forall>(t, m)\<in>set es. f t = k'" and ok: "table_ok f tbl" by (auto simp: p table_ok_def)
    have "(if k' = k then map (\<lambda>(t, m). (t, True)) es else es) = map (\<lambda>(t, m). (t, m \<or> f t = k)) es"
      using es by (cases "k' = k") (auto intro!: map_cong [OF refl] map_idI [symmetric])
    then show ?case using Cons(2) [OF ok] by (simp add: p table_mark_def) }
qed (auto simp: table_ok_def table_mark_def)

section \<open>Rows of a bucket\<close>

text \<open>A row that can be partitioned: its key is not NULL, and it survives a workspace.\<close>

definition bucket_row :: "('j, 'd, 'x) expr_ops_scheme \<Rightarrow> logical_type \<Rightarrow> nat \<Rightarrow> nat \<Rightarrow> schema \<Rightarrow> ('j, 'd) row \<Rightarrow> bool" where
  "bucket_row ops ty w i sc t \<longleftrightarrow> keyed_row ops ty w i t \<and> \<not> is_null (t ! i) \<and> spillable ops sc t"

definition row_code :: "('j, 'd, 'x) expr_ops_scheme \<Rightarrow> nat \<Rightarrow> ('j, 'd) row \<Rightarrow> bytes" where
  "row_code ops i t = value_key ops (t ! i)"

lemma bucket_rowD:
  assumes "bucket_row ops ty w i sc t"
  shows "key_at i t = Inr (t ! i)" "key_bytes ops (t ! i) = Inr (Some (row_code ops i t))" "row_key ops i t = Inr (row_code ops i t)"
    "encode_row ops sc t = Inr (row_bytes ops sc t)" "decode_row ops sc (row_bytes ops sc t) = Inr t" "length (row_bytes ops sc t) \<le> max_tuple"
proof -
  have k: "keyed_row ops ty w i t" "\<not> is_null (t ! i)" "spillable ops sc t" using assms by (simp_all add: bucket_row_def)
  show "key_at i t = Inr (t ! i)" "encode_row ops sc t = Inr (row_bytes ops sc t)" "decode_row ops sc (row_bytes ops sc t) = Inr t"
    "length (row_bytes ops sc t) \<le> max_tuple"
    using keyed_rowD(4) [OF k(1)] spillableD [OF k(3)] by blast+
  show "key_bytes ops (t ! i) = Inr (Some (row_code ops i t))" "row_key ops i t = Inr (row_code ops i t)"
    using key_value_order(1) [OF keyed_rowD(3) [OF k(1)] keyed_rowD(3) [OF k(1)] k(2,2)] k(2) keyed_rowD(4) [OF k(1)]
    by (simp_all add: key_bytes_def row_key_def row_code_def res_map_def or_panic_def)
qed

text \<open>The rows of bucket \<open>j\<close>.\<close>

definition routed :: "('j, 'd, 'x) expr_ops_scheme \<Rightarrow> xxh \<Rightarrow> nat \<Rightarrow> nat \<Rightarrow> nat \<Rightarrow> ('j, 'd) row list \<Rightarrow> nat \<Rightarrow> ('j, 'd) row list" where
  "routed ops xxh3 i level n ts j = filter (\<lambda>t. bucket xxh3 (row_code ops i t) level n = j) ts"

lemma routed_simps:
  "routed ops xxh3 i level n [] j = []"
  "routed ops xxh3 i level n (t # ts) j = (if bucket xxh3 (row_code ops i t) level n = j then t # routed ops xxh3 i level n ts j else routed ops xxh3 i level n ts j)"
  by (simp_all add: routed_def)

lemma bucket_less: "0 < n \<Longrightarrow> bucket xxh3 k level n < n"
  by (simp add: bucket_def Let_def)

text \<open>The workspace holds these rows and takes more of them up to its capacity.\<close>

definition rows_held ::
    "(nat \<Rightarrow> 'w \<Rightarrow> bytes list \<Rightarrow> bool) \<Rightarrow> nat \<Rightarrow> ('j, 'd, 'x) expr_ops_scheme \<Rightarrow> schema \<Rightarrow> 'w \<Rightarrow> ('j, 'd) row list \<Rightarrow> bool" where
  "rows_held holds capacity ops sc w ts \<longleftrightarrow> (\<exists>m. holds m w (map (row_bytes ops sc) ts) \<and> capacity \<le> m + length ts)"

context workspace
begin

lemma rows_held_replay:
  assumes "rows_held holds capacity ops sc w ts"
  obtains w' where "replay ws w = Inr (map (row_bytes ops sc) ts, w')" "rows_held holds capacity ops sc w' ts"
proof -
  obtain m where m: "holds m w (map (row_bytes ops sc) ts)" "capacity \<le> m + length ts" using assms by (auto simp: rows_held_def)
  show thesis by (rule replay_ok [OF m(1)]) (rule that, use m(2) in \<open>auto simp: rows_held_def\<close>)
qed

lemma rows_held_new: "ws_new ws = Inr w \<Longrightarrow> rows_held holds capacity ops sc w []"
  using new_holds by (auto simp: rows_held_def)

lemma new_buckets_ok:
  assumes "ws_new ws = Inr w"
  shows "new_buckets ws n = Inr (replicate n w)" "\<forall>j<n. rows_held holds capacity ops sc (replicate n w ! j) []"
proof -
  show "new_buckets ws n = Inr (replicate n w)" using assms by (induction n) (simp_all add: new_buckets_def)
  show "\<forall>j<n. rows_held holds capacity ops sc (replicate n w ! j) []" using rows_held_new [OF assms, of ops sc] by simp
qed

lemma spill_ok:
  assumes "j < length parts" "rows_held holds capacity ops sc (parts ! j) ts" "length ts < capacity" "length (row_bytes ops sc t) \<le> max_tuple"
  obtains w where "spill ws (row_bytes ops sc t) j parts = Inr (parts[j := w])" "rows_held holds capacity ops sc w (ts @ [t])"
proof -
  obtain m where m: "holds m (parts ! j) (map (row_bytes ops sc) ts)" "capacity \<le> m + length ts" using assms(2) by (auto simp: rows_held_def)
  then obtain m' where m': "m = Suc m'" using assms(3) by (cases m) auto
  obtain l w where w: "ws_append ws (row_bytes ops sc t) (parts ! j) = (Inr l, w)" "holds m' w (map (row_bytes ops sc) ts @ [row_bytes ops sc t])"
    using append_holds [OF m(1) [unfolded m'] assms(4)] by blast
  show thesis by (rule that [of w]) (use w m m' assms(1) in \<open>auto simp: spill_def rows_held_def intro!: exI [of _ m']\<close>)
qed

lemma respill_ok:
  assumes "\<forall>t\<in>set ts. bucket_row ops ty w i sc t" "0 < n" "length parts = n"
    "\<forall>j<n. rows_held holds capacity ops sc (parts ! j) (Ps j) \<and> length (Ps j) + length ts \<le> capacity"
  shows "\<exists>parts'. respill ops ws xxh3 i sc level n (map (row_bytes ops sc) ts) parts = Inr parts' \<and> length parts' = n \<and>
    (\<forall>j<n. rows_held holds capacity ops sc (parts' ! j) (Ps j @ routed ops xxh3 i level n ts j))"
  using assms
proof (induction ts arbitrary: parts Ps)
  case (Cons t ts)
  let ?j = "bucket xxh3 (row_code ops i t) level n"
  have t: "bucket_row ops ty w i sc t" and j: "?j < n" using Cons.prems(1) bucket_less [OF assms(2)] by simp_all
  obtain v where v: "spill ws (row_bytes ops sc t) ?j parts = Inr (parts[?j := v])" "rows_held holds capacity ops sc v (Ps ?j @ [t])"
    by (rule spill_ok [of ?j parts ops sc "Ps ?j" t]) (use Cons.prems(3,4) j bucket_rowD(6) [OF t] in auto)
  let ?Ps = "Ps(?j := Ps ?j @ [t])"
  have "\<forall>j<n. rows_held holds capacity ops sc (parts[?j := v] ! j) (?Ps j) \<and> length (?Ps j) + length ts \<le> capacity"
    using Cons.prems(3,4) v(2) by (auto simp: nth_list_update)
  with Cons.IH [of "parts[?j := v]" ?Ps] Cons.prems(1-3) obtain parts'
    where p: "respill ops ws xxh3 i sc level n (map (row_bytes ops sc) ts) (parts[?j := v]) = Inr parts'" "length parts' = n"
      "\<forall>j<n. rows_held holds capacity ops sc (parts' ! j) (?Ps j @ routed ops xxh3 i level n ts j)" by auto
  then show ?case using v(1) bucket_rowD(3,5) [OF t] by (intro exI [of _ parts']) (auto simp: routed_simps)
qed (simp add: routed_simps)

lemma repartition_ok:
  assumes "rows_held holds capacity ops sc src ts" "\<forall>t\<in>set ts. bucket_row ops ty w i sc t" "length ts \<le> capacity" "0 < n" "ws_new ws = Inr w0"
  obtains parts where "repartition ops ws xxh3 src i sc level n = Inr parts" "length parts = n"
    "\<forall>j<n. rows_held holds capacity ops sc (parts ! j) (routed ops xxh3 i level n ts j)"
proof -
  obtain src' where src: "replay ws src = Inr (map (row_bytes ops sc) ts, src')" by (rule rows_held_replay [OF assms(1)])
  note new = new_buckets_ok [OF assms(5)]
  have "\<exists>parts. respill ops ws xxh3 i sc level n (map (row_bytes ops sc) ts) (replicate n w0) = Inr parts \<and> length parts = n \<and>
      (\<forall>j<n. rows_held holds capacity ops sc (parts ! j) ([] @ routed ops xxh3 i level n ts j))"
    by (rule respill_ok [OF assms(2,4)]) (use assms(3) new(2) in auto)
  then show thesis using that src new(1) by (auto simp: repartition_def)
qed

text \<open>The first pass also sets the rows with a NULL key aside.\<close>

lemma partition_input_ok:
  assumes "\<forall>t\<in>set ts. keyed_row ops ty w i t \<and> (is_null (t ! i) \<or> bucket_row ops ty w i sc t)" "0 < n" "length parts = n"
    "\<forall>j<n. rows_held holds capacity ops sc (parts ! j) (Ps j) \<and> length (Ps j) + length ts \<le> capacity"
  shows "\<exists>parts'. partition_input ops ws xxh3 i sc n (rows_stream ts) parts nulls = Inr (parts', nulls @ filter (\<lambda>t. is_null (t ! i)) ts) \<and>
    length parts' = n \<and> (\<forall>j<n. rows_held holds capacity ops sc (parts' ! j) (Ps j @ routed ops xxh3 i 0 n (filter (\<lambda>t. \<not> is_null (t ! i)) ts) j))"
  using assms
proof (induction ts arbitrary: parts Ps nulls)
  case (Cons t ts)
  have rest: "\<forall>t\<in>set ts. keyed_row ops ty w i t \<and> (is_null (t ! i) \<or> bucket_row ops ty w i sc t)" using Cons.prems(1) by simp
  have t: "keyed_row ops ty w i t" "is_null (t ! i) \<or> bucket_row ops ty w i sc t" using Cons.prems(1) by simp_all
  show ?case
  proof (cases "is_null (t ! i)")
    case True
    have "\<forall>j<n. rows_held holds capacity ops sc (parts ! j) (Ps j) \<and> length (Ps j) + length ts \<le> capacity" using Cons.prems(4) by auto
    from Cons.IH [OF rest assms(2) Cons.prems(3) this, of "nulls @ [t]"] show ?thesis
      using True keyed_rowD(4) [OF t(1)] by (auto simp: rows_stream_def key_bytes_def)
  next
    case False
    let ?j = "bucket xxh3 (row_code ops i t) 0 n"
    have b: "bucket_row ops ty w i sc t" and j: "?j < n" using t(2) False bucket_less [OF assms(2)] by simp_all
    obtain v where v: "spill ws (row_bytes ops sc t) ?j parts = Inr (parts[?j := v])" "rows_held holds capacity ops sc v (Ps ?j @ [t])"
      by (rule spill_ok [of ?j parts ops sc "Ps ?j" t]) (use Cons.prems(3,4) j bucket_rowD(6) [OF b] in auto)
    let ?Ps = "Ps(?j := Ps ?j @ [t])"
    have "\<forall>j<n. rows_held holds capacity ops sc (parts[?j := v] ! j) (?Ps j) \<and> length (?Ps j) + length ts \<le> capacity"
      using Cons.prems(3,4) v(2) by (auto simp: nth_list_update)
    with Cons.IH [OF rest assms(2), of "parts[?j := v]" ?Ps nulls] Cons.prems(3) obtain parts'
      where p: "partition_input ops ws xxh3 i sc n (rows_stream ts) (parts[?j := v]) nulls = Inr (parts', nulls @ filter (\<lambda>t. is_null (t ! i)) ts)"
        "length parts' = n" "\<forall>j<n. rows_held holds capacity ops sc (parts' ! j) (?Ps j @ routed ops xxh3 i 0 n (filter (\<lambda>t. \<not> is_null (t ! i)) ts) j)" by auto
    then show ?thesis using v(1) bucket_rowD(1,2,4) [OF b] False
      by (intro exI [of _ parts']) (auto simp: routed_simps rows_stream_def)
  qed
qed (simp add: routed_simps rows_stream_def)

end

section \<open>Build and probe\<close>

lemma build_table_ok:
  assumes "\<forall>t\<in>set ts. bucket_row ops ty w i sc t" "table_ok (row_code ops i) tbl"
  shows "(\<exists>tbl'. build_table ops sc i cap (map (row_bytes ops sc) ts) used tbl = Inr (Some tbl') \<and> table_ok (row_code ops i) tbl' \<and>
      mset (entries tbl') = mset (entries tbl) + mset (map (\<lambda>t. (t, False)) ts)) \<or>
    build_table ops sc i cap (map (row_bytes ops sc) ts) used tbl = Inr None"
  using assms
proof (induction ts arbitrary: used tbl)
  case (Cons t ts)
  have t: "bucket_row ops ty w i sc t" using Cons.prems(1) by simp
  let ?tbl = "table_push (row_code ops i t) (t, False) tbl"
  have ok: "table_ok (row_code ops i) ?tbl" "mset (entries ?tbl) = add_mset (t, False) (mset (entries tbl))"
    using table_push_ok [OF Cons.prems(2) refl] by blast+
  show ?case using Cons.IH [OF _ ok(1), of "used + length (row_bytes ops sc t)"] Cons.prems(1) ok(2) bucket_rowD(3,5) [OF t]
    by (auto simp: Let_def)
qed simp

text \<open>What probing the rows \<open>T\<close> against the entries \<open>E\<close> gives: the output of every row, then the entries
  that stay unmatched.\<close>

definition probe_out ::
    "hash_join_params \<Rightarrow> bool \<Rightarrow> (('j, 'd) row \<Rightarrow> bytes) \<Rightarrow> (('j, 'd) row \<Rightarrow> bytes) \<Rightarrow> ('j, 'd) build_entry list \<Rightarrow> ('j, 'd) row \<Rightarrow> ('j, 'd) row list" where
  "probe_out params bil bk pk E t =
    (let out = map (\<lambda>(e, _). if bil then e @ t else t @ e) (filter (\<lambda>(e, _). bk e = pk t) E) in
     if out \<noteq> [] then out
     else if bil then (if keeps_right (hj_type params) then [pad_left (hj_left_width params) t] else [])
     else if keeps_left (hj_type params) then [pad_right t (hj_right_width params)] else [])"

definition probe_tail ::
    "hash_join_params \<Rightarrow> bool \<Rightarrow> (('j, 'd) row \<Rightarrow> bytes) \<Rightarrow> (('j, 'd) row \<Rightarrow> bytes) \<Rightarrow> ('j, 'd) build_entry list \<Rightarrow> ('j, 'd) row list \<Rightarrow> ('j, 'd) row list" where
  "probe_tail params bil bk pk E T =
    (if (if bil then keeps_left (hj_type params) else keeps_right (hj_type params))
     then map (\<lambda>(e, _). if bil then pad_right e (hj_right_width params) else pad_left (hj_left_width params) e)
       (filter (\<lambda>(e, m). \<not> m \<and> bk e \<notin> pk ` set T) E)
     else [])"

definition probe_left ::
    "hash_join_params \<Rightarrow> bool \<Rightarrow> (('j, 'd) row \<Rightarrow> bytes) \<Rightarrow> (('j, 'd) row \<Rightarrow> bytes) \<Rightarrow> ('j, 'd) build_entry list \<Rightarrow> ('j, 'd) row list \<Rightarrow> ('j, 'd) row multiset" where
  "probe_left params bil bk pk E T = mset (concat (map (probe_out params bil bk pk E) T)) + mset (probe_tail params bil bk pk E T)"

lemma probe_left_step:
  "probe_left params bil bk pk E (t # T) =
    mset (probe_out params bil bk pk E t) + probe_left params bil bk pk (map (\<lambda>(e, m). (e, m \<or> bk e = pk t)) E) T"
proof -
  let ?E = "map (\<lambda>(e, m). (e, m \<or> bk e = pk t)) E"
  have "filter (\<lambda>(e, _). bk e = k) ?E = map (\<lambda>(e, m). (e, m \<or> bk e = pk t)) (filter (\<lambda>(e, _). bk e = k) E)" for k
    by (induction E) auto
  then have "probe_out params bil bk pk ?E = probe_out params bil bk pk E"
    by (intro ext) (simp add: probe_out_def Let_def case_prod_beta comp_def)
  moreover have "probe_tail params bil bk pk ?E T = probe_tail params bil bk pk E (t # T)"
  proof -
    have "filter (\<lambda>(e, m). \<not> m \<and> bk e \<notin> pk ` set T) ?E = filter (\<lambda>(e, m). \<not> m \<and> bk e \<notin> pk ` set (t # T)) E"
      by (induction E) auto
    then show ?thesis unfolding probe_tail_def by simp
  qed
  ultimately show ?thesis by (simp add: probe_left_def add.assoc)
qed

lemma concat_map_mset_cong: "(\<And>t. mset (f t) = mset (g t)) \<Longrightarrow> mset (concat (map f T)) = mset (concat (map g T))"
  by (induction T) simp_all

lemma probe_left_mset:
  assumes "mset E = mset E'"
  shows "probe_left params bil bk pk E T = probe_left params bil bk pk E' T"
proof -
  have f: "mset (filter Q E) = mset (filter Q E')" for Q using assms by simp
  have "mset (probe_out params bil bk pk E t) = mset (probe_out params bil bk pk E' t)" for t
  proof -
    have "filter (\<lambda>(e, _). bk e = pk t) E = [] \<longleftrightarrow> filter (\<lambda>(e, _). bk e = pk t) E' = []"
      using f [of "\<lambda>(e, _). bk e = pk t"] by (metis mset_zero_iff_right)
    then show ?thesis using f [of "\<lambda>(e, _). bk e = pk t"] by (simp add: probe_out_def Let_def)
  qed
  moreover have "mset (probe_tail params bil bk pk E T) = mset (probe_tail params bil bk pk E' T)"
    using f [of "\<lambda>(e, m). \<not> m \<and> bk e \<notin> pk ` set T"] unfolding probe_tail_def by simp
  ultimately show ?thesis by (simp add: probe_left_def concat_map_mset_cong [of "probe_out params bil bk pk E" "probe_out params bil bk pk E'"])
qed

lemma key_pairs_right_major: "mset (concat (map (\<lambda>r. map (\<lambda>l. l @ r) (filter (\<lambda>l. f l = g r) ls)) rs)) = mset (key_pairs f g ls rs)"
proof (induction ls)
  case Nil
  show ?case by (induction rs) (simp_all add: key_pairs_def)
next
  case (Cons l ls)
  have "mset (concat (map (\<lambda>r. map (\<lambda>l. l @ r) (filter (\<lambda>l. f l = g r) (l # ls))) rs))
      = mset (map (\<lambda>r. l @ r) (filter (\<lambda>r. f l = g r) rs)) + mset (concat (map (\<lambda>r. map (\<lambda>l. l @ r) (filter (\<lambda>l. f l = g r) ls)) rs))"
    by (induction rs) auto
  then show ?case using Cons by (simp add: key_pairs_def)
qed

lemma concat_or_else:
  "mset (concat (map (\<lambda>t. if f t \<noteq> [] then f t else if c then [p t] else []) T)) =
    mset (concat (map f T)) + (if c then mset (map p (filter (\<lambda>t. f t = []) T)) else {#})"
  by (induction T) auto

text \<open>Probing a complete table gives the join, whichever side was built.\<close>

lemma probe_left_join:
  assumes "mset E = mset (map (\<lambda>t. (t, False)) B)"
  shows "probe_left params bil bk pk E T =
    (if bil then key_join bk pk (hj_type params) (hj_left_width params) (hj_right_width params) B T
     else key_join pk bk (hj_type params) (hj_left_width params) (hj_right_width params) T B)"
proof -
  let ?E = "map (\<lambda>t. (t, False)) B" and ?jt = "hj_type params"
  have m: "map (\<lambda>(e, _). F e) (filter (\<lambda>(e, _). bk e = k) ?E) = map F (filter (\<lambda>e. bk e = k) B)" for F :: "_ \<Rightarrow> ('a, 'b) row" and k
    by (induction B) auto
  have none: "filter (\<lambda>e. bk e = pk t) B = [] \<longleftrightarrow> pk t \<notin> bk ` set B" "filter (\<lambda>e. pk t = bk e) B = [] \<longleftrightarrow> pk t \<notin> bk ` set B" for t
    by (force simp: filter_empty_conv)+
  have E: "probe_left params bil bk pk E T = probe_left params bil bk pk ?E T" by (rule probe_left_mset [OF assms])
  have t: "map (\<lambda>(e, _). F e) (filter (\<lambda>(e, m). \<not> m \<and> bk e \<notin> pk ` set T) ?E) = map F (filter (\<lambda>e. bk e \<notin> pk ` set T) B)" for F :: "_ \<Rightarrow> ('a, 'b) row"
    by (induction B) auto
  show ?thesis
  proof (cases bil)
    case True
    have "mset (concat (map (probe_out params bil bk pk ?E) T)) =
        mset (key_pairs bk pk B T) + (if keeps_right ?jt then mset (map (pad_left (hj_left_width params)) (filter (\<lambda>t. pk t \<notin> bk ` set B) T)) else {#})"
      using concat_or_else [of "\<lambda>t. map (\<lambda>e. e @ t) (filter (\<lambda>e. bk e = pk t) B)" "keeps_right ?jt" "pad_left (hj_left_width params)" T]
      unfolding probe_out_def Let_def m using True by (simp only: key_pairs_right_major map_is_Nil_conv none if_True)
    then show ?thesis using True unfolding E unfolding probe_left_def key_join_def probe_tail_def t by (simp add: ac_simps)
  next
    case False
    have "mset (concat (map (probe_out params bil bk pk ?E) T)) =
        mset (key_pairs pk bk T B) + (if keeps_left ?jt then mset (map (\<lambda>t. pad_right t (hj_right_width params)) (filter (\<lambda>t. pk t \<notin> bk ` set B) T)) else {#})"
      using concat_or_else [of "\<lambda>t. map (\<lambda>e. t @ e) (filter (\<lambda>e. bk e = pk t) B)" "keeps_left ?jt" "\<lambda>t. pad_right t (hj_right_width params)" T]
      unfolding probe_out_def Let_def m using False by (simp only: key_pairs_def map_is_Nil_conv none if_False eq_commute [of "bk _"])
    then show ?thesis using False unfolding E unfolding probe_left_def key_join_def probe_tail_def t by simp
  qed
qed

section \<open>The probe state\<close>

definition left_row :: "('j, 'd, 'x) expr_ops_scheme \<Rightarrow> logical_type \<Rightarrow> hash_join_params \<Rightarrow> ('j, 'd) row \<Rightarrow> bool" where
  "left_row ops ty params = bucket_row ops ty (hj_left_width params) (hj_left_key params) (hj_left_schema params)"

definition right_row :: "('j, 'd, 'x) expr_ops_scheme \<Rightarrow> logical_type \<Rightarrow> hash_join_params \<Rightarrow> ('j, 'd) row \<Rightarrow> bool" where
  "right_row ops ty params = bucket_row ops ty (hj_right_width params) (hj_right_key params) (hj_right_schema params)"

definition build_code :: "('j, 'd, 'x) expr_ops_scheme \<Rightarrow> hash_join_params \<Rightarrow> bool \<Rightarrow> ('j, 'd) row \<Rightarrow> bytes" where
  "build_code ops params bil = row_code ops (snd (build_of params bil))"

definition probe_code :: "('j, 'd, 'x) expr_ops_scheme \<Rightarrow> hash_join_params \<Rightarrow> bool \<Rightarrow> ('j, 'd) row \<Rightarrow> bytes" where
  "probe_code ops params bil = row_code ops (snd (probe_of params bil))"

text \<open>\<open>M\<close> is what the probe state still gives.\<close>

definition probe_todo :: "('j, 'd, 'x) expr_ops_scheme \<Rightarrow> logical_type \<Rightarrow> hash_join_params \<Rightarrow> ('j, 'd) probe \<Rightarrow> ('j, 'd) row multiset \<Rightarrow> bool" where
  "probe_todo ops ty params p M \<longleftrightarrow>
    (case pr_unmatched p of
       Some tail \<Rightarrow> M = mset (pr_pending p) + mset tail
     | None \<Rightarrow> \<exists>T. pr_cursor p = map (row_bytes ops (fst (probe_of params (pr_build_is_left p)))) T \<and>
         (\<forall>t\<in>set T. (if pr_build_is_left p then right_row else left_row) ops ty params t) \<and>
         table_ok (build_code ops params (pr_build_is_left p)) (pr_table p) \<and>
         M = mset (pr_pending p) + probe_left params (pr_build_is_left p) (build_code ops params (pr_build_is_left p))
           (probe_code ops params (pr_build_is_left p)) (entries (pr_table p)) T)"

lemma probe_todo_pending:
  assumes "probe_todo ops ty params p M" "pr_pending p = t # ts"
  obtains M' where "M = add_mset t M'" "probe_todo ops ty params (p\<lparr>pr_pending := ts\<rparr>) M'"
proof (cases "pr_unmatched p")
  case None
  then obtain T where T: "pr_cursor p = map (row_bytes ops (fst (probe_of params (pr_build_is_left p)))) T"
    "\<forall>t\<in>set T. (if pr_build_is_left p then right_row else left_row) ops ty params t"
    "table_ok (build_code ops params (pr_build_is_left p)) (pr_table p)"
    "M = mset (t # ts) + probe_left params (pr_build_is_left p) (build_code ops params (pr_build_is_left p))
       (probe_code ops params (pr_build_is_left p)) (entries (pr_table p)) T"
    using assms by (auto simp: probe_todo_def)
  show thesis
    by (rule that [of "mset ts + probe_left params (pr_build_is_left p) (build_code ops params (pr_build_is_left p))
       (probe_code ops params (pr_build_is_left p)) (entries (pr_table p)) T"])
      (use T None in \<open>auto simp: probe_todo_def intro!: exI [of _ T]\<close>)
next
  case (Some tail)
  then show thesis using that [of "mset ts + mset tail"] assms by (auto simp: probe_todo_def)
qed

lemma probe_todo_tail:
  assumes "probe_todo ops ty params p M" "pr_pending p = []"
  shows "pr_unmatched p = Some [] \<Longrightarrow> M = {#}"
    and "pr_unmatched p = Some (t # ts) \<Longrightarrow> \<exists>M'. M = add_mset t M' \<and> probe_todo ops ty params (p\<lparr>pr_unmatched := Some ts\<rparr>) M'"
  using assms by (simp_all add: probe_todo_def)

text \<open>Probing one row.\<close>

lemma probe_one_ok:
  assumes "table_ok (build_code ops params (pr_build_is_left p)) (pr_table p)"
    "(if pr_build_is_left p then right_row else left_row) ops ty params t"
  shows "probe_one ops params p (row_bytes ops (fst (probe_of params (pr_build_is_left p))) t) =
    Inr (p\<lparr>pr_table := table_mark (probe_code ops params (pr_build_is_left p) t) (pr_table p),
      pr_pending := probe_out params (pr_build_is_left p) (build_code ops params (pr_build_is_left p)) (probe_code ops params (pr_build_is_left p)) (entries (pr_table p)) t\<rparr>)"
proof -
  obtain sc key where sc: "probe_of params (pr_build_is_left p) = (sc, key)" by fastforce
  have "\<exists>w. bucket_row ops ty w key sc t"
    using assms(2) sc by (auto simp: probe_of_def left_row_def right_row_def split: if_splits)
  then have t: "decode_row ops sc (row_bytes ops sc t) = Inr t" "row_key ops key t = Inr (row_code ops key t)"
    using bucket_rowD(3,5) by blast+
  show ?thesis
    using table_lookup [OF assms(1), of "row_code ops key t"]
    by (simp add: probe_one_def sc t Let_def probe_out_def probe_code_def case_prod_beta)
qed

lemma probe_todo_probe:
  assumes "probe_todo ops ty params p M" "pr_pending p = []" "pr_unmatched p = None" "pr_cursor p = b # bs"
  obtains p' where "probe_one ops params (p\<lparr>pr_cursor := bs\<rparr>) b = Inr p'" "probe_todo ops ty params p' M"
proof -
  let ?bil = "pr_build_is_left p" and ?bk = "build_code ops params (pr_build_is_left p)" and ?pk = "probe_code ops params (pr_build_is_left p)"
  obtain t T where T: "b = row_bytes ops (fst (probe_of params ?bil)) t" "bs = map (row_bytes ops (fst (probe_of params ?bil))) T"
    "\<forall>t\<in>set (t # T). (if ?bil then right_row else left_row) ops ty params t" "table_ok ?bk (pr_table p)"
    "M = probe_left params ?bil ?bk ?pk (entries (pr_table p)) (t # T)"
    using assms by (auto simp: probe_todo_def)
  show thesis
  proof (rule that)
    show "probe_one ops params (p\<lparr>pr_cursor := bs\<rparr>) b =
        Inr (p\<lparr>pr_cursor := bs, pr_table := table_mark (?pk t) (pr_table p), pr_pending := probe_out params ?bil ?bk ?pk (entries (pr_table p)) t\<rparr>)"
      using probe_one_ok [of ops params "p\<lparr>pr_cursor := bs\<rparr>" ty t] T by simp
    show "probe_todo ops ty params (p\<lparr>pr_cursor := bs, pr_table := table_mark (?pk t) (pr_table p), pr_pending := probe_out params ?bil ?bk ?pk (entries (pr_table p)) t\<rparr>) M"
      using T assms(3) table_mark_ok [OF T(4), of "?pk t"] by (auto simp: probe_todo_def probe_left_step intro!: exI [of _ T])
  qed
qed

lemma probe_todo_drained:
  assumes "probe_todo ops ty params p M" "pr_pending p = []" "pr_unmatched p = None" "pr_cursor p = []"
    "unmatched_build_tail params p = (tail, tbl)"
  shows "probe_todo ops ty params (p\<lparr>pr_unmatched := Some tail, pr_table := tbl\<rparr>) M"
  using assms by (auto simp: probe_todo_def probe_left_def probe_tail_def unmatched_build_tail_def Let_def entries_def split: if_splits)

lemma probe_new_todo:
  assumes "table_ok (build_code ops params bil) tbl" "mset (entries tbl) = mset (map (\<lambda>t. (t, False)) B)"
    "\<forall>t\<in>set T. (if bil then right_row else left_row) ops ty params t"
  shows "probe_todo ops ty params (probe_new tbl bil (map (row_bytes ops (fst (probe_of params bil))) T))
    (key_join (row_code ops (hj_left_key params)) (row_code ops (hj_right_key params)) (hj_type params) (hj_left_width params) (hj_right_width params)
      (if bil then B else T) (if bil then T else B))"
  using assms(1,3) probe_left_join [OF assms(2), of params bil "build_code ops params bil" "probe_code ops params bil" T]
  by (auto simp: probe_todo_def probe_new_def build_code_def probe_code_def build_of_def probe_of_def intro!: exI [of _ T])

section \<open>Bucket pairs\<close>

definition pair_join :: "('j, 'd, 'x) expr_ops_scheme \<Rightarrow> hash_join_params \<Rightarrow> ('j, 'd) row list \<times> ('j, 'd) row list \<Rightarrow> ('j, 'd) row multiset" where
  "pair_join ops params = (\<lambda>(L, R). key_join (row_code ops (hj_left_key params)) (row_code ops (hj_right_key params)) (hj_type params)
     (hj_left_width params) (hj_right_width params) L R)"

text \<open>The two workspaces of a pair hold these rows.\<close>

definition pair_ok ::
    "(nat \<Rightarrow> 'w \<Rightarrow> bytes list \<Rightarrow> bool) \<Rightarrow> nat \<Rightarrow> ('j, 'd, 'x) expr_ops_scheme \<Rightarrow> logical_type \<Rightarrow> hash_join_params \<Rightarrow> 'w \<times> 'w \<times> nat
     \<Rightarrow> ('j, 'd) row list \<times> ('j, 'd) row list \<Rightarrow> bool" where
  "pair_ok holds capacity ops ty params = (\<lambda>(l, r, _) (L, R).
    rows_held holds capacity ops (hj_left_schema params) l L \<and> rows_held holds capacity ops (hj_right_schema params) r R \<and>
    (\<forall>t\<in>set L. left_row ops ty params t) \<and> (\<forall>t\<in>set R. right_row ops ty params t) \<and> length L \<le> capacity \<and> length R \<le> capacity)"

lemma routed_length: "length (routed ops xxh3 i level n ts j) \<le> length ts"
  by (simp add: routed_def)

lemma set_routed: "t \<in> set (routed ops xxh3 i level n ts j) \<Longrightarrow> t \<in> set ts"
  by (simp add: routed_def)

lemma pair_join_routed:
  assumes "0 < n"
  shows "sum_list (map (\<lambda>j. pair_join ops params (routed ops xxh3 (hj_left_key params) level n L j, routed ops xxh3 (hj_right_key params) level n R j)) [0..<n])
    = pair_join ops params (L, R)"
  using key_join_parts [of L "\<lambda>k. bucket xxh3 k level n" "row_code ops (hj_left_key params)" n R "row_code ops (hj_right_key params)"] bucket_less [OF assms]
  by (simp add: pair_join_def routed_def interv_sum_list_conv_sum_set_nat atLeast0LessThan)

context workspace
begin

lemma routed_pairs_ok:
  assumes "pair_ok holds capacity ops ty params (l, r, level) (L, R)" "length lsub = n" "length rsub = n"
    "\<forall>j<n. rows_held holds capacity ops (hj_left_schema params) (lsub ! j) (routed ops xxh3 (hj_left_key params) (Suc level) n L j)"
    "\<forall>j<n. rows_held holds capacity ops (hj_right_schema params) (rsub ! j) (routed ops xxh3 (hj_right_key params) (Suc level) n R j)"
  shows "list_all2 (pair_ok holds capacity ops ty params) (map (\<lambda>(l, r). (l, r, level')) (zip lsub rsub))
    (map (\<lambda>j. (routed ops xxh3 (hj_left_key params) (Suc level) n L j, routed ops xxh3 (hj_right_key params) (Suc level) n R j)) [0..<n])"
  using assms
  by (auto simp: list_all2_conv_all_nth pair_ok_def dest: set_routed intro: order_trans [OF routed_length])

lemma open_pair_ok:
  assumes pair: "pair_ok holds capacity ops ty params (l, r, level) (L, R)"
    and n: "0 < jc_hash_partitions (hj_config params)" and new: "ws_new ws = Inr w0"
  shows "(\<exists>p. open_pair ops ws xxh3 params (l, r, level) = Inr (Inl p) \<and> probe_todo ops ty params p (pair_join ops params (L, R))) \<or>
    (\<exists>subs SL. open_pair ops ws xxh3 params (l, r, level) = Inr (Inr subs) \<and> list_all2 (pair_ok holds capacity ops ty params) subs SL \<and>
      sum_list (map (pair_join ops params) SL) = pair_join ops params (L, R))"
proof -
  let ?n = "jc_hash_partitions (hj_config params)"
  define bil where "bil = (ws_used ws l \<le> ws_used ws r)"
  define B T bws pws where "B = (if bil then L else R)" and "T = (if bil then R else L)"
    and "bws = (if bil then l else r)" and "pws = (if bil then r else l)"
  obtain bsc bkey where b: "build_of params bil = (bsc, bkey)" by fastforce
  obtain psc pkey where p: "probe_of params bil = (psc, pkey)" by fastforce
  define cap where "cap = (if level < MAX_REPARTITION_LEVELS then Some (jc_build_budget (hj_config params)) else None)"
  have held: "rows_held holds capacity ops bsc bws B" "rows_held holds capacity ops psc pws T"
    and rows: "\<exists>w. \<forall>t\<in>set B. bucket_row ops ty w bkey bsc t" "\<exists>w. \<forall>t\<in>set T. bucket_row ops ty w pkey psc t"
    and len: "length B \<le> capacity" "length T \<le> capacity"
    and side: "\<forall>t\<in>set T. (if bil then right_row else left_row) ops ty params t"
    using pair b p by (auto simp: pair_ok_def B_def T_def bws_def pws_def build_of_def probe_of_def left_row_def right_row_def split: if_splits)
  obtain bws' where bws': "replay ws bws = Inr (map (row_bytes ops bsc) B, bws')" "rows_held holds capacity ops bsc bws' B"
    by (rule rows_held_replay [OF held(1)])
  obtain pws' where pws': "replay ws pws = Inr (map (row_bytes ops psc) T, pws')" by (rule rows_held_replay [OF held(2)])
  have op: "open_pair ops ws xxh3 params (l, r, level) =
      res_bind (build_table ops bsc bkey cap (map (row_bytes ops bsc) B) 0 []) (\<lambda>built.
        case built of
          Some tbl \<Rightarrow> Inr (Inl (probe_new tbl bil (map (row_bytes ops psc) T)))
        | None \<Rightarrow>
            res_bind (repartition ops ws xxh3 bws' bkey bsc (Suc level) ?n) (\<lambda>bsub.
            res_bind (repartition ops ws xxh3 pws pkey psc (Suc level) ?n) (\<lambda>psub.
              Inr (Inr (map (\<lambda>(b, p). (if bil then b else p, if bil then p else b, Suc level)) (zip bsub psub))))))"
    using bws'(1) pws' b p by (auto simp: open_pair_def Let_def res_map_def bil_def [symmetric] bws_def pws_def cap_def split: if_splits option.splits
      intro!: arg_cong2 [where f = res_bind] ext)
  obtain w where w: "\<forall>t\<in>set B. bucket_row ops ty w bkey bsc t" using rows(1) by blast
  have tok: "table_ok (row_code ops bkey) []" by (simp add: table_ok_def)
  from build_table_ok [OF w tok, of cap 0] show ?thesis
  proof (elim disjE exE conjE)
    fix tbl assume tbl: "build_table ops bsc bkey cap (map (row_bytes ops bsc) B) 0 [] = Inr (Some tbl)" "table_ok (row_code ops bkey) tbl"
      "mset (entries tbl) = mset (entries []) + mset (map (\<lambda>t. (t, False)) B)"
    have "probe_todo ops ty params (probe_new tbl bil (map (row_bytes ops psc) T)) (pair_join ops params (L, R))"
      using probe_new_todo [of ops params bil tbl B T ty] tbl(2,3) side
      by (simp add: build_code_def b p pair_join_def B_def T_def split: if_splits)
    then show ?thesis using op tbl(1) by simp
  next
    assume none: "build_table ops bsc bkey cap (map (row_bytes ops bsc) B) 0 [] = Inr None"
    obtain bsub where bsub: "repartition ops ws xxh3 bws' bkey bsc (Suc level) ?n = Inr bsub" "length bsub = ?n"
      "\<forall>j<?n. rows_held holds capacity ops bsc (bsub ! j) (routed ops xxh3 bkey (Suc level) ?n B j)"
      by (rule repartition_ok [OF bws'(2) w len(1) n new])
    obtain w' where "\<forall>t\<in>set T. bucket_row ops ty w' pkey psc t" using rows(2) by blast
    then obtain psub where psub: "repartition ops ws xxh3 pws pkey psc (Suc level) ?n = Inr psub" "length psub = ?n"
      "\<forall>j<?n. rows_held holds capacity ops psc (psub ! j) (routed ops xxh3 pkey (Suc level) ?n T j)"
      by (rule repartition_ok [OF held(2) _ len(2) n new])
    define lsub rsub where "lsub = (if bil then bsub else psub)" and "rsub = (if bil then psub else bsub)"
    have subs: "map (\<lambda>(b, p). (if bil then b else p, if bil then p else b, Suc level)) (zip bsub psub) = map (\<lambda>(l, r). (l, r, Suc level)) (zip lsub rsub)"
      using bsub(2) psub(2) by (auto simp: lsub_def rsub_def list_eq_iff_nth_eq)
    have "list_all2 (pair_ok holds capacity ops ty params) (map (\<lambda>(l, r). (l, r, Suc level)) (zip lsub rsub))
        (map (\<lambda>j. (routed ops xxh3 (hj_left_key params) (Suc level) ?n L j, routed ops xxh3 (hj_right_key params) (Suc level) ?n R j)) [0..<?n])"
      by (rule routed_pairs_ok [OF pair])
        (use bsub(2,3) psub(2,3) b p in \<open>auto simp: lsub_def rsub_def B_def T_def build_of_def probe_of_def split: if_splits\<close>)
    moreover have "sum_list (map (pair_join ops params)
        (map (\<lambda>j. (routed ops xxh3 (hj_left_key params) (Suc level) ?n L j, routed ops xxh3 (hj_right_key params) (Suc level) ?n R j)) [0..<?n]))
        = pair_join ops params (L, R)"
      using pair_join_routed [OF n, of ops params xxh3 "Suc level" L R] by (simp add: comp_def)
    ultimately show ?thesis using op none bsub(1) psub(1) subs by auto
  qed
qed

lemma build_next_pair_ok:
  assumes "list_all2 (pair_ok holds capacity ops ty params) work WL" "0 < jc_hash_partitions (hj_config params)" "ws_new ws = Inr w0"
  shows "\<exists>r work'. build_next_pair ops ws xxh3 params work = (Inr r, work') \<and>
    (case r of None \<Rightarrow> work' = [] \<and> sum_list (map (pair_join ops params) WL) = {#}
     | Some p \<Rightarrow> \<exists>WL' M. list_all2 (pair_ok holds capacity ops ty params) work' WL' \<and> probe_todo ops ty params p M \<and>
         M + sum_list (map (pair_join ops params) WL') = sum_list (map (pair_join ops params) WL))"
  using assms
proof (induction "work_weight (jc_hash_partitions (hj_config params)) work" arbitrary: work WL rule: less_induct)
  case less
  let ?n = "jc_hash_partitions (hj_config params)" and ?ok = "pair_ok holds capacity ops ty params" and ?J = "pair_join ops params"
  show ?case
  proof (cases work)
    case Nil
    then show ?thesis using less.prems(1) by simp
  next
    case (Cons pair work1)
    obtain l r level where pair: "pair = (l, r, level)" by (cases pair) auto
    obtain L R WL1 where WL: "WL = (L, R) # WL1" "?ok (l, r, level) (L, R)" "list_all2 ?ok work1 WL1"
      using less.prems(1) by (auto simp: Cons pair list_all2_Cons1)
    from open_pair_ok [OF WL(2) assms(2,3), of xxh3] show ?thesis
    proof (elim disjE exE conjE)
      fix p assume p: "open_pair ops ws xxh3 params (l, r, level) = Inr (Inl p)" "probe_todo ops ty params p (?J (L, R))"
      then have "build_next_pair ops ws xxh3 params work = (Inr (Some p), work1)" by (simp add: Cons pair build_next_pair.simps(2))
      then show ?thesis using p(2) WL by auto
    next
      fix subs SL assume sub: "open_pair ops ws xxh3 params (l, r, level) = Inr (Inr subs)" "list_all2 ?ok subs SL"
        "sum_list (map ?J SL) = ?J (L, R)"
      have lighter: "work_weight ?n (rev subs @ work1) < work_weight ?n work"
        unfolding Cons pair by (rule open_pair_lighter [OF sub(1)])
      have ok: "list_all2 ?ok (rev subs @ work1) (rev SL @ WL1)" using sub(2) WL(3) by (simp add: list_all2_appendI)
      have "sum_list (map ?J (rev SL @ WL1)) = sum_list (map ?J WL)"
        using sub(3) WL(1) by (simp add: rev_map [symmetric] sum_list_rev)
      moreover have "build_next_pair ops ws xxh3 params work = build_next_pair ops ws xxh3 params (rev subs @ work1)"
        using sub(1) by (simp add: Cons pair build_next_pair.simps(2))
      ultimately show ?thesis using less.hyps [OF lighter ok assms(2,3)] by (simp only:)
    qed
  qed
qed

end

section \<open>The stream\<close>

text \<open>The rows with a NULL key, which only the outer sides keep.\<close>

definition null_rows :: "hash_join_params \<Rightarrow> ('j, 'd) row list \<Rightarrow> ('j, 'd) row list \<Rightarrow> ('j, 'd) row multiset" where
  "null_rows params lns rns =
    (if keeps_left (hj_type params) then mset (map (\<lambda>t. pad_right t (hj_right_width params)) lns) else {#})
    + (if keeps_right (hj_type params) then mset (map (pad_left (hj_left_width params)) rns) else {#})"

text \<open>\<open>M\<close> is what the stream still gives.\<close>

definition stream_todo ::
    "(nat \<Rightarrow> 'w \<Rightarrow> bytes list \<Rightarrow> bool) \<Rightarrow> nat \<Rightarrow> ('j, 'd, 'x) expr_ops_scheme \<Rightarrow> logical_type \<Rightarrow> hash_join_params \<Rightarrow> ('w, 'j, 'd) grace_stream
     \<Rightarrow> ('j, 'd) row multiset \<Rightarrow> bool" where
  "stream_todo holds capacity ops ty params s M \<longleftrightarrow> \<not> gs_failed s \<and>
    (\<exists>WL C. list_all2 (pair_ok holds capacity ops ty params) (gs_worklist s) WL \<and>
      (case gs_current s of None \<Rightarrow> C = {#} | Some p \<Rightarrow> probe_todo ops ty params p C) \<and>
      M = C + sum_list (map (pair_join ops params) WL) + null_rows params (gs_left_nulls s) (gs_right_nulls s))"

lemma stream_todo_current:
  assumes "stream_todo holds capacity ops ty params s M" "gs_current s = Some p"
  obtains C D where "M = C + D" "probe_todo ops ty params p C" "\<not> gs_failed s"
    "\<forall>p' C'. probe_todo ops ty params p' C' \<longrightarrow> stream_todo holds capacity ops ty params (s\<lparr>gs_current := Some p'\<rparr>) (C' + D)"
    "stream_todo holds capacity ops ty params (s\<lparr>gs_current := None\<rparr>) D"
proof -
  obtain WL C where w: "\<not> gs_failed s" "list_all2 (pair_ok holds capacity ops ty params) (gs_worklist s) WL" "probe_todo ops ty params p C"
    "M = C + (sum_list (map (pair_join ops params) WL) + null_rows params (gs_left_nulls s) (gs_right_nulls s))"
    using assms by (auto simp: stream_todo_def ac_simps)
  show thesis
    by (rule that [OF w(4,3,1)]) (use w in \<open>auto simp: stream_todo_def ac_simps intro!: exI [of _ WL]\<close>)
qed

context workspace
begin

lemma grace_turn_current:
  assumes todo: "stream_todo holds capacity ops ty params s M" and cur: "gs_current s = Some p"
  shows "case grace_turn ops ws xxh3 params s of
      Again s' \<Rightarrow> stream_todo holds capacity ops ty params s' M
    | Yield r s' \<Rightarrow> \<exists>t M'. r = Inr t \<and> M = add_mset t M' \<and> stream_todo holds capacity ops ty params s' M'
    | Finished s' \<Rightarrow> False"
proof -
  obtain C D where M: "M = C + D" "probe_todo ops ty params p C" "\<not> gs_failed s"
    and next_probe: "\<forall>p' C'. probe_todo ops ty params p' C' \<longrightarrow> stream_todo holds capacity ops ty params (s\<lparr>gs_current := Some p'\<rparr>) (C' + D)"
    and next_pair: "stream_todo holds capacity ops ty params (s\<lparr>gs_current := None\<rparr>) D"
    by (rule stream_todo_current [OF todo cur])
  show ?thesis
  proof (cases "pr_pending p")
    case (Cons t ts)
    obtain C' where "C = add_mset t C'" "probe_todo ops ty params (p\<lparr>pr_pending := ts\<rparr>) C'"
      by (rule probe_todo_pending [OF M(2) Cons])
    then show ?thesis using M(1,3) next_probe cur Cons by (auto simp: grace_turn_def intro!: exI [of _ "C' + D"])
  next
    case pend: Nil
    show ?thesis
    proof (cases "pr_unmatched p")
      case (Some tail)
      show ?thesis
      proof (cases tail)
        case Nil
        then have "C = {#}" using probe_todo_tail(1) [OF M(2) pend] Some by simp
        then show ?thesis using M(1,3) next_pair cur pend Some Nil by (simp add: grace_turn_def)
      next
        case (Cons t ts)
        then obtain C' where "C = add_mset t C'" "probe_todo ops ty params (p\<lparr>pr_unmatched := Some ts\<rparr>) C'"
          using probe_todo_tail(2) [OF M(2) pend] Some by blast
        then show ?thesis using M(1,3) next_probe cur pend Some Cons by (auto simp: grace_turn_def intro!: exI [of _ "C' + D"])
      qed
    next
      case None
      show ?thesis
      proof (cases "pr_cursor p")
        case Nil
        obtain tail tbl where t: "unmatched_build_tail params p = (tail, tbl)" by fastforce
        show ?thesis using probe_todo_drained [OF M(2) pend None Nil t] M(1,3) next_probe cur pend None Nil t by (simp add: grace_turn_def)
      next
        case (Cons b bs)
        obtain p' where "probe_one ops params (p\<lparr>pr_cursor := bs\<rparr>) b = Inr p'" "probe_todo ops ty params p' C"
          by (rule probe_todo_probe [OF M(2) pend None Cons])
        then show ?thesis using M(1,3) next_probe cur pend None Cons by (simp add: grace_turn_def)
      qed
    qed
  qed
qed

lemma grace_turn_next:
  assumes todo: "stream_todo holds capacity ops ty params s M" and cur: "gs_current s = None"
    and n: "0 < jc_hash_partitions (hj_config params)" and new: "ws_new ws = Inr w0"
  shows "case grace_turn ops ws xxh3 params s of
      Again s' \<Rightarrow> stream_todo holds capacity ops ty params s' M
    | Yield r s' \<Rightarrow> \<exists>t M'. r = Inr t \<and> M = add_mset t M' \<and> stream_todo holds capacity ops ty params s' M'
    | Finished s' \<Rightarrow> M = {#}"
proof -
  let ?N = "null_rows params (gs_left_nulls s) (gs_right_nulls s)"
  obtain WL where w: "\<not> gs_failed s" "list_all2 (pair_ok holds capacity ops ty params) (gs_worklist s) WL"
    "M = sum_list (map (pair_join ops params) WL) + ?N"
    using todo cur by (auto simp: stream_todo_def)
  obtain r work' where b: "build_next_pair ops ws xxh3 params (gs_worklist s) = (Inr r, work')"
    "case r of None \<Rightarrow> work' = [] \<and> sum_list (map (pair_join ops params) WL) = {#}
     | Some p \<Rightarrow> \<exists>WL' M. list_all2 (pair_ok holds capacity ops ty params) work' WL' \<and> probe_todo ops ty params p M \<and>
         M + sum_list (map (pair_join ops params) WL') = sum_list (map (pair_join ops params) WL)"
    using build_next_pair_ok [OF w(2) n new, of xxh3] by blast
  show ?thesis
  proof (cases r)
    case (Some p)
    then obtain WL' C where "list_all2 (pair_ok holds capacity ops ty params) work' WL'" "probe_todo ops ty params p C"
      "M = C + sum_list (map (pair_join ops params) WL') + ?N" using b(2) w(3) by auto
    then show ?thesis using b(1) Some w(1) cur by (auto simp: grace_turn_def stream_todo_def)
  next
    case None
    then have M: "work' = []" "M = ?N" using b(2) w(3) by auto
    show ?thesis
    proof (cases "keeps_left (hj_type params) \<and> gs_left_nulls s \<noteq> []")
      case True
      then show ?thesis using b(1) None w(1) cur M by (cases "gs_left_nulls s") (auto simp: grace_turn_def stream_todo_def null_rows_def)
    next
      case no_left: False
      show ?thesis
      proof (cases "keeps_right (hj_type params) \<and> gs_right_nulls s \<noteq> []")
        case True
        then show ?thesis using b(1) None w(1) cur M no_left
          by (cases "gs_right_nulls s") (auto simp: grace_turn_def stream_todo_def null_rows_def)
      next
        case False
        then show ?thesis using b(1) None w(1) cur M no_left by (auto simp: grace_turn_def null_rows_def)
      qed
    qed
  qed
qed

lemma grace_rows_ok:
  assumes "0 < jc_hash_partitions (hj_config params)" "ws_new ws = Inr w0" "stream_todo holds capacity ops ty params s M"
  shows "\<exists>out. grace_rows ops ws xxh3 params s = Some (rows_stream out) \<and> mset out = M"
  using assms(3)
proof (induction s arbitrary: M rule: wf_induct [OF wf_grace_order [of params]])
  case (1 s)
  note IH = 1(1) [rule_format]
  have turn: "case grace_turn ops ws xxh3 params s of
      Again s' \<Rightarrow> stream_todo holds capacity ops ty params s' M
    | Yield r s' \<Rightarrow> \<exists>t M'. r = Inr t \<and> M = add_mset t M' \<and> stream_todo holds capacity ops ty params s' M'
    | Finished s' \<Rightarrow> M = {#}"
  proof (cases "gs_current s")
    case None
    then show ?thesis by (rule grace_turn_next [OF 1(2) _ assms(1,2)])
  next
    case (Some p)
    from grace_turn_current [OF 1(2) this, of xxh3] show ?thesis by (auto split: turn.splits)
  qed
  show ?case
  proof (cases "grace_turn ops ws xxh3 params s")
    case (Again s')
    then have "(s', s) \<in> grace_order params" using grace_turn_progress [of ops ws xxh3 params s s'] by simp
    then show ?thesis using IH turn Again grace_rows_turn(1) [OF Again] by simp
  next
    case (Yield r s')
    then obtain t M' where t: "r = Inr t" "M = add_mset t M'" "stream_todo holds capacity ops ty params s' M'" using turn by auto
    have "(s', s) \<in> grace_order params" using grace_turn_progress [of ops ws xxh3 params s s' r] Yield by simp
    then obtain out where "grace_rows ops ws xxh3 params s' = Some (rows_stream out)" "mset out = M'" using IH t(3) by blast
    then show ?thesis using t grace_rows_turn(2) [OF Yield] by (intro exI [of _ "t # out"]) (simp add: rows_stream_def)
  next
    case (Finished s')
    then show ?thesis using turn grace_rows_turn(3) [OF Finished] by (intro exI [of _ "[]"]) (simp add: rows_stream_def)
  qed
qed

end

section \<open>The join\<close>

lemma filter_split_mset: "mset (filter Q xs) = mset (filter Q (filter A xs)) + mset (filter Q (filter (\<lambda>x. \<not> A x) xs))"
  unfolding filter_filter by (induction xs) auto

text \<open>Rows that match nothing can be set aside.\<close>

lemma join_rows_aside:
  assumes "\<And>l r. l \<in> set ls \<Longrightarrow> r \<in> set rs \<Longrightarrow> P (l @ r) \<Longrightarrow> A l \<and> B r"
  shows "join_rows P jt lw rw ls rs = join_rows P jt lw rw (filter A ls) (filter B rs)
    + (if keeps_left jt then mset (map (\<lambda>l. pad_right l rw) (filter (\<lambda>l. \<not> A l) ls)) else {#})
    + (if keeps_right jt then mset (map (pad_left lw) (filter (\<lambda>r. \<not> B r) rs)) else {#})"
proof -
  have inner: "filter (\<lambda>r. P (l @ r)) rs = (if A l then filter (\<lambda>r. P (l @ r)) (filter B rs) else [])" if "l \<in> set ls" for l
    using assms [OF that] by (auto simp: filter_empty_conv intro!: filter_cong)
  have "pairs P ls' rs = pairs P (filter A ls') (filter B rs)" if "set ls' \<subseteq> set ls" for ls'
    using that
  proof (induction ls')
    case (Cons l ls')
    then show ?case using inner [of l] by (simp del: filter_filter)
  qed simp
  note this [OF order_refl]
  moreover have "mset (lone_left P ls rs) = mset (lone_left P (filter A ls) (filter B rs)) + mset (filter (\<lambda>l. \<not> A l) ls)"
  proof -
    have "filter (\<lambda>l. \<forall>r\<in>set rs. \<not> P (l @ r)) (filter A ls) = lone_left P (filter A ls) (filter B rs)"
      unfolding lone_left_def using assms by (intro filter_cong) auto
    moreover have "filter (\<lambda>l. \<forall>r\<in>set rs. \<not> P (l @ r)) (filter (\<lambda>l. \<not> A l) ls) = filter (\<lambda>l. \<not> A l) ls"
      by (rule filter_True) (use assms in auto)
    ultimately show ?thesis unfolding lone_left_def [of P ls rs] using filter_split_mset [of "\<lambda>l. \<forall>r\<in>set rs. \<not> P (l @ r)" ls A] by simp
  qed
  moreover have "mset (lone_right P ls rs) = mset (lone_right P (filter A ls) (filter B rs)) + mset (filter (\<lambda>r. \<not> B r) rs)"
  proof -
    have "filter (\<lambda>r. \<forall>l\<in>set ls. \<not> P (l @ r)) (filter B rs) = lone_right P (filter A ls) (filter B rs)"
      unfolding lone_right_def using assms by (intro filter_cong) auto
    moreover have "filter (\<lambda>r. \<forall>l\<in>set ls. \<not> P (l @ r)) (filter (\<lambda>r. \<not> B r) rs) = filter (\<lambda>r. \<not> B r) rs"
      by (rule filter_True) (use assms in auto)
    ultimately show ?thesis unfolding lone_right_def [of P ls rs] using filter_split_mset [of "\<lambda>r. \<forall>l\<in>set ls. \<not> P (l @ r)" rs B] by simp
  qed
  ultimately show ?thesis by (simp add: join_rows_def ac_simps)
qed

lemma equi_join_rows:
  assumes "equi_keys on lw = Inr (lk, rk)" "\<forall>l\<in>set ls. keyed_row ops ty lw lk l" "\<forall>r\<in>set rs. keyed_row ops ty rw rk r"
  shows "on_total ops on ls rs"
    and "join_rows (on_holds ops on) jt lw rw ls rs =
      key_join (row_code ops lk) (row_code ops rk) jt lw rw (filter (\<lambda>t. \<not> is_null (t ! lk)) ls) (filter (\<lambda>t. \<not> is_null (t ! rk)) rs)
      + (if keeps_left jt then mset (map (\<lambda>l. pad_right l rw) (filter (\<lambda>t. is_null (t ! lk)) ls)) else {#})
      + (if keeps_right jt then mset (map (pad_left lw) (filter (\<lambda>t. is_null (t ! rk)) rs)) else {#})"
proof -
  have on: "on_match ops on (l @ r) = Inr (\<not> is_null (l ! lk) \<and> \<not> is_null (r ! rk) \<and> row_code ops lk l = row_code ops rk r)"
    if "l \<in> set ls" "r \<in> set rs" for l r
    using equi_match [OF assms(1), of ops ty l rw r] assms(2,3) that by (simp add: row_code_def)
  then show "on_total ops on ls rs" by (auto simp: on_total_def)
  have "join_rows (on_holds ops on) jt lw rw (filter (\<lambda>t. \<not> is_null (t ! lk)) ls) (filter (\<lambda>t. \<not> is_null (t ! rk)) rs) =
      key_join (row_code ops lk) (row_code ops rk) jt lw rw (filter (\<lambda>t. \<not> is_null (t ! lk)) ls) (filter (\<lambda>t. \<not> is_null (t ! rk)) rs)"
    by (rule join_rows_key_join) (use on in \<open>auto simp: on_holds_def\<close>)
  then show "join_rows (on_holds ops on) jt lw rw ls rs =
      key_join (row_code ops lk) (row_code ops rk) jt lw rw (filter (\<lambda>t. \<not> is_null (t ! lk)) ls) (filter (\<lambda>t. \<not> is_null (t ! rk)) rs)
      + (if keeps_left jt then mset (map (\<lambda>l. pad_right l rw) (filter (\<lambda>t. is_null (t ! lk)) ls)) else {#})
      + (if keeps_right jt then mset (map (pad_left lw) (filter (\<lambda>t. is_null (t ! rk)) rs)) else {#})"
    using join_rows_aside [of ls rs "on_holds ops on" "\<lambda>t. \<not> is_null (t ! lk)" "\<lambda>t. \<not> is_null (t ! rk)" jt lw rw] on
    by (simp add: on_holds_def)
qed

context workspace
begin

lemma grace_start_ok:
  assumes "\<forall>l\<in>set ls. keyed_row ops ty (hj_left_width params) (hj_left_key params) l \<and> spillable ops (hj_left_schema params) l"
    "\<forall>r\<in>set rs. keyed_row ops ty (hj_right_width params) (hj_right_key params) r \<and> spillable ops (hj_right_schema params) r"
    "length ls \<le> capacity" "length rs \<le> capacity" "0 < jc_hash_partitions (hj_config params)" "ws_new ws = Inr w0"
  shows "\<exists>s. grace_start ops ws xxh3 params (Inr (rows_stream ls)) (Inr (rows_stream rs)) = Inr s \<and>
    stream_todo holds capacity ops ty params s
      (pair_join ops params (filter (\<lambda>t. \<not> is_null (t ! hj_left_key params)) ls, filter (\<lambda>t. \<not> is_null (t ! hj_right_key params)) rs)
       + null_rows params (filter (\<lambda>t. is_null (t ! hj_left_key params)) ls) (filter (\<lambda>t. is_null (t ! hj_right_key params)) rs))"
proof -
  let ?n = "jc_hash_partitions (hj_config params)" and ?lk = "hj_left_key params" and ?rk = "hj_right_key params"
  let ?L = "filter (\<lambda>t. \<not> is_null (t ! ?lk)) ls" and ?R = "filter (\<lambda>t. \<not> is_null (t ! ?rk)) rs"
  note new = new_buckets_ok [OF assms(6)]
  have l: "\<forall>t\<in>set ls. keyed_row ops ty (hj_left_width params) ?lk t \<and> (is_null (t ! ?lk) \<or> bucket_row ops ty (hj_left_width params) ?lk (hj_left_schema params) t)"
    and r: "\<forall>t\<in>set rs. keyed_row ops ty (hj_right_width params) ?rk t \<and> (is_null (t ! ?rk) \<or> bucket_row ops ty (hj_right_width params) ?rk (hj_right_schema params) t)"
    using assms(1,2) by (auto simp: bucket_row_def)
  have "\<exists>lp. partition_input ops ws xxh3 ?lk (hj_left_schema params) ?n (rows_stream ls) (replicate ?n w0) [] = Inr (lp, [] @ filter (\<lambda>t. is_null (t ! ?lk)) ls) \<and>
      length lp = ?n \<and> (\<forall>j<?n. rows_held holds capacity ops (hj_left_schema params) (lp ! j) ([] @ routed ops xxh3 ?lk 0 ?n ?L j))"
    by (rule partition_input_ok [OF l assms(5)]) (use assms(3) new(2) in auto)
  then obtain lp where lp: "partition_input ops ws xxh3 ?lk (hj_left_schema params) ?n (rows_stream ls) (replicate ?n w0) [] = Inr (lp, filter (\<lambda>t. is_null (t ! ?lk)) ls)"
    "length lp = ?n" "\<forall>j<?n. rows_held holds capacity ops (hj_left_schema params) (lp ! j) (routed ops xxh3 ?lk 0 ?n ?L j)" by auto
  have "\<exists>rp. partition_input ops ws xxh3 ?rk (hj_right_schema params) ?n (rows_stream rs) (replicate ?n w0) [] = Inr (rp, [] @ filter (\<lambda>t. is_null (t ! ?rk)) rs) \<and>
      length rp = ?n \<and> (\<forall>j<?n. rows_held holds capacity ops (hj_right_schema params) (rp ! j) ([] @ routed ops xxh3 ?rk 0 ?n ?R j))"
    by (rule partition_input_ok [OF r assms(5)]) (use assms(4) new(2) in auto)
  then obtain rp where rp: "partition_input ops ws xxh3 ?rk (hj_right_schema params) ?n (rows_stream rs) (replicate ?n w0) [] = Inr (rp, filter (\<lambda>t. is_null (t ! ?rk)) rs)"
    "length rp = ?n" "\<forall>j<?n. rows_held holds capacity ops (hj_right_schema params) (rp ! j) (routed ops xxh3 ?rk 0 ?n ?R j)" by auto
  let ?WL = "map (\<lambda>j. (routed ops xxh3 ?lk 0 ?n ?L j, routed ops xxh3 ?rk 0 ?n ?R j)) [0..<?n]"
  have "\<forall>t\<in>set ?L. left_row ops ty params t" "\<forall>t\<in>set ?R. right_row ops ty params t" "length ?L \<le> capacity" "length ?R \<le> capacity"
    using l r order_trans [OF length_filter_le assms(3)] order_trans [OF length_filter_le assms(4)] by (auto simp: left_row_def right_row_def)
  then have "list_all2 (pair_ok holds capacity ops ty params) (map (\<lambda>(l, r). (l, r, 0)) (zip lp rp)) ?WL"
    using lp(2,3) rp(2,3) by (auto simp: list_all2_conv_all_nth pair_ok_def dest!: set_routed intro: order_trans [OF routed_length])
  then have work: "list_all2 (pair_ok holds capacity ops ty params) (rev (map (\<lambda>(l, r). (l, r, 0)) (zip lp rp))) (rev ?WL)" by simp
  have "sum_list (map (pair_join ops params) (rev ?WL)) = pair_join ops params (?L, ?R)"
    using pair_join_routed [OF assms(5), of ops params xxh3 0 ?L ?R] by (simp add: rev_map [symmetric] sum_list_rev comp_def)
  then have "stream_todo holds capacity ops ty params
      \<lparr>gs_worklist = rev (map (\<lambda>(l, r). (l, r, 0)) (zip lp rp)), gs_current = None, gs_left_nulls = filter (\<lambda>t. is_null (t ! ?lk)) ls,
       gs_right_nulls = filter (\<lambda>t. is_null (t ! ?rk)) rs, gs_failed = False\<rparr>
      (pair_join ops params (?L, ?R) + null_rows params (filter (\<lambda>t. is_null (t ! ?lk)) ls) (filter (\<lambda>t. is_null (t ! ?rk)) rs))"
    unfolding stream_todo_def using work by (intro conjI exI [of _ "rev ?WL"] exI [of _ "{#}"]) simp_all
  then show ?thesis by (intro exI conjI [rotated]) (simp_all add: grace_start_def lp(1) rp(1) new(1))
qed

lemma grace_hash_join_rows:
  assumes "equi_keys on lw = Inr (lk, rk)" "\<forall>l\<in>set ls. keyed_row ops ty lw lk l \<and> spillable ops lsc l"
    "\<forall>r\<in>set rs. keyed_row ops ty rw rk r \<and> spillable ops rsc r" "length ls \<le> capacity" "length rs \<le> capacity"
    "0 < jc_hash_partitions config" "ws_new ws = Inr w0"
  obtains out where "grace_hash_join ops ws xxh3 config lw rw (Inr (rows_stream ls)) (Inr (rows_stream rs)) on jt lsc rsc = Some (Inr (rows_stream out))"
    "mset out = join_rows (on_holds ops on) jt lw rw ls rs"
proof -
  let ?params = "\<lparr>hj_type = jt, hj_left_key = lk, hj_right_key = rk, hj_left_width = lw, hj_right_width = rw,
      hj_left_schema = lsc, hj_right_schema = rsc, hj_config = config\<rparr>"
  have keyed: "\<forall>l\<in>set ls. keyed_row ops ty lw lk l" "\<forall>r\<in>set rs. keyed_row ops ty rw rk r" using assms(2,3) by auto
  have join: "pair_join ops ?params (filter (\<lambda>t. \<not> is_null (t ! lk)) ls, filter (\<lambda>t. \<not> is_null (t ! rk)) rs)
      + null_rows ?params (filter (\<lambda>t. is_null (t ! lk)) ls) (filter (\<lambda>t. is_null (t ! rk)) rs) = join_rows (on_holds ops on) jt lw rw ls rs"
    unfolding equi_join_rows(2) [OF assms(1) keyed] by (simp add: pair_join_def null_rows_def add.assoc)
  obtain s where s: "grace_start ops ws xxh3 ?params (Inr (rows_stream ls)) (Inr (rows_stream rs)) = Inr s"
    "stream_todo holds capacity ops ty ?params s (join_rows (on_holds ops on) jt lw rw ls rs)"
    using grace_start_ok [of ls ops ty ?params rs w0 xxh3, unfolded hash_join_params.simps, OF assms(2-7)] unfolding join by (elim exE conjE)
  obtain out where "grace_rows ops ws xxh3 ?params s = Some (rows_stream out)" "mset out = join_rows (on_holds ops on) jt lw rw ls rs"
    using grace_rows_ok [OF _ assms(7) s(2)] assms(6) by auto
  then show thesis using that s(1) assms(1) by (simp add: grace_hash_join_def)
qed

end

end
