(* ===== verification/Query_Plans.thy ===== *)
theory Query_Plans
  imports Grace_Join Table_Store
begin

text \<open>
  Query plans: the logical and physical operators of \<^verbatim>\<open>src/crates/strata-db/src/query/logical_plan.rs\<close> and
  \<^verbatim>\<open>physical_plan.rs\<close>, lowering one to the other in \<^verbatim>\<open>planner/lower.rs\<close>, the arity of a plan in
  \<^verbatim>\<open>volcano/join/mod.rs\<close>, building the row stream of a read plan in \<^verbatim>\<open>volcano/mod.rs\<close>, and the names and
  columns of the system relations in \<^verbatim>\<open>catalog/system.rs\<close>.

  A plan is built against one state of the storage engine; the pages its scans cache are not part of the
  result. What the system relations generate from the catalog is an argument. A build that does
  not return is \<open>None\<close>.
\<close>

section \<open>System relations\<close>

datatype system_relation =
    SysInfoSchemata | SysInfoTables | SysInfoColumns | SysDatabase | SysNamespace | SysClass | SysAttribute | SysType | SysStats

definition relation_resolve :: "bytes option \<Rightarrow> bytes \<Rightarrow> system_relation option" where
  "relation_resolve dataset name =
    (let in_info = (dataset = Some (ascii ''information_schema''));
         pg_ok = (dataset = None \<or> dataset = Some (ascii ''pg_catalog''))
     in if name = ascii ''schemata'' \<and> in_info then Some SysInfoSchemata
        else if name = ascii ''tables'' \<and> in_info then Some SysInfoTables
        else if name = ascii ''columns'' \<and> in_info then Some SysInfoColumns
        else if name \<in> {ascii ''pg_database'', ascii ''st_database''} \<and> pg_ok then Some SysDatabase
        else if name \<in> {ascii ''pg_namespace'', ascii ''st_namespace''} \<and> pg_ok then Some SysNamespace
        else if name \<in> {ascii ''pg_class'', ascii ''st_class''} \<and> pg_ok then Some SysClass
        else if name \<in> {ascii ''pg_attribute'', ascii ''st_attribute''} \<and> pg_ok then Some SysAttribute
        else if name \<in> {ascii ''pg_type'', ascii ''st_type''} \<and> pg_ok then Some SysType
        else if name \<in> {ascii ''pg_stats'', ascii ''st_stats''} \<and> pg_ok then Some SysStats
        else None)"

definition relation_schema :: "system_relation \<Rightarrow> schema" where
  "relation_schema rel =
    (let f = (\<lambda>name. field_new (ascii name)) in
     case rel of
       SysInfoSchemata \<Rightarrow> [f ''catalog_name'' TText, f ''schema_name'' TText, f ''schema_owner'' TText]
     | SysInfoTables \<Rightarrow> [f ''table_catalog'' TText, f ''table_schema'' TText, f ''table_name'' TText, f ''table_type'' TText]
     | SysInfoColumns \<Rightarrow>
         [f ''table_catalog'' TText, f ''table_schema'' TText, f ''table_name'' TText, f ''column_name'' TText, f ''ordinal_position'' TInt32,
          f ''column_default'' TText, f ''is_nullable'' TText, f ''data_type'' TText, f ''udt_name'' TText]
     | SysDatabase \<Rightarrow> [f ''oid'' TInt64, f ''datname'' TText]
     | SysNamespace \<Rightarrow> [f ''oid'' TInt64, f ''nspname'' TText, f ''nspowner'' TText]
     | SysClass \<Rightarrow>
         [f ''oid'' TInt64, f ''relname'' TText, f ''relnamespace'' TInt64, f ''relkind'' TText, f ''relnatts'' TInt32,
          f ''relhasindex'' TBool, f ''reltuples'' TInt64]
     | SysAttribute \<Rightarrow>
         [f ''attrelid'' TInt64, f ''attname'' TText, f ''atttypid'' TInt64, f ''attnum'' TInt32, f ''attnotnull'' TBool,
          f ''atthasdef'' TBool, f ''attisdropped'' TBool]
     | SysType \<Rightarrow>
         [f ''oid'' TInt64, f ''typname'' TText, f ''typlen'' TInt32, f ''typtype'' TText, f ''typcategory'' TText, f ''typelem'' TInt64]
     | SysStats \<Rightarrow>
         [f ''schemaname'' TText, f ''tablename'' TText, f ''attname'' TText, f ''null_frac'' TFloat32, f ''avg_width'' TInt32,
          f ''n_distinct'' TFloat32, f ''most_common_vals'' TText, f ''most_common_freqs'' TText, f ''histogram_bounds'' TText,
          f ''correlation'' TFloat32])"

section \<open>Plans\<close>

datatype ('j, 'd) logical_node =
    LScan table
  | LSystemScan system_relation
  | LFilter "('j, 'd) logical_node" "('j, 'd) expr"
  | LProject "('j, 'd) logical_node" "('j, 'd) expr list"
  | LLimit "('j, 'd) logical_node" nat
  | LOffset "('j, 'd) logical_node" nat
  | LJoin "('j, 'd) logical_node" "('j, 'd) logical_node" "('j, 'd) expr option" join_type schema schema
  | LSort "('j, 'd) logical_node" "('j, 'd) sort_term list" schema
  | LValues "('j, 'd) row list"
  | LInsert table "('j, 'd) logical_node"
  | LDelete table "('j, 'd) logical_node"
  | LCreateTable uuid uuid bytes schema bool
  | LCreateDataset uuid bytes bool

datatype join_strategy = NestedLoop | BlockNestedLoop | SortMerge | GraceHash

datatype ('j, 'd) plan_node =
    PSeqScan table
  | PSystemScan system_relation
  | PFilter "('j, 'd) plan_node" "('j, 'd) expr"
  | PProject "('j, 'd) plan_node" "('j, 'd) expr list"
  | PLimit "('j, 'd) plan_node" nat
  | POffset "('j, 'd) plan_node" nat
  | PSort "('j, 'd) plan_node" "('j, 'd) sort_term list" schema
  | PJoin "('j, 'd) plan_node" "('j, 'd) plan_node" "('j, 'd) expr option" join_type schema schema join_strategy
  | PValues "('j, 'd) row list"
  | PInsert table "('j, 'd) plan_node"
  | PDelete table "('j, 'd) plan_node"
  | PCreateTable uuid uuid bytes schema bool
  | PCreateDataset uuid bytes bool

primrec output_arity :: "('j, 'd) plan_node \<Rightarrow> nat" where
  "output_arity (PSeqScan t) = length (tb_schema t)"
| "output_arity (PSystemScan rel) = length (relation_schema rel)"
| "output_arity (PFilter input predicate) = output_arity input"
| "output_arity (PProject input exprs) = length exprs"
| "output_arity (PLimit input n) = output_arity input"
| "output_arity (POffset input n) = output_arity input"
| "output_arity (PSort input keys sc) = output_arity input"
| "output_arity (PJoin l r on jt lsc rsc strategy) = output_arity l + output_arity r"
| "output_arity (PValues rows) = (case rows of [] \<Rightarrow> 0 | t # _ \<Rightarrow> length t)"
| "output_arity (PInsert t input) = 0"
| "output_arity (PDelete t input) = 0"
| "output_arity (PCreateTable p d name sc or_replace) = 0"
| "output_arity (PCreateDataset p name if_not_exists) = 0"

section \<open>Lowering\<close>

definition equi_join_keys :: "('j, 'd) expr option \<Rightarrow> nat \<Rightarrow> (nat \<times> nat) option" where
  "equi_join_keys on left_arity =
    (case on of
       Some (EBinary BEq (EColumn a) (EColumn b)) \<Rightarrow>
         if a < left_arity \<and> left_arity \<le> b then Some (a, b - left_arity)
         else if b < left_arity \<and> left_arity \<le> a then Some (b, a - left_arity)
         else None
     | _ \<Rightarrow> None)"

definition sort_on_key :: "nat \<Rightarrow> ('j, 'd) sort_term list" where
  "sort_on_key column = [\<lparr>sk_expr = EColumn column, sk_ascending = True, sk_nulls_first = False\<rparr>]"

definition sort_on :: "('j, 'd) plan_node \<Rightarrow> nat \<Rightarrow> schema \<Rightarrow> ('j, 'd) plan_node" where
  "sort_on input column sc = PSort input (sort_on_key column) sc"

definition lower_join ::
    "('j, 'd) plan_node \<Rightarrow> ('j, 'd) plan_node \<Rightarrow> ('j, 'd) expr option \<Rightarrow> join_type \<Rightarrow> schema \<Rightarrow> schema \<Rightarrow> ('j, 'd) plan_node" where
  "lower_join left_p right_p on jt left_schema right_schema =
    (case equi_join_keys on (length left_schema) of
       Some (left_key, right_key) \<Rightarrow>
         if jt = JInner
         then PJoin (sort_on left_p left_key left_schema) (sort_on right_p right_key right_schema) on jt left_schema right_schema SortMerge
         else PJoin left_p right_p on jt left_schema right_schema BlockNestedLoop
     | None \<Rightarrow> PJoin left_p right_p on jt left_schema right_schema BlockNestedLoop)"

primrec lower :: "('j, 'd) logical_node \<Rightarrow> ('j, 'd) plan_node" where
  "lower (LScan t) = PSeqScan t"
| "lower (LSystemScan rel) = PSystemScan rel"
| "lower (LFilter input predicate) = PFilter (lower input) predicate"
| "lower (LProject input exprs) = PProject (lower input) exprs"
| "lower (LLimit input n) = PLimit (lower input) n"
| "lower (LOffset input n) = POffset (lower input) n"
| "lower (LJoin l r on jt lsc rsc) = lower_join (lower l) (lower r) on jt lsc rsc"
| "lower (LSort input keys sc) = PSort (lower input) keys sc"
| "lower (LValues rows) = PValues rows"
| "lower (LInsert t input) = PInsert t (lower input)"
| "lower (LDelete t input) = PDelete t (lower input)"
| "lower (LCreateTable p d name sc or_replace) = PCreateTable p d name sc or_replace"
| "lower (LCreateDataset p name if_not_exists) = PCreateDataset p name if_not_exists"

section \<open>Building the stream of a read plan\<close>

text \<open>What a query runs on: the engine and its state, the rows of the system relations, the libraries, the
  file system for temporary files.\<close>

record ('s, 'j, 'd, 'x) query_context =
  qc_ops :: "('j, 'd, 'x) expr_ops_scheme"
  qc_kv :: "'s kv_ops"
  qc_engine :: 's
  qc_relations :: "system_relation \<Rightarrow> query_error + ('j, 'd) row list"
  qc_join_config :: join_config
  qc_xxh3 :: xxh
  qc_cache :: "(disk_store, nat lruk) cache_env"
  qc_space :: nat

definition temp_ws :: "('s, 'j, 'd, 'x) query_context \<Rightarrow> nat \<Rightarrow> nat \<Rightarrow> file_workspace ws_ops" where
  "temp_ws ctx memory_budget disk_budget = file_ws (qc_cache ctx) \<lparr>of_data = [], of_space = qc_space ctx\<rparr> memory_budget disk_budget"

text \<open>The inputs of a join in the order they are built: the second is not built when the first fails.\<close>

definition join_inputs ::
    "(query_error + 'r) option \<Rightarrow> (query_error + 'r) option \<Rightarrow> (query_error + 'r \<Rightarrow> query_error + 'r \<Rightarrow> 'a option) \<Rightarrow> 'a option" where
  "join_inputs first second f =
    Option.bind first (\<lambda>a. case a of Inl e \<Rightarrow> f a (Inl e) | Inr _ \<Rightarrow> Option.bind second (f a))"

definition build_join ::
    "('s, 'j, 'd, 'x) query_context \<Rightarrow> nat \<Rightarrow> nat \<Rightarrow> (query_error + ('j, 'd) stream) option \<Rightarrow> (query_error + ('j, 'd) stream) option
     \<Rightarrow> ('j, 'd) expr option \<Rightarrow> join_type \<Rightarrow> schema \<Rightarrow> schema \<Rightarrow> join_strategy \<Rightarrow> (query_error + ('j, 'd) stream) option" where
  "build_join ctx lw rw left right on jt lsc rsc strategy =
    (case strategy of
       NestedLoop \<Rightarrow> join_inputs left right (\<lambda>l r. Some (nested_loop_join (qc_ops ctx) lw rw l r on jt))
     | BlockNestedLoop \<Rightarrow>
         join_inputs right left (\<lambda>r l. Some (block_nested_loop_join (qc_ops ctx) (mem_ws INNER_WORKSPACE_BUDGET) lw rw l r on jt rsc))
     | SortMerge \<Rightarrow>
         (case equi_keys on lw of
            Inl e \<Rightarrow> Some (Inl e)
          | Inr _ \<Rightarrow> join_inputs left right (\<lambda>l r. sort_merge_join (qc_ops ctx) lw l r on))
     | GraceHash \<Rightarrow>
         (case equi_keys on lw of
            Inl e \<Rightarrow> Some (Inl e)
          | Inr _ \<Rightarrow>
              let config = qc_join_config ctx in
              join_inputs left right (\<lambda>l r.
                grace_hash_join (qc_ops ctx) (temp_ws ctx (jc_partition_memory config) (jc_partition_disk config)) (qc_xxh3 ctx) config
                  lw rw l r on jt lsc rsc)))"

definition sink_error :: query_error where
  "sink_error = QInternal ''write sinks may only appear at the top of a plan''"

primrec build :: "('s, 'j, 'd, 'x) query_context \<Rightarrow> ('j, 'd) plan_node \<Rightarrow> (query_error + ('j, 'd) stream) option" where
  "build ctx (PSeqScan t) = Some (fst (table_scan (qc_kv ctx) (qc_ops ctx) t scan_all (qc_engine ctx)))"
| "build ctx (PSystemScan rel) = Some (res_map rows_stream (qc_relations ctx rel))"
| "build ctx (PFilter input predicate) = map_option (res_map (filter_rows (qc_ops ctx) predicate)) (build ctx input)"
| "build ctx (PProject input exprs) = map_option (res_map (project_rows (qc_ops ctx) exprs)) (build ctx input)"
| "build ctx (PLimit input n) = map_option (res_map (limit_rows n)) (build ctx input)"
| "build ctx (POffset input n) = map_option (res_map (offset_rows n)) (build ctx input)"
| "build ctx (PSort input keys sc) =
    map_option (\<lambda>rows. sort_rows (qc_ops ctx) (temp_ws ctx SORT_RUN_MEMORY SORT_RUN_DISK) rows keys sc) (build ctx input)"
| "build ctx (PJoin l r on jt lsc rsc strategy) =
    build_join ctx (output_arity l) (output_arity r) (build ctx l) (build ctx r) on jt lsc rsc strategy"
| "build ctx (PValues rows) = Some (Inr (rows_stream rows))"
| "build ctx (PInsert t input) = Some (Inl sink_error)"
| "build ctx (PDelete t input) = Some (Inl sink_error)"
| "build ctx (PCreateTable p d name sc or_replace) = Some (Inl sink_error)"
| "build ctx (PCreateDataset p name if_not_exists) = Some (Inl sink_error)"

end
