(* ===== verification/Join_Properties.thy ===== *)
theory Join_Properties
  imports Grace_Spec Workspace_Properties Query_Plans
begin

text \<open>
  The joins and the sort on their workspaces: the tuple-at-a-time nested loop computes the join, and every
  other algorithm gives the same rows.
\<close>

section \<open>Sorting both sides and merging\<close>

lemma pairs_perm:
  assumes "mset ls = mset ls'" "mset rs = mset rs'"
  shows "mset (pairs P ls rs) = mset (pairs P ls' rs')"
proof -
  have "mset (pairs P ls rs) = mset (pairs P ls' rs)"
    using assms(1) by (simp add: pairs_def mset_concat sum_mset_sum_list [symmetric] del: sum_mset_sum_list)
  also have "\<dots> = mset (pairs P ls' rs')"
    unfolding pairs_def by (rule concat_map_mset_cong) (use assms(2) in simp)
  finally show ?thesis .
qed

lemma sort_on_key_bytes:
  assumes "keyed_row ops ty w i t" "\<not> is_null (t ! i)"
  shows "sort_key_bytes ops (sort_on_key i) t = Inr [0 # value_key ops (t ! i)]"
  using keyed_rowD [OF assms(1)] assms(2) key_value_order(1) [of ops ty "t ! i" "t ! i"]
  by (simp add: sort_key_bytes_def sort_on_key_def sort_key_part_def)

lemma sorted_unwrap: "sorted (map (\<lambda>t. [c # f t]) ts) \<Longrightarrow> sorted (map (f :: _ \<Rightarrow> bytes) ts)"
  by (induction ts) auto

context workspace
begin

lemma sort_merge_join_rows:
  assumes "equi_keys on lw = Inr (lk, rk)"
    "\<forall>l\<in>set ls. keyed_row ops ty lw lk l \<and> \<not> is_null (l ! lk) \<and> spillable ops lsc l"
    "\<forall>r\<in>set rs. keyed_row ops ty rw rk r \<and> \<not> is_null (r ! rk) \<and> spillable ops rsc r"
    "min SORT_RUN_TUPLES (length ls) \<le> capacity" "min SORT_RUN_TUPLES (length rs) \<le> capacity" "ws_new ws = Inr w0"
  obtains out xs where "sort_rows ops ws (Inr (rows_stream ls)) (sort_on_key lk) lsc = Inr xs"
    "sort_merge_join ops lw (Inr xs) (sort_rows ops ws (Inr (rows_stream rs)) (sort_on_key rk) rsc) on = Some (Inr (rows_stream out))"
    "mset out = join_rows (on_holds ops on) JInner lw rw ls rs"
proof -
  define kl kr where "kl = (\<lambda>t. [0 # value_key ops (t ! lk)])" and "kr = (\<lambda>t. [0 # value_key ops (t ! rk)])"
  have "\<forall>t\<in>set ls. sortable ops (sort_on_key lk) lsc kl t" "\<forall>t\<in>set rs. sortable ops (sort_on_key rk) rsc kr t"
    using assms(2,3) sort_on_key_bytes [of ops ty lw lk] sort_on_key_bytes [of ops ty rw rk] by (auto simp: sortable_def kl_def kr_def)
  note sorts = sort_rows_stable [OF this(1) assms(4,6)] sort_rows_stable [OF this(2) assms(5,6)]
  define L R where "L = sort_key kl ls" and "R = sort_key kr rs"
  have rows: "\<forall>l\<in>set L. keyed_row ops ty lw lk l \<and> \<not> is_null (l ! lk)" "\<forall>r\<in>set R. keyed_row ops ty rw rk r \<and> \<not> is_null (r ! rk)"
    using assms(2,3) by (simp_all add: L_def R_def)
  have "sorted (map kl L)" "sorted (map kr R)" by (simp_all add: L_def R_def)
  then have "sorted (map (\<lambda>t. value_key ops (t ! lk)) L)" "sorted (map (\<lambda>t. value_key ops (t ! rk)) R)"
    unfolding kl_def kr_def by (auto dest: sorted_unwrap)
  from merge_rows_ok [OF rows this] have merged: "merge_rows ops lk rk L R [] = Some (Inr (key_pairs (row_code ops lk) (row_code ops rk) L R))"
    by (simp add: row_code_def [abs_def])
  have keyed: "\<forall>l\<in>set L. keyed_row ops ty lw lk l" "\<forall>r\<in>set R. keyed_row ops ty rw rk r" using rows by auto
  have "filter (\<lambda>t. \<not> is_null (t ! lk)) L = L" "filter (\<lambda>t. \<not> is_null (t ! rk)) R = R" using rows by (auto simp: filter_id_conv)
  then have "mset (key_pairs (row_code ops lk) (row_code ops rk) L R) = join_rows (on_holds ops on) JInner lw rw L R"
    using equi_join_rows(2) [OF assms(1) keyed, of JInner] by (simp add: key_join_def keeps_left_def keeps_right_def)
  also have "\<dots> = join_rows (on_holds ops on) JInner lw rw ls rs"
    using pairs_perm [of L ls R rs] by (simp add: join_rows_def keeps_left_def keeps_right_def L_def R_def)
  finally show thesis
    using that [of "rows_stream L" "key_pairs (row_code ops lk) (row_code ops rk) L R"] merged sorts assms(1)
    by (simp add: sort_merge_join_def L_def R_def res_map_def)
qed

end

lemma equi_join_keys_equi_keys:
  assumes "equi_join_keys on n = Some ks"
  shows "equi_keys on n = Inr ks"
proof -
  obtain a b where "on = Some (EBinary BEq (EColumn a) (EColumn b))"
    using assms by (auto simp: equi_join_keys_def split: option.splits expr.splits binary_operator.splits)
  then show ?thesis using assms by (simp add: equi_join_keys_def equi_keys_def split: if_splits)
qed

text \<open>The two plans of a lowered join.\<close>

lemma build_lowered_equi:
  assumes "build ctx lp = Some (Inr (rows_stream ls))" "build ctx rp = Some (Inr (rows_stream rs))" "output_arity lp = lw"
    "equi_keys on lw = Inr (lk, rk)"
    "\<forall>t\<in>set ls. keyed_row (qc_ops ctx) ty lw lk t \<and> \<not> is_null (t ! lk) \<and> spillable (qc_ops ctx) lsc t"
    "\<forall>t\<in>set rs. keyed_row (qc_ops ctx) ty rw rk t \<and> \<not> is_null (t ! rk) \<and> spillable (qc_ops ctx) rsc t"
    "min SORT_RUN_TUPLES (length ls) \<le> fw_capacity (qc_space ctx) SORT_RUN_DISK" "min SORT_RUN_TUPLES (length rs) \<le> fw_capacity (qc_space ctx) SORT_RUN_DISK"
    "BLOCK_SIZE \<le> qc_space ctx" "qc_cache ctx = disk_env crc jcrc"
  obtains out where "build ctx (PJoin (sort_on lp lk lsc) (sort_on rp rk rsc) on JInner lsc rsc SortMerge) = Some (Inr (rows_stream out))"
    "mset out = join_rows (on_holds (qc_ops ctx) on) JInner lw rw ls rs"
proof -
  let ?ops = "qc_ops ctx" and ?ws = "file_ws (disk_env crc jcrc) \<lparr>of_data = [], of_space = qc_space ctx\<rparr> SORT_RUN_MEMORY SORT_RUN_DISK"
  have "PAGE_SIZE \<le> SORT_RUN_DISK" by (simp add: PAGE_SIZE_def BLOCK_SIZE_def SORT_RUN_DISK_def)
  then obtain w where w: "fw_new \<lparr>of_data = [], of_space = qc_space ctx\<rparr> SORT_RUN_MEMORY SORT_RUN_DISK = Inr w"
    by (rule fw_new_opens [OF assms(9)])
  obtain out xs where "sort_rows ?ops ?ws (Inr (rows_stream ls)) (sort_on_key lk) lsc = Inr xs"
    "sort_merge_join ?ops lw (Inr xs) (sort_rows ?ops ?ws (Inr (rows_stream rs)) (sort_on_key rk) rsc) on = Some (Inr (rows_stream out))"
    "mset out = join_rows (on_holds ?ops on) JInner lw rw ls rs"
    by (rule file_work.sort_merge_join_rows [OF assms(4-8)]) (use w in \<open>simp add: file_ws_def\<close>)
  then show thesis using that assms(1-4,10) by (simp add: sort_on_def build_join_def join_inputs_def temp_ws_def)
qed

lemma build_lowered_block:
  assumes "build ctx lp = Some (Inr (rows_stream ls))" "build ctx rp = Some (Inr (rows_stream rs))" "output_arity lp = lw" "output_arity rp = rw"
    "on_total (qc_ops ctx) on ls rs" "\<forall>t\<in>set rs. spillable (qc_ops ctx) rsc t" "length rs \<le> INNER_WORKSPACE_BUDGET div PAGE_SIZE"
  obtains out where "build ctx (PJoin lp rp on jt lsc rsc BlockNestedLoop) = Some (Inr (rows_stream out))"
    "mset out = join_rows (on_holds (qc_ops ctx) on) jt lw rw ls rs"
proof -
  obtain w where "ws_new (mem_ws INNER_WORKSPACE_BUDGET) = Inr w" by (simp add: mem_ws_def mw_new_def INNER_WORKSPACE_BUDGET_def)
  then obtain out where "block_nested_loop_join (qc_ops ctx) (mem_ws INNER_WORKSPACE_BUDGET) lw rw (Inr (rows_stream ls)) (Inr (rows_stream rs)) on jt rsc =
      Inr (rows_stream out)" "mset out = join_rows (on_holds (qc_ops ctx) on) jt lw rw ls rs"
    by (rule mem_work.block_nested_loop_join_rows [OF assms(5-7)])
  then show thesis using that assms(1-4) by (simp add: build_join_def join_inputs_def)
qed

section \<open>A sample\<close>

text \<open>Two tables with one integer column, and the equality of the two columns.\<close>

definition sample_column :: schema where "sample_column = [field_new [97] TInt32]"
definition sample_on :: "(bool, bool \<times> u8) expr option" where "sample_on = Some (EBinary BEq (EColumn 0) (EColumn 1))"

lemma sample_rows:
  "spillable sample_expr_ops sample_column [VInt32 n]" "spillable sample_expr_ops sample_column [VNull]"
  "keyed_row sample_expr_ops TInt32 1 0 [VInt32 n]" "keyed_row sample_expr_ops TInt32 1 0 [VNull]"
  "equi_keys sample_on 1 = Inr (0, 0)"
proof -
  have rt: "codecs_roundtrip sample_expr_ops"
    using sample_roundtrip by (simp add: codecs_roundtrip_def sample_expr_ops_def codec_ops.extend_def)
  show "spillable sample_expr_ops sample_column [VInt32 n]" "spillable sample_expr_ops sample_column [VNull]"
    by (rule spillableI [OF rt];
        simp add: sample_column_def field_new_def row_storable_def schema_encoded_size_def bitmap_bytes_def max_tuple_def)+
  show "keyed_row sample_expr_ops TInt32 1 0 [VInt32 n]" "keyed_row sample_expr_ops TInt32 1 0 [VNull]"
    using sample_expr_decimals by (simp_all add: keyed_row_def key_value_def comparable_type_def)
  show "equi_keys sample_on 1 = Inr (0, 0)" by (simp add: sample_on_def equi_keys_def)
qed

lemma sample_on_total: "on_total sample_expr_ops sample_on [[VInt32 1], [VNull]] [[VInt32 1], [VInt32 2]]"
  by (auto simp: on_total_def sample_on_def on_match_eq)

section \<open>Properties\<close>

text \<open>C20. The nested-loop join computes the join. When the condition is decided on every pair of rows, the result
  has every matching pair once, as left row followed by right row, and in a LEFT or FULL join every
  left row without a match, padded with as many NULLs as the right side has columns, in a RIGHT or
  FULL join every right row without a match; nothing else. A condition that fails on some pair makes
  the join fail.\<close>

theorem nested_loop_computes_join:
  "if on_total ops on ls rs
   then \<exists>out. nested_loop_join ops lw rw (Inr (rows_stream ls)) (Inr (rows_stream rs)) on jt = Inr (rows_stream out) \<and>
     mset out = join_rows (on_holds ops on) jt lw rw ls rs
   else \<exists>e. nested_loop_join ops lw rw (Inr (rows_stream ls)) (Inr (rows_stream rs)) on jt = Inl e"
proof (cases "on_total ops on ls rs")
  case True
  then obtain out where "nested_loop_join ops lw rw (Inr (rows_stream ls)) (Inr (rows_stream rs)) on jt = Inr (rows_stream out)"
    "mset out = join_rows (on_holds ops on) jt lw rw ls rs" by (rule nested_loop_join_rows)
  then show ?thesis using True by auto
next
  case False
  then show ?thesis using nl_outer_fails [OF False, of "replicate (length rs) False" jt rw] by (auto simp: nested_loop_join_def)
qed

text \<open>C19. The block nested-loop join gives the rows of the nested-loop join. It reads the inner side back from its
  workspace of encoded rows once per block of 1024 outer rows, whatever the join type and the
  condition; the order of the rows may differ. The inner rows must fit their schema and a page,
  and there may be as many of them as the workspace has pages.\<close>

theorem block_nested_loop_agrees:
  assumes "on_total ops on ls rs" and "\<forall>r\<in>set rs. spillable ops sc r" and "length rs \<le> INNER_WORKSPACE_BUDGET div PAGE_SIZE"
  shows "\<exists>out out'. block_nested_loop_join ops (mem_ws INNER_WORKSPACE_BUDGET) lw rw (Inr (rows_stream ls)) (Inr (rows_stream rs)) on jt sc =
      Inr (rows_stream out) \<and>
    nested_loop_join ops lw rw (Inr (rows_stream ls)) (Inr (rows_stream rs)) on jt = Inr (rows_stream out') \<and> mset out = mset out'"
proof -
  obtain w where "ws_new (mem_ws INNER_WORKSPACE_BUDGET) = Inr w" by (simp add: mem_ws_def mw_new_def INNER_WORKSPACE_BUDGET_def)
  then obtain out where "block_nested_loop_join ops (mem_ws INNER_WORKSPACE_BUDGET) lw rw (Inr (rows_stream ls)) (Inr (rows_stream rs)) on jt sc =
      Inr (rows_stream out)" "mset out = join_rows (on_holds ops on) jt lw rw ls rs"
    by (rule mem_work.block_nested_loop_join_rows [OF assms])
  moreover obtain out' where "nested_loop_join ops lw rw (Inr (rows_stream ls)) (Inr (rows_stream rs)) on jt = Inr (rows_stream out')"
    "mset out' = join_rows (on_holds ops on) jt lw rw ls rs" by (rule nested_loop_join_rows [OF assms(1)])
  ultimately show ?thesis by (intro exI [of _ out] exI [of _ out']) simp
qed

theorem block_nested_loop_agrees_witness:
  "\<exists>out out'. block_nested_loop_join sample_expr_ops (mem_ws INNER_WORKSPACE_BUDGET) 1 1
      (Inr (rows_stream [[VInt32 1], [VNull]])) (Inr (rows_stream [[VInt32 1], [VInt32 2]])) sample_on JFull sample_column = Inr (rows_stream out) \<and>
    nested_loop_join sample_expr_ops 1 1 (Inr (rows_stream [[VInt32 1], [VNull]])) (Inr (rows_stream [[VInt32 1], [VInt32 2]])) sample_on JFull =
      Inr (rows_stream out') \<and> mset out = mset out'"
  by (rule block_nested_loop_agrees [OF sample_on_total]) (simp_all add: sample_rows INNER_WORKSPACE_BUDGET_def PAGE_SIZE_def BLOCK_SIZE_def)



text \<open>C17. The stream of a grace hash join ends. In every state, whatever the spilled rows, the keys, the
  workspaces and the configuration, a call of \<open>next\<close> returns, and driving the stream gives finitely many
  rows followed by at most one error, which is its last item.\<close>

theorem grace_stream_ends:
  "(\<exists>r s'. grace_next ops ws xxh3 params s = Some (r, s')) \<and>
   (\<exists>rows errs. grace_rows ops ws xxh3 params s = Some (map Inr rows @ map Inl errs) \<and> length errs \<le> 1)"
  using grace_next_total grace_rows_total by blast

text \<open>C18. The external sort is the stable sort. For rows whose sort keys can be computed and that survive their
  schema and fit in a page, generating sorted runs of at most 4096 rows, spilling each to a file
  workspace and merging them through the heap gives the rows in the order of their keys, rows
  with equal keys in the order of the input.\<close>

theorem external_sort_stable:
  assumes "\<forall>t\<in>set ts. spillable ops sc t \<and> sort_key_bytes ops keys t = Inr (k t)"
    and "min SORT_RUN_TUPLES (length ts) \<le> fw_capacity space SORT_RUN_DISK" and "BLOCK_SIZE \<le> space"
  shows "sort_rows ops (file_ws (disk_env crc jcrc) \<lparr>of_data = [], of_space = space\<rparr> SORT_RUN_MEMORY SORT_RUN_DISK)
    (Inr (rows_stream ts)) keys sc = Inr (rows_stream (sort_key k ts))"
proof -
  have "PAGE_SIZE \<le> SORT_RUN_DISK" by (simp add: PAGE_SIZE_def BLOCK_SIZE_def SORT_RUN_DISK_def)
  then obtain w where w: "fw_new \<lparr>of_data = [], of_space = space\<rparr> SORT_RUN_MEMORY SORT_RUN_DISK = Inr w"
    by (rule fw_new_opens [OF assms(3)])
  have "\<forall>t\<in>set ts. sortable ops keys sc k t" using assms(1) by (simp add: sortable_def)
  then show ?thesis by (rule file_work.sort_rows_stable [OF _ assms(2)]) (use w in \<open>simp add: file_ws_def\<close>)
qed

text \<open>Descending, NULLs first.\<close>

theorem external_sort_stable_witness:
  "sort_rows sample_expr_ops (file_ws (disk_env crc_zero (\<lambda>_. 7)) \<lparr>of_data = [], of_space = 1000000\<rparr> SORT_RUN_MEMORY SORT_RUN_DISK)
    (Inr (rows_stream [[VInt32 1], [VNull], [VInt32 2]])) [\<lparr>sk_expr = EColumn 0, sk_ascending = False, sk_nulls_first = True\<rparr>] sample_column
    = Inr (rows_stream [[VNull], [VInt32 2], [VInt32 1]])"
proof -
  let ?keys = "[\<lparr>sk_expr = EColumn 0, sk_ascending = False, sk_nulls_first = True\<rparr>]"
  let ?k = "\<lambda>t. case sort_key_bytes sample_expr_ops ?keys t of Inl _ \<Rightarrow> [] | Inr k \<Rightarrow> k"
  have int_keys: "int32_key 1 = [128, 0, 0, 1]" "int32_key 2 = [128, 0, 0, 2]" by (code_simp, code_simp)
  have k: "sort_key_bytes sample_expr_ops ?keys [VNull] = Inr [[0]]"
    "sort_key_bytes sample_expr_ops ?keys [VInt32 1] = Inr [[1, 127, 255, 255, 254]]"
    "sort_key_bytes sample_expr_ops ?keys [VInt32 2] = Inr [[1, 127, 255, 255, 253]]"
    by (simp_all add: sort_key_bytes_def sort_key_part_def int_keys)
  have "sort_rows sample_expr_ops (file_ws (disk_env crc_zero (\<lambda>_. 7)) \<lparr>of_data = [], of_space = 1000000\<rparr> SORT_RUN_MEMORY SORT_RUN_DISK)
      (Inr (rows_stream [[VInt32 1], [VNull], [VInt32 2]])) ?keys sample_column = Inr (rows_stream (sort_key ?k [[VInt32 1], [VNull], [VInt32 2]]))"
    by (rule external_sort_stable) (simp_all add: sample_rows k fw_capacity_def SORT_RUN_DISK_def SORT_RUN_TUPLES_def PAGE_SIZE_def BLOCK_SIZE_def)
  then show ?thesis by (simp add: k)
qed


text \<open>The join of two lists of values, without a merge and with one.\<close>

definition sample_context :: "(bool, bool, bool \<times> u8, unit) query_context" where
  "sample_context = \<lparr>qc_ops = sample_expr_ops,
     qc_kv = \<lparr>kv_put = (\<lambda>_ _. st_return ()), kv_delete = (\<lambda>_. st_return ()), kv_get = (\<lambda>_. st_return None), kv_scan = (\<lambda>_ _. st_return [])\<rparr>,
     qc_engine = False, qc_relations = (\<lambda>_. Inr []), qc_join_config = from_system_memory 64,
     qc_xxh3 = (\<lambda>_ _. 3), qc_cache = disk_env crc_zero (\<lambda>_. 7), qc_space = 1000000\<rparr>"



text \<open>The sort term for the first column in descending order.\<close>

definition descending :: "bool \<Rightarrow> ('j, 'd) sort_term" where
  "descending nf = \<lparr>sk_expr = EColumn 0, sk_ascending = False, sk_nulls_first = nf\<rparr>"

text \<open>C39. Descending order of texts where one is a prefix of the other. Inverting the bytes of a key
  leaves a prefix a prefix, so the shorter text, which is the lesser one, has the lesser sort key also under DESC
  and comes first.\<close>

theorem descending_prefix_sorts_first:
  "\<exists>shorter longer. sort_key_bytes ops [descending nf] [VText s] = Inr shorter \<and> sort_key_bytes ops [descending nf] [VText (s @ c # t)] = Inr longer \<and>
    shorter < longer \<and> cmp_values ops (VText s) (VText (s @ c # t)) = Inr Less"
proof -
  let ?p = "if nf then 1 else 0 :: u8"
  have k: "sort_key_bytes ops [descending nf] [VText u] = Inr [?p # map not u]" for u
    by (simp add: sort_key_bytes_def sort_key_part_def descending_def res_map_def)
  have less: "u < u @ (d :: u8) # v" for u d v by (induction u) simp_all
  show ?thesis using less [of "map not s" "not c" "map not t"] less [of s c t]
    by (simp add: k cmp_values.simps numeric_cmp_def both_def as_i64_def as_decimal_def as_f64_def ord_cmp_def)
qed

end
