(* ===== verification/Spec2Isabelle.thy ===== *)
theory Spec2Isabelle
  imports Table_Properties Workspace_Properties Join_Properties
begin

text \<open>
  Verification of strata-db, an embedded SQL database in Rust. Paths below are under
  \<^verbatim>\<open>src/crates\<close>.

  \<^bold>\<open>The program.\<close> Five crates, bottom up. \<^verbatim>\<open>journal\<close> is an append-only log of framed records.
  \<^verbatim>\<open>filesystem\<close> has typed pages, block stores, a page cache with a redo journal, a heap of tuples in
  slotted pages, and scratch workspaces. \<^verbatim>\<open>lsm\<close> is a log-structured merge tree: a journaled memtable,
  SSTables and a manifest. \<^verbatim>\<open>strata-store\<close> combines them: tuples live in the heap, the tree maps
  keys to their locations. \<^verbatim>\<open>strata-db\<close> puts types, codecs, tables, expressions and a
  volcano-style executor on top.

  \<^bold>\<open>Conventions.\<close> A fallible function returns a value of \<open>error + 'a\<close>, \<open>Inl\<close> being the error. A
  panic is an error of its own or \<open>None\<close>. An operation that changes its object takes the state and returns
  the new one. A file is its list of bytes, a directory the files it holds. Integers are words
  where the code computes with them at their width, and natural numbers for \<open>usize\<close>. Crates outside
  the repository (checksums, \<open>fastbloom\<close>, \<open>rust_decimal\<close>, \<open>chrono\<close>, JSON, \<open>xxhash_rust\<close>) are arguments; what
  a property needs of one is a hypothesis with a concrete instance in its witness. Traits are
  locales, interpreted on the implementations of the code.

  \<^bold>\<open>Journal and tree.\<close>
  \<^item> \<^verbatim>\<open>Strata_Prelude\<close>, \<^verbatim>\<open>Codec\<close>: bytes, big-endian integers, results; the contract of an
    encoder and its decoder (\<^verbatim>\<open>filesystem/src/codec.rs\<close>).
  \<^item> \<^verbatim>\<open>Journal\<close> (\<^verbatim>\<open>journal/src\<close>): frames, opening, appending, replay, truncation. Replay gives the
    appended records; an append cut at any byte is lost as a whole.
  \<^item> \<^verbatim>\<open>Lsm_Types\<close>, \<^verbatim>\<open>Memtable\<close>, \<^verbatim>\<open>Manifest\<close> (\<^verbatim>\<open>lsm/src/key.rs\<close>, \<^verbatim>\<open>memstore\<close>, \<^verbatim>\<open>manifest\<close>): internal keys and their
    order, the memtable and its log, edits and versions with \<^verbatim>\<open>CURRENT\<close>, checkpoints and garbage
    collection; recovery after a crash at any byte.
  \<^item> \<^verbatim>\<open>Sst_Header\<close>, \<^verbatim>\<open>Sstable\<close>, \<^verbatim>\<open>Sst_Layout\<close>, \<^verbatim>\<open>Sst_Scan\<close> (\<^verbatim>\<open>lsm/src/storage\<close>): tables on the bytes of
    their files; lookups and scans return the records written.
  \<^item> \<^verbatim>\<open>Merge_Iterator\<close> (\<^verbatim>\<open>lsm/src/iterator.rs\<close>): merging and resolving versions.
  \<^item> \<^verbatim>\<open>Lsm\<close>, \<^verbatim>\<open>Lsm_View\<close>, \<^verbatim>\<open>Lsm_Refinement\<close>, \<^verbatim>\<open>Lsm_Properties\<close> (\<^verbatim>\<open>lsm/src/lib.rs\<close>): the tree refines a map,
    recovers it after a crash, and keeps snapshots.

  \<^bold>\<open>Pages and heap.\<close>
  \<^item> \<^verbatim>\<open>Policies\<close>, \<^verbatim>\<open>Memo_Cache\<close> (\<^verbatim>\<open>filesystem/src/cache\<close>): eviction policies and the read-through cache.
  \<^item> \<^verbatim>\<open>Pages\<close>, \<^verbatim>\<open>Tuple_Page\<close>, \<^verbatim>\<open>Block_Store\<close> (\<^verbatim>\<open>filesystem/src/page\<close>, \<^verbatim>\<open>tuple/page.rs\<close>, \<^verbatim>\<open>block\<close>): page headers and
    checksums, the slotted page as a list of slots, the two stores.
  \<^item> \<^verbatim>\<open>Page_Cache\<close>, \<^verbatim>\<open>Page_Pool\<close> (\<^verbatim>\<open>cache/mod.rs\<close>, \<^verbatim>\<open>block/journal.rs\<close>): frames, pins, eviction, flushing with
    the redo journal; the invariant of the pool and the page every id stands for.
  \<^item> \<^verbatim>\<open>Tuple_Heap\<close>, \<^verbatim>\<open>Heap_Recovery\<close>, \<^verbatim>\<open>Heap_Properties\<close>, \<^verbatim>\<open>Heap_Scan\<close> (\<^verbatim>\<open>tuple/heap.rs\<close>): the heap refines a
    map from locations to tuples, and a crash during a flush leaves the state before or after it.
  \<^item> \<^verbatim>\<open>Workspaces\<close>, \<^verbatim>\<open>Workspace_Properties\<close> (\<^verbatim>\<open>memory.rs\<close>, \<^verbatim>\<open>workspace.rs\<close>): the scratch space of operators; both
    backings replay what was appended.

  \<^bold>\<open>Engine and tables.\<close>
  \<^item> \<^verbatim>\<open>Store_Engine\<close>, \<^verbatim>\<open>Engine_Refinement\<close>, \<^verbatim>\<open>Engine_Properties\<close> (\<^verbatim>\<open>strata-store/src\<close>): the engine composes
    the refinements of the tree and of the heap into one of a map from keys to values.
  \<^item> \<^verbatim>\<open>Db_Types\<close>, \<^verbatim>\<open>Value_Codec\<close>, \<^verbatim>\<open>Key_Codec\<close>, \<^verbatim>\<open>Key_Order\<close>, \<^verbatim>\<open>Codec_Properties\<close> (\<^verbatim>\<open>strata-db/src/storage/codec\<close>,
    \<^verbatim>\<open>types.rs\<close>, \<^verbatim>\<open>catalog/schema.rs\<close>): rows read back as written, keys order as values.
  \<^item> \<^verbatim>\<open>Query_Types\<close>, \<^verbatim>\<open>Table_Store\<close>, \<^verbatim>\<open>Table_Properties\<close> (\<^verbatim>\<open>storage/row.rs\<close>, \<^verbatim>\<open>storage/table_api.rs\<close>, \<^verbatim>\<open>catalog/ids.rs\<close>): every
    table is a map from keys to rows, and no table disturbs another.

  \<^bold>\<open>Queries\<close> (\<^verbatim>\<open>strata-db/src/query\<close>).
  \<^item> \<^verbatim>\<open>Floats\<close>, \<^verbatim>\<open>Temporal\<close>, \<^verbatim>\<open>Expressions\<close>, \<^verbatim>\<open>Expr_Eval\<close>, \<^verbatim>\<open>Like_Match\<close>, \<^verbatim>\<open>Expr_Properties\<close> (\<^verbatim>\<open>expression\<close>,
    \<^verbatim>\<open>storage/temporal.rs\<close>): evaluation with its errors; three-valued logic, casts, exact integers, \<open>LIKE\<close>.
  \<^item> \<^verbatim>\<open>Row_Streams\<close>, \<^verbatim>\<open>Join_Spec\<close> (\<^verbatim>\<open>volcano/scalar.rs\<close>, \<^verbatim>\<open>volcano/join/nested_loop.rs\<close>): a stream is the list
    of what its \<open>next\<close> yields; a join is specified by the multiset of its rows.
  \<^item> \<^verbatim>\<open>External_Sort\<close>, \<^verbatim>\<open>Merge_Join\<close>, \<^verbatim>\<open>Grace_Join\<close>, \<^verbatim>\<open>Grace_Spec\<close> (\<^verbatim>\<open>volcano/sort.rs\<close>, \<^verbatim>\<open>join/merge.rs\<close>,
    \<^verbatim>\<open>join/grace.rs\<close>, \<^verbatim>\<open>config.rs\<close>): sorting with spilled runs, merging, hashing with repartitioning.
  \<^item> \<^verbatim>\<open>Query_Plans\<close> (\<^verbatim>\<open>logical_plan.rs\<close>, \<^verbatim>\<open>physical_plan.rs\<close>, \<^verbatim>\<open>planner/lower.rs\<close>, \<^verbatim>\<open>volcano/mod.rs\<close>): plans, lowering
    and building streams. \<^verbatim>\<open>Join_Properties\<close>: all algorithms give the rows of the nested loop, and lowering
    preserves a join.

  \<^bold>\<open>Bounds and termination.\<close> No definition takes fuel. Loops that end for a reason the code shows are
  functions with a measure: the bytes left of a journal, the records left of the sources of a merge, the
  repartitioning level and the rows left of a hash join. Loops for which that is a matter of the data,
  as the merge of a sort-merge join, are partial functions with the value \<open>None\<close> where they do not return,
  and the properties state that they return. A file has a bound on its size, so a full disk is a branch of
  the model; a property that needs room names how much. The budgets of the code (page size, slab and
  workspace budgets, run length) have the values of the code.

  \<^bold>\<open>Defects shown.\<close> Some properties state what the code does where its comments promise something
  else: records appended after a torn tail are lost, a rejected write blocks the next opening, a
  checkpoint after a torn checkpoint loses runs, a NULL key fails a sort-merge join, texts sort wrongly in
  descending order when one is a prefix of the other.

  \<^bold>\<open>Not modelled.\<close> Operating-system failures other than a full disk and missing files; threads, since
  a database has one owner; direct I/O. The catalog's documents, which are JSON in the format of \<open>serde\<close>;
  the binder, which walks the syntax tree of the crate \<open>sqlparser\<close>; the optimizer passes, which do nothing yet;
  the write sinks and \<open>run\<close>; chains of text pages, which nothing calls; the server and the command line. The
  rows of the system relations are an argument of a query. Compaction exists in the code as a
  vocabulary of plans only, which \<^verbatim>\<open>Manifest\<close> has.
\<close>

end
